(* ===== verification/Base.thy ===== *)
theory Base
  imports Main "HOL-Library.Word" "HOL-Library.Monad_Syntax" "HOL-Library.AList"
begin

text \<open>
  Shared vocabulary of the development: C's character and integer conventions on an LP64
  machine, the few functions of the C library that the modelled sources call, pointers, and
  generic facts on lists and association lists.

  A C \<open>char\<close> (one byte) is a HOL \<open>char\<close>; \<open>uchar\<close> reads it as an \<open>unsigned char\<close> and \<open>schar\<close>
  as the signed \<open>char\<close> of x86. A NUL-terminated string is a list of characters without the
  terminator; a buffer is a list that holds it.
\<close>

named_theorems c_defs \<open>definitions of the C library functions the code calls\<close>

type_synonym addr = nat
type_synonym ptr = "addr option"
type_synonym ulong = "64 word"
type_synonym uint32 = "32 word"

text \<open>The status codes of \<^verbatim>\<open>php.h\<close>.\<close>

abbreviation (input) SUCCESS :: int where "SUCCESS \<equiv> 0"
abbreviation (input) FAILURE :: int where "FAILURE \<equiv> - 1"

subsection \<open>Characters\<close>

abbreviation NUL :: char where "NUL \<equiv> CHR 0x00"

definition uchar :: "char \<Rightarrow> nat" where
  "uchar c = of_char c"

definition schar :: "char \<Rightarrow> int" where
  "schar c = (if uchar c < 128 then int (uchar c) else int (uchar c) - 256)"

text \<open>Storing an integer into a \<open>char\<close> keeps its low eight bits.\<close>

definition to_char :: "nat \<Rightarrow> char" where
  "to_char n = char_of (n mod 256)"

lemma uchar_less [simp]: "uchar c < 256"
  by (simp add: uchar_def)

lemma uchar_div [simp]: "uchar c div 16 < 16" "uchar c div 64 < 4" "uchar c div 4 < 64"
  by (rule less_mult_imp_div_less, simp)+

lemma uchar_inject [simp]: "uchar c = uchar d \<longleftrightarrow> c = d"
  by (simp add: uchar_def)

lemma to_char_uchar [simp]: "to_char (uchar c) = c"
  by (simp add: to_char_def uchar_def)

lemma uchar_to_char [simp]: "uchar (to_char n) = n mod 256"
  by (simp add: to_char_def uchar_def)

lemma to_char_small: "n < 256 \<Longrightarrow> uchar (to_char n) = n"
  by simp

lemma uchar_NUL [simp]: "uchar NUL = 0"
  by (simp add: uchar_def)

lemma uchar_eq_0 [simp]: "uchar c = 0 \<longleftrightarrow> c = NUL"
  by (metis uchar_NUL uchar_inject)

lemma schar_bounds: "-128 \<le> schar c \<and> schar c < 128"
  using uchar_less [of c] by (simp add: schar_def del: uchar_less)

subsection \<open>The character classes of the C locale\<close>

definition isdigit :: "char \<Rightarrow> bool" where
  "isdigit c \<longleftrightarrow> 48 \<le> uchar c \<and> uchar c \<le> 57"

definition isupper :: "char \<Rightarrow> bool" where
  "isupper c \<longleftrightarrow> 65 \<le> uchar c \<and> uchar c \<le> 90"

definition islower :: "char \<Rightarrow> bool" where
  "islower c \<longleftrightarrow> 97 \<le> uchar c \<and> uchar c \<le> 122"

definition isxdigit :: "char \<Rightarrow> bool" where
  "isxdigit c \<longleftrightarrow> isdigit c \<or> (65 \<le> uchar c \<and> uchar c \<le> 70) \<or> (97 \<le> uchar c \<and> uchar c \<le> 102)"

definition isspace :: "char \<Rightarrow> bool" where
  "isspace c \<longleftrightarrow> uchar c = 32 \<or> (9 \<le> uchar c \<and> uchar c \<le> 13)"

definition tolower :: "char \<Rightarrow> char" where
  "tolower c = (if isupper c then to_char (uchar c + 32) else c)"

definition toupper :: "char \<Rightarrow> char" where
  "toupper c = (if islower c then to_char (uchar c - 32) else c)"

lemmas [c_defs] = isdigit_def isupper_def islower_def isxdigit_def isspace_def tolower_def toupper_def

subsection \<open>The C library's string functions\<close>

definition cstr :: "char list \<Rightarrow> char list" where
  "cstr s = takeWhile (\<lambda>c. c \<noteq> NUL) s"

lemma cstr_no_NUL [simp]: "NUL \<notin> set (cstr s)"
  by (auto simp: cstr_def dest: set_takeWhileD)

lemma cstr_id: "NUL \<notin> set s \<Longrightarrow> cstr s = s"
  unfolding cstr_def by (rule takeWhile_eq_all_conv [THEN iffD2]) auto

lemma cstr_append_NUL: "NUL \<notin> set s \<Longrightarrow> cstr (s @ NUL # r) = s"
  unfolding cstr_def by (subst takeWhile_append2) auto

text \<open>\<open>strtol(s, NULL, 10)\<close>: skip white space, an optional sign, digits, saturate.\<close>

fun dec_val :: "nat \<Rightarrow> char list \<Rightarrow> nat" where
  "dec_val acc [] = acc"
| "dec_val acc (c # cs) = dec_val (10 * acc + (uchar c - 48)) cs"

definition LONG_MAX :: int where "LONG_MAX = 9223372036854775807"
definition LONG_MIN :: int where "LONG_MIN = - 9223372036854775808"

definition strtol10 :: "char list \<Rightarrow> int" where
  "strtol10 s =
     (let s1 = dropWhile isspace s;
          neg = (s1 \<noteq> [] \<and> hd s1 = CHR ''-'');
          s2 = (if s1 \<noteq> [] \<and> (hd s1 = CHR ''-'' \<or> hd s1 = CHR ''+'') then tl s1 else s1);
          v = int (dec_val 0 (takeWhile isdigit s2))
      in if neg then max LONG_MIN (- v) else min LONG_MAX v)"

subsection \<open>Signed machine integers\<close>

text \<open>Conversion of a mathematical integer to a \<open>w\<close>-bit two's complement one.\<close>

definition wrap_int :: "int \<Rightarrow> int" where
  "wrap_int x = (x + 2147483648) mod 4294967296 - 2147483648"

lemma wrap_int_id: "- 2147483648 \<le> x \<Longrightarrow> x < 2147483648 \<Longrightarrow> wrap_int x = x"
  by (simp add: wrap_int_def)

lemma wrap_int_add: "wrap_int (wrap_int a + b) = wrap_int (a + b)"
proof -
  have "((a + 2147483648) mod 4294967296 + b) mod 4294967296 = (a + 2147483648 + b) mod 4294967296" by (rule mod_add_left_eq)
  then show ?thesis by (simp add: wrap_int_def algebra_simps)
qed

lemma wrap_int_less: "wrap_int x < 2 ^ 31"
  by (simp add: wrap_int_def)

text \<open>A value stored into a \<open>long\<close>.\<close>

definition wrap_long :: "int \<Rightarrow> int" where
  "wrap_long v = (v + 2 ^ 63) mod 2 ^ 64 - 2 ^ 63"

lemma wrap_long_id: "LONG_MIN \<le> v \<Longrightarrow> v \<le> LONG_MAX \<Longrightarrow> wrap_long v = v"
  by (simp add: wrap_long_def LONG_MIN_def LONG_MAX_def)

lemma wrap_long_bounds: "LONG_MIN \<le> wrap_long v" "wrap_long v \<le> LONG_MAX"
proof -
  have "0 \<le> (v + 2 ^ 63) mod 2 ^ 64" "(v + 2 ^ 63) mod 2 ^ 64 < 2 ^ 64" by simp_all
  then show "LONG_MIN \<le> wrap_long v" "wrap_long v \<le> LONG_MAX"
    by (simp_all add: wrap_long_def LONG_MIN_def LONG_MAX_def)
qed

lemma wrap_long_cong: "wrap_long a = wrap_long b \<longleftrightarrow> a mod 2 ^ 64 = b mod 2 ^ 64"
proof -
  have "wrap_long a = wrap_long b \<longleftrightarrow> (a + 2 ^ 63) mod 2 ^ 64 = (b + 2 ^ 63) mod 2 ^ 64"
    by (simp add: wrap_long_def)
  also have "\<dots> \<longleftrightarrow> a mod 2 ^ 64 = b mod 2 ^ 64" by (simp only: mod_eq_dvd_iff) simp
  finally show ?thesis .
qed

lemma wrap_long_mod: "wrap_long v mod 2 ^ 64 = v mod 2 ^ 64"
  unfolding wrap_long_def mod_diff_left_eq by simp

lemma wrap_long_add: "wrap_long (wrap_long a + b) = wrap_long (a + b)" "wrap_long (a + wrap_long b) = wrap_long (a + b)"
  unfolding wrap_long_cong by (metis mod_add_left_eq wrap_long_mod) (metis mod_add_right_eq wrap_long_mod)

lemma wrap_long_mult: "wrap_long (wrap_long a * b) = wrap_long (a * b)" "wrap_long (a * wrap_long b) = wrap_long (a * b)"
  unfolding wrap_long_cong by (metis mod_mult_left_eq wrap_long_mod) (metis mod_mult_right_eq wrap_long_mod)

text \<open>
  \<open>emalloc\<close> of this repository gives a block of one size, whatever size it is asked for (the theory \<open>Alloc\<close>
  has the memory manager itself).
\<close>

definition MAX_STRING_VAL_LEN :: nat where "MAX_STRING_VAL_LEN = 100"

definition block_bytes :: "int \<Rightarrow> nat" where
  "block_bytes asked = MAX_STRING_VAL_LEN * 8"

lemma block_bytes_800 [simp]: "block_bytes n = 800"
  by (simp add: block_bytes_def MAX_STRING_VAL_LEN_def)

text \<open>C's division truncates towards zero.\<close>

definition c_div :: "int \<Rightarrow> int \<Rightarrow> int" where
  "c_div a b = sgn a * sgn b * (\<bar>a\<bar> div \<bar>b\<bar>)"

definition c_mod :: "int \<Rightarrow> int \<Rightarrow> int" where
  "c_mod a b = a - b * c_div a b"

lemma c_div_nonneg: "0 \<le> a \<Longrightarrow> 0 < b \<Longrightarrow> c_div a b = a div b"
  by (cases "a = 0") (auto simp: c_div_def sgn_if)

lemma c_mod_nonneg: "0 \<le> a \<Longrightarrow> 0 < b \<Longrightarrow> c_mod a b = a mod b"
  by (simp add: c_mod_def c_div_nonneg minus_mult_div_eq_mod)

subsection \<open>Lists\<close>

definition last_ptr :: "'a option \<Rightarrow> 'a list \<Rightarrow> 'a option" where
  "last_ptr q xs = (if xs = [] then q else Some (last xs))"

lemma last_ptr_simps [simp]:
  "last_ptr q [] = q" "last_ptr q (x # xs) = last_ptr (Some x) xs"
  "last_ptr q (xs @ [y]) = Some y"
  by (auto simp: last_ptr_def)

lemma last_ptr_append: "last_ptr q (xs @ ys) = last_ptr (last_ptr q xs) ys"
  by (induction xs arbitrary: q) auto

definition head_ptr :: "'a list \<Rightarrow> 'a option \<Rightarrow> 'a option" where
  "head_ptr xs q = (case xs of [] \<Rightarrow> q | x # _ \<Rightarrow> Some x)"

lemma head_ptr_simps [simp]: "head_ptr [] q = q" "head_ptr (x # xs) q = Some x"
  by (auto simp: head_ptr_def)

lemma head_ptr_append: "head_ptr (xs @ ys) q = head_ptr xs (head_ptr ys q)"
  by (cases xs) auto

lemma find_None_iff_all: "List.find P xs = None \<longleftrightarrow> (\<forall>x \<in> set xs. \<not> P x)"
  by (induction xs) auto

lemma find_SomeD': "List.find P xs = Some a \<Longrightarrow> a \<in> set xs \<and> P a"
  by (induction xs) (auto split: if_splits)

lemma find_unique:
  assumes "a \<in> set xs" "P a" "\<And>b. b \<in> set xs \<Longrightarrow> P b \<Longrightarrow> b = a"
  shows "List.find P xs = Some a"
proof (cases "List.find P xs")
  case None
  with assms(1,2) show ?thesis by (auto simp: find_None_iff_all)
next
  case (Some b)
  with assms(3) [of b] show ?thesis by (auto dest: find_SomeD')
qed

lemma find_same:
  assumes "set ys \<subseteq> set xs" and "\<And>a. a \<in> set xs \<Longrightarrow> P a \<Longrightarrow> a \<in> set ys"
    and "\<And>a b. a \<in> set xs \<Longrightarrow> b \<in> set xs \<Longrightarrow> P a \<Longrightarrow> P b \<Longrightarrow> a = b"
  shows "List.find P ys = List.find P xs"
proof (cases "List.find P xs")
  case None
  then have "\<forall>x \<in> set ys. \<not> P x" using assms(1) by (auto simp: find_None_iff_all)
  with None show ?thesis by (simp add: find_None_iff_all [THEN iffD2])
next
  case (Some a)
  then have a: "a \<in> set xs" "P a" by (auto dest: find_SomeD')
  have "List.find P ys = Some a"
    using a assms by (intro find_unique) auto
  with Some show ?thesis by simp
qed

lemma update_map_pairs:
  assumes "distinct (map f os)" "a \<in> set os"
  shows "AList.update (f a) v (map (\<lambda>x. (f x, g x)) os) =
    map (\<lambda>x. (f x, if x = a then v else g x)) os"
  using assms by (induction os) auto

lemma update_map_new:
  "k \<notin> f ` set os \<Longrightarrow>
    AList.update k v (map (\<lambda>x. (f x, g x)) os) = map (\<lambda>x. (f x, g x)) os @ [(k, v)]"
  by (induction os) auto

lemma delete_map_pairs:
  assumes "distinct (map f (xs @ a # ys))"
  shows "AList.delete (f a) (map (\<lambda>x. (f x, g x)) (xs @ a # ys)) = map (\<lambda>x. (f x, g x)) (xs @ ys)"
proof -
  have "filter (\<lambda>(k', _). f a \<noteq> k') (map (\<lambda>x. (f x, g x)) zs) = map (\<lambda>x. (f x, g x)) zs"
    if "f a \<notin> f ` set zs" for zs
    using that by (induction zs) auto
  then show ?thesis using assms by (auto simp: AList.delete_eq)
qed

end
