(* ===== verification/Hash_Model.thy ===== *)
theory Hash_Model
  imports Base
begin

text \<open>
  The hash table of \<^verbatim>\<open>php-src/php3_hash.c\<close>, operation by operation, over an explicit heap of
  buckets. A \<open>Bucket *\<close> is an address or \<open>None\<close> for \<open>NULL\<close>; every bucket sits on the collision
  chain of its slot (\<open>pNext\<close>) and on the doubly linked list that keeps the insertion order
  (\<open>pListNext\<close>, \<open>pListLast\<close>). Each operation is in the \<open>option\<close> monad: \<open>None\<close> is a memory fault (a
  dangling pointer followed, an array index out of range, a freed block read, \<open>efree(NULL)\<close>) or a
  loop that does not end. The return code and the new table are the value of \<open>Some\<close>.

  The data of a bucket is a value of type \<open>'d\<close>: what \<open>pData\<close> points to. The address a caller gets
  through \<open>pDest\<close> or \<open>pData\<close> is the address of the bucket whose data it is. Calls of \<open>pDestructor\<close>
  are recorded, in order, in the field \<open>destroyed\<close>. \<open>malloc\<close> of a persistent table fails as the
  list \<open>mallocs\<close> says (it succeeds where the list has ended); \<open>emalloc\<close> exits the process when it
  fails, so for other tables it always succeeds. The code is read with \<open>DEBUG\<close> and
  \<open>MEMORY_LIMIT\<close> 0, as \<^verbatim>\<open>config.h\<close> has them.
\<close>

subsection \<open>The data: \<open>Bucket\<close> and \<open>HashTable\<close>\<close>

datatype hash_flag = HASH_UPDATE | HASH_ADD | HASH_NEXT_INSERT
datatype del_flag = HASH_DEL_KEY | HASH_DEL_INDEX
datatype key_kind = HASH_KEY_IS_STRING "char list" | HASH_KEY_IS_LONG ulong | HASH_KEY_NON_EXISTANT

text \<open>The field \<open>h\<close> is called \<open>hval\<close>; \<open>arKey\<close> holds the \<open>nKeyLength\<close> bytes of the key, or \<open>None\<close>.\<close>

record 'd bucket =
  hval :: ulong
  arKey :: "char list option"
  nKeyLength :: nat
  pData :: 'd
  bIsPointer :: bool
  pListNext :: ptr
  pListLast :: ptr
  pNext :: ptr

type_synonym 'd bheap = "addr \<Rightarrow> 'd bucket option"

record 'd hashtable =
  nTableSize :: nat
  nHashSizeIndex :: nat
  nNumOfElements :: nat
  nNextFreeElement :: ulong
  pHashFunction :: "char list \<Rightarrow> ulong"
  pInternalPointer :: ptr
  pListHead :: ptr
  pListTail :: ptr
  arBuckets :: "ptr list"
  pDestructor :: bool
  persistent :: bool
  heap :: "'d bheap"
  brk :: addr
  mallocs :: "bool list"
  destroyed :: "'d list"

subsection \<open>Keys and the hash function\<close>

definition PrimeNumbers :: "nat list" where
  "PrimeNumbers =
    [5, 11, 19, 53, 107, 223, 463, 983, 1979, 3907, 7963, 16229, 32531, 65407, 130987, 262237,
     524521, 1048793, 2097397, 4194103, 8388857, 16777447, 33554201, 67108961, 134217487,
     268435697, 536870683, 1073741621, 2147483399]"

text \<open>
  \<open>sizeof(PrimeNumbers) / sizeof(ulong)\<close>: the array is of \<open>uint\<close>, so on LP64 the quotient counts
  half of it.
\<close>

definition nNumPrimeNumbers :: nat where
  "nNumPrimeNumbers = (length PrimeNumbers * 4) div 8"

definition hashpjw_step :: "ulong \<Rightarrow> char \<Rightarrow> ulong" where
  "hashpjw_step hv c =
     (let h1 = push_bit 4 hv + word_of_int (schar c);
          g = and h1 0xF0000000
      in if g \<noteq> 0 then xor (xor h1 (drop_bit 24 g)) g else h1)"

definition hashpjw :: "char list \<Rightarrow> ulong" where
  "hashpjw key = foldl hashpjw_step 0 key"

text \<open>
  \<open>HANDLE_NUMERIC\<close>: the index a key of \<open>nKeyLength\<close> bytes (its terminating NUL included) stands
  for, if it is one. \<open>scan_digits\<close> is the inner loop: it skips digits up to the last byte.
\<close>

fun scan_digits :: "char list \<Rightarrow> char list" where
  "scan_digits [] = []"
| "scan_digits [c] = [c]"
| "scan_digits (c # d # cs) = (if isdigit c then scan_digits (d # cs) else c # d # cs)"

definition handle_numeric :: "char list \<Rightarrow> ulong option" where
  "handle_numeric key =
     (case key of
        [] \<Rightarrow> None
      | c # cs \<Rightarrow>
          if isdigit c then
            if c = CHR ''0'' \<and> length key > 2 then None
            else if scan_digits cs = [NUL] then
              (let idx = strtol10 (cstr key) in if idx \<noteq> LONG_MAX then Some (word_of_int idx) else None)
            else None
          else None)"

definition str_match :: "char list \<Rightarrow> ulong \<Rightarrow> 'd bucket \<Rightarrow> bool" where
  "str_match key hv b \<longleftrightarrow> arKey b \<noteq> None \<and> hval b = hv \<and> nKeyLength b = length key \<and>
     arKey b = Some key"

definition idx_match :: "ulong \<Rightarrow> 'd bucket \<Rightarrow> bool" where
  "idx_match hv b \<longleftrightarrow> arKey b = None \<and> hval b = hv"

subsection \<open>Memory\<close>

text \<open>The slot a pointer points to; reading \<open>arBuckets\<close>; one call of \<open>pemalloc\<close>.\<close>

definition slot :: "'d hashtable \<Rightarrow> nat \<Rightarrow> ptr option" where
  "slot t i = (if i < length (arBuckets t) then Some (arBuckets t ! i) else None)"

definition index_of :: "'d hashtable \<Rightarrow> ulong \<Rightarrow> nat" where
  "index_of t hv = unat hv mod nTableSize t"

definition pemalloc :: "'d hashtable \<Rightarrow> bool \<times> 'd hashtable" where
  "pemalloc t =
     (if persistent t then
        (case mallocs t of [] \<Rightarrow> (True, t) | ok # oks \<Rightarrow> (ok, t\<lparr>mallocs := oks\<rparr>))
      else (True, t))"

definition run_destructor :: "'d \<Rightarrow> 'd hashtable \<Rightarrow> 'd hashtable" where
  "run_destructor d t = (if pDestructor t then t\<lparr>destroyed := destroyed t @ [d]\<rparr> else t)"

text \<open>The search loop \<open>p = arBuckets[nIndex]; while (p != NULL) ... p = p->pNext\<close>.\<close>

partial_function (option) find_bucket ::
  "'d bheap \<Rightarrow> ('d bucket \<Rightarrow> bool) \<Rightarrow> ptr \<Rightarrow> ptr option" where
  "find_bucket hp P p =
     (case p of
        None \<Rightarrow> Some None
      | Some a \<Rightarrow> do { b \<leftarrow> hp a; if P b then Some (Some a) else find_bucket hp P (pNext b) })"

definition search :: "'d hashtable \<Rightarrow> ('d bucket \<Rightarrow> bool) \<Rightarrow> ulong \<Rightarrow> ptr option" where
  "search t P hv = do { p \<leftarrow> slot t (index_of t hv); find_bucket (heap t) P p }"

subsection \<open>Initialisation\<close>

text \<open>The loop over \<open>PrimeNumbers\<close>: the first index whose prime is large enough, else \<open>n\<close>.\<close>

function prime_index :: "nat \<Rightarrow> nat \<Rightarrow> nat" where
  "prime_index nSize i =
     (if i < nNumPrimeNumbers then
        if nSize \<le> PrimeNumbers ! i then i else prime_index nSize (Suc i)
      else i)"
  by pat_completeness auto
termination
  by (relation "measure (\<lambda>(_, i). nNumPrimeNumbers - i)") auto

declare prime_index.simps [simp del]

text \<open>
  \<open>_php3_hash_init\<close>; \<open>None\<close> is the return value \<open>FAILURE\<close>. \<open>ms\<close> says which calls of \<open>malloc\<close>
  succeed from here on.
\<close>

definition php3_hash_init ::
  "nat \<Rightarrow> (char list \<Rightarrow> ulong) option \<Rightarrow> bool \<Rightarrow> bool \<Rightarrow> bool list \<Rightarrow> 'd hashtable option" where
  "php3_hash_init nSize pHash pDestr persist ms =
     (let i = prime_index nSize 0;
          sizeIndex = (if i = nNumPrimeNumbers then i - 1 else i);
          size = PrimeNumbers ! sizeIndex;
          t = \<lparr>nTableSize = size, nHashSizeIndex = sizeIndex, nNumOfElements = 0,
               nNextFreeElement = 0,
               pHashFunction = (case pHash of None \<Rightarrow> hashpjw | Some f \<Rightarrow> f),
               pInternalPointer = None, pListHead = None, pListTail = None,
               arBuckets = replicate size None, pDestructor = pDestr, persistent = persist,
               heap = Map.empty, brk = 0, mallocs = ms, destroyed = []\<rparr>;
          (ok, t') = pemalloc t
      in if ok then Some t' else None)"

subsection \<open>Growing the table\<close>

text \<open>The loop of \<open>_php3_hash_rehash\<close>, over the order list.\<close>

partial_function (option) rehash_loop ::
  "nat \<Rightarrow> ptr \<Rightarrow> 'd bheap \<Rightarrow> ptr list \<Rightarrow> ('d bheap \<times> ptr list) option" where
  "rehash_loop n p hp bs =
     (case p of
        None \<Rightarrow> Some (hp, bs)
      | Some a \<Rightarrow> do {
          b \<leftarrow> hp a;
          let i = unat (hval b) mod n;
          if i < length bs
          then rehash_loop n (pListNext b) (hp(a \<mapsto> b\<lparr>pNext := bs ! i\<rparr>)) (bs[i := Some a])
          else None })"

definition php3_hash_rehash :: "'d hashtable \<Rightarrow> 'd hashtable option" where
  "php3_hash_rehash t =
     (let n = PrimeNumbers ! nHashSizeIndex t in
      if n \<le> length (arBuckets t) then do {
        (hp, bs) \<leftarrow> rehash_loop (nTableSize t) (pListHead t) (heap t)
                      (replicate n None @ drop n (arBuckets t));
        Some (t\<lparr>heap := hp, arBuckets := bs\<rparr>) }
      else None)"

definition if_full_do_resize :: "'d hashtable \<Rightarrow> 'd hashtable option" where
  "if_full_do_resize t =
     (if nNumOfElements t > nTableSize t \<and> nHashSizeIndex t < nNumPrimeNumbers - 1 then
        (let (ok, t1) = pemalloc t; size = PrimeNumbers ! (nHashSizeIndex t + 1)
         in if ok then
              php3_hash_rehash (t1\<lparr>arBuckets := take size (arBuckets t1 @ replicate size None),
                                   nTableSize := size,
                                   nHashSizeIndex := nHashSizeIndex t1 + 1\<rparr>)
            else Some t1)
      else Some t)"

subsection \<open>Insertion\<close>

text \<open>
  The tail that the four insertion functions share: allocate the bucket, put it at the head of
  its chain, make it current if nothing is, and append it to the order list.
\<close>

definition link_bucket :: "'d hashtable \<Rightarrow> nat \<Rightarrow> 'd bucket \<Rightarrow> (addr \<times> 'd hashtable) option" where
  "link_bucket t nIndex p =
     do {
       chain_head \<leftarrow> slot t nIndex;
       let a = brk t;
       let hp1 = (heap t)(a \<mapsto> p\<lparr>pNext := chain_head, pListLast := pListTail t, pListNext := None\<rparr>);
       hp2 \<leftarrow> (case pListTail t of
                 None \<Rightarrow> Some hp1
               | Some l \<Rightarrow> do { b \<leftarrow> hp1 l; Some (hp1(l \<mapsto> b\<lparr>pListNext := Some a\<rparr>)) });
       Some (a, t\<lparr>brk := Suc a, heap := hp2,
                  pInternalPointer := (if pInternalPointer t = None then Some a else pInternalPointer t),
                  arBuckets := (arBuckets t)[nIndex := Some a],
                  pListTail := Some a,
                  pListHead := (if pListHead t = None then Some a else pListHead t)\<rparr>) }"

definition bump_next_free :: "ulong \<Rightarrow> 'd hashtable \<Rightarrow> 'd hashtable" where
  "bump_next_free hv t =
     (if hv \<ge> nNextFreeElement t then t\<lparr>nNextFreeElement := hv + 1\<rparr> else t)"

text \<open>Replace the data of the bucket at \<open>a\<close>: \<open>if (pDestructor) pDestructor(p->pData); memcpy(...)\<close>.\<close>

definition overwrite_data :: "'d hashtable \<Rightarrow> addr \<Rightarrow> 'd \<Rightarrow> 'd hashtable option" where
  "overwrite_data t a d =
     do {
       b \<leftarrow> heap t a;
       let t1 = run_destructor (pData b) t;
       Some (t1\<lparr>heap := (heap t1)(a \<mapsto> b\<lparr>pData := d\<rparr>)\<rparr>) }"

text \<open>The same for the two \<open>pointer\<close> functions, which store the caller's pointer.\<close>

definition overwrite_pointer :: "'d hashtable \<Rightarrow> addr \<Rightarrow> 'd \<Rightarrow> 'd hashtable option" where
  "overwrite_pointer t a d =
     do {
       b \<leftarrow> heap t a;
       let t1 = (if \<not> bIsPointer b then run_destructor (pData b) t else t);
       Some (t1\<lparr>heap := (heap t1)(a \<mapsto> b\<lparr>pData := d, bIsPointer := True\<rparr>)\<rparr>) }"

definition php3_hash_index_update_or_next_insert ::
  "'d hashtable \<Rightarrow> ulong \<Rightarrow> 'd \<Rightarrow> hash_flag \<Rightarrow> (int \<times> ptr \<times> 'd hashtable) option" where
  "php3_hash_index_update_or_next_insert t h0 d flag =
     (let hv = (if flag = HASH_NEXT_INSERT then nNextFreeElement t else h0) in
      do {
        q \<leftarrow> search t (idx_match hv) hv;
        (case q of
           Some a \<Rightarrow>
             if flag = HASH_NEXT_INSERT \<or> flag = HASH_ADD then Some (FAILURE, None, t)
             else do { t1 \<leftarrow> overwrite_data t a d; Some (SUCCESS, Some a, bump_next_free hv t1) }
         | None \<Rightarrow>
             (let (ok1, t1) = pemalloc t in
              if \<not> ok1 then Some (FAILURE, None, t1)
              else let (ok2, t2) = pemalloc t1 in
                if \<not> ok2 then Some (FAILURE, None, t2)
                else do {
                  (a, t3) \<leftarrow> link_bucket t2 (index_of t2 hv)
                     \<lparr>hval = hv, arKey = None, nKeyLength = 0, pData = d, bIsPointer = False,
                      pListNext = None, pListLast = None, pNext = None\<rparr>;
                  let t4 = bump_next_free hv t3;
                  t5 \<leftarrow> if_full_do_resize (t4\<lparr>nNumOfElements := Suc (nNumOfElements t4)\<rparr>);
                  Some (SUCCESS, Some a, t5) })) })"

text \<open>
  \<open>_php3_hash_add_or_update\<close>. When the third allocation fails the code frees the bucket and then
  reads \<open>p->arKey\<close> through the freed pointer: a fault.
\<close>

definition php3_hash_add_or_update ::
  "'d hashtable \<Rightarrow> char list \<Rightarrow> 'd \<Rightarrow> hash_flag \<Rightarrow> (int \<times> ptr \<times> 'd hashtable) option" where
  "php3_hash_add_or_update t key d flag =
     (if length key = 0 then Some (FAILURE, None, t)
      else case handle_numeric key of
        Some idx \<Rightarrow> php3_hash_index_update_or_next_insert t idx d flag
      | None \<Rightarrow>
        (let hv = pHashFunction t key in
         do {
           q \<leftarrow> search t (str_match key hv) hv;
           (case q of
              Some a \<Rightarrow>
                if flag = HASH_ADD then Some (FAILURE, None, t)
                else do { t1 \<leftarrow> overwrite_data t a d; Some (SUCCESS, Some a, t1) }
            | None \<Rightarrow>
                (let (ok1, t1) = pemalloc t in
                 if \<not> ok1 then Some (FAILURE, None, t1)
                 else let (ok2, t2) = pemalloc t1 in
                   if \<not> ok2 then Some (FAILURE, None, t2)
                   else let (ok3, t3) = pemalloc t2 in
                     if \<not> ok3 then None
                     else do {
                       (a, t4) \<leftarrow> link_bucket t3 (index_of t3 hv)
                          \<lparr>hval = hv, arKey = Some key, nKeyLength = length key, pData = d,
                           bIsPointer = False, pListNext = None, pListLast = None, pNext = None\<rparr>;
                       t5 \<leftarrow> if_full_do_resize (t4\<lparr>nNumOfElements := Suc (nNumOfElements t4)\<rparr>);
                       Some (SUCCESS, Some a, t5) })) }))"

definition php3_hash_pointer_index_update_or_next_insert ::
  "'d hashtable \<Rightarrow> ulong \<Rightarrow> 'd \<Rightarrow> hash_flag \<Rightarrow> (int \<times> 'd hashtable) option" where
  "php3_hash_pointer_index_update_or_next_insert t h0 d flag =
     (let hv = (if flag = HASH_NEXT_INSERT then nNextFreeElement t else h0) in
      do {
        q \<leftarrow> search t (idx_match hv) hv;
        (case q of
           Some a \<Rightarrow>
             if flag = HASH_NEXT_INSERT then Some (FAILURE, t)
             else do { t1 \<leftarrow> overwrite_pointer t a d; Some (SUCCESS, bump_next_free hv t1) }
         | None \<Rightarrow>
             (let (ok1, t1) = pemalloc t in
              if \<not> ok1 then Some (FAILURE, t1)
              else do {
                (a, t2) \<leftarrow> link_bucket t1 (index_of t1 hv)
                   \<lparr>hval = hv, arKey = None, nKeyLength = 0, pData = d, bIsPointer = True,
                    pListNext = None, pListLast = None, pNext = None\<rparr>;
                let t3 = bump_next_free hv (t2\<lparr>nNumOfElements := Suc (nNumOfElements t2)\<rparr>);
                t4 \<leftarrow> if_full_do_resize t3;
                Some (SUCCESS, t4) })) })"

definition php3_hash_pointer_update ::
  "'d hashtable \<Rightarrow> char list \<Rightarrow> 'd \<Rightarrow> (int \<times> 'd hashtable) option" where
  "php3_hash_pointer_update t key d =
     (if length key = 0 then Some (FAILURE, t)
      else case handle_numeric key of
        Some idx \<Rightarrow> php3_hash_pointer_index_update_or_next_insert t idx d HASH_UPDATE
      | None \<Rightarrow>
        (let hv = pHashFunction t key in
         do {
           q \<leftarrow> search t (str_match key hv) hv;
           (case q of
              Some a \<Rightarrow> do { t1 \<leftarrow> overwrite_pointer t a d; Some (SUCCESS, t1) }
            | None \<Rightarrow>
                (let (ok1, t1) = pemalloc t in
                 if \<not> ok1 then Some (FAILURE, t1)
                 else let (ok2, t2) = pemalloc t1 in
                   if \<not> ok2 then Some (FAILURE, t2)
                   else do {
                     (a, t3) \<leftarrow> link_bucket t2 (index_of t2 hv)
                        \<lparr>hval = hv, arKey = Some key, nKeyLength = length key, pData = d,
                         bIsPointer = True, pListNext = None, pListLast = None, pNext = None\<rparr>;
                     t4 \<leftarrow> if_full_do_resize (t3\<lparr>nNumOfElements := Suc (nNumOfElements t3)\<rparr>);
                     Some (SUCCESS, t4) })) }))"

end
