(* ===== verification/Hash_Ops.thy ===== *)
theory Hash_Ops
  imports Hash_Model
begin

text \<open>
  The rest of \<^verbatim>\<open>php-src/php3_hash.c\<close>: lookup, deletion, destruction, traversal with the internal
  pointer, \<open>apply\<close>, \<open>copy\<close>, \<open>merge\<close>, \<open>sort\<close> and \<open>minmax\<close>.
\<close>

subsection \<open>Lookup\<close>

text \<open>
  \<open>_php3_hash_index_find\<close> and \<open>_php3_hash_find\<close>: \<open>Some (Some d)\<close> is \<open>SUCCESS\<close> with \<open>*pData\<close>
  pointing to \<open>d\<close>, \<open>Some None\<close> is \<open>FAILURE\<close>.
\<close>

definition php3_hash_index_find :: "'d hashtable \<Rightarrow> ulong \<Rightarrow> 'd option option" where
  "php3_hash_index_find t hv =
     do {
       q \<leftarrow> search t (idx_match hv) hv;
       (case q of None \<Rightarrow> Some None | Some a \<Rightarrow> do { b \<leftarrow> heap t a; Some (Some (pData b)) }) }"

definition php3_hash_find :: "'d hashtable \<Rightarrow> char list \<Rightarrow> 'd option option" where
  "php3_hash_find t key =
     (case handle_numeric key of
        Some idx \<Rightarrow> php3_hash_index_find t idx
      | None \<Rightarrow>
        (let hv = pHashFunction t key in
         do {
           q \<leftarrow> search t (str_match key hv) hv;
           (case q of None \<Rightarrow> Some None | Some a \<Rightarrow> do { b \<leftarrow> heap t a; Some (Some (pData b)) }) }))"

definition php3_hash_index_exists :: "'d hashtable \<Rightarrow> ulong \<Rightarrow> int option" where
  "php3_hash_index_exists t hv =
     do { q \<leftarrow> search t (idx_match hv) hv; Some (if q = None then 0 else 1) }"

definition php3_hash_exists :: "'d hashtable \<Rightarrow> char list \<Rightarrow> int option" where
  "php3_hash_exists t key =
     (case handle_numeric key of
        Some idx \<Rightarrow> php3_hash_index_exists t idx
      | None \<Rightarrow>
        (let hv = pHashFunction t key in
         do { q \<leftarrow> search t (str_match key hv) hv; Some (if q = None then 0 else 1) }))"

definition php3_hash_index_is_pointer :: "'d hashtable \<Rightarrow> ulong \<Rightarrow> int option" where
  "php3_hash_index_is_pointer t hv =
     do {
       q \<leftarrow> search t (idx_match hv) hv;
       (case q of
          None \<Rightarrow> Some 0
        | Some a \<Rightarrow> do { b \<leftarrow> heap t a; Some (if bIsPointer b then 1 else 0) }) }"

definition php3_hash_is_pointer :: "'d hashtable \<Rightarrow> char list \<Rightarrow> int option" where
  "php3_hash_is_pointer t key =
     (if length key = 0 then Some FAILURE
      else case handle_numeric key of
        Some idx \<Rightarrow> php3_hash_index_is_pointer t idx
      | None \<Rightarrow>
        (let hv = pHashFunction t key in
         do {
           q \<leftarrow> search t (str_match key hv) hv;
           (case q of
              None \<Rightarrow> Some 0
            | Some a \<Rightarrow> do { b \<leftarrow> heap t a; Some (if bIsPointer b then 1 else 0) }) }))"

definition php3_hash_num_elements :: "'d hashtable \<Rightarrow> nat" where
  "php3_hash_num_elements t = nNumOfElements t"

definition php3_hash_next_free_element :: "'d hashtable \<Rightarrow> ulong" where
  "php3_hash_next_free_element t = nNextFreeElement t"

subsection \<open>Deletion\<close>

text \<open>
  The test of the deletion loop. A bucket with a numeric key (\<open>arKey == NULL\<close>) matches on \<open>h\<close>
  alone, also when a string key is being deleted.
\<close>

definition del_match :: "char list \<Rightarrow> ulong \<Rightarrow> 'd bucket \<Rightarrow> bool" where
  "del_match key hv b \<longleftrightarrow>
     hval b = hv \<and> (arKey b = None \<or> (nKeyLength b = length key \<and> arKey b = Some key))"

text \<open>The deletion loop keeps the predecessor \<open>t\<close> on the chain; it returns \<open>t\<close> and \<open>p\<close>.\<close>

partial_function (option) find_with_prev ::
  "'d bheap \<Rightarrow> ('d bucket \<Rightarrow> bool) \<Rightarrow> ptr \<Rightarrow> ptr \<Rightarrow> (ptr \<times> ptr) option" where
  "find_with_prev hp P prev p =
     (case p of
        None \<Rightarrow> Some (prev, None)
      | Some a \<Rightarrow> do {
          b \<leftarrow> hp a;
          if P b then Some (prev, Some a) else find_with_prev hp P (Some a) (pNext b) })"

text \<open>
  The body of the loop for the bucket \<open>p\<close> that matched: take it off its chain, off the order
  list, release its key and its data, move the internal pointer, release the bucket.
\<close>

definition set_field :: "'d bheap \<Rightarrow> addr \<Rightarrow> ('d bucket \<Rightarrow> 'd bucket) \<Rightarrow> 'd bheap option" where
  "set_field hp a f = do { b \<leftarrow> hp a; Some (hp(a \<mapsto> f b)) }"

definition unlink_chain :: "'d hashtable \<Rightarrow> nat \<Rightarrow> ptr \<Rightarrow> addr \<Rightarrow> 'd hashtable option" where
  "unlink_chain t nIndex prev p =
     do {
       b \<leftarrow> heap t p;
       chain_head \<leftarrow> slot t nIndex;
       if chain_head = Some p then Some (t\<lparr>arBuckets := (arBuckets t)[nIndex := pNext b]\<rparr>)
       else do {
         q \<leftarrow> prev;
         hp \<leftarrow> set_field (heap t) q (\<lambda>c. c\<lparr>pNext := pNext b\<rparr>);
         Some (t\<lparr>heap := hp\<rparr>) } }"

definition unlink_order :: "'d hashtable \<Rightarrow> addr \<Rightarrow> 'd hashtable option" where
  "unlink_order t p =
     do {
       b \<leftarrow> heap t p;
       t1 \<leftarrow> (case pListLast b of
                Some l \<Rightarrow> do {
                  hp \<leftarrow> set_field (heap t) l (\<lambda>c. c\<lparr>pListNext := pListNext b\<rparr>);
                  Some (t\<lparr>heap := hp\<rparr>) }
              | None \<Rightarrow> Some (t\<lparr>pListHead := pListNext b\<rparr>));
       b1 \<leftarrow> heap t1 p;
       (case pListNext b1 of
          Some n \<Rightarrow> do {
            hp \<leftarrow> set_field (heap t1) n (\<lambda>c. c\<lparr>pListLast := pListLast b1\<rparr>);
            Some (t1\<lparr>heap := hp\<rparr>) }
        | None \<Rightarrow> Some (t1\<lparr>pListTail := pListLast b1\<rparr>)) }"

definition release_bucket :: "'d hashtable \<Rightarrow> addr \<Rightarrow> del_flag \<Rightarrow> 'd hashtable option" where
  "release_bucket t p flag =
     do {
       b \<leftarrow> heap t p;
       if flag = HASH_DEL_KEY \<and> arKey b = None \<and> \<not> persistent t then None
       else do {
         let t1 = (if \<not> bIsPointer b then run_destructor (pData b) t else t);
         let t2 = (if pInternalPointer t1 = Some p then t1\<lparr>pInternalPointer := pListNext b\<rparr> else t1);
         Some (t2\<lparr>heap := (heap t2)(p := None), nNumOfElements := nNumOfElements t2 - 1\<rparr>) } }"

definition php3_hash_del_at :: "'d hashtable \<Rightarrow> char list \<Rightarrow> ulong \<Rightarrow> del_flag \<Rightarrow> (int \<times> 'd hashtable) option" where
  "php3_hash_del_at t key hv flag =
     do {
       chain_head \<leftarrow> slot t (index_of t hv);
       (prev, q) \<leftarrow> find_with_prev (heap t) (del_match key hv) None chain_head;
       (case q of
          None \<Rightarrow> Some (FAILURE, t)
        | Some p \<Rightarrow> do {
            t1 \<leftarrow> unlink_chain t (index_of t hv) prev p;
            t2 \<leftarrow> unlink_order t1 p;
            t3 \<leftarrow> release_bucket t2 p flag;
            Some (SUCCESS, t3) }) }"

definition php3_hash_del_key_or_index ::
  "'d hashtable \<Rightarrow> char list \<Rightarrow> ulong \<Rightarrow> del_flag \<Rightarrow> (int \<times> 'd hashtable) option" where
  "php3_hash_del_key_or_index t key h0 flag =
     (if flag = HASH_DEL_KEY then
        (case handle_numeric key of
           Some idx \<Rightarrow> php3_hash_del_at t key idx HASH_DEL_INDEX
         | None \<Rightarrow> php3_hash_del_at t key (pHashFunction t key) HASH_DEL_KEY)
      else php3_hash_del_at t key h0 HASH_DEL_INDEX)"

abbreviation php3_hash_del :: "'d hashtable \<Rightarrow> char list \<Rightarrow> (int \<times> 'd hashtable) option" where
  "php3_hash_del t key \<equiv> php3_hash_del_key_or_index t key 0 HASH_DEL_KEY"

abbreviation php3_hash_index_del :: "'d hashtable \<Rightarrow> ulong \<Rightarrow> (int \<times> 'd hashtable) option" where
  "php3_hash_index_del t hv \<equiv> php3_hash_del_key_or_index t [] hv HASH_DEL_INDEX"

text \<open>
  \<open>_php3_hash_destroy\<close>: walk the order list, destroy and release each bucket, release
  \<open>arBuckets\<close>. The pointers of \<open>ht\<close> keep their values.
\<close>

partial_function (option) destroy_loop :: "ptr \<Rightarrow> 'd hashtable \<Rightarrow> 'd hashtable option" where
  "destroy_loop p t =
     (case p of
        None \<Rightarrow> Some t
      | Some q \<Rightarrow> do {
          b \<leftarrow> heap t q;
          let t1 = (if \<not> bIsPointer b then run_destructor (pData b) t else t);
          destroy_loop (pListNext b) (t1\<lparr>heap := (heap t1)(q := None)\<rparr>) })"

definition php3_hash_destroy :: "'d hashtable \<Rightarrow> 'd hashtable option" where
  "php3_hash_destroy t = do { t1 \<leftarrow> destroy_loop (pListHead t) t; Some (t1\<lparr>arBuckets := []\<rparr>) }"

subsection \<open>Selective deletion\<close>

text \<open>
  \<open>_php3_hash_apply\<close> with a callback that reads the data and does not touch the table; the
  second argument of \<open>_php3_hash_apply_with_argument\<close> is the closure's.
\<close>

partial_function (option) apply_loop :: "('d \<Rightarrow> bool) \<Rightarrow> ptr \<Rightarrow> 'd hashtable \<Rightarrow> 'd hashtable option" where
  "apply_loop destruct p t =
     (case p of
        None \<Rightarrow> Some t
      | Some q \<Rightarrow> do {
          b \<leftarrow> heap t q;
          if destruct (pData b) then do {
            (r, t1) \<leftarrow> (case arKey b of
                          None \<Rightarrow> php3_hash_index_del t (hval b)
                        | Some k \<Rightarrow> php3_hash_del t k);
            apply_loop destruct (pListNext b) t1 }
          else apply_loop destruct (pListNext b) t })"

definition php3_hash_apply :: "'d hashtable \<Rightarrow> ('d \<Rightarrow> bool) \<Rightarrow> 'd hashtable option" where
  "php3_hash_apply t destruct = apply_loop destruct (pListHead t) t"

definition php3_hash_apply_with_argument ::
  "'d hashtable \<Rightarrow> ('d \<Rightarrow> 'x \<Rightarrow> bool) \<Rightarrow> 'x \<Rightarrow> 'd hashtable option" where
  "php3_hash_apply_with_argument t destruct arg = apply_loop (\<lambda>d. destruct d arg) (pListHead t) t"

subsection \<open>Copy and merge\<close>

text \<open>
  The copy constructor maps the data to its copy. Target and source have heaps of their own;
  what the source's loop reads is its order list.
\<close>

partial_function (option) copy_loop ::
  "'d bheap \<Rightarrow> ('d \<Rightarrow> 'd) \<Rightarrow> ptr \<Rightarrow> 'd hashtable \<Rightarrow> 'd hashtable option" where
  "copy_loop hp cc p t =
     (case p of
        None \<Rightarrow> Some t
      | Some a \<Rightarrow> do {
          b \<leftarrow> hp a;
          (r, q, t1) \<leftarrow> (case arKey b of
                 Some k \<Rightarrow> php3_hash_add_or_update t k (cc (pData b)) HASH_UPDATE
               | None \<Rightarrow> php3_hash_index_update_or_next_insert t (hval b) (cc (pData b)) HASH_UPDATE);
          copy_loop hp cc (pListNext b) t1 })"

definition php3_hash_copy :: "'d hashtable \<Rightarrow> ('d \<Rightarrow> 'd) \<Rightarrow> 'd hashtable option" where
  "php3_hash_copy source cc =
     do {
       t \<leftarrow> php3_hash_init (nTableSize source) (Some (pHashFunction source)) (pDestructor source) False [];
       t1 \<leftarrow> copy_loop (heap source) cc (pListHead source) t;
       Some (t1\<lparr>pInternalPointer := pListHead t1\<rparr>) }"

text \<open>\<open>if (... == SUCCESS && pCopyConstructor) pCopyConstructor(t)\<close> on the data at \<open>t\<close>.\<close>

definition construct_at :: "('d \<Rightarrow> 'd) option \<Rightarrow> int \<Rightarrow> ptr \<Rightarrow> 'd hashtable \<Rightarrow> 'd hashtable option" where
  "construct_at cc r q t =
     (case (r = SUCCESS, cc) of
        (True, Some f) \<Rightarrow> do {
          a \<leftarrow> q;
          hp \<leftarrow> set_field (heap t) a (\<lambda>b. b\<lparr>pData := f (pData b)\<rparr>);
          Some (t\<lparr>heap := hp\<rparr>) }
      | _ \<Rightarrow> Some t)"

partial_function (option) merge_loop ::
  "'d bheap \<Rightarrow> ('d \<Rightarrow> 'd) option \<Rightarrow> ptr \<Rightarrow> 'd hashtable \<Rightarrow> 'd hashtable option" where
  "merge_loop hp cc p t =
     (case p of
        None \<Rightarrow> Some t
      | Some a \<Rightarrow> do {
          b \<leftarrow> hp a;
          t2 \<leftarrow> (case arKey b of
                 Some k \<Rightarrow> do {
                   (r, q, t1) \<leftarrow> php3_hash_add_or_update t k (pData b) HASH_ADD;
                   construct_at cc r q t1 }
               | None \<Rightarrow> do {
                   ex \<leftarrow> php3_hash_index_exists t (hval b);
                   if ex = 0 then do {
                     (r, q, t1) \<leftarrow> php3_hash_index_update_or_next_insert t (hval b) (pData b) HASH_UPDATE;
                     construct_at cc r q t1 }
                   else Some t });
          merge_loop hp cc (pListNext b) t2 })"

definition php3_hash_merge ::
  "'d hashtable \<Rightarrow> 'd hashtable \<Rightarrow> ('d \<Rightarrow> 'd) option \<Rightarrow> 'd hashtable option" where
  "php3_hash_merge target source cc =
     do {
       t \<leftarrow> merge_loop (heap source) cc (pListHead source) target;
       Some (t\<lparr>pInternalPointer := pListHead t\<rparr>) }"

subsection \<open>Traversal\<close>

definition php3_hash_internal_pointer_reset :: "'d hashtable \<Rightarrow> 'd hashtable" where
  "php3_hash_internal_pointer_reset t = t\<lparr>pInternalPointer := pListHead t\<rparr>"

definition php3_hash_internal_pointer_end :: "'d hashtable \<Rightarrow> 'd hashtable" where
  "php3_hash_internal_pointer_end t = t\<lparr>pInternalPointer := pListTail t\<rparr>"

definition php3_hash_move_forward :: "'d hashtable \<Rightarrow> 'd hashtable option" where
  "php3_hash_move_forward t =
     (case pInternalPointer t of
        None \<Rightarrow> Some t
      | Some a \<Rightarrow> do { b \<leftarrow> heap t a; Some (t\<lparr>pInternalPointer := pListNext b\<rparr>) })"

definition php3_hash_move_backwards :: "'d hashtable \<Rightarrow> 'd hashtable option" where
  "php3_hash_move_backwards t =
     (case pInternalPointer t of
        None \<Rightarrow> Some t
      | Some a \<Rightarrow> do { b \<leftarrow> heap t a; Some (t\<lparr>pInternalPointer := pListLast b\<rparr>) })"

text \<open>The copy of a string key is allocated, and written to without a check.\<close>

definition php3_hash_get_current_key :: "'d hashtable \<Rightarrow> (key_kind \<times> 'd hashtable) option" where
  "php3_hash_get_current_key t =
     (case pInternalPointer t of
        None \<Rightarrow> Some (HASH_KEY_NON_EXISTANT, t)
      | Some a \<Rightarrow> do {
          b \<leftarrow> heap t a;
          (case arKey b of
             Some k \<Rightarrow>
               (let (ok, t1) = pemalloc t in
                if ok then Some (HASH_KEY_IS_STRING (take (nKeyLength b) k), t1) else None)
           | None \<Rightarrow> Some (HASH_KEY_IS_LONG (hval b), t)) })"

definition php3_hash_get_current_data :: "'d hashtable \<Rightarrow> 'd option option" where
  "php3_hash_get_current_data t =
     (case pInternalPointer t of
        None \<Rightarrow> Some None
      | Some a \<Rightarrow> do { b \<leftarrow> heap t a; Some (Some (pData b)) })"

subsection \<open>Sorting\<close>

text \<open>The first loop of \<open>_php3_hash_sort\<close>: the order list as the array \<open>arTmp\<close>.\<close>

partial_function (option) collect_order :: "'d bheap \<Rightarrow> ptr \<Rightarrow> addr list \<Rightarrow> addr list option" where
  "collect_order hp p acc =
     (case p of
        None \<Rightarrow> Some acc
      | Some a \<Rightarrow> do { b \<leftarrow> hp a; collect_order hp (pListNext b) (acc @ [a]) })"

text \<open>The loop that threads the sorted array: \<open>tail\<close> is \<open>pListTail\<close>.\<close>

fun relink_loop :: "addr list \<Rightarrow> ptr \<Rightarrow> 'd bheap \<Rightarrow> (ptr \<times> 'd bheap) option" where
  "relink_loop [] tail hp = Some (tail, hp)"
| "relink_loop (a # as) tail hp =
     do {
       hp1 \<leftarrow> (case tail of
                 None \<Rightarrow> Some hp
               | Some l \<Rightarrow> set_field hp l (\<lambda>b. b\<lparr>pListNext := Some a\<rparr>));
       hp2 \<leftarrow> set_field hp1 a (\<lambda>b. b\<lparr>pListLast := tail, pListNext := None\<rparr>);
       relink_loop as (Some a) hp2 }"

text \<open>The loop that renumbers the keys; \<open>i\<close> is an \<open>int\<close> counter from 0, which is extended to the \<open>ulong\<close> of the key.\<close>

partial_function (option) renumber_loop :: "ptr \<Rightarrow> int \<Rightarrow> 'd bheap \<Rightarrow> (int \<times> 'd bheap) option" where
  "renumber_loop p i hp =
     (case p of
        None \<Rightarrow> Some (i, hp)
      | Some a \<Rightarrow> do {
          b \<leftarrow> hp a;
          renumber_loop (pListNext b) (wrap_int (i + 1))
            (hp(a \<mapsto> b\<lparr>arKey := None, nKeyLength := 0, hval := word_of_int i\<rparr>)) })"

text \<open>
  \<open>_php3_hash_sort\<close>. \<open>qs\<close> is what the C library's \<open>qsort\<close> with the comparison function makes of
  an array of buckets (the order of equal elements is the library's).
\<close>

definition php3_hash_sort ::
  "'d hashtable \<Rightarrow> ('d bheap \<Rightarrow> addr list \<Rightarrow> addr list) \<Rightarrow> bool \<Rightarrow> (int \<times> 'd hashtable) option" where
  "php3_hash_sort t qs renumber =
     (if nNumOfElements t \<le> 1 then Some (SUCCESS, t)
      else let (ok, t0) = pemalloc t in
        if \<not> ok then Some (FAILURE, t0)
        else do {
          arTmp0 \<leftarrow> collect_order (heap t0) (pListHead t0) [];
          let arTmp = qs (heap t0) arTmp0;
          first \<leftarrow> (case arTmp of [] \<Rightarrow> None | a # _ \<Rightarrow> Some a);
          (tail, hp) \<leftarrow> relink_loop arTmp None (heap t0);
          let t1 = t0\<lparr>pListHead := Some first, pListTail := tail, pInternalPointer := Some first,
                      heap := hp\<rparr>;
          if renumber then do {
            (n, hp2) \<leftarrow> renumber_loop (pListHead t1) 0 (heap t1);
            t2 \<leftarrow> php3_hash_rehash (t1\<lparr>heap := hp2, nNextFreeElement := word_of_int n\<rparr>);
            Some (SUCCESS, t2) }
          else Some (SUCCESS, t1) })"

text \<open>\<open>_php3_hash_minmax\<close>: \<open>flag\<close> is true for the maximum.\<close>

partial_function (option) minmax_loop ::
  "'d bheap \<Rightarrow> ('d bucket \<Rightarrow> 'd bucket \<Rightarrow> int) \<Rightarrow> bool \<Rightarrow> 'd bucket \<Rightarrow> ptr \<Rightarrow> 'd bucket option" where
  "minmax_loop hp compar flag res p =
     (case p of
        None \<Rightarrow> Some res
      | Some a \<Rightarrow> do {
          b \<leftarrow> hp a;
          minmax_loop hp compar flag
            (if (if flag then compar res b < 0 else compar res b > 0) then b else res) (pListNext b) })"

definition php3_hash_minmax ::
  "'d hashtable \<Rightarrow> ('d bucket \<Rightarrow> 'd bucket \<Rightarrow> int) \<Rightarrow> bool \<Rightarrow> 'd option option" where
  "php3_hash_minmax t compar flag =
     (if nNumOfElements t = 0 then Some None
      else do {
        a \<leftarrow> pListHead t;
        b \<leftarrow> heap t a;
        r \<leftarrow> minmax_loop (heap t) compar flag b (pListNext b);
        Some (Some (pData r)) })"

end
