(* ===== verification/Hash_Inv.thy ===== *)
theory Hash_Inv
  imports Hash_Ops
begin

text \<open>
  The invariant of a hash table and the heap lemmas behind it. \<open>cseg hp p as e\<close> says that
  following \<open>pNext\<close> from \<open>p\<close> one meets the buckets \<open>as\<close> and arrives at \<open>e\<close>; \<open>dseg\<close> says the same of
  \<open>pListNext\<close>, with every \<open>pListLast\<close> pointing back. \<open>ht_inv t os\<close> is the invariant, \<open>os\<close> being the
  buckets in insertion order; \<open>ht_abs t os\<close> is the table as an association list in that order, the
  keys being strings or integers as PHP sees them.
\<close>

named_theorems hash_defs \<open>definitions of the parts of the invariant\<close>

subsection \<open>Linked segments\<close>

primrec cseg :: "'d bheap \<Rightarrow> ptr \<Rightarrow> addr list \<Rightarrow> ptr \<Rightarrow> bool" where
  "cseg hp p [] e \<longleftrightarrow> p = e"
| "cseg hp p (a # as) e \<longleftrightarrow> p = Some a \<and> (\<exists>b. hp a = Some b \<and> cseg hp (pNext b) as e)"

primrec dseg :: "'d bheap \<Rightarrow> ptr \<Rightarrow> ptr \<Rightarrow> addr list \<Rightarrow> ptr \<Rightarrow> bool" where
  "dseg hp p prev [] e \<longleftrightarrow> p = e"
| "dseg hp p prev (a # as) e \<longleftrightarrow> p = Some a \<and>
     (\<exists>b. hp a = Some b \<and> pListLast b = prev \<and> dseg hp (pListNext b) (Some a) as e)"

lemma cseg_append: "cseg hp p (xs @ ys) e \<longleftrightarrow> (\<exists>q. cseg hp p xs q \<and> cseg hp q ys e)"
  by (induction xs arbitrary: p) auto

lemma dseg_append:
  "dseg hp p prev (xs @ ys) e \<longleftrightarrow> (\<exists>q. dseg hp p prev xs q \<and> dseg hp q (last_ptr prev xs) ys e)"
  by (induction xs arbitrary: p prev) auto

lemma cseg_cong:
  assumes "\<And>a. a \<in> set as \<Longrightarrow> map_option pNext (hp a) = map_option pNext (hp' a)"
  shows "cseg hp p as e = cseg hp' p as e"
  using assms
proof (induction as arbitrary: p)
  case (Cons a as)
  from Cons.prems [of a] have "map_option pNext (hp a) = map_option pNext (hp' a)" by simp
  moreover have "\<And>q. cseg hp q as e = cseg hp' q as e" using Cons by simp
  ultimately show ?case by (auto simp: map_option_case split: option.splits)
qed simp

lemma dseg_cong:
  assumes "\<And>a. a \<in> set as \<Longrightarrow>
    map_option (\<lambda>b. (pListNext b, pListLast b)) (hp a) = map_option (\<lambda>b. (pListNext b, pListLast b)) (hp' a)"
  shows "dseg hp p prev as e = dseg hp' p prev as e"
  using assms
proof (induction as arbitrary: p prev)
  case (Cons a as)
  from Cons.prems [of a]
  have "map_option (\<lambda>b. (pListNext b, pListLast b)) (hp a) =
      map_option (\<lambda>b. (pListNext b, pListLast b)) (hp' a)" by simp
  moreover have "\<And>q r. dseg hp q r as e = dseg hp' q r as e" using Cons by simp
  ultimately show ?case by (auto simp: map_option_case split: option.splits)
qed simp

lemma cseg_upd [simp]: "a \<notin> set as \<Longrightarrow> cseg (hp(a := x)) p as e = cseg hp p as e"
  by (rule cseg_cong) auto

lemma dseg_upd [simp]: "a \<notin> set as \<Longrightarrow> dseg (hp(a := x)) p prev as e = dseg hp p prev as e"
  by (rule dseg_cong) auto

lemma cseg_head: "cseg hp p as e \<Longrightarrow> p = head_ptr as e"
  by (cases as) auto

lemma dseg_head: "dseg hp p prev as e \<Longrightarrow> p = head_ptr as e"
  by (cases as) auto

lemma cseg_dom: "cseg hp p as e \<Longrightarrow> a \<in> set as \<Longrightarrow> hp a \<noteq> None"
  by (induction as arbitrary: p) auto

lemma dseg_dom: "dseg hp p prev as e \<Longrightarrow> a \<in> set as \<Longrightarrow> hp a \<noteq> None"
  by (induction as arbitrary: p prev) auto

subsection \<open>The loops over a segment\<close>

lemma find_bucket_cseg:
  "cseg hp p as None \<Longrightarrow> find_bucket hp P p = Some (List.find (\<lambda>a. P (the (hp a))) as)"
proof (induction as arbitrary: p)
  case Nil
  then show ?case by (simp add: find_bucket.simps)
next
  case (Cons a as)
  then show ?case by (subst find_bucket.simps) auto
qed

lemma find_with_prev_hit:
  "cseg hp p (xs @ a # ys) None \<Longrightarrow> (\<And>x. x \<in> set xs \<Longrightarrow> \<not> P (the (hp x))) \<Longrightarrow> P (the (hp a)) \<Longrightarrow>
    find_with_prev hp P prev p = Some (last_ptr prev xs, Some a)"
proof (induction xs arbitrary: p prev)
  case Nil
  then show ?case by (subst find_with_prev.simps) auto
next
  case (Cons x xs)
  from Cons.prems(1) obtain b where b: "p = Some x" "hp x = Some b" "cseg hp (pNext b) (xs @ a # ys) None"
    by auto
  then have "\<not> P b" using Cons.prems(2) [of x] by simp
  with b Cons show ?case by (subst find_with_prev.simps) simp
qed

lemma find_with_prev_miss:
  "cseg hp p as None \<Longrightarrow> (\<And>x. x \<in> set as \<Longrightarrow> \<not> P (the (hp x))) \<Longrightarrow>
    find_with_prev hp P prev p = Some (last_ptr prev as, None)"
proof (induction as arbitrary: p prev)
  case Nil
  then show ?case by (simp add: find_with_prev.simps)
next
  case (Cons x xs)
  from Cons.prems(1) obtain b where b: "p = Some x" "hp x = Some b" "cseg hp (pNext b) xs None"
    by auto
  then have "\<not> P b" using Cons.prems(2) [of x] by simp
  with b Cons show ?case by (subst find_with_prev.simps) simp
qed

lemma collect_order_dseg:
  "dseg hp p prev as None \<Longrightarrow> collect_order hp p acc = Some (acc @ as)"
proof (induction as arbitrary: p prev acc)
  case Nil
  then show ?case by (simp add: collect_order.simps)
next
  case (Cons a as)
  then show ?case by (subst collect_order.simps) auto
qed

subsection \<open>Keys\<close>

datatype hkey = Str "char list" | Idx ulong

definition bkey :: "'d bucket \<Rightarrow> hkey" where
  "bkey b = (case arKey b of None \<Rightarrow> Idx (hval b) | Some k \<Rightarrow> Str k)"

text \<open>The key a string stands for: PHP treats \<open>"5"\<close> as \<open>5\<close>.\<close>

definition norm_key :: "char list \<Rightarrow> hkey" where
  "norm_key key = (case handle_numeric key of None \<Rightarrow> Str key | Some i \<Rightarrow> Idx i)"

definition key_hash :: "'d hashtable \<Rightarrow> hkey \<Rightarrow> ulong" where
  "key_hash t k = (case k of Str s \<Rightarrow> pHashFunction t s | Idx i \<Rightarrow> i)"

definition bucket_ok :: "'d hashtable \<Rightarrow> 'd bucket \<Rightarrow> bool" where
  "bucket_ok t b \<longleftrightarrow>
     (case arKey b of
        None \<Rightarrow> nKeyLength b = 0
      | Some k \<Rightarrow> nKeyLength b = length k \<and> k \<noteq> [] \<and> handle_numeric k = None \<and>
          hval b = pHashFunction t k)"

lemma bucket_ok_hval: "bucket_ok t b \<Longrightarrow> hval b = key_hash t (bkey b)"
  by (auto simp: bucket_ok_def bkey_def key_hash_def split: option.splits)

text \<open>Links, data and the pointer flag are no part of the key.\<close>

lemma bkey_cong:
  "hval b' = hval b \<Longrightarrow> arKey b' = arKey b \<Longrightarrow> bkey b' = bkey b"
  unfolding bkey_def by (cases "arKey b") simp_all

lemma bucket_ok_bucket_cong:
  "hval b' = hval b \<Longrightarrow> arKey b' = arKey b \<Longrightarrow> nKeyLength b' = nKeyLength b \<Longrightarrow>
    bucket_ok t b' = bucket_ok t b"
  unfolding bucket_ok_def by (cases "arKey b") simp_all

lemma bkey_upd [simp]:
  "bkey (b\<lparr>pListNext := x\<rparr>) = bkey b" "bkey (b\<lparr>pListLast := x\<rparr>) = bkey b"
  "bkey (b\<lparr>pNext := x\<rparr>) = bkey b" "bkey (b\<lparr>pData := d\<rparr>) = bkey b"
  "bkey (b\<lparr>bIsPointer := f\<rparr>) = bkey b"
  by (rule bkey_cong, simp_all)+

lemma bucket_ok_upd [simp]:
  "bucket_ok t (b\<lparr>pListNext := x\<rparr>) = bucket_ok t b" "bucket_ok t (b\<lparr>pListLast := x\<rparr>) = bucket_ok t b"
  "bucket_ok t (b\<lparr>pNext := x\<rparr>) = bucket_ok t b" "bucket_ok t (b\<lparr>pData := d\<rparr>) = bucket_ok t b"
  "bucket_ok t (b\<lparr>bIsPointer := f\<rparr>) = bucket_ok t b"
  by (rule bucket_ok_bucket_cong, simp_all)+

lemma idx_match_iff: "idx_match hv b \<longleftrightarrow> bkey b = Idx hv"
  by (auto simp: idx_match_def bkey_def split: option.splits)

lemma str_match_iff:
  "bucket_ok t b \<Longrightarrow> str_match key (pHashFunction t key) b \<longleftrightarrow> bkey b = Str key"
  by (auto simp: str_match_def bkey_def bucket_ok_def split: option.splits)

subsection \<open>The invariant\<close>

abbreviation bk :: "'d hashtable \<Rightarrow> addr \<Rightarrow> 'd bucket" where
  "bk t a \<equiv> the (heap t a)"

definition size_inv :: "'d hashtable \<Rightarrow> bool" where
  "size_inv t \<longleftrightarrow> nHashSizeIndex t < nNumPrimeNumbers \<and>
     nTableSize t = PrimeNumbers ! nHashSizeIndex t \<and> length (arBuckets t) = nTableSize t"

definition order_inv :: "'d hashtable \<Rightarrow> addr list \<Rightarrow> bool" where
  "order_inv t os \<longleftrightarrow>
     dseg (heap t) (pListHead t) None os None \<and> pListTail t = last_ptr None os \<and> distinct os \<and>
     dom (heap t) = set os \<and> (\<forall>a \<in> set os. a < brk t) \<and> nNumOfElements t = length os \<and>
     (\<forall>a. pInternalPointer t = Some a \<longrightarrow> a \<in> set os)"

definition slot_ok :: "'d hashtable \<Rightarrow> addr list \<Rightarrow> nat \<Rightarrow> addr list \<Rightarrow> bool" where
  "slot_ok t os i c \<longleftrightarrow> cseg (heap t) (arBuckets t ! i) c None \<and> distinct c \<and>
     set c = {a \<in> set os. index_of t (hval (bk t a)) = i}"

definition chain_inv :: "'d hashtable \<Rightarrow> addr list \<Rightarrow> bool" where
  "chain_inv t os \<longleftrightarrow> (\<forall>i < nTableSize t. \<exists>c. slot_ok t os i c)"

definition content_inv :: "'d hashtable \<Rightarrow> addr list \<Rightarrow> bool" where
  "content_inv t os \<longleftrightarrow> (\<forall>a \<in> set os. bucket_ok t (bk t a)) \<and> distinct (map (\<lambda>a. bkey (bk t a)) os)"

definition ht_inv :: "'d hashtable \<Rightarrow> addr list \<Rightarrow> bool" where
  "ht_inv t os \<longleftrightarrow> size_inv t \<and> order_inv t os \<and> chain_inv t os \<and> content_inv t os"

lemmas [hash_defs] = size_inv_def order_inv_def chain_inv_def content_inv_def slot_ok_def

definition ht_abs :: "'d hashtable \<Rightarrow> addr list \<Rightarrow> (hkey \<times> 'd) list" where
  "ht_abs t os = map (\<lambda>a. (bkey (bk t a), pData (bk t a))) os"

lemma invD:
  assumes "ht_inv t os"
  shows "size_inv t" "order_inv t os" "chain_inv t os" "content_inv t os"
  using assms by (auto simp: ht_inv_def)

lemma inv_heap: "ht_inv t os \<Longrightarrow> a \<in> set os \<Longrightarrow> heap t a = Some (bk t a)"
  by (metis domIff ht_inv_def option.exhaust_sel order_inv_def)

text \<open>
  As a rewrite rule \<open>inv_heap\<close> would loop (\<open>bk\<close> reads the heap), so proofs get the bucket by
  elimination.
\<close>

lemma inv_heapE:
  assumes "ht_inv t os" "a \<in> set os"
  obtains b where "heap t a = Some b" "bucket_ok t b"
  using inv_heap [OF assms] assms that by (auto simp: ht_inv_def content_inv_def)

lemma prime_pos: "i < nNumPrimeNumbers \<Longrightarrow> 0 < PrimeNumbers ! i"
proof -
  assume "i < nNumPrimeNumbers"
  then have "i < length PrimeNumbers" by (simp add: nNumPrimeNumbers_def)
  then have "PrimeNumbers ! i \<in> set PrimeNumbers" by (rule nth_mem)
  then show ?thesis by (auto simp: PrimeNumbers_def)
qed

lemma nNumPrimeNumbers_14: "nNumPrimeNumbers = 14"
  by (simp add: nNumPrimeNumbers_def PrimeNumbers_def)

lemma size_inv_pos: "size_inv t \<Longrightarrow> 0 < nTableSize t"
  by (auto simp: size_inv_def prime_pos)

lemma index_of_less: "size_inv t \<Longrightarrow> index_of t hv < nTableSize t"
  by (simp add: index_of_def size_inv_pos)

lemma inv_slot:
  assumes "ht_inv t os"
  obtains c where "slot t (index_of t hv) = Some (arBuckets t ! index_of t hv)"
    and "slot_ok t os (index_of t hv) c"
proof -
  from assms have "size_inv t" "chain_inv t os" by (auto dest: invD)
  then show ?thesis
    using that index_of_less [of t hv] by (auto simp: slot_def chain_inv_def size_inv_def)
qed

definition locate :: "'d hashtable \<Rightarrow> addr list \<Rightarrow> hkey \<Rightarrow> ptr" where
  "locate t os k = List.find (\<lambda>a. bkey (bk t a) = k) os"

lemma content_unique:
  "content_inv t os \<Longrightarrow> a \<in> set os \<Longrightarrow> b \<in> set os \<Longrightarrow> bkey (bk t a) = bkey (bk t b) \<Longrightarrow> a = b"
  by (auto simp: content_inv_def distinct_map dest: inj_onD)

lemma search_locate:
  assumes "ht_inv t os" and "\<And>a. a \<in> set os \<Longrightarrow> P (bk t a) \<longleftrightarrow> bkey (bk t a) = k"
    and "hv = key_hash t k"
  shows "search t P hv = Some (locate t os k)"
proof -
  obtain c where s: "slot t (index_of t hv) = Some (arBuckets t ! index_of t hv)"
    and c: "slot_ok t os (index_of t hv) c"
    using inv_slot [OF assms(1)] by blast
  from c have sub: "set c \<subseteq> set os" by (auto simp: slot_ok_def)
  have "List.find (\<lambda>a. P (bk t a)) c = List.find (\<lambda>a. bkey (bk t a) = k) c"
    using sub assms(2) by (intro find_cong) auto
  also have "\<dots> = locate t os k"
    unfolding locate_def
  proof (rule find_same [OF sub])
    fix a assume a: "a \<in> set os" "bkey (bk t a) = k"
    with assms(1) have "bucket_ok t (bk t a)" by (auto dest: invD simp: content_inv_def)
    with a assms(3) have "hval (bk t a) = hv" by (simp add: bucket_ok_hval)
    with a c show "a \<in> set c" by (simp add: slot_ok_def)
  next
    fix a b assume "a \<in> set os" "b \<in> set os" "bkey (bk t a) = k" "bkey (bk t b) = k"
    with assms(1) show "a = b" by (auto dest: invD content_unique)
  qed
  finally show ?thesis
    using s c by (simp add: search_def find_bucket_cseg [where as = c] slot_ok_def)
qed

lemma search_idx: "ht_inv t os \<Longrightarrow> search t (idx_match hv) hv = Some (locate t os (Idx hv))"
  by (rule search_locate) (auto simp: idx_match_iff key_hash_def)

lemma search_str:
  assumes "ht_inv t os"
  shows "search t (str_match key (pHashFunction t key)) (pHashFunction t key) =
    Some (locate t os (Str key))"
  using assms
  by (intro search_locate) (auto simp: key_hash_def str_match_iff dest!: invD(4) simp: content_inv_def)

lemma locate_Some:
  assumes "locate t os k = Some a"
  shows "a \<in> set os" "bkey (bk t a) = k"
  using assms by (auto simp: locate_def dest: find_SomeD')

lemma locate_None: "locate t os k = None \<longleftrightarrow> k \<notin> fst ` set (ht_abs t os)"
  by (simp add: locate_def find_None_iff_all ht_abs_def image_image) auto

lemma locate_in: "locate t os k = Some a \<Longrightarrow> k \<in> fst ` set (ht_abs t os)"
  by (metis locate_None option.distinct(1))

lemma not_key: "k \<notin> fst ` set (ht_abs t os) \<Longrightarrow> x \<in> set os \<Longrightarrow> bkey (bk t x) \<noteq> k"
  by (force simp: ht_abs_def)

lemma map_of_abs: "map_of (ht_abs t os) k = map_option (\<lambda>a. pData (bk t a)) (locate t os k)"
  unfolding ht_abs_def locate_def by (induction os) auto

lemma abs_keys: "map fst (ht_abs t os) = map (\<lambda>a. bkey (bk t a)) os"
  by (simp add: ht_abs_def)

lemma abs_distinct: "ht_inv t os \<Longrightarrow> distinct (map fst (ht_abs t os))"
  by (simp add: abs_keys ht_inv_def content_inv_def)

lemma length_abs [simp]: "length (ht_abs t os) = length os"
  by (simp add: ht_abs_def)

lemma inv_order_unique: "ht_inv t os \<Longrightarrow> ht_inv t os' \<Longrightarrow> os = os'"
  by (metis append_Nil collect_order_dseg ht_inv_def option.inject order_inv_def)

end
