(* ===== verification/Hash_Proofs.thy ===== *)
theory Hash_Proofs
  imports Hash_Inv
begin

text \<open>
  What each operation of the hash table does, in terms of the invariant \<open>ht_inv\<close> and the
  abstraction \<open>ht_abs\<close>: lookups read the association list, insertion is \<open>AList.update\<close> (a new key goes
  to the end), growing the table changes nothing.
\<close>

subsection \<open>Fields the invariant does not read\<close>

lemma bucket_ok_cong: "pHashFunction t' = pHashFunction t \<Longrightarrow> bucket_ok t' = bucket_ok t"
proof (rule ext)
  fix b assume "pHashFunction t' = pHashFunction t"
  then show "bucket_ok t' b = bucket_ok t b" by (cases "arKey b") (simp_all add: bucket_ok_def)
qed

lemma bucket_ok_frame [simp]:
  "bucket_ok (t\<lparr>destroyed := x\<rparr>) = bucket_ok t" "bucket_ok (t\<lparr>mallocs := ms\<rparr>) = bucket_ok t"
  "bucket_ok (t\<lparr>nNextFreeElement := n\<rparr>) = bucket_ok t" "bucket_ok (t\<lparr>heap := hp\<rparr>) = bucket_ok t"
  by (rule bucket_ok_cong, simp)+

lemma inv_frame [simp]:
  "ht_inv (t\<lparr>destroyed := x\<rparr>) os = ht_inv t os"
  "ht_inv (t\<lparr>mallocs := ms\<rparr>) os = ht_inv t os"
  "ht_inv (t\<lparr>nNextFreeElement := n\<rparr>) os = ht_inv t os"
  by (simp_all add: ht_inv_def hash_defs index_of_def)

lemma abs_frame [simp]:
  "ht_abs (t\<lparr>destroyed := x\<rparr>) os = ht_abs t os"
  "ht_abs (t\<lparr>mallocs := ms\<rparr>) os = ht_abs t os"
  "ht_abs (t\<lparr>nNextFreeElement := n\<rparr>) os = ht_abs t os"
  "ht_abs (t\<lparr>nNumOfElements := m\<rparr>) os = ht_abs t os"
  "ht_abs (t\<lparr>pInternalPointer := p\<rparr>) os = ht_abs t os"
  by (simp_all add: ht_abs_def)

text \<open>The parameters of a table that no insertion changes.\<close>

definition same_params :: "'d hashtable \<Rightarrow> 'd hashtable \<Rightarrow> bool" where
  "same_params t t' \<longleftrightarrow> pHashFunction t' = pHashFunction t \<and> persistent t' = persistent t \<and>
     pDestructor t' = pDestructor t"

lemma same_params_refl [simp]: "same_params t t"
  by (simp add: same_params_def)

lemma same_params_trans [trans]: "same_params t u \<Longrightarrow> same_params u v \<Longrightarrow> same_params t v"
  by (simp add: same_params_def)

text \<open>Allocation cannot fail: \<open>emalloc\<close> does not return when it fails, \<open>malloc\<close> has memory left.\<close>

definition mem_ok :: "'d hashtable \<Rightarrow> bool" where
  "mem_ok t \<longleftrightarrow> persistent t \<longrightarrow> mallocs t = []"

lemma pemalloc_mem_ok: "mem_ok t \<Longrightarrow> pemalloc t = (True, t)"
  by (auto simp: pemalloc_def mem_ok_def)

lemma pemalloc_cases:
  obtains ok ms where "pemalloc t = (ok, t\<lparr>mallocs := ms\<rparr>)"
proof (cases "persistent t \<and> mallocs t \<noteq> []")
  case True
  then have "pemalloc t = (hd (mallocs t), t\<lparr>mallocs := tl (mallocs t)\<rparr>)"
    by (cases "mallocs t") (simp_all add: pemalloc_def)
  then show ?thesis by (rule that)
next
  case False
  then have "pemalloc t = (True, t\<lparr>mallocs := mallocs t\<rparr>)"
    by (auto simp: pemalloc_def)
  then show ?thesis by (rule that)
qed

subsection \<open>Lookup\<close>

lemma locate_data:
  assumes "ht_inv t os"
  shows "(case locate t os k of None \<Rightarrow> Some None | Some a \<Rightarrow> do { b \<leftarrow> heap t a; Some (Some (f b)) }) =
    Some (map_option (\<lambda>a. f (bk t a)) (locate t os k))"
proof (cases "locate t os k")
  case (Some a)
  then have "a \<in> set os" by (rule locate_Some(1))
  with assms obtain b where "heap t a = Some b" by (rule inv_heapE)
  with Some show ?thesis by simp
qed simp

lemma index_find_ok: "ht_inv t os \<Longrightarrow> php3_hash_index_find t hv = Some (map_of (ht_abs t os) (Idx hv))"
  by (simp add: php3_hash_index_find_def search_idx map_of_abs locate_data)

lemma find_ok:
  assumes "ht_inv t os"
  shows "php3_hash_find t key = Some (map_of (ht_abs t os) (norm_key key))"
  using assms
  by (cases "handle_numeric key")
    (simp_all add: php3_hash_find_def norm_key_def index_find_ok search_str map_of_abs locate_data Let_def)

lemma index_exists_ok:
  "ht_inv t os \<Longrightarrow> php3_hash_index_exists t hv = Some (if Idx hv \<in> fst ` set (ht_abs t os) then 1 else 0)"
  using locate_None [of t os "Idx hv"] by (auto simp: php3_hash_index_exists_def search_idx)

lemma exists_ok:
  "ht_inv t os \<Longrightarrow> php3_hash_exists t key = Some (if norm_key key \<in> fst ` set (ht_abs t os) then 1 else 0)"
  using locate_None [of t os "Str key"]
  by (cases "handle_numeric key")
    (auto simp: php3_hash_exists_def norm_key_def index_exists_ok search_str Let_def)

subsection \<open>Writing the data of a bucket\<close>

lemma inv_write_data:
  assumes "ht_inv t os" "a \<in> set os"
    and b': "hval b' = hval (bk t a)" "arKey b' = arKey (bk t a)" "nKeyLength b' = nKeyLength (bk t a)"
      "pListNext b' = pListNext (bk t a)" "pListLast b' = pListLast (bk t a)" "pNext b' = pNext (bk t a)"
  shows "ht_inv (t\<lparr>heap := (heap t)(a \<mapsto> b')\<rparr>) os"
    and "ht_abs (t\<lparr>heap := (heap t)(a \<mapsto> b')\<rparr>) os = AList.update (bkey (bk t a)) (pData b') (ht_abs t os)"
proof -
  let ?t = "t\<lparr>heap := (heap t)(a \<mapsto> b')\<rparr>"
  obtain b where ha: "heap t a = Some b" using assms(1,2) by (rule inv_heapE)
  have key: "bkey b' = bkey (bk t a)" unfolding bkey_def b' by (rule refl)
  have keys: "bkey (bk ?t x) = bkey (bk t x)" for x using key by simp
  have hvals: "hval (bk ?t x) = hval (bk t x)" for x using b' by simp
  have cs: "cseg (heap ?t) p c e = cseg (heap t) p c e" for p c e
    using ha b' by (intro cseg_cong) auto
  have ds: "dseg (heap ?t) p q c e = dseg (heap t) p q c e" for p q c e
    using ha b' by (intro dseg_cong) auto
  have "size_inv ?t" using assms(1) by (simp add: ht_inv_def size_inv_def)
  moreover have "order_inv ?t os"
    using assms(1,2) ds by (auto simp: ht_inv_def order_inv_def)
  moreover have "chain_inv ?t os"
    using invD(3) [OF assms(1)] cs hvals by (simp add: chain_inv_def slot_ok_def index_of_def)
  moreover have "content_inv ?t os"
    using invD(4) [OF assms(1)] keys b' assms(2)
    by (auto simp: content_inv_def bucket_ok_def split: option.splits)
  ultimately show "ht_inv ?t os" by (simp add: ht_inv_def)
  have "distinct (map (\<lambda>x. bkey (bk t x)) os)" using assms(1) by (simp add: ht_inv_def content_inv_def)
  from update_map_pairs [OF this assms(2), of "pData b'" "\<lambda>x. pData (bk t x)"]
  show "ht_abs ?t os = AList.update (bkey (bk t a)) (pData b') (ht_abs t os)"
    unfolding ht_abs_def using keys by (auto intro!: map_cong)
qed

lemma overwrite_data_ok:
  assumes "ht_inv t os" "a \<in> set os"
  obtains t' where "overwrite_data t a d = Some t'" "ht_inv t' os"
    "ht_abs t' os = AList.update (bkey (bk t a)) d (ht_abs t os)" "same_params t t'"
    "nNextFreeElement t' = nNextFreeElement t" "mallocs t' = mallocs t"
    "destroyed t' = destroyed t @ (if pDestructor t then [pData (bk t a)] else [])"
    "bkey (bk t' a) = bkey (bk t a)"
proof -
  let ?b = "(bk t a)\<lparr>pData := d\<rparr>"
  let ?t = "run_destructor (pData (bk t a)) t"
  let ?t' = "?t\<lparr>heap := (heap ?t)(a \<mapsto> ?b)\<rparr>"
  have eq: "?t' = (t\<lparr>heap := (heap t)(a \<mapsto> ?b)\<rparr>)\<lparr>destroyed := destroyed ?t\<rparr>"
    by (simp add: run_destructor_def)
  obtain b where "heap t a = Some b" using assms by (rule inv_heapE)
  then have "overwrite_data t a d = Some ?t'" by (simp add: overwrite_data_def Let_def)
  moreover have "ht_inv ?t' os" "ht_abs ?t' os = AList.update (bkey (bk t a)) d (ht_abs t os)"
    unfolding eq using inv_write_data [OF assms, of ?b] by simp_all
  ultimately show ?thesis
    by (intro that [of ?t']) (auto simp: run_destructor_def same_params_def)
qed

lemma overwrite_pointer_ok:
  assumes "ht_inv t os" "a \<in> set os"
  obtains t' where "overwrite_pointer t a d = Some t'" "ht_inv t' os"
    "ht_abs t' os = AList.update (bkey (bk t a)) d (ht_abs t os)" "same_params t t'"
    "nNextFreeElement t' = nNextFreeElement t" "mallocs t' = mallocs t"
    "bkey (bk t' a) = bkey (bk t a)"
proof -
  let ?b = "(bk t a)\<lparr>pData := d, bIsPointer := True\<rparr>"
  let ?t = "if \<not> bIsPointer (bk t a) then run_destructor (pData (bk t a)) t else t"
  let ?t' = "?t\<lparr>heap := (heap ?t)(a \<mapsto> ?b)\<rparr>"
  have eq: "?t' = (t\<lparr>heap := (heap t)(a \<mapsto> ?b)\<rparr>)\<lparr>destroyed := destroyed ?t\<rparr>"
    by (simp add: run_destructor_def)
  obtain b where "heap t a = Some b" using assms by (rule inv_heapE)
  then have "overwrite_pointer t a d = Some ?t'" by (simp add: overwrite_pointer_def Let_def)
  moreover have "ht_inv ?t' os" "ht_abs ?t' os = AList.update (bkey (bk t a)) d (ht_abs t os)"
    unfolding eq using inv_write_data [OF assms, of ?b] by simp_all
  ultimately show ?thesis
    by (intro that [of ?t']) (auto simp: run_destructor_def same_params_def)
qed

subsection \<open>Linking a new bucket\<close>

lemma content_inv_extend:
  assumes "content_inv t os" "heap t' = hp" "bucket_ok t' = bucket_ok t"
    and keys: "\<And>x. x \<in> set os \<Longrightarrow> bkey (the (hp x)) = bkey (bk t x)"
    and "\<And>x. x \<in> set os \<Longrightarrow> bucket_ok t (the (hp x)) = bucket_ok t (bk t x)"
    and "hp a = Some q" "bucket_ok t q" "bkey q \<notin> (\<lambda>x. bkey (bk t x)) ` set os"
  shows "content_inv t' (os @ [a])"
proof -
  have eq: "map (\<lambda>x. bkey (the (hp x))) os = map (\<lambda>x. bkey (bk t x)) os" using keys by simp
  have "distinct (map (\<lambda>x. bkey (bk t x)) os)" using assms(1) by (simp add: content_inv_def)
  moreover have "bkey q \<notin> set (map (\<lambda>x. bkey (bk t x)) os)" using assms(8) by simp
  ultimately have "distinct (map (\<lambda>x. bkey (the (hp x))) os @ [bkey q])"
    unfolding eq by (simp del: set_map)
  then have "distinct (map (\<lambda>x. bkey (the (hp x))) (os @ [a]))" using assms(6) by simp
  moreover have "\<forall>x \<in> set (os @ [a]). bucket_ok t (the (hp x))"
    using assms by (simp add: content_inv_def)
  ultimately show ?thesis unfolding content_inv_def assms(2,3) by blast
qed

lemma link_bucket_ok:
  assumes ht_inv: "ht_inv t os" and ok: "bucket_ok t p" and new: "bkey p \<notin> fst ` set (ht_abs t os)"
    and ni: "nIndex = index_of t (hval p)"
  obtains t' where "link_bucket t nIndex p = Some (brk t, t')"
    "ht_inv (t'\<lparr>nNumOfElements := Suc (nNumOfElements t')\<rparr>) (os @ [brk t])"
    "ht_abs t' (os @ [brk t]) = ht_abs t os @ [(bkey p, pData p)]" "same_params t t'"
    "nNextFreeElement t' = nNextFreeElement t" "mallocs t' = mallocs t" "destroyed t' = destroyed t"
proof -
  let ?a = "brk t"
  let ?q = "p\<lparr>pNext := arBuckets t ! nIndex, pListLast := pListTail t, pListNext := None\<rparr>"
  let ?hp1 = "(heap t)(?a \<mapsto> ?q)"
  let ?hp = "case pListTail t of None \<Rightarrow> ?hp1 | Some l \<Rightarrow> ?hp1(l \<mapsto> (bk t l)\<lparr>pListNext := Some ?a\<rparr>)"
  let ?t = "t\<lparr>brk := Suc ?a, heap := ?hp,
      pInternalPointer := (if pInternalPointer t = None then Some ?a else pInternalPointer t),
      arBuckets := (arBuckets t)[nIndex := Some ?a], pListTail := Some ?a,
      pListHead := (if pListHead t = None then Some ?a else pListHead t)\<rparr>"
  have si: "size_inv t" and oi: "order_inv t os" and ci: "chain_inv t os" and ti: "content_inv t os"
    using ht_inv by (auto dest: invD)
  have ni_less: "nIndex < nTableSize t" using ni si by (simp add: index_of_less)
  have sl: "slot t nIndex = Some (arBuckets t ! nIndex)"
    using ni_less si by (simp add: slot_def size_inv_def)
  have fresh: "?a \<notin> set os" using oi by (auto simp: order_inv_def)
  have tail: "pListTail t = last_ptr None os" using oi by (simp add: order_inv_def)
  have l_in: "l \<in> set os" if "pListTail t = Some l" for l
    using that tail by (auto simp: last_ptr_def split: if_splits)
  then have l_a: "l \<noteq> ?a" if "pListTail t = Some l" for l
    using that fresh by blast
  have hl: "\<exists>b. heap t l = Some b" if "pListTail t = Some l" for l
    using ht_inv l_in [OF that] by (rule inv_heapE) auto
  have eq: "link_bucket t nIndex p = Some (?a, ?t)"
  proof (cases "pListTail t")
    case None
    then show ?thesis using sl by (simp add: link_bucket_def Let_def)
  next
    case (Some l)
    with l_a hl obtain b where "l \<noteq> ?a" "heap t l = Some b" by blast
    with Some show ?thesis using sl by (simp add: link_bucket_def Let_def)
  qed
  have hpa: "?hp ?a = Some ?q" using l_a by (cases "pListTail t") auto
  have hps: "?hp x = Some (if pListTail t = Some x then b\<lparr>pListNext := Some ?a\<rparr> else b)"
    if "x \<in> set os" "heap t x = Some b" for x b
    using that fresh by (cases "pListTail t") auto
  have keys: "bkey (the (?hp x)) = bkey (bk t x)" "hval (the (?hp x)) = hval (bk t x)"
    "pData (the (?hp x)) = pData (bk t x)" "bucket_ok t (the (?hp x)) = bucket_ok t (bk t x)"
    if xin: "x \<in> set os" for x
  proof -
    obtain b where b: "heap t x = Some b" using ht_inv xin by (rule inv_heapE)
    from hps [OF xin b] b
    show "bkey (the (?hp x)) = bkey (bk t x)" "hval (the (?hp x)) = hval (bk t x)"
      "pData (the (?hp x)) = pData (bk t x)" "bucket_ok t (the (?hp x)) = bucket_ok t (bk t x)"
      by simp_all
  qed
  have qk: "bkey ?q = bkey p" "bucket_ok t ?q" using ok by simp_all
  have cs: "cseg ?hp x c e = cseg (heap t) x c e" if "set c \<subseteq> set os" for x c e
  proof (rule cseg_cong)
    fix y assume "y \<in> set c"
    with that have y: "y \<in> set os" by auto
    obtain b where b: "heap t y = Some b" using ht_inv y by (rule inv_heapE)
    from hps [OF y b] b show "map_option pNext (?hp y) = map_option pNext (heap t y)" by simp
  qed
  let ?t' = "?t\<lparr>nNumOfElements := Suc (nNumOfElements ?t)\<rparr>"
  have "size_inv ?t'" using si by (simp add: size_inv_def)
  moreover have "order_inv ?t' (os @ [?a])"
  proof -
    have d: "dseg (heap t) (pListHead t) None os None" using oi by (simp add: order_inv_def)
    have seg: "dseg ?hp (if pListHead t = None then Some ?a else pListHead t) None os (Some ?a)"
    proof (cases os rule: rev_cases)
      case Nil
      with d show ?thesis by simp
    next
      case (snoc ys l)
      have lt: "pListTail t = Some l" using snoc tail by simp
      have dist: "l \<notin> set ys" using oi snoc by (auto simp: order_inv_def)
      from d snoc obtain z where z: "dseg (heap t) (pListHead t) None ys z"
        and zl: "dseg (heap t) z (last_ptr None ys) [l] None" by (auto simp: dseg_append)
      have "dseg ?hp (pListHead t) None ys z"
        using z
      proof (subst dseg_cong)
        fix y assume y: "y \<in> set ys"
        with snoc have yo: "y \<in> set os" by simp
        obtain b where b: "heap t y = Some b" using ht_inv yo by (rule inv_heapE)
        from y dist have "y \<noteq> l" by blast
        with hps [OF yo b] b lt
        show "map_option (\<lambda>b. (pListNext b, pListLast b)) (?hp y) =
            map_option (\<lambda>b. (pListNext b, pListLast b)) (heap t y)" by simp
      qed
      moreover have "pListHead t \<noteq> None" using d snoc by (cases ys) auto
      moreover obtain b where "heap t l = Some b" using hl lt by blast
      ultimately show ?thesis using snoc zl hps [of l b] lt
        by (auto simp: dseg_append)
    qed
    have "dseg ?hp (if pListHead t = None then Some ?a else pListHead t) None (os @ [?a]) None"
      using seg hpa tail by (simp add: dseg_append)
    moreover have "dom ?hp = set (os @ [?a])"
    proof -
      have "dom (heap t) = set os" using oi by (simp add: order_inv_def)
      then show ?thesis using l_in by (cases "pListTail t") auto
    qed
    ultimately show ?thesis using oi fresh
      by (auto simp: order_inv_def)
  qed
  moreover have "chain_inv ?t' (os @ [?a])"
    unfolding chain_inv_def
  proof (intro allI impI)
    fix i assume "i < nTableSize ?t'"
    then have i: "i < nTableSize t" by simp
    with ci obtain c where c: "slot_ok t os i c" by (auto simp: chain_inv_def)
    then have sub: "set c \<subseteq> set os" and dc: "distinct c" by (auto simp: slot_ok_def)
    have seteq: "{x \<in> set (os @ [?a]). index_of ?t' (hval (bk ?t' x)) = i} =
        {x \<in> set os. index_of t (hval (bk t x)) = i} \<union> (if i = nIndex then {?a} else {})"
      using keys(2) hpa ni by (auto simp: index_of_def)
    show "\<exists>c. slot_ok ?t' (os @ [?a]) i c"
    proof (cases "i = nIndex")
      case True
      have "slot_ok ?t' (os @ [?a]) i (?a # c)"
        unfolding slot_ok_def seteq
        using True c cs [OF sub] hpa fresh sub dc ni_less si
        by (auto simp: slot_ok_def size_inv_def)
      then show ?thesis ..
    next
      case False
      have "slot_ok ?t' (os @ [?a]) i c"
        unfolding slot_ok_def seteq
        using False c cs [OF sub] dc by (auto simp: slot_ok_def)
      then show ?thesis ..
    qed
  qed
  moreover have "content_inv ?t' (os @ [?a])"
  proof (rule content_inv_extend [OF ti])
    show "heap ?t' = ?hp" by simp
    show "bucket_ok ?t' = bucket_ok t" by (rule bucket_ok_cong) simp
    show "?hp ?a = Some ?q" by (rule hpa)
    show "bucket_ok t ?q" by (rule qk)
    show "bkey ?q \<notin> (\<lambda>x. bkey (bk t x)) ` set os" unfolding qk using new by (simp add: ht_abs_def image_image)
    fix x assume "x \<in> set os"
    then show "bkey (the (?hp x)) = bkey (bk t x)" "bucket_ok t (the (?hp x)) = bucket_ok t (bk t x)"
      by (rule keys)+
  qed
  ultimately have "ht_inv ?t' (os @ [?a])" by (simp add: ht_inv_def)
  moreover have "ht_abs ?t (os @ [?a]) = ht_abs t os @ [(bkey p, pData p)]"
    using keys qk hpa by (simp add: ht_abs_def)
  ultimately show ?thesis
    using eq by (intro that [of ?t]) (auto simp: same_params_def)
qed

end
