(* ===== verification/Hash_Insert.thy ===== *)
theory Hash_Insert
  imports Hash_Proofs
begin

text \<open>
  Growing the table and the four insertion functions: every insertion keeps the invariant and is
  \<open>AList.update\<close> on the abstraction.
\<close>

subsection \<open>Rehashing\<close>

text \<open>The chains of the slots \<open>bs\<close> partition the buckets of \<open>D\<close> by their hash.\<close>

definition slots_ok :: "nat \<Rightarrow> 'd bheap \<Rightarrow> ptr list \<Rightarrow> addr set \<Rightarrow> bool" where
  "slots_ok n hp bs D \<longleftrightarrow> length bs = n \<and>
     (\<forall>i < n. \<exists>c. cseg hp (bs ! i) c None \<and> distinct c \<and> set c = {a \<in> D. unat (hval (the (hp a))) mod n = i})"

text \<open>A heap that differs in \<open>pNext\<close> fields only.\<close>

definition same_but_next :: "'d bheap \<Rightarrow> 'd bheap \<Rightarrow> bool" where
  "same_but_next hp hp' \<longleftrightarrow> (\<forall>a. map_option (\<lambda>b. b\<lparr>pNext := None\<rparr>) (hp' a) = map_option (\<lambda>b. b\<lparr>pNext := None\<rparr>) (hp a))"

lemma bucket_next_eqD:
  assumes "b'\<lparr>pNext := None\<rparr> = (b\<lparr>pNext := None\<rparr> :: 'd bucket)"
  shows "hval b' = hval b" "arKey b' = arKey b" "nKeyLength b' = nKeyLength b" "pData b' = pData b"
    "bIsPointer b' = bIsPointer b" "pListNext b' = pListNext b" "pListLast b' = pListLast b"
proof -
  have "hval (b'\<lparr>pNext := None\<rparr>) = hval (b\<lparr>pNext := None\<rparr>)" using assms by simp
  then show "hval b' = hval b" by simp
  have "arKey (b'\<lparr>pNext := None\<rparr>) = arKey (b\<lparr>pNext := None\<rparr>)" using assms by simp
  then show "arKey b' = arKey b" by simp
  have "nKeyLength (b'\<lparr>pNext := None\<rparr>) = nKeyLength (b\<lparr>pNext := None\<rparr>)" using assms by simp
  then show "nKeyLength b' = nKeyLength b" by simp
  have "pData (b'\<lparr>pNext := None\<rparr>) = pData (b\<lparr>pNext := None\<rparr>)" using assms by simp
  then show "pData b' = pData b" by simp
  have "bIsPointer (b'\<lparr>pNext := None\<rparr>) = bIsPointer (b\<lparr>pNext := None\<rparr>)" using assms by simp
  then show "bIsPointer b' = bIsPointer b" by simp
  have "pListNext (b'\<lparr>pNext := None\<rparr>) = pListNext (b\<lparr>pNext := None\<rparr>)" using assms by simp
  then show "pListNext b' = pListNext b" by simp
  have "pListLast (b'\<lparr>pNext := None\<rparr>) = pListLast (b\<lparr>pNext := None\<rparr>)" using assms by simp
  then show "pListLast b' = pListLast b" by simp
qed

lemma same_but_nextE:
  assumes "same_but_next hp hp'" "hp a = Some b"
  obtains b' where "hp' a = Some b'" "hval b' = hval b" "arKey b' = arKey b"
    "nKeyLength b' = nKeyLength b" "pData b' = pData b" "bIsPointer b' = bIsPointer b"
    "pListNext b' = pListNext b" "pListLast b' = pListLast b"
proof -
  from assms have "map_option (\<lambda>b. b\<lparr>pNext := None\<rparr>) (hp' a) = Some (b\<lparr>pNext := None\<rparr>)"
    by (auto simp: same_but_next_def)
  then obtain b' where "hp' a = Some b'" "b'\<lparr>pNext := None\<rparr> = b\<lparr>pNext := None\<rparr>" by auto
  then show ?thesis using bucket_next_eqD that by blast
qed

lemma same_but_next_None: "same_but_next hp hp' \<Longrightarrow> hp' a = None \<longleftrightarrow> hp a = None"
  unfolding same_but_next_def by (metis None_eq_map_option_iff)

lemma same_but_next_dseg:
  assumes "same_but_next hp hp'"
  shows "dseg hp' p prev as e = dseg hp p prev as e"
proof (rule dseg_cong)
  fix a
  show "map_option (\<lambda>b. (pListNext b, pListLast b)) (hp' a) = map_option (\<lambda>b. (pListNext b, pListLast b)) (hp a)"
  proof (cases "hp a")
    case None
    with same_but_next_None [OF assms, of a] show ?thesis by simp
  next
    case (Some b)
    from assms Some obtain b' where "hp' a = Some b'" "pListNext b' = pListNext b"
      "pListLast b' = pListLast b" by (rule same_but_nextE)
    with Some show ?thesis by simp
  qed
qed

lemma slots_ok_step:
  assumes s: "slots_ok n hp bs D" and a: "a \<notin> D" "hp a = Some b" and i: "i = unat (hval b) mod n" "i < n"
  shows "slots_ok n (hp(a \<mapsto> b\<lparr>pNext := bs ! i\<rparr>)) (bs[i := Some a]) (insert a D)"
  unfolding slots_ok_def
proof (intro conjI allI impI)
  show "length (bs[i := Some a]) = n" using s by (simp add: slots_ok_def)
  fix j assume j: "j < n"
  with s obtain c where c: "cseg hp (bs ! j) c None" "distinct c"
    "set c = {x \<in> D. unat (hval (the (hp x))) mod n = j}" by (auto simp: slots_ok_def)
  let ?hp = "hp(a \<mapsto> b\<lparr>pNext := bs ! i\<rparr>)"
  have ac: "a \<notin> set c" using c(3) a(1) by blast
  have seteq: "{x \<in> insert a D. unat (hval (the (?hp x))) mod n = j} =
      {x \<in> D. unat (hval (the (hp x))) mod n = j} \<union> (if j = i then {a} else {})"
    using a i(1) by auto
  have len: "length bs = n" using s by (simp add: slots_ok_def)
  show "\<exists>c. cseg ?hp (bs[i := Some a] ! j) c None \<and> distinct c \<and>
      set c = {x \<in> insert a D. unat (hval (the (?hp x))) mod n = j}"
  proof (cases "j = i")
    case True
    then show ?thesis unfolding seteq using c ac j len by (intro exI [of _ "a # c"]) simp
  next
    case False
    then show ?thesis unfolding seteq using c ac by (intro exI [of _ c]) simp
  qed
qed

lemma rehash_loop_ok:
  "dseg hp p prev os None \<Longrightarrow> distinct os \<Longrightarrow> set os \<inter> D = {} \<Longrightarrow> slots_ok n hp bs D \<Longrightarrow> 0 < n \<Longrightarrow>
    \<exists>hp' bs'. rehash_loop n p hp bs = Some (hp', bs') \<and> same_but_next hp hp' \<and>
      slots_ok n hp' bs' (set os \<union> D)"
proof (induction os arbitrary: p prev D hp bs)
  case Nil
  then show ?case by (auto simp: rehash_loop.simps same_but_next_def)
next
  case (Cons a os)
  then obtain b where b: "p = Some a" "hp a = Some b" "dseg hp (pListNext b) (Some a) os None" by auto
  let ?i = "unat (hval b) mod n"
  let ?hp = "hp(a \<mapsto> b\<lparr>pNext := bs ! ?i\<rparr>)"
  have i: "?i < n" using Cons.prems by simp
  have s: "slots_ok n ?hp (bs[?i := Some a]) (insert a D)"
    using Cons.prems b i by (intro slots_ok_step) auto
  have d: "dseg ?hp (pListNext b) (Some a) os None" using b Cons.prems by simp
  have "set os \<inter> insert a D = {}" "distinct os" using Cons.prems by auto
  from Cons.IH [OF d this(2) this(1) s \<open>0 < n\<close>] obtain hp' bs' where
    r: "rehash_loop n (pListNext b) ?hp (bs[?i := Some a]) = Some (hp', bs')" "same_but_next ?hp hp'"
      "slots_ok n hp' bs' (set os \<union> insert a D)" by blast
  have "same_but_next hp ?hp" using b by (auto simp: same_but_next_def)
  with r(2) have "same_but_next hp hp'" by (simp add: same_but_next_def)
  moreover have "length bs = n" using Cons.prems by (simp add: slots_ok_def)
  then have "rehash_loop n p hp bs = Some (hp', bs')"
    using b i r(1) by (subst rehash_loop.simps) (simp add: Let_def)
  ultimately show ?case using r(3) by auto
qed

text \<open>Everything of the invariant but the chains, which rehashing builds anew.\<close>

definition pre_rehash :: "'d hashtable \<Rightarrow> addr list \<Rightarrow> bool" where
  "pre_rehash t os \<longleftrightarrow> nHashSizeIndex t < nNumPrimeNumbers \<and>
     nTableSize t = PrimeNumbers ! nHashSizeIndex t \<and> length (arBuckets t) = nTableSize t \<and>
     order_inv t os \<and> content_inv t os"

lemma rehash_ok:
  assumes "pre_rehash t os"
  obtains t' where "php3_hash_rehash t = Some t'" "ht_inv t' os" "ht_abs t' os = ht_abs t os"
    "same_params t t'" "nNextFreeElement t' = nNextFreeElement t" "mallocs t' = mallocs t"
    "destroyed t' = destroyed t" "nTableSize t' = nTableSize t" "nHashSizeIndex t' = nHashSizeIndex t"
    "nNumOfElements t' = nNumOfElements t" "pListHead t' = pListHead t"
    "pInternalPointer t' = pInternalPointer t"
proof -
  let ?n = "nTableSize t"
  have n: "?n = PrimeNumbers ! nHashSizeIndex t" "length (arBuckets t) = ?n" "0 < ?n"
    using assms prime_pos by (auto simp: pre_rehash_def)
  have oi: "order_inv t os" and ti: "content_inv t os" using assms by (auto simp: pre_rehash_def)
  have d: "dseg (heap t) (pListHead t) None os None" "distinct os" using oi by (auto simp: order_inv_def)
  have "slots_ok ?n (heap t) (replicate ?n None) {}" by (auto simp: slots_ok_def)
  from rehash_loop_ok [OF d _ this \<open>0 < ?n\<close>] obtain hp bs where
    r: "rehash_loop ?n (pListHead t) (heap t) (replicate ?n None) = Some (hp, bs)"
      "same_but_next (heap t) hp" "slots_ok ?n hp bs (set os)" by auto
  let ?t = "t\<lparr>heap := hp, arBuckets := bs\<rparr>"
  have eq: "php3_hash_rehash t = Some ?t"
    using r(1) n by (simp add: php3_hash_rehash_def Let_def)
  have heap: "\<exists>b b'. heap t a = Some b \<and> hp a = Some b' \<and> bkey b' = bkey b \<and> hval b' = hval b \<and>
      pData b' = pData b \<and> bucket_ok t b' = bucket_ok t b" if "a \<in> set os" for a
  proof -
    have "a \<in> dom (heap t)" using that oi by (simp add: order_inv_def)
    then obtain b where b: "heap t a = Some b" by blast
    from r(2) b obtain b' where "hp a = Some b'" "hval b' = hval b" "arKey b' = arKey b"
      "nKeyLength b' = nKeyLength b" "pData b' = pData b" by (rule same_but_nextE)
    with b bkey_cong [of b' b] bucket_ok_bucket_cong [of b' b t] show ?thesis by simp
  qed
  have "order_inv ?t os"
    using oi same_but_next_dseg [OF r(2)] same_but_next_None [OF r(2)]
    by (auto simp: order_inv_def dom_def)
  moreover have "content_inv ?t os"
  proof -
    have "bucket_ok ?t = bucket_ok t" by (rule bucket_ok_cong) simp
  moreover have keys: "map (\<lambda>a. bkey (bk ?t a)) os = map (\<lambda>a. bkey (bk t a)) os"
    using heap by (intro map_cong refl) force
  moreover have "bucket_ok t (bk ?t a)" if "a \<in> set os" for a
    using heap [OF that] ti that by (auto simp: content_inv_def)
  ultimately show ?thesis using ti unfolding content_inv_def keys by simp
  qed
  moreover have "chain_inv ?t os" "size_inv ?t"
    using r(3) assms n by (auto simp: chain_inv_def slot_ok_def slots_ok_def index_of_def size_inv_def pre_rehash_def)
  ultimately have "ht_inv ?t os" by (simp add: ht_inv_def)
  moreover have "ht_abs ?t os = ht_abs t os"
    unfolding ht_abs_def using heap by (intro map_cong refl) force
  ultimately show ?thesis using eq by (intro that [of ?t]) (auto simp: same_params_def)
qed

lemma resize_ok:
  assumes inv: "ht_inv t os"
  obtains t' where "if_full_do_resize t = Some t'" "ht_inv t' os" "ht_abs t' os = ht_abs t os"
    "same_params t t'" "nNextFreeElement t' = nNextFreeElement t" "destroyed t' = destroyed t"
    "mem_ok t \<longrightarrow> mem_ok t'"
proof (cases "nNumOfElements t > nTableSize t \<and> nHashSizeIndex t < nNumPrimeNumbers - 1")
  case False
  then show ?thesis using inv by (intro that [of t]) (auto simp: if_full_do_resize_def)
next
  case grow: True
  obtain ok ms where pm: "pemalloc t = (ok, t\<lparr>mallocs := ms\<rparr>)" by (rule pemalloc_cases)
  have ms: "mem_ok t \<Longrightarrow> ok \<and> ms = mallocs t"
  proof -
    assume "mem_ok t"
    then have "(ok, t\<lparr>mallocs := ms\<rparr>) = (True, t)" using pm pemalloc_mem_ok [of t] by simp
    then have "ok" "mallocs (t\<lparr>mallocs := ms\<rparr>) = mallocs t" by (blast, metis prod.inject)
    then show "ok \<and> ms = mallocs t" by simp
  qed
  show ?thesis
  proof (cases ok)
    case False
    then show ?thesis using inv grow pm ms
      by (intro that [of "t\<lparr>mallocs := ms\<rparr>"])
        (auto simp: if_full_do_resize_def same_params_def mem_ok_def Let_def)
  next
    case True
    let ?size = "PrimeNumbers ! (nHashSizeIndex t + 1)"
    let ?t = "t\<lparr>mallocs := ms, arBuckets := take ?size (arBuckets t @ replicate ?size None),
        nTableSize := ?size, nHashSizeIndex := nHashSizeIndex t + 1\<rparr>"
    have "bucket_ok ?t = bucket_ok t" by (rule bucket_ok_cong) simp
    then have "pre_rehash ?t os"
      using inv grow by (auto simp: pre_rehash_def ht_inv_def order_inv_def content_inv_def)
    then obtain t' where t': "php3_hash_rehash ?t = Some t'" "ht_inv t' os"
      "ht_abs t' os = ht_abs ?t os" "same_params ?t t'"
      "nNextFreeElement t' = nNextFreeElement ?t" "mallocs t' = mallocs ?t"
      "destroyed t' = destroyed ?t" by (rule rehash_ok)
    have "if_full_do_resize t = Some t'"
      using grow pm True t'(1) by (simp add: if_full_do_resize_def Let_def)
    moreover have "ht_abs ?t os = ht_abs t os" by (simp add: ht_abs_def)
    ultimately show ?thesis using t' ms
      by (intro that [of t']) (auto simp: same_params_def mem_ok_def)
  qed
qed

text \<open>The same for a table that does grow, with the new size.\<close>

lemma resize_grow:
  assumes inv: "ht_inv t os" and mem: "mem_ok t"
    and full: "nNumOfElements t > nTableSize t" "nHashSizeIndex t < nNumPrimeNumbers - 1"
  shows "\<exists>t'. if_full_do_resize t = Some t' \<and> ht_inv t' os \<and> ht_abs t' os = ht_abs t os \<and>
    nHashSizeIndex t' = nHashSizeIndex t + 1 \<and> nNumOfElements t' = nNumOfElements t \<and>
    nTableSize t' = PrimeNumbers ! (nHashSizeIndex t + 1)"
proof -
  let ?size = "PrimeNumbers ! (nHashSizeIndex t + 1)"
  let ?t = "t\<lparr>arBuckets := take ?size (arBuckets t @ replicate ?size None),
      nTableSize := ?size, nHashSizeIndex := nHashSizeIndex t + 1\<rparr>"
  have "bucket_ok ?t = bucket_ok t" by (rule bucket_ok_cong) simp
  then have "pre_rehash ?t os"
    using inv full by (auto simp: pre_rehash_def ht_inv_def order_inv_def content_inv_def)
  then obtain t' where t': "php3_hash_rehash ?t = Some t'" "ht_inv t' os" "ht_abs t' os = ht_abs ?t os"
    "nTableSize t' = nTableSize ?t" "nHashSizeIndex t' = nHashSizeIndex ?t" "nNumOfElements t' = nNumOfElements ?t"
    by (rule rehash_ok)
  have "if_full_do_resize t = Some t'"
    using full mem t'(1) by (simp add: if_full_do_resize_def pemalloc_mem_ok Let_def)
  moreover have "ht_abs ?t os = ht_abs t os" by (simp add: ht_abs_def)
  ultimately show ?thesis using t' by simp
qed

lemma primes_grow:
  assumes "i < nNumPrimeNumbers - 1"
  shows "PrimeNumbers ! i < PrimeNumbers ! (i + 1)"
proof -
  have "\<forall>i \<in> set [0..<13]. PrimeNumbers ! i < PrimeNumbers ! (i + 1)" by (simp add: PrimeNumbers_def upt_rec)
  with assms show ?thesis by (simp add: nNumPrimeNumbers_14)
qed

subsection \<open>The insertion functions\<close>

text \<open>
  Linking a new bucket, counting it and growing the table, as every insertion of a new key does;
  \<open>nf\<close> is the value the insertion leaves in \<open>nNextFreeElement\<close>.
\<close>

lemma insert_new_ok:
  assumes inv: "ht_inv t os" and ok: "bucket_ok t p" and new: "bkey p \<notin> fst ` set (ht_abs t os)"
    and ni: "nIndex = index_of t (hval p)"
  obtains t1 t' where "link_bucket t nIndex p = Some (brk t, t1)"
    "nNextFreeElement t1 = nNextFreeElement t"
    "if_full_do_resize (t1\<lparr>nNextFreeElement := nf, nNumOfElements := Suc (nNumOfElements t1)\<rparr>) = Some t'"
    "ht_inv t' (os @ [brk t])" "ht_abs t' (os @ [brk t]) = AList.update (bkey p) (pData p) (ht_abs t os)"
    "same_params t t'" "nNextFreeElement t' = nf" "mem_ok t \<longrightarrow> mem_ok t'" "destroyed t' = destroyed t"
proof -
  obtain t1 where t1: "link_bucket t nIndex p = Some (brk t, t1)"
    "ht_inv (t1\<lparr>nNumOfElements := Suc (nNumOfElements t1)\<rparr>) (os @ [brk t])"
    "ht_abs t1 (os @ [brk t]) = ht_abs t os @ [(bkey p, pData p)]" "same_params t t1"
    "nNextFreeElement t1 = nNextFreeElement t" "mallocs t1 = mallocs t" "destroyed t1 = destroyed t"
    by (rule link_bucket_ok [OF inv ok new ni])
  let ?t2 = "t1\<lparr>nNextFreeElement := nf, nNumOfElements := Suc (nNumOfElements t1)\<rparr>"
  have "?t2 = t1\<lparr>nNumOfElements := Suc (nNumOfElements t1)\<rparr>\<lparr>nNextFreeElement := nf\<rparr>" by simp
  then have inv2: "ht_inv ?t2 (os @ [brk t])"
    using t1(2) by (metis inv_frame(3))
  obtain t' where t': "if_full_do_resize ?t2 = Some t'" "ht_inv t' (os @ [brk t])"
    "ht_abs t' (os @ [brk t]) = ht_abs ?t2 (os @ [brk t])" "same_params ?t2 t'"
    "nNextFreeElement t' = nNextFreeElement ?t2" "destroyed t' = destroyed ?t2" "mem_ok ?t2 \<longrightarrow> mem_ok t'"
    by (rule resize_ok [OF inv2])
  have "AList.update (bkey p) (pData p) (ht_abs t os) = ht_abs t os @ [(bkey p, pData p)]"
    using new unfolding ht_abs_def by (intro update_map_new) (simp add: image_image)
  moreover have "ht_abs ?t2 (os @ [brk t]) = ht_abs t1 (os @ [brk t])" by (simp add: ht_abs_def)
  moreover have "mem_ok t \<Longrightarrow> mem_ok ?t2" using t1(4,6) by (simp add: mem_ok_def same_params_def)
  ultimately show ?thesis
    using t1 t' by (intro that [of t1 t']) (auto simp: same_params_def)
qed

definition next_free_after :: "ulong \<Rightarrow> 'd hashtable \<Rightarrow> ulong" where
  "next_free_after hv t = (if hv \<ge> nNextFreeElement t then hv + 1 else nNextFreeElement t)"

lemma bump_next_free_alt: "bump_next_free hv t = t\<lparr>nNextFreeElement := next_free_after hv t\<rparr>"
  by (simp add: bump_next_free_def next_free_after_def)

text \<open>The index an insertion by number works on.\<close>

definition target_index :: "'d hashtable \<Rightarrow> ulong \<Rightarrow> hash_flag \<Rightarrow> ulong" where
  "target_index t h0 flag = (if flag = HASH_NEXT_INSERT then nNextFreeElement t else h0)"

lemma index_insert_ok:
  assumes inv: "ht_inv t os" and mem: "mem_ok t" and hv: "hv = target_index t h0 flag"
    and free: "flag = HASH_UPDATE \<or> Idx hv \<notin> fst ` set (ht_abs t os)"
  obtains q t' os' where
    "php3_hash_index_update_or_next_insert t h0 d flag = Some (SUCCESS, Some q, t')"
    "ht_inv t' os'" "ht_abs t' os' = AList.update (Idx hv) d (ht_abs t os)"
    "same_params t t'" "mem_ok t'" "nNextFreeElement t' = next_free_after hv t"
    "q \<in> set os'" "bkey (bk t' q) = Idx hv"
proof (cases "locate t os (Idx hv)")
  case (Some a)
  then have a: "a \<in> set os" "bkey (bk t a) = Idx hv" by (auto dest: locate_Some)
  then have "Idx hv \<in> fst ` set (ht_abs t os)" using Some locate_None [of t os "Idx hv"] by auto
  with free have flag: "flag = HASH_UPDATE" by blast
  obtain t1 where t1: "overwrite_data t a d = Some t1" "ht_inv t1 os"
    "ht_abs t1 os = AList.update (bkey (bk t a)) d (ht_abs t os)" "same_params t t1"
    "nNextFreeElement t1 = nNextFreeElement t" "mallocs t1 = mallocs t"
    "bkey (bk t1 a) = bkey (bk t a)"
    using inv a(1) by (rule overwrite_data_ok)
  have "bkey (bk t1 a) = Idx hv" using a t1(7) by simp
  moreover have "php3_hash_index_update_or_next_insert t h0 d flag = Some (SUCCESS, Some a, bump_next_free hv t1)"
    using Some flag t1(1) hv inv
    by (simp add: php3_hash_index_update_or_next_insert_def search_idx target_index_def)
  ultimately show ?thesis using a t1 mem
    by (intro that [of a "bump_next_free hv t1" os])
      (auto simp: bump_next_free_alt next_free_after_def same_params_def mem_ok_def)
next
  case None
  then have new: "Idx hv \<notin> fst ` set (ht_abs t os)" by (simp add: locate_None)
  let ?p = "\<lparr>hval = hv, arKey = None, nKeyLength = 0, pData = d, bIsPointer = False,
      pListNext = None, pListLast = None, pNext = None\<rparr>"
  have p: "bkey ?p = Idx hv" "bucket_ok t ?p" by (auto simp: bkey_def bucket_ok_def)
  have new': "bkey ?p \<notin> fst ` set (ht_abs t os)" using new p(1) by simp
  have idx: "index_of t hv = index_of t (hval ?p)" by simp
  obtain t1 t' where t': "link_bucket t (index_of t hv) ?p = Some (brk t, t1)"
    "nNextFreeElement t1 = nNextFreeElement t"
    "if_full_do_resize (t1\<lparr>nNextFreeElement := next_free_after hv t, nNumOfElements := Suc (nNumOfElements t1)\<rparr>) = Some t'"
    "ht_inv t' (os @ [brk t])" "ht_abs t' (os @ [brk t]) = AList.update (Idx hv) d (ht_abs t os)"
    "same_params t t'" "nNextFreeElement t' = next_free_after hv t" "mem_ok t \<longrightarrow> mem_ok t'"
    using insert_new_ok [OF inv p(2) new' idx, of "next_free_after hv t"] unfolding p(1) bucket.simps
    by metis
  have "php3_hash_index_update_or_next_insert t h0 d flag = Some (SUCCESS, Some (brk t), t')"
    unfolding php3_hash_index_update_or_next_insert_def target_index_def [symmetric] hv [symmetric] Let_def
    using None inv mem t'(1,3)
    by (cases "nNextFreeElement t \<le> hv")
      (simp_all add: search_idx pemalloc_mem_ok bump_next_free_alt t'(2) next_free_after_def)
  moreover have "bkey (bk t' (brk t)) = Idx hv"
  proof -
    have "fst (last (ht_abs t' (os @ [brk t]))) = bkey (bk t' (brk t))" by (simp add: ht_abs_def)
    moreover have "last (AList.update (Idx hv) d (ht_abs t os)) = (Idx hv, d)"
      using new by (induction "ht_abs t os" arbitrary: os) (auto simp: ht_abs_def image_image update_map_new)
    ultimately show ?thesis using t'(5) by simp
  qed
  ultimately show ?thesis using t' mem by (intro that [of "brk t" t' "os @ [brk t]"]) auto
qed

lemma index_insert_present:
  assumes "ht_inv t os" "hv = target_index t h0 flag" "flag \<noteq> HASH_UPDATE"
    "Idx hv \<in> fst ` set (ht_abs t os)"
  shows "php3_hash_index_update_or_next_insert t h0 d flag = Some (FAILURE, None, t)"
proof -
  have "locate t os (Idx hv) \<noteq> None" using assms(4) by (simp add: locate_None)
  then obtain a where "locate t os (Idx hv) = Some a" by blast
  moreover have "flag = HASH_NEXT_INSERT \<or> flag = HASH_ADD" using assms(3) by (cases flag) auto
  ultimately show ?thesis using assms(1,2)
    by (auto simp: php3_hash_index_update_or_next_insert_def search_idx target_index_def)
qed

lemma add_or_update_ok:
  assumes inv: "ht_inv t os" and mem: "mem_ok t" and key: "key \<noteq> []" and fl: "flag \<noteq> HASH_NEXT_INSERT"
    and free: "flag = HASH_UPDATE \<or> norm_key key \<notin> fst ` set (ht_abs t os)"
  obtains q t' os' where
    "php3_hash_add_or_update t key d flag = Some (SUCCESS, Some q, t')"
    "ht_inv t' os'" "ht_abs t' os' = AList.update (norm_key key) d (ht_abs t os)"
    "same_params t t'" "mem_ok t'" "q \<in> set os'" "bkey (bk t' q) = norm_key key"
proof (cases "handle_numeric key")
  case (Some idx)
  then have nk: "norm_key key = Idx idx" by (simp add: norm_key_def)
  have tgt: "idx = target_index t idx flag" using fl by (simp add: target_index_def)
  have free': "flag = HASH_UPDATE \<or> Idx idx \<notin> fst ` set (ht_abs t os)" using free nk by simp
  obtain q t' os' where r: "php3_hash_index_update_or_next_insert t idx d flag = Some (SUCCESS, Some q, t')"
    "ht_inv t' os'" "ht_abs t' os' = AList.update (Idx idx) d (ht_abs t os)"
    "same_params t t'" "mem_ok t'" "q \<in> set os'" "bkey (bk t' q) = Idx idx"
    by (rule index_insert_ok [OF inv mem tgt free'])
  then show ?thesis using Some nk key by (intro that [of q t' os']) (auto simp: php3_hash_add_or_update_def)
next
  case num: None
  then have nk: "norm_key key = Str key" by (simp add: norm_key_def)
  show ?thesis
  proof (cases "locate t os (Str key)")
    case (Some a)
    then have a: "a \<in> set os" "bkey (bk t a) = Str key" by (auto dest: locate_Some)
    then have "Str key \<in> fst ` set (ht_abs t os)" using Some locate_None [of t os "Str key"] by auto
    with free nk have flag: "flag = HASH_UPDATE" by simp
    obtain t1 where t1: "overwrite_data t a d = Some t1" "ht_inv t1 os"
      "ht_abs t1 os = AList.update (bkey (bk t a)) d (ht_abs t os)" "same_params t t1" "mallocs t1 = mallocs t"
      "bkey (bk t1 a) = bkey (bk t a)"
      using inv a(1) by (rule overwrite_data_ok)
    have "bkey (bk t1 a) = Str key" using a t1(6) by simp
    moreover have "php3_hash_add_or_update t key d flag = Some (SUCCESS, Some a, t1)"
      using Some num flag t1(1) key inv by (simp add: php3_hash_add_or_update_def search_str Let_def)
    ultimately show ?thesis using a t1 mem nk
      by (intro that [of a t1 os]) (auto simp: same_params_def mem_ok_def)
  next
    case None
    then have new: "Str key \<notin> fst ` set (ht_abs t os)" by (simp add: locate_None)
    let ?hv = "pHashFunction t key"
    let ?p = "\<lparr>hval = ?hv, arKey = Some key, nKeyLength = length key, pData = d, bIsPointer = False,
        pListNext = None, pListLast = None, pNext = None\<rparr>"
    have p: "bkey ?p = Str key" "bucket_ok t ?p" using num key by (auto simp: bkey_def bucket_ok_def)
    have new': "bkey ?p \<notin> fst ` set (ht_abs t os)" using new p(1) by simp
    have idx: "index_of t ?hv = index_of t (hval ?p)" by simp
    obtain t1 t' where t': "link_bucket t (index_of t ?hv) ?p = Some (brk t, t1)"
      "nNextFreeElement t1 = nNextFreeElement t"
      "if_full_do_resize (t1\<lparr>nNextFreeElement := nNextFreeElement t, nNumOfElements := Suc (nNumOfElements t1)\<rparr>) = Some t'"
      "ht_inv t' (os @ [brk t])" "ht_abs t' (os @ [brk t]) = AList.update (Str key) d (ht_abs t os)"
      "same_params t t'" "mem_ok t \<longrightarrow> mem_ok t'"
      using insert_new_ok [OF inv p(2) new' idx, of "nNextFreeElement t"] unfolding p(1) bucket.simps
      by metis
    have same: "t1\<lparr>nNextFreeElement := nNextFreeElement t, nNumOfElements := Suc (nNumOfElements t1)\<rparr> =
        t1\<lparr>nNumOfElements := Suc (nNumOfElements t1)\<rparr>" using t'(2) by simp
    have "php3_hash_add_or_update t key d flag = Some (SUCCESS, Some (brk t), t')"
      using None num key inv mem t'(1) t'(3) [unfolded same]
      by (simp add: php3_hash_add_or_update_def search_str pemalloc_mem_ok Let_def)
    moreover have "bkey (bk t' (brk t)) = Str key"
    proof -
      have "fst (last (ht_abs t' (os @ [brk t]))) = bkey (bk t' (brk t))" by (simp add: ht_abs_def)
      moreover have "last (AList.update (Str key) d (ht_abs t os)) = (Str key, d)"
        using new by (simp add: ht_abs_def image_image update_map_new)
      ultimately show ?thesis using t'(5) by simp
    qed
    ultimately show ?thesis using t' mem nk by (intro that [of "brk t" t' "os @ [brk t]"]) auto
  qed
qed

lemma add_present:
  assumes "ht_inv t os" "key \<noteq> []" "norm_key key \<in> fst ` set (ht_abs t os)"
  shows "php3_hash_add_or_update t key d HASH_ADD = Some (FAILURE, None, t)"
proof (cases "handle_numeric key")
  case (Some idx)
  with assms index_insert_present [OF assms(1), of idx idx HASH_ADD d] show ?thesis
    by (simp add: php3_hash_add_or_update_def norm_key_def target_index_def)
next
  case None
  with assms(3) have "locate t os (Str key) \<noteq> None" by (simp add: locate_None norm_key_def)
  then obtain a where "locate t os (Str key) = Some a" by blast
  with None assms show ?thesis
    by (simp add: php3_hash_add_or_update_def search_str Let_def)
qed

end
