(* ===== verification/Hash_Delete.thy ===== *)
theory Hash_Delete
  imports Hash_Proofs
begin

text \<open>
  Deletion: the bucket found is taken off its chain and off the order list and is released; the
  other buckets keep key, data and place. \<open>del_at_ok\<close> is the lemma on the loop body; the functions
  that delete by index and by key follow from it.
\<close>

subsection \<open>Heaps that agree on some fields\<close>

definition same_on :: "('d bucket \<Rightarrow> 'x) \<Rightarrow> 'd bheap \<Rightarrow> 'd bheap \<Rightarrow> bool" where
  "same_on f hp hp' \<longleftrightarrow> (\<forall>a. map_option f (hp' a) = map_option f (hp a))"

abbreviation core :: "'d bucket \<Rightarrow> ulong \<times> char list option \<times> nat \<times> 'd \<times> bool" where
  "core b \<equiv> (hval b, arKey b, nKeyLength b, pData b, bIsPointer b)"

abbreviation links :: "'d bucket \<Rightarrow> ptr \<times> ptr" where
  "links b \<equiv> (pListNext b, pListLast b)"

lemma same_on_refl [simp]: "same_on f hp hp"
  by (simp add: same_on_def)

lemma same_on_trans: "same_on f h1 h2 \<Longrightarrow> same_on f h2 h3 \<Longrightarrow> same_on f h1 h3"
  by (simp add: same_on_def)

lemma same_on_upd: "hp a = Some b \<Longrightarrow> f b' = f b \<Longrightarrow> same_on f hp (hp(a \<mapsto> b'))"
  by (simp add: same_on_def)

lemma same_onE:
  assumes "same_on f hp hp'" "hp a = Some b"
  obtains b' where "hp' a = Some b'" "f b' = f b"
proof -
  from assms have "map_option f (hp' a) = Some (f b)" by (simp add: same_on_def)
  then show ?thesis using that by auto
qed

lemma same_on_dom: "same_on f hp hp' \<Longrightarrow> dom hp' = dom hp"
  unfolding same_on_def dom_def by (metis None_eq_map_option_iff)

lemma same_on_cseg: "same_on pNext hp hp' \<Longrightarrow> cseg hp' p as e = cseg hp p as e"
  by (rule cseg_cong) (simp add: same_on_def)

lemma same_on_dseg: "same_on links hp hp' \<Longrightarrow> dseg hp' p prev as e = dseg hp p prev as e"
  by (rule dseg_cong) (simp add: same_on_def)

lemma dseg_set_next:
  assumes "dseg hp p prev (zs @ [l]) q" "distinct (zs @ [l])" "hp l = Some c"
  shows "dseg (hp(l \<mapsto> c\<lparr>pListNext := q'\<rparr>)) p prev (zs @ [l]) q'"
  using assms by (auto simp: dseg_append)

lemma dseg_set_last:
  assumes "dseg hp p prev (n # ws) e" "n \<notin> set ws" "hp n = Some c"
  shows "dseg (hp(n \<mapsto> c\<lparr>pListLast := prev'\<rparr>)) p prev' (n # ws) e"
  using assms by auto

subsection \<open>Taking a bucket off its chain\<close>

lemma unlink_chain_ok:
  assumes seg: "cseg (heap t) (arBuckets t ! i) (xs @ a # ys) None" and dist: "distinct (xs @ a # ys)"
    and i: "i < length (arBuckets t)"
  obtains hp' bs' where
    "unlink_chain t i (last_ptr None xs) a = Some (t\<lparr>heap := hp', arBuckets := bs'\<rparr>)"
    "cseg hp' (bs' ! i) (xs @ ys) None" "same_on core (heap t) hp'" "same_on links (heap t) hp'"
    "length bs' = length (arBuckets t)" "\<forall>j. j \<noteq> i \<longrightarrow> bs' ! j = arBuckets t ! j"
    "\<forall>x. x \<notin> set xs \<longrightarrow> hp' x = heap t x"
proof -
  from seg obtain q b where q: "cseg (heap t) (arBuckets t ! i) xs q" "q = Some a" "heap t a = Some b"
    "cseg (heap t) (pNext b) ys None" by (auto simp: cseg_append)
  show ?thesis
  proof (cases xs rule: rev_cases)
    case Nil
    with q i show ?thesis
      by (intro that [where hp' = "heap t" and bs' = "(arBuckets t)[i := pNext b]"]) (auto simp: unlink_chain_def slot_def)
  next
    case (snoc zs l)
    with seg have head: "arBuckets t ! i \<noteq> Some a"
      using dist by (cases zs) auto
    from q(1) snoc obtain r c where c: "cseg (heap t) (arBuckets t ! i) zs r" "r = Some l"
      "heap t l = Some c" by (auto simp: cseg_append)
    let ?hp = "(heap t)(l \<mapsto> c\<lparr>pNext := pNext b\<rparr>)"
    have "cseg ?hp (arBuckets t ! i) (zs @ [l]) (pNext b)"
      using c dist snoc by (auto simp: cseg_append)
    moreover have "cseg ?hp (pNext b) ys None" using q(4) dist snoc by auto
    ultimately have "cseg ?hp (arBuckets t ! i) (xs @ ys) None" using snoc by (simp only: cseg_append) blast
    moreover have "unlink_chain t i (last_ptr None xs) a = Some (t\<lparr>heap := ?hp, arBuckets := arBuckets t\<rparr>)"
      using snoc head q c i by (simp add: unlink_chain_def slot_def set_field_def)
    ultimately show ?thesis
      using snoc c by (intro that [where hp' = ?hp and bs' = "arBuckets t"]) (auto intro: same_on_upd)
  qed
qed

subsection \<open>Taking a bucket off the order list\<close>

lemma unlink_order_ok:
  assumes seg: "dseg (heap t) (pListHead t) None (us @ a # vs) None" and dist: "distinct (us @ a # vs)"
    and tail: "pListTail t = last_ptr None (us @ a # vs)"
  obtains hp' h' tl' where
    "unlink_order t a = Some (t\<lparr>heap := hp', pListHead := h', pListTail := tl'\<rparr>)"
    "dseg hp' h' None (us @ vs) None" "tl' = last_ptr None (us @ vs)"
    "same_on core (heap t) hp'" "same_on pNext (heap t) hp'" "hp' a = heap t a"
proof -
  let ?hp = "heap t"
  from seg obtain q b where q: "dseg ?hp (pListHead t) None us q" "q = Some a" "?hp a = Some b"
    "pListLast b = last_ptr None us" "dseg ?hp (pListNext b) (Some a) vs None"
    by (auto simp: dseg_append)
  define h1 where "h1 = (if us = [] then pListNext b else pListHead t)"
  obtain hp1 where hp1: "(case pListLast b of
        Some l \<Rightarrow> do { hp \<leftarrow> set_field ?hp l (\<lambda>c. c\<lparr>pListNext := pListNext b\<rparr>); Some (t\<lparr>heap := hp\<rparr>) }
      | None \<Rightarrow> Some (t\<lparr>pListHead := pListNext b\<rparr>)) = Some (t\<lparr>heap := hp1, pListHead := h1\<rparr>)"
    and d1: "dseg hp1 h1 None us (pListNext b)" "same_on core ?hp hp1" "same_on pNext ?hp hp1"
    and eq1: "\<forall>x. x \<notin> set us \<longrightarrow> hp1 x = ?hp x"
  proof (cases us rule: rev_cases)
    case Nil
    then show ?thesis using q by (intro that [of ?hp]) (simp_all add: h1_def)
  next
    case (snoc zs l)
    then obtain c where c: "?hp l = Some c" using q(1) by (auto simp: dseg_append)
    let ?hp' = "?hp(l \<mapsto> c\<lparr>pListNext := pListNext b\<rparr>)"
    have "dseg ?hp' (pListHead t) None (zs @ [l]) (pListNext b)"
      using q(1) snoc dist c by (intro dseg_set_next) auto
    then show ?thesis using snoc c q
      by (intro that [of ?hp']) (auto simp: h1_def set_field_def intro: same_on_upd)
  qed
  have hp1a: "hp1 a = Some b" using eq1 dist q by simp
  have vs1: "dseg hp1 (pListNext b) (Some a) vs None"
    using q(5) eq1 dist by (subst dseg_cong [of vs hp1 ?hp]) auto
  let ?t1 = "t\<lparr>heap := hp1, pListHead := h1\<rparr>"
  define tl' where "tl' = last_ptr None (us @ vs)"
  obtain hp2 where hp2: "(case pListNext b of
        Some n \<Rightarrow> do { hp \<leftarrow> set_field (heap ?t1) n (\<lambda>c. c\<lparr>pListLast := pListLast b\<rparr>); Some (?t1\<lparr>heap := hp\<rparr>) }
      | None \<Rightarrow> Some (?t1\<lparr>pListTail := pListLast b\<rparr>)) =
        Some (t\<lparr>heap := hp2, pListHead := h1, pListTail := tl'\<rparr>)"
    and d2: "dseg hp2 (pListNext b) (last_ptr None us) vs None" "same_on core hp1 hp2" "same_on pNext hp1 hp2"
    and eq2: "\<forall>x. x \<notin> set vs \<longrightarrow> hp2 x = hp1 x"
  proof (cases vs)
    case Nil
    then show ?thesis using q by (intro that [of hp1]) (simp_all add: tl'_def)
  next
    case (Cons n ws)
    then obtain c where c: "hp1 n = Some c" "pListNext b = Some n" using vs1 by auto
    let ?hp' = "hp1(n \<mapsto> c\<lparr>pListLast := pListLast b\<rparr>)"
    have "dseg ?hp' (pListNext b) (pListLast b) (n # ws) None"
      using vs1 Cons dist c by (intro dseg_set_last) auto
    moreover have "t\<lparr>pListTail := tl'\<rparr> = t" using tail Cons by (simp add: tl'_def last_ptr_append)
    then have "?t1\<lparr>heap := ?hp'\<rparr> = t\<lparr>heap := ?hp', pListHead := h1, pListTail := tl'\<rparr>"
      using tail Cons by (simp add: tl'_def last_ptr_append)
    ultimately show ?thesis using Cons c q
      by (intro that [of ?hp']) (auto simp: set_field_def intro: same_on_upd)
  qed
  have "dseg hp2 h1 None us (pListNext b)"
    using d1(1) eq2 dist by (subst dseg_cong [of us hp2 hp1]) auto
  then have "dseg hp2 h1 None (us @ vs) None" using d2(1) by (auto simp: dseg_append)
  moreover have "unlink_order t a = Some (t\<lparr>heap := hp2, pListHead := h1, pListTail := tl'\<rparr>)"
    unfolding unlink_order_def using q(3) hp1 hp2 hp1a by simp
  moreover have "hp2 a = ?hp a" using eq1 eq2 dist by simp
  ultimately show ?thesis
    using same_on_trans [OF d1(2) d2(2)] same_on_trans [OF d1(3) d2(3)]
    by (intro that [where hp' = hp2 and h' = h1 and tl' = tl']) (simp_all add: tl'_def)
qed

subsection \<open>Releasing the bucket\<close>

lemma release_bucket_ok:
  assumes "heap t a = Some b" "\<not> (flag = HASH_DEL_KEY \<and> arKey b = None \<and> \<not> persistent t)"
  shows "release_bucket t a flag = Some (t\<lparr>destroyed := destroyed t @ (if pDestructor t \<and> \<not> bIsPointer b then [pData b] else []),
      pInternalPointer := (if pInternalPointer t = Some a then pListNext b else pInternalPointer t),
      heap := (heap t)(a := None), nNumOfElements := nNumOfElements t - 1\<rparr>)"
  using assms by (simp add: release_bucket_def run_destructor_def Let_def)

lemma release_bucket_fault:
  assumes "heap t a = Some b" "arKey b = None" "\<not> persistent t"
  shows "release_bucket t a HASH_DEL_KEY = None"
  using assms by (simp add: release_bucket_def)

lemma core_cong:
  assumes "core b' = core b"
  shows "bkey b' = bkey b" "bucket_ok t b' = bucket_ok t b" "pData b' = pData b" "hval b' = hval b"
    "arKey b' = arKey b" "bIsPointer b' = bIsPointer b"
  using assms bkey_cong [of b' b] bucket_ok_bucket_cong [of b' b t] by auto

subsection \<open>The loop body of the deletion\<close>

text \<open>What is left of the invariant after both unlinkings: everything but the place of \<open>a\<close>.\<close>

lemma unlink_ok:
  assumes inv: "ht_inv t os" and a: "os = us @ a # vs" and ni: "nIndex = index_of t (hval (bk t a))"
    and hit: "\<And>x. x \<in> set os \<Longrightarrow> P (bk t x) \<longleftrightarrow> x = a"
  obtains prev u hp' bs' h' tl' where
    "find_with_prev (heap t) P None (arBuckets t ! nIndex) = Some (prev, Some a)"
    "unlink_chain t nIndex prev a = Some u"
    "unlink_order u a = Some (t\<lparr>heap := hp', arBuckets := bs', pListHead := h', pListTail := tl'\<rparr>)"
    "dseg hp' h' None (us @ vs) None" "tl' = last_ptr None (us @ vs)" "same_on core (heap t) hp'"
    "length bs' = length (arBuckets t)"
    "\<forall>i < nTableSize t. \<exists>c. cseg hp' (bs' ! i) c None \<and> distinct c \<and>
       set c = {x \<in> set (us @ vs). index_of t (hval (bk t x)) = i}"
    "hp' a = heap t a"
proof -
  have si: "size_inv t" and oi: "order_inv t os" and ci: "chain_inv t os"
    using inv by (auto dest: invD)
  have dist: "distinct (us @ a # vs)" using oi a by (auto simp: order_inv_def)
  have ni_less: "nIndex < nTableSize t" using ni si by (simp add: index_of_less)
  then obtain c where c: "slot_ok t os nIndex c" using ci by (auto simp: chain_inv_def)
  have "a \<in> set c" using c a ni by (auto simp: slot_ok_def)
  then obtain xs ys where xy: "c = xs @ a # ys" by (auto simp: in_set_conv_decomp)
  have seg: "cseg (heap t) (arBuckets t ! nIndex) (xs @ a # ys) None" and dc: "distinct (xs @ a # ys)"
    and sub: "set (xs @ a # ys) \<subseteq> set os" using c xy by (auto simp: slot_ok_def)
  have "x \<noteq> a" if "x \<in> set xs" for x using that dc by auto
  then have fw: "find_with_prev (heap t) P None (arBuckets t ! nIndex) = Some (last_ptr None xs, Some a)"
    using seg sub hit a by (intro find_with_prev_hit [where ys = ys]) auto
  have i: "nIndex < length (arBuckets t)" using ni_less si by (simp add: size_inv_def)
  obtain hp1 bs' where u1: "unlink_chain t nIndex (last_ptr None xs) a = Some (t\<lparr>heap := hp1, arBuckets := bs'\<rparr>)"
    "cseg hp1 (bs' ! nIndex) (xs @ ys) None" "same_on core (heap t) hp1" "same_on links (heap t) hp1"
    "length bs' = length (arBuckets t)" "\<forall>j. j \<noteq> nIndex \<longrightarrow> bs' ! j = arBuckets t ! j"
    "\<forall>x. x \<notin> set xs \<longrightarrow> hp1 x = heap t x"
    by (rule unlink_chain_ok [OF seg dc i])
  let ?t1 = "t\<lparr>heap := hp1, arBuckets := bs'\<rparr>"
  have "dseg (heap ?t1) (pListHead ?t1) None (us @ a # vs) None"
    using oi a same_on_dseg [OF u1(4)] by (simp add: order_inv_def)
  moreover have "pListTail ?t1 = last_ptr None (us @ a # vs)" using oi a by (simp add: order_inv_def)
  ultimately obtain hp' h' tl' where
    u2: "unlink_order ?t1 a = Some (?t1\<lparr>heap := hp', pListHead := h', pListTail := tl'\<rparr>)"
      "dseg hp' h' None (us @ vs) None" "tl' = last_ptr None (us @ vs)"
      "same_on core (heap ?t1) hp'" "same_on pNext (heap ?t1) hp'" "hp' a = heap ?t1 a"
    using dist by (elim unlink_order_ok) blast
  have "\<exists>c. cseg hp' (bs' ! j) c None \<and> distinct c \<and>
       set c = {x \<in> set (us @ vs). index_of t (hval (bk t x)) = j}" if j: "j < nTableSize t" for j
  proof -
    from j ci obtain d where d: "slot_ok t os j d" by (auto simp: chain_inv_def)
    have cs: "cseg hp' p e None = cseg hp1 p e None" for p e using same_on_cseg [OF u2(5)] by simp
    show ?thesis
    proof (cases "j = nIndex")
      case True
      moreover have "set (xs @ ys) = {x \<in> set (us @ vs). index_of t (hval (bk t x)) = nIndex}"
      proof -
        have "set (xs @ ys) = set c - {a}" using xy dc by auto
        also have "\<dots> = {x \<in> set os. index_of t (hval (bk t x)) = nIndex} - {a}" using c by (simp add: slot_ok_def)
        also have "\<dots> = {x \<in> set (us @ vs). index_of t (hval (bk t x)) = nIndex}" using a dist by auto
        finally show ?thesis .
      qed
      ultimately show ?thesis using cs u1(2) dc by (intro exI [of _ "xs @ ys"]) auto
    next
      case False
      have ad: "a \<notin> set d" using d False ni by (auto simp: slot_ok_def)
      have "set d \<inter> set xs = {}" using d c xy False by (auto simp: slot_ok_def)
      then have "cseg hp1 (arBuckets t ! j) d None = cseg (heap t) (arBuckets t ! j) d None"
        using u1(7) by (intro cseg_cong) auto
      moreover have "set d = {x \<in> set (us @ vs). index_of t (hval (bk t x)) = j}"
        using d ad a by (auto simp: slot_ok_def)
      ultimately show ?thesis using d cs u1(6) False by (intro exI [of _ d]) (auto simp: slot_ok_def)
    qed
  qed
  moreover have "hp1 a = heap t a" using u1(7) dc by simp
  ultimately show ?thesis
    using fw u1 u2 same_on_trans [OF u1(3), of hp']
    by (intro that [where prev = "last_ptr None xs" and u = ?t1 and hp' = hp' and bs' = bs' and h' = h' and tl' = tl'])
      simp_all
qed

lemma del_at_ok:
  assumes inv: "ht_inv t os" and a: "a \<in> set os" and hv: "hval (bk t a) = hv"
    and hit: "\<And>x. x \<in> set os \<Longrightarrow> del_match key hv (bk t x) \<longleftrightarrow> x = a"
    and live: "\<not> (flag = HASH_DEL_KEY \<and> arKey (bk t a) = None \<and> \<not> persistent t)"
  obtains t' where "php3_hash_del_at t key hv flag = Some (SUCCESS, t')" "ht_inv t' (remove1 a os)"
    "ht_abs t' (remove1 a os) = AList.delete (bkey (bk t a)) (ht_abs t os)" "same_params t t'"
    "nNextFreeElement t' = nNextFreeElement t" "mallocs t' = mallocs t"
    "destroyed t' = destroyed t @ (if pDestructor t \<and> \<not> bIsPointer (bk t a) then [pData (bk t a)] else [])"
    "same_on core ((heap t)(a := None)) (heap t')"
    "\<forall>vs. os = a # vs \<longrightarrow> pListHead t' = head_ptr vs None"
proof -
  obtain us vs where os: "os = us @ a # vs" using a by (auto simp: in_set_conv_decomp)
  have ni: "index_of t hv = index_of t (hval (bk t a))" using hv by simp
  obtain prev u hp' bs' h' tl' where r:
    "find_with_prev (heap t) (del_match key hv) None (arBuckets t ! index_of t hv) = Some (prev, Some a)"
    "unlink_chain t (index_of t hv) prev a = Some u"
    "unlink_order u a = Some (t\<lparr>heap := hp', arBuckets := bs', pListHead := h', pListTail := tl'\<rparr>)"
    "dseg hp' h' None (us @ vs) None" "tl' = last_ptr None (us @ vs)" "same_on core (heap t) hp'"
    "length bs' = length (arBuckets t)"
    "\<forall>i < nTableSize t. \<exists>c. cseg hp' (bs' ! i) c None \<and> distinct c \<and>
       set c = {x \<in> set (us @ vs). index_of t (hval (bk t x)) = i}"
    "hp' a = heap t a"
    by (rule unlink_ok [OF inv os ni hit])
  have oi: "order_inv t os" and si: "size_inv t" and ti: "content_inv t os" using inv by (auto dest: invD)
  have dist: "distinct (us @ a # vs)" using oi os by (simp add: order_inv_def)
  have rem: "remove1 a os = us @ vs" using os dist by (simp add: remove1_append)
  obtain b where b: "heap t a = Some b" using inv a by (rule inv_heapE)
  have b': "hp' a = Some b" using r(9) b by simp
  let ?u = "t\<lparr>heap := hp', arBuckets := bs', pListHead := h', pListTail := tl'\<rparr>"
  let ?t' = "?u\<lparr>destroyed := destroyed t @ (if pDestructor t \<and> \<not> bIsPointer b then [pData b] else []),
      pInternalPointer := (if pInternalPointer t = Some a then pListNext b else pInternalPointer t),
      heap := hp'(a := None), nNumOfElements := nNumOfElements t - 1\<rparr>"
  have slot: "slot t (index_of t hv) = Some (arBuckets t ! index_of t hv)"
    by (rule inv_slot [OF inv])
  have "release_bucket ?u a flag = Some ?t'"
    using release_bucket_ok [of ?u a b flag] b b' live by simp
  then have eq: "php3_hash_del_at t key hv flag = Some (SUCCESS, ?t')"
    using r(1,2,3) slot by (simp add: php3_hash_del_at_def)
  have upd: "(hp'(a := None)) x = hp' x" if "x \<in> set (us @ vs)" for x using that dist by auto
  have same: "core (the (hp' x)) = core (bk t x)" if x: "x \<in> set os" for x
  proof -
    obtain c where c: "heap t x = Some c" using inv x by (rule inv_heapE)
    with r(6) obtain c' where "hp' x = Some c'" "core c' = core c" by (rule same_onE)
    with c show ?thesis by simp
  qed
  have keep: "bkey (bk ?t' x) = bkey (bk t x)" "hval (bk ?t' x) = hval (bk t x)"
    "pData (bk ?t' x) = pData (bk t x)" "bucket_ok t (bk ?t' x) = bucket_ok t (bk t x)"
    if "x \<in> set (us @ vs)" for x
  proof -
    have "x \<in> set os" using that os by auto
    then have cc: "core (the (hp' x)) = core (bk t x)" by (rule same)
    have e: "bk ?t' x = the (hp' x)" using upd [OF that] by simp
    show "bkey (bk ?t' x) = bkey (bk t x)" "hval (bk ?t' x) = hval (bk t x)"
      "pData (bk ?t' x) = pData (bk t x)" "bucket_ok t (bk ?t' x) = bucket_ok t (bk t x)"
      unfolding e by (rule core_cong [OF cc])+
  qed
  have nxt: "pListNext b = head_ptr vs None"
    using oi os b by (auto simp: order_inv_def dseg_append dest: dseg_head)
  have idx: "index_of ?t' (hval (bk ?t' x)) = index_of t (hval (bk t x))" if "x \<in> set (us @ vs)" for x
    unfolding keep(2) [OF that] by (simp add: index_of_def)
  have "size_inv ?t'" using si r(7) by (simp add: size_inv_def)
  moreover have "order_inv ?t' (us @ vs)"
  proof -
    have "dseg (hp'(a := None)) h' None (us @ vs) None" using r(4) dist by simp
    moreover have "dom (hp'(a := None)) = set (us @ vs)"
      using same_on_dom [OF r(6)] oi os dist by (auto simp: order_inv_def)
    moreover have "x \<in> set (us @ vs)" if "pInternalPointer ?t' = Some x" for x
      using that nxt oi os by (cases vs) (auto simp: order_inv_def split: if_splits)
    ultimately show ?thesis using r(5) oi os dist by (auto simp: order_inv_def)
  qed
  moreover have "chain_inv ?t' (us @ vs)"
    unfolding chain_inv_def
  proof (intro allI impI)
    fix i assume "i < nTableSize ?t'"
    then obtain c where c: "cseg hp' (bs' ! i) c None" "distinct c"
      "set c = {x \<in> set (us @ vs). index_of t (hval (bk t x)) = i}" using r(8) by auto
    have "a \<notin> set c" using c(3) dist by auto
    then have s1: "cseg (heap ?t') (arBuckets ?t' ! i) c None" using c(1) by simp
    have s2: "set c = {x \<in> set (us @ vs). index_of ?t' (hval (bk ?t' x)) = i}"
      unfolding c(3) by (rule Collect_cong, rule conj_cong [OF refl]) (simp only: idx)
    show "\<exists>c. slot_ok ?t' (us @ vs) i c"
      by (rule exI [of _ c], unfold slot_ok_def, intro conjI s1 s2 c(2))
  qed
  moreover have "content_inv ?t' (us @ vs)"
  proof -
    have "bucket_ok ?t' = bucket_ok t" by (rule bucket_ok_cong) simp
    moreover have eqm: "map (\<lambda>x. bkey (bk ?t' x)) (us @ vs) = map (\<lambda>x. bkey (bk t x)) (us @ vs)"
      using keep(1) by (intro map_cong refl)
    moreover have "distinct (map (\<lambda>x. bkey (bk t x)) (us @ vs))" using ti os by (auto simp: content_inv_def)
    moreover have "\<forall>x \<in> set (us @ vs). bucket_ok t (bk ?t' x)"
      using keep(4) ti os by (auto simp: content_inv_def)
    ultimately show ?thesis unfolding content_inv_def by (simp only:)
  qed
  ultimately have "ht_inv ?t' (us @ vs)" unfolding ht_inv_def by blast
  moreover have "ht_abs ?t' (us @ vs) = AList.delete (bkey (bk t a)) (ht_abs t os)"
  proof -
    have "ht_abs ?t' (us @ vs) = map (\<lambda>x. (bkey (bk t x), pData (bk t x))) (us @ vs)"
      unfolding ht_abs_def using keep by (intro map_cong refl) simp
    also have "\<dots> = AList.delete (bkey (bk t a)) (map (\<lambda>x. (bkey (bk t x), pData (bk t x))) (us @ a # vs))"
      by (rule delete_map_pairs [symmetric]) (use ti os in \<open>simp only: content_inv_def\<close>)
    also have "\<dots> = AList.delete (bkey (bk t a)) (ht_abs t os)" unfolding ht_abs_def os ..
    finally show ?thesis .
  qed
  moreover have "same_on core ((heap t)(a := None)) (heap ?t')" using r(6) by (simp add: same_on_def)
  moreover have "pListHead ?t' = head_ptr ws None" if "os = a # ws" for ws
    using that r(4) rem by (auto dest: dseg_head)
  ultimately show ?thesis
    using eq b by (intro that [of ?t']) (auto simp: rem same_params_def)
qed

subsection \<open>Which buckets a deletion matches\<close>

lemma del_match_iff:
  "bucket_ok t b \<Longrightarrow> del_match key hv b \<longleftrightarrow> bkey b = Idx hv \<or> (bkey b = Str key \<and> hval b = hv)"
  by (cases "arKey b") (auto simp: del_match_def bkey_def bucket_ok_def)

lemma inv_bucket_ok: "ht_inv t os \<Longrightarrow> x \<in> set os \<Longrightarrow> bucket_ok t (bk t x)"
  by (auto simp: ht_inv_def content_inv_def)

lemma no_str_key:
  assumes "ht_inv t os" "x \<in> set os" "key = [] \<or> handle_numeric key \<noteq> None"
  shows "bkey (bk t x) \<noteq> Str key"
  using inv_bucket_ok [OF assms(1,2)] assms(3)
  by (cases "arKey (bk t x)") (auto simp: bucket_ok_def bkey_def)

lemma del_at_absent:
  assumes inv: "ht_inv t os" and miss: "\<And>x. x \<in> set os \<Longrightarrow> \<not> del_match key hv (bk t x)"
  shows "php3_hash_del_at t key hv flag = Some (FAILURE, t)"
proof -
  obtain c where s: "slot t (index_of t hv) = Some (arBuckets t ! index_of t hv)"
    and c: "slot_ok t os (index_of t hv) c" using inv by (rule inv_slot)
  from c miss have "find_with_prev (heap t) (del_match key hv) None (arBuckets t ! index_of t hv) =
      Some (last_ptr None c, None)" by (intro find_with_prev_miss) (auto simp: slot_ok_def)
  with s show ?thesis by (simp add: php3_hash_del_at_def)
qed

text \<open>What a deletion that goes well does to the table.\<close>

definition deleted :: "'d hashtable \<Rightarrow> addr list \<Rightarrow> hkey \<Rightarrow> int \<Rightarrow> 'd hashtable \<Rightarrow> addr list \<Rightarrow> bool" where
  "deleted t os k r t' os' \<longleftrightarrow> ht_inv t' os' \<and> ht_abs t' os' = AList.delete k (ht_abs t os) \<and>
     same_params t t' \<and> nNextFreeElement t' = nNextFreeElement t \<and> mallocs t' = mallocs t \<and>
     r = (if k \<in> fst ` set (ht_abs t os) then SUCCESS else FAILURE) \<and>
     os' = (case locate t os k of None \<Rightarrow> os | Some a \<Rightarrow> remove1 a os) \<and>
     destroyed t' = destroyed t @
       (case locate t os k of None \<Rightarrow> []
        | Some a \<Rightarrow> if pDestructor t \<and> \<not> bIsPointer (bk t a) then [pData (bk t a)] else [])"

lemma deletedD:
  assumes "deleted t os k r t' os'"
  shows "ht_inv t' os'" "ht_abs t' os' = AList.delete k (ht_abs t os)" "same_params t t'"
    "nNextFreeElement t' = nNextFreeElement t" "mallocs t' = mallocs t"
    "r = (if k \<in> fst ` set (ht_abs t os) then SUCCESS else FAILURE)"
  using assms unfolding deleted_def by blast+

lemma delete_absent: "k \<notin> fst ` set xs \<Longrightarrow> AList.delete k xs = xs"
  by (simp add: delete_id)

lemma del_at_deleted:
  assumes inv: "ht_inv t os"
    and hit: "\<And>x. x \<in> set os \<Longrightarrow> del_match key hv (bk t x) \<longleftrightarrow> bkey (bk t x) = k"
    and hk: "\<And>x. x \<in> set os \<Longrightarrow> bkey (bk t x) = k \<Longrightarrow> hval (bk t x) = hv"
    and live: "flag = HASH_DEL_KEY \<Longrightarrow> (\<exists>s. k = Str s) \<or> persistent t"
  obtains r t' os' where "php3_hash_del_at t key hv flag = Some (r, t')" "deleted t os k r t' os'"
proof (cases "locate t os k")
  case None
  then have "bkey (bk t x) \<noteq> k" if "x \<in> set os" for x
    using that by (auto simp: locate_def find_None_iff_all)
  then have "php3_hash_del_at t key hv flag = Some (FAILURE, t)"
    using hit by (intro del_at_absent [OF inv]) simp
  moreover have "k \<notin> fst ` set (ht_abs t os)" using None by (simp add: locate_None)
  then have "deleted t os k FAILURE t os"
    unfolding deleted_def using inv None by (simp add: delete_absent)
  ultimately show ?thesis by (rule that)
next
  case (Some a)
  then have a: "a \<in> set os" "bkey (bk t a) = k" by (auto dest: locate_Some)
  have uniq: "del_match key hv (bk t x) \<longleftrightarrow> x = a" if x: "x \<in> set os" for x
  proof
    assume "del_match key hv (bk t x)"
    then have "bkey (bk t x) = bkey (bk t a)" using hit [OF x] a by simp
    then show "x = a" using content_unique [OF invD(4) [OF inv] x a(1)] by simp
  qed (use hit a in simp)
  have "arKey (bk t a) \<noteq> None" if "k = Str s" for s
    using a(2) that by (cases "arKey (bk t a)") (auto simp: bkey_def)
  then have live': "\<not> (flag = HASH_DEL_KEY \<and> arKey (bk t a) = None \<and> \<not> persistent t)"
    using live by blast
  obtain t' where t': "php3_hash_del_at t key hv flag = Some (SUCCESS, t')" "ht_inv t' (remove1 a os)"
    "ht_abs t' (remove1 a os) = AList.delete (bkey (bk t a)) (ht_abs t os)" "same_params t t'"
    "nNextFreeElement t' = nNextFreeElement t" "mallocs t' = mallocs t"
    "destroyed t' = destroyed t @ (if pDestructor t \<and> \<not> bIsPointer (bk t a) then [pData (bk t a)] else [])"
    by (rule del_at_ok [OF inv a(1) hk [OF a] uniq live']) (assumption | erule that)+
  have "k \<in> fst ` set (ht_abs t os)" using Some by (rule locate_in)
  with t' a(2) Some have "deleted t os k SUCCESS t' (remove1 a os)" by (simp add: deleted_def)
  with t'(1) show ?thesis by (rule that)
qed

subsection \<open>Deletion by index and by key\<close>

lemma index_del_ok:
  assumes inv: "ht_inv t os" and key: "key = [] \<or> handle_numeric key \<noteq> None"
  obtains r t' os' where "php3_hash_del_at t key hv HASH_DEL_INDEX = Some (r, t')" "deleted t os (Idx hv) r t' os'"
proof (rule del_at_deleted [OF inv, of key hv "Idx hv" HASH_DEL_INDEX])
  fix x assume x: "x \<in> set os"
  show "del_match key hv (bk t x) \<longleftrightarrow> bkey (bk t x) = Idx hv"
    using del_match_iff [OF inv_bucket_ok [OF inv x], of key hv] no_str_key [OF inv x key] by simp
  assume "bkey (bk t x) = Idx hv"
  then show "hval (bk t x) = hv" by (simp add: bkey_def split: option.splits)
qed (simp_all add: that)

lemma key_del_ok:
  assumes inv: "ht_inv t os"
    and clash: "handle_numeric key = None \<Longrightarrow> Idx (pHashFunction t key) \<notin> fst ` set (ht_abs t os)"
  obtains r t' os' where "php3_hash_del t key = Some (r, t')" "deleted t os (norm_key key) r t' os'"
proof (cases "handle_numeric key")
  case (Some idx)
  then show ?thesis
    using index_del_ok [OF inv, of key idx] that
    by (auto simp: php3_hash_del_key_or_index_def norm_key_def)
next
  case None
  let ?hv = "pHashFunction t key"
  have at: "php3_hash_del t key = php3_hash_del_at t key ?hv HASH_DEL_KEY"
    using None by (simp add: php3_hash_del_key_or_index_def)
  show ?thesis
  proof (rule del_at_deleted [OF inv, of key ?hv "Str key" HASH_DEL_KEY])
    fix x assume x: "x \<in> set os"
    have no: "bkey (bk t x) \<noteq> Idx ?hv"
      using clash [OF None] x by (rule not_key)
    show hk: "hval (bk t x) = ?hv" if "bkey (bk t x) = Str key"
      using bucket_ok_hval [OF inv_bucket_ok [OF inv x]] that by (simp add: key_hash_def)
    show "del_match key ?hv (bk t x) \<longleftrightarrow> bkey (bk t x) = Str key"
      using del_match_iff [OF inv_bucket_ok [OF inv x], of key ?hv] no hk by auto
  qed (use None at that in \<open>auto simp: norm_key_def\<close>)
qed

text \<open>
  The other case: a string key that is not in the table, while a numeric key equals its hash. The
  loop matches the numeric bucket.
\<close>

lemma key_del_alias:
  assumes inv: "ht_inv t os" and num: "handle_numeric key = None"
    and clash: "Idx (pHashFunction t key) \<in> fst ` set (ht_abs t os)"
    and absent: "Str key \<notin> fst ` set (ht_abs t os)"
    and pers: "persistent t"
  obtains t' os' where "php3_hash_del t key = Some (SUCCESS, t')"
    "deleted t os (Idx (pHashFunction t key)) SUCCESS t' os'"
proof -
  let ?hv = "pHashFunction t key"
  have at: "php3_hash_del t key = php3_hash_del_at t key ?hv HASH_DEL_KEY"
    using num by (simp add: php3_hash_del_key_or_index_def)
  obtain r t' os' where r: "php3_hash_del_at t key ?hv HASH_DEL_KEY = Some (r, t')"
    "deleted t os (Idx ?hv) r t' os'"
  proof (rule del_at_deleted [OF inv, of key ?hv "Idx ?hv" HASH_DEL_KEY])
    fix x assume x: "x \<in> set os"
    have "bkey (bk t x) \<noteq> Str key" using absent x by (rule not_key)
    then show "del_match key ?hv (bk t x) \<longleftrightarrow> bkey (bk t x) = Idx ?hv"
      using del_match_iff [OF inv_bucket_ok [OF inv x], of key ?hv] by simp
    assume "bkey (bk t x) = Idx ?hv"
    then show "hval (bk t x) = ?hv" by (simp add: bkey_def split: option.splits)
  qed (use pers in auto)
  have "r = SUCCESS" using r(2) clash by (simp add: deleted_def)
  with r at show ?thesis by (intro that) auto
qed

lemma key_del_alias_fault:
  assumes inv: "ht_inv t os" and num: "handle_numeric key = None"
    and clash: "Idx (pHashFunction t key) \<in> fst ` set (ht_abs t os)"
    and absent: "Str key \<notin> fst ` set (ht_abs t os)"
    and pers: "\<not> persistent t"
  shows "php3_hash_del t key = None"
proof -
  let ?hv = "pHashFunction t key"
  have at: "php3_hash_del t key = php3_hash_del_at t key ?hv HASH_DEL_KEY"
    using num by (simp add: php3_hash_del_key_or_index_def)
  have "locate t os (Idx ?hv) \<noteq> None" using clash by (simp add: locate_None)
  then obtain a where "locate t os (Idx ?hv) = Some a" by blast
  then have a: "a \<in> set os" "bkey (bk t a) = Idx ?hv" by (auto dest: locate_Some)
  have hv: "hval (bk t a) = ?hv" and ak: "arKey (bk t a) = None"
    using a(2) by (auto simp: bkey_def split: option.splits)
  obtain us vs where os: "os = us @ a # vs" using a by (auto simp: in_set_conv_decomp)
  have hit: "del_match key ?hv (bk t x) \<longleftrightarrow> x = a" if x: "x \<in> set os" for x
  proof -
    have "bkey (bk t x) \<noteq> Str key" using absent x by (rule not_key)
    then have "del_match key ?hv (bk t x) \<longleftrightarrow> bkey (bk t x) = bkey (bk t a)"
      using del_match_iff [OF inv_bucket_ok [OF inv x], of key ?hv] a(2) by simp
    then show ?thesis using content_unique [OF invD(4) [OF inv] x a(1)] by auto
  qed
  have ni: "index_of t ?hv = index_of t (hval (bk t a))" using hv by simp
  obtain prev u hp' bs' h' tl' where r:
    "find_with_prev (heap t) (del_match key ?hv) None (arBuckets t ! index_of t ?hv) = Some (prev, Some a)"
    "unlink_chain t (index_of t ?hv) prev a = Some u"
    "unlink_order u a = Some (t\<lparr>heap := hp', arBuckets := bs', pListHead := h', pListTail := tl'\<rparr>)"
    "hp' a = heap t a"
    by (rule unlink_ok [OF inv os ni hit]) (assumption | erule that)+
  obtain b where b: "heap t a = Some b" using inv a(1) by (rule inv_heapE)
  have slot: "slot t (index_of t ?hv) = Some (arBuckets t ! index_of t ?hv)" by (rule inv_slot [OF inv])
  have "release_bucket (t\<lparr>heap := hp', arBuckets := bs', pListHead := h', pListTail := tl'\<rparr>) a HASH_DEL_KEY = None"
    using r(4) b ak pers by (intro release_bucket_fault [of _ _ b]) auto
  then show ?thesis unfolding at php3_hash_del_at_def using r(1,2,3) slot by simp
qed

end
