(* ===== verification/Hash_Walk.thy ===== *)
theory Hash_Walk
  imports Hash_Insert Hash_Delete
begin

text \<open>
  The operations that walk the order list: initialisation, the internal pointer, destruction,
  selective deletion, copying, merging, sorting and the search for an extreme element.
\<close>

subsection \<open>Initialisation\<close>

lemma prime_index_bound: "i \<le> nNumPrimeNumbers \<Longrightarrow> prime_index n i \<le> nNumPrimeNumbers"
  by (induction n i rule: prime_index.induct) (subst prime_index.simps, auto)

lemma init_ok:
  assumes "ms = [] \<or> hd ms"
  obtains t where "php3_hash_init n pf pd pers ms = Some t" "ht_inv t []" "ht_abs t [] = []"
    "pHashFunction t = (case pf of None \<Rightarrow> hashpjw | Some f \<Rightarrow> f)" "pDestructor t = pd" "persistent t = pers"
    "nNextFreeElement t = 0" "mallocs t = (if pers then tl ms else ms)" "destroyed t = []"
proof -
  let ?i = "prime_index n 0"
  let ?s = "if ?i = nNumPrimeNumbers then ?i - 1 else ?i"
  let ?t = "\<lparr>nTableSize = PrimeNumbers ! ?s, nHashSizeIndex = ?s, nNumOfElements = 0, nNextFreeElement = 0,
      pHashFunction = (case pf of None \<Rightarrow> hashpjw | Some f \<Rightarrow> f), pInternalPointer = None,
      pListHead = None, pListTail = None, arBuckets = replicate (PrimeNumbers ! ?s) None, pDestructor = pd,
      persistent = pers, heap = Map.empty, brk = 0, mallocs = (if pers then tl ms else ms), destroyed = []\<rparr>"
  have "?s < nNumPrimeNumbers" using prime_index_bound [of 0 n] by (auto simp: nNumPrimeNumbers_14)
  then have "ht_inv ?t []" by (simp add: ht_inv_def hash_defs)
  moreover have "php3_hash_init n pf pd pers ms = Some ?t"
    using assms by (cases ms) (auto simp: php3_hash_init_def pemalloc_def Let_def)
  ultimately show ?thesis by (intro that [of ?t]) (simp_all add: ht_abs_def)
qed

subsection \<open>The internal pointer\<close>

text \<open>Where the pointer is: before \<open>vs\<close>, with \<open>us\<close> behind it.\<close>

definition at_pos :: "'d hashtable \<Rightarrow> addr list \<Rightarrow> addr list \<Rightarrow> bool" where
  "at_pos t us vs \<longleftrightarrow> ht_inv t (us @ vs) \<and> pInternalPointer t = head_ptr vs None"

lemma inv_set_pointer:
  "ht_inv t os \<Longrightarrow> (\<And>a. p = Some a \<Longrightarrow> a \<in> set os) \<Longrightarrow> ht_inv (t\<lparr>pInternalPointer := p\<rparr>) os"
proof -
  assume inv: "ht_inv t os" and p: "\<And>a. p = Some a \<Longrightarrow> a \<in> set os"
  have "bucket_ok (t\<lparr>pInternalPointer := p\<rparr>) = bucket_ok t" by (rule bucket_ok_cong) simp
  with inv p show ?thesis by (auto simp: ht_inv_def hash_defs index_of_def)
qed

lemma order_split:
  assumes "ht_inv t (us @ a # vs)"
  obtains b where "heap t a = Some b" "pListNext b = head_ptr vs None" "pListLast b = last_ptr None us"
    "bucket_ok t b"
proof -
  have "a \<in> set (us @ a # vs)" by simp
  with assms obtain b where b: "heap t a = Some b" "bucket_ok t b" by (rule inv_heapE)
  moreover from assms have "dseg (heap t) (pListHead t) None (us @ a # vs) None"
    by (simp add: ht_inv_def order_inv_def)
  ultimately show ?thesis using that by (auto simp: dseg_append dest: dseg_head)
qed

lemma list_head: "ht_inv t os \<Longrightarrow> pListHead t = head_ptr os None"
  by (auto simp: ht_inv_def order_inv_def dest: dseg_head)

lemma list_tail: "ht_inv t os \<Longrightarrow> pListTail t = last_ptr None os"
  by (simp add: ht_inv_def order_inv_def)

lemma head_ptr_in: "head_ptr vs None = Some a \<Longrightarrow> a \<in> set vs"
  by (cases vs) auto

lemma last_ptr_in: "last_ptr None vs = Some a \<Longrightarrow> a \<in> set vs"
  by (auto simp: last_ptr_def split: if_splits)

lemma reset_ok: "ht_inv t os \<Longrightarrow> at_pos (php3_hash_internal_pointer_reset t) [] os"
  unfolding at_pos_def php3_hash_internal_pointer_reset_def
  by (auto simp: list_head intro: inv_set_pointer head_ptr_in)

lemma forward_ok:
  assumes "at_pos t us (a # vs)"
  shows "php3_hash_move_forward t = Some (t\<lparr>pInternalPointer := head_ptr vs None\<rparr>)"
    and "at_pos (t\<lparr>pInternalPointer := head_ptr vs None\<rparr>) (us @ [a]) vs"
proof -
  from assms have inv: "ht_inv t (us @ a # vs)" and p: "pInternalPointer t = Some a"
    by (auto simp: at_pos_def)
  from inv obtain b where "heap t a = Some b" "pListNext b = head_ptr vs None" by (rule order_split)
  with p show "php3_hash_move_forward t = Some (t\<lparr>pInternalPointer := head_ptr vs None\<rparr>)"
    by (simp add: php3_hash_move_forward_def)
  have "ht_inv (t\<lparr>pInternalPointer := head_ptr vs None\<rparr>) (us @ a # vs)"
    using inv by (rule inv_set_pointer) (auto dest: head_ptr_in)
  then show "at_pos (t\<lparr>pInternalPointer := head_ptr vs None\<rparr>) (us @ [a]) vs" by (simp add: at_pos_def)
qed

lemma backwards_ok:
  assumes "ht_inv t (us @ a # vs)" "pInternalPointer t = Some a"
  shows "php3_hash_move_backwards t = Some (t\<lparr>pInternalPointer := last_ptr None us\<rparr>)"
    and "ht_inv (t\<lparr>pInternalPointer := last_ptr None us\<rparr>) (us @ a # vs)"
proof -
  from assms(1) obtain b where "heap t a = Some b" "pListLast b = last_ptr None us" by (rule order_split)
  with assms(2) show "php3_hash_move_backwards t = Some (t\<lparr>pInternalPointer := last_ptr None us\<rparr>)"
    by (simp add: php3_hash_move_backwards_def)
  show "ht_inv (t\<lparr>pInternalPointer := last_ptr None us\<rparr>) (us @ a # vs)"
    using assms(1) by (rule inv_set_pointer) (auto dest: last_ptr_in)
qed

lemma current_data_ok:
  assumes "at_pos t us vs"
  shows "php3_hash_get_current_data t = Some (case vs of [] \<Rightarrow> None | a # _ \<Rightarrow> Some (pData (bk t a)))"
proof (cases vs)
  case (Cons a ws)
  with assms have "ht_inv t (us @ a # ws)" by (simp add: at_pos_def)
  then obtain b where "heap t a = Some b" by (rule order_split)
  with assms Cons show ?thesis by (simp add: php3_hash_get_current_data_def at_pos_def)
qed (use assms in \<open>simp add: php3_hash_get_current_data_def at_pos_def\<close>)

text \<open>
  The loop a client writes over the table, at most \<open>n\<close> steps of it: read the current element and
  move on, until there is none.
\<close>

fun walk_forward :: "nat \<Rightarrow> 'd hashtable \<Rightarrow> 'd list option" where
  "walk_forward 0 t = Some []"
| "walk_forward (Suc n) t =
     do {
       r \<leftarrow> php3_hash_get_current_data t;
       (case r of
          None \<Rightarrow> Some []
        | Some d \<Rightarrow> do { t1 \<leftarrow> php3_hash_move_forward t; ds \<leftarrow> walk_forward n t1; Some (d # ds) }) }"

fun walk_backwards :: "nat \<Rightarrow> 'd hashtable \<Rightarrow> 'd list option" where
  "walk_backwards 0 t = Some []"
| "walk_backwards (Suc n) t =
     do {
       r \<leftarrow> php3_hash_get_current_data t;
       (case r of
          None \<Rightarrow> Some []
        | Some d \<Rightarrow> do { t1 \<leftarrow> php3_hash_move_backwards t; ds \<leftarrow> walk_backwards n t1; Some (d # ds) }) }"

lemma walk_forward_ok:
  "at_pos t us vs \<Longrightarrow> length vs \<le> n \<Longrightarrow> walk_forward n t = Some (map (\<lambda>a. pData (bk t a)) vs)"
proof (induction n arbitrary: t us vs)
  case (Suc n)
  show ?case
  proof (cases vs)
    case (Cons a ws)
    let ?t = "t\<lparr>pInternalPointer := head_ptr ws None\<rparr>"
    have "at_pos t us (a # ws)" using Suc.prems Cons by simp
    from forward_ok [OF this] have "php3_hash_move_forward t = Some ?t" "at_pos ?t (us @ [a]) ws" by blast+
    moreover from Suc.IH [OF this(2)] have "walk_forward n ?t = Some (map (\<lambda>a. pData (bk t a)) ws)"
      using Suc.prems Cons by simp
    ultimately show ?thesis using current_data_ok [OF Suc.prems(1)] Cons by simp
  qed (use current_data_ok [OF Suc.prems(1)] in simp)
qed simp

lemma walk_backwards_ok:
  "ht_inv t (us @ vs) \<Longrightarrow> pInternalPointer t = last_ptr None us \<Longrightarrow> length us \<le> n \<Longrightarrow>
    walk_backwards n t = Some (map (\<lambda>a. pData (bk t a)) (rev us))"
proof (induction n arbitrary: t us vs)
  case (Suc n)
  show ?case
  proof (cases us rule: rev_cases)
    case Nil
    then show ?thesis using Suc.prems by (simp add: php3_hash_get_current_data_def)
  next
    case (snoc ws a)
    let ?t = "t\<lparr>pInternalPointer := last_ptr None ws\<rparr>"
    have inv: "ht_inv t (ws @ a # vs)" and p: "pInternalPointer t = Some a" using Suc.prems snoc by simp_all
    then obtain b where b: "heap t a = Some b" by (elim order_split)
    from backwards_ok [OF inv p] have m: "php3_hash_move_backwards t = Some ?t" "ht_inv ?t (ws @ a # vs)" by blast+
    from Suc.IH [OF m(2)] have "walk_backwards n ?t = Some (map (\<lambda>a. pData (bk t a)) (rev ws))"
      using Suc.prems snoc by simp
    with m b p snoc show ?thesis by (simp add: php3_hash_get_current_data_def)
  qed
qed simp

subsection \<open>Destruction\<close>

lemma destroy_loop_ok:
  "dseg (heap t) p prev os None \<Longrightarrow> distinct os \<Longrightarrow>
    destroy_loop p t = Some (t\<lparr>heap := (heap t) |` (- set os),
      destroyed := destroyed t @ map (\<lambda>a. pData (bk t a)) (filter (\<lambda>a. pDestructor t \<and> \<not> bIsPointer (bk t a)) os)\<rparr>)"
proof (induction os arbitrary: t p prev)
  case Nil
  then show ?case by (simp add: destroy_loop.simps)
next
  case (Cons a os)
  then obtain b where b: "p = Some a" "heap t a = Some b" "dseg (heap t) (pListNext b) (Some a) os None" by auto
  let ?t1 = "if \<not> bIsPointer b then run_destructor (pData b) t else t"
  let ?t2 = "?t1\<lparr>heap := (heap t)(a := None)\<rparr>"
  have h1: "heap ?t1 = heap t" "pDestructor ?t1 = pDestructor t" by (simp_all add: run_destructor_def)
  have eqs: "map (\<lambda>x. pData (bk ?t2 x)) (filter (\<lambda>x. pDestructor ?t2 \<and> \<not> bIsPointer (bk ?t2 x)) os) =
      map (\<lambda>x. pData (bk t x)) (filter (\<lambda>x. pDestructor t \<and> \<not> bIsPointer (bk t x)) os)"
    using Cons.prems(2) h1 by (intro map_cong filter_cong) auto
  have "dseg (heap ?t2) (pListNext b) (Some a) os None" using b Cons.prems(2) h1 by simp
  moreover have "distinct os" using Cons.prems(2) by simp
  ultimately have "destroy_loop (pListNext b) ?t2 = Some (?t2\<lparr>heap := (heap ?t2) |` (- set os),
      destroyed := destroyed ?t2 @ map (\<lambda>x. pData (bk t x)) (filter (\<lambda>x. pDestructor t \<and> \<not> bIsPointer (bk t x)) os)\<rparr>)"
    unfolding eqs [symmetric] by (rule Cons.IH)
  moreover have heq: "(heap ?t2) |` (- set os) = (heap t) |` (- set (a # os))"
    by (rule ext) (auto simp: restrict_map_def run_destructor_def)
  ultimately have "destroy_loop (pListNext b) ?t2 = Some (?t2\<lparr>heap := (heap t) |` (- set (a # os)),
      destroyed := destroyed ?t2 @ map (\<lambda>x. pData (bk t x)) (filter (\<lambda>x. pDestructor t \<and> \<not> bIsPointer (bk t x)) os)\<rparr>)"
    by (simp only:)
  then show ?case
    using b by (subst destroy_loop.simps) (auto simp: run_destructor_def Let_def)
qed

lemma destroy_ok:
  assumes inv: "ht_inv t os"
  obtains t' where "php3_hash_destroy t = Some t'" "heap t' = Map.empty" "arBuckets t' = []"
    "destroyed t' = destroyed t @ map (\<lambda>a. pData (bk t a)) (filter (\<lambda>a. pDestructor t \<and> \<not> bIsPointer (bk t a)) os)"
proof -
  have "dseg (heap t) (pListHead t) None os None" "distinct os" "dom (heap t) = set os"
    using inv by (auto simp: ht_inv_def order_inv_def)
  moreover from this(3) have "heap t |` (- set os) = Map.empty"
    by (intro ext) (auto simp: restrict_map_def)
  ultimately show ?thesis using that by (simp add: php3_hash_destroy_def destroy_loop_ok)
qed

end
