(* ===== verification/Hash_Bulk.thy ===== *)
theory Hash_Bulk
  imports Hash_Walk "HOL-Library.Multiset"
begin

text \<open>
  The operations that rebuild a table element by element: selective deletion, copying, merging,
  sorting with or without renumbering, and the search for the least or greatest element.
\<close>

subsection \<open>Selective deletion\<close>

text \<open>
  No string key has the hash that a numeric key is: the condition under which deletion by string
  key finds the bucket of that key.
\<close>

definition unaliased :: "(char list \<Rightarrow> ulong) \<Rightarrow> hkey list \<Rightarrow> bool" where
  "unaliased f ks \<longleftrightarrow> (\<forall>s. Str s \<in> set ks \<longrightarrow> Idx (f s) \<notin> set ks)"

lemma unaliased_mono: "unaliased f ks \<Longrightarrow> set ks' \<subseteq> set ks \<Longrightarrow> unaliased f ks'"
  by (auto simp: unaliased_def)

lemma delete_at:
  assumes "distinct (map fst (xs @ (k, d) # ys))"
  shows "AList.delete k (xs @ (k, d) # ys) = xs @ ys"
proof -
  have "AList.delete k (xs @ (k, d) # ys) = AList.delete k xs @ AList.delete k ys"
    by (simp add: AList.delete_eq)
  moreover have "k \<notin> fst ` set xs" "k \<notin> fst ` set ys" using assms by auto
  ultimately show ?thesis by (metis delete_absent)
qed

lemma delete_current:
  assumes inv: "ht_inv t (us @ a # vs)" and free: "unaliased (pHashFunction t) (map fst (ht_abs t (us @ a # vs)))"
    and b: "heap t a = Some b"
  obtains t' where
    "(case arKey b of None \<Rightarrow> php3_hash_index_del t (hval b) | Some k \<Rightarrow> php3_hash_del t k) = Some (SUCCESS, t')"
    "ht_inv t' (us @ vs)" "ht_abs t' (us @ vs) = ht_abs t us @ ht_abs t vs" "same_params t t'"
proof -
  note result = that
  let ?os = "us @ a # vs" and ?k = "bkey b"
  have dist: "distinct ?os" using inv by (simp add: ht_inv_def order_inv_def)
  have mem: "?k \<in> fst ` set (ht_abs t ?os)" using b by (simp add: ht_abs_def)
  have "locate t ?os ?k = Some a"
    unfolding locate_def
  proof (rule find_unique)
    fix x assume "x \<in> set ?os" "bkey (bk t x) = ?k"
    then show "x = a" using b content_unique [OF invD(4) [OF inv], of x a] by simp
  qed (use b in simp_all)
  then have fin: thesis if r: "(case arKey b of None \<Rightarrow> php3_hash_index_del t (hval b) | Some k \<Rightarrow> php3_hash_del t k) = Some (r, t')"
    "deleted t ?os ?k r t' os'" for r t' os'
  proof -
    have os': "os' = us @ vs" using that(2) \<open>locate t ?os ?k = Some a\<close> dist
      by (simp add: deleted_def remove1_append)
    have "r = SUCCESS" using that(2) mem by (simp add: deleted_def)
    moreover have "AList.delete ?k (ht_abs t ?os) = ht_abs t us @ ht_abs t vs"
      using abs_distinct [OF inv] b by (simp add: ht_abs_def delete_at)
    ultimately show thesis using that os' by (intro result [of t']) (auto simp: deleted_def)
  qed
  show thesis
  proof (cases "arKey b")
    case None
    then have k: "?k = Idx (hval b)" by (simp add: bkey_def)
    obtain r t' os' where "php3_hash_del_at t [] (hval b) HASH_DEL_INDEX = Some (r, t')"
      "deleted t ?os (Idx (hval b)) r t' os'" using index_del_ok [OF inv] by blast
    then show thesis using None k by (intro fin) (simp_all add: php3_hash_del_key_or_index_def)
  next
    case (Some s)
    then have k: "?k = Str s" by (simp add: bkey_def)
    have "bucket_ok t b" using inv_bucket_ok [OF inv, of a] b by simp
    then have num: "handle_numeric s = None" using Some by (simp add: bucket_ok_def)
    have "Idx (pHashFunction t s) \<notin> fst ` set (ht_abs t ?os)"
      using free mem k by (simp add: unaliased_def)
    then obtain r t' os' where "php3_hash_del t s = Some (r, t')" "deleted t ?os (norm_key s) r t' os'"
      using key_del_ok [OF inv, of s] by blast
    then show thesis using Some k num by (intro fin) (simp_all add: norm_key_def)
  qed
qed

lemma apply_loop_ok:
  "ht_inv t (us @ vs) \<Longrightarrow> unaliased (pHashFunction t) (map fst (ht_abs t (us @ vs))) \<Longrightarrow>
    \<exists>t' os'. apply_loop P (head_ptr vs None) t = Some t' \<and> ht_inv t' os' \<and> same_params t t' \<and>
      ht_abs t' os' = ht_abs t us @ filter (\<lambda>(k, d). \<not> P d) (ht_abs t vs)"
proof (induction vs arbitrary: t us)
  case Nil
  then show ?case by (auto simp: apply_loop.simps ht_abs_def intro!: exI [of _ t] exI [of _ us])
next
  case (Cons a vs)
  obtain b where b: "heap t a = Some b" "pListNext b = head_ptr vs None"
    using Cons.prems(1) by (rule order_split)
  have abs_a: "ht_abs t (a # xs) = (bkey b, pData b) # ht_abs t xs" for xs using b by (simp add: ht_abs_def)
  show ?case
  proof (cases "P (pData b)")
    case True
    obtain t1 where t1:
      "(case arKey b of None \<Rightarrow> php3_hash_index_del t (hval b) | Some k \<Rightarrow> php3_hash_del t k) = Some (SUCCESS, t1)"
      "ht_inv t1 (us @ vs)" "ht_abs t1 (us @ vs) = ht_abs t us @ ht_abs t vs" "same_params t t1"
      by (rule delete_current [OF Cons.prems b(1)])
    have "unaliased (pHashFunction t1) (map fst (ht_abs t1 (us @ vs)))"
      using Cons.prems(2) t1(3,4) unfolding same_params_def
      by (auto elim: unaliased_mono simp: ht_abs_def)
    from Cons.IH [OF t1(2) this] obtain t' os' where
      "apply_loop P (head_ptr vs None) t1 = Some t'" "ht_inv t' os'" "same_params t1 t'"
      "ht_abs t' os' = ht_abs t1 us @ filter (\<lambda>(k, d). \<not> P d) (ht_abs t1 vs)" by blast
    moreover have "ht_abs t1 us = ht_abs t us" "ht_abs t1 vs = ht_abs t vs"
      using t1(3) by (simp_all add: ht_abs_def)
    moreover have "apply_loop P (Some a) t = apply_loop P (head_ptr vs None) t1"
      using b True t1(1) by (subst apply_loop.simps) simp
    ultimately show ?thesis using True t1(4) abs_a by (auto intro: same_params_trans)
  next
    case False
    have "ht_inv t ((us @ [a]) @ vs)" "unaliased (pHashFunction t) (map fst (ht_abs t ((us @ [a]) @ vs)))"
      using Cons.prems by simp_all
    from Cons.IH [OF this] obtain t' os' where
      "apply_loop P (head_ptr vs None) t = Some t'" "ht_inv t' os'" "same_params t t'"
      "ht_abs t' os' = ht_abs t (us @ [a]) @ filter (\<lambda>(k, d). \<not> P d) (ht_abs t vs)" by blast
    moreover have "apply_loop P (Some a) t = apply_loop P (head_ptr vs None) t"
      using b False by (subst apply_loop.simps) simp
    moreover have "ht_abs t (us @ [a]) = ht_abs t us @ [(bkey b, pData b)]" using b by (simp add: ht_abs_def)
    ultimately show ?thesis using False abs_a by auto
  qed
qed

lemma apply_ok:
  assumes "ht_inv t os" "unaliased (pHashFunction t) (map fst (ht_abs t os))"
  obtains t' os' where "php3_hash_apply t P = Some t'" "ht_inv t' os'" "same_params t t'"
    "ht_abs t' os' = filter (\<lambda>(k, d). \<not> P d) (ht_abs t os)"
proof -
  have "ht_abs t [] = []" by (simp add: ht_abs_def)
  with apply_loop_ok [of t "[]" os P] assms list_head [OF assms(1)] that
  show ?thesis by (auto simp: php3_hash_apply_def)
qed

subsection \<open>Copying and merging\<close>

lemma update_new_pair: "k \<notin> fst ` set al \<Longrightarrow> AList.update k v al = al @ [(k, v)]"
  by (induction al) auto

lemma update_last: "k \<notin> fst ` set al \<Longrightarrow> AList.update k v (al @ [(k, w)]) = al @ [(k, v)]"
  by (induction al) auto

lemma insert_bucket_ok:
  assumes inv: "ht_inv t os" and mem: "mem_ok t" and b: "bucket_ok t b"
  obtains q t' os' where
    "(case arKey b of Some k \<Rightarrow> php3_hash_add_or_update t k d HASH_UPDATE
      | None \<Rightarrow> php3_hash_index_update_or_next_insert t (hval b) d HASH_UPDATE) = Some (SUCCESS, Some q, t')"
    "ht_inv t' os'" "ht_abs t' os' = AList.update (bkey b) d (ht_abs t os)" "same_params t t'" "mem_ok t'"
proof (cases "arKey b")
  case None
  then have k: "bkey b = Idx (hval b)" by (simp add: bkey_def)
  have "hval b = target_index t (hval b) HASH_UPDATE" by (simp add: target_index_def)
  then obtain q t' os' where
    "php3_hash_index_update_or_next_insert t (hval b) d HASH_UPDATE = Some (SUCCESS, Some q, t')"
    "ht_inv t' os'" "ht_abs t' os' = AList.update (Idx (hval b)) d (ht_abs t os)" "same_params t t'" "mem_ok t'"
    using index_insert_ok [OF inv mem, of "hval b" "hval b" HASH_UPDATE d] by blast
  then show ?thesis using None k that by simp
next
  case (Some s)
  then have k: "norm_key s = bkey b" "s \<noteq> []" using b by (auto simp: bkey_def bucket_ok_def norm_key_def)
  then obtain q t' os' where "php3_hash_add_or_update t s d HASH_UPDATE = Some (SUCCESS, Some q, t')"
    "ht_inv t' os'" "ht_abs t' os' = AList.update (norm_key s) d (ht_abs t os)" "same_params t t'" "mem_ok t'"
    using add_or_update_ok [OF inv mem, of s HASH_UPDATE d] by blast
  then show ?thesis using Some k that by simp
qed

lemma copy_loop_ok:
  "dseg hp p prev as None \<Longrightarrow> ht_inv t os \<Longrightarrow> mem_ok t \<Longrightarrow>
    (\<And>a. a \<in> set as \<Longrightarrow> bucket_ok t (the (hp a))) \<Longrightarrow>
    distinct (map fst (ht_abs t os) @ map (\<lambda>a. bkey (the (hp a))) as) \<Longrightarrow>
    \<exists>t' os'. copy_loop hp cc p t = Some t' \<and> ht_inv t' os' \<and> same_params t t' \<and>
      ht_abs t' os' = ht_abs t os @ map (\<lambda>a. (bkey (the (hp a)), cc (pData (the (hp a))))) as"
proof (induction as arbitrary: p prev t os)
  case Nil
  then show ?case by (auto simp: copy_loop.simps intro!: exI [of _ t] exI [of _ os])
next
  case (Cons a as)
  from Cons.prems(1) obtain b where b: "p = Some a" "hp a = Some b" "dseg hp (pListNext b) (Some a) as None"
    by auto
  have "bucket_ok t b" using Cons.prems(4) [of a] b by simp
  with Cons.prems(2,3) obtain q t1 os1 where t1:
    "(case arKey b of Some k \<Rightarrow> php3_hash_add_or_update t k (cc (pData b)) HASH_UPDATE
      | None \<Rightarrow> php3_hash_index_update_or_next_insert t (hval b) (cc (pData b)) HASH_UPDATE) = Some (SUCCESS, Some q, t1)"
    "ht_inv t1 os1" "ht_abs t1 os1 = AList.update (bkey b) (cc (pData b)) (ht_abs t os)" "same_params t t1" "mem_ok t1"
    by (rule insert_bucket_ok)
  have new: "bkey b \<notin> fst ` set (ht_abs t os)" using Cons.prems(5) b by simp
  then have abs1: "ht_abs t1 os1 = ht_abs t os @ [(bkey b, cc (pData b))]" using t1(3) update_new_pair [OF new] by simp
  have bo: "bucket_ok t1 = bucket_ok t" using t1(4) by (intro bucket_ok_cong) (simp add: same_params_def)
  have "distinct (map fst (ht_abs t1 os1) @ map (\<lambda>a. bkey (the (hp a))) as)"
    using Cons.prems(5) b unfolding abs1 by simp
  from Cons.IH [OF b(3) t1(2,5) _ this] bo Cons.prems(4) obtain t' os' where
    "copy_loop hp cc (pListNext b) t1 = Some t'" "ht_inv t' os'" "same_params t1 t'"
    "ht_abs t' os' = ht_abs t1 os1 @ map (\<lambda>a. (bkey (the (hp a)), cc (pData (the (hp a))))) as" by auto
  moreover have "copy_loop hp cc p t = copy_loop hp cc (pListNext b) t1"
    using b t1(1) by (subst copy_loop.simps) simp
  ultimately show ?case using t1(4) abs1 b by (auto intro: same_params_trans)
qed

lemma copy_ok:
  fixes s :: "'d hashtable"
  assumes inv: "ht_inv s os"
  obtains t' os' where "php3_hash_copy s cc = Some t'" "ht_inv t' os'"
    "ht_abs t' os' = map (\<lambda>(k, d). (k, cc d)) (ht_abs s os)" "pHashFunction t' = pHashFunction s"
    "pDestructor t' = pDestructor s" "\<not> persistent t'" "pInternalPointer t' = pListHead t'"
proof -
  obtain t :: "'d hashtable" where t: "php3_hash_init (nTableSize s) (Some (pHashFunction s)) (pDestructor s) False [] = Some t"
    "ht_inv t []" "ht_abs t [] = []" "pHashFunction t = pHashFunction s" "pDestructor t = pDestructor s"
    "persistent t = False"
    using init_ok [of "[]" "nTableSize s" "Some (pHashFunction s)" "pDestructor s" False] by auto
  have d: "dseg (heap s) (pListHead s) None os None" using inv by (simp add: ht_inv_def order_inv_def)
  have bo: "bucket_ok t = bucket_ok s" using t(4) by (rule bucket_ok_cong)
  have "distinct (map fst (ht_abs t []) @ map (\<lambda>a. bkey (bk s a)) os)"
    using inv t(3) by (simp add: ht_inv_def content_inv_def)
  moreover have "mem_ok t" using t(6) by (simp add: mem_ok_def)
  ultimately obtain t' os' where t': "copy_loop (heap s) cc (pListHead s) t = Some t'" "ht_inv t' os'" "same_params t t'"
    "ht_abs t' os' = ht_abs t [] @ map (\<lambda>a. (bkey (bk s a), cc (pData (bk s a)))) os"
    using copy_loop_ok [OF d t(2), of cc] bo inv_bucket_ok [OF inv] by auto
  have "ht_inv (t'\<lparr>pInternalPointer := pListHead t'\<rparr>) os'"
    using t'(2) by (rule inv_set_pointer) (auto simp: list_head [OF t'(2)] dest: head_ptr_in)
  moreover have "ht_abs t' os' = map (\<lambda>(k, d). (k, cc d)) (ht_abs s os)"
    using t'(4) t(3) by (simp add: ht_abs_def)
  ultimately show ?thesis using t t'
    by (intro that [of "t'\<lparr>pInternalPointer := pListHead t'\<rparr>"])
      (simp_all add: php3_hash_copy_def same_params_def)
qed

text \<open>The copy constructor of a merge, which may be absent.\<close>

definition constructed :: "('d \<Rightarrow> 'd) option \<Rightarrow> 'd \<Rightarrow> 'd" where
  "constructed cc d = (case cc of None \<Rightarrow> d | Some f \<Rightarrow> f d)"

lemma construct_at_ok:
  assumes inv: "ht_inv t os" and q: "q \<in> set os"
    and abs: "ht_abs t os = al @ [(bkey (bk t q), d)]"
  obtains t' where "construct_at cc SUCCESS (Some q) t = Some t'" "ht_inv t' os"
    "ht_abs t' os = al @ [(bkey (bk t q), constructed cc d)]" "same_params t t'" "mallocs t' = mallocs t"
proof (cases cc)
  case None
  then show ?thesis using inv abs by (intro that [of t]) (simp_all add: construct_at_def constructed_def)
next
  case (Some f)
  obtain b where b: "heap t q = Some b" using inv q by (rule inv_heapE)
  let ?b = "b\<lparr>pData := f (pData b)\<rparr>"
  have new: "bkey (bk t q) \<notin> fst ` set al" using abs_distinct [OF inv] abs by simp
  have "pData b = d"
  proof -
    have "(bkey (bk t q), pData (bk t q)) \<in> set (ht_abs t os)" using q by (simp add: ht_abs_def)
    with new abs b show ?thesis by force
  qed
  moreover have "construct_at cc SUCCESS (Some q) t = Some (t\<lparr>heap := (heap t)(q \<mapsto> ?b)\<rparr>)"
    using Some b by (simp add: construct_at_def set_field_def)
  moreover have "ht_inv (t\<lparr>heap := (heap t)(q \<mapsto> ?b)\<rparr>) os"
    "ht_abs (t\<lparr>heap := (heap t)(q \<mapsto> ?b)\<rparr>) os = AList.update (bkey (bk t q)) (pData ?b) (ht_abs t os)"
    using inv_write_data [OF inv q, of ?b] b by simp_all
  ultimately show ?thesis using Some abs new
    by (intro that [of "t\<lparr>heap := (heap t)(q \<mapsto> ?b)\<rparr>"])
      (simp_all add: constructed_def update_last same_params_def)
qed

text \<open>One step of the merge: a key the target has is left alone, another one goes to the end.\<close>

definition merge_step ::
  "('d \<Rightarrow> 'd) option \<Rightarrow> 'd hashtable \<Rightarrow> 'd bucket \<Rightarrow> 'd hashtable option" where
  "merge_step cc t b = (case arKey b of
       Some k \<Rightarrow> do {
         (r, q, t1) \<leftarrow> php3_hash_add_or_update t k (pData b) HASH_ADD;
         construct_at cc r q t1 }
     | None \<Rightarrow> do {
         ex \<leftarrow> php3_hash_index_exists t (hval b);
         if ex = 0 then do {
           (r, q, t1) \<leftarrow> php3_hash_index_update_or_next_insert t (hval b) (pData b) HASH_UPDATE;
           construct_at cc r q t1 }
         else Some t })"

lemma merge_step_new:
  assumes inv: "ht_inv t os" and mem: "mem_ok t" and b: "bucket_ok t b"
    and new: "bkey b \<notin> fst ` set (ht_abs t os)"
  obtains t' os' where "merge_step cc t b = Some t'" "ht_inv t' os'" "mem_ok t'" "same_params t t'"
    "ht_abs t' os' = ht_abs t os @ [(bkey b, constructed cc (pData b))]"
proof -
  note result = that
  have fin: thesis if r: "merge_step cc t b = construct_at cc SUCCESS (Some q) t1"
    "ht_inv t1 os1" "ht_abs t1 os1 = AList.update (bkey b) (pData b) (ht_abs t os)" "same_params t t1" "mem_ok t1"
    "q \<in> set os1" "bkey (bk t1 q) = bkey b" for q t1 os1
  proof -
    have "ht_abs t1 os1 = ht_abs t os @ [(bkey (bk t1 q), pData b)]" using r(3,7) update_new_pair [OF new] by simp
    with r(2,6) obtain t' where "construct_at cc SUCCESS (Some q) t1 = Some t'" "ht_inv t' os1"
      "ht_abs t' os1 = ht_abs t os @ [(bkey (bk t1 q), constructed cc (pData b))]" "same_params t1 t'"
      "mallocs t' = mallocs t1" by (rule construct_at_ok)
    then show thesis using r by (intro result [of t' os1]) (auto simp: same_params_def mem_ok_def)
  qed
  show thesis
  proof (cases "arKey b")
    case None
    then have k: "bkey b = Idx (hval b)" by (simp add: bkey_def)
    have tgt: "hval b = target_index t (hval b) HASH_UPDATE" by (simp add: target_index_def)
    have ex: "php3_hash_index_exists t (hval b) = Some 0"
      using index_exists_ok [OF inv, of "hval b"] new k by simp
    obtain q t1 os1 where
      "php3_hash_index_update_or_next_insert t (hval b) (pData b) HASH_UPDATE = Some (SUCCESS, Some q, t1)"
      "ht_inv t1 os1" "ht_abs t1 os1 = AList.update (Idx (hval b)) (pData b) (ht_abs t os)"
      "same_params t t1" "mem_ok t1" "q \<in> set os1" "bkey (bk t1 q) = Idx (hval b)"
      using index_insert_ok [OF inv mem tgt, of "pData b"] by blast
    then show thesis using None k ex by (intro fin [of q t1 os1]) (simp_all add: merge_step_def)
  next
    case (Some s)
    then have k: "norm_key s = bkey b" "s \<noteq> []" using b by (auto simp: bkey_def bucket_ok_def norm_key_def)
    obtain q t1 os1 where "php3_hash_add_or_update t s (pData b) HASH_ADD = Some (SUCCESS, Some q, t1)"
      "ht_inv t1 os1" "ht_abs t1 os1 = AList.update (norm_key s) (pData b) (ht_abs t os)"
      "same_params t t1" "mem_ok t1" "q \<in> set os1" "bkey (bk t1 q) = norm_key s"
      using add_or_update_ok [OF inv mem k(2), of HASH_ADD "pData b"] new k(1) by auto
    then show thesis using Some k by (intro fin [of q t1 os1]) (simp_all add: merge_step_def)
  qed
qed

lemma merge_step_old:
  assumes inv: "ht_inv t os" and b: "bucket_ok t b" and old: "bkey b \<in> fst ` set (ht_abs t os)"
  shows "merge_step cc t b = Some t"
proof (cases "arKey b")
  case None
  then have "bkey b = Idx (hval b)" by (simp add: bkey_def)
  then have "php3_hash_index_exists t (hval b) = Some 1"
    using index_exists_ok [OF inv, of "hval b"] old by simp
  then show ?thesis using None by (simp add: merge_step_def)
next
  case (Some s)
  then have k: "norm_key s = bkey b" "s \<noteq> []" using b by (auto simp: bkey_def bucket_ok_def norm_key_def)
  have "php3_hash_add_or_update t s (pData b) HASH_ADD = Some (FAILURE, None, t)"
    using inv k old by (intro add_present) simp_all
  then show ?thesis using Some by (simp add: merge_step_def construct_at_def)
qed

lemma merge_loop_ok:
  "dseg hp p prev as None \<Longrightarrow> ht_inv t os \<Longrightarrow> mem_ok t \<Longrightarrow>
    (\<And>a. a \<in> set as \<Longrightarrow> bucket_ok t (the (hp a))) \<Longrightarrow> distinct (map (\<lambda>a. bkey (the (hp a))) as) \<Longrightarrow>
    \<exists>t' os'. merge_loop hp cc p t = Some t' \<and> ht_inv t' os' \<and> same_params t t' \<and> mem_ok t' \<and>
      ht_abs t' os' = ht_abs t os @ map (\<lambda>a. (bkey (the (hp a)), constructed cc (pData (the (hp a)))))
        (filter (\<lambda>a. bkey (the (hp a)) \<notin> fst ` set (ht_abs t os)) as)"
proof (induction as arbitrary: p prev t os)
  case Nil
  then show ?case by (auto simp: merge_loop.simps intro!: exI [of _ t] exI [of _ os])
next
  case (Cons a as)
  from Cons.prems(1) obtain b where b: "p = Some a" "hp a = Some b" "dseg hp (pListNext b) (Some a) as None"
    by auto
  have ok: "bucket_ok t b" using Cons.prems(4) [of a] b by simp
  let ?new = "bkey b \<notin> fst ` set (ht_abs t os)"
  obtain t1 os1 where t1: "merge_step cc t b = Some t1" "ht_inv t1 os1" "mem_ok t1" "same_params t t1"
    "ht_abs t1 os1 = ht_abs t os @ (if ?new then [(bkey b, constructed cc (pData b))] else [])"
  proof (cases ?new)
    case True
    then show ?thesis using merge_step_new [OF Cons.prems(2,3) ok True, of cc] that by auto
  next
    case False
    then have "merge_step cc t b = Some t" using merge_step_old [OF Cons.prems(2) ok] by simp
    then show ?thesis using False Cons.prems(2,3) by (intro that [of t os]) simp_all
  qed
  have bo: "bucket_ok t1 = bucket_ok t" using t1(4) by (intro bucket_ok_cong) (simp add: same_params_def)
  have "distinct (map (\<lambda>a. bkey (the (hp a))) as)" using Cons.prems(5) by simp
  from Cons.IH [OF b(3) t1(2,3) _ this] bo Cons.prems(4) obtain t' os' where r:
    "merge_loop hp cc (pListNext b) t1 = Some t'" "ht_inv t' os'" "same_params t1 t'" "mem_ok t'"
    "ht_abs t' os' = ht_abs t1 os1 @ map (\<lambda>a. (bkey (the (hp a)), constructed cc (pData (the (hp a)))))
        (filter (\<lambda>a. bkey (the (hp a)) \<notin> fst ` set (ht_abs t1 os1)) as)" by auto
  have "merge_loop hp cc p t = merge_loop hp cc (pListNext b) t1"
    using b t1(1) by (subst merge_loop.simps) (simp add: merge_step_def)
  moreover have other: "bkey (the (hp x)) \<noteq> bkey b" if "x \<in> set as" for x
    using Cons.prems(5) b that by force
  have "filter (\<lambda>a. bkey (the (hp a)) \<notin> fst ` set (ht_abs t1 os1)) as =
      filter (\<lambda>a. bkey (the (hp a)) \<notin> fst ` set (ht_abs t os)) as"
    using other unfolding t1(5) by (intro filter_cong) auto
  ultimately show ?case using t1 r b by (intro exI [of _ t'] exI [of _ os']) (auto intro: same_params_trans)
qed

lemma merge_ok:
  assumes t: "ht_inv t os" "mem_ok t" and s: "ht_inv s ps" and f: "pHashFunction s = pHashFunction t"
  obtains t' os' where "php3_hash_merge t s cc = Some t'" "ht_inv t' os'" "same_params t t'"
    "ht_abs t' os' = ht_abs t os @ map (\<lambda>(k, d). (k, constructed cc d))
       (filter (\<lambda>(k, d). k \<notin> fst ` set (ht_abs t os)) (ht_abs s ps))"
proof -
  have d: "dseg (heap s) (pListHead s) None ps None" using s by (simp add: ht_inv_def order_inv_def)
  have bo: "bucket_ok t = bucket_ok s" by (rule bucket_ok_cong) (simp add: f)
  have "distinct (map (\<lambda>a. bkey (bk s a)) ps)" using s by (simp add: ht_inv_def content_inv_def)
  then obtain t' os' where r: "merge_loop (heap s) cc (pListHead s) t = Some t'" "ht_inv t' os'"
    "same_params t t'"
    "ht_abs t' os' = ht_abs t os @ map (\<lambda>a. (bkey (bk s a), constructed cc (pData (bk s a))))
        (filter (\<lambda>a. bkey (bk s a) \<notin> fst ` set (ht_abs t os)) ps)"
    using merge_loop_ok [OF d t, of cc] bo inv_bucket_ok [OF s] by auto
  have "ht_inv (t'\<lparr>pInternalPointer := pListHead t'\<rparr>) os'"
    using r(2) by (rule inv_set_pointer) (auto simp: list_head [OF r(2)] dest: head_ptr_in)
  then show ?thesis using r
    by (intro that [of "t'\<lparr>pInternalPointer := pListHead t'\<rparr>"])
      (simp_all add: php3_hash_merge_def same_params_def ht_abs_def [of s] filter_map comp_def)
qed

subsection \<open>Sorting\<close>

lemma relink_loop_ok:
  "dseg hp h None us None \<Longrightarrow> distinct (us @ as) \<Longrightarrow> (\<And>a. a \<in> set (us @ as) \<Longrightarrow> hp a \<noteq> None) \<Longrightarrow>
    \<exists>hp'. relink_loop as (last_ptr None us) hp = Some (last_ptr None (us @ as), hp') \<and>
      dseg hp' (head_ptr (us @ as) None) None (us @ as) None \<and> same_on core hp hp' \<and> same_on pNext hp hp'"
proof (induction as arbitrary: us hp h)
  case Nil
  then show ?case using dseg_head [OF Nil(1)] by simp
next
  case (Cons a as)
  obtain b where b: "hp a = Some b" using Cons.prems(3) [of a] by auto
  obtain hp1 where hp1: "(case last_ptr None us of None \<Rightarrow> Some hp
      | Some l \<Rightarrow> set_field hp l (\<lambda>b. b\<lparr>pListNext := Some a\<rparr>)) = Some hp1"
    and d1: "dseg hp1 (if us = [] then Some a else h) None us (Some a)" "same_on core hp hp1" "same_on pNext hp hp1"
      "hp1 a = Some b"
  proof (cases us rule: rev_cases)
    case Nil
    then show ?thesis using b by (intro that [of hp]) simp_all
  next
    case (snoc zs l)
    obtain c where c: "hp l = Some c" using Cons.prems(3) [of l] snoc by auto
    have "dseg (hp(l \<mapsto> c\<lparr>pListNext := Some a\<rparr>)) h None (zs @ [l]) (Some a)"
      using Cons.prems(1,2) snoc c by (intro dseg_set_next) auto
    then show ?thesis using snoc c b Cons.prems(2)
      by (intro that [of "hp(l \<mapsto> c\<lparr>pListNext := Some a\<rparr>)"]) (auto simp: set_field_def intro: same_on_upd)
  qed
  let ?hp2 = "hp1(a \<mapsto> b\<lparr>pListLast := last_ptr None us, pListNext := None\<rparr>)"
  have s: "same_on core hp ?hp2" "same_on pNext hp ?hp2"
    using same_on_trans [OF d1(2) same_on_upd, of a b] same_on_trans [OF d1(3) same_on_upd, of a b] d1(4) by simp_all
  have seg: "dseg ?hp2 (head_ptr (us @ [a]) None) None (us @ [a]) None"
    using d1(1) Cons.prems(2) by (cases us) (auto simp: dseg_append)
  have in_dom: "x \<in> set ((us @ [a]) @ as) \<Longrightarrow> ?hp2 x \<noteq> None" for x
    using Cons.prems(3) [of x] same_on_dom [OF s(1)] by (auto simp: domIff set_eq_iff dom_def)
  have dist: "distinct ((us @ [a]) @ as)" using Cons.prems(2) by simp
  from Cons.IH [OF seg dist in_dom] obtain hp' where
    "relink_loop as (last_ptr None (us @ [a])) ?hp2 = Some (last_ptr None ((us @ [a]) @ as), hp')"
    "dseg hp' (head_ptr ((us @ [a]) @ as) None) None ((us @ [a]) @ as) None"
    "same_on core ?hp2 hp'" "same_on pNext ?hp2 hp'" by blast
  moreover have "relink_loop (a # as) (last_ptr None us) hp = relink_loop as (Some a) ?hp2"
    using hp1 d1(4) by (simp add: set_field_def)
  ultimately show ?case
    using same_on_trans [OF s(1), of hp'] same_on_trans [OF s(2), of hp'] by auto
qed

text \<open>The invariant of a table whose order list has been threaded anew.\<close>

lemma reorder_ok:
  assumes inv: "ht_inv t os" and perm: "mset as = mset os"
    and d: "dseg hp (head_ptr as None) None as None" and s: "same_on core (heap t) hp" "same_on pNext (heap t) hp"
    and p: "\<And>a. p = Some a \<Longrightarrow> a \<in> set os"
  defines "t' \<equiv> t\<lparr>pListHead := head_ptr as None, pListTail := last_ptr None as, pInternalPointer := p, heap := hp\<rparr>"
  shows "ht_inv t' as" "ht_abs t' as = ht_abs t as"
proof -
  have set_eq: "set as = set os" using perm by (rule mset_eq_setD)
  have cc: "core (bk t' x) = core (bk t x)" if x: "x \<in> set os" for x
  proof -
    obtain c where c: "heap t x = Some c" using inv x by (rule inv_heapE)
    with s(1) obtain c' where "hp x = Some c'" "core c' = core c" by (rule same_onE)
    with c show ?thesis by (simp add: t'_def)
  qed
  note keep = core_cong [OF cc]
  have "distinct as" using perm inv by (metis distinct_count_atmost_1 ht_inv_def order_inv_def set_eq)
  moreover have "length as = length os" using perm by (rule mset_eq_length)
  ultimately have "order_inv t' as"
    using inv d p set_eq same_on_dom [OF s(1)] by (auto simp: t'_def ht_inv_def order_inv_def)
  moreover have "chain_inv t' as"
    unfolding chain_inv_def
  proof (intro allI impI)
    fix i assume "i < nTableSize t'"
    then obtain c where c: "slot_ok t os i c" using inv by (auto simp: t'_def ht_inv_def chain_inv_def)
    have "cseg (heap t') (arBuckets t' ! i) c None"
      using c same_on_cseg [OF s(2)] by (simp add: slot_ok_def t'_def)
    moreover have "set c = {a \<in> set as. index_of t' (hval (bk t' a)) = i}"
    proof -
      have "index_of t' (hval (bk t' a)) = index_of t (hval (bk t a))" if "a \<in> set os" for a
        unfolding keep(4) [OF that] by (simp add: index_of_def t'_def)
      then show ?thesis using c set_eq by (auto simp: slot_ok_def)
    qed
    ultimately show "\<exists>c. slot_ok t' as i c" using c unfolding slot_ok_def by blast
  qed
  moreover have "content_inv t' as"
  proof -
    have bo: "bucket_ok t' = bucket_ok t" by (rule bucket_ok_cong) (simp add: t'_def)
    have m: "map (\<lambda>x. bkey (bk t' x)) as = map (\<lambda>x. bkey (bk t x)) as"
      using keep(1) set_eq by (intro map_cong refl) simp
    have "mset (map (\<lambda>x. bkey (bk t x)) as) = mset (map (\<lambda>x. bkey (bk t x)) os)"
      using perm by simp
    then have "distinct (map (\<lambda>x. bkey (bk t x)) as)"
      using inv by (metis content_inv_def ht_inv_def mset_eq_imp_distinct_iff)
    then show ?thesis unfolding content_inv_def m bo
      using inv keep(2) set_eq inv_bucket_ok [OF inv] by blast
  qed
  moreover have "size_inv t'" using inv by (simp add: t'_def ht_inv_def size_inv_def)
  ultimately show "ht_inv t' as" by (simp add: ht_inv_def)
  show "ht_abs t' as = ht_abs t as"
    unfolding ht_abs_def using keep(1,3) set_eq by (intro map_cong refl) simp
qed

lemma renumber_loop_ok:
  "dseg hp p prev as None \<Longrightarrow> distinct as \<Longrightarrow> i + length as < 2 ^ 31 \<Longrightarrow>
    \<exists>hp'. renumber_loop p (int i) hp = Some (int (i + length as), hp') \<and> same_on links hp hp' \<and>
      same_on pData hp hp' \<and> (\<forall>x. x \<notin> set as \<longrightarrow> hp' x = hp x) \<and>
      (\<forall>j < length as. \<exists>b. hp' (as ! j) = Some b \<and> arKey b = None \<and> nKeyLength b = 0 \<and> hval b = of_nat (i + j))"
proof (induction as arbitrary: p prev i hp)
  case Nil
  then show ?case by (auto simp: renumber_loop.simps)
next
  case (Cons a as)
  from Cons.prems(1) obtain b where b: "p = Some a" "hp a = Some b" "dseg hp (pListNext b) (Some a) as None"
    by auto
  let ?b = "b\<lparr>arKey := None, nKeyLength := 0, hval := of_nat i\<rparr>"
  let ?hp = "hp(a \<mapsto> ?b)"
  have d: "dseg ?hp (pListNext b) (Some a) as None" and dist: "distinct as" using b(3) Cons.prems(2) by simp_all
  have small: "Suc i + length as < 2 ^ 31" using Cons.prems(3) by simp
  have next_i: "wrap_int (int i + 1) = int (Suc i)" using small by (subst wrap_int_id) auto
  from Cons.IH [OF d dist small] obtain hp' where r:
    "renumber_loop (pListNext b) (int (Suc i)) ?hp = Some (int (Suc i + length as), hp')" "same_on links ?hp hp'"
    "same_on pData ?hp hp'" "\<forall>x. x \<notin> set as \<longrightarrow> hp' x = ?hp x"
    "\<forall>j < length as. \<exists>b. hp' (as ! j) = Some b \<and> arKey b = None \<and> nKeyLength b = 0 \<and> hval b = of_nat (Suc i + j)"
    by blast
  have "renumber_loop p (int i) hp = Some (int (i + length (a # as)), hp')"
    using b r(1) next_i by (subst renumber_loop.simps) simp
  moreover have "same_on links hp ?hp" "same_on pData hp ?hp" using b(2) by (auto intro: same_on_upd)
  then have "same_on links hp hp'" "same_on pData hp hp'" using r(2,3) by (blast intro: same_on_trans)+
  moreover have "hp' a = Some ?b" using r(4) Cons.prems(2) by simp
  then have "\<exists>b. hp' ((a # as) ! j) = Some b \<and> arKey b = None \<and> nKeyLength b = 0 \<and> hval b = of_nat (i + j)"
    if "j < length (a # as)" for j
    using that r(5) by (cases j) auto
  ultimately show ?case using r(4) by auto
qed

lemma sort_ok:
  assumes inv: "ht_inv t os" and perm: "mset (qs (heap t) os) = mset os" and two: "1 < length os"
    and mem: "mem_ok t" and small: "length os < 2 ^ 31"
  obtains t' where "php3_hash_sort t qs renumber = Some (SUCCESS, t')" "ht_inv t' (qs (heap t) os)"
    "ht_abs t' (qs (heap t) os) =
      (if renumber
       then map (\<lambda>i. (Idx (of_nat i), pData (bk t (qs (heap t) os ! i)))) [0..<length os]
       else ht_abs t (qs (heap t) os))"
    "same_params t t'" "nNextFreeElement t' = (if renumber then of_nat (length os) else nNextFreeElement t)"
    "destroyed t' = destroyed t"
proof -
  note result = that
  let ?as = "qs (heap t) os"
  have oi: "order_inv t os" using inv by (rule invD)
  have set_eq: "set ?as = set os" using perm by (rule mset_eq_setD)
  have len: "length ?as = length os" using perm by (rule mset_eq_length)
  have dist: "distinct ?as" using perm oi by (metis mset_eq_imp_distinct_iff order_inv_def)
  obtain a as' where as: "?as = a # as'" using two len by (cases ?as) auto
  have dom: "heap t x \<noteq> None" if "x \<in> set ?as" for x
    using that oi set_eq by (auto simp: order_inv_def)
  have "dseg (heap t) None None [] None" by simp
  from relink_loop_ok [OF this, of ?as] dist dom obtain hp where r:
    "relink_loop ?as None (heap t) = Some (last_ptr None ?as, hp)" "dseg hp (head_ptr ?as None) None ?as None"
    "same_on core (heap t) hp" "same_on pNext (heap t) hp" by auto
  have coll: "collect_order (heap t) (pListHead t) [] = Some os"
    using oi collect_order_dseg [of "heap t" "pListHead t" None os "[]"] by (simp add: order_inv_def)
  have n: "\<not> nNumOfElements t \<le> 1" using oi two by (simp add: order_inv_def)
  let ?t1 = "t\<lparr>pListHead := Some a, pListTail := last_ptr None ?as, pInternalPointer := Some a, heap := hp\<rparr>"
  have hd_as: "head_ptr ?as None = Some a" using as by simp
  have "a \<in> set os" using as set_eq by auto
  then have p: "\<And>x. Some a = Some x \<Longrightarrow> x \<in> set os" by simp
  have t1: "ht_inv ?t1 ?as" "ht_abs ?t1 ?as = ht_abs t ?as"
    using reorder_ok [OF inv perm r(2,3,4) p] unfolding hd_as by blast+
  show thesis
  proof (cases renumber)
    case False
    then have "php3_hash_sort t qs renumber = Some (SUCCESS, ?t1)"
      using n mem coll as r(1) by (simp add: php3_hash_sort_def pemalloc_mem_ok)
    with t1 False show thesis by (intro result [of ?t1]) (simp_all add: same_params_def)
  next
    case True
    have d1: "dseg hp (Some a) None ?as None" using r(2) as by simp
    obtain hp2 where m: "renumber_loop (Some a) 0 hp = Some (int (length ?as), hp2)" "same_on links hp hp2"
      "same_on pData hp hp2"
      "\<forall>j < length ?as. \<exists>b. hp2 (?as ! j) = Some b \<and> arKey b = None \<and> nKeyLength b = 0 \<and> hval b = of_nat j"
      using renumber_loop_ok [OF d1 dist, of 0] small len by auto
    let ?t2 = "?t1\<lparr>heap := hp2, nNextFreeElement := of_nat (length ?as)\<rparr>"
    have bkj: "bkey (the (hp2 (?as ! j))) = Idx (of_nat j)" "bucket_ok ?t2 (the (hp2 (?as ! j)))"
      "pData (the (hp2 (?as ! j))) = pData (bk t (?as ! j))" if j: "j < length ?as" for j
    proof -
      obtain b where b: "hp2 (?as ! j) = Some b" "arKey b = None" "nKeyLength b = 0" "hval b = of_nat j"
        using m(4) j by blast
      then show "bkey (the (hp2 (?as ! j))) = Idx (of_nat j)" "bucket_ok ?t2 (the (hp2 (?as ! j)))"
        by (simp_all add: bkey_def bucket_ok_def)
      have "?as ! j \<in> set ?as" using j by simp
      then obtain c where c: "heap t (?as ! j) = Some c" using dom by blast
      from r(3) c obtain c1 where c1: "hp (?as ! j) = Some c1" "core c1 = core c" by (rule same_onE)
      from m(3) c1(1) obtain c2 where "hp2 (?as ! j) = Some c2" "pData c2 = pData c1" by (rule same_onE)
      with c c1 show "pData (the (hp2 (?as ! j))) = pData (bk t (?as ! j))" by simp
    qed
    have maps: "map f ?as = map (\<lambda>j. f (?as ! j)) [0..<length ?as]" for f :: "addr \<Rightarrow> 'x"
      by (rule nth_equalityI) simp_all
    have keys: "map (\<lambda>x. bkey (the (hp2 x))) ?as = map (\<lambda>j. Idx (of_nat j)) [0..<length ?as]"
      unfolding maps using bkj(1) by (intro map_cong refl) simp
    have "inj_on (\<lambda>j. Idx (of_nat j :: ulong)) {0..<length ?as}"
      using small len by (intro inj_onI) (auto simp: word_of_nat_eq_iff take_bit_nat_eq_self)
    then have "distinct (map (\<lambda>x. bkey (the (hp2 x))) ?as)"
      unfolding keys by (simp add: distinct_map)
    moreover have "\<forall>x \<in> set ?as. bucket_ok ?t2 (the (hp2 x))"
      using bkj(2) by (auto simp: in_set_conv_nth)
    ultimately have "content_inv ?t2 ?as" by (simp add: content_inv_def)
    moreover have "order_inv ?t2 ?as"
      using t1(1) same_on_dseg [OF m(2)] same_on_dom [OF m(2)] by (simp add: ht_inv_def order_inv_def)
    ultimately have "pre_rehash ?t2 ?as"
      using inv by (simp add: pre_rehash_def ht_inv_def size_inv_def)
    then obtain t3 where t3: "php3_hash_rehash ?t2 = Some t3" "ht_inv t3 ?as" "ht_abs t3 ?as = ht_abs ?t2 ?as"
      "same_params ?t2 t3" "nNextFreeElement t3 = nNextFreeElement ?t2" "mallocs t3 = mallocs ?t2"
      "destroyed t3 = destroyed ?t2" by (rule rehash_ok)
    have "ht_abs ?t2 ?as = map (\<lambda>i. (Idx (of_nat i), pData (bk t (?as ! i)))) [0..<length os]"
      unfolding ht_abs_def maps len [symmetric] using bkj(1,3) by (intro map_cong refl) simp
    moreover have "php3_hash_sort t qs renumber = Some (SUCCESS, t3)"
      using n mem coll as r(1) True m(1) t3(1) by (simp add: php3_hash_sort_def pemalloc_mem_ok)
    ultimately show thesis using t3 True len by (intro result [of t3]) (simp_all add: same_params_def)
  qed
qed

subsection \<open>The least and the greatest element\<close>

lemma minmax_loop_ok:
  "dseg hp p prev as None \<Longrightarrow> (\<And>x y. compar x y > 0 \<longleftrightarrow> g x > g y) \<Longrightarrow> (\<And>x y. compar x y < 0 \<longleftrightarrow> g x < g y) \<Longrightarrow>
    \<exists>r. minmax_loop hp compar flag res p = Some r \<and> (r = res \<or> r \<in> (\<lambda>a. the (hp a)) ` set as) \<and>
      (\<forall>b \<in> insert res ((\<lambda>a. the (hp a)) ` set as). if flag then g b \<le> (g r :: int) else g r \<le> g b)"
proof (induction as arbitrary: p prev res)
  case Nil
  then show ?case by (simp add: minmax_loop.simps)
next
  case (Cons a as)
  from Cons.prems(1) obtain b where b: "p = Some a" "hp a = Some b" "dseg hp (pListNext b) (Some a) as None"
    by auto
  let ?res = "if (if flag then compar res b < 0 else compar res b > 0) then b else res"
  from Cons.IH [OF b(3) Cons.prems(2,3), of ?res] obtain r where r:
    "minmax_loop hp compar flag ?res (pListNext b) = Some r"
    "r = ?res \<or> r \<in> (\<lambda>a. the (hp a)) ` set as"
    "\<forall>c \<in> insert ?res ((\<lambda>a. the (hp a)) ` set as). if flag then g c \<le> g r else g r \<le> g c" by blast
  have "minmax_loop hp compar flag res p = Some r"
    using b r(1) by (subst minmax_loop.simps) simp
  moreover have "if flag then g c \<le> g r else g r \<le> g c" if "c = res \<or> c = b" for c
    using that r(3) Cons.prems(2) [of res b] Cons.prems(3) [of res b] by (auto split: if_splits)
  ultimately show ?case using r(2,3) b by (auto split: if_splits)
qed

lemma minmax_ok:
  assumes inv: "ht_inv t os" and ne: "os \<noteq> []"
    and cmp: "\<And>x y. compar x y > 0 \<longleftrightarrow> g x > (g y :: int)" "\<And>x y. compar x y < 0 \<longleftrightarrow> g x < g y"
  obtains a where "php3_hash_minmax t compar flag = Some (Some (pData (bk t a)))" "a \<in> set os"
    "\<forall>x \<in> set os. if flag then g (bk t x) \<le> g (bk t a) else g (bk t a) \<le> g (bk t x)"
proof -
  obtain h vs where os: "os = h # vs" using ne by (cases os) auto
  have d: "dseg (heap t) (pListHead t) None os None" and n: "nNumOfElements t \<noteq> 0"
    using inv os by (auto simp: ht_inv_def order_inv_def)
  then obtain b where b: "pListHead t = Some h" "heap t h = Some b" "dseg (heap t) (pListNext b) (Some h) vs None"
    using os by auto
  obtain r where r: "minmax_loop (heap t) compar flag b (pListNext b) = Some r"
    "r = b \<or> r \<in> (\<lambda>a. bk t a) ` set vs"
    "\<forall>c \<in> insert b ((\<lambda>a. bk t a) ` set vs). if flag then g c \<le> g r else g r \<le> g c"
    using minmax_loop_ok [OF b(3), where flag = flag and res = b and compar = compar and g = g] cmp by blast
  have "b = bk t h" using b(2) by simp
  with r(2) os obtain a where a: "a \<in> set os" "r = bk t a" by auto
  have "php3_hash_minmax t compar flag = Some (Some (pData (bk t a)))"
    using n b r(1) a(2) by (simp add: php3_hash_minmax_def)
  moreover have "\<forall>x \<in> set os. if flag then g (bk t x) \<le> g (bk t a) else g (bk t a) \<le> g (bk t x)"
    using r(3) a(2) os b(2) by auto
  ultimately show ?thesis using a(1) that by blast
qed

end
