(* ===== verification/Index_Table.thy ===== *)
theory Index_Table
  imports Hash_Bulk
begin

text \<open>
  The interface through which the rest of the interpreter uses a hash table with numeric keys, as
  a locale, and its interpretation on the model of \<^verbatim>\<open>php3_hash.c\<close>. A client sees a partial map
  from indices to data and the next free index; every index in use is below the next free one as
  long as no insertion used the greatest \<open>ulong\<close>.
\<close>

subsection \<open>The next free index\<close>

definition next_ok :: "'d hashtable \<Rightarrow> addr list \<Rightarrow> bool" where
  "next_ok t os \<longleftrightarrow> (\<forall>i. Idx i \<in> fst ` set (ht_abs t os) \<longrightarrow> i < nNextFreeElement t)"

lemma update_keys: "fst ` set (AList.update k v al) = insert k (fst ` set al)"
  by (induction al) auto

lemma delete_keys: "fst ` set (AList.delete k al) = fst ` set al - {k}"
  by (force simp: AList.delete_eq)

lemma word_less_Suc: "x + 1 \<noteq> 0 \<Longrightarrow> x < x + (1 :: 'a :: len word)"
  by (simp add: word_less_nat_alt add.commute [of x] unatSuc)

lemma next_free_after_less:
  assumes "hv + 1 \<noteq> 0"
  shows "hv < next_free_after hv t" "i < nNextFreeElement t \<Longrightarrow> i < next_free_after hv t"
proof -
  have lt: "hv < hv + 1" using assms by (rule word_less_Suc)
  then show "hv < next_free_after hv t" by (auto simp: next_free_after_def not_le)
  assume "i < nNextFreeElement t"
  with lt show "i < next_free_after hv t" by (auto simp: next_free_after_def)
qed

subsection \<open>The interface\<close>

locale index_table =
  fixes good :: "'t \<Rightarrow> bool"
    and view :: "'t \<Rightarrow> ulong \<Rightarrow> 'd option"
    and next_free :: "'t \<Rightarrow> ulong"
    and find :: "'t \<Rightarrow> ulong \<Rightarrow> 'd option option"
    and update :: "'t \<Rightarrow> ulong \<Rightarrow> 'd \<Rightarrow> (int \<times> ptr \<times> 't) option"
    and delete :: "'t \<Rightarrow> ulong \<Rightarrow> (int \<times> 't) option"
  assumes find_law: "good t \<Longrightarrow> find t i = Some (view t i)"
    and fresh_law: "good t \<Longrightarrow> view t i \<noteq> None \<Longrightarrow> i < next_free t"
    and update_law: "good t \<Longrightarrow> i + 1 \<noteq> 0 \<Longrightarrow>
      \<exists>q t'. update t i d = Some (SUCCESS, q, t') \<and> good t' \<and> view t' = (view t)(i := Some d) \<and>
        next_free t' = (if i \<ge> next_free t then i + 1 else next_free t)"
    and delete_law: "good t \<Longrightarrow>
      \<exists>t'. delete t i = Some (if view t i = None then FAILURE else SUCCESS, t') \<and> good t' \<and>
        view t' = (view t)(i := None) \<and> next_free t' = next_free t"

subsection \<open>What every client of the interface can rely on\<close>

context index_table
begin

lemma find_after_update:
  assumes "good t" "i + 1 \<noteq> 0" "update t i d = Some (r, q, t')"
  shows "r = SUCCESS" "find t' i = Some (Some d)" "j \<noteq> i \<Longrightarrow> find t' j = find t j" "good t'"
  using update_law [OF assms(1,2), of d] assms find_law by auto

lemma find_after_delete:
  assumes "good t" "delete t i = Some (r, t')"
  shows "find t' i = Some None" "j \<noteq> i \<Longrightarrow> find t' j = find t j" "good t'"
  using delete_law [OF assms(1), of i] assms find_law by auto

lemma unused: "good t \<Longrightarrow> i \<ge> next_free t \<Longrightarrow> view t i = None"
  using fresh_law [of t i] by (cases "view t i") (auto simp: not_less [symmetric])

lemma store_fresh:
  assumes "good t" "i = (if next_free t = 0 then 1 else next_free t)" "i + 1 \<noteq> 0"
  obtains q t' where "update t i d = Some (SUCCESS, q, t')" "good t'" "view t i = None"
    "view t' = (view t)(i := Some d)" "next_free t' = i + 1"
proof -
  have "i \<ge> next_free t" using assms(2) by simp
  with update_law [OF assms(1,3), of d] unused [OF assms(1), of i] that show thesis by auto
qed

end

subsection \<open>The hash table provides it\<close>

definition index_good :: "'d hashtable \<Rightarrow> bool" where
  "index_good t \<longleftrightarrow> (\<exists>os. ht_inv t os \<and> mem_ok t \<and> next_ok t os)"

definition index_view :: "'d hashtable \<Rightarrow> ulong \<Rightarrow> 'd option" where
  "index_view t i = (case php3_hash_index_find t i of None \<Rightarrow> None | Some r \<Rightarrow> r)"

definition php3_hash_index_update ::
  "'d hashtable \<Rightarrow> ulong \<Rightarrow> 'd \<Rightarrow> (int \<times> ptr \<times> 'd hashtable) option" where
  "php3_hash_index_update t i d = php3_hash_index_update_or_next_insert t i d HASH_UPDATE"

lemma index_view_abs: "ht_inv t os \<Longrightarrow> index_view t i = map_of (ht_abs t os) (Idx i)"
  by (simp add: index_view_def index_find_ok)

interpretation hash_index: index_table index_good index_view nNextFreeElement php3_hash_index_find
  php3_hash_index_update php3_hash_index_del
proof
  fix t :: "'d hashtable" and i and d :: 'd
  assume "index_good t"
  then obtain os where os: "ht_inv t os" "mem_ok t" "next_ok t os" by (auto simp: index_good_def)
  show "php3_hash_index_find t i = Some (index_view t i)"
    using os(1) by (simp add: index_view_abs index_find_ok)
  show "i < nNextFreeElement t" if "index_view t i \<noteq> None"
    using that os(1,3) by (auto simp: index_view_abs next_ok_def map_of_eq_None_iff)
  show "\<exists>q t'. php3_hash_index_update t i d = Some (SUCCESS, q, t') \<and> index_good t' \<and>
      index_view t' = (index_view t)(i := Some d) \<and>
      nNextFreeElement t' = (if i \<ge> nNextFreeElement t then i + 1 else nNextFreeElement t)" if i: "i + 1 \<noteq> 0"
  proof -
    have tgt: "i = target_index t i HASH_UPDATE" by (simp add: target_index_def)
    obtain q t' os' where r:
      "php3_hash_index_update_or_next_insert t i d HASH_UPDATE = Some (SUCCESS, Some q, t')"
      "ht_inv t' os'" "ht_abs t' os' = AList.update (Idx i) d (ht_abs t os)" "mem_ok t'"
      "nNextFreeElement t' = next_free_after i t"
      using index_insert_ok [OF os(1,2) tgt, of d] by blast
    have "next_ok t' os'"
      using os(3) i unfolding next_ok_def r(3,5) update_keys by (auto simp: next_free_after_less)
    then show ?thesis using r os(1)
      by (intro exI [of _ "Some q"] exI [of _ t'])
        (auto simp: php3_hash_index_update_def index_good_def index_view_abs update_conv fun_eq_iff
          next_free_after_def)
  qed
  show "\<exists>t'. php3_hash_index_del t i = Some (if index_view t i = None then FAILURE else SUCCESS, t') \<and>
      index_good t' \<and> index_view t' = (index_view t)(i := None) \<and> nNextFreeElement t' = nNextFreeElement t"
  proof -
    obtain r t' os' where r: "php3_hash_del_at t [] i HASH_DEL_INDEX = Some (r, t')" "deleted t os (Idx i) r t' os'"
      using index_del_ok [OF os(1)] by blast
    note r' = deletedD [OF r(2)]
    have "mem_ok t'" using os(2) r'(3,5) by (simp add: mem_ok_def same_params_def)
    moreover have "next_ok t' os'" unfolding next_ok_def r'(2,4) delete_keys using os(3) by (simp add: next_ok_def)
    ultimately have "index_good t'" using r'(1) by (auto simp: index_good_def)
    moreover have "r = (if index_view t i = None then FAILURE else SUCCESS)"
      using r'(6) os(1) by (simp add: index_view_abs map_of_eq_None_iff)
    moreover have "index_view t' = (index_view t)(i := None)"
      using r'(2) os(1) by (simp add: fun_eq_iff index_view_abs [OF r'(1)] index_view_abs [OF os(1)] delete_conv)
    ultimately show ?thesis using r(1) r'(4) by (simp add: php3_hash_del_key_or_index_def)
  qed
qed

end
