(* ===== verification/Hash_Props.thy ===== *)
theory Hash_Props
  imports Index_Table
begin

text \<open>
  The properties of the hash table. They are stated over the invariant \<open>ht_inv t os\<close> and the
  abstraction \<open>ht_abs t os\<close>, an association list in insertion order, so each operation is compared
  with the corresponding function on association lists. The table \<open>demo\<close> serves the witnesses: a
  string key \<open>"b"\<close> and the numeric key 1552, which is the hash of the string \<open>"a"\<close>.
\<close>

subsection \<open>A concrete table\<close>

definition key_a :: "char list" where "key_a = [CHR ''a'', NUL]"
definition key_b :: "char list" where "key_b = [CHR ''b'', NUL]"

definition demo :: "bool \<Rightarrow> nat hashtable" where
  "demo pers =
     \<lparr>nTableSize = 5, nHashSizeIndex = 0, nNumOfElements = 2, nNextFreeElement = 1553,
      pHashFunction = hashpjw, pInternalPointer = Some 0, pListHead = Some 0, pListTail = Some 1,
      arBuckets = [None, None, Some 1, Some 0, None], pDestructor = True, persistent = pers,
      heap = [0 \<mapsto> \<lparr>hval = 1568, arKey = Some key_b, nKeyLength = 2, pData = 10, bIsPointer = False,
                    pListNext = Some 1, pListLast = None, pNext = None\<rparr>,
              1 \<mapsto> \<lparr>hval = 1552, arKey = None, nKeyLength = 0, pData = 20, bIsPointer = False,
                    pListNext = None, pListLast = Some 0, pNext = None\<rparr>],
      brk = 2, mallocs = [], destroyed = []\<rparr>"

lemma demo_keys:
  "hashpjw key_a = 1552" "hashpjw key_b = 1568" "handle_numeric key_a = None" "handle_numeric key_b = None"
  by (simp_all add: key_a_def key_b_def hashpjw_def hashpjw_step_def schar_def uchar_def handle_numeric_def
      isdigit_def Let_def)

lemma demo_inv: "ht_inv (demo pers) [0, 1]"
proof -
  have "size_inv (demo pers)" by (simp add: size_inv_def demo_def nNumPrimeNumbers_14 PrimeNumbers_def)
  moreover have "order_inv (demo pers) [0, 1]" by (auto simp: order_inv_def demo_def)
  moreover have "chain_inv (demo pers) [0, 1]"
    unfolding chain_inv_def
  proof (intro allI impI)
    fix i assume "i < nTableSize (demo pers)"
    then have "i \<in> {0, 1, 2, 3, 4}" by (auto simp: demo_def)
    then show "\<exists>c. slot_ok (demo pers) [0, 1] i c"
      by (intro exI [of _ "if i = 2 then [1] else if i = 3 then [0] else []"])
        (auto simp: slot_ok_def demo_def index_of_def)
  qed
  moreover have "content_inv (demo pers) [0, 1]"
    using demo_keys by (auto simp: content_inv_def demo_def bucket_ok_def bkey_def key_b_def)
  ultimately show ?thesis by (simp add: ht_inv_def)
qed

lemma demo_abs: "ht_abs (demo pers) [0, 1] = [(Str key_b, 10), (Idx 1552, 20)]"
  by (simp add: ht_abs_def demo_def bkey_def)

lemma demo_fields [simp]:
  "pHashFunction (demo pers) = hashpjw" "persistent (demo pers) = pers" "nNextFreeElement (demo pers) = 1553"
  "pDestructor (demo pers)"
  by (simp_all add: demo_def)

lemma demo_mem: "mem_ok (demo pers)"
  by (simp add: mem_ok_def demo_def)

lemma demo_next: "next_ok (demo pers) [0, 1]"
  unfolding next_ok_def demo_abs by simp

lemma demo_unaliased: "unaliased hashpjw [Str key_b, Idx 1552]"
  by (simp add: unaliased_def demo_keys)

subsection \<open>Lookup\<close>

text \<open>
  C2: In every table that satisfies the invariant a lookup by string key follows no dangling
  pointer, ends, and returns what the association list holds under the normalised key (\<open>"5"\<close> is
  \<open>5\<close>); the existence test agrees with it.
\<close>

theorem hash_find_refines:
  assumes "ht_inv t os"
  shows "php3_hash_find t key = Some (map_of (ht_abs t os) (norm_key key)) \<and>
    php3_hash_index_find t hv = Some (map_of (ht_abs t os) (Idx hv)) \<and>
    php3_hash_exists t key = Some (if norm_key key \<in> fst ` set (ht_abs t os) then 1 else 0) \<and>
    php3_hash_index_exists t hv = Some (if Idx hv \<in> fst ` set (ht_abs t os) then 1 else 0)"
  using find_ok [OF assms] index_find_ok [OF assms] exists_ok [OF assms] index_exists_ok [OF assms] by simp

theorem hash_find_refines_witness:
  "php3_hash_find (demo True) key_b = Some (Some 10) \<and> php3_hash_find (demo True) key_a = Some None"
  using hash_find_refines [OF demo_inv, of True key_b] hash_find_refines [OF demo_inv, of True key_a]
  unfolding demo_abs by (simp add: norm_key_def demo_keys) (simp add: key_a_def key_b_def)

subsection \<open>Insertion\<close>

text \<open>
  C3: \<open>_php3_hash_add_or_update\<close> with \<open>HASH_UPDATE\<close>, or with \<open>HASH_ADD\<close> on an absent key, succeeds when
  memory suffices, keeps the invariant (growing and rehashing the table when it is full) and is
  \<open>AList.update\<close>: an old key keeps its place, a new one goes to the end of the order.
\<close>

theorem hash_add_or_update_refines:
  assumes "ht_inv t os" "mem_ok t" "key \<noteq> []" "flag \<noteq> HASH_NEXT_INSERT"
    and "flag = HASH_UPDATE \<or> norm_key key \<notin> fst ` set (ht_abs t os)"
  shows "\<exists>q t' os'. php3_hash_add_or_update t key d flag = Some (SUCCESS, Some q, t') \<and> ht_inv t' os' \<and>
    ht_abs t' os' = AList.update (norm_key key) d (ht_abs t os) \<and> bkey (bk t' q) = norm_key key"
  by (rule add_or_update_ok [OF assms, of d]) blast

theorem hash_add_or_update_refines_witness:
  "\<exists>q t' os'. php3_hash_add_or_update (demo True) key_a 30 HASH_ADD = Some (SUCCESS, Some q, t') \<and> ht_inv t' os' \<and>
    ht_abs t' os' = [(Str key_b, 10), (Idx 1552, 20), (Str key_a, 30)] \<and> bkey (bk t' q) = Str key_a"
proof -
  have "norm_key key_a \<notin> fst ` set (ht_abs (demo True) [0, 1])"
    unfolding demo_abs norm_key_def demo_keys by (simp add: key_a_def key_b_def)
  with hash_add_or_update_refines [OF demo_inv demo_mem, of key_a HASH_ADD True 30] show ?thesis
    unfolding demo_abs norm_key_def demo_keys by (simp add: key_a_def key_b_def)
qed

text \<open>
  \<open>HASH_ADD\<close> on a key the table has fails and leaves the table as it is; so does an insertion by
  index with \<open>HASH_ADD\<close> or \<open>HASH_NEXT_INSERT\<close> on an index in use.
\<close>

lemma hash_add_present_fails:
  assumes "ht_inv t os"
  shows "(key \<noteq> [] \<and> norm_key key \<in> fst ` set (ht_abs t os) \<longrightarrow>
      php3_hash_add_or_update t key d HASH_ADD = Some (FAILURE, None, t)) \<and>
    (flag \<noteq> HASH_UPDATE \<and> Idx (target_index t hv flag) \<in> fst ` set (ht_abs t os) \<longrightarrow>
      php3_hash_index_update_or_next_insert t hv d flag = Some (FAILURE, None, t))"
  using add_present [OF assms] index_insert_present [OF assms refl] by blast

lemma hash_add_present_fails_example:
  "php3_hash_add_or_update (demo True) key_b 30 HASH_ADD = Some (FAILURE, None, demo True)"
  using hash_add_present_fails [OF demo_inv, of key_b True 30] unfolding demo_abs norm_key_def demo_keys
  by (simp add: key_b_def)

text \<open>
  \<open>_php3_hash_next_index_insert\<close>: when every index in use is below \<open>nNextFreeElement\<close>, inserting at
  the next index never hits an element; it appends the new one under a fresh index and keeps both
  invariants, unless the index is the greatest \<open>ulong\<close>.
\<close>

lemma hash_next_insert_appends:
  assumes "ht_inv t os" "mem_ok t" "next_ok t os" "nNextFreeElement t + 1 \<noteq> 0"
  shows "\<exists>q t' os'. php3_hash_index_update_or_next_insert t h0 d HASH_NEXT_INSERT = Some (SUCCESS, Some q, t') \<and>
    ht_inv t' os' \<and> next_ok t' os' \<and> nNextFreeElement t' = nNextFreeElement t + 1 \<and>
    ht_abs t' os' = ht_abs t os @ [(Idx (nNextFreeElement t), d)]"
proof -
  have tgt: "nNextFreeElement t = target_index t h0 HASH_NEXT_INSERT" by (simp add: target_index_def)
  have new: "Idx (nNextFreeElement t) \<notin> fst ` set (ht_abs t os)" using assms(3) by (auto simp: next_ok_def)
  then obtain q t' os' where
    r: "php3_hash_index_update_or_next_insert t h0 d HASH_NEXT_INSERT = Some (SUCCESS, Some q, t')" "ht_inv t' os'"
      "ht_abs t' os' = AList.update (Idx (nNextFreeElement t)) d (ht_abs t os)"
      "nNextFreeElement t' = next_free_after (nNextFreeElement t) t"
    using index_insert_ok [OF assms(1,2) tgt, of d] by blast
  have "next_ok t' os'"
    using assms(3,4) unfolding next_ok_def r(3,4) update_keys by (auto simp: next_free_after_less)
  with r update_new_pair [OF new] show ?thesis by (auto simp: next_free_after_def)
qed

lemma hash_next_insert_appends_example:
  "\<exists>q t' os'. php3_hash_index_update_or_next_insert (demo False) 0 30 HASH_NEXT_INSERT = Some (SUCCESS, Some q, t') \<and>
    ht_inv t' os' \<and> next_ok t' os' \<and> nNextFreeElement t' = 1554 \<and>
    ht_abs t' os' = [(Str key_b, 10), (Idx 1552, 20), (Idx 1553, 30)]"
  using hash_next_insert_appends [OF demo_inv demo_mem demo_next, of False 0 30] unfolding demo_abs by simp

text \<open>
  C8: Growing the table. \<open>if_full_do_resize\<close> on a table above its load limit moves to the next prime
  and rehashes every bucket: the invariant, the elements and their order survive, and afterwards
  there are no more elements than slots as long as at most one was in excess.
\<close>

theorem hash_resize_preserves:
  assumes "ht_inv t os" "mem_ok t" "nNumOfElements t > nTableSize t"
    "nHashSizeIndex t < nNumPrimeNumbers - 1" "nNumOfElements t \<le> nTableSize t + 1"
  shows "\<exists>t'. if_full_do_resize t = Some t' \<and> ht_inv t' os \<and> ht_abs t' os = ht_abs t os \<and>
    nHashSizeIndex t' = nHashSizeIndex t + 1 \<and> nNumOfElements t' = nNumOfElements t \<and>
    nNumOfElements t' \<le> nTableSize t'"
proof -
  have "nTableSize t < PrimeNumbers ! (nHashSizeIndex t + 1)"
    using assms(1,4) primes_grow by (simp add: ht_inv_def size_inv_def)
  with resize_grow [OF assms(1-4)] assms(5) show ?thesis by auto
qed

text \<open>A table of six elements in five slots, as an insertion leaves it before it resizes.\<close>

definition full_bucket :: "nat \<Rightarrow> nat bucket" where
  "full_bucket a = \<lparr>hval = of_nat a, arKey = None, nKeyLength = 0, pData = a, bIsPointer = False,
     pListNext = (if a < 5 then Some (a + 1) else None), pListLast = (if a = 0 then None else Some (a - 1)),
     pNext = (if a = 5 then Some 0 else None)\<rparr>"

definition full_table :: "nat hashtable" where
  "full_table =
     \<lparr>nTableSize = 5, nHashSizeIndex = 0, nNumOfElements = 6, nNextFreeElement = 6,
      pHashFunction = hashpjw, pInternalPointer = Some 0, pListHead = Some 0, pListTail = Some 5,
      arBuckets = [Some 5, Some 1, Some 2, Some 3, Some 4], pDestructor = False, persistent = False,
      heap = (\<lambda>a. if a < 6 then Some (full_bucket a) else None), brk = 6, mallocs = [], destroyed = []\<rparr>"

lemma full_inv: "ht_inv full_table [0, 1, 2, 3, 4, 5]"
proof -
  have "size_inv full_table" by (simp add: size_inv_def full_table_def nNumPrimeNumbers_14 PrimeNumbers_def)
  moreover have "order_inv full_table [0, 1, 2, 3, 4, 5]"
    by (auto simp: order_inv_def full_table_def full_bucket_def dom_def split: if_splits)
  moreover have "chain_inv full_table [0, 1, 2, 3, 4, 5]"
    unfolding chain_inv_def
  proof (intro allI impI)
    fix i assume "i < nTableSize full_table"
    then have "i \<in> {0, 1, 2, 3, 4}" by (auto simp: full_table_def)
    then show "\<exists>c. slot_ok full_table [0, 1, 2, 3, 4, 5] i c"
      by (intro exI [of _ "if i = 0 then [5, 0] else [i]"])
        (auto simp: slot_ok_def full_table_def full_bucket_def index_of_def)
  qed
  moreover have "content_inv full_table [0, 1, 2, 3, 4, 5]"
    by (simp add: content_inv_def full_table_def full_bucket_def bucket_ok_def bkey_def)
  ultimately show ?thesis by (simp add: ht_inv_def)
qed

theorem hash_resize_preserves_witness:
  "\<exists>t'. if_full_do_resize full_table = Some t' \<and> ht_inv t' [0, 1, 2, 3, 4, 5] \<and>
    ht_abs t' [0, 1, 2, 3, 4, 5] = ht_abs full_table [0, 1, 2, 3, 4, 5] \<and> nHashSizeIndex t' = 1 \<and>
    nNumOfElements t' = 6 \<and> nNumOfElements t' \<le> nTableSize t'"
proof -
  have "mem_ok full_table" "nNumOfElements full_table > nTableSize full_table"
    "nHashSizeIndex full_table < nNumPrimeNumbers - 1" "nNumOfElements full_table \<le> nTableSize full_table + 1"
    by (simp_all add: mem_ok_def full_table_def nNumPrimeNumbers_14)
  from hash_resize_preserves [OF full_inv this] show ?thesis by (simp add: full_table_def)
qed

subsection \<open>Deletion\<close>

text \<open>
  C4: Deletion by index removes exactly that index (and reports \<open>FAILURE\<close> when it is not there), and so
  does deletion by a string key, as long as no numeric key equals the hash of the string. The
  destructor runs once, on the data removed, unless the data is a pointer of the caller.
\<close>

theorem hash_delete_refines:
  assumes "ht_inv t os"
  shows "(\<exists>r t' os'. php3_hash_index_del t hv = Some (r, t') \<and> deleted t os (Idx hv) r t' os') \<and>
    ((handle_numeric key = None \<longrightarrow> Idx (pHashFunction t key) \<notin> fst ` set (ht_abs t os)) \<longrightarrow>
      (\<exists>r t' os'. php3_hash_del t key = Some (r, t') \<and> deleted t os (norm_key key) r t' os'))"
  using index_del_ok [OF assms, of "[]" hv] key_del_ok [OF assms, of key]
  by (simp add: php3_hash_del_key_or_index_def) metis

theorem hash_delete_refines_witness:
  "\<exists>t' os'. php3_hash_del (demo False) key_b = Some (SUCCESS, t') \<and> ht_inv t' os' \<and>
    ht_abs t' os' = [(Idx 1552, 20)]"
  using hash_delete_refines [OF demo_inv, of False 0 key_b] unfolding deleted_def demo_abs norm_key_def
  by (simp add: demo_keys) (auto simp: AList.delete_eq)

text \<open>
  C9: Deleting a string key the table does not have, while a numeric key equals its hash. The loop
  matches buckets with \<open>arKey == NULL\<close> on the hash alone, so in a persistent table the numeric element
  is removed and \<open>SUCCESS\<close> returned, and in another table \<open>efree\<close> gets a null pointer.
\<close>

theorem hash_delete_wrong_element:
  assumes "ht_inv t os" "handle_numeric key = None" "Idx (pHashFunction t key) \<in> fst ` set (ht_abs t os)"
    "Str key \<notin> fst ` set (ht_abs t os)"
  shows "if persistent t
    then \<exists>t' os'. php3_hash_del t key = Some (SUCCESS, t') \<and> ht_inv t' os' \<and>
      ht_abs t' os' = AList.delete (Idx (pHashFunction t key)) (ht_abs t os)
    else php3_hash_del t key = None"
proof (cases "persistent t")
  case True
  obtain t' os' where r: "php3_hash_del t key = Some (SUCCESS, t')"
    "deleted t os (Idx (pHashFunction t key)) SUCCESS t' os'"
    by (rule key_del_alias [OF assms True])
  with True deletedD(1,2) [OF r(2)] show ?thesis by auto
next
  case False
  with key_del_alias_fault [OF assms] show ?thesis by simp
qed

theorem hash_delete_wrong_element_witness:
  "(\<exists>t' os'. php3_hash_del (demo True) key_a = Some (SUCCESS, t') \<and> ht_inv t' os' \<and> ht_abs t' os' = [(Str key_b, 10)]) \<and>
    php3_hash_del (demo False) key_a = None"
proof -
  have "Idx (pHashFunction (demo p) key_a) \<in> fst ` set (ht_abs (demo p) [0, 1])"
    "Str key_a \<notin> fst ` set (ht_abs (demo p) [0, 1])" for p
    unfolding demo_abs by (simp_all add: demo_keys) (simp add: key_a_def key_b_def)
  then show ?thesis
    using hash_delete_wrong_element [OF demo_inv demo_keys(3), of True]
      hash_delete_wrong_element [OF demo_inv demo_keys(3), of False] unfolding demo_abs by (simp add: demo_keys AList.delete_eq)
qed

text \<open>
  C10: \<open>_php3_hash_destroy\<close> releases every bucket and the slot array, and runs the destructor on the
  data of the buckets that own theirs, once each, in insertion order.
\<close>

theorem hash_destroy_releases_all:
  assumes "ht_inv t os"
  shows "\<exists>t'. php3_hash_destroy t = Some t' \<and> heap t' = Map.empty \<and> arBuckets t' = [] \<and>
    destroyed t' = destroyed t @ map (\<lambda>a. pData (bk t a)) (filter (\<lambda>a. pDestructor t \<and> \<not> bIsPointer (bk t a)) os)"
  by (rule destroy_ok [OF assms]) blast

theorem hash_destroy_releases_all_witness:
  "\<exists>t'. php3_hash_destroy (demo False) = Some t' \<and> heap t' = Map.empty \<and> destroyed t' = [10, 20]"
  using hash_destroy_releases_all [OF demo_inv, of False] by (auto simp: demo_def)

subsection \<open>Traversal and bulk operations\<close>

text \<open>
  C12: Resetting the internal pointer and moving forward visits the elements once each, in insertion
  order, and stops; starting from the end and moving backwards visits them in reverse.
\<close>

theorem hash_traversal_visits_all:
  assumes "ht_inv t os" "length os \<le> n"
  shows "walk_forward n (php3_hash_internal_pointer_reset t) = Some (map snd (ht_abs t os)) \<and>
    walk_backwards n (php3_hash_internal_pointer_end t) = Some (rev (map snd (ht_abs t os)))"
proof -
  have "ht_inv (php3_hash_internal_pointer_end t) (os @ [])"
    using assms(1) unfolding php3_hash_internal_pointer_end_def
    by (auto simp: list_tail intro: inv_set_pointer last_ptr_in)
  moreover have "pInternalPointer (php3_hash_internal_pointer_end t) = last_ptr None os"
    using list_tail [OF assms(1)] by (simp add: php3_hash_internal_pointer_end_def)
  ultimately have "walk_backwards n (php3_hash_internal_pointer_end t) =
      Some (map (\<lambda>a. pData (bk (php3_hash_internal_pointer_end t) a)) (rev os))"
    using assms(2) by (rule walk_backwards_ok)
  with walk_forward_ok [OF reset_ok [OF assms(1)] assms(2)] show ?thesis
    by (simp add: ht_abs_def php3_hash_internal_pointer_reset_def php3_hash_internal_pointer_end_def rev_map comp_def)
qed

theorem hash_traversal_visits_all_witness:
  "walk_forward 2 (php3_hash_internal_pointer_reset (demo True)) = Some [10, 20] \<and>
    walk_backwards 2 (php3_hash_internal_pointer_end (demo True)) = Some [20, 10]"
  using hash_traversal_visits_all [OF demo_inv, of 2 True] unfolding demo_abs by simp

text \<open>
  \<open>_php3_hash_apply\<close> removes exactly the elements the callback asks to remove and keeps the others
  in order, although it deletes from the list it walks; the string keys must not clash with numeric
  ones (\<open>hash_delete_wrong_element\<close>).
\<close>

lemma hash_apply_filters:
  assumes "ht_inv t os" "unaliased (pHashFunction t) (map fst (ht_abs t os))"
  shows "\<exists>t' os'. php3_hash_apply t P = Some t' \<and> ht_inv t' os' \<and>
    ht_abs t' os' = filter (\<lambda>(k, d). \<not> P d) (ht_abs t os)"
  by (rule apply_ok [OF assms, of P]) blast

lemma hash_apply_filters_example:
  "\<exists>t' os'. php3_hash_apply (demo False) (\<lambda>d. d > 15) = Some t' \<and> ht_inv t' os' \<and> ht_abs t' os' = [(Str key_b, 10)]"
proof -
  have "unaliased (pHashFunction (demo False)) (map fst (ht_abs (demo False) [0, 1]))"
    unfolding demo_abs using demo_unaliased by simp
  from hash_apply_filters [OF demo_inv this, of "\<lambda>d. d > 15"] show ?thesis unfolding demo_abs by simp
qed

text \<open>
  \<open>_php3_hash_copy\<close> makes a table with the same keys in the same order and the copies of the data;
  the source's load, deleted elements and collision chains do not matter.
\<close>

lemma hash_copy_copies:
  assumes "ht_inv s os"
  shows "\<exists>t' os'. php3_hash_copy s cc = Some t' \<and> ht_inv t' os' \<and>
    ht_abs t' os' = map (\<lambda>(k, d). (k, cc d)) (ht_abs s os) \<and> pInternalPointer t' = pListHead t'"
  by (rule copy_ok [OF assms, of cc]) blast

lemma hash_copy_copies_example:
  "\<exists>t' os'. php3_hash_copy (demo True) Suc = Some t' \<and> ht_inv t' os' \<and>
    ht_abs t' os' = [(Str key_b, 11), (Idx 1552, 21)] \<and> pInternalPointer t' = pListHead t'"
  using hash_copy_copies [OF demo_inv, of True Suc] unfolding demo_abs by simp

text \<open>
  \<open>_php3_hash_merge\<close> keeps what the target has and appends, in the source's order, the elements
  whose keys the target does not have, each put through the copy constructor if there is one.
\<close>

lemma hash_merge_keeps_target:
  assumes "ht_inv t os" "mem_ok t" "ht_inv s ps" "pHashFunction s = pHashFunction t"
  shows "\<exists>t' os'. php3_hash_merge t s cc = Some t' \<and> ht_inv t' os' \<and>
    ht_abs t' os' = ht_abs t os @ map (\<lambda>(k, d). (k, constructed cc d))
      (filter (\<lambda>(k, d). k \<notin> fst ` set (ht_abs t os)) (ht_abs s ps))"
  by (rule merge_ok [OF assms, of cc]) blast

lemma hash_merge_keeps_target_example:
  "\<exists>t' os'. php3_hash_merge (demo False) full_table (Some (\<lambda>d. d * 10)) = Some t' \<and> ht_inv t' os' \<and>
    ht_abs t' os' = [(Str key_b, 10), (Idx 1552, 20), (Idx 0, 0), (Idx 1, 10), (Idx 2, 20), (Idx 3, 30), (Idx 4, 40), (Idx 5, 50)]"
proof -
  have "ht_abs full_table [0, 1, 2, 3, 4, 5] = [(Idx 0, 0), (Idx 1, 1), (Idx 2, 2), (Idx 3, 3), (Idx 4, 4), (Idx 5, 5)]"
    by (simp add: ht_abs_def full_table_def full_bucket_def bkey_def)
  moreover have "pHashFunction full_table = pHashFunction (demo False)" by (simp add: full_table_def)
  ultimately show ?thesis
    using hash_merge_keeps_target [OF demo_inv demo_mem full_inv, of False "Some (\<lambda>d. d * 10)"] unfolding demo_abs
    by (simp add: constructed_def)
qed

text \<open>
  C11: \<open>_php3_hash_sort\<close>: whatever permutation \<open>qsort\<close> returns, the table afterwards satisfies the
  invariant with that order. Without \<open>renumber\<close> the pairs are permuted; with it the data is numbered
  from 0, the next free index is the number of elements and the chains are rebuilt for the new keys. The
  counters of the function are of type \<open>int\<close>, so this is for fewer than 2147483648 elements.
\<close>

theorem hash_sort_permutes:
  assumes "ht_inv t os" "mset (qs (heap t) os) = mset os" "1 < length os" "mem_ok t" "length os < 2 ^ 31"
  shows "\<exists>t'. php3_hash_sort t qs renumber = Some (SUCCESS, t') \<and> ht_inv t' (qs (heap t) os) \<and>
    ht_abs t' (qs (heap t) os) =
      (if renumber
       then map (\<lambda>i. (Idx (of_nat i), pData (bk t (qs (heap t) os ! i)))) [0..<length os]
       else ht_abs t (qs (heap t) os)) \<and>
    nNextFreeElement t' = (if renumber then of_nat (length os) else nNextFreeElement t)"
  by (rule sort_ok [where qs = qs, OF assms, of renumber]) blast

theorem hash_sort_permutes_witness:
  "\<exists>t'. php3_hash_sort (demo False) (\<lambda>hp. rev) True = Some (SUCCESS, t') \<and> ht_inv t' [1, 0] \<and>
    ht_abs t' [1, 0] = [(Idx 0, 20), (Idx 1, 10)] \<and> nNextFreeElement t' = 2"
proof -
  have "length [0 :: nat, 1] < 2 ^ 31" "mset (rev [0 :: nat, 1]) = mset [0, 1]" "1 < length [0 :: nat, 1]" by simp_all
  from hash_sort_permutes [where qs = "\<lambda>hp. rev" and t = "demo False" and os = "[0, 1]",
      OF demo_inv this(2,3) demo_mem this(1), of True] show ?thesis
    by (simp add: upt_rec demo_def)
qed

end
