(* ===== verification/Resource_List.thy ===== *)
theory Resource_List
  imports Index_Table
begin

text \<open>
  The resource lists of \<^verbatim>\<open>php-src/list.c\<close>: handles to database links, files and the like are entries
  of a hash table, numbered from 1. A handle is an \<open>int\<close>; the table's indices are \<open>ulong\<close>, so a
  handle is truncated on the way out and sign-extended on the way in.
\<close>

subsection \<open>The model\<close>

record list_entry =
  le_ptr :: ptr
  le_type :: int

record list_destructors_entry =
  list_destructor :: "(ptr \<Rightarrow> bool) option"
  plist_destructor :: "(ptr \<Rightarrow> bool) option"

definition int_of_ulong :: "ulong \<Rightarrow> int" where
  "int_of_ulong n = sint (ucast n :: 32 word)"

definition ulong_of_int :: "int \<Rightarrow> ulong" where
  "ulong_of_int i = word_of_int i"

text \<open>A failed update is only logged; the handle is returned all the same.\<close>

definition php3_list_do_insert :: "list_entry hashtable \<Rightarrow> ptr \<Rightarrow> int \<Rightarrow> (int \<times> list_entry hashtable) option" where
  "php3_list_do_insert list p type =
     (let index0 = int_of_ulong (php3_hash_next_free_element list);
          index = (if index0 = 0 then index0 + 1 else index0)
      in do {
        (r, q, list') \<leftarrow> php3_hash_index_update list (ulong_of_int index) \<lparr>le_ptr = p, le_type = type\<rparr>;
        Some (index, list') })"

definition php3_list_do_delete :: "list_entry hashtable \<Rightarrow> int \<Rightarrow> (int \<times> list_entry hashtable) option" where
  "php3_list_do_delete list rid = php3_hash_index_del list (ulong_of_int rid)"

text \<open>The type and the pointer; \<open>-1\<close> and \<open>NULL\<close> for a handle that is not in the list.\<close>

definition php3_list_do_find :: "list_entry hashtable \<Rightarrow> int \<Rightarrow> (int \<times> ptr) option" where
  "php3_list_do_find list rid =
     do {
       r \<leftarrow> php3_hash_index_find list (ulong_of_int rid);
       Some (case r of Some le \<Rightarrow> (le_type le, le_ptr le) | None \<Rightarrow> (- 1, None)) }"

text \<open>
  \<open>list_entry_destructor\<close> and \<open>plist_entry_destructor\<close>: which registered destructor runs on which
  pointer, if any, or the warning about an unknown type.
\<close>

datatype destructor_call = Called "ptr \<Rightarrow> bool" ptr | NotNeeded | UnknownType int

definition list_entry_destructor ::
  "list_destructors_entry hashtable \<Rightarrow> list_entry \<Rightarrow> destructor_call option" where
  "list_entry_destructor list_destructors le =
     do {
       r \<leftarrow> php3_hash_index_find list_destructors (ulong_of_int (le_type le));
       Some (case r of
               Some ld \<Rightarrow> (case list_destructor ld of Some f \<Rightarrow> Called f (le_ptr le) | None \<Rightarrow> NotNeeded)
             | None \<Rightarrow> UnknownType (le_type le)) }"

definition plist_entry_destructor ::
  "list_destructors_entry hashtable \<Rightarrow> list_entry \<Rightarrow> destructor_call option" where
  "plist_entry_destructor list_destructors le =
     do {
       r \<leftarrow> php3_hash_index_find list_destructors (ulong_of_int (le_type le));
       Some (case r of
               Some ld \<Rightarrow> (case plist_destructor ld of Some f \<Rightarrow> Called f (le_ptr le) | None \<Rightarrow> NotNeeded)
             | None \<Rightarrow> UnknownType (le_type le)) }"

subsection \<open>Handles and indices\<close>

lemma int_of_ulong_small: "n < 2 ^ 31 \<Longrightarrow> int_of_ulong (word_of_nat n) = int n"
  by (simp add: int_of_ulong_def signed_ucast_eq unsigned_of_nat take_bit_nat_eq_self
      signed_of_nat signed_take_bit_int_eq_self)

lemma ulong_of_int_inject:
  assumes "- (2 ^ 31) \<le> i" "i < 2 ^ 31" "- (2 ^ 31) \<le> j" "j < 2 ^ 31"
  shows "ulong_of_int i = ulong_of_int j \<longleftrightarrow> i = j"
proof
  assume "ulong_of_int i = ulong_of_int j"
  then have "i mod 2 ^ 64 = j mod 2 ^ 64"
    by (simp add: ulong_of_int_def word_of_int_eq_iff take_bit_eq_mod)
  then have "(i + 2 ^ 31) mod 2 ^ 64 = (j + 2 ^ 31) mod 2 ^ 64" by (metis mod_add_left_eq)
  with assms show "i = j" by simp
qed simp

subsection \<open>A specification: handles are numbered 1, 2, 3, ...\<close>

datatype list_op = Insert ptr int | Delete int

fun list_run :: "list_op list \<Rightarrow> list_entry hashtable \<Rightarrow> (int list \<times> list_entry hashtable) option" where
  "list_run [] t = Some ([], t)"
| "list_run (Insert p type # ops) t =
     do { (rid, t1) \<leftarrow> php3_list_do_insert t p type; (ids, t2) \<leftarrow> list_run ops t1; Some (rid # ids, t2) }"
| "list_run (Delete rid # ops) t =
     do { (r, t1) \<leftarrow> php3_list_do_delete t rid; list_run ops t1 }"

fun list_spec :: "list_op list \<Rightarrow> int \<Rightarrow> (int \<Rightarrow> list_entry option) \<Rightarrow> int list \<times> (int \<Rightarrow> list_entry option)" where
  "list_spec [] n m = ([], m)"
| "list_spec (Insert p type # ops) n m =
     (let (ids, m') = list_spec ops (n + 1) (m(n := Some \<lparr>le_ptr = p, le_type = type\<rparr>)) in (n # ids, m'))"
| "list_spec (Delete rid # ops) n m = list_spec ops n (m(rid := None))"

definition handle :: "int \<Rightarrow> bool" where
  "handle i \<longleftrightarrow> - (2 ^ 31) \<le> i \<and> i < 2 ^ 31"

text \<open>The relation between a table and the specification's state.\<close>

definition list_rel :: "list_entry hashtable \<Rightarrow> nat \<Rightarrow> (int \<Rightarrow> list_entry option) \<Rightarrow> bool" where
  "list_rel t n m \<longleftrightarrow> index_good t \<and> 0 < n \<and>
     (nNextFreeElement t = word_of_nat n \<or> nNextFreeElement t = 0 \<and> n = 1) \<and>
     (\<forall>i. handle i \<longrightarrow> index_view t (ulong_of_int i) = m i)"

lemma list_insert_rel:
  assumes rel: "list_rel t n m" and n: "n < 2 ^ 31"
  obtains t' where "php3_list_do_insert t p ty = Some (int n, t')" "m (int n) = None"
    "list_rel t' (Suc n) (m(int n := Some \<lparr>le_ptr = p, le_type = ty\<rparr>))"
proof -
  have good: "index_good t" and n0: "0 < n" using rel by (auto simp: list_rel_def)
  let ?i = "word_of_nat n :: ulong"
  have un: "unat ?i = n" using n by (simp add: unat_of_nat)
  have i: "?i = (if nNextFreeElement t = 0 then 1 else nNextFreeElement t)"
    using rel un n0 by (auto simp: list_rel_def)
  have "?i + 1 \<noteq> 0"
  proof
    assume "?i + 1 = 0"
    then have "unat (?i + 1) = 0" by simp
    moreover have "unat (?i + 1) = Suc n" using n by (simp add: unat_of_nat unat_word_ariths un)
    ultimately show False by simp
  qed
  from hash_index.store_fresh [OF good i this, of "\<lparr>le_ptr = p, le_type = ty\<rparr>"] obtain q t' where
    t': "php3_hash_index_update t ?i \<lparr>le_ptr = p, le_type = ty\<rparr> = Some (SUCCESS, q, t')" "index_good t'"
      "index_view t ?i = None" "index_view t' = (index_view t)(?i := Some \<lparr>le_ptr = p, le_type = ty\<rparr>)"
      "nNextFreeElement t' = ?i + 1" by blast
  have "int_of_ulong (nNextFreeElement t) = (if nNextFreeElement t = 0 then 0 else int n)"
    using rel int_of_ulong_small [OF n] int_of_ulong_small [of 0] by (auto simp: list_rel_def)
  then have idx: "(let index0 = int_of_ulong (php3_hash_next_free_element t) in if index0 = 0 then index0 + 1 else index0) = int n"
    using rel n0 un by (auto simp: php3_hash_next_free_element_def list_rel_def)
  have conv: "ulong_of_int (int n) = ?i" by (simp add: ulong_of_int_def)
  have h: "handle (int n)" using n by (simp add: handle_def)
  have "php3_list_do_insert t p ty = Some (int n, t')"
    using t'(1) idx conv by (simp add: php3_list_do_insert_def Let_def split: if_splits)
  moreover have "m (int n) = None" using rel h t'(3) conv by (metis list_rel_def)
  moreover have "list_rel t' (Suc n) (m(int n := Some \<lparr>le_ptr = p, le_type = ty\<rparr>))"
    unfolding list_rel_def
  proof (intro conjI allI impI)
    show "nNextFreeElement t' = word_of_nat (Suc n) \<or> nNextFreeElement t' = 0 \<and> Suc n = 1"
      using t'(5) by (simp add: add.commute)
    fix j assume j: "handle j"
    have "ulong_of_int j = ?i \<longleftrightarrow> j = int n"
      using ulong_of_int_inject [of j "int n"] j h conv by (simp add: handle_def)
    then show "index_view t' (ulong_of_int j) = (m(int n := Some \<lparr>le_ptr = p, le_type = ty\<rparr>)) j"
      using t'(4) rel j by (simp add: list_rel_def)
  qed (use t' in simp_all)
  ultimately show thesis by (rule that)
qed

lemma list_delete_rel:
  assumes rel: "list_rel t n m" and rid: "handle rid"
  obtains r t' where "php3_list_do_delete t rid = Some (r, t')" "list_rel t' n (m(rid := None))"
proof -
  have good: "index_good t" using rel by (simp add: list_rel_def)
  from hash_index.delete_law [OF good, of "ulong_of_int rid"] obtain r t' where
    t': "php3_hash_index_del t (ulong_of_int rid) = Some (r, t')" "index_good t'"
      "index_view t' = (index_view t)(ulong_of_int rid := None)" "nNextFreeElement t' = nNextFreeElement t" by blast
  have "ulong_of_int j = ulong_of_int rid \<longleftrightarrow> j = rid" if "handle j" for j
    using ulong_of_int_inject [of j rid] that rid by (simp add: handle_def)
  then have "list_rel t' n (m(rid := None))" using rel t' by (auto simp: list_rel_def)
  with t'(1) show thesis by (intro that) (simp_all add: php3_list_do_delete_def)
qed

lemma list_find_rel:
  "list_rel t n m \<Longrightarrow> handle rid \<Longrightarrow>
    php3_list_do_find t rid = Some (case m rid of Some le \<Rightarrow> (le_type le, le_ptr le) | None \<Rightarrow> (- 1, None))"
  using hash_index.find_law [of t "ulong_of_int rid"] by (simp add: php3_list_do_find_def list_rel_def)

lemma list_run_rel:
  "list_rel t n m \<Longrightarrow> n + length ops < 2 ^ 31 \<Longrightarrow> (\<And>rid. Delete rid \<in> set ops \<Longrightarrow> handle rid) \<Longrightarrow>
    \<exists>t' n'. list_run ops t = Some (fst (list_spec ops (int n) m), t') \<and> list_rel t' n' (snd (list_spec ops (int n) m))"
proof (induction ops arbitrary: t n m)
  case (Cons op ops)
  show ?case
  proof (cases op)
    case (Insert p ty)
    have "n < 2 ^ 31" using Cons.prems(2) by simp
    from list_insert_rel [OF Cons.prems(1) this] obtain t1 where
      t1: "php3_list_do_insert t p ty = Some (int n, t1)" "list_rel t1 (Suc n) (m(int n := Some \<lparr>le_ptr = p, le_type = ty\<rparr>))"
      by blast
    have prems: "Suc n + length ops < 2 ^ 31" "\<And>rid. Delete rid \<in> set ops \<Longrightarrow> handle rid"
      using Cons.prems(2,3) by simp_all
    from Cons.IH [OF t1(2) prems] obtain t' n' where
      "list_run ops t1 = Some (fst (list_spec ops (int (Suc n)) (m(int n := Some \<lparr>le_ptr = p, le_type = ty\<rparr>))), t')"
      "list_rel t' n' (snd (list_spec ops (int (Suc n)) (m(int n := Some \<lparr>le_ptr = p, le_type = ty\<rparr>))))" by blast
    then show ?thesis using Insert t1(1) by (auto simp: Let_def split_beta add.commute)
  next
    case (Delete rid)
    then have "handle rid" using Cons.prems(3) by simp
    from list_delete_rel [OF Cons.prems(1) this] obtain r t1 where
      t1: "php3_list_do_delete t rid = Some (r, t1)" "list_rel t1 n (m(rid := None))" by blast
    have prems: "n + length ops < 2 ^ 31" "\<And>rid. Delete rid \<in> set ops \<Longrightarrow> handle rid"
      using Cons.prems(2,3) by simp_all
    from Cons.IH [OF t1(2) prems] show ?thesis using Delete t1(1) by (simp del: fun_upd_apply)
  qed
qed auto

subsection \<open>The property\<close>

lemma init_list_rel:
  assumes "php3_hash_init n pf pd False [] = Some t"
  shows "list_rel t 1 (\<lambda>_. None)"
proof -
  obtain t' where t': "php3_hash_init n pf pd False [] = Some t'" "ht_inv t' []" "ht_abs t' [] = ([] :: (hkey \<times> list_entry) list)"
    "nNextFreeElement t' = 0" "persistent t' = False" by (rule init_ok [of "[]" n pf pd False]) auto
  have "mem_ok t'" using t'(5) by (simp add: mem_ok_def)
  moreover have "next_ok t' []" using t'(3) by (simp add: next_ok_def)
  ultimately have "list_rel t' 1 (\<lambda>_. None)"
    using t' by (auto simp: list_rel_def index_good_def index_view_abs)
  with t'(1) assms show ?thesis by simp
qed

text \<open>
  C15: Resource lists: from a fresh list, any sequence of insertions and deletions (fewer than
  \<open>2 ^ 31\<close> of them, of handles that are \<open>int\<close>s) gives the handles 1, 2, 3, ... in order, never a handle
  twice, also after deletions; and a lookup then returns the type and pointer stored under the handle,
  or -1 and \<open>NULL\<close> when it is deleted or was never given.
\<close>

theorem resource_list_refines:
  assumes "php3_hash_init n pf pd False [] = Some t" "length ops + 1 < 2 ^ 31"
    "\<forall>i. Delete i \<in> set ops \<longrightarrow> handle i" "handle rid"
  shows "\<exists>t'. list_run ops t = Some (fst (list_spec ops 1 (\<lambda>_. None)), t') \<and>
    php3_list_do_find t' rid =
      Some (case snd (list_spec ops 1 (\<lambda>_. None)) rid of Some le \<Rightarrow> (le_type le, le_ptr le) | None \<Rightarrow> (- 1, None))"
  using list_run_rel [OF init_list_rel [OF assms(1)], of ops] list_find_rel [OF _ assms(4)] assms(2,3) by force

theorem resource_list_refines_witness:
  "\<exists>t t'. list_run [Insert (Some 5) 7, Insert None 8, Delete 1, Insert (Some 6) 7] t = Some ([1, 2, 3], t') \<and>
    php3_list_do_find t' 3 = Some (7, Some 6)"
proof -
  obtain t :: "list_entry hashtable" where "php3_hash_init 0 None True False [] = Some t"
    by (rule init_ok [of "[]" 0 None True False]) auto
  moreover have "handle 1" "handle 3" by (simp_all add: handle_def)
  ultimately show ?thesis
    using resource_list_refines [of 0 None True t "[Insert (Some 5) 7, Insert None 8, Delete 1, Insert (Some 6) 7]" 3]
    by auto
qed

end
