(* ===== verification/Stack.thy ===== *)
theory Stack
  imports Base
begin

text \<open>
  The stack of \<^verbatim>\<open>php-src/stack.c\<close>, which the parser uses for its nesting: a block of element pointers
  that grows by \<open>STACK_BLOCK_SIZE\<close>. The interface \<open>lifo\<close> says what its users rely on; it is
  interpreted on the model at the end.

  \<open>elements\<close> is the allocated block; a slot is \<open>None\<close> when it was never written or its element has
  been freed. Operations are in the \<open>option\<close> monad, where \<open>None\<close> is a memory fault or the end of the
  process: \<open>emalloc\<close> and \<open>erealloc\<close> do not return \<open>NULL\<close> but exit, so the two \<open>FAILURE\<close> returns after an
  allocation are not reached. \<open>top\<close> and \<open>max\<close> are of type \<open>int\<close>; a \<open>max\<close> that has become negative asks
  \<open>erealloc\<close> for more than there is.
\<close>

subsection \<open>The model\<close>

definition STACK_BLOCK_SIZE :: int where
  "STACK_BLOCK_SIZE = 64"

record 'a stack =
  top :: int
  smax :: int
  elements :: "'a option list"

definition php3i_stack_init :: "int \<times> 'a stack" where
  "php3i_stack_init =
     (SUCCESS, \<lparr>top = 0, smax = STACK_BLOCK_SIZE, elements = replicate (nat STACK_BLOCK_SIZE) None\<rparr>)"

definition realloc_elements :: "int \<Rightarrow> 'a option list \<Rightarrow> 'a option list option" where
  "realloc_elements n es = (if n < 0 then None else Some (take (nat n) es @ replicate (nat n - length es) None))"

definition php3i_stack_push :: "'a stack \<Rightarrow> 'a \<Rightarrow> (int \<times> 'a stack) option" where
  "php3i_stack_push s e =
     do {
       s1 \<leftarrow> (if top s \<ge> smax s then do {
           let m = wrap_int (smax s + STACK_BLOCK_SIZE);
           es \<leftarrow> realloc_elements m (elements s);
           Some (s\<lparr>smax := m, elements := es\<rparr>) }
         else Some s);
       if 0 \<le> top s1 \<and> nat (top s1) < length (elements s1)
       then Some (top s1, s1\<lparr>elements := (elements s1)[nat (top s1) := Some e], top := wrap_int (top s1 + 1)\<rparr>)
       else None }"

definition php3i_stack_top :: "'a stack \<Rightarrow> (int \<times> 'a option) option" where
  "php3i_stack_top s =
     (if top s > 0 then
        if nat (top s - 1) < length (elements s) then Some (SUCCESS, elements s ! nat (top s - 1)) else None
      else Some (FAILURE, None))"

definition php3i_stack_del_top :: "'a stack \<Rightarrow> (int \<times> 'a stack) option" where
  "php3i_stack_del_top s =
     (if top s > 0 then
        if nat (top s - 1) < length (elements s) \<and> elements s ! nat (top s - 1) \<noteq> None
        then Some (SUCCESS, s\<lparr>top := top s - 1, elements := (elements s)[nat (top s - 1) := None]\<rparr>)
        else None
      else Some (SUCCESS, s))"

definition php3i_stack_int_top :: "int stack \<Rightarrow> int option" where
  "php3i_stack_int_top s =
     do { (r, e) \<leftarrow> php3i_stack_top s; if r = FAILURE then Some FAILURE else e }"

definition php3i_stack_is_empty :: "'a stack \<Rightarrow> int" where
  "php3i_stack_is_empty s = (if top s = 0 then 1 else 0)"

text \<open>The loop frees \<open>elements[i]\<close> for \<open>i < top\<close>, then the block.\<close>

fun destroy_elements :: "nat \<Rightarrow> nat \<Rightarrow> 'a option list \<Rightarrow> 'a option list option" where
  "destroy_elements i 0 es = Some es"
| "destroy_elements i (Suc n) es =
     (if i < length es \<and> es ! i \<noteq> None then destroy_elements (Suc i) n (es[i := None]) else None)"

definition php3i_stack_destroy :: "'a stack \<Rightarrow> (int \<times> 'a option list) option" where
  "php3i_stack_destroy s = do { es \<leftarrow> destroy_elements 0 (nat (top s)) (elements s); Some (SUCCESS, es) }"

subsection \<open>Invariant and abstraction\<close>

text \<open>Below \<open>top\<close> every slot holds an element, from \<open>top\<close> on none does.\<close>

definition stack_inv :: "'a stack \<Rightarrow> bool" where
  "stack_inv s \<longleftrightarrow> 0 \<le> top s \<and> top s \<le> smax s \<and> smax s < 2147483648 \<and> length (elements s) = nat (smax s) \<and>
     (\<forall>i < nat (smax s). elements s ! i \<noteq> None \<longleftrightarrow> int i < top s)"

definition stack_abs :: "'a stack \<Rightarrow> 'a list" where
  "stack_abs s = rev (map the (take (nat (top s)) (elements s)))"

text \<open>The number of elements up to which an \<open>int\<close> can count with blocks of 64.\<close>

definition stack_room :: nat where
  "stack_room = 2147483584"

lemma init_inv: "stack_inv (snd php3i_stack_init)" "stack_abs (snd php3i_stack_init) = []"
  by (simp_all add: php3i_stack_init_def stack_inv_def stack_abs_def STACK_BLOCK_SIZE_def)

lemma stack_length: "stack_inv s \<Longrightarrow> int (length (stack_abs s)) = top s"
  by (auto simp: stack_inv_def stack_abs_def min_def)

text \<open>Growing keeps what the stack holds, and there is a free slot after it.\<close>

lemma grow_ok:
  assumes inv: "stack_inv s" and full: "top s \<ge> smax s" and room: "length (stack_abs s) < stack_room"
  obtains es where "realloc_elements (wrap_int (smax s + STACK_BLOCK_SIZE)) (elements s) = Some es"
    "stack_inv (s\<lparr>smax := wrap_int (smax s + STACK_BLOCK_SIZE), elements := es\<rparr>)"
    "nat (top s) < length es" "take (nat (top s)) es = take (nat (top s)) (elements s)"
proof -
  have t: "0 \<le> top s" "top s = smax s" "length (elements s) = nat (smax s)" using inv full by (auto simp: stack_inv_def)
  have "top s < 2147483584" using room stack_length [OF inv] by (simp add: stack_room_def)
  then have m: "wrap_int (smax s + STACK_BLOCK_SIZE) = smax s + 64" "smax s + 64 < 2147483648"
    using t by (simp_all add: STACK_BLOCK_SIZE_def wrap_int_id)
  have nat: "nat (smax s + 64) = nat (smax s) + 64" using t by (simp add: nat_add_distrib)
  let ?es = "elements s @ replicate 64 None"
  have "realloc_elements (smax s + 64) (elements s) = Some ?es" using t by (simp add: realloc_elements_def nat)
  moreover have "stack_inv (s\<lparr>smax := smax s + 64, elements := ?es\<rparr>)"
    using inv t m(2) by (auto simp: stack_inv_def nat nth_append)
  ultimately show ?thesis using t by (intro that [of ?es]) (simp_all add: m(1))
qed

lemma stack_write_ok:
  assumes inv: "stack_inv s" and free: "nat (top s) < length (elements s)"
  shows "stack_inv (s\<lparr>elements := (elements s)[nat (top s) := Some e], top := wrap_int (top s + 1)\<rparr>)" (is "stack_inv ?s'")
    "stack_abs (s\<lparr>elements := (elements s)[nat (top s) := Some e], top := wrap_int (top s + 1)\<rparr>) = e # stack_abs s"
proof -
  have t: "0 \<le> top s" "top s < smax s" "smax s < 2147483648" using inv free by (auto simp: stack_inv_def)
  then have w: "wrap_int (top s + 1) = top s + 1" by (simp add: wrap_int_id)
  have n: "nat (top s + 1) = Suc (nat (top s))" using t by simp
  show "stack_inv ?s'" using inv t by (auto simp: stack_inv_def w nth_list_update)
  show "stack_abs ?s' = e # stack_abs s"
    using free by (simp add: stack_abs_def w n take_Suc_conv_app_nth take_update_cancel)
qed

lemma push_ok:
  assumes inv: "stack_inv s" and room: "length (stack_abs s) < stack_room"
  obtains s' where "php3i_stack_push s e = Some (int (length (stack_abs s)), s')" "stack_inv s'"
    "stack_abs s' = e # stack_abs s"
proof (cases "top s \<ge> smax s")
  case False
  have t: "0 \<le> top s" "nat (top s) < length (elements s)" using False inv by (auto simp: stack_inv_def)
  show ?thesis by (rule that [OF _ stack_write_ok [OF inv t(2), of e]]) (use False t stack_length [OF inv] in \<open>simp add: php3i_stack_push_def\<close>)
next
  case True
  obtain es where g: "realloc_elements (wrap_int (smax s + STACK_BLOCK_SIZE)) (elements s) = Some es"
    "stack_inv (s\<lparr>smax := wrap_int (smax s + STACK_BLOCK_SIZE), elements := es\<rparr>)" (is "stack_inv ?s")
    "nat (top s) < length es" "take (nat (top s)) es = take (nat (top s)) (elements s)" by (rule grow_ok [OF inv True room])
  have t: "0 \<le> top s" using inv by (simp add: stack_inv_def)
  have free: "nat (top ?s) < length (elements ?s)" and abs: "stack_abs ?s = stack_abs s" using g(3,4) by (simp_all add: stack_abs_def)
  show ?thesis
    by (rule that [OF _ stack_write_ok [OF g(2) free, of e, unfolded abs]])
      (use True g(1,3) t stack_length [OF inv] in \<open>simp add: php3i_stack_push_def Let_def\<close>)
qed

lemma top_ok:
  assumes "stack_inv s"
  shows "php3i_stack_top s =
    Some (case stack_abs s of [] \<Rightarrow> (FAILURE, None) | e # _ \<Rightarrow> (SUCCESS, Some e))"
proof (cases "nat (top s)")
  case 0
  then show ?thesis using assms by (simp add: php3i_stack_top_def stack_abs_def)
next
  case (Suc n)
  then have n: "nat (top s - 1) = n" "n < length (elements s)" "elements s ! n \<noteq> None" "top s > 0" using assms by (auto simp: stack_inv_def)
  then have "stack_abs s = the (elements s ! n) # rev (map the (take n (elements s)))"
    using Suc by (simp add: stack_abs_def take_Suc_conv_app_nth)
  with n show ?thesis by (simp add: php3i_stack_top_def)
qed

lemma del_top_ok:
  assumes "stack_inv s"
  obtains s' where "php3i_stack_del_top s = Some (SUCCESS, s')" "stack_inv s'"
    "stack_abs s' = tl (stack_abs s)"
proof (cases "nat (top s)")
  case 0
  then show ?thesis using assms that by (simp add: php3i_stack_del_top_def stack_abs_def)
next
  case (Suc n)
  let ?s' = "s\<lparr>top := top s - 1, elements := (elements s)[n := None]\<rparr>"
  from Suc have n: "nat (top s - 1) = n" "n < length (elements s)" "elements s ! n \<noteq> None" "top s > 0" "top s = int n + 1"
    using assms by (auto simp: stack_inv_def)
  have "php3i_stack_del_top s = Some (SUCCESS, ?s')" using n by (simp add: php3i_stack_del_top_def)
  moreover have "stack_inv ?s'" using assms n(2,5) unfolding stack_inv_def by (auto simp: nth_list_update)
  moreover have "stack_abs ?s' = tl (stack_abs s)"
    using n Suc by (simp add: stack_abs_def take_Suc_conv_app_nth take_update_cancel)
  ultimately show ?thesis by (rule that)
qed

lemma destroy_elements_ok:
  "(\<And>j. i \<le> j \<Longrightarrow> j < i + n \<Longrightarrow> j < length es \<and> es ! j \<noteq> None) \<Longrightarrow>
    \<exists>es'. destroy_elements i n es = Some es' \<and> length es' = length es \<and>
      (\<forall>j < length es. es' ! j = (if i \<le> j \<and> j < i + n then None else es ! j))"
proof (induction n arbitrary: i es)
  case (Suc n)
  have i: "i < length es" "es ! i \<noteq> None" using Suc.prems [of i] by auto
  have pre: "\<And>j. Suc i \<le> j \<Longrightarrow> j < Suc i + n \<Longrightarrow> j < length (es[i := None]) \<and> es[i := None] ! j \<noteq> None"
  proof -
    fix j assume "Suc i \<le> j" "j < Suc i + n"
    then show "j < length (es[i := None]) \<and> es[i := None] ! j \<noteq> None" using Suc.prems [of j] by auto
  qed
  have "\<exists>es'. destroy_elements (Suc i) n (es[i := None]) = Some es' \<and> length es' = length (es[i := None]) \<and>
      (\<forall>j < length (es[i := None]). es' ! j = (if Suc i \<le> j \<and> j < Suc i + n then None else es[i := None] ! j))"
    by (rule Suc.IH) (rule pre)
  then obtain es' where "destroy_elements (Suc i) n (es[i := None]) = Some es'"
    "length es' = length es"
    "\<forall>j < length es. es' ! j = (if Suc i \<le> j \<and> j < Suc i + n then None else es[i := None] ! j)" by auto
  with i show ?case by (auto simp: nth_list_update)
qed auto

lemma stack_destroy_ok:
  assumes "stack_inv s"
  shows "php3i_stack_destroy s = Some (SUCCESS, replicate (nat (smax s)) None)"
proof -
  have "j < length (elements s) \<and> elements s ! j \<noteq> None" if "0 \<le> j" "j < 0 + nat (top s)" for j
    using assms that by (auto simp: stack_inv_def)
  from destroy_elements_ok [OF this] obtain es where es: "destroy_elements 0 (nat (top s)) (elements s) = Some es"
    "length es = length (elements s)"
    "\<forall>j < length (elements s). es ! j = (if 0 \<le> j \<and> j < 0 + nat (top s) then None else elements s ! j)" by blast
  have "es = replicate (nat (smax s)) None"
    using es(2,3) assms by (intro nth_equalityI) (auto simp: stack_inv_def)
  with es(1) show ?thesis by (simp add: php3i_stack_destroy_def)
qed

subsection \<open>The interface\<close>

locale lifo =
  fixes good :: "'s \<Rightarrow> bool"
    and view :: "'s \<Rightarrow> 'a list"
    and push :: "'s \<Rightarrow> 'a \<Rightarrow> (int \<times> 's) option"
    and pop :: "'s \<Rightarrow> (int \<times> 's) option"
    and room :: nat
  assumes push_law: "good s \<Longrightarrow> length (view s) < room \<Longrightarrow> \<exists>r s'. push s e = Some (r, s') \<and> good s' \<and> view s' = e # view s"
    and pop_law: "good s \<Longrightarrow> \<exists>r s'. pop s = Some (r, s') \<and> good s' \<and> view s' = tl (view s)"

datatype 'a stack_op = Push 'a | Pop

fun stack_run ::
  "('s \<Rightarrow> 'a \<Rightarrow> (int \<times> 's) option) \<Rightarrow> ('s \<Rightarrow> (int \<times> 's) option) \<Rightarrow> 'a stack_op list \<Rightarrow> 's \<Rightarrow> 's option" where
  "stack_run push pop [] s = Some s"
| "stack_run push pop (Push e # ops) s = do { (r, s1) \<leftarrow> push s e; stack_run push pop ops s1 }"
| "stack_run push pop (Pop # ops) s = do { (r, s1) \<leftarrow> pop s; stack_run push pop ops s1 }"

fun stack_spec :: "'a stack_op list \<Rightarrow> 'a list \<Rightarrow> 'a list" where
  "stack_spec [] xs = xs"
| "stack_spec (Push e # ops) xs = stack_spec ops (e # xs)"
| "stack_spec (Pop # ops) xs = stack_spec ops (tl xs)"

context lifo
begin

lemma run_view: "good s \<Longrightarrow> length (view s) + length ops \<le> room \<Longrightarrow> \<exists>s'. stack_run push pop ops s = Some s' \<and> good s' \<and> view s' = stack_spec ops (view s)"
proof (induction ops arbitrary: s)
  case (Cons op ops)
  show ?case
  proof (cases op)
    case (Push e)
    have "length (view s) < room" using Cons.prems(2) by simp
    from push_law [OF Cons.prems(1) this, of e] obtain r s1 where "push s e = Some (r, s1)" "good s1" "view s1 = e # view s"
      by blast
    with Cons.IH [of s1] Cons.prems(2) Push show ?thesis by auto
  next
    case Pop
    from pop_law [OF Cons.prems(1)] obtain r s1 where "pop s = Some (r, s1)" "good s1" "view s1 = tl (view s)"
      by blast
    with Cons.IH [of s1] Cons.prems(2) Pop show ?thesis by auto
  qed
qed simp

text \<open>A block of code that pops exactly what it pushes leaves the stack as it was.\<close>

lemma nested_view:
  assumes "good s" "length (view s) + length ops \<le> room" "\<And>xs. stack_spec ops xs = xs"
  shows "\<exists>s'. stack_run push pop ops s = Some s' \<and> good s' \<and> view s' = view s"
  using run_view [OF assms(1,2)] assms(3) by simp

end

interpretation php_stack: lifo stack_inv stack_abs php3i_stack_push php3i_stack_del_top stack_room
proof
  fix s :: "'a stack" and e
  assume inv: "stack_inv s"
  show "\<exists>r s'. php3i_stack_push s e = Some (r, s') \<and> stack_inv s' \<and> stack_abs s' = e # stack_abs s"
    if "length (stack_abs s) < stack_room" using push_ok [OF inv that, of e] by metis
  show "\<exists>r s'. php3i_stack_del_top s = Some (r, s') \<and> stack_inv s' \<and> stack_abs s' = tl (stack_abs s)"
    using del_top_ok [OF inv] by metis
qed

subsection \<open>The property\<close>

text \<open>
  C16: The stack: from the initial stack any sequence of pushes and pops runs without touching memory
  outside the block, however often it grows, and ends in a stack that holds the list the operations
  give; its top, its emptiness test and its destruction (which frees every element once) agree with
  this list. As \<open>top\<close> and \<open>max\<close> are of type \<open>int\<close>, this is for up to 2147483584 operations.
\<close>

theorem stack_refines:
  "length ops \<le> 2147483584 \<Longrightarrow> \<exists>s. stack_run php3i_stack_push php3i_stack_del_top ops (snd php3i_stack_init) = Some s \<and>
    stack_abs s = stack_spec ops [] \<and>
    php3i_stack_top s = Some (case stack_spec ops [] of [] \<Rightarrow> (FAILURE, None) | e # _ \<Rightarrow> (SUCCESS, Some e)) \<and>
    (php3i_stack_is_empty s = 1) = (stack_spec ops [] = []) \<and>
    php3i_stack_destroy s = Some (SUCCESS, replicate (nat (smax s)) None)"
proof -
  assume "length ops \<le> 2147483584"
  then have room: "length (stack_abs (snd php3i_stack_init :: 'a stack)) + length ops \<le> stack_room"
    by (simp add: init_inv stack_room_def)
  obtain s where s: "stack_run php3i_stack_push php3i_stack_del_top ops (snd php3i_stack_init) = Some s"
    "stack_inv s" "stack_abs s = stack_spec ops []"
    using php_stack.run_view [OF init_inv(1) room, unfolded init_inv(2)] by blast
  have "int (length (stack_abs s)) = top s" by (rule stack_length [OF s(2)])
  then have "(php3i_stack_is_empty s = 1) = (stack_spec ops [] = [])"
    using s(3) by (auto simp: php3i_stack_is_empty_def)
  with s top_ok [OF s(2)] stack_destroy_ok [OF s(2)] show ?thesis by auto
qed

theorem stack_refines_witness:
  "\<exists>s. stack_run php3i_stack_push php3i_stack_del_top [Push 3, Push 5, Pop, Push (7 :: int)] (snd php3i_stack_init) = Some s \<and>
    stack_abs s = [7, 3] \<and> php3i_stack_top s = Some (SUCCESS, Some 7) \<and> (php3i_stack_is_empty s = 1) = False \<and>
    php3i_stack_destroy s = Some (SUCCESS, replicate (nat (smax s)) None)"
  using stack_refines [of "[Push 3, Push 5, Pop, Push (7 :: int)]"] by simp

end
