(* ===== verification/Linked.thy ===== *)
theory Linked
  imports Base
begin

text \<open>
  Doubly linked lists in a heap, whatever the type of their nodes: \<open>seg nx lp hp p prev as e\<close> says that
  following \<open>nx\<close> from \<open>p\<close> one meets the nodes \<open>as\<close> and arrives at \<open>e\<close>, and that every \<open>lp\<close> points back.
  The locale \<open>links\<close> is the interface of a node (two pointer fields with their updates); its lemmas say
  what putting a node in front of a list and taking one out do.
\<close>

primrec seg :: "('b \<Rightarrow> ptr) \<Rightarrow> ('b \<Rightarrow> ptr) \<Rightarrow> (addr \<Rightarrow> 'b option) \<Rightarrow> ptr \<Rightarrow> ptr \<Rightarrow> addr list \<Rightarrow> ptr \<Rightarrow> bool" where
  "seg nx lp hp p prev [] e \<longleftrightarrow> p = e"
| "seg nx lp hp p prev (a # as) e \<longleftrightarrow> p = Some a \<and>
     (\<exists>b. hp a = Some b \<and> lp b = prev \<and> seg nx lp hp (nx b) (Some a) as e)"

lemma seg_append:
  "seg nx lp hp p prev (xs @ ys) e \<longleftrightarrow> (\<exists>q. seg nx lp hp p prev xs q \<and> seg nx lp hp q (last_ptr prev xs) ys e)"
  by (induction xs arbitrary: p prev) auto

lemma seg_cong:
  assumes "\<And>a. a \<in> set as \<Longrightarrow> map_option (\<lambda>b. (nx b, lp b)) (hp a) = map_option (\<lambda>b. (nx b, lp b)) (hp' a)"
  shows "seg nx lp hp p prev as e = seg nx lp hp' p prev as e"
  using assms
proof (induction as arbitrary: p prev)
  case (Cons a as)
  from Cons.prems [of a]
  have "map_option (\<lambda>b. (nx b, lp b)) (hp a) = map_option (\<lambda>b. (nx b, lp b)) (hp' a)" by simp
  moreover have "\<And>q r. seg nx lp hp q r as e = seg nx lp hp' q r as e" using Cons by simp
  ultimately show ?case by (auto simp: map_option_case split: option.splits)
qed simp

lemma seg_upd [simp]: "a \<notin> set as \<Longrightarrow> seg nx lp (hp(a := x)) p prev as e = seg nx lp hp p prev as e"
  by (rule seg_cong) auto

lemma seg_upd_same:
  "hp a = Some b \<Longrightarrow> nx b' = nx b \<Longrightarrow> lp b' = lp b \<Longrightarrow>
    seg nx lp (hp(a \<mapsto> b')) p prev as e = seg nx lp hp p prev as e"
  by (rule seg_cong) auto

lemma seg_head: "seg nx lp hp p prev as e \<Longrightarrow> p = head_ptr as e"
  by (cases as) auto

lemma seg_dom: "seg nx lp hp p prev as e \<Longrightarrow> a \<in> set as \<Longrightarrow> hp a \<noteq> None"
  by (induction as arbitrary: p prev) auto

locale links =
  fixes nx lp :: "'b \<Rightarrow> ptr" and set_nx set_lp :: "ptr \<Rightarrow> 'b \<Rightarrow> 'b"
  assumes nx_set_nx: "nx (set_nx q b) = q" and lp_set_nx: "lp (set_nx q b) = lp b"
    and lp_set_lp: "lp (set_lp q b) = q" and nx_set_lp: "nx (set_lp q b) = nx b"
begin

lemmas fields = nx_set_nx lp_set_nx lp_set_lp nx_set_lp

lemma set_last_next:
  assumes "seg nx lp hp p prev (xs @ [l]) e" "distinct (xs @ [l])" "hp l = Some c"
  shows "seg nx lp (hp(l \<mapsto> set_nx q c)) p prev (xs @ [l]) q"
  using assms by (auto simp: seg_append fields)

lemma set_first_last:
  assumes "seg nx lp hp p prev (y # ys) e" "distinct (y # ys)" "hp y = Some c"
  shows "seg nx lp (hp(y \<mapsto> set_lp q c)) p q (y # ys) e"
  using assms by (auto simp: fields)

text \<open>A new node in front: its successor is the old head, whose back pointer is set.\<close>

lemma push:
  assumes "seg nx lp hp h None as None" "distinct as" "a \<notin> set as" "nx b = h" "lp b = None"
  shows "seg nx lp
    ((case h of None \<Rightarrow> hp | Some y \<Rightarrow> hp(y := map_option (set_lp (Some a)) (hp y)))(a \<mapsto> b)) (Some a) None (a # as) None"
proof (cases as)
  case Nil
  with assms show ?thesis by simp
next
  case (Cons y ys)
  then obtain c where c: "hp y = Some c" "h = Some y" using assms(1) by auto
  have "seg nx lp (hp(y \<mapsto> set_lp (Some a) c)) h (Some a) (y # ys) None"
    using assms(1,2) c by (intro set_first_last [where e = None]) (simp_all add: Cons)
  then show ?thesis using assms(3-5) c Cons by simp
qed

text \<open>Taking a node out: first the link to it is set, then the back pointer of the node after it.\<close>

lemma unlink:
  assumes seg: "seg nx lp hp h None (xs @ a # ys) None" and dist: "distinct (xs @ a # ys)" and b: "hp a = Some b"
  defines "hp1 \<equiv> (case lp b of None \<Rightarrow> hp | Some l \<Rightarrow> hp(l := map_option (set_nx (nx b)) (hp l)))"
  defines "hp2 \<equiv> (case nx b of None \<Rightarrow> hp1 | Some y \<Rightarrow> hp1(y := map_option (set_lp (lp b)) (hp1 y)))"
  shows "seg nx lp hp2 (if xs = [] then nx b else h) None (xs @ ys) None" and "hp2 a = Some b"
    and "h = Some a \<longleftrightarrow> xs = []" and "lp b = last_ptr None xs" and "nx b = head_ptr ys None"
proof -
  from seg b have q: "seg nx lp hp h None xs (Some a)" "lp b = last_ptr None xs" "seg nx lp hp (nx b) (Some a) ys None"
    by (auto simp: seg_append)
  then show lpb: "lp b = last_ptr None xs" and nxb: "nx b = head_ptr ys None" by (auto dest: seg_head)
  have "h = head_ptr xs (Some a)" using q(1) by (rule seg_head)
  then show "h = Some a \<longleftrightarrow> xs = []" using dist by (cases xs) auto
  have one: "seg nx lp hp1 (if xs = [] then nx b else h) None xs (nx b)" and same1: "\<forall>x. x \<notin> set xs \<longrightarrow> hp1 x = hp x"
  proof -
    show "seg nx lp hp1 (if xs = [] then nx b else h) None xs (nx b)"
    proof (cases xs rule: rev_cases)
      case (snoc zs l)
      then obtain c where c: "hp l = Some c" using q(1) by (auto simp: seg_append)
      from set_last_next [OF q(1) [unfolded snoc] _ c] dist show ?thesis
        by (simp add: hp1_def lpb snoc c)
    qed simp
    show "\<forall>x. x \<notin> set xs \<longrightarrow> hp1 x = hp x"
      by (cases xs rule: rev_cases) (auto simp: hp1_def lpb)
  qed
  have two: "seg nx lp hp1 (nx b) (Some a) ys None"
    using q(3) same1 dist by (subst seg_cong [of ys _ _ hp1 hp]) auto
  have three: "seg nx lp hp2 (nx b) (last_ptr None xs) ys None"
  proof (cases ys)
    case (Cons y zs)
    then obtain c where c: "hp1 y = Some c" using two by auto
    from set_first_last [OF two [unfolded Cons] _ c] dist show ?thesis
      by (simp add: hp2_def nxb Cons c lpb)
  qed (use two in \<open>simp add: hp2_def nxb\<close>)
  have same2: "\<forall>x. x \<notin> set ys \<longrightarrow> hp2 x = hp1 x"
    by (cases ys) (auto simp: hp2_def nxb)
  have "seg nx lp hp2 (if xs = [] then nx b else h) None xs (nx b)"
    using one same2 dist by (subst seg_cong [of xs _ _ hp2 hp1]) auto
  with three show "seg nx lp hp2 (if xs = [] then nx b else h) None (xs @ ys) None"
    by (auto simp: seg_append)
  show "hp2 a = Some b" using same1 same2 dist b by simp
qed

end

end
