(* ===== verification/Alloc.thy ===== *)
theory Alloc
  imports Linked "HOL-Library.Multiset"
begin

text \<open>
  The memory manager of \<^verbatim>\<open>php-src/alloc.c\<close>, with \<open>DEBUG\<close> and \<open>MEMORY_LIMIT\<close> 0. Every block of
  \<open>emalloc\<close> starts with a \<open>mem_header\<close> that links it into one list, so that
  \<open>shutdown_memory_manager\<close> can free what a request has left; small blocks that are freed go to a
  cache instead. A block's header and its bytes are one node of the heap, at the address the caller
  gets. A byte that was never written is \<open>None\<close>.

  In this repository \<open>_emalloc\<close> replaces the size it is given by \<open>MAX_STRING_VAL_LEN * 8\<close>, so that the
  symbolic executor sees blocks of one size: every block has 800 bytes, whatever was asked for.

  \<open>None\<close> is a memory fault: a pointer to no block, a write outside a block, a second \<open>free\<close>. \<open>Exit_1\<close> is
  the end of the process when \<open>malloc\<close> or \<open>realloc\<close> fails, which the list \<open>oks\<close> decides; both return
  addresses that were never used before. \<open>mem_rel m L\<close> says that the state \<open>m\<close> is well formed and that
  \<open>L\<close> maps the live blocks to their bytes; \<open>reach\<close> are the states a client gets to that frees and
  reallocates live blocks only and writes inside them.
\<close>

subsection \<open>The state\<close>

definition MAX_CACHED_MEMORY :: nat where "MAX_CACHED_MEMORY = 64"
definition MAX_CACHED_ENTRIES :: nat where "MAX_CACHED_ENTRIES = 16"

record mem_header =
  mh_next :: ptr
  mh_last :: ptr
  mh_size :: int
  mh_bytes :: "char option list"

record memory =
  blocks :: "addr \<Rightarrow> mem_header option"
  mhead :: ptr
  cache :: "ptr list list"
  cache_count :: "nat list"
  next_addr :: addr
  oks :: "bool list"
  started :: bool

datatype 'a outcome = Return 'a | Exit_1

subsection \<open>The C library\<close>

definition sys_malloc :: "memory \<Rightarrow> bool \<times> memory" where
  "sys_malloc m = (case oks m of [] \<Rightarrow> (True, m) | ok # rest \<Rightarrow> (ok, m\<lparr>oks := rest\<rparr>))"

definition sys_free :: "memory \<Rightarrow> addr \<Rightarrow> memory option" where
  "sys_free m p = (if blocks m p = None then None else Some (m\<lparr>blocks := (blocks m)(p := None)\<rparr>))"

definition set_block ::
  "(addr \<Rightarrow> mem_header option) \<Rightarrow> addr \<Rightarrow> (mem_header \<Rightarrow> mem_header) \<Rightarrow> (addr \<Rightarrow> mem_header option) option" where
  "set_block hp p f = do { b \<leftarrow> hp p; Some (hp(p \<mapsto> f b)) }"

definition write_bytes :: "memory \<Rightarrow> addr \<Rightarrow> nat \<Rightarrow> char list \<Rightarrow> memory option" where
  "write_bytes m p i cs =
     do {
       b \<leftarrow> blocks m p;
       if i + length cs \<le> length (mh_bytes b)
       then Some (m\<lparr>blocks := (blocks m)(p \<mapsto> b\<lparr>mh_bytes :=
              take i (mh_bytes b) @ map Some cs @ drop (i + length cs) (mh_bytes b)\<rparr>)\<rparr>)
       else None }"

subsection \<open>The list of blocks\<close>

definition remove_pointer_from_list :: "memory \<Rightarrow> addr \<Rightarrow> memory option" where
  "remove_pointer_from_list m p =
     do {
       b \<leftarrow> blocks m p;
       m1 \<leftarrow> (if mhead m = Some p then Some (m\<lparr>mhead := mh_next b\<rparr>)
              else case mh_last b of
                None \<Rightarrow> None
              | Some l \<Rightarrow> do {
                  hp \<leftarrow> set_block (blocks m) l (\<lambda>c. c\<lparr>mh_next := mh_next b\<rparr>);
                  Some (m\<lparr>blocks := hp\<rparr>) });
       b1 \<leftarrow> blocks m1 p;
       (case mh_next b1 of
          None \<Rightarrow> Some m1
        | Some n \<Rightarrow> do {
            hp \<leftarrow> set_block (blocks m1) n (\<lambda>c. c\<lparr>mh_last := mh_last b1\<rparr>);
            Some (m1\<lparr>blocks := hp\<rparr>) }) }"

text \<open>A block put at the head of the list.\<close>

definition link_block :: "memory \<Rightarrow> addr \<Rightarrow> int \<Rightarrow> char option list \<Rightarrow> memory option" where
  "link_block m p sz bytes =
     do {
       hp \<leftarrow> (case mhead m of
                None \<Rightarrow> Some (blocks m)
              | Some h \<Rightarrow> set_block (blocks m) h (\<lambda>c. c\<lparr>mh_last := Some p\<rparr>));
       Some (m\<lparr>blocks := hp(p \<mapsto> \<lparr>mh_next = mhead m, mh_last = None, mh_size = sz, mh_bytes = bytes\<rparr>),
               mhead := Some p\<rparr>) }"

subsection \<open>The operations\<close>

definition emalloc :: "memory \<Rightarrow> nat \<Rightarrow> (addr outcome \<times> memory) option" where
  "emalloc m requested =
     (let sz = MAX_STRING_VAL_LEN * 8 in
      if sz < MAX_CACHED_MEMORY \<and> cache_count m ! sz > 0
      then (let c = cache_count m ! sz - 1 in
            case cache m ! sz ! c of
              None \<Rightarrow> None
            | Some p \<Rightarrow> Some (Return p, m\<lparr>cache_count := (cache_count m)[sz := c]\<rparr>))
      else
        (let (ok, m1) = sys_malloc m in
         if \<not> ok then Some (Exit_1, m1)
         else do {
           m2 \<leftarrow> link_block (m1\<lparr>next_addr := Suc (next_addr m1)\<rparr>) (next_addr m1) (int sz) (replicate sz None);
           Some (Return (next_addr m1), m2) }))"

definition efree :: "memory \<Rightarrow> addr \<Rightarrow> memory option" where
  "efree m p =
     do {
       b \<leftarrow> blocks m p;
       (if mh_size b < 0 then None
        else
          let s = nat (mh_size b) in
          if s < MAX_CACHED_MEMORY \<and> cache_count m ! s < MAX_CACHED_ENTRIES
          then Some (m\<lparr>cache := (cache m)[s := (cache m ! s)[cache_count m ! s := Some p]],
                       cache_count := (cache_count m)[s := Suc (cache_count m ! s)]\<rparr>)
          else do { m1 \<leftarrow> remove_pointer_from_list m p; sys_free m1 p }) }"

definition resize_bytes :: "nat \<Rightarrow> char option list \<Rightarrow> char option list" where
  "resize_bytes n bs = take n bs @ replicate (n - length bs) None"

definition erealloc :: "memory \<Rightarrow> ptr \<Rightarrow> nat \<Rightarrow> (addr outcome \<times> memory) option" where
  "erealloc m ptr sz =
     (case ptr of
        None \<Rightarrow> emalloc m sz
      | Some p \<Rightarrow> do {
          m1 \<leftarrow> remove_pointer_from_list m p;
          b \<leftarrow> blocks m1 p;
          let (ok, m2) = sys_malloc m1;
          (if \<not> ok then Some (Exit_1, m2)
           else do {
             m3 \<leftarrow> link_block (m2\<lparr>blocks := (blocks m2)(p := None), next_addr := Suc (next_addr m2)\<rparr>) (next_addr m2)
                     (wrap_int (int sz)) (resize_bytes sz (mh_bytes b));
             Some (Return (next_addr m2), m3) }) })"

text \<open>\<open>final_size\<close> is an \<open>int\<close>; a negative one is a huge \<open>size_t\<close> for \<open>memset\<close>.\<close>

definition ecalloc :: "memory \<Rightarrow> nat \<Rightarrow> nat \<Rightarrow> (addr outcome \<times> memory) option" where
  "ecalloc m nmemb sz =
     (let final_size = wrap_int (int (sz * nmemb)) in
      do {
        (r, m1) \<leftarrow> emalloc m (nat (final_size mod 2 ^ 64));
        (case r of
           Exit_1 \<Rightarrow> Some (Exit_1, m1)
         | Return p \<Rightarrow>
             if final_size < 0 then None
             else do { m2 \<leftarrow> write_bytes m1 p 0 (replicate (nat final_size) NUL); Some (Return p, m2) }) })"

text \<open>\<open>s\<close> is followed by a NUL; the string is what is before the first one (\<open>strlen\<close>).\<close>

definition estrdup :: "memory \<Rightarrow> char list \<Rightarrow> (addr outcome \<times> memory) option" where
  "estrdup m s =
     (let len = wrap_int (int (length (cstr s)) + 1) in
      do {
        (r, m1) \<leftarrow> emalloc m (nat (len mod 2 ^ 64));
        (case r of
           Exit_1 \<Rightarrow> Some (Exit_1, m1)
         | Return p \<Rightarrow>
             if len < 0 then None
             else do { m2 \<leftarrow> write_bytes m1 p 0 (take (nat len) (s @ [NUL])); Some (Return p, m2) }) })"

text \<open>\<open>s\<close> are the bytes that can be read at the source; \<open>len\<close> is a \<open>uint\<close>.\<close>

definition estrndup :: "memory \<Rightarrow> char list \<Rightarrow> nat \<Rightarrow> (addr outcome \<times> memory) option" where
  "estrndup m s len =
     do {
       (r, m1) \<leftarrow> emalloc m ((len + 1) mod 2 ^ 32);
       (case r of
          Exit_1 \<Rightarrow> Some (Exit_1, m1)
        | Return p \<Rightarrow>
            if len > length s then None
            else do {
              m2 \<leftarrow> write_bytes m1 p 0 (take len s);
              m3 \<leftarrow> write_bytes m2 p len [NUL];
              Some (Return p, m3) }) }"

text \<open>\<open>php3_strndup\<close> takes its block from \<open>malloc\<close>: the bytes of the block, or \<open>NULL\<close>.\<close>

definition php3_strndup :: "bool \<Rightarrow> char list \<Rightarrow> nat \<Rightarrow> char list option option" where
  "php3_strndup ok s len =
     (if \<not> ok then Some None
      else if len \<le> length s \<and> len < (len + 1) mod 2 ^ 32 then Some (Some (take len s @ [NUL])) else None)"

definition start_memory_manager :: "memory \<Rightarrow> memory" where
  "start_memory_manager m =
     m\<lparr>mhead := None, cache_count := replicate MAX_CACHED_MEMORY 0, started := True\<rparr>"

text \<open>The entries the two loops of the shutdown visit, the body of the inner one, and the last loop.\<close>

definition cached_entries :: "memory \<Rightarrow> ptr list" where
  "cached_entries m = concat (map (\<lambda>i. take (cache_count m ! i) (cache m ! i)) [0..<MAX_CACHED_MEMORY])"

fun drain_cache :: "ptr list \<Rightarrow> memory \<Rightarrow> memory option" where
  "drain_cache [] m = Some m"
| "drain_cache (None # ps) m = None"
| "drain_cache (Some p # ps) m =
     do { m1 \<leftarrow> remove_pointer_from_list m p; m2 \<leftarrow> sys_free m1 p; drain_cache ps m2 }"

partial_function (option) release_all :: "memory \<Rightarrow> ptr \<Rightarrow> memory option" where
  "release_all m t =
     (case t of
        None \<Rightarrow> Some m
      | Some p \<Rightarrow> do { b \<leftarrow> blocks m p; m1 \<leftarrow> sys_free m p; release_all m1 (mh_next b) })"

definition shutdown_memory_manager :: "memory \<Rightarrow> memory option" where
  "shutdown_memory_manager m =
     do {
       m1 \<leftarrow> drain_cache (cached_entries m) m;
       m2 \<leftarrow> release_all m1 (mhead m1);
       Some (m2\<lparr>started := False\<rparr>) }"

subsection \<open>The invariant\<close>

interpretation mem_links: links mh_next mh_last "\<lambda>q. mh_next_update (\<lambda>_. q)" "\<lambda>q. mh_last_update (\<lambda>_. q)"
  by unfold_locales simp_all

definition list_inv :: "memory \<Rightarrow> addr list \<Rightarrow> bool" where
  "list_inv m bs \<longleftrightarrow> seg mh_next mh_last (blocks m) (mhead m) None bs None \<and> distinct bs \<and>
     dom (blocks m) = set bs \<and> (\<forall>a \<in> set bs. a < next_addr m)"

definition sizes_ok :: "memory \<Rightarrow> bool" where
  "sizes_ok m \<longleftrightarrow> (\<forall>a b. blocks m a = Some b \<longrightarrow> 0 \<le> mh_size b \<and> length (mh_bytes b) = nat (mh_size b))"

definition cache_shape :: "memory \<Rightarrow> bool" where
  "cache_shape m \<longleftrightarrow> length (cache m) = MAX_CACHED_MEMORY \<and> length (cache_count m) = MAX_CACHED_MEMORY \<and>
     (\<forall>i < MAX_CACHED_MEMORY. length (cache m ! i) = MAX_CACHED_ENTRIES \<and> cache_count m ! i \<le> MAX_CACHED_ENTRIES)"

definition cache_ok :: "memory \<Rightarrow> bool" where
  "cache_ok m \<longleftrightarrow> cache_shape m \<and> distinct (cached_entries m) \<and>
     (\<forall>q \<in> set (cached_entries m). \<exists>a b. q = Some a \<and> blocks m a = Some b)"

definition live :: "memory \<Rightarrow> addr \<Rightarrow> char option list option" where
  "live m a = (if Some a \<in> set (cached_entries m) then None else map_option mh_bytes (blocks m a))"

definition mem_rel :: "memory \<Rightarrow> (addr \<Rightarrow> char option list option) \<Rightarrow> bool" where
  "mem_rel m L \<longleftrightarrow> (\<exists>bs. list_inv m bs) \<and> sizes_ok m \<and> cache_ok m \<and> L = live m"

text \<open>What a block holds beside its links.\<close>

definition payload :: "mem_header \<Rightarrow> int \<times> char option list" where
  "payload b = (mh_size b, mh_bytes b)"

definition payloads :: "(addr \<Rightarrow> mem_header option) \<Rightarrow> addr \<Rightarrow> (int \<times> char option list) option" where
  "payloads hp a = map_option payload (hp a)"

lemma payloads_links [simp]:
  "hp n = Some b \<Longrightarrow> payloads (hp(n \<mapsto> b\<lparr>mh_next := q\<rparr>)) = payloads hp"
  "hp n = Some b \<Longrightarrow> payloads (hp(n \<mapsto> b\<lparr>mh_last := q\<rparr>)) = payloads hp"
  by (auto simp: payloads_def payload_def)

lemma payloads_upd: "payloads (hp(n := x)) = (payloads hp)(n := map_option payload x)"
  by (auto simp: payloads_def)

lemma dom_payloads [simp]: "dom (payloads hp) = dom hp"
  by (auto simp: payloads_def dom_def)

lemma payloads_dom: "payloads hp = payloads hp' \<Longrightarrow> dom hp = dom hp'"
  by (metis dom_payloads)

lemma payloads_bytes: "payloads hp = payloads hp' \<Longrightarrow> map_option mh_bytes (hp a) = map_option mh_bytes (hp' a)"
  unfolding payloads_def payload_def by (drule fun_cong [of _ _ a]) (auto simp: map_option_case split: option.splits)

lemma cached_entries_cong:
  "cache m' = cache m \<Longrightarrow> cache_count m' = cache_count m \<Longrightarrow> cached_entries m' = cached_entries m"
  by (simp add: cached_entries_def)

lemma sizes_ok_alt:
  "sizes_ok m \<longleftrightarrow> (\<forall>a n bs. payloads (blocks m) a = Some (n, bs) \<longrightarrow> 0 \<le> n \<and> length bs = nat n)"
  unfolding sizes_ok_def payloads_def payload_def by (auto simp: map_option_case split: option.splits)

lemma live_alt:
  "live m a = (if Some a \<in> set (cached_entries m) then None else map_option snd (payloads (blocks m) a))"
  by (simp add: live_def payloads_def payload_def option.map_comp comp_def)

lemma cache_ok_alt:
  "cache_ok m \<longleftrightarrow> cache_shape m \<and> distinct (cached_entries m) \<and> set (cached_entries m) \<subseteq> Some ` dom (blocks m)"
  unfolding cache_ok_def by (auto simp: dom_def image_iff)

subsection \<open>The list operations\<close>

lemma remove_ok:
  assumes "list_inv m bs" "blocks m p = Some b"
  obtains hp h b' where "remove_pointer_from_list m p = Some (m\<lparr>blocks := hp, mhead := h\<rparr>)"
    "seg mh_next mh_last hp h None (remove1 p bs) None" "payloads hp = payloads (blocks m)" "hp p = Some b'"
proof -
  have "p \<in> set bs" using assms by (auto simp: list_inv_def dom_def)
  then obtain xs ys where bs: "bs = xs @ p # ys" by (auto simp: in_set_conv_decomp)
  have sg: "seg mh_next mh_last (blocks m) (mhead m) None (xs @ p # ys) None" and di: "distinct (xs @ p # ys)"
    using assms(1) by (simp_all add: list_inv_def bs)
  define hp1 where "hp1 = (case mh_last b of None \<Rightarrow> blocks m
    | Some l \<Rightarrow> (blocks m)(l := map_option (mh_next_update (\<lambda>_. mh_next b)) (blocks m l)))"
  define hp2 where "hp2 = (case mh_next b of None \<Rightarrow> hp1
    | Some n \<Rightarrow> hp1(n := map_option (mh_last_update (\<lambda>_. mh_last b)) (hp1 n)))"
  note u = mem_links.unlink [OF sg di assms(2), folded hp1_def, folded hp2_def]
  let ?h = "if xs = [] then mh_next b else mhead m"
  have lives: "x \<in> set bs \<Longrightarrow> \<exists>c. blocks m x = Some c" for x using assms(1) by (auto simp: list_inv_def dom_def)
  have hp1p: "hp1 p = Some b"
  proof (cases "mh_last b")
    case (Some l)
    then have "l \<in> set xs" using u(4) by (cases xs rule: rev_cases) auto
    then show ?thesis using di Some assms(2) by (auto simp: hp1_def)
  qed (simp add: hp1_def assms(2))
  have p1: "payloads hp1 = payloads (blocks m)"
  proof (cases "mh_last b")
    case (Some l)
    then have "l \<in> set xs" using u(4) by (cases xs rule: rev_cases) auto
    with lives [of l] Some show ?thesis by (auto simp: hp1_def bs)
  qed (simp add: hp1_def)
  have first: "(if mhead m = Some p then Some (m\<lparr>mhead := mh_next b\<rparr>)
      else case mh_last b of None \<Rightarrow> None | Some l \<Rightarrow> do {
        hp \<leftarrow> set_block (blocks m) l (\<lambda>c. c\<lparr>mh_next := mh_next b\<rparr>); Some (m\<lparr>blocks := hp\<rparr>) }) =
      Some (m\<lparr>blocks := hp1, mhead := ?h\<rparr>)"
  proof (cases xs rule: rev_cases)
    case (snoc zs l)
    with lives [of l] obtain c where "blocks m l = Some c" by (auto simp: bs)
    then show ?thesis using u(3,4) snoc by (simp add: hp1_def set_block_def)
  qed (use u(3,4) in \<open>simp add: hp1_def\<close>)
  have nx: "mh_next b = Some n \<Longrightarrow> \<exists>c. hp1 n = Some c" for n
    using u(5) lives [of n] payloads_dom [OF p1] by (cases ys) (auto simp: bs dom_def)
  have "payloads hp2 = payloads hp1" using nx by (cases "mh_next b") (auto simp: hp2_def)
  moreover have "remove_pointer_from_list m p = Some (m\<lparr>blocks := hp2, mhead := ?h\<rparr>)"
    unfolding remove_pointer_from_list_def
    using first hp1p assms(2) nx by (cases "mh_next b") (auto simp: hp2_def set_block_def)
  moreover have "remove1 p bs = xs @ ys" using di by (simp add: bs remove1_append)
  ultimately show ?thesis using u(1,2) p1 by (intro that [where hp = hp2 and h = ?h and b' = b]) simp_all
qed

lemma remove_inv:
  assumes "list_inv m bs" "blocks m p = Some b"
  obtains m1 b' where "remove_pointer_from_list m p = Some m1" "blocks m1 p = Some b'"
    "payloads (blocks m1) = payloads (blocks m)"
    "list_inv (m1\<lparr>blocks := (blocks m1)(p := None)\<rparr>) (remove1 p bs)"
    "cache m1 = cache m" "cache_count m1 = cache_count m" "oks m1 = oks m" "next_addr m1 = next_addr m"
proof -
  obtain hp h b' where r: "remove_pointer_from_list m p = Some (m\<lparr>blocks := hp, mhead := h\<rparr>)"
    "seg mh_next mh_last hp h None (remove1 p bs) None" "payloads hp = payloads (blocks m)" "hp p = Some b'"
    using remove_ok [OF assms] by blast
  have "list_inv (m\<lparr>mhead := h, blocks := hp(p := None)\<rparr>) (remove1 p bs)"
    using assms r(2) payloads_dom [OF r(3)] by (auto simp: list_inv_def dest: notin_set_remove1)
  with r show ?thesis by (intro that [of "m\<lparr>blocks := hp, mhead := h\<rparr>" b']) simp_all
qed

lemma link_ok:
  assumes "list_inv m bs" "blocks m p = None" "p < next_addr m"
  obtains hp where "link_block m p n bytes = Some (m\<lparr>blocks := hp, mhead := Some p\<rparr>)"
    "list_inv (m\<lparr>blocks := hp, mhead := Some p\<rparr>) (p # bs)"
    "payloads hp = (payloads (blocks m))(p \<mapsto> (n, bytes))"
proof -
  let ?b = "\<lparr>mh_next = mhead m, mh_last = None, mh_size = n, mh_bytes = bytes\<rparr>"
  let ?hp = "case mhead m of None \<Rightarrow> blocks m
    | Some y \<Rightarrow> (blocks m)(y := map_option (mh_last_update (\<lambda>_. Some p)) (blocks m y))"
  have i: "seg mh_next mh_last (blocks m) (mhead m) None bs None" "distinct bs" "dom (blocks m) = set bs"
    using assms(1) by (auto simp: list_inv_def)
  then have nb: "p \<notin> set bs" using assms(2) by auto
  have hd: "mhead m = Some y \<Longrightarrow> \<exists>c. blocks m y = Some c" for y
    using seg_head [OF i(1)] i(3) by (cases bs) (auto simp: dom_def)
  have pl: "payloads ?hp = payloads (blocks m)" using hd by (cases "mhead m") auto
  have dm: "dom ?hp = set bs" using payloads_dom [OF pl] i(3) by simp
  have "link_block m p n bytes = Some (m\<lparr>blocks := ?hp(p \<mapsto> ?b), mhead := Some p\<rparr>)"
    using hd by (cases "mhead m") (auto simp: link_block_def set_block_def)
  moreover have "list_inv (m\<lparr>blocks := ?hp(p \<mapsto> ?b), mhead := Some p\<rparr>) (p # bs)"
    using mem_links.push [OF i(1,2) nb, of ?b] nb assms(1,3) i(2) dm unfolding list_inv_def by simp
  moreover have "payloads (?hp(p \<mapsto> ?b)) = (payloads (blocks m))(p \<mapsto> (n, bytes))"
    unfolding payloads_upd pl by (simp add: payload_def)
  ultimately show ?thesis by (rule that)
qed


subsection \<open>The operations keep the invariant\<close>

lemma fresh_block: "list_inv m bs \<Longrightarrow> blocks m (next_addr m) = None"
  by (auto simp: list_inv_def dom_def)

lemma live_fresh: "blocks m p = None \<Longrightarrow> cache_ok m \<Longrightarrow> live m p = None \<and> Some p \<notin> set (cached_entries m)"
  by (auto simp: live_def cache_ok_def)

lemma sys_malloc_fields:
  "sys_malloc m = (ok, m1) \<Longrightarrow> blocks m1 = blocks m \<and> mhead m1 = mhead m \<and> cache m1 = cache m \<and>
     cache_count m1 = cache_count m \<and> next_addr m1 = next_addr m"
  by (auto simp: sys_malloc_def split: list.splits)

text \<open>A new block at a fresh address, as \<open>emalloc\<close> and \<open>erealloc\<close> make it.\<close>

lemma new_block:
  assumes "list_inv m bs" "sizes_ok m" "cache_ok m" "n \<ge> 0" "length bytes = nat n"
  obtains m' where
    "link_block (m\<lparr>next_addr := Suc (next_addr m)\<rparr>) (next_addr m) n bytes = Some m'"
    "mem_rel m' ((live m)(next_addr m \<mapsto> bytes))"
proof -
  let ?p = "next_addr m" and ?m = "m\<lparr>next_addr := Suc (next_addr m)\<rparr>"
  have "list_inv ?m bs" using assms(1) by (auto simp: list_inv_def)
  moreover have fr: "blocks m ?p = None" by (rule fresh_block [OF assms(1)])
  ultimately obtain hp where hp: "link_block ?m ?p n bytes = Some (?m\<lparr>blocks := hp, mhead := Some ?p\<rparr>)"
    "list_inv (?m\<lparr>blocks := hp, mhead := Some ?p\<rparr>) (?p # bs)" "payloads hp = (payloads (blocks m))(?p \<mapsto> (n, bytes))"
    using link_ok [of ?m bs ?p n bytes] by auto
  let ?m' = "?m\<lparr>blocks := hp, mhead := Some ?p\<rparr>"
  have ce: "cached_entries ?m' = cached_entries m" by (rule cached_entries_cong) simp_all
  have "dom hp = insert ?p (dom (blocks m))"
    using arg_cong [OF hp(3), of dom] by simp
  then have "cache_ok ?m'" using assms(3) ce unfolding cache_ok_alt by (auto simp: cache_shape_def)
  moreover have "sizes_ok ?m'" using assms(2,4,5) unfolding sizes_ok_alt by (simp add: hp(3))
  moreover have "(live m)(?p \<mapsto> bytes) = live ?m'"
    using live_fresh [OF fr assms(3)] ce by (auto simp: live_alt hp(3))
  ultimately have "mem_rel ?m' ((live m)(?p \<mapsto> bytes))" using hp(2) unfolding mem_rel_def by metis
  with hp(1) show ?thesis by (rule that)
qed

lemma mem_relE:
  assumes "mem_rel m L"
  obtains bs where "list_inv m bs" "sizes_ok m" "cache_ok m" "L = live m"
  using assms by (auto simp: mem_rel_def)

lemma mem_rel_cong:
  assumes "mem_rel m L" "blocks m1 = blocks m" "mhead m1 = mhead m" "cache m1 = cache m"
    "cache_count m1 = cache_count m" "next_addr m1 = next_addr m"
  shows "mem_rel m1 L"
proof -
  have ce: "cached_entries m1 = cached_entries m" using assms by (intro cached_entries_cong) simp_all
  then have "live m1 = live m" using assms(2) by (simp add: live_def fun_eq_iff)
  moreover have "list_inv m1 = list_inv m" using assms by (intro ext) (simp add: list_inv_def)
  ultimately show ?thesis
    using assms ce by (simp add: mem_rel_def sizes_ok_def cache_ok_def cache_shape_def)
qed

lemma emalloc_ok:
  assumes "mem_rel m L"
  shows "(\<exists>m'. emalloc m n = Some (Exit_1, m')) \<or>
    (\<exists>p m'. emalloc m n = Some (Return p, m') \<and> L p = None \<and> mem_rel m' (L(p \<mapsto> replicate 800 None)))"
proof -
  obtain ok m1 where ok: "sys_malloc m = (ok, m1)" by fastforce
  note f = sys_malloc_fields [OF ok]
  have "mem_rel m1 L" using f by (intro mem_rel_cong [OF assms]) auto
  then obtain bs where i: "list_inv m1 bs" "sizes_ok m1" "cache_ok m1" "L = live m1" by (rule mem_relE)
  obtain m' where m': "link_block (m1\<lparr>next_addr := Suc (next_addr m1)\<rparr>) (next_addr m1) 800 (replicate 800 None) = Some m'"
    "mem_rel m' ((live m1)(next_addr m1 \<mapsto> replicate 800 None))"
    by (rule new_block [OF i(1-3), of 800 "replicate 800 None"]) simp_all
  have "L (next_addr m1) = None" using live_fresh [OF fresh_block [OF i(1)] i(3)] i(4) by simp
  with m' i(4) ok show ?thesis
    by (cases ok) (simp_all add: emalloc_def MAX_STRING_VAL_LEN_def MAX_CACHED_MEMORY_def)
qed

lemma write_ok:
  assumes "mem_rel m L" "L p = Some bytes" "i + length cs \<le> length bytes"
  obtains m' where "write_bytes m p i cs = Some m'"
    "mem_rel m' (L(p \<mapsto> take i bytes @ map Some cs @ drop (i + length cs) bytes))"
proof -
  obtain bs where v: "list_inv m bs" "sizes_ok m" "cache_ok m" "L = live m" using assms(1) by (rule mem_relE)
  obtain b where b: "blocks m p = Some b" "bytes = mh_bytes b" "Some p \<notin> set (cached_entries m)"
    using assms(2) v(4) by (auto simp: live_def split: if_splits)
  let ?bytes = "take i bytes @ map Some cs @ drop (i + length cs) bytes"
  let ?m' = "m\<lparr>blocks := (blocks m)(p \<mapsto> b\<lparr>mh_bytes := ?bytes\<rparr>)\<rparr>"
  have "list_inv ?m' bs"
    using v(1) b(1) by (auto simp: list_inv_def seg_upd_same)
  moreover have "sizes_ok ?m'" using v(2) b assms(3) by (auto simp: sizes_ok_def)
  moreover have ce: "cached_entries ?m' = cached_entries m" by (rule cached_entries_cong) simp_all
  then have "cache_ok ?m'" using v(3) b(1) unfolding cache_ok_alt by (auto simp: cache_shape_def)
  moreover have "L(p \<mapsto> ?bytes) = live ?m'" using v(4) b(3) ce by (auto simp: live_def)
  ultimately have "mem_rel ?m' (L(p \<mapsto> ?bytes))" unfolding mem_rel_def by blast
  moreover have "write_bytes m p i cs = Some ?m'" using b assms(3) by (simp add: write_bytes_def)
  ultimately show ?thesis by (intro that) simp_all
qed

lemma write_fault: "mem_rel m L \<Longrightarrow> L p = Some bytes \<Longrightarrow> i + length cs > length bytes \<Longrightarrow> write_bytes m p i cs = None"
  by (auto elim!: mem_relE simp: live_def write_bytes_def split: if_splits)

text \<open>Freeing: the block is unlinked and released, or stays in the list and goes to the cache.\<close>

lemma free_ok:
  assumes "list_inv m bs" "sizes_ok m" "cache_ok m" "blocks m p = Some b" "Some p \<notin> set (cached_entries m)"
  obtains m1 b' where "remove_pointer_from_list m p = Some m1" "blocks m1 p = Some b'" "mh_bytes b' = mh_bytes b"
    "list_inv (m1\<lparr>blocks := (blocks m1)(p := None)\<rparr>) (remove1 p bs)"
    "mem_rel (m1\<lparr>blocks := (blocks m1)(p := None)\<rparr>) ((live m)(p := None))"
proof -
  obtain m1 b' where r: "remove_pointer_from_list m p = Some m1" "blocks m1 p = Some b'"
    "payloads (blocks m1) = payloads (blocks m)" "list_inv (m1\<lparr>blocks := (blocks m1)(p := None)\<rparr>) (remove1 p bs)"
    "cache m1 = cache m" "cache_count m1 = cache_count m" by (rule remove_inv [OF assms(1,4)]) blast
  let ?m = "m1\<lparr>blocks := (blocks m1)(p := None)\<rparr>"
  have ce: "cached_entries ?m = cached_entries m" by (rule cached_entries_cong) (simp_all add: r)
  have pl: "payloads (blocks ?m) = (payloads (blocks m))(p := None)" by (simp add: payloads_upd r(3))
  have "set (cached_entries m) \<subseteq> Some ` (dom (blocks m) - {p})"
    using assms(3,5) unfolding cache_ok_alt by blast
  then have "cache_ok ?m" using assms(3) r(5,6) payloads_dom [OF r(3)] unfolding cache_ok_alt ce by (simp add: cache_shape_def)
  moreover have "sizes_ok ?m" using assms(2) unfolding sizes_ok_alt pl by simp
  moreover have "(live m)(p := None) = live ?m" unfolding fun_eq_iff live_alt ce pl by simp
  ultimately have "mem_rel ?m ((live m)(p := None))" using r(4) unfolding mem_rel_def by blast
  moreover have "mh_bytes b' = mh_bytes b" using payloads_bytes [OF r(3), of p] r(2) assms(4) by simp
  ultimately show ?thesis using r(1,2,4) by (intro that [of m1 b'])
qed


lemma cached_push:
  assumes "cache_shape m" "s < MAX_CACHED_MEMORY" "cache_count m ! s < MAX_CACHED_ENTRIES"
  shows "mset (cached_entries (m\<lparr>cache := (cache m)[s := (cache m ! s)[cache_count m ! s := q]],
      cache_count := (cache_count m)[s := Suc (cache_count m ! s)]\<rparr>)) = add_mset q (mset (cached_entries m))"
    (is "mset (cached_entries ?m) = _")
proof -
  let ?f = "\<lambda>m i. take (cache_count m ! i) (cache m ! i)"
  have sh: "length (cache m) = MAX_CACHED_MEMORY" "length (cache_count m) = MAX_CACHED_MEMORY"
    "length (cache m ! s) = MAX_CACHED_ENTRIES" using assms(1,2) by (auto simp: cache_shape_def)
  have upt: "[0..<MAX_CACHED_MEMORY] = [0..<s] @ s # [Suc s..<MAX_CACHED_MEMORY]"
    using assms(2) upt_add_eq_append [of 0 s "MAX_CACHED_MEMORY - s"] by (simp add: upt_conv_Cons)
  have eqs: "?f ?m s = ?f m s @ [q]" "map (?f ?m) [0..<s] = map (?f m) [0..<s]"
    "map (?f ?m) [Suc s..<MAX_CACHED_MEMORY] = map (?f m) [Suc s..<MAX_CACHED_MEMORY]"
    using sh assms(2,3) by (simp_all add: take_Suc_conv_app_nth)
  show ?thesis unfolding cached_entries_def upt map_append list.map eqs by simp
qed

lemma efree_ok:
  assumes "mem_rel m L" "L p = Some bytes"
  obtains m' where "efree m p = Some m'" "mem_rel m' (L(p := None))"
proof -
  obtain bs where v: "list_inv m bs" "sizes_ok m" "cache_ok m" "L = live m" using assms(1) by (rule mem_relE)
  obtain b where b: "blocks m p = Some b" "Some p \<notin> set (cached_entries m)"
    using assms(2) v(4) by (auto simp: live_def split: if_splits)
  have size: "\<not> mh_size b < 0" using v(2) b(1) unfolding sizes_ok_def by fastforce
  show ?thesis
  proof (cases "nat (mh_size b) < MAX_CACHED_MEMORY \<and> cache_count m ! nat (mh_size b) < MAX_CACHED_ENTRIES")
    case True
    let ?s = "nat (mh_size b)"
    let ?m = "m\<lparr>cache := (cache m)[?s := (cache m ! ?s)[cache_count m ! ?s := Some p]],
      cache_count := (cache_count m)[?s := Suc (cache_count m ! ?s)]\<rparr>"
    have shape: "cache_shape m" using v(3) by (simp add: cache_ok_def)
    note ms = cached_push [OF shape, of ?s "Some p"]
    have set: "set (cached_entries ?m) = insert (Some p) (set (cached_entries m))"
      using arg_cong [OF ms, of set_mset] True by simp
    have "distinct (cached_entries m)" using v(3) by (simp add: cache_ok_def)
    then have "distinct (Some p # cached_entries m)" using b(2) by simp
    then have "distinct (cached_entries ?m)"
      using ms True by (metis mset.simps(2) mset_eq_imp_distinct_iff)
    moreover have "cache_shape ?m" using shape True by (auto simp: cache_shape_def nth_list_update)
    ultimately have "cache_ok ?m" using v(3) b(1) unfolding cache_ok_alt set by auto
    moreover have "L(p := None) = live ?m" using v(4) by (auto simp: live_def set)
    moreover have "list_inv ?m bs" "sizes_ok ?m" using v(1,2) by (simp_all add: list_inv_def sizes_ok_def)
    ultimately have "mem_rel ?m (L(p := None))" unfolding mem_rel_def by blast
    moreover have "efree m p = Some ?m" using b True size by (simp add: efree_def Let_def)
    ultimately show ?thesis by (intro that)
  next
    case False
    obtain m1 b' where f: "remove_pointer_from_list m p = Some m1" "blocks m1 p = Some b'"
      "mem_rel (m1\<lparr>blocks := (blocks m1)(p := None)\<rparr>) ((live m)(p := None))"
      by (rule free_ok [OF v(1-3) b]) blast
    have "efree m p = Some (m1\<lparr>blocks := (blocks m1)(p := None)\<rparr>)"
      using f(1,2) b size False by (auto simp: efree_def Let_def sys_free_def)
    with f(3) v(4) show ?thesis by (intro that) simp_all
  qed
qed

lemma erealloc_ok:
  assumes "mem_rel m L" "L p = Some bytes" "n < 2 ^ 31"
  shows "(\<exists>m'. erealloc m (Some p) n = Some (Exit_1, m')) \<or>
    (\<exists>q m'. erealloc m (Some p) n = Some (Return q, m') \<and> (L(p := None)) q = None \<and>
      mem_rel m' (L(p := None, q \<mapsto> resize_bytes n bytes)))"
proof -
  obtain bs where v: "list_inv m bs" "sizes_ok m" "cache_ok m" "L = live m" using assms(1) by (rule mem_relE)
  obtain b where b: "blocks m p = Some b" "Some p \<notin> set (cached_entries m)" "mh_bytes b = bytes"
    using assms(2) v(4) by (auto simp: live_def split: if_splits)
  obtain m1 b' where f: "remove_pointer_from_list m p = Some m1" "blocks m1 p = Some b'" "mh_bytes b' = mh_bytes b"
    "mem_rel (m1\<lparr>blocks := (blocks m1)(p := None)\<rparr>) ((live m)(p := None))"
    by (rule free_ok [OF v(1-3) b(1,2)]) blast
  obtain ok m2 where ok: "sys_malloc m1 = (ok, m2)" by fastforce
  note mf = sys_malloc_fields [OF ok]
  let ?m = "m2\<lparr>blocks := (blocks m2)(p := None)\<rparr>"
  have "mem_rel ?m (L(p := None))" using mf v(4) by (intro mem_rel_cong [OF f(4) [folded v(4)]]) auto
  then obtain cs where i: "list_inv ?m cs" "sizes_ok ?m" "cache_ok ?m" "L(p := None) = live ?m" by (rule mem_relE)
  have w: "wrap_int (int n) = int n" using assms(3) by (intro wrap_int_id) simp_all
  obtain m' where m': "link_block (?m\<lparr>next_addr := Suc (next_addr ?m)\<rparr>) (next_addr ?m) (int n) (resize_bytes n bytes) = Some m'"
    "mem_rel m' ((live ?m)(next_addr ?m \<mapsto> resize_bytes n bytes))"
    by (rule new_block [OF i(1-3), of "int n" "resize_bytes n bytes"]) (simp_all add: resize_bytes_def)
  have "(L(p := None)) (next_addr ?m) = None" using live_fresh [OF fresh_block [OF i(1)] i(3)] i(4) by simp
  with m' i(4) ok f b(3) w show ?thesis by (cases ok) (simp_all add: erealloc_def)
qed

text \<open>The shutdown: first the cached blocks, then what is left in the list.\<close>

lemma drain_ok:
  "list_inv m bs \<Longrightarrow> distinct as \<Longrightarrow> set as \<subseteq> dom (blocks m) \<Longrightarrow>
    \<exists>m' bs'. drain_cache (map Some as) m = Some m' \<and> list_inv m' bs'"
proof (induction as arbitrary: m bs)
  case (Cons a as)
  then obtain b where b: "blocks m a = Some b" by auto
  obtain m1 b' where r: "remove_pointer_from_list m a = Some m1" "blocks m1 a = Some b'"
    "payloads (blocks m1) = payloads (blocks m)" "list_inv (m1\<lparr>blocks := (blocks m1)(a := None)\<rparr>) (remove1 a bs)"
    by (rule remove_inv [OF Cons.prems(1) b]) blast
  let ?m = "m1\<lparr>blocks := (blocks m1)(a := None)\<rparr>"
  have "set as \<subseteq> dom (blocks ?m)" using payloads_dom [OF r(3)] Cons.prems(2,3) by auto
  from Cons.IH [OF r(4) _ this] Cons.prems(2) r(1,2) show ?case by (simp add: sys_free_def)
qed auto

lemma release_all_ok:
  "seg mh_next mh_last (blocks m) p prev bs None \<Longrightarrow> distinct bs \<Longrightarrow>
    \<exists>m'. release_all m p = Some m' \<and> blocks m' = (\<lambda>a. if a \<in> set bs then None else blocks m a)"
proof (induction bs arbitrary: m p prev)
  case Nil
  then show ?case by (subst release_all.simps) auto
next
  case (Cons a bs)
  then obtain b where b: "p = Some a" "blocks m a = Some b"
    "seg mh_next mh_last (blocks m) (mh_next b) (Some a) bs None" by auto
  let ?m = "m\<lparr>blocks := (blocks m)(a := None)\<rparr>"
  have "seg mh_next mh_last (blocks ?m) (mh_next b) (Some a) bs None" using b(3) Cons.prems(2) by simp
  from Cons.IH [OF this] Cons.prems(2) b(1,2) show ?case
    by (subst release_all.simps) (auto simp: sys_free_def fun_eq_iff)
qed

lemma shutdown_ok:
  assumes "mem_rel m L"
  obtains m' where "shutdown_memory_manager m = Some m'" "blocks m' = Map.empty" "\<not> started m'"
proof -
  obtain bs where v: "list_inv m bs" "cache_ok m" using assms by (auto elim: mem_relE)
  define as where "as = map the (cached_entries m)"
  have ce: "cached_entries m = map Some as"
    using v(2) by (auto simp: as_def cache_ok_def comp_def intro!: map_idI [symmetric])
  have "distinct as" "set as \<subseteq> dom (blocks m)"
    using v(2) unfolding cache_ok_alt ce by (auto simp: distinct_map)
  then obtain m1 bs' where d: "drain_cache (cached_entries m) m = Some m1" "list_inv m1 bs'"
    using drain_ok [OF v(1)] unfolding ce by blast
  obtain m2 where r: "release_all m1 (mhead m1) = Some m2" "blocks m2 = (\<lambda>a. if a \<in> set bs' then None else blocks m1 a)"
    using release_all_ok [of m1 "mhead m1" None bs'] d(2) by (auto simp: list_inv_def)
  have "blocks m2 = Map.empty" using d(2) by (auto simp: r(2) list_inv_def dom_def fun_eq_iff)
  with d r show ?thesis by (intro that [of "m2\<lparr>started := False\<rparr>"]) (simp_all add: shutdown_memory_manager_def)
qed


subsection \<open>Reachable states\<close>

text \<open>
  The states a client reaches from the start of a request when it frees and reallocates live blocks
  only and writes inside them, with the live blocks and their bytes.
\<close>

inductive mem_reach :: "memory \<Rightarrow> (addr \<Rightarrow> char option list option) \<Rightarrow> bool" where
  start: "blocks m = Map.empty \<Longrightarrow> length (cache m) = MAX_CACHED_MEMORY \<Longrightarrow>
    \<forall>row \<in> set (cache m). length row = MAX_CACHED_ENTRIES \<Longrightarrow> mem_reach (start_memory_manager m) Map.empty"
| emalloc: "mem_reach m L \<Longrightarrow> emalloc m n = Some (Return p, m') \<Longrightarrow> mem_reach m' (L(p \<mapsto> replicate 800 None))"
| efree: "mem_reach m L \<Longrightarrow> L p = Some bytes \<Longrightarrow> efree m p = Some m' \<Longrightarrow> mem_reach m' (L(p := None))"
| erealloc: "mem_reach m L \<Longrightarrow> L p = Some bytes \<Longrightarrow> n < 2 ^ 31 \<Longrightarrow> erealloc m (Some p) n = Some (Return q, m') \<Longrightarrow>
    mem_reach m' (L(p := None, q \<mapsto> resize_bytes n bytes))"
| store: "mem_reach m L \<Longrightarrow> L p = Some bytes \<Longrightarrow> i + length cs \<le> length bytes \<Longrightarrow> write_bytes m p i cs = Some m' \<Longrightarrow>
    mem_reach m' (L(p \<mapsto> take i bytes @ map Some cs @ drop (i + length cs) bytes))"

lemma reach_rel: "mem_reach m L \<Longrightarrow> mem_rel m L"
proof (induction rule: mem_reach.induct)
  case (start m)
  let ?m = "start_memory_manager m"
  have ce: "cached_entries ?m = []" by (simp add: cached_entries_def start_memory_manager_def)
  have "cache_shape ?m" using start by (auto simp: cache_shape_def start_memory_manager_def)
  then have "cache_ok ?m" by (simp add: cache_ok_def ce)
  moreover have "list_inv ?m []" "sizes_ok ?m" "Map.empty = live ?m"
    using start by (auto simp: list_inv_def sizes_ok_def live_def start_memory_manager_def)
  ultimately show ?case unfolding mem_rel_def by blast
next
  case (emalloc m L n p m')
  with emalloc_ok [OF emalloc.IH, of n] show ?case by (auto simp: fun_upd_def)
next
  case (efree m L p bytes m')
  obtain m2 where "efree m p = Some m2" "mem_rel m2 (L(p := None))" by (rule efree_ok [OF efree.IH efree.hyps(2)])
  with efree.hyps(3) show ?case by (simp add: fun_upd_def)
next
  case (erealloc m L p bytes n q m')
  with erealloc_ok [OF erealloc.IH erealloc.hyps(2,3)] show ?case by (auto simp: fun_upd_def)
next
  case (store m L p bytes i cs m')
  obtain m2 where "write_bytes m p i cs = Some m2"
    "mem_rel m2 (L(p \<mapsto> take i bytes @ map Some cs @ drop (i + length cs) bytes))"
    by (rule write_ok [OF store.IH store.hyps(2,3)])
  with store.hyps(4) show ?case by (simp add: fun_upd_def)
qed

text \<open>A first state: nothing allocated, the arrays as C initialises them.\<close>

definition first_memory :: memory where
  "first_memory = start_memory_manager
     \<lparr>blocks = Map.empty, mhead = None, cache = replicate 64 (replicate 16 None), cache_count = replicate 64 0,
      next_addr = 0, oks = [], started = False\<rparr>"

lemma first_reach: "mem_reach first_memory Map.empty"
  unfolding first_memory_def by (rule mem_reach.start) (simp_all add: MAX_CACHED_MEMORY_def MAX_CACHED_ENTRIES_def)

definition one_block :: memory where
  "one_block = first_memory\<lparr>next_addr := 1, mhead := Some 0,
     blocks := [0 \<mapsto> \<lparr>mh_next = None, mh_last = None, mh_size = 800, mh_bytes = replicate 800 None\<rparr>]\<rparr>"

lemma emalloc_first: "emalloc first_memory n = Some (Return 0, one_block)"
  by (simp add: emalloc_def one_block_def first_memory_def start_memory_manager_def MAX_STRING_VAL_LEN_def
      MAX_CACHED_MEMORY_def sys_malloc_def link_block_def)

lemma one_reach: "mem_reach one_block [0 \<mapsto> replicate 800 None]"
  using mem_reach.emalloc [OF first_reach emalloc_first] by simp

subsection \<open>The properties\<close>

text \<open>
  C17: In every reachable state the live blocks are in the list with the bytes their owner wrote (no
  operation on another block changes them), no operation faults, and a new block is at an address
  where there is no block, live or cached.
\<close>

theorem memory_manager_safe:
  assumes "mem_reach m L"
  shows "(L p = Some bytes \<longrightarrow> map_option mh_bytes (blocks m p) = Some bytes) \<and>
    (\<exists>r m'. emalloc m n = Some (r, m') \<and> (\<forall>q. r = Return q \<longrightarrow> L q = None)) \<and>
    (L p \<noteq> None \<longrightarrow> (\<exists>m'. efree m p = Some m')) \<and>
    (L p \<noteq> None \<and> n < 2 ^ 31 \<longrightarrow>
      (\<exists>r m'. erealloc m (Some p) n = Some (r, m') \<and> (\<forall>q. r = Return q \<longrightarrow> (L(p := None)) q = None)))"
proof -
  have r: "mem_rel m L" by (rule reach_rel [OF assms])
  have "L p = Some bytes \<longrightarrow> map_option mh_bytes (blocks m p) = Some bytes"
    using r by (auto simp: mem_rel_def live_def split: if_splits)
  moreover have "\<exists>r m'. emalloc m n = Some (r, m') \<and> (\<forall>q. r = Return q \<longrightarrow> L q = None)"
    using emalloc_ok [OF r, of n] by auto
  moreover have "L p \<noteq> None \<longrightarrow> (\<exists>m'. efree m p = Some m')" using efree_ok [OF r, of p] by blast
  moreover have "L p \<noteq> None \<and> n < 2 ^ 31 \<longrightarrow>
      (\<exists>r m'. erealloc m (Some p) n = Some (r, m') \<and> (\<forall>q. r = Return q \<longrightarrow> (L(p := None)) q = None))"
    using erealloc_ok [OF r, of p _ n] by auto
  ultimately show ?thesis by blast
qed

theorem memory_manager_safe_witness:
  "map_option mh_bytes (blocks one_block 0) = Some (replicate 800 None) \<and>
    (\<exists>m'. efree one_block 0 = Some m') \<and>
    (\<exists>r m'. erealloc one_block (Some 0) 5 = Some (r, m')) \<and>
    (\<exists>r m'. emalloc one_block 5 = Some (r, m') \<and> (\<forall>q. r = Return q \<longrightarrow> q \<noteq> 0))"
  using memory_manager_safe [OF one_reach, of 0 "replicate 800 None" 5] by auto

text \<open>
  C18: From every reachable state the shutdown frees every block exactly once: those in the cache and
  those the client has not freed. (A second \<open>free\<close> of a block would be a fault.)
\<close>

theorem shutdown_frees_all:
  assumes "mem_reach m L"
  shows "\<exists>m'. shutdown_memory_manager m = Some m' \<and> blocks m' = Map.empty \<and> \<not> started m'"
  using shutdown_ok [OF reach_rel [OF assms]] by blast

theorem shutdown_frees_all_witness:
  "\<exists>m'. shutdown_memory_manager one_block = Some m' \<and> blocks m' = Map.empty"
  using shutdown_frees_all [OF one_reach] by blast

text \<open>
  C19: When memory suffices, a block of \<open>emalloc\<close> has 800 bytes whatever the size asked for: \<open>estrdup\<close>
  copies the string and its NUL when that fits and writes beyond the block when there are 800
  characters or more before the NUL, and \<open>ecalloc\<close> does the same from 801 bytes on.
\<close>

lemma emalloc_800:
  assumes "mem_reach m L" "oks m = []"
  obtains p m' where "\<And>n. emalloc m n = Some (Return p, m')" "mem_reach m' (L(p \<mapsto> replicate 800 None))" "L p = None"
proof -
  obtain r m' where e: "emalloc m 0 = Some (r, m')" using emalloc_ok [OF reach_rel [OF assms(1)], of 0] by auto
  have same: "emalloc m n = emalloc m 0" for n by (simp add: emalloc_def)
  have "r \<noteq> Exit_1"
    using e assms(2) by (auto simp: emalloc_def sys_malloc_def MAX_STRING_VAL_LEN_def MAX_CACHED_MEMORY_def bind_eq_Some_conv)
  then obtain p where p: "r = Return p" by (cases r) auto
  have "L p = None" using emalloc_ok [OF reach_rel [OF assms(1)], of 0] e p by auto
  with e p same mem_reach.emalloc [OF assms(1), of 0] show ?thesis by (intro that [of p m']) metis+
qed

lemma write_new:
  assumes "mem_reach m (L(p \<mapsto> replicate 800 None))"
  shows "if length cs \<le> 800
    then \<exists>m'. write_bytes m p 0 cs = Some m' \<and> mem_reach m' (L(p \<mapsto> map Some cs @ replicate (800 - length cs) None))
    else write_bytes m p 0 cs = None"
proof (cases "length cs \<le> 800")
  case True
  obtain m' where w: "write_bytes m p 0 cs = Some m'"
    using write_ok [OF reach_rel [OF assms], of p "replicate 800 None" 0 cs] True by auto
  from mem_reach.store [OF assms, of p "replicate 800 None" 0 cs m'] w True show ?thesis by auto
next
  case False
  with write_fault [OF reach_rel [OF assms], of p "replicate 800 None" 0 cs] show ?thesis by simp
qed

theorem blocks_have_800_bytes:
  assumes "mem_reach m L" "oks m = []" "length (cstr s) < 2 ^ 31 - 1" "k * n < 2 ^ 31"
  shows "(if length (cstr s) < 800
      then \<exists>p m'. estrdup m s = Some (Return p, m') \<and> L p = None \<and>
        mem_reach m' (L(p \<mapsto> map Some (cstr s @ [NUL]) @ replicate (799 - length (cstr s)) None))
      else estrdup m s = None) \<and>
    (if k * n \<le> 800
      then \<exists>p m'. ecalloc m k n = Some (Return p, m') \<and> L p = None \<and>
        mem_reach m' (L(p \<mapsto> replicate (k * n) (Some NUL) @ replicate (800 - k * n) None))
      else ecalloc m k n = None)"
proof -
  obtain p m1 where e: "\<And>n. emalloc m n = Some (Return p, m1)" "mem_reach m1 (L(p \<mapsto> replicate 800 None))" "L p = None"
    by (rule emalloc_800 [OF assms(1,2)]) blast
  have w: "wrap_int (int (length (cstr s)) + 1) = int (length (cstr s)) + 1" "wrap_int (int (n * k)) = int (n * k)"
    using assms(3,4) by (intro wrap_int_id; simp add: mult.commute [of n] del: of_nat_mult)+
  have "take (Suc (length (cstr s))) (s @ [NUL]) = cstr s @ [NUL]"
    unfolding cstr_def by (induction s) auto
  then have "estrdup m s = do { m2 \<leftarrow> write_bytes m1 p 0 (cstr s @ [NUL]); Some (Return p, m2) }"
    unfolding estrdup_def w e by (simp add: nat_add_distrib)
  moreover have "ecalloc m k n = do { m2 \<leftarrow> write_bytes m1 p 0 (replicate (n * k) NUL); Some (Return p, m2) }"
    unfolding ecalloc_def w Let_def e by (simp del: of_nat_mult)
  ultimately show ?thesis
    using write_new [OF e(2), of "cstr s @ [NUL]"] write_new [OF e(2), of "replicate (n * k) NUL"] e(3)
    by (auto simp: mult.commute split: if_splits)
qed

theorem blocks_have_800_bytes_witness:
  "estrdup first_memory (replicate 800 CHR ''x'') = None \<and>
    (\<exists>p m'. estrdup first_memory ''php'' = Some (Return p, m')) \<and> ecalloc first_memory 107 8 = None"
proof -
  have "oks first_memory = []" by (simp add: first_memory_def start_memory_manager_def)
  have c: "cstr (replicate 800 CHR ''x'') = replicate 800 CHR ''x''" "cstr ''php'' = ''php''" by (simp_all add: cstr_id)
  from blocks_have_800_bytes [OF first_reach \<open>oks first_memory = []\<close>, of "replicate 800 CHR ''x''" 107 8]
    blocks_have_800_bytes [OF first_reach \<open>oks first_memory = []\<close>, of "''php''" 0 0] show ?thesis
    unfolding c by auto
qed

end
