(* ===== verification/Decimal.thy ===== *)
theory Decimal
  imports Base
begin

text \<open>
  \<open>sprintf\<close> with \<open>%ld\<close> and \<open>%d\<close>, and its inverse: \<open>atol\<close> reads back what it prints. \<open>atoi\<close> is the
  conversion of \<open>strtol\<close>'s result to an \<open>int\<close>.
\<close>

fun digits_of :: "nat \<Rightarrow> char list" where
  "digits_of n = (if n < 10 then [to_char (48 + n)] else digits_of (n div 10) @ [to_char (48 + n mod 10)])"

declare digits_of.simps [simp del]

definition show_long :: "int \<Rightarrow> char list" where
  "show_long i = (if i < 0 then CHR ''-'' # digits_of (nat (- i)) else digits_of (nat i))"

definition atol :: "char list \<Rightarrow> int" where
  "atol s = strtol10 (cstr s)"

definition atoi :: "char list \<Rightarrow> int" where
  "atoi s = wrap_int (strtol10 (cstr s))"

lemma isdigit_to_char [simp]: "d < 10 \<Longrightarrow> isdigit (to_char (48 + d))"
  by (simp add: isdigit_def)

lemma digits_of_digits: "\<forall>c \<in> set (digits_of n). isdigit c"
proof (induction n rule: digits_of.induct)
  case (1 n)
  then show ?case by (subst digits_of.simps) auto
qed

lemma digits_of_nonempty [simp]: "digits_of n \<noteq> []"
  by (subst digits_of.simps) simp

lemma dec_val_append: "dec_val acc (xs @ [c]) = 10 * dec_val acc xs + (uchar c - 48)"
  by (induction xs arbitrary: acc) auto

lemma dec_val_digits_of: "dec_val 0 (digits_of n) = n"
proof (induction n rule: digits_of.induct)
  case (1 n)
  then show ?case by (subst digits_of.simps) (simp add: dec_val_append)
qed

lemma digit_classes: "isdigit c \<Longrightarrow> \<not> isspace c \<and> c \<noteq> CHR ''-'' \<and> c \<noteq> CHR ''+'' \<and> c \<noteq> NUL"
  by (auto simp: isdigit_def isspace_def uchar_def)

lemma show_long_chars: "c \<in> set (show_long i) \<Longrightarrow> isdigit c \<or> c = CHR ''-''"
  using digits_of_digits by (auto simp: show_long_def split: if_splits)

lemma show_long_specials [simp]:
  "CHR '':'' \<notin> set (show_long i)" "CHR '';'' \<notin> set (show_long i)" "NUL \<notin> set (show_long i)"
  using show_long_chars [of "CHR '':''" i] show_long_chars [of "CHR '';''" i] show_long_chars [of NUL i]
  by (auto simp: isdigit_def uchar_def)

lemma not_digits [simp]: "\<not> isdigit CHR '':''" "\<not> isdigit CHR '';''"
  by (simp_all add: isdigit_def uchar_def)

lemma show_long_nonempty [simp]: "show_long i \<noteq> []"
  by (simp add: show_long_def)

lemma digits_prefix:
  "\<forall>c \<in> set xs. isdigit c \<Longrightarrow> r = [] \<or> \<not> isdigit (hd r) \<Longrightarrow> takeWhile isdigit (xs @ r) = xs"
  by (induction xs) (auto simp: takeWhile_eq_Nil_iff)

lemma strtol10_digits:
  assumes "\<forall>c \<in> set xs. isdigit c" "xs \<noteq> []" "r = [] \<or> \<not> isdigit (hd r)"
  shows "strtol10 (xs @ r) = min LONG_MAX (int (dec_val 0 xs))"
    and "strtol10 (CHR ''-'' # xs @ r) = max LONG_MIN (- int (dec_val 0 xs))"
proof -
  from assms(1,2) obtain c cs where xs: "xs = c # cs" "isdigit c" by (cases xs) auto
  have "isspace CHR ''-'' = False" by (simp add: isspace_def uchar_def)
  then show "strtol10 (xs @ r) = min LONG_MAX (int (dec_val 0 xs))"
    "strtol10 (CHR ''-'' # xs @ r) = max LONG_MIN (- int (dec_val 0 xs))"
    using digits_prefix [OF assms(1,3)] xs digit_classes [OF xs(2)] by (auto simp: strtol10_def Let_def)
qed

lemma strtol10_show:
  assumes "LONG_MIN \<le> i" "i \<le> LONG_MAX" "r = [] \<or> \<not> isdigit (hd r)"
  shows "strtol10 (show_long i @ r) = i"
  using strtol10_digits [OF digits_of_digits digits_of_nonempty assms(3)] assms(1,2)
  by (simp add: show_long_def dec_val_digits_of)

lemma cstr_append: "NUL \<notin> set s \<Longrightarrow> cstr (s @ r) = s @ cstr r"
  by (induction s) (auto simp: cstr_def)

lemma cstr_show_long: "cstr (show_long i @ r) = show_long i @ cstr r"
  using show_long_chars [of NUL i] by (intro cstr_append) (auto simp: isdigit_def)

lemma cstr_not_digit: "\<not> isdigit c \<Longrightarrow> cstr (c # r) = [] \<or> \<not> isdigit (hd (cstr (c # r)))"
  by (simp add: cstr_def)

lemma atol_show:
  "LONG_MIN \<le> i \<Longrightarrow> i \<le> LONG_MAX \<Longrightarrow> \<not> isdigit c \<Longrightarrow> atol (show_long i @ c # r) = i"
  unfolding atol_def cstr_show_long by (intro strtol10_show cstr_not_digit)

lemma atoi_show:
  "- 2147483648 \<le> i \<Longrightarrow> i < 2147483648 \<Longrightarrow> \<not> isdigit c \<Longrightarrow> atoi (show_long i @ c # r) = i"
  unfolding atoi_def cstr_show_long
  by (subst strtol10_show) (auto simp: LONG_MIN_def LONG_MAX_def cstr_not_digit wrap_int_id)

end
