(* ===== verification/Values.thy ===== *)
theory Values
  imports Decimal Hash_Bulk
begin

text \<open>
  The values of the interpreter (\<^verbatim>\<open>pval\<close> of \<^verbatim>\<open>php.h\<close>) and the store of hash tables they point to. An
  array or an object is the address of a table (that of \<^verbatim>\<open>php3_hash.c\<close>), so two elements may share
  a table and a table may contain itself. \<open>rep st A v t\<close> says that the value \<open>v\<close> in the store \<open>st\<close> is
  the tree \<open>t\<close>: its tables satisfy the invariant of the hash table, are outside \<open>A\<close> and are not inside
  themselves. \<open>double\<close>s are a type \<open>'f\<close>.
\<close>

subsection \<open>Values and tables\<close>

text \<open>
  \<open>UNDEFINED\<close> is a string whose \<open>val\<close> is the address of \<open>undefined_variable_string\<close>, and \<open>OTHER\<close>
  every type without a case of its own. \<open>symbol_table\<close> is the address of the table of the global variables.
\<close>

datatype 'f pval = IS_LONG int | IS_DOUBLE 'f | IS_STRING "char list" | UNDEFINED | IS_ARRAY addr | IS_OBJECT addr | OTHER

record 'f store =
  tables :: "addr \<Rightarrow> 'f pval hashtable option"
  next_table :: addr
  symbol_table :: addr

text \<open>The table of an array or an object.\<close>

definition table_of :: "'f pval \<Rightarrow> addr option" where
  "table_of v = (case v of IS_ARRAY a \<Rightarrow> Some a | IS_OBJECT a \<Rightarrow> Some a | _ \<Rightarrow> None)"

definition set_table :: "'f store \<Rightarrow> addr \<Rightarrow> 'f pval hashtable \<Rightarrow> 'f store" where
  "set_table st a t = st\<lparr>tables := (tables st)(a \<mapsto> t)\<rparr>"

definition empty_store :: "'f store" where
  "empty_store = \<lparr>tables = Map.empty, next_table = 1, symbol_table = 0\<rparr>"

subsection \<open>Trees\<close>

datatype 'f tree = Long_leaf int | Double_leaf 'f | String_leaf "char list" | Undefined_leaf | Other_leaf | Node bool "(hkey \<times> 'f tree) list"

inductive rep :: "'f store \<Rightarrow> addr set \<Rightarrow> 'f pval \<Rightarrow> 'f tree \<Rightarrow> bool" where
  rep_long: "rep st A (IS_LONG i) (Long_leaf i)"
| rep_double: "rep st A (IS_DOUBLE d) (Double_leaf d)"
| rep_string: "rep st A (IS_STRING s) (String_leaf s)"
| rep_node: "a \<notin> A \<Longrightarrow> tables st a = Some t \<Longrightarrow> ht_inv t os \<Longrightarrow> \<not> persistent t \<Longrightarrow>
    list_all2 (rel_prod (=) (rep st (insert a A))) (ht_abs t os) kvs \<Longrightarrow>
    rep st A (if obj then IS_OBJECT a else IS_ARRAY a) (Node obj kvs)"

subsection \<open>The store up to internal pointers\<close>

definition same_table :: "'d hashtable \<Rightarrow> 'd hashtable \<Rightarrow> bool" where
  "same_table t t' \<longleftrightarrow> (\<exists>p. t' = t\<lparr>pInternalPointer := p\<rparr>) \<and> (\<forall>os. ht_inv t os \<longrightarrow> ht_inv t' os)"

definition same_tables :: "'f store \<Rightarrow> 'f store \<Rightarrow> bool" where
  "same_tables st st' \<longleftrightarrow> next_table st' = next_table st \<and> symbol_table st' = symbol_table st \<and> (\<forall>a. rel_option same_table (tables st a) (tables st' a))"

lemma same_table_refl [simp]: "same_table t t"
  by (auto simp: same_table_def intro: exI [of _ "pInternalPointer t"])

lemma same_table_trans: "same_table t u \<Longrightarrow> same_table u v \<Longrightarrow> same_table t v"
  by (auto simp: same_table_def)

lemma same_table_fields:
  "same_table t t' \<Longrightarrow> ht_abs t' os = ht_abs t os \<and> persistent t' = persistent t \<and>
     nNumOfElements t' = nNumOfElements t"
  by (auto simp: same_table_def ht_abs_def)

lemma same_tables_refl [simp]: "same_tables st st"
  by (auto simp: same_tables_def option.rel_refl)

lemma same_tables_trans: "same_tables st st1 \<Longrightarrow> same_tables st1 st2 \<Longrightarrow> same_tables st st2"
  unfolding same_tables_def by (metis (no_types, lifting) option.rel_sel same_table_trans)

lemma same_tablesD: "same_tables st st' \<Longrightarrow> tables st a = Some t \<Longrightarrow> \<exists>t'. tables st' a = Some t' \<and> same_table t t'"
  unfolding same_tables_def by (metis option_rel_Some1)

lemma same_tables_set:
  "tables st a = Some t \<Longrightarrow> same_table t t' \<Longrightarrow> same_tables st (set_table st a t')"
  by (auto simp: same_tables_def set_table_def option.rel_refl)

lemma set_table_same [simp]: "tables st a = Some t \<Longrightarrow> set_table st a t = st"
  by (simp add: set_table_def fun_upd_idem)

lemma same_table_pointer:
  "ht_inv t os \<Longrightarrow> (\<And>x. p = Some x \<Longrightarrow> x \<in> set os) \<Longrightarrow> same_table t (t\<lparr>pInternalPointer := p\<rparr>)"
  unfolding same_table_def using inv_order_unique inv_set_pointer by blast

lemma rep_same_tables: "rep st A v tr \<Longrightarrow> same_tables st st' \<Longrightarrow> rep st' A v tr"
proof (induction rule: rep.induct)
  case (rep_node a A st t os kvs obj)
  obtain t' where t': "tables st' a = Some t'" "same_table t t'" using same_tablesD [OF rep_node.prems rep_node.hyps(2)] by blast
  have "ht_inv t' os" using rep_node.hyps(3) t'(2) by (simp add: same_table_def)
  moreover have "list_all2 (rel_prod (=) (rep st' (insert a A))) (ht_abs t' os) kvs"
    using rep_node.IH rep_node.prems same_table_fields [OF t'(2)]
    by (auto elim!: list.rel_mono_strong simp: rel_prod_sel)
  ultimately show ?case
    using rep_node.hyps t' same_table_fields [OF t'(2)] by (intro rep.rep_node [where t = t' and os = os]) auto
qed (auto intro: rep.intros)

lemma rep_cong:
  "rep st A v tr \<Longrightarrow> (\<And>b t. b \<notin> A \<Longrightarrow> tables st b = Some t \<Longrightarrow> tables st' b = Some t) \<Longrightarrow> rep st' A v tr"
proof (induction rule: rep.induct)
  case (rep_node a A st t os kvs obj)
  have "list_all2 (rel_prod (=) (rep st' (insert a A))) (ht_abs t os) kvs"
    using rep_node.IH rep_node.prems by (auto elim!: list.rel_mono_strong simp: rel_prod_sel)
  then show ?case using rep_node.hyps rep_node.prems by (intro rep.rep_node) auto
qed (auto intro: rep.intros)

lemma rep_antimono: "rep st A v tr \<Longrightarrow> A' \<subseteq> A \<Longrightarrow> rep st A' v tr"
proof (induction arbitrary: A' rule: rep.induct)
  case (rep_node a A st t os kvs obj)
  have "insert a A' \<subseteq> insert a A" using rep_node.prems by blast
  then have "list_all2 (rel_prod (=) (rep st (insert a A'))) (ht_abs t os) kvs"
    using rep_node.IH by (auto elim!: list.rel_mono_strong simp: rel_prod_sel)
  then show ?case using rep_node.hyps rep_node.prems by (intro rep.rep_node) auto
qed (auto intro: rep.intros)


text \<open>The store grows: old tables stay as they are, all addresses are below \<open>next_table\<close>.\<close>

definition store_wf :: "'f store \<Rightarrow> bool" where
  "store_wf st \<longleftrightarrow> (\<forall>b t. tables st b = Some t \<longrightarrow> b < next_table st) \<and> symbol_table st < next_table st"

definition extends :: "'f store \<Rightarrow> 'f store \<Rightarrow> bool" where
  "extends st st' \<longleftrightarrow> symbol_table st' = symbol_table st \<and> next_table st \<le> next_table st' \<and> (\<forall>b < next_table st. tables st' b = tables st b)"

text \<open>The same with a table \<open>a\<close> that may have changed.\<close>

definition extends_but :: "addr \<Rightarrow> 'f store \<Rightarrow> 'f store \<Rightarrow> bool" where
  "extends_but a st st' \<longleftrightarrow> symbol_table st' = symbol_table st \<and> next_table st \<le> next_table st' \<and>
     (\<forall>b < next_table st. b \<noteq> a \<longrightarrow> tables st' b = tables st b)"

lemma extends_refl [simp]: "extends st st"
  by (simp add: extends_def)

lemma extends_trans: "extends st st1 \<Longrightarrow> extends st1 st2 \<Longrightarrow> extends st st2"
  by (auto simp: extends_def)

lemma rep_extends: "rep st A v tr \<Longrightarrow> store_wf st \<Longrightarrow> extends st st' \<Longrightarrow> rep st' A v tr"
  by (erule rep_cong) (auto simp: store_wf_def extends_def)

lemma store_wf_set: "store_wf st \<Longrightarrow> tables st a = Some t \<Longrightarrow> store_wf (set_table st a t')"
  by (auto simp: store_wf_def set_table_def)

lemma rep_defined: "rep st A v tr \<Longrightarrow> v \<noteq> UNDEFINED"
  by (erule rep.cases) (auto split: if_splits)

lemma num_elements: "ht_inv t os \<Longrightarrow> nNumOfElements t = length os"
  by (simp add: ht_inv_def order_inv_def)

end
