(* ===== verification/Serialize.thy ===== *)
theory Serialize
  imports Values
begin

text \<open>
  \<open>serialize\<close> and \<open>unserialize\<close> of \<^verbatim>\<open>php-src/functions/var.c\<close>, on the values and tables of the
  interpreter: an array or an object is the address of a hash table (that of \<^verbatim>\<open>php3_hash.c\<close>), so two
  elements may share a table and a table may contain itself. \<open>double\<close>s are a type \<open>'f\<close>; how
  \<open>sprintf\<close> prints one with \<open>%.*G\<close> and how \<open>atof\<close> reads one are parameters of the C library.

  \<open>None\<close> is a memory fault or a call that does not return. A string that is read and the buckets of a new
  table are in blocks of \<open>emalloc\<close>, which have 800 bytes; the output buffer, the keys and the tables that exist
  are in blocks as large as they are asked for. Both functions of the source call
  themselves from a loop; \<open>Value\<close> and \<open>Elements\<close> name the two places where the recursion can be. The
  output buffer is the text appended to it (\<open>STR_CAT\<close>); the input is a buffer with its NUL, read at a
  position.
\<close>

subsection \<open>Serialising\<close>

text \<open>
  \<open>Value loc v\<close> is a call for the \<open>pval\<close> at \<open>loc\<close> (the table and the bucket it is in), \<open>Elements loc a\<close>
  the loop over the table \<open>a\<close> from its internal pointer on. A string key becomes a value by
  \<open>strlen\<close>, which reads past a key without a NUL.
\<close>

type_synonym loc = "(addr \<times> addr) option"

datatype 'f ser_job = Value loc "'f pval" | Elements loc addr

definition key_value :: "char list \<Rightarrow> 'f pval option" where
  "key_value k = (if NUL \<in> set k then Some (IS_STRING (cstr k)) else None)"

definition serialize_long :: "int \<Rightarrow> char list" where
  "serialize_long i = ''i:'' @ show_long i @ '';''"

definition serialize_string :: "char list \<Rightarrow> char list" where
  "serialize_string s = ''s:'' @ show_long (int (length s)) @ '':'' @ [CHR 0x22] @ s @ [CHR 0x22] @ '';''"

definition serialize_head :: "char \<Rightarrow> nat \<Rightarrow> char list" where
  "serialize_head ch n = [ch] @ '':'' @ show_long (int n) @ '':{''"

partial_function (option) var_serialize ::
  "('f \<Rightarrow> char list) \<Rightarrow> 'f ser_job \<Rightarrow> 'f store \<Rightarrow> (char list \<times> 'f store) option" where
  "var_serialize fmt job st =
     (case job of
        Value loc v \<Rightarrow>
          (case v of
             IS_LONG i \<Rightarrow> Some (serialize_long i, st)
           | IS_DOUBLE d \<Rightarrow> Some (''d:'' @ fmt d @ '';'', st)
           | IS_STRING s \<Rightarrow> Some (serialize_string s, st)
           | UNDEFINED \<Rightarrow> Some (serialize_string [], st)
           | OTHER \<Rightarrow> Some (''i:0;'', st)
           | IS_ARRAY a \<Rightarrow> do {
               t \<leftarrow> tables st a;
               (txt, st1) \<leftarrow> (if nNumOfElements t > 0
                  then var_serialize fmt (Elements loc a) (set_table st a (php3_hash_internal_pointer_reset t))
                  else Some ([], st));
               Some (serialize_head CHR ''a'' (nNumOfElements t) @ txt @ ''}'', st1) }
           | IS_OBJECT a \<Rightarrow> do {
               t \<leftarrow> tables st a;
               (txt, st1) \<leftarrow> (if nNumOfElements t > 0
                  then var_serialize fmt (Elements loc a) (set_table st a (php3_hash_internal_pointer_reset t))
                  else Some ([], st));
               Some (serialize_head CHR ''o'' (nNumOfElements t) @ txt @ ''}'', st1) })
      | Elements loc a \<Rightarrow> do {
          t \<leftarrow> tables st a;
          (k, t1) \<leftarrow> php3_hash_get_current_key t;
          (if k = HASH_KEY_NON_EXISTANT then Some ([], set_table st a t1)
           else do {
             q \<leftarrow> php3_hash_get_current_data t1;
             (txt, st1) \<leftarrow> (case (q, pInternalPointer t1) of
                (Some d, Some p) \<Rightarrow>
                  if loc = Some (a, p) \<or> d = UNDEFINED then Some ([], set_table st a t1)
                  else do {
                    key \<leftarrow> (case k of HASH_KEY_IS_STRING s \<Rightarrow> key_value s | HASH_KEY_IS_LONG i \<Rightarrow> Some (IS_LONG (sint i))
                             | HASH_KEY_NON_EXISTANT \<Rightarrow> None);
                    (s1, st2) \<leftarrow> var_serialize fmt (Value None key) (set_table st a t1);
                    (s2, st3) \<leftarrow> var_serialize fmt (Value (Some (a, p)) d) st2;
                    Some (s1 @ s2, st3) }
              | _ \<Rightarrow> Some ([], set_table st a t1));
             t2 \<leftarrow> tables st1 a;
             t3 \<leftarrow> php3_hash_move_forward t2;
             (rest, st4) \<leftarrow> var_serialize fmt (Elements loc a) (set_table st1 a t3);
             Some (txt @ rest, st4) }) })"

definition php3_serialize :: "('f \<Rightarrow> char list) \<Rightarrow> 'f pval \<Rightarrow> 'f store \<Rightarrow> (char list \<times> 'f store) option" where
  "php3_serialize fmt v st = var_serialize fmt (Value None v) st"

subsection \<open>Reading the text back\<close>

definition byte_at :: "char list \<Rightarrow> nat \<Rightarrow> char option" where
  "byte_at buf p = (if p < length buf then Some (buf ! p) else None)"

text \<open>\<open>while (**p && **p != c) (*p)++\<close>.\<close>

function scan_to :: "char list \<Rightarrow> char \<Rightarrow> nat \<Rightarrow> nat option" where
  "scan_to buf c p =
     (if p < length buf then if buf ! p = NUL \<or> buf ! p = c then Some p else scan_to buf c (Suc p) else None)"
  by pat_completeness auto
termination
  by (relation "measure (\<lambda>(buf, _, p). length buf - p)") auto

declare scan_to.simps [simp del]

text \<open>A number is read at \<open>p\<close>, where there must be a byte.\<close>

definition number_at :: "(char list \<Rightarrow> 'a) \<Rightarrow> char list \<Rightarrow> nat \<Rightarrow> 'a option" where
  "number_at conv buf p = (if p < length buf then Some (conv (drop p buf)) else None)"

text \<open>The cases \<open>i\<close> and \<open>d\<close>: the value and the position behind it; \<open>Some None\<close> is the return value 0.\<close>

definition scalar_at :: "(char list \<Rightarrow> 'a) \<Rightarrow> char list \<Rightarrow> nat \<Rightarrow> ('a \<times> nat) option option" where
  "scalar_at conv buf p =
     do {
       c1 \<leftarrow> byte_at buf (p + 1);
       (if c1 \<noteq> CHR '':'' then Some None
        else do {
          p1 \<leftarrow> scan_to buf CHR '';'' p;
          c \<leftarrow> byte_at buf p1;
          (if c \<noteq> CHR '';'' then Some None
           else do { x \<leftarrow> number_at conv buf (p + 2); Some (Some (x, p1 + 1)) }) }) }"

definition string_at :: "char list \<Rightarrow> nat \<Rightarrow> nat \<Rightarrow> (char list \<times> nat) option option" where
  "string_at buf mx p =
     do {
       c1 \<leftarrow> byte_at buf (p + 1);
       (if c1 \<noteq> CHR '':'' then Some None
        else do {
          p1 \<leftarrow> scan_to buf CHR '':'' (p + 2);
          c \<leftarrow> byte_at buf p1;
          (if c \<noteq> CHR '':'' then Some None
           else do {
             i \<leftarrow> number_at atoi buf (p + 2);
             (if i < 0 \<or> p1 + 3 + nat i > mx then Some None
              else do {
                c2 \<leftarrow> byte_at buf (p1 + 1);
                c3 \<leftarrow> byte_at buf (p1 + 2 + nat i);
                c4 \<leftarrow> byte_at buf (p1 + 3 + nat i);
                (if c2 \<noteq> CHR 0x22 \<or> c3 \<noteq> CHR 0x22 \<or> c4 \<noteq> CHR '';'' then Some None
                 else if nat i + 1 > block_bytes (i + 1) then None
                 else Some (Some (take (nat i) (drop (p1 + 2) buf), p1 + nat i + 4))) }) }) }) }"

text \<open>
  The start of the cases \<open>a\<close> and \<open>o\<close>: the new table and the position of its first element.
  \<open>(*p) += 2\<close> is done without looking at the byte skipped. The buckets are cleared in the block that
  \<open>emalloc\<close> gives, and beyond it when there are more than 100 of them.
\<close>

definition init_table :: "nat \<Rightarrow> 'f pval hashtable option" where
  "init_table n =
     do {
       t \<leftarrow> php3_hash_init n None True False [];
       (if nTableSize t * 8 > block_bytes (int (nTableSize t * 8)) then None else Some t) }"

definition array_at :: "char list \<Rightarrow> nat \<Rightarrow> 'f store \<Rightarrow> (int \<times> addr \<times> nat \<times> 'f store) option option" where
  "array_at buf p st =
     do {
       i \<leftarrow> number_at atoi buf (p + 2);
       t \<leftarrow> init_table (nat ((i + 1) mod 2 ^ 32));
       let a = next_table st;
       let st1 = (set_table st a t)\<lparr>next_table := Suc a\<rparr>;
       p1 \<leftarrow> scan_to buf CHR '':'' (p + 2);
       c \<leftarrow> byte_at buf p1;
       (if c \<noteq> CHR '':'' then Some None
        else do {
          c1 \<leftarrow> byte_at buf (p1 + 1);
          (if c1 \<noteq> CHR ''{'' then Some None else Some (Some (i, a, p1 + 2, st1))) }) }"

text \<open>An element stored: \<open>_php3_hash_index_update\<close> for a number, \<open>_php3_hash_add\<close> for a string.\<close>

definition store_element :: "'f store \<Rightarrow> addr \<Rightarrow> 'f pval \<Rightarrow> 'f pval \<Rightarrow> 'f store option" where
  "store_element st a key d =
     (case key of
        IS_LONG i \<Rightarrow> do {
          t \<leftarrow> tables st a;
          (r, q, t1) \<leftarrow> php3_hash_index_update_or_next_insert t (word_of_int i) d HASH_UPDATE;
          Some (set_table st a t1) }
      | IS_STRING s \<Rightarrow> do {
          t \<leftarrow> tables st a;
          (r, q, t1) \<leftarrow> php3_hash_add_or_update t (s @ [NUL]) d HASH_ADD;
          Some (set_table st a t1) }
      | _ \<Rightarrow> Some st)"

datatype 'f unser_job = Read nat | Read_elements "'f pval" addr int nat

text \<open>
  \<open>php3api_var_unserialize\<close>; \<open>Read_elements rv a i p\<close> is its loop, with \<open>i\<close> elements to go for the value
  \<open>rv\<close> with the table \<open>a\<close>.
\<close>

partial_function (option) var_unserialize ::
  "(char list \<Rightarrow> 'f) \<Rightarrow> char list \<Rightarrow> nat \<Rightarrow> 'f unser_job \<Rightarrow> 'f store \<Rightarrow> ('f pval \<times> nat \<times> 'f store) option option" where
  "var_unserialize atof buf mx job st =
     (case job of
        Read p \<Rightarrow> do {
          c \<leftarrow> byte_at buf p;
          (if c = CHR ''i'' then do {
             r \<leftarrow> scalar_at atol buf p;
             Some (map_option (\<lambda>(i, p1). (IS_LONG i, p1, st)) r) }
           else if c = CHR ''d'' then do {
             r \<leftarrow> scalar_at atof buf p;
             Some (map_option (\<lambda>(d, p1). (IS_DOUBLE d, p1, st)) r) }
           else if c = CHR ''s'' then do {
             r \<leftarrow> string_at buf mx p;
             Some (map_option (\<lambda>(s, p1). (IS_STRING s, p1, st)) r) }
           else if c = CHR ''a'' \<or> c = CHR ''o'' then do {
             r \<leftarrow> array_at buf p st;
             (case r of
                None \<Rightarrow> Some None
              | Some (i, a, p1, st1) \<Rightarrow>
                  var_unserialize atof buf mx (Read_elements (if c = CHR ''a'' then IS_ARRAY a else IS_OBJECT a) a i p1) st1) }
           else Some None) }
      | Read_elements rv a i p \<Rightarrow> do {
          c \<leftarrow> byte_at buf p;
          (if c \<noteq> NUL \<and> c \<noteq> CHR ''}'' \<and> i > 0 then do {
             r1 \<leftarrow> var_unserialize atof buf mx (Read p) st;
             (case r1 of
                None \<Rightarrow> Some None
              | Some (key, p1, st1) \<Rightarrow> do {
                  r2 \<leftarrow> var_unserialize atof buf mx (Read p1) st1;
                  (case r2 of
                     None \<Rightarrow> Some None
                   | Some (d, p2, st2) \<Rightarrow> do {
                       st3 \<leftarrow> store_element st2 a key d;
                       var_unserialize atof buf mx (Read_elements rv a (i - 1) p2) st3 }) }) }
           else if c = CHR ''}'' then Some (Some (rv, p + 1, st))
           else Some None) })"

text \<open>\<open>unserialize\<close>: the value, or false.\<close>

definition php3_unserialize :: "(char list \<Rightarrow> 'f) \<Rightarrow> char list \<Rightarrow> 'f store \<Rightarrow> ('f pval \<times> 'f store) option option" where
  "php3_unserialize atof s st =
     do {
       r \<leftarrow> var_unserialize atof (s @ [NUL]) (length s) (Read 0) st;
       Some (map_option (\<lambda>(v, _, st1). (v, st1)) r) }"

end
