(* ===== verification/Serialize_Proofs.thy ===== *)
theory Serialize_Proofs
  imports Serialize
begin

text \<open>
  What \<open>serialize\<close> and \<open>unserialize\<close> compute, on trees: \<open>rep st A v t\<close> says that the value \<open>v\<close> in the
  store \<open>st\<close> is the tree \<open>t\<close>, by tables that satisfy the invariant of the hash table, are outside
  \<open>A\<close>, and are not inside themselves. \<open>encode\<close> is the text of a tree.
\<close>

subsection \<open>The text of a tree\<close>

fun encode_key :: "hkey \<Rightarrow> char list" where
  "encode_key (Idx i) = serialize_long (sint i)"
| "encode_key (Str k) = serialize_string (cstr k)"

fun encode :: "('f \<Rightarrow> char list) \<Rightarrow> 'f tree \<Rightarrow> char list" where
  "encode fmt (Long_leaf i) = serialize_long i"
| "encode fmt (Double_leaf d) = ''d:'' @ fmt d @ '';''"
| "encode fmt (String_leaf s) = serialize_string s"
| "encode fmt Undefined_leaf = serialize_string []"
| "encode fmt Other_leaf = ''i:0;''"
| "encode fmt (Node obj kvs) =
     serialize_head (if obj then CHR ''o'' else CHR ''a'') (length kvs) @
     concat (map (\<lambda>(k, t). encode_key k @ encode fmt t) kvs) @ ''}''"

text \<open>
  The trees the text form is faithful to: numbers in the range of \<open>long\<close>, lengths in that of \<open>int\<close>,
  keys that are C strings, doubles that survive printing and reading.
\<close>

definition key_ok :: "hkey \<Rightarrow> bool" where
  "key_ok k = (case k of Idx i \<Rightarrow> True
     | Str s \<Rightarrow> s \<noteq> [] \<and> s = cstr s @ [NUL] \<and> handle_numeric s = None \<and> length s < 2 ^ 31)"

definition double_ok :: "('f \<Rightarrow> char list) \<Rightarrow> (char list \<Rightarrow> 'f) \<Rightarrow> 'f \<Rightarrow> bool" where
  "double_ok fmt atof d \<longleftrightarrow> NUL \<notin> set (fmt d) \<and> CHR '';'' \<notin> set (fmt d) \<and> (\<forall>r. atof (fmt d @ CHR '';'' # r) = d)"

fun tree_ok :: "('f \<Rightarrow> bool) \<Rightarrow> 'f tree \<Rightarrow> bool" where
  "tree_ok dok (Long_leaf i) \<longleftrightarrow> LONG_MIN \<le> i \<and> i \<le> LONG_MAX"
| "tree_ok dok (Double_leaf d) \<longleftrightarrow> dok d"
| "tree_ok dok (String_leaf s) \<longleftrightarrow> length s < 2 ^ 31"
| "tree_ok dok Undefined_leaf \<longleftrightarrow> False"
| "tree_ok dok Other_leaf \<longleftrightarrow> False"
| "tree_ok dok (Node obj kvs) \<longleftrightarrow> length kvs < 2 ^ 31 \<and> distinct (map fst kvs) \<and>
     list_all (\<lambda>(k, t). key_ok k \<and> tree_ok dok t) kvs"

text \<open>The trees whose strings and tables \<open>unserialize\<close> has room for: its blocks have 800 bytes.\<close>

definition key_fits :: "hkey \<Rightarrow> bool" where
  "key_fits k = (case k of Idx i \<Rightarrow> True | Str s \<Rightarrow> length (cstr s) < 800)"

fun fits :: "'f tree \<Rightarrow> bool" where
  "fits (String_leaf s) \<longleftrightarrow> length s < 800"
| "fits (Node obj kvs) \<longleftrightarrow> length kvs < 53 \<and> list_all (\<lambda>(k, t). key_fits k \<and> fits t) kvs"
| "fits t \<longleftrightarrow> True"

subsection \<open>Serialising\<close>

lemma current_key_ok:
  assumes "at_pos t us (x # vs)" "\<not> persistent t"
  shows "php3_hash_get_current_key t =
    Some (case bkey (bk t x) of Str k \<Rightarrow> HASH_KEY_IS_STRING k | Idx i \<Rightarrow> HASH_KEY_IS_LONG i, t)"
    and "php3_hash_get_current_data t = Some (Some (pData (bk t x)))" and "pInternalPointer t = Some x"
proof -
  from assms(1) have inv: "ht_inv t (us @ x # vs)" and p: "pInternalPointer t = Some x" by (auto simp: at_pos_def)
  then obtain b where b: "heap t x = Some b" "bucket_ok t b" by (auto elim: order_split)
  show "php3_hash_get_current_key t =
      Some (case bkey (bk t x) of Str k \<Rightarrow> HASH_KEY_IS_STRING k | Idx i \<Rightarrow> HASH_KEY_IS_LONG i, t)"
    using p b assms(2)
    by (auto simp: php3_hash_get_current_key_def pemalloc_def bkey_def bucket_ok_def split: option.splits)
  show "php3_hash_get_current_data t = Some (Some (pData (bk t x)))"
    using p b by (simp add: php3_hash_get_current_data_def)
  show "pInternalPointer t = Some x" by (rule p)
qed

lemma key_text:
  assumes "key_ok k"
  obtains kv where "(case (case k of Str k \<Rightarrow> HASH_KEY_IS_STRING k | Idx i \<Rightarrow> HASH_KEY_IS_LONG i) of
      HASH_KEY_IS_STRING s \<Rightarrow> key_value s | HASH_KEY_IS_LONG i \<Rightarrow> Some (IS_LONG (sint i)) | HASH_KEY_NON_EXISTANT \<Rightarrow> None) = Some kv"
    "\<And>st. var_serialize fmt (Value None kv) st = Some (encode_key k, st)"
proof (cases k)
  case (Str s)
  have "NUL \<in> set s"
  proof -
    have "s = cstr s @ [NUL]" using assms Str by (simp add: key_ok_def)
    then have "set s = set (cstr s @ [NUL])" by (rule arg_cong)
    then show ?thesis by simp
  qed
  then show ?thesis using Str
    by (intro that [of "IS_STRING (cstr s)"]) (simp_all add: key_value_def var_serialize.simps)
next
  case (Idx i)
  then show ?thesis by (intro that [of "IS_LONG (sint i)"]) (simp_all add: var_serialize.simps)
qed

text \<open>The loop over the elements \<open>vs\<close>, when each element is serialised to its text.\<close>

lemma elements_ok:
  assumes "tables st a = Some t" "at_pos t us vs" "\<not> persistent t"
    and "loc = None \<or> fst (the loc) \<in> A" "a \<notin> A"
    and "list_all2 (\<lambda>(k, d) (k', tr). k = k' \<and> key_ok k' \<and> d \<noteq> UNDEFINED \<and>
      (\<forall>p st1. same_tables st st1 \<longrightarrow> (\<exists>st2. var_serialize fmt (Value (Some (a, p)) d) st1 = Some (encode fmt tr, st2) \<and>
        same_tables st1 st2 \<and> (\<forall>b \<in> insert a A. tables st2 b = tables st1 b)))) (map (\<lambda>x. (bkey (bk t x), pData (bk t x))) vs) kvs"
  shows "\<exists>st'. var_serialize fmt (Elements loc a) st =
      Some (concat (map (\<lambda>(k, tr). encode_key k @ encode fmt tr) kvs), st') \<and>
    same_tables st st' \<and> (\<forall>b \<in> A. tables st' b = tables st b)"
  using assms(1-3,6)
proof (induction vs arbitrary: st t us kvs)
  case Nil
  then have "php3_hash_get_current_key t = Some (HASH_KEY_NON_EXISTANT, t)"
    by (simp add: php3_hash_get_current_key_def at_pos_def)
  with Nil show ?case by (subst var_serialize.simps) (auto split: option.splits)
next
  case (Cons x vs)
  note t = Cons.prems(1) and pos = Cons.prems(2)
  note cur = current_key_ok [OF pos Cons.prems(3)]
  let ?k = "bkey (bk t x)" and ?d = "pData (bk t x)"
  from Cons.prems(4) obtain tr kvs' where kvs: "kvs = (?k, tr) # kvs'" "key_ok ?k" "?d \<noteq> UNDEFINED"
    and elem: "\<And>p st1. same_tables st st1 \<Longrightarrow> \<exists>st2. var_serialize fmt (Value (Some (a, p)) ?d) st1 = Some (encode fmt tr, st2) \<and>
      same_tables st1 st2 \<and> (\<forall>b \<in> insert a A. tables st2 b = tables st1 b)"
    and rest: "list_all2 (\<lambda>(k, d) (k', tr). k = k' \<and> key_ok k' \<and> d \<noteq> UNDEFINED \<and>
      (\<forall>p st1. same_tables st st1 \<longrightarrow> (\<exists>st2. var_serialize fmt (Value (Some (a, p)) d) st1 = Some (encode fmt tr, st2) \<and>
        same_tables st1 st2 \<and> (\<forall>b \<in> insert a A. tables st2 b = tables st1 b)))) (map (\<lambda>x. (bkey (bk t x), pData (bk t x))) vs) kvs'"
    by (cases kvs) auto
  obtain kv where kv: "(case (case ?k of Str k \<Rightarrow> HASH_KEY_IS_STRING k | Idx i \<Rightarrow> HASH_KEY_IS_LONG i) of
      HASH_KEY_IS_STRING s \<Rightarrow> key_value s | HASH_KEY_IS_LONG i \<Rightarrow> Some (IS_LONG (sint i)) | HASH_KEY_NON_EXISTANT \<Rightarrow> None) = Some kv"
    "\<And>st. var_serialize fmt (Value None kv) st = Some (encode_key ?k, st)" by (rule key_text [OF kvs(2)]) blast
  obtain st2 where st2: "var_serialize fmt (Value (Some (a, x)) ?d) st = Some (encode fmt tr, st2)"
    "same_tables st st2" "\<forall>b \<in> insert a A. tables st2 b = tables st b" using elem [of st x] by auto
  let ?t' = "t\<lparr>pInternalPointer := head_ptr vs None\<rparr>" and ?st3 = "set_table st2 a (t\<lparr>pInternalPointer := head_ptr vs None\<rparr>)"
  have ta: "tables st2 a = Some t" using st2(3) t by simp
  have inv: "ht_inv t (us @ x # vs)" using pos by (simp add: at_pos_def)
  have "same_table t ?t'" by (rule same_table_pointer [OF inv]) (auto dest: head_ptr_in)
  then have "same_tables st2 ?st3" by (rule same_tables_set [OF ta])
  then have s3: "same_tables st ?st3" using st2(2) same_tables_trans by blast
  have "list_all2 (\<lambda>(k, d) (k', tr). k = k' \<and> key_ok k' \<and> d \<noteq> UNDEFINED \<and>
      (\<forall>p st1. same_tables ?st3 st1 \<longrightarrow> (\<exists>st2. var_serialize fmt (Value (Some (a, p)) d) st1 = Some (encode fmt tr, st2) \<and>
        same_tables st1 st2 \<and> (\<forall>b \<in> insert a A. tables st2 b = tables st1 b)))) (map (\<lambda>x. (bkey (bk ?t' x), pData (bk ?t' x))) vs) kvs'"
    using rest same_tables_trans [OF s3] by (auto elim!: list_all2_mono)
  from Cons.IH [OF _ forward_ok(2) [OF pos] _ this] Cons.prems(3)
  obtain st4 where st4: "var_serialize fmt (Elements loc a) ?st3 =
      Some (concat (map (\<lambda>(k, tr). encode_key k @ encode fmt tr) kvs'), st4)"
    "same_tables ?st3 st4" "\<forall>b \<in> A. tables st4 b = tables ?st3 b"
    by (auto simp: set_table_def)
  have "loc \<noteq> Some (a, x)" using assms(4,5) by auto
  moreover have "(case ?k of Str k \<Rightarrow> HASH_KEY_IS_STRING k | Idx i \<Rightarrow> HASH_KEY_IS_LONG i) \<noteq> HASH_KEY_NON_EXISTANT"
    by (cases ?k) simp_all
  ultimately have "var_serialize fmt (Elements loc a) st =
      Some (concat (map (\<lambda>(k, tr). encode_key k @ encode fmt tr) kvs), st4)"
    using t cur kv st2(1) ta forward_ok(1) [OF pos] st4(1) kvs
    by (subst var_serialize.simps) (cases "bkey (bk t x)"; simp)
  moreover have "\<forall>b \<in> A. tables st4 b = tables st b"
    using st4(3) st2(3) assms(5) by (auto simp: set_table_def)
  ultimately show ?case using same_tables_trans [OF s3 st4(2)] by blast
qed


lemma serialize_ok:
  "rep st A v tr \<Longrightarrow> tree_ok dok tr \<Longrightarrow> loc = None \<or> fst (the loc) \<in> A \<Longrightarrow> same_tables st st1 \<Longrightarrow>
    \<exists>st2. var_serialize fmt (Value loc v) st1 = Some (encode fmt tr, st2) \<and> same_tables st1 st2 \<and>
      (\<forall>b \<in> A. tables st2 b = tables st1 b)"
proof (induction arbitrary: loc st1 rule: rep.induct)
  case (rep_node a A st t os kvs obj)
  obtain t1 where t1: "tables st1 a = Some t1" "same_table t t1" using same_tablesD [OF rep_node.prems(3) rep_node.hyps(2)] by blast
  have inv1: "ht_inv t1 os" using rep_node.hyps(3) t1(2) by (simp add: same_table_def)
  have abs1: "ht_abs t1 os = ht_abs t os" and np: "\<not> persistent t1"
    using same_table_fields [OF t1(2)] rep_node.hyps(4) by auto
  let ?t = "php3_hash_internal_pointer_reset t1"
  have pos: "at_pos ?t [] os" by (rule reset_ok [OF inv1])
  have fields: "\<not> persistent ?t" "ht_abs ?t os = ht_abs t os"
    using np abs1 by (simp_all add: php3_hash_internal_pointer_reset_def ht_abs_def)
  have "same_table t1 ?t" unfolding php3_hash_internal_pointer_reset_def
    using inv1 by (intro same_table_pointer [OF inv1]) (auto simp: list_head dest: head_ptr_in)
  then have s1: "same_tables st1 (set_table st1 a ?t)" by (rule same_tables_set [OF t1(1)])
  have s0: "same_tables st (set_table st1 a ?t)" by (rule same_tables_trans [OF rep_node.prems(3) s1])
  have len: "length kvs = nNumOfElements t1"
    using list_all2_lengthD [OF rep_node.IH] num_elements [OF inv1] by simp
  have elems: "list_all2 (\<lambda>(k, d) (k', tr). k = k' \<and> key_ok k' \<and> d \<noteq> UNDEFINED \<and>
      (\<forall>p st2. same_tables (set_table st1 a ?t) st2 \<longrightarrow>
        (\<exists>st3. var_serialize fmt (Value (Some (a, p)) d) st2 = Some (encode fmt tr, st3) \<and>
        same_tables st2 st3 \<and> (\<forall>b \<in> insert a A. tables st3 b = tables st2 b)))) (ht_abs t os) kvs"
  proof (intro list.rel_mono_strong [OF rep_node.IH])
    fix x y
    assume y: "y \<in> set kvs" and r: "rel_prod (=) (\<lambda>x1 x2. rep st (insert a A) x1 x2 \<and>
      (tree_ok dok x2 \<longrightarrow> (\<forall>x. x = None \<or> fst (the x) \<in> insert a A \<longrightarrow> (\<forall>xa. same_tables st xa \<longrightarrow>
        (\<exists>st2. var_serialize fmt (Value x x1) xa = Some (encode fmt x2, st2) \<and> same_tables xa st2 \<and>
          (\<forall>b \<in> insert a A. tables st2 b = tables xa b)))))) x y"
    have ok: "key_ok (fst y) \<and> tree_ok dok (snd y)" using y rep_node.prems(1) by (auto simp: list_all_iff)
    have "\<exists>st3. var_serialize fmt (Value (Some (a, p)) (snd x)) st2 = Some (encode fmt (snd y), st3) \<and>
        same_tables st2 st3 \<and> (\<forall>b \<in> insert a A. tables st3 b = tables st2 b)"
      if "same_tables (set_table st1 a ?t) st2" for p st2
      using r ok same_tables_trans [OF s0 that] by (cases x; cases y) auto
    then show "(case x of (k, d) \<Rightarrow> \<lambda>(k', tr). k = k' \<and> key_ok k' \<and> d \<noteq> UNDEFINED \<and>
      (\<forall>p st2. same_tables (set_table st1 a ?t) st2 \<longrightarrow>
        (\<exists>st3. var_serialize fmt (Value (Some (a, p)) d) st2 = Some (encode fmt tr, st3) \<and>
        same_tables st2 st3 \<and> (\<forall>b \<in> insert a A. tables st3 b = tables st2 b)))) y"
      using r ok by (cases x; cases y) (auto dest: rep_defined)
  qed
  have elems: "list_all2 (\<lambda>(k, d) (k', tr). k = k' \<and> key_ok k' \<and> d \<noteq> UNDEFINED \<and>
      (\<forall>p st2. same_tables (set_table st1 a ?t) st2 \<longrightarrow>
        (\<exists>st3. var_serialize fmt (Value (Some (a, p)) d) st2 = Some (encode fmt tr, st3) \<and>
        same_tables st2 st3 \<and> (\<forall>b \<in> insert a A. tables st3 b = tables st2 b))))
      (map (\<lambda>x. (bkey (bk ?t x), pData (bk ?t x))) os) kvs"
    using elems fields(2) [unfolded ht_abs_def [of ?t]] by simp
  obtain st2 where st2: "var_serialize fmt (Elements loc a) (set_table st1 a ?t) =
      Some (concat (map (\<lambda>(k, tr). encode_key k @ encode fmt tr) kvs), st2)"
    "same_tables (set_table st1 a ?t) st2" "\<forall>b \<in> A. tables st2 b = tables (set_table st1 a ?t) b"
    using elements_ok [OF _ pos fields(1) rep_node.prems(2) rep_node.hyps(1) elems] by (auto simp: set_table_def)
  have A: "\<forall>b \<in> A. tables st2 b = tables st1 b" using st2(3) rep_node.hyps(1) by (auto simp: set_table_def)
  show ?case
  proof (cases "nNumOfElements t1 > 0")
    case True
    then have "var_serialize fmt (Value loc (if obj then IS_OBJECT a else IS_ARRAY a)) st1 = Some (encode fmt (Node obj kvs), st2)"
      using t1(1) st2(1) len by (subst var_serialize.simps) simp
    with A same_tables_trans [OF s1 st2(2)] show ?thesis by blast
  next
    case False
    then have "var_serialize fmt (Value loc (if obj then IS_OBJECT a else IS_ARRAY a)) st1 = Some (encode fmt (Node obj kvs), st1)"
      using t1(1) len by (subst var_serialize.simps) simp
    then show ?thesis by auto
  qed
qed (simp_all add: var_serialize.simps)


subsection \<open>Reading at a position\<close>

lemma byte_at_drop: "drop p buf = c # r \<Longrightarrow> byte_at buf p = Some c"
  unfolding byte_at_def by (metis drop_eq_Nil list.distinct(1) list.inject not_less Cons_nth_drop_Suc)

lemma drop_step: "drop p buf = xs @ ys \<Longrightarrow> drop (p + length xs) buf = ys"
  by (metis add.commute append_eq_conv_conj drop_drop)

lemma drop_less: "drop p buf = c # r \<Longrightarrow> p < length buf"
  by (metis drop_eq_Nil list.distinct(1) not_less)

lemma scan_to_ok:
  "drop p buf = xs @ c # r \<Longrightarrow> c \<notin> set xs \<Longrightarrow> NUL \<notin> set xs \<Longrightarrow> scan_to buf c p = Some (p + length xs)"
proof (induction xs arbitrary: p)
  case Nil
  then have "p < length buf" "buf ! p = c" using drop_less [of p buf c r] nth_via_drop [of p buf c r] by simp_all
  then show ?case by (subst scan_to.simps) simp
next
  case (Cons x xs)
  then have "p < length buf" "buf ! p = x" using drop_less [of p buf x] nth_via_drop [of p buf x] by simp_all
  moreover have "drop (Suc p) buf = xs @ c # r" using drop_step [of p buf "[x]" "xs @ c # r"] Cons.prems(1) by simp
  ultimately show ?case using Cons by (subst scan_to.simps) auto
qed

lemma number_at_ok: "drop p buf = c # r \<Longrightarrow> number_at conv buf p = Some (conv (c # r))"
  by (simp add: number_at_def drop_less)

lemma scalar_at_ok:
  assumes "drop p buf = [ch] @ '':'' @ xs @ CHR '';'' # r" "ch \<noteq> CHR '';''" "ch \<noteq> NUL"
    "CHR '';'' \<notin> set xs" "NUL \<notin> set xs"
  shows "scalar_at conv buf p = Some (Some (conv (xs @ CHR '';'' # r), p + length xs + 3))"
proof -
  have d1: "drop (p + 1) buf = CHR '':'' # xs @ CHR '';'' # r" using drop_step [of p buf "[ch]"] assms(1) by simp
  have d2: "drop (p + 2) buf = xs @ CHR '';'' # r" using drop_step [of p buf "[ch, CHR '':'']"] assms(1) by simp
  have d3: "drop (p + length xs + 2) buf = CHR '';'' # r" using drop_step [OF d2] by (simp add: algebra_simps)
  have "scan_to buf CHR '';'' p = Some (p + length ([ch] @ '':'' @ xs))"
    using assms by (intro scan_to_ok [where r = r]) auto
  moreover obtain c r' where "xs @ CHR '';'' # r = c # r'" by (cases xs) auto
  ultimately show ?thesis using byte_at_drop [OF d1] byte_at_drop [OF d3] number_at_ok [of "p + 2" buf c r' conv] d2
    by (simp add: scalar_at_def)
qed

lemma string_at_ok:
  assumes "drop p buf = serialize_string s @ r" "r \<noteq> []" "length s < 2 ^ 31" "length buf = mx + 1"
  shows "string_at buf mx p = (if length s < 800 then Some (Some (s, p + length (serialize_string s))) else None)"
proof -
  let ?n = "show_long (int (length s))"
  let ?tail = "CHR 0x22 # s @ CHR 0x22 # CHR '';'' # r"
  have d: "drop p buf = ''s:'' @ ?n @ CHR '':'' # ?tail" using assms(1) by (simp add: serialize_string_def)
  have d1: "drop (p + 1) buf = CHR '':'' # ?n @ CHR '':'' # ?tail" using drop_step [of p buf "''s''"] d by simp
  have d2: "drop (p + 2) buf = ?n @ CHR '':'' # ?tail" using drop_step [of p buf "''s:''"] d by simp
  let ?p = "p + 2 + length ?n"
  have d3: "drop ?p buf = CHR '':'' # ?tail" using drop_step [OF d2] .
  have d4: "drop (?p + 1) buf = ?tail" using drop_step [of ?p buf "'':''"] d3 by simp
  have d5: "drop (?p + 2) buf = s @ CHR 0x22 # CHR '';'' # r" using drop_step [of ?p buf "[CHR '':'', CHR 0x22]"] d3 by simp
  have d6: "drop (?p + 2 + length s) buf = CHR 0x22 # CHR '';'' # r" using drop_step [OF d5] .
  have d7: "drop (?p + 3 + length s) buf = CHR '';'' # r" using drop_step [of "?p + 2 + length s" buf "[CHR 0x22]"] d6 by (simp add: eval_nat_numeral algebra_simps)
  have d8: "drop (?p + 4 + length s) buf = r" using drop_step [of "?p + 3 + length s" buf "'';''"] d7 by (simp add: eval_nat_numeral algebra_simps)
  have "?p + 4 + length s < length buf" using d8 assms(2) by (metis drop_eq_Nil not_less)
  then have mx: "\<not> ?p + 3 + length s > mx" using assms(4) by simp
  have "scan_to buf CHR '':'' (p + 2) = Some ?p"
    using d2 by (intro scan_to_ok [where r = ?tail]) simp_all
  moreover have "number_at atoi buf (p + 2) = Some (int (length s))"
  proof -
    obtain c r' where c: "?n @ CHR '':'' # ?tail = c # r'" by (cases ?n) auto
    have "atoi (c # r') = int (length s)" unfolding c [symmetric]
      using assms(3) by (intro atoi_show) simp_all
    with number_at_ok [of "p + 2" buf c r' atoi] d2 c show ?thesis by simp
  qed
  moreover have "take (length s) (drop (?p + 2) buf) = s" unfolding d5 by simp
  ultimately show ?thesis
    using byte_at_drop [OF d1] byte_at_drop [OF d3] byte_at_drop [OF d4] byte_at_drop [OF d6] byte_at_drop [OF d7] mx
    by (simp add: string_at_def serialize_string_def algebra_simps)
qed


subsection \<open>Unserialising\<close>

fun key_pval :: "hkey \<Rightarrow> 'f pval" where
  "key_pval (Idx i) = IS_LONG (sint i)"
| "key_pval (Str s) = IS_STRING (cstr s)"

lemma sint_long: "LONG_MIN \<le> sint (i :: ulong)" "sint (i :: ulong) \<le> LONG_MAX"
  using sint_greater_eq [of i] sint_less [of i] by (simp_all add: LONG_MIN_def LONG_MAX_def)

lemma read_long:
  assumes "drop p buf = serialize_long i @ r" "LONG_MIN \<le> i" "i \<le> LONG_MAX"
  shows "var_unserialize atof buf mx (Read p) st = Some (Some (IS_LONG i, p + length (serialize_long i), st))"
proof -
  have d: "drop p buf = ''i'' @ '':'' @ show_long i @ CHR '';'' # r" using assms(1) by (simp add: serialize_long_def)
  then have "drop p buf = CHR ''i'' # '':'' @ show_long i @ CHR '';'' # r" by simp
  from byte_at_drop [OF this] scalar_at_ok [where ch = "CHR ''i''" and conv = atol, OF d] show ?thesis
    using atol_show [OF assms(2,3), of "CHR '';''" r]
    by (subst var_unserialize.simps) (simp add: serialize_long_def)
qed

lemma read_string:
  assumes "drop p buf = serialize_string s @ r" "r \<noteq> []" "length s < 2 ^ 31" "length buf = mx + 1"
  shows "var_unserialize atof buf mx (Read p) st =
    (if length s < 800 then Some (Some (IS_STRING s, p + length (serialize_string s), st)) else None)"
proof -
  have "drop p buf = CHR ''s'' # drop 1 (serialize_string s) @ r" using assms(1) by (simp add: serialize_string_def)
  from byte_at_drop [OF this] string_at_ok [OF assms] show ?thesis
    by (subst var_unserialize.simps) simp
qed

lemma read_key:
  assumes "drop p buf = encode_key k @ r" "r \<noteq> []" "key_ok k" "length buf = mx + 1"
  shows "var_unserialize atof buf mx (Read p) st =
      (if key_fits k then Some (Some (key_pval k, p + length (encode_key k), st)) else None)"
    and "\<exists>c. byte_at buf p = Some c \<and> c \<noteq> NUL \<and> c \<noteq> CHR ''}''"
proof -
  have "\<exists>c r'. drop p buf = c # r' \<and> c \<noteq> NUL \<and> c \<noteq> CHR ''}''"
    using assms(1) by (cases k) (auto simp: serialize_long_def serialize_string_def)
  then show "\<exists>c. byte_at buf p = Some c \<and> c \<noteq> NUL \<and> c \<noteq> CHR ''}''" by (blast dest: byte_at_drop)
  show "var_unserialize atof buf mx (Read p) st =
      (if key_fits k then Some (Some (key_pval k, p + length (encode_key k), st)) else None)"
  proof (cases k)
    case (Idx i)
    then show ?thesis using read_long [OF _ sint_long] assms(1) by (simp add: key_fits_def)
  next
    case (Str s)
    have "length (cstr s) < 2 ^ 31"
      using assms(3) Str length_takeWhile_le [of "\<lambda>c. c \<noteq> NUL" s] by (simp add: key_ok_def cstr_def)
    then show ?thesis using read_string [OF _ assms(2) _ assms(4), of p "cstr s" atof st] assms(1) Str by (simp add: key_fits_def)
  qed
qed

lemma store_element_ok:
  assumes "tables st a = Some t" "ht_inv t os" "\<not> persistent t" "key_ok k" "k \<notin> fst ` set (ht_abs t os)"
  obtains t' os' where "store_element st a (key_pval k) d = Some (set_table st a t')" "ht_inv t' os'"
    "ht_abs t' os' = ht_abs t os @ [(k, d)]" "\<not> persistent t'"
proof -
  have mem: "mem_ok t" using assms(3) by (simp add: mem_ok_def)
  show ?thesis
  proof (cases k)
    case (Idx i)
    have tgt: "i = target_index t i HASH_UPDATE" by (simp add: target_index_def)
    obtain q t' os' where "php3_hash_index_update_or_next_insert t i d HASH_UPDATE = Some (SUCCESS, Some q, t')"
      "ht_inv t' os'" "ht_abs t' os' = AList.update (Idx i) d (ht_abs t os)" "same_params t t'"
      by (rule index_insert_ok [OF assms(2) mem tgt, of d]) auto
    then show ?thesis using assms(1,3,5) Idx
      by (intro that [of t' os']) (auto simp: store_element_def update_new_pair same_params_def)
  next
    case (Str s)
    then have s: "s = cstr s @ [NUL]" "norm_key s = Str s" "s \<noteq> []" using assms(4) by (auto simp: key_ok_def norm_key_def)
    have "HASH_ADD \<noteq> HASH_NEXT_INSERT" "HASH_ADD = HASH_UPDATE \<or> norm_key s \<notin> fst ` set (ht_abs t os)"
      using assms(5) Str s(2) by simp_all
    from add_or_update_ok [OF assms(2) mem s(3) this, of d] obtain q t' os' where "php3_hash_add_or_update t s d HASH_ADD = Some (SUCCESS, Some q, t')"
      "ht_inv t' os'" "ht_abs t' os' = AList.update (norm_key s) d (ht_abs t os)" "same_params t t'"
      by metis
    then show ?thesis using assms(1,3,5) Str s(2)
      by (intro that [of t' os']) (auto simp: store_element_def s(1) [symmetric] update_new_pair same_params_def)
  qed
qed


text \<open>What reading the text of a tree at \<open>p\<close> gives: the tree, or a fault when its blocks are too small.\<close>

definition reads ::
  "('f \<Rightarrow> char list) \<Rightarrow> (char list \<Rightarrow> 'f) \<Rightarrow> char list \<Rightarrow> 'f tree \<Rightarrow> bool" where
  "reads fmt atof buf tr \<longleftrightarrow>
     (\<forall>p st r. drop p buf = encode fmt tr @ r \<longrightarrow> r \<noteq> [] \<longrightarrow> store_wf st \<longrightarrow>
       (if fits tr then
         (\<exists>v st'. var_unserialize atof buf (length buf - 1) (Read p) st = Some (Some (v, p + length (encode fmt tr), st')) \<and>
           rep st' {..<next_table st} v tr \<and> store_wf st' \<and> extends st st')
        else var_unserialize atof buf (length buf - 1) (Read p) st = None))"

text \<open>The text of elements, and the state of the loop that reads them into the table at \<open>a\<close>.\<close>

abbreviation elements_text :: "('f \<Rightarrow> char list) \<Rightarrow> (hkey \<times> 'f tree) list \<Rightarrow> char list" where
  "elements_text fmt kvs \<equiv> concat (map (\<lambda>(k, tr). encode_key k @ encode fmt tr) kvs)"

definition loop_state :: "'f store \<Rightarrow> addr \<Rightarrow> (hkey \<times> 'f tree) list \<Rightarrow> bool" where
  "loop_state st a ks \<longleftrightarrow> store_wf st \<and> (\<exists>t os. tables st a = Some t \<and> ht_inv t os \<and> \<not> persistent t \<and>
     list_all2 (rel_prod (=) (rep st (insert a {..<a}))) (ht_abs t os) ks)"

lemma loop_keys: "list_all2 (rel_prod (=) R) xs ks \<Longrightarrow> fst ` set xs = fst ` set ks"
  by (induction rule: list_all2_induct) auto

text \<open>One element that fits.\<close>

lemma read_element:
  assumes ok: "key_ok k" "key_fits k" "reads fmt atof buf tr" "fits tr"
    and d: "drop p buf = encode_key k @ encode fmt tr @ r" "r \<noteq> []"
    and st: "loop_state st a ks" "k \<notin> fst ` set ks" "i > 0"
  obtains st' where
    "var_unserialize atof buf (length buf - 1) (Read_elements rv a i p) st =
     var_unserialize atof buf (length buf - 1) (Read_elements rv a (i - 1) (p + length (encode_key k @ encode fmt tr))) st'"
    "loop_state st' a (ks @ [(k, tr)])" "extends_but a st st'"
proof -
  obtain t os where tb: "tables st a = Some t" and t: "ht_inv t os" "\<not> persistent t" and wf: "store_wf st"
    and rel: "list_all2 (rel_prod (=) (rep st (insert a {..<a}))) (ht_abs t os) ks" using st(1) unfolding loop_state_def by blast
  have buf: "length buf = (length buf - 1) + 1" using d by (cases buf) auto
  let ?p1 = "p + length (encode_key k)" and ?p2 = "p + length (encode_key k) + length (encode fmt tr)"
  have ne: "encode fmt tr @ r \<noteq> []" using d(2) by simp
  have k: "var_unserialize atof buf (length buf - 1) (Read p) st = Some (Some (key_pval k, ?p1, st))"
    "\<exists>c. byte_at buf p = Some c \<and> c \<noteq> NUL \<and> c \<noteq> CHR ''}''"
    using read_key [OF d(1) ne ok(1) buf] ok(2) by auto
  have d1: "drop ?p1 buf = encode fmt tr @ r" using drop_step [OF d(1)] .
  obtain v st2 where v: "var_unserialize atof buf (length buf - 1) (Read ?p1) st = Some (Some (v, ?p2, st2))"
    "rep st2 {..<next_table st} v tr" "store_wf st2" "extends st st2"
    using ok(3,4) d1 d(2) wf unfolding reads_def by force
  have a: "a < next_table st" using wf tb by (auto simp: store_wf_def)
  have ta: "tables st2 a = Some t" using v(4) a tb by (simp add: extends_def)
  have new: "k \<notin> fst ` set (ht_abs t os)" using st(2) loop_keys [OF rel] by simp
  obtain t1 os1 where t1: "store_element st2 a (key_pval k) v = Some (set_table st2 a t1)" "ht_inv t1 os1"
    "ht_abs t1 os1 = ht_abs t os @ [(k, v)]" "\<not> persistent t1"
    by (rule store_element_ok [OF ta t ok(1) new]) blast
  let ?st3 = "set_table st2 a t1"
  have same: "b \<noteq> a \<Longrightarrow> tables ?st3 b = tables st2 b" for b by (simp add: set_table_def)
  have "rep ?st3 {..<next_table st} v tr" using v(2) by (rule rep_cong) (use a same in auto)
  then have rv: "rep ?st3 (insert a {..<a}) v tr" using a by (elim rep_antimono) auto
  have "rep ?st3 (insert a {..<a}) d tr'" if "rep st (insert a {..<a}) d tr'" for d tr'
    using that by (rule rep_cong) (use wf v(4) same in \<open>auto simp: store_wf_def extends_def\<close>)
  then have "list_all2 (rel_prod (=) (rep ?st3 (insert a {..<a}))) (ht_abs t os) ks"
    using rel by (elim list.rel_mono_strong) (auto simp: rel_prod_sel)
  then have "list_all2 (rel_prod (=) (rep ?st3 (insert a {..<a}))) (ht_abs t1 os1) (ks @ [(k, tr)])"
    using rv by (simp add: t1(3) list_all2_appendI)
  moreover have "tables ?st3 a = Some t1" by (simp add: set_table_def)
  moreover have "store_wf ?st3" by (rule store_wf_set [OF v(3) ta])
  ultimately have "loop_state ?st3 a (ks @ [(k, tr)])" using t1(2,4) unfolding loop_state_def by blast
  moreover have "var_unserialize atof buf (length buf - 1) (Read_elements rv a i p) st =
      var_unserialize atof buf (length buf - 1) (Read_elements rv a (i - 1) (p + length (encode_key k @ encode fmt tr))) ?st3"
    using k v(1) t1(1) st(3) by (subst var_unserialize.simps) (auto simp: add.assoc)
  moreover have "extends_but a st ?st3" using v(4) by (auto simp: set_table_def extends_def extends_but_def)
  ultimately show ?thesis using that by blast
qed

text \<open>An element that does not fit.\<close>

lemma read_element_fault:
  assumes ok: "key_ok k" "reads fmt atof buf tr" "\<not> (key_fits k \<and> fits tr)"
    and d: "drop p buf = encode_key k @ encode fmt tr @ r" "r \<noteq> []" and st: "store_wf st" "i > 0"
  shows "var_unserialize atof buf (length buf - 1) (Read_elements rv a i p) st = None"
proof -
  have buf: "length buf = (length buf - 1) + 1" using d by (cases buf) auto
  have ne: "encode fmt tr @ r \<noteq> []" using d(2) by simp
  note k = read_key [OF d(1) ne ok(1) buf]
  show ?thesis
  proof (cases "key_fits k")
    case True
    then have "var_unserialize atof buf (length buf - 1) (Read (p + length (encode_key k))) st = None"
      using ok(2,3) d(2) drop_step [OF d(1)] st(1) unfolding reads_def by auto
    with k(1) [of atof st] k(2) True st(2) show ?thesis by (subst var_unserialize.simps) auto
  next
    case False
    with k(1) [of atof st] k(2) st(2) show ?thesis by (subst var_unserialize.simps) auto
  qed
qed

lemma extends_but_trans: "extends_but a s1 s2 \<Longrightarrow> extends_but a s2 s3 \<Longrightarrow> extends_but a s1 s3"
  by (auto simp: extends_but_def)

lemma read_elements_ok:
  assumes "\<And>k tr. (k, tr) \<in> set kvs \<Longrightarrow> key_ok k \<and> reads fmt atof buf tr"
    and "drop p buf = elements_text fmt kvs @ CHR ''}'' # r"
    and "i = int (length kvs)" "distinct (map fst kvs)" "fst ` set kvs \<inter> fst ` set ks = {}" "loop_state st a ks"
  shows "if list_all (\<lambda>(k, tr). key_fits k \<and> fits tr) kvs then
      (\<exists>st'. var_unserialize atof buf (length buf - 1) (Read_elements rv a i p) st =
        Some (Some (rv, p + length (elements_text fmt kvs) + 1, st')) \<and> loop_state st' a (ks @ kvs) \<and> extends_but a st st')
    else var_unserialize atof buf (length buf - 1) (Read_elements rv a i p) st = None"
  using assms
proof (induction kvs arbitrary: p i st ks)
  case Nil
  then have "byte_at buf p = Some CHR ''}''" by (auto intro: byte_at_drop)
  then show ?case using Nil.prems by (subst var_unserialize.simps) (auto simp: extends_but_def)
next
  case (Cons kt kvs)
  obtain k tr where kt [simp]: "kt = (k, tr)" by (cases kt)
  have ok: "key_ok k" "reads fmt atof buf tr" using Cons.prems(1) by auto
  have d: "drop p buf = encode_key k @ encode fmt tr @ elements_text fmt kvs @ CHR ''}'' # r" using Cons.prems(2) by simp
  have i: "i > 0" and wf: "store_wf st" using Cons.prems(3,6) by (simp_all add: loop_state_def)
  show ?case
  proof (cases "key_fits k \<and> fits tr")
    case False
    from read_element_fault [OF ok False d _ wf i] False show ?thesis by auto
  next
    case True
    have new: "k \<notin> fst ` set ks" using Cons.prems(5) by auto
    obtain st' where st': "var_unserialize atof buf (length buf - 1) (Read_elements rv a i p) st =
       var_unserialize atof buf (length buf - 1) (Read_elements rv a (i - 1) (p + length (encode_key k @ encode fmt tr))) st'"
      "loop_state st' a (ks @ [(k, tr)])" "extends_but a st st'"
      by (rule read_element [OF ok(1) conjunct1 [OF True] ok(2) conjunct2 [OF True] d _ Cons.prems(6) new i]) auto
    have d2: "drop (p + length (encode_key k @ encode fmt tr)) buf = elements_text fmt kvs @ CHR ''}'' # r"
      using drop_step [of p buf "encode_key k @ encode fmt tr"] d by simp
    have all: "key_ok k' \<and> reads fmt atof buf tr'" if "(k', tr') \<in> set kvs" for k' tr'
      using Cons.prems(1) [of k' tr'] that by simp
    have "i - 1 = int (length kvs)" "distinct (map fst kvs)" "fst ` set kvs \<inter> fst ` set (ks @ [(k, tr)]) = {}"
      using Cons.prems(3-5) by auto
    from Cons.IH [OF all d2 this st'(2)] True st'(1) extends_but_trans [OF st'(3)] show ?thesis
      by (auto simp: add.assoc)
  qed
qed

text \<open>The size of a new table, which is a prime: up to 53 buckets fit in the block.\<close>

lemma prime_index_size:
  "PrimeNumbers ! (if prime_index n 0 = nNumPrimeNumbers then prime_index n 0 - 1 else prime_index n 0) * 8 \<le> 800 \<longleftrightarrow> n \<le> 53"
proof -
  have step: "prime_index n i = (if n \<le> PrimeNumbers ! i then i else prime_index n (Suc i))" if "i < 14" for i
    using that by (subst prime_index.simps) (simp add: nNumPrimeNumbers_14)
  have large: "PrimeNumbers ! i * 8 > 800" if "4 \<le> i" "i < 14" for i
  proof -
    have "i = 4 \<or> i = 5 \<or> i = 6 \<or> i = 7 \<or> i = 8 \<or> i = 9 \<or> i = 10 \<or> i = 11 \<or> i = 12 \<or> i = 13" using that by presburger
    then show ?thesis by (elim disjE) (simp_all add: PrimeNumbers_def)
  qed
  have prime: "PrimeNumbers ! 0 = 5" "PrimeNumbers ! 1 = 11" "PrimeNumbers ! 2 = 19" "PrimeNumbers ! 3 = 53"
    by (simp_all add: PrimeNumbers_def)
  have i: "prime_index n 0 = (if n \<le> 5 then 0 else if n \<le> 11 then 1 else if n \<le> 19 then 2 else if n \<le> 53 then 3 else prime_index n 4)"
    using step [of 0] step [of 1] step [of 2] step [of 3] unfolding prime by (simp add: eval_nat_numeral)
  show ?thesis
  proof (cases "n \<le> 53")
    case True
    then have "prime_index n 0 \<in> {0, 1, 2, 3}" using i by auto
    with prime True show ?thesis by (auto simp: nNumPrimeNumbers_14)
  next
    case False
    then have "prime_index n 0 = prime_index n 4" using i by simp
    moreover have "i \<le> prime_index n i" for i by (induction n i rule: prime_index.induct) (subst prime_index.simps, force)
    then have "4 \<le> prime_index n 4" "prime_index n 4 \<le> 14" using prime_index_bound [of 4 n] by (simp_all add: nNumPrimeNumbers_14)
    ultimately show ?thesis using False large [of "prime_index n 4"] large [of 13] by (auto simp: nNumPrimeNumbers_14 not_le)
  qed
qed

lemma init_table_ok:
  obtains (fits) t :: "'f pval hashtable" where "n \<le> 53" "init_table n = Some t" "ht_inv t []" "ht_abs t [] = []" "\<not> persistent t"
  | (fault) "n > 53" "(init_table n :: 'f pval hashtable option) = None"
proof -
  obtain t :: "'f pval hashtable" where t: "php3_hash_init n None True False [] = Some t" "ht_inv t []" "ht_abs t [] = []" "persistent t = False"
    by (rule init_ok [of "[]" n None True False]) auto
  have "nTableSize t * 8 \<le> 800 \<longleftrightarrow> n \<le> 53"
    using t(1) prime_index_size [of n] by (auto simp: php3_hash_init_def pemalloc_def Let_def)
  with t show ?thesis using that(1) [of t] that(2) by (cases "n \<le> 53") (auto simp: init_table_def)
qed

lemma array_at_ok:
  assumes "drop p buf = serialize_head ch n @ r" "n < 2 ^ 31"
  obtains (fits) t :: "'f pval hashtable" where "n < 53"
    "array_at buf p st = Some (Some (int n, next_table st, p + length (serialize_head ch n),
      (set_table st (next_table st) t)\<lparr>next_table := Suc (next_table st)\<rparr>))"
    "ht_inv t []" "ht_abs t [] = []" "\<not> persistent t"
  | (fault) "n \<ge> 53" "array_at buf p st = None"
proof -
  let ?n = "show_long (int n)"
  have d: "drop p buf = [ch, CHR '':''] @ ?n @ CHR '':'' # CHR ''{'' # r" using assms(1) by (simp add: serialize_head_def)
  have d2: "drop (p + 2) buf = ?n @ CHR '':'' # CHR ''{'' # r" using drop_step [OF d] by simp
  have d3: "drop (p + 2 + length ?n) buf = CHR '':'' # CHR ''{'' # r" using drop_step [OF d2] .
  have d4: "drop (p + 2 + length ?n + 1) buf = CHR ''{'' # r" using drop_step [of _ buf "'':''"] d3 by simp
  have number: "number_at atoi buf (p + 2) = Some (int n)"
  proof -
    obtain c r' where c: "?n @ CHR '':'' # CHR ''{'' # r = c # r'" by (cases ?n) auto
    have "atoi (c # r') = int n" unfolding c [symmetric] using assms(2) by (intro atoi_show) simp_all
    with number_at_ok [of "p + 2" buf c r' atoi] d2 c show ?thesis by simp
  qed
  have size: "nat ((int n + 1) mod 2 ^ 32) = n + 1" "nat (int n + 1) = n + 1" using assms(2) by simp_all
  have scan: "scan_to buf CHR '':'' (p + 2) = Some (p + 2 + length ?n)"
    using d2 by (intro scan_to_ok [where r = "CHR ''{'' # r"]) simp_all
  show ?thesis
  proof (cases rule: init_table_ok [where n = "n + 1" and ?'f = 'f])
    case (fits t)
    then have "array_at buf p st = Some (Some (int n, next_table st, p + length (serialize_head ch n),
        (set_table st (next_table st) t)\<lparr>next_table := Suc (next_table st)\<rparr>))"
      using byte_at_drop [OF d3] byte_at_drop [OF d4] number scan size
      by (simp add: array_at_def serialize_head_def Let_def algebra_simps)
    with fits show ?thesis by (intro that(1) [of t]) simp_all
  next
    case fault
    then show ?thesis using number size by (intro that(2)) (simp_all add: array_at_def)
  qed
qed

lemma reads_ok: "tree_ok (double_ok fmt atof) tr \<Longrightarrow> reads fmt atof buf tr"
proof (induction tr)
  case (Long_leaf i)
  then show ?case by (auto simp: reads_def read_long intro: rep.intros)
next
  case (Double_leaf d)
  show ?case unfolding reads_def
  proof (intro allI impI)
    fix p and st :: "'a store" and r
    assume dr: "drop p buf = encode fmt (Double_leaf d) @ r" and wf: "store_wf st"
    have d: "drop p buf = ''d'' @ '':'' @ fmt d @ CHR '';'' # r" using dr by simp
    then have "drop p buf = CHR ''d'' # '':'' @ fmt d @ CHR '';'' # r" by simp
    moreover have "scalar_at atof buf p = Some (Some (d, p + length (fmt d) + 3))"
      using scalar_at_ok [where ch = "CHR ''d''" and conv = atof, OF d] Double_leaf by (simp add: double_ok_def)
    ultimately have "var_unserialize atof buf (length buf - 1) (Read p) st =
        Some (Some (IS_DOUBLE d, p + length (encode fmt (Double_leaf d)), st))"
      by (subst var_unserialize.simps) (simp add: byte_at_drop)
    with wf show "if fits (Double_leaf d) then
        (\<exists>v st'. var_unserialize atof buf (length buf - 1) (Read p) st =
          Some (Some (v, p + length (encode fmt (Double_leaf d)), st')) \<and>
          rep st' {..<next_table st} v (Double_leaf d) \<and> store_wf st' \<and> extends st st')
        else var_unserialize atof buf (length buf - 1) (Read p) st = None"
      by (auto intro: rep.rep_double)
  qed
next
  case (String_leaf s)
  show ?case unfolding reads_def
  proof (intro allI impI)
    fix p and st :: "'a store" and r
    assume d: "drop p buf = encode fmt (String_leaf s) @ r" "r \<noteq> []" and wf: "store_wf st"
    have "length buf = (length buf - 1) + 1" using d by (cases buf) (auto simp: serialize_string_def)
    then have "var_unserialize atof buf (length buf - 1) (Read p) st =
        (if length s < 800 then Some (Some (IS_STRING s, p + length (serialize_string s), st)) else None)"
      using read_string [of p buf s r "length buf - 1" atof st] d String_leaf by simp
    with wf show "if fits (String_leaf s) then
        (\<exists>v st'. var_unserialize atof buf (length buf - 1) (Read p) st =
          Some (Some (v, p + length (encode fmt (String_leaf s)), st')) \<and>
          rep st' {..<next_table st} v (String_leaf s) \<and> store_wf st' \<and> extends st st')
        else var_unserialize atof buf (length buf - 1) (Read p) st = None"
      by (auto intro: rep.rep_string)
  qed
next
  case (Node obj kvs)
  have all: "key_ok k \<and> reads fmt atof buf tr" if "(k, tr) \<in> set kvs" for k tr
    using Node.prems Node.IH [of "(k, tr)" tr] that by (auto simp: list_all_iff)
  have dist: "distinct (map fst kvs)" and len: "length kvs < 2 ^ 31" using Node.prems by simp_all
  let ?ch = "if obj then CHR ''o'' else CHR ''a''" and ?text = "elements_text fmt kvs"
  show ?case unfolding reads_def
  proof (intro allI impI)
    fix p and st :: "'a store" and r
    assume "drop p buf = encode fmt (Node obj kvs) @ r" and wf: "store_wf st"
    then have d: "drop p buf = serialize_head ?ch (length kvs) @ ?text @ CHR ''}'' # r" by simp
    let ?a = "next_table st" and ?p1 = "p + length (serialize_head ?ch (length kvs))"
    let ?v = "if obj then IS_OBJECT ?a else IS_ARRAY ?a :: 'a pval"
    let ?u = "\<lambda>job st. var_unserialize atof buf (length buf - 1) job st"
    have byte: "byte_at buf p = Some ?ch" using d by (intro byte_at_drop) (simp add: serialize_head_def)
    show "if fits (Node obj kvs) then
        (\<exists>v st'. ?u (Read p) st = Some (Some (v, p + length (encode fmt (Node obj kvs)), st')) \<and>
          rep st' {..<next_table st} v (Node obj kvs) \<and> store_wf st' \<and> extends st st')
        else ?u (Read p) st = None"
    proof (cases rule: array_at_ok [OF d len, where st = st])
      case (1 t)
      let ?st1 = "(set_table st ?a t)\<lparr>next_table := Suc ?a\<rparr>"
      have d1: "drop ?p1 buf = ?text @ CHR ''}'' # r" using drop_step [OF d] .
      have "loop_state ?st1 ?a []" using 1(3-5) wf
        by (auto simp: loop_state_def set_table_def store_wf_def less_Suc_eq intro: exI [of _ "[]"])
      note loop = read_elements_ok [where rv = ?v, OF all d1 refl dist _ this, simplified]
      have e: "if list_all (\<lambda>(k, tr). key_fits k \<and> fits tr) kvs then
          (\<exists>st'. ?u (Read_elements ?v ?a (int (length kvs)) ?p1) ?st1 = Some (Some (?v, ?p1 + length ?text + 1, st')) \<and>
            loop_state st' ?a ([] @ kvs) \<and> extends_but ?a ?st1 st')
        else ?u (Read_elements ?v ?a (int (length kvs)) ?p1) ?st1 = None" using loop by simp
      have u: "?u (Read p) st = ?u (Read_elements ?v ?a (int (length kvs)) ?p1) ?st1"
        using byte 1(2) by (subst var_unserialize.simps) auto
      show ?thesis
      proof (cases "list_all (\<lambda>(k, tr). key_fits k \<and> fits tr) kvs")
        case True
        then have f: "fits (Node obj kvs)" using 1(1) by simp
        obtain st' where st': "?u (Read_elements ?v ?a (int (length kvs)) ?p1) ?st1 = Some (Some (?v, ?p1 + length ?text + 1, st'))"
          "loop_state st' ?a kvs" "extends_but ?a ?st1 st'" using e [unfolded if_P [OF True] append_Nil] by blast
        obtain t' os' where t': "store_wf st'" "tables st' ?a = Some t'" "ht_inv t' os'" "\<not> persistent t'"
          "list_all2 (rel_prod (=) (rep st' (insert ?a {..<?a}))) (ht_abs t' os') kvs" using st'(2) unfolding loop_state_def by blast
        have "rep st' {..<?a} ?v (Node obj kvs)" by (rule rep.rep_node [OF _ t'(2-5)]) simp
        note this t'(1)
        moreover have "extends st st'" using st'(3) by (auto simp: extends_def extends_but_def set_table_def)
        moreover have "?u (Read p) st = Some (Some (?v, p + length (encode fmt (Node obj kvs)), st'))"
          unfolding u st'(1) by (simp add: algebra_simps)
        ultimately show ?thesis unfolding if_P [OF f] by blast
      next
        case False
        then have "\<not> fits (Node obj kvs)" by simp
        then show ?thesis using e [unfolded if_not_P [OF False]] u by simp
      qed
    next
      case 2
      then have "?u (Read p) st = None" using byte by (subst var_unserialize.simps) auto
      with 2(1) show ?thesis by simp
    qed
  qed
qed simp_all

end
