(* ===== verification/Serialize_Safe.thy ===== *)
theory Serialize_Safe
  imports Serialize_Proofs
begin

text \<open>
  \<open>unserialize\<close> on arbitrary text: it returns, reads inside the text and writes inside its blocks, when no string and no
  table it announces is too large for the 800 bytes that \<open>emalloc\<close> gives and it does not end in the letter of an array
  or an object. \<open>result_ok\<close> says what every call leaves behind.
\<close>

text \<open>The letter at \<open>p\<close>, if it starts a value, starts one that has room; a string that is longer than the text is not copied.\<close>

definition block_fits :: "char list \<Rightarrow> nat \<Rightarrow> bool" where
  "block_fits buf p \<longleftrightarrow>
     (let i = atoi (drop (p + 2) buf) in
      (buf ! p = CHR ''a'' \<or> buf ! p = CHR ''o'' \<longrightarrow> p + 2 < length buf \<and> - 1 \<le> i \<and> i \<le> 52) \<and>
      (buf ! p = CHR ''s'' \<longrightarrow> i < 800 \<or> int (length buf) \<le> i))"

definition blocks_fit :: "char list \<Rightarrow> bool" where
  "blocks_fit s \<longleftrightarrow> list_all (block_fits (s @ [NUL])) [0..<length s]"

definition result_ok :: "char list \<Rightarrow> nat \<Rightarrow> ('f store \<Rightarrow> bool) \<Rightarrow> ('f pval \<times> nat \<times> 'f store) option option \<Rightarrow> bool" where
  "result_ok buf p Q r \<longleftrightarrow>
     (\<exists>res. r = Some res \<and> (\<forall>v q st'. res = Some (v, q, st') \<longrightarrow> p < q \<and> q < length buf \<and> Q st'))"

lemma result_okI:
  "r = Some res \<Longrightarrow> (\<And>v q st'. res = Some (v, q, st') \<Longrightarrow> p < q \<and> q < length buf \<and> Q st') \<Longrightarrow> result_ok buf p Q r"
  by (auto simp: result_ok_def)

lemma result_ok_None [simp]: "result_ok buf p Q (Some None)"
  by (simp add: result_ok_def)

lemma result_ok_weaken:
  "result_ok buf p Q r \<Longrightarrow> p' \<le> p \<Longrightarrow> (\<And>st. Q st \<Longrightarrow> Q' st) \<Longrightarrow> result_ok buf p' Q' r"
  by (fastforce simp: result_ok_def)

lemma scan_to_total:
  "p < length buf \<Longrightarrow> last buf = NUL \<Longrightarrow>
    \<exists>p1. scan_to buf c p = Some p1 \<and> p \<le> p1 \<and> p1 < length buf \<and> (buf ! p1 = NUL \<or> buf ! p1 = c)"
proof (induction buf c p rule: scan_to.induct)
  case (1 buf c p)
  show ?case
  proof (cases "buf ! p = NUL \<or> buf ! p = c")
    case False
    with "1.prems" have "Suc p < length buf"
      by (metis Suc_lessI diff_Suc_1 last_conv_nth length_0_conv not_less_zero)
    then obtain p1 where "scan_to buf c (Suc p) = Some p1" "Suc p \<le> p1" "p1 < length buf" "buf ! p1 = NUL \<or> buf ! p1 = c"
      using "1.IH" [OF "1.prems"(1) False] "1.prems"(2) by blast
    moreover have "scan_to buf c p = scan_to buf c (Suc p)"
      using "1.prems"(1) False by (subst scan_to.simps) simp
    ultimately show ?thesis by (intro exI [of _ p1]) simp
  next
    case True
    then have "scan_to buf c p = Some p" using "1.prems"(1) by (subst scan_to.simps) simp
    with True "1.prems"(1) show ?thesis by simp
  qed
qed

lemma next_inside: "p < length buf \<Longrightarrow> last buf = NUL \<Longrightarrow> buf ! p \<noteq> NUL \<Longrightarrow> p + 1 < length buf"
  by (metis Suc_eq_plus1 Suc_lessI diff_Suc_1 last_conv_nth length_0_conv not_less_zero)

lemma scalar_at_total:
  assumes "p < length buf" "last buf = NUL" "buf ! p \<noteq> NUL"
  shows "\<exists>r. scalar_at conv buf p = Some r \<and> (\<forall>x q. r = Some (x, q) \<longrightarrow> p < q \<and> q < length buf)"
proof -
  have p1: "p + 1 < length buf" by (rule next_inside [OF assms])
  obtain p1 where s: "scan_to buf CHR '';'' p = Some p1" "p \<le> p1" "p1 < length buf"
    using scan_to_total [OF assms(1,2)] by blast
  have "p1 + 1 < length buf" if "buf ! p1 = CHR '';''" using next_inside [OF s(3) assms(2)] that by simp
  moreover have "p + 2 < length buf" if "buf ! (p + 1) = CHR '':''"
    using next_inside [OF p1 assms(2)] that by simp
  ultimately show ?thesis using p1 s by (auto simp: scalar_at_def byte_at_def number_at_def)
qed

lemma string_at_total:
  assumes "p < length buf" "last buf = NUL" "buf ! p = CHR ''s''" "block_fits buf p"
  shows "\<exists>r. string_at buf (length buf - 1) p = Some r \<and> (\<forall>x q. r = Some (x, q) \<longrightarrow> p < q \<and> q < length buf)"
proof -
  have p1: "p + 1 < length buf" using assms(3) by (intro next_inside [OF assms(1,2)]) simp
  show ?thesis
  proof (cases "buf ! (p + 1) = CHR '':''")
    case True
    have p2: "p + 2 < length buf" using next_inside [OF p1 assms(2)] True by simp
    obtain p1 where s: "scan_to buf CHR '':'' (p + 2) = Some p1" "p + 2 \<le> p1" "p1 < length buf"
      using scan_to_total [OF p2 assms(2)] by blast
    have n: "number_at atoi buf (p + 2) = Some (atoi (drop (p + 2) buf))" using p2 by (simp add: number_at_def)
    let ?i = "nat (atoi (drop (p + 2) buf))"
    have "p1 + 4 + ?i < length buf" if "p1 + 3 + ?i < length buf" "buf ! (p1 + 3 + ?i) = CHR '';''"
      using next_inside [OF that(1) assms(2)] that(2) by simp
    moreover have "?i < 800 \<or> length buf \<le> ?i" using assms(3,4) by (auto simp: block_fits_def Let_def)
    ultimately show ?thesis
      using p1 True s n by (auto simp: string_at_def byte_at_def not_less algebra_simps)
  qed (use p1 in \<open>auto simp: string_at_def byte_at_def\<close>)
qed

lemma array_at_total:
  fixes st :: "'a store"
  assumes "last buf = NUL" "buf ! p = CHR ''a'' \<or> buf ! p = CHR ''o''" "block_fits buf p"
  shows "array_at buf p st = Some None \<or>
    (\<exists>i q t. array_at buf p st = Some (Some (i, next_table st, q, (set_table st (next_table st) t)\<lparr>next_table := Suc (next_table st)\<rparr>)) \<and>
      p < q \<and> q < length buf \<and> ht_inv t [] \<and> \<not> persistent t)"
proof -
  let ?i = "atoi (drop (p + 2) buf)"
  have i: "p + 2 < length buf" "- 1 \<le> ?i" "?i \<le> 52" using assms(2,3) by (auto simp: block_fits_def Let_def)
  then have "nat ((?i + 1) mod 2 ^ 32) \<le> 53" by simp
  then obtain t :: "'a pval hashtable" where t: "init_table (nat ((?i + 1) mod 2 ^ 32)) = Some t" "ht_inv t []" "\<not> persistent t"
    by (cases rule: init_table_ok [where n = "nat ((?i + 1) mod 2 ^ 32)" and ?'f = 'a]) auto
  obtain p1 where s: "scan_to buf CHR '':'' (p + 2) = Some p1" "p + 2 \<le> p1" "p1 < length buf"
    using scan_to_total [OF i(1) assms(1)] by blast
  have "p1 + 1 < length buf" if "buf ! p1 = CHR '':''" using next_inside [OF s(3) assms(1)] that by simp
  moreover have "p1 + 2 < length buf" if "buf ! (p1 + 1) = CHR ''{''" "p1 + 1 < length buf"
    using next_inside [OF that(2) assms(1)] that by simp
  ultimately show ?thesis using i(1) t s
    by (cases "buf ! p1 = CHR '':''"; cases "buf ! (p1 + 1) = CHR ''{''")
      (auto simp: array_at_def number_at_def byte_at_def Let_def)
qed

lemma store_element_total:
  assumes "tables st a = Some t" "ht_inv t os" "\<not> persistent t"
  shows "\<exists>t' os'. store_element st a key d = Some (set_table st a t') \<and> ht_inv t' os' \<and> \<not> persistent t'"
proof -
  have mem: "mem_ok t" using assms(3) by (simp add: mem_ok_def)
  consider i where "key = IS_LONG i" | s where "key = IS_STRING s" | "\<forall>i s. key \<noteq> IS_LONG i \<and> key \<noteq> IS_STRING s"
    by (cases key) auto
  then show ?thesis
  proof cases
    case (1 i)
    have tgt: "(word_of_int i :: ulong) = target_index t (word_of_int i) HASH_UPDATE" by (simp add: target_index_def)
    obtain q t' os' where "php3_hash_index_update_or_next_insert t (word_of_int i) d HASH_UPDATE = Some (SUCCESS, Some q, t')"
      "ht_inv t' os'" "same_params t t'"
      by (rule index_insert_ok [OF assms(2) mem tgt, of d]) auto
    then show ?thesis using assms(1,3) 1 by (auto simp: store_element_def same_params_def)
  next
    case (2 s)
    have ne: "s @ [NUL] \<noteq> []" by simp
    show ?thesis
    proof (cases "norm_key (s @ [NUL]) \<in> fst ` set (ht_abs t os)")
      case True
      then have "php3_hash_add_or_update t (s @ [NUL]) d HASH_ADD = Some (FAILURE, None, t)"
        by (intro add_present [OF assms(2) ne])
      then show ?thesis using assms 2 by (intro exI [of _ t] exI [of _ os]) (simp add: store_element_def)
    next
      case False
      then have "HASH_ADD \<noteq> HASH_NEXT_INSERT" "HASH_ADD = HASH_UPDATE \<or> norm_key (s @ [NUL]) \<notin> fst ` set (ht_abs t os)" by simp_all
      from add_or_update_ok [OF assms(2) mem ne this, of d] obtain q t' os' where
        "php3_hash_add_or_update t (s @ [NUL]) d HASH_ADD = Some (SUCCESS, Some q, t')" "ht_inv t' os'" "same_params t t'" by metis
      then show ?thesis using assms(1,3) 2 by (auto simp: store_element_def same_params_def)
    qed
  next
    case 3
    then have "store_element st a key d = Some st" by (cases key) (auto simp: store_element_def)
    then show ?thesis using assms by (intro exI [of _ t] exI [of _ os]) simp
  qed
qed


text \<open>The two places of the recursion at one position, when all later positions are fine.\<close>

definition reads_at :: "(char list \<Rightarrow> 'f) \<Rightarrow> char list \<Rightarrow> nat \<Rightarrow> bool" where
  "reads_at atof buf p \<longleftrightarrow>
     (\<forall>st. store_wf st \<longrightarrow> result_ok buf p (\<lambda>st'. store_wf st' \<and> extends st st')
        (var_unserialize atof buf (length buf - 1) (Read p) st))"

definition loops_at :: "(char list \<Rightarrow> 'f) \<Rightarrow> char list \<Rightarrow> nat \<Rightarrow> bool" where
  "loops_at atof buf p \<longleftrightarrow>
     (\<forall>st rv a i t os. tables st a = Some t \<longrightarrow> ht_inv t os \<longrightarrow> \<not> persistent t \<longrightarrow> store_wf st \<longrightarrow>
        result_ok buf p (\<lambda>st'. store_wf st' \<and> extends_but a st st')
          (var_unserialize atof buf (length buf - 1) (Read_elements rv a i p) st))"

lemma reads_at_step:
  assumes "p < length buf" "last buf = NUL" "block_fits buf p"
    and "\<And>q. p < q \<Longrightarrow> q < length buf \<Longrightarrow> loops_at atof buf q"
  shows "reads_at atof buf p"
  unfolding reads_at_def
proof (intro allI impI)
  fix st :: "'a store"
  assume wf: "store_wf st"
  let ?u = "var_unserialize atof buf (length buf - 1) (Read p) st"
  have b: "byte_at buf p = Some (buf ! p)" using assms(1) by (simp add: byte_at_def)
  consider "buf ! p = CHR ''i''" | "buf ! p = CHR ''d''" | "buf ! p = CHR ''s''" | "buf ! p \<in> {CHR ''a'', CHR ''o''}"
    | "buf ! p \<notin> set ''idsao''" by auto
  then show "result_ok buf p (\<lambda>st'. store_wf st' \<and> extends st st') ?u"
  proof cases
    case 1
    then have "buf ! p \<noteq> NUL" by simp
    with 1 b scalar_at_total [OF assms(1,2), of atol] wf show ?thesis
      by (subst var_unserialize.simps) (auto intro!: result_okI)
  next
    case 2
    then have "buf ! p \<noteq> NUL" by simp
    with 2 b scalar_at_total [OF assms(1,2), of atof] wf show ?thesis
      by (subst var_unserialize.simps) (auto intro!: result_okI)
  next
    case 3
    with b string_at_total [OF assms(1,2) _ assms(3)] wf show ?thesis
      by (subst var_unserialize.simps) (auto intro!: result_okI)
  next
    case 4
    then have "buf ! p = CHR ''a'' \<or> buf ! p = CHR ''o''" by simp
    from array_at_total [OF assms(2) this assms(3), of st] show ?thesis
    proof (elim disjE exE conjE)
      assume "array_at buf p st = Some None"
      with 4 b show ?thesis by (subst var_unserialize.simps) auto
    next
      fix i q and t :: "'a pval hashtable"
      let ?st1 = "(set_table st (next_table st) t)\<lparr>next_table := Suc (next_table st)\<rparr>"
      let ?rv = "if buf ! p = CHR ''a'' then IS_ARRAY (next_table st) else IS_OBJECT (next_table st)"
      assume a: "array_at buf p st = Some (Some (i, next_table st, q, ?st1))" and q: "p < q" "q < length buf"
        and t: "ht_inv t []" "\<not> persistent t"
      have "?u = var_unserialize atof buf (length buf - 1) (Read_elements ?rv (next_table st) i q) ?st1"
        using 4 b a by (subst var_unserialize.simps) auto
      moreover have "tables ?st1 (next_table st) = Some t" "store_wf ?st1"
        using wf by (auto simp: set_table_def store_wf_def less_Suc_eq)
      then have "result_ok buf q (\<lambda>st'. store_wf st' \<and> extends_but (next_table st) ?st1 st')
          (var_unserialize atof buf (length buf - 1) (Read_elements ?rv (next_table st) i q) ?st1)"
        using assms(4) [OF q] t unfolding loops_at_def by blast
      then have "result_ok buf p (\<lambda>st'. store_wf st' \<and> extends st st')
          (var_unserialize atof buf (length buf - 1) (Read_elements ?rv (next_table st) i q) ?st1)"
        by (rule result_ok_weaken) (use q(1) in \<open>auto simp: extends_def extends_but_def set_table_def\<close>)
      ultimately show ?thesis by simp
    qed
  next
    case 5
    with b show ?thesis by (subst var_unserialize.simps) auto
  qed
qed


lemma loops_at_step:
  assumes "p < length buf" "last buf = NUL"
    and "\<And>q. p \<le> q \<Longrightarrow> q < length buf \<Longrightarrow> reads_at atof buf q"
    and "\<And>q. p < q \<Longrightarrow> q < length buf \<Longrightarrow> loops_at atof buf q"
  shows "loops_at atof buf p"
  unfolding loops_at_def
proof (intro allI impI)
  fix st :: "'a store" and rv a i t os
  assume t: "tables st a = Some t" "ht_inv t os" "\<not> persistent t" and wf: "store_wf st"
  let ?u = "\<lambda>job st. var_unserialize atof buf (length buf - 1) job st"
  let ?Q = "\<lambda>st'. store_wf st' \<and> extends_but a st st'"
  have b: "byte_at buf p = Some (buf ! p)" using assms(1) by (simp add: byte_at_def)
  have a: "a < next_table st" using t(1) wf by (auto simp: store_wf_def)
  show "result_ok buf p ?Q (?u (Read_elements rv a i p) st)"
  proof (cases "buf ! p \<noteq> NUL \<and> buf ! p \<noteq> CHR ''}'' \<and> i > 0")
    case True
    obtain r1 where r1: "?u (Read p) st = Some r1"
      "\<And>v q st1. r1 = Some (v, q, st1) \<Longrightarrow> p < q \<and> q < length buf \<and> store_wf st1 \<and> extends st st1"
      using assms(1) assms(3) [of p] wf unfolding reads_at_def result_ok_def by fastforce
    show ?thesis
    proof (cases r1)
      case None
      with True b r1(1) show ?thesis by (subst var_unserialize.simps) simp
    next
      case (Some kr)
      then obtain key p1 st1 where k: "r1 = Some (key, p1, st1)" "p < p1" "p1 < length buf" "store_wf st1" "extends st st1"
        using r1(2) by (cases kr) auto
      obtain r2 where r2: "?u (Read p1) st1 = Some r2"
        "\<And>v q st2. r2 = Some (v, q, st2) \<Longrightarrow> p1 < q \<and> q < length buf \<and> store_wf st2 \<and> extends st1 st2"
        using assms(3) [of p1] k unfolding reads_at_def result_ok_def by fastforce
      show ?thesis
      proof (cases r2)
        case None
        with True b r1(1) k(1) r2(1) show ?thesis by (subst var_unserialize.simps) simp
      next
        case (Some dr)
        then obtain d p2 st2 where d: "r2 = Some (d, p2, st2)" "p1 < p2" "p2 < length buf" "store_wf st2" "extends st1 st2"
          using r2(2) by (cases dr) auto
        have e: "extends st st2" by (rule extends_trans [OF k(5) d(5)])
        then have t2: "tables st2 a = Some t" using a t(1) by (simp add: extends_def)
        obtain t' os' where t': "store_element st2 a key d = Some (set_table st2 a t')" "ht_inv t' os'" "\<not> persistent t'"
          using store_element_total [OF t2 t(2,3), of key d] by blast
        let ?st3 = "set_table st2 a t'"
        have "tables ?st3 a = Some t'" "store_wf ?st3" using store_wf_set [OF d(4) t2] by (simp_all add: set_table_def)
        then have "result_ok buf p2 (\<lambda>st'. store_wf st' \<and> extends_but a ?st3 st') (?u (Read_elements rv a (i - 1) p2) ?st3)"
          using assms(4) [of p2] k(2) d(2,3) t'(2,3) unfolding loops_at_def by (meson order.strict_trans)
        then have "result_ok buf p ?Q (?u (Read_elements rv a (i - 1) p2) ?st3)"
          by (rule result_ok_weaken) (use k(2) d(2) e in \<open>auto simp: extends_def extends_but_def set_table_def\<close>)
        moreover have "?u (Read_elements rv a i p) st = ?u (Read_elements rv a (i - 1) p2) ?st3"
          using True b r1(1) k(1) r2(1) d(1) t'(1) by (subst var_unserialize.simps) simp
        ultimately show ?thesis by simp
      qed
    qed
  next
    case False
    show ?thesis
    proof (cases "buf ! p = CHR ''}''")
      case True
      then have "p + 1 < length buf" using next_inside [OF assms(1,2)] by simp
      with True b wf show ?thesis by (subst var_unserialize.simps) (auto simp: extends_but_def intro!: result_okI)
    qed (use False b in \<open>subst var_unserialize.simps, auto\<close>)
  qed
qed

lemma reads_everywhere:
  assumes "last buf = NUL" "\<And>p. p < length buf \<Longrightarrow> block_fits buf p"
  shows "p < length buf \<Longrightarrow> reads_at atof buf p \<and> loops_at atof buf p"
proof (induction "length buf - p" arbitrary: p rule: less_induct)
  case less
  have IH: "reads_at atof buf q \<and> loops_at atof buf q" if "p < q" "q < length buf" for q
    using less.hyps [of q] that by (simp add: diff_less_mono2)
  have r: "reads_at atof buf p" by (rule reads_at_step [OF less.prems assms(1) assms(2) [OF less.prems]]) (simp_all add: IH)
  moreover have "loops_at atof buf p"
    by (rule loops_at_step [OF less.prems assms(1)]) (use IH r in \<open>auto simp: le_less\<close>)
  ultimately show ?case ..
qed

lemma unserialize_total:
  assumes "blocks_fit s" "store_wf st"
  shows "\<exists>r. php3_unserialize atof s st = Some r"
proof -
  have "block_fits (s @ [NUL]) p" if "p < length (s @ [NUL])" for p
  proof (cases "p < length s")
    case True
    then show ?thesis using assms(1) by (simp add: blocks_fit_def list_all_iff)
  next
    case False
    then have "(s @ [NUL]) ! p = NUL" using that by (simp add: nth_append)
    then show ?thesis by (simp add: block_fits_def)
  qed
  then have "reads_at atof (s @ [NUL]) 0" using reads_everywhere [of "s @ [NUL]" 0 atof] by simp
  then show ?thesis using assms(2) by (auto simp: reads_at_def result_ok_def php3_unserialize_def)
qed

text \<open>The texts that are outside: the letter alone, a table of more than 52 elements, a string of 800 bytes.\<close>

lemma unserialize_letter: "c = CHR ''a'' \<or> c = CHR ''o'' \<Longrightarrow> php3_unserialize atof [c] st = None"
  by (auto simp: php3_unserialize_def var_unserialize.simps byte_at_def array_at_def number_at_def)

lemma unserialize_large_table:
  fixes st :: "'f store"
  assumes "c = CHR ''a'' \<or> c = CHR ''o''" "atoi (t @ [NUL]) < - 1 \<or> 52 < atoi (t @ [NUL])"
  shows "php3_unserialize atof (c # x # t) st = None"
proof -
  let ?i = "atoi (t @ [NUL])"
  have i: "- (2 ^ 31) \<le> ?i" "?i < 2 ^ 31"
    using pos_mod_bound [of "2 ^ 32" "strtol10 (cstr (t @ [NUL])) + 2 ^ 31"] by (simp_all add: atoi_def wrap_int_def)
  have "53 < nat ((?i + 1) mod 2 ^ 32)"
  proof (cases "?i + 1 < 0")
    case True
    have "(?i + 1) mod 2 ^ 32 = (?i + 1 + 2 ^ 32) mod 2 ^ 32" by (simp only: mod_add_self2)
    also have "\<dots> = ?i + 1 + 2 ^ 32" using True i by (intro mod_pos_pos_trivial) simp_all
    finally show ?thesis using i by simp
  next
    case False
    with i assms(2) show ?thesis by (simp add: mod_pos_pos_trivial)
  qed
  then have "(init_table (nat ((?i + 1) mod 2 ^ 32)) :: 'f pval hashtable option) = None"
    by (cases rule: init_table_ok [where n = "nat ((?i + 1) mod 2 ^ 32)" and ?'f = 'f]) auto
  then have "array_at ((c # x # t) @ [NUL]) 0 st = None" by (simp add: array_at_def number_at_def)
  then show ?thesis using assms(1) by (auto simp: php3_unserialize_def var_unserialize.simps byte_at_def)
qed

lemma unserialize_long_string:
  assumes "800 \<le> length u" "length u < 2 ^ 31"
  shows "php3_unserialize atof (serialize_string u @ t) st = None"
  using assms read_string [of 0 "(serialize_string u @ t) @ [NUL]" u "t @ [NUL]" "length (serialize_string u @ t)" atof st]
  by (simp add: php3_unserialize_def)

end
