(* ===== verification/Serialize_Props.thy ===== *)
theory Serialize_Props
  imports Serialize_Safe
begin

text \<open>
  The properties of \<open>serialize\<close> and \<open>unserialize\<close>. The store \<open>sample\<close> of the witnesses holds the array
  \<open>(7 => "php", "k" => 2.0)\<close>, a double being given by an integer.
\<close>

definition key_k :: "char list" where "key_k = [CHR ''k'', NUL]"

definition sample_tree :: "int tree" where
  "sample_tree = Node False [(Idx 7, String_leaf ''php''), (Str key_k, Double_leaf 2)]"


lemma sample_text: "encode show_long sample_tree = ''a:2:{i:7;s:3:'' @ [CHR 0x22] @ ''php'' @ [CHR 0x22] @ '';s:1:'' @
    [CHR 0x22] @ ''k'' @ [CHR 0x22] @ '';d:2;}''"
  by code_simp




text \<open>
  C21: \<open>unserialize\<close> returns, reads no byte outside the text and writes none outside its blocks, when no letter of the text
  announces a table of more than 52 elements or a string of 800 bytes, and the last is not \<open>a\<close> or \<open>o\<close>. On the others it
  does not: \<open>(*p) += 2\<close> steps over the end of a text that is only the letter, a count of 53 or more (or a negative one but
  \<open>-1\<close>) makes the buckets larger than the 800 bytes that \<open>emalloc\<close> gives, and so does the length of a long string.
\<close>

theorem unserialize_returns:
  assumes "store_wf st"
  shows "(blocks_fit s \<longrightarrow> (\<exists>r. php3_unserialize atof s st = Some r)) \<and>
    (\<forall>c. c = CHR ''a'' \<or> c = CHR ''o'' \<longrightarrow> php3_unserialize atof [c] st = None \<and>
      (\<forall>x t. atoi (t @ [NUL]) < - 1 \<or> 52 < atoi (t @ [NUL]) \<longrightarrow> php3_unserialize atof (c # x # t) st = None)) \<and>
    (\<forall>u t. 800 \<le> length u \<and> length u < 2 ^ 31 \<longrightarrow> php3_unserialize atof (serialize_string u @ t) st = None)"
  by (intro conjI allI impI; (elim conjE)?; (rule unserialize_total unserialize_letter unserialize_large_table unserialize_long_string; (rule assms)?; assumption))

theorem unserialize_returns_witness:
  "(\<exists>r. php3_unserialize atol ''a:1:{s:99:x'' empty_store = Some r) \<and> php3_unserialize atol ''a:53:{}'' empty_store = None"
proof
  have wf: "store_wf (empty_store :: int store)" by (simp add: store_wf_def empty_store_def)
  have "blocks_fit ''a:1:{s:99:x''" by code_simp
  with unserialize_returns [OF wf] show "\<exists>r. php3_unserialize atol ''a:1:{s:99:x'' empty_store = Some r" by blast
  have "52 < atoi (''53:{}'' @ [NUL])" by code_simp
  with unserialize_returns [OF wf] show "php3_unserialize atol ''a:53:{}'' empty_store = None" by blast
qed

end
