(* ===== verification/Variables.thy ===== *)
theory Variables
  imports Values
begin

text \<open>
  Values as \<^verbatim>\<open>php-src/variables.c\<close> handles them: \<open>var_reset\<close>, \<open>var_uninit\<close>, \<open>pval_destructor\<close> and
  \<open>pval_copy_constructor\<close>. The table of the global variables is never destroyed or copied with a
  value. A string is its bytes, so that its block is neither allocated nor freed here; a table is at an
  address of the store, and freeing it twice, or reading it after it is freed, is \<open>None\<close>. Functions
  and classes, which only the function table holds, are left out.

  Both functions call themselves from a loop over the elements of a table: \<open>Destroy_from\<close> and
  \<open>Copy_from\<close> name the loop.
\<close>

subsection \<open>The operations\<close>

definition var_reset :: "'f pval" where
  "var_reset = IS_STRING []"

definition var_uninit :: "'f pval" where
  "var_uninit = UNDEFINED"

text \<open>\<open>value.ht\<close> is assigned, the type stays.\<close>

definition with_table :: "'f pval \<Rightarrow> addr \<Rightarrow> 'f pval" where
  "with_table v a = (case v of IS_OBJECT b \<Rightarrow> IS_OBJECT a | _ \<Rightarrow> IS_ARRAY a)"

definition free_table :: "'f store \<Rightarrow> addr \<Rightarrow> 'f store" where
  "free_table st a = st\<lparr>tables := (tables st)(a := None)\<rparr>"

definition new_table :: "'f store \<Rightarrow> 'f pval hashtable \<Rightarrow> addr \<times> 'f store" where
  "new_table st t = (next_table st, (set_table st (next_table st) t)\<lparr>next_table := Suc (next_table st)\<rparr>)"

datatype 'f destroy_job = Destroy "'f pval" | Destroy_from addr ptr

text \<open>
  \<open>Destroy_from a p\<close> is the loop of \<open>_php3_hash_destroy\<close> over the table \<open>a\<close> from the bucket \<open>p\<close> on: the link
  to the next bucket is read first, then the element is destroyed and the bucket freed.
\<close>

partial_function (option) pval_destructor :: "'f destroy_job \<Rightarrow> 'f store \<Rightarrow> 'f store option" where
  "pval_destructor job st =
     (case job of
        Destroy v \<Rightarrow>
          (case table_of v of
             None \<Rightarrow> Some st
           | Some a \<Rightarrow>
               if a = symbol_table st then Some st
               else do {
                 t \<leftarrow> tables st a;
                 st1 \<leftarrow> pval_destructor (Destroy_from a (pListHead t)) st;
                 Some (free_table st1 a) })
      | Destroy_from a p \<Rightarrow>
          (case p of
             None \<Rightarrow> Some st
           | Some q \<Rightarrow> do {
               t \<leftarrow> tables st a;
               b \<leftarrow> heap t q;
               st1 \<leftarrow> (if \<not> bIsPointer b \<and> pDestructor t then pval_destructor (Destroy (pData b)) st else Some st);
               t1 \<leftarrow> tables st1 a;
               pval_destructor (Destroy_from a (pListNext b)) (set_table st1 a (t1\<lparr>heap := (heap t1)(q := None)\<rparr>)) }))"

datatype 'f copy_job = Copy "'f pval" | Copy_from addr ptr addr

text \<open>
  \<open>Copy_from a p c\<close> is the loop of \<open>_php3_hash_copy\<close> over the table \<open>a\<close> from the bucket \<open>p\<close> on, which adds
  the copies to the table \<open>c\<close>; its result has no value of its own (\<open>OTHER\<close>).
\<close>

definition add_copy :: "'f pval hashtable \<Rightarrow> 'f pval bucket \<Rightarrow> 'f pval \<Rightarrow> (int \<times> ptr \<times> 'f pval hashtable) option" where
  "add_copy t b d =
     (case arKey b of
        Some k \<Rightarrow> php3_hash_add_or_update t k d HASH_UPDATE
      | None \<Rightarrow> php3_hash_index_update_or_next_insert t (hval b) d HASH_UPDATE)"

partial_function (option) pval_copy_constructor :: "'f copy_job \<Rightarrow> 'f store \<Rightarrow> (int \<times> 'f pval \<times> 'f store) option" where
  "pval_copy_constructor job st =
     (case job of
        Copy v \<Rightarrow>
          (case table_of v of
             None \<Rightarrow> Some (SUCCESS, v, st)
           | Some a \<Rightarrow>
               if a = symbol_table st then Some (FAILURE, var_reset, st)
               else do {
                 s \<leftarrow> tables st a;
                 t \<leftarrow> php3_hash_init (nTableSize s) (Some (pHashFunction s)) (pDestructor s) False [];
                 let (c, st1) = new_table st t;
                 (r, d, st2) \<leftarrow> pval_copy_constructor (Copy_from a (pListHead s) c) st1;
                 t2 \<leftarrow> tables st2 c;
                 Some (SUCCESS, with_table v c, set_table st2 c (t2\<lparr>pInternalPointer := pListHead t2\<rparr>)) })
      | Copy_from a p c \<Rightarrow>
          (case p of
             None \<Rightarrow> Some (SUCCESS, OTHER, st)
           | Some q \<Rightarrow> do {
               s \<leftarrow> tables st a;
               b \<leftarrow> heap s q;
               (r, d, st1) \<leftarrow> pval_copy_constructor (Copy (pData b)) st;
               t \<leftarrow> tables st1 c;
               (r1, q1, t1) \<leftarrow> add_copy t b d;
               s1 \<leftarrow> tables st1 a;
               b1 \<leftarrow> heap s1 q;
               pval_copy_constructor (Copy_from a (pListNext b1) c) (set_table st1 c t1) }))"

subsection \<open>The elements of a table belong to it\<close>

definition plain_heap :: "'d bheap \<Rightarrow> bool" where
  "plain_heap hp \<longleftrightarrow> (\<forall>a b. hp a = Some b \<longrightarrow> \<not> bIsPointer b)"

definition plain :: "'d hashtable \<Rightarrow> bool" where
  "plain t \<longleftrightarrow> plain_heap (heap t)"

lemma plain_upd: "plain_heap hp \<Longrightarrow> \<not> bIsPointer x \<Longrightarrow> plain_heap (hp(a \<mapsto> x))"
  by (auto simp: plain_heap_def)

lemma plain_at: "plain t \<Longrightarrow> heap t a = Some b \<Longrightarrow> \<not> bIsPointer b"
  by (simp add: plain_def plain_heap_def)

lemma plain_frame [simp]:
  "plain (t\<lparr>destroyed := x\<rparr>) = plain t" "plain (t\<lparr>nNextFreeElement := n\<rparr>) = plain t"
  "plain (t\<lparr>nNumOfElements := m\<rparr>) = plain t" "plain (t\<lparr>pInternalPointer := p\<rparr>) = plain t"
  "plain (t\<lparr>mallocs := ms\<rparr>) = plain t" "plain (bump_next_free hv t) = plain t"
  by (simp_all add: plain_def bump_next_free_def)

lemma plain_rehash_loop:
  assumes "rehash_loop n p hp bs = Some r"
  shows "plain_heap hp \<longrightarrow> plain_heap (fst r)"
proof (rule rehash_loop.raw_induct [OF _ assms])
  fix f n p hp bs and r :: "'a bheap \<times> ptr list"
  assume IH: "\<And>n p hp bs r. f n p hp bs = Some r \<Longrightarrow> plain_heap hp \<longrightarrow> plain_heap (fst r)"
    and step: "(case p of None \<Rightarrow> Some (hp, bs)
      | Some a \<Rightarrow> hp a \<bind> (\<lambda>b. let i = unat (hval b) mod n
               in if i < length bs then f n (pListNext b) (hp(a \<mapsto> b\<lparr>pNext := bs ! i\<rparr>)) (bs[i := Some a]) else None)) = Some r"
  show "plain_heap hp \<longrightarrow> plain_heap (fst r)"
  proof (cases p)
    case (Some a)
    with step obtain b where b: "hp a = Some b" "f n (pListNext b) (hp(a \<mapsto> b\<lparr>pNext := bs ! (unat (hval b) mod n)\<rparr>))
      (bs[unat (hval b) mod n := Some a]) = Some r" by (auto simp: Let_def split: Option.bind_splits if_splits)
    have "plain_heap (hp(a \<mapsto> b\<lparr>pNext := bs ! (unat (hval b) mod n)\<rparr>))" if "plain_heap hp"
      using that b(1) by (auto simp: plain_heap_def)
    then show ?thesis using IH [OF b(2)] by blast
  qed (use step in auto)
qed

lemma plain_resize: "if_full_do_resize t = Some t' \<Longrightarrow> plain t \<Longrightarrow> plain t'"
  by (auto simp: if_full_do_resize_def pemalloc_def plain_def php3_hash_rehash_def Let_def dest!: plain_rehash_loop
      split: if_splits list.splits prod.splits Option.bind_splits)

lemma plain_link: "link_bucket t i p = Some (a, t') \<Longrightarrow> plain t \<Longrightarrow> \<not> bIsPointer p \<Longrightarrow> plain t'"
  unfolding plain_def plain_heap_def link_bucket_def
  by (fastforce simp: Let_def split: option.splits if_splits Option.bind_splits)

lemma plain_overwrite: "overwrite_data t a d = Some t' \<Longrightarrow> plain t \<Longrightarrow> plain t'"
  unfolding plain_def plain_heap_def overwrite_data_def
  by (fastforce simp: Let_def run_destructor_def split: if_splits Option.bind_splits)

lemma plain_index_update:
  "php3_hash_index_update_or_next_insert t i d flag = Some (r, q, t') \<Longrightarrow> plain t \<Longrightarrow> plain t'"
  unfolding php3_hash_index_update_or_next_insert_def
  by (auto simp: Let_def pemalloc_def dest!: plain_link plain_overwrite plain_resize
      split: if_splits Option.bind_splits option.splits prod.splits list.splits)

lemma plain_add_or_update:
  "php3_hash_add_or_update t k d flag = Some (r, q, t') \<Longrightarrow> plain t \<Longrightarrow> plain t'"
  unfolding php3_hash_add_or_update_def
  by (auto simp: Let_def pemalloc_def dest!: plain_link plain_overwrite plain_resize plain_index_update
      split: if_splits Option.bind_splits option.splits prod.splits list.splits)

end
