(* ===== verification/Convert.thy ===== *)
theory Convert
  imports Variables
begin

text \<open>
  The conversions of \<^verbatim>\<open>php-src/operators.c\<close>: of strings to numbers (\<open>is_numeric_string\<close> and what calls it)
  and of a value of any type to a given one. A conversion returns the value and, where it
  destroys a table or makes one, the store.

  \<open>double\<close>s are a type \<open>'f\<close> with the operations of the record \<open>doubles\<close>: C's conversions from and to
  \<open>long\<close>, arithmetic, comparison, and \<open>strtod\<close>. The code is read with \<open>WITH_BCMATH\<close> 1, as \<^verbatim>\<open>config.h\<close> has it.
\<close>

subsection \<open>Numbers of the C library\<close>

text \<open>\<open>strtod s\<close> is the value, the number of bytes read and whether \<open>errno\<close> is set to \<open>ERANGE\<close>.\<close>

record 'f doubles =
  of_long :: "int \<Rightarrow> 'f"
  to_long :: "'f \<Rightarrow> int"
  fadd :: "'f \<Rightarrow> 'f \<Rightarrow> 'f"
  fsub :: "'f \<Rightarrow> 'f \<Rightarrow> 'f"
  fmul :: "'f \<Rightarrow> 'f \<Rightarrow> 'f"
  fdiv :: "'f \<Rightarrow> 'f \<Rightarrow> 'f"
  feq :: "'f \<Rightarrow> 'f \<Rightarrow> bool"
  fless :: "'f \<Rightarrow> 'f \<Rightarrow> bool"
  strtod :: "char list \<Rightarrow> 'f \<times> nat \<times> bool"

definition strtol_digit :: "nat \<Rightarrow> char \<Rightarrow> nat option" where
  "strtol_digit base c =
     (let d = (if isdigit c then uchar c - 48 else if islower c then uchar c - 87 else if isupper c then uchar c - 55 else 36)
      in if d < base then Some d else None)"

text \<open>\<open>strtol\<close> on a C string: the value, the number of bytes read (\<open>endptr\<close>) and \<open>ERANGE\<close>.\<close>

definition strtol :: "char list \<Rightarrow> int \<Rightarrow> int \<times> nat \<times> bool" where
  "strtol s base =
     (if base < 0 \<or> base = 1 \<or> base > 36 then (0, 0, False)
      else
        let s1 = dropWhile isspace s;
            neg = (s1 \<noteq> [] \<and> hd s1 = CHR ''-'');
            s2 = (if s1 \<noteq> [] \<and> (hd s1 = CHR ''-'' \<or> hd s1 = CHR ''+'') then tl s1 else s1);
            hex = ((base = 0 \<or> base = 16) \<and> length s2 \<ge> 3 \<and> s2 ! 0 = CHR ''0'' \<and> tolower (s2 ! 1) = CHR ''x'' \<and>
              strtol_digit 16 (s2 ! 2) \<noteq> None);
            b = (if base \<noteq> 0 then nat base else if hex then 16 else if s2 \<noteq> [] \<and> hd s2 = CHR ''0'' then 8 else 10);
            s3 = (if hex then drop 2 s2 else s2);
            ds = takeWhile (\<lambda>c. strtol_digit b c \<noteq> None) s3;
            m = foldl (\<lambda>v c. v * int b + int (the (strtol_digit b c))) 0 ds;
            v = (if neg then - m else m)
        in (max LONG_MIN (min LONG_MAX v), if ds = [] then 0 else length s - length s3 + length ds,
            v < LONG_MIN \<or> v > LONG_MAX))"

subsection \<open>Numeric strings\<close>

datatype 'f numeric = Not_numeric | Num_long int | Num_double 'f | Num_bc 'f

definition is_numeric_string :: "'f doubles \<Rightarrow> char list \<Rightarrow> 'f numeric" where
  "is_numeric_string D str =
     (if str = [] then Not_numeric
      else
        let (local_lval, end_ptr, range) = strtol (cstr str) 10 in
        if \<not> range \<and> end_ptr = length str then Num_long local_lval
        else
          let (local_dval, end_ptr, range) = strtod D (cstr str) in
          if \<not> range \<and> end_ptr = length str then
            if length str > 16 then
              if \<exists>c \<in> set str. c = CHR ''e'' \<or> c = CHR ''E'' then Num_double local_dval else Num_bc local_dval
            else Num_double local_dval
          else Not_numeric)"

subsection \<open>Conversions\<close>

text \<open>The string of a value of type \<open>IS_STRING\<close>.\<close>

definition string_of :: "'f pval \<Rightarrow> char list option" where
  "string_of v = (case v of IS_STRING s \<Rightarrow> Some s | UNDEFINED \<Rightarrow> Some [] | _ \<Rightarrow> None)"

definition convert_double_to_long :: "'f doubles \<Rightarrow> 'f pval \<Rightarrow> 'f pval" where
  "convert_double_to_long D op = (case op of IS_DOUBLE d \<Rightarrow> IS_LONG (to_long D d) | _ \<Rightarrow> op)"

definition convert_string_to_number :: "'f doubles \<Rightarrow> 'f pval \<Rightarrow> 'f pval" where
  "convert_string_to_number D op =
     (case string_of op of
        None \<Rightarrow> op
      | Some s \<Rightarrow>
          (case is_numeric_string D s of
             Num_long i \<Rightarrow> IS_LONG i
           | Num_double d \<Rightarrow> IS_DOUBLE d
           | Num_bc d \<Rightarrow> IS_DOUBLE d
           | Not_numeric \<Rightarrow> IS_LONG (fst (strtol (cstr s) 10))))"

text \<open>\<open>(_php3_hash_num_elements(op->value.ht) ? 1 : 0)\<close>, after which the value is destroyed.\<close>

definition count_and_destroy :: "'f pval \<Rightarrow> addr \<Rightarrow> 'f store \<Rightarrow> (int \<times> 'f store) option" where
  "count_and_destroy op a st =
     do {
       t \<leftarrow> tables st a;
       st1 \<leftarrow> pval_destructor (Destroy op) st;
       Some (if nNumOfElements t > 0 then 1 else 0, st1) }"

definition convert_to_long_base :: "'f doubles \<Rightarrow> 'f pval \<Rightarrow> int \<Rightarrow> 'f store \<Rightarrow> ('f pval \<times> 'f store) option" where
  "convert_to_long_base D op base st =
     (case op of
        IS_LONG i \<Rightarrow> Some (op, st)
      | IS_DOUBLE d \<Rightarrow> Some (IS_LONG (to_long D d), st)
      | IS_STRING s \<Rightarrow> Some (IS_LONG (fst (strtol (cstr s) base)), st)
      | UNDEFINED \<Rightarrow> Some (IS_LONG (fst (strtol [] base)), st)
      | IS_ARRAY a \<Rightarrow> do { (n, st1) \<leftarrow> count_and_destroy op a st; Some (IS_LONG n, st1) }
      | IS_OBJECT a \<Rightarrow> do { (n, st1) \<leftarrow> count_and_destroy op a st; Some (IS_LONG n, st1) }
      | OTHER \<Rightarrow> do { st1 \<leftarrow> pval_destructor (Destroy op) st; Some (IS_LONG 0, st1) })"

definition convert_to_long :: "'f doubles \<Rightarrow> 'f pval \<Rightarrow> 'f store \<Rightarrow> ('f pval \<times> 'f store) option" where
  "convert_to_long D op st = convert_to_long_base D op 10 st"

definition convert_to_double :: "'f doubles \<Rightarrow> 'f pval \<Rightarrow> 'f store \<Rightarrow> ('f pval \<times> 'f store) option" where
  "convert_to_double D op st =
     (case op of
        IS_LONG i \<Rightarrow> Some (IS_DOUBLE (of_long D i), st)
      | IS_DOUBLE d \<Rightarrow> Some (op, st)
      | IS_STRING s \<Rightarrow> Some (IS_DOUBLE (fst (strtod D (cstr s))), st)
      | UNDEFINED \<Rightarrow> Some (IS_DOUBLE (fst (strtod D [])), st)
      | IS_ARRAY a \<Rightarrow> do { (n, st1) \<leftarrow> count_and_destroy op a st; Some (IS_DOUBLE (of_long D n), st1) }
      | IS_OBJECT a \<Rightarrow> do { (n, st1) \<leftarrow> count_and_destroy op a st; Some (IS_DOUBLE (of_long D n), st1) }
      | OTHER \<Rightarrow> do { st1 \<leftarrow> pval_destructor (Destroy op) st; Some (IS_DOUBLE (of_long D 0), st1) })"

definition convert_to_boolean_long :: "'f doubles \<Rightarrow> 'f pval \<Rightarrow> 'f store \<Rightarrow> ('f pval \<times> 'f store) option" where
  "convert_to_boolean_long D op st =
     (case op of
        IS_LONG i \<Rightarrow> Some (op, st)
      | IS_DOUBLE d \<Rightarrow> Some (IS_LONG (if feq D d (of_long D 0) then 0 else 1), st)
      | IS_STRING s \<Rightarrow> Some (IS_LONG (if s = [] \<or> s = ''0'' then 0 else 1), st)
      | UNDEFINED \<Rightarrow> Some (IS_LONG 0, st)
      | IS_ARRAY a \<Rightarrow> do { (n, st1) \<leftarrow> count_and_destroy op a st; Some (IS_LONG n, st1) }
      | IS_OBJECT a \<Rightarrow> do { (n, st1) \<leftarrow> count_and_destroy op a st; Some (IS_LONG n, st1) }
      | OTHER \<Rightarrow> do { st1 \<leftarrow> pval_destructor (Destroy op) st; Some (IS_LONG 0, st1) })"

text \<open>In this repository the first statement of \<open>convert_to_string\<close> is \<open>return\<close>.\<close>

definition convert_to_string :: "'f pval \<Rightarrow> 'f pval" where
  "convert_to_string op = op"

text \<open>A scalar becomes the only element of a new table, with the index 0 or the key \<open>scalar\<close>.\<close>

definition convert_scalar_to_array :: "'f pval \<Rightarrow> bool \<Rightarrow> 'f store \<Rightarrow> ('f pval \<times> 'f store) option" where
  "convert_scalar_to_array op obj st =
     do {
       t \<leftarrow> php3_hash_init 0 None True False [];
       (r, q, t1) \<leftarrow> (if obj then php3_hash_add_or_update t (''scalar'' @ [NUL]) op HASH_UPDATE
                      else php3_hash_index_update_or_next_insert t 0 op HASH_UPDATE);
       let (a, st1) = new_table st t1;
       Some (if obj then IS_OBJECT a else IS_ARRAY a, st1) }"

definition convert_to_array :: "'f pval \<Rightarrow> 'f store \<Rightarrow> ('f pval \<times> 'f store) option" where
  "convert_to_array op st =
     (case op of
        IS_ARRAY a \<Rightarrow> Some (op, st)
      | IS_OBJECT a \<Rightarrow> Some (IS_ARRAY a, st)
      | _ \<Rightarrow> convert_scalar_to_array op False st)"

definition convert_to_object :: "'f pval \<Rightarrow> 'f store \<Rightarrow> ('f pval \<times> 'f store) option" where
  "convert_to_object op st =
     (case op of
        IS_ARRAY a \<Rightarrow> Some (IS_OBJECT a, st)
      | IS_OBJECT a \<Rightarrow> Some (op, st)
      | _ \<Rightarrow> convert_scalar_to_array op True st)"

definition pval_is_true :: "'f doubles \<Rightarrow> 'f pval \<Rightarrow> 'f store \<Rightarrow> (bool \<times> 'f pval \<times> 'f store) option" where
  "pval_is_true D op st = do { (v, st1) \<leftarrow> convert_to_boolean_long D op st; Some (v \<noteq> IS_LONG 0, v, st1) }"

end
