(* ===== verification/Bc_Num.thy ===== *)
theory Bc_Num
  imports Complex_Main Base
begin

text \<open>
  Arbitrary precision decimal numbers, from \<^verbatim>\<open>functions/number.c\<close> and \<^verbatim>\<open>number.h\<close> (GNU bc's library):
  the representation, comparison, addition and subtraction. The loops of the code walk over the digit
  arrays from the last digit to the first, so they are recursions over the reversed digit lists. The
  reference counts are not part of the value and are left out; every operation builds a new number.
\<close>

subsection \<open>The representation\<close>

datatype sign = PLUS | MINUS

record bc_num =
  n_sign :: sign
  n_len :: nat
  n_scale :: nat
  n_value :: "nat list"

text \<open>The value of a digit list, the first digit being the least and the most significant one.\<close>

fun lval :: "nat list \<Rightarrow> nat" where
  "lval [] = 0"
| "lval (d # ds) = d + 10 * lval ds"

definition dval :: "nat list \<Rightarrow> nat" where
  "dval ds = lval (rev ds)"

definition digits_ok :: "nat list \<Rightarrow> bool" where
  "digits_ok ds \<longleftrightarrow> (\<forall>d \<in> set ds. d < 10)"

text \<open>
  The invariant: as many digits as the two lengths say, at least one before the point, and no leading
  zero but the single digit of a number below 1.
\<close>

definition bc_wf :: "bc_num \<Rightarrow> bool" where
  "bc_wf n \<longleftrightarrow> 0 < n_len n \<and> length (n_value n) = n_len n + n_scale n \<and> digits_ok (n_value n) \<and>
     (n_len n = 1 \<or> hd (n_value n) \<noteq> 0)"

definition bc_sgn :: "sign \<Rightarrow> rat" where
  "bc_sgn s = (case s of PLUS \<Rightarrow> 1 | MINUS \<Rightarrow> - 1)"

definition bc_abs :: "bc_num \<Rightarrow> rat" where
  "bc_abs n = of_nat (dval (n_value n)) / 10 ^ n_scale n"

definition bc_val :: "bc_num \<Rightarrow> rat" where
  "bc_val n = bc_sgn (n_sign n) * bc_abs n"

text \<open>The constants of \<open>init_numbers\<close>.\<close>

definition bc_zero :: bc_num where
  "bc_zero = \<lparr>n_sign = PLUS, n_len = 1, n_scale = 0, n_value = [0]\<rparr>"

definition bc_one :: bc_num where
  "bc_one = \<lparr>n_sign = PLUS, n_len = 1, n_scale = 0, n_value = [1]\<rparr>"

definition bc_two :: bc_num where
  "bc_two = \<lparr>n_sign = PLUS, n_len = 1, n_scale = 0, n_value = [2]\<rparr>"

subsection \<open>Conversions to and from machine integers\<close>

text \<open>
  \<open>int2num\<close>: the digits are produced from the last to the first; there is always one. \<open>None\<close> is a \<open>val\<close> that is
  still negative after \<open>val = -val\<close>: the overflow is undefined, and the digits would be negative.
\<close>

fun int_digits :: "nat \<Rightarrow> nat list" where
  "int_digits v = v mod 10 # (if v div 10 \<noteq> 0 then int_digits (v div 10) else [])"

declare int_digits.simps [simp del]

definition int2num :: "int \<Rightarrow> bc_num option" where
  "int2num val0 =
     (let neg = (val0 < 0);
          val = (if neg then wrap_int (- val0) else val0)
      in if val < 0 then None
         else
           let buffer = int_digits (nat val)
           in Some \<lparr>n_sign = (if neg then MINUS else PLUS), n_len = length buffer, n_scale = 0, n_value = rev buffer\<rparr>)"

text \<open>
  \<open>num2long\<close>: it stops when the value passes \<open>LONG_MAX / 10\<close>. The last step may overflow; the wrapped
  value is negative and becomes 0.
\<close>

fun num2long_loop :: "nat \<Rightarrow> nat list \<Rightarrow> int \<Rightarrow> nat \<times> int" where
  "num2long_loop (Suc index) (d # ds) v =
     (if v \<le> LONG_MAX div 10 then num2long_loop index ds ((v * 10 + int d + 2 ^ 63) mod 2 ^ 64 - 2 ^ 63)
      else (Suc index, v))"
| "num2long_loop index _ v = (index, v)"

definition num2long :: "bc_num \<Rightarrow> int" where
  "num2long n =
     (case num2long_loop (n_len n) (n_value n) 0 of (index, v) \<Rightarrow>
        let v = (if index > 0 \<or> v < 0 then 0 else v)
        in if n_sign n = PLUS then v else - v)"

subsection \<open>Comparison\<close>

text \<open>The loop over the equal digits, with its counter.\<close>

fun cmp_loop :: "nat \<Rightarrow> nat list \<Rightarrow> nat list \<Rightarrow> nat \<times> nat list \<times> nat list" where
  "cmp_loop (Suc count) (x # xs) (y # ys) =
     (if x = y then cmp_loop count xs ys else (Suc count, x # xs, y # ys))"
| "cmp_loop count xs ys = (count, xs, ys)"

definition do_compare :: "bc_num \<Rightarrow> bc_num \<Rightarrow> bool \<Rightarrow> bool \<Rightarrow> int" where
  "do_compare n1 n2 use_sign ignore_last =
     (let greater = (if \<not> use_sign \<or> n_sign n1 = PLUS then 1 else - 1) :: int;
          less = (if \<not> use_sign \<or> n_sign n1 = PLUS then - 1 else 1) :: int
      in if use_sign \<and> n_sign n1 \<noteq> n_sign n2 then (if n_sign n1 = PLUS then 1 else - 1)
         else if n_len n1 \<noteq> n_len n2 then (if n_len n1 > n_len n2 then greater else less)
         else case cmp_loop (n_len n1 + min (n_scale n1) (n_scale n2)) (n_value n1) (n_value n2) of
           (count, p1, p2) \<Rightarrow>
             if ignore_last \<and> count = 1 \<and> n_scale n1 = n_scale n2 then 0
             else if count \<noteq> 0 then (if hd p1 > hd p2 then greater else less)
             else if n_scale n1 > n_scale n2 then
               (if list_ex (\<lambda>d. d \<noteq> 0) (take (n_scale n1 - n_scale n2) p1) then greater else 0)
             else if n_scale n1 < n_scale n2 then
               (if list_ex (\<lambda>d. d \<noteq> 0) (take (n_scale n2 - n_scale n1) p2) then less else 0)
             else 0)"

definition bc_compare :: "bc_num \<Rightarrow> bc_num \<Rightarrow> int" where
  "bc_compare n1 n2 = do_compare n1 n2 True False"

definition is_zero :: "bc_num \<Rightarrow> bool" where
  "is_zero n \<longleftrightarrow> list_all (\<lambda>d. d = 0) (take (n_len n + n_scale n) (n_value n))"

definition is_neg :: "bc_num \<Rightarrow> bool" where
  "is_neg n \<longleftrightarrow> n_sign n = MINUS"

subsection \<open>Addition and subtraction of magnitudes\<close>

fun skip_zeros :: "nat \<Rightarrow> nat list \<Rightarrow> nat \<times> nat list" where
  "skip_zeros bytes (d # ds) = (if bytes > 1 \<and> d = 0 then skip_zeros (bytes - 1) ds else (bytes, d # ds))"
| "skip_zeros bytes [] = (bytes, [])"

definition rm_leading_zeros :: "bc_num \<Rightarrow> bc_num" where
  "rm_leading_zeros n =
     (if hd (n_value n) \<noteq> 0 then n
      else case skip_zeros (n_len n) (n_value n) of
        (bytes, src) \<Rightarrow> n\<lparr>n_len := bytes, n_value := take (bytes + n_scale n) src\<rparr>)"

text \<open>The carry over the rest of the longer number; the last cell is the zero \<open>new_num\<close> stored.\<close>

fun add_carry :: "nat \<Rightarrow> nat list \<Rightarrow> nat list" where
  "add_carry carry [] = [carry]"
| "add_carry carry (x # xs) =
     (let s = x + carry in if s > 9 then (s - 10) # add_carry 1 xs else s # add_carry 0 xs)"

fun add_loop :: "nat \<Rightarrow> nat list \<Rightarrow> nat list \<Rightarrow> nat list" where
  "add_loop carry (x # xs) (y # ys) =
     (let s = x + y + carry in if s > 9 then (s - 10) # add_loop 1 xs ys else s # add_loop 0 xs ys)"
| "add_loop carry [] ys = add_carry carry ys"
| "add_loop carry xs [] = add_carry carry xs"

definition do_add :: "bc_num \<Rightarrow> bc_num \<Rightarrow> nat \<Rightarrow> bc_num" where
  "do_add n1 n2 scale_min =
     (let sum_scale = max (n_scale n1) (n_scale n2);
          sum_digits = max (n_len n1) (n_len n2) + 1;
          p1 = rev (n_value n1); p2 = rev (n_value n2);
          k1 = n_scale n1 - n_scale n2; k2 = n_scale n2 - n_scale n1;
          copied = take k1 p1 @ take k2 p2;
          added = add_loop 0 (drop k1 p1) (drop k2 p2)
      in rm_leading_zeros
        \<lparr>n_sign = PLUS, n_len = sum_digits, n_scale = max sum_scale scale_min,
         n_value = rev (copied @ added) @ replicate (scale_min - sum_scale) 0\<rparr>)"

text \<open>One digit of a subtraction with borrow.\<close>

definition sub_digit :: "int \<Rightarrow> nat \<times> nat" where
  "sub_digit v = (if v < 0 then (nat (v + 10), 1) else (nat v, 0))"

text \<open>The fraction digits of \<open>n2\<close> that \<open>n1\<close> does not have, then the common digits, then the rest of \<open>n1\<close>.\<close>

fun sub_neg :: "nat \<Rightarrow> nat list \<Rightarrow> nat list \<times> nat" where
  "sub_neg borrow [] = ([], borrow)"
| "sub_neg borrow (y # ys) =
     (case sub_digit (- int y - int borrow) of (d, b) \<Rightarrow>
        (case sub_neg b ys of (ds, b') \<Rightarrow> (d # ds, b')))"

fun sub_loop :: "nat \<Rightarrow> nat list \<Rightarrow> nat list \<Rightarrow> nat list" where
  "sub_loop borrow (x # xs) (y # ys) =
     (case sub_digit (int x - int y - int borrow) of (d, b) \<Rightarrow> d # sub_loop b xs ys)"
| "sub_loop borrow (x # xs) [] =
     (case sub_digit (int x - int borrow) of (d, b) \<Rightarrow> d # sub_loop b xs [])"
| "sub_loop borrow [] _ = []"

definition do_sub :: "bc_num \<Rightarrow> bc_num \<Rightarrow> nat \<Rightarrow> bc_num" where
  "do_sub n1 n2 scale_min =
     (let diff_len = max (n_len n1) (n_len n2); diff_scale = max (n_scale n1) (n_scale n2);
          min_scale = min (n_scale n1) (n_scale n2);
          p1 = rev (n_value n1); p2 = rev (n_value n2);
          (low, borrow, p1', p2') =
            (if n_scale n1 \<noteq> min_scale
             then (take (n_scale n1 - min_scale) p1, 0, drop (n_scale n1 - min_scale) p1, p2)
             else (case sub_neg 0 (take (n_scale n2 - min_scale) p2) of
                     (ds, b) \<Rightarrow> (ds, b, p1, drop (n_scale n2 - min_scale) p2)))
      in rm_leading_zeros
        \<lparr>n_sign = PLUS, n_len = diff_len, n_scale = max diff_scale scale_min,
         n_value = rev (low @ sub_loop borrow p1' p2') @ replicate (scale_min - diff_scale) 0\<rparr>)"

subsection \<open>Signed addition and subtraction\<close>

definition zero_with_scale :: "nat \<Rightarrow> bc_num" where
  "zero_with_scale res_scale =
     \<lparr>n_sign = PLUS, n_len = 1, n_scale = res_scale, n_value = replicate (res_scale + 1) 0\<rparr>"

definition bc_add :: "bc_num \<Rightarrow> bc_num \<Rightarrow> nat \<Rightarrow> bc_num" where
  "bc_add n1 n2 scale_min =
     (if n_sign n1 = n_sign n2 then (do_add n1 n2 scale_min)\<lparr>n_sign := n_sign n1\<rparr>
      else
        let cmp_res = do_compare n1 n2 False False
        in if cmp_res = - 1 then (do_sub n2 n1 scale_min)\<lparr>n_sign := n_sign n2\<rparr>
           else if cmp_res = 0 then zero_with_scale (max scale_min (max (n_scale n1) (n_scale n2)))
           else (do_sub n1 n2 scale_min)\<lparr>n_sign := n_sign n1\<rparr>)"

definition bc_sub :: "bc_num \<Rightarrow> bc_num \<Rightarrow> nat \<Rightarrow> bc_num" where
  "bc_sub n1 n2 scale_min =
     (if n_sign n1 \<noteq> n_sign n2 then (do_add n1 n2 scale_min)\<lparr>n_sign := n_sign n1\<rparr>
      else
        let cmp_res = do_compare n1 n2 False False
        in if cmp_res = - 1
           then (do_sub n2 n1 scale_min)\<lparr>n_sign := (if n_sign n2 = PLUS then MINUS else PLUS)\<rparr>
           else if cmp_res = 0 then zero_with_scale (max scale_min (max (n_scale n1) (n_scale n2)))
           else (do_sub n1 n2 scale_min)\<lparr>n_sign := n_sign n1\<rparr>)"

subsection \<open>Digit lists\<close>

lemma digits_ok_simps [simp]:
  "digits_ok []" "digits_ok (d # ds) \<longleftrightarrow> d < 10 \<and> digits_ok ds"
  "digits_ok (xs @ ys) \<longleftrightarrow> digits_ok xs \<and> digits_ok ys" "digits_ok (rev xs) \<longleftrightarrow> digits_ok xs"
  "digits_ok (replicate n 0)"
  by (auto simp: digits_ok_def)

lemma digits_ok_take_drop [intro]: "digits_ok xs \<Longrightarrow> digits_ok (take n xs)" "digits_ok xs \<Longrightarrow> digits_ok (drop n xs)"
  by (auto simp: digits_ok_def dest: in_set_takeD in_set_dropD)

lemma lval_append: "lval (xs @ ys) = lval xs + 10 ^ length xs * lval ys"
  by (induction xs) (auto simp: algebra_simps)

lemma lval_zeros [simp]: "lval (replicate n 0) = 0"
  by (induction n) auto

lemma lval_less: "digits_ok xs \<Longrightarrow> lval xs < 10 ^ length xs"
  by (induction xs) auto

lemma lval_eq_0: "lval xs = 0 \<longleftrightarrow> list_all (\<lambda>d. d = 0) xs"
  by (induction xs) auto

lemma lval_inj: "digits_ok xs \<Longrightarrow> digits_ok ys \<Longrightarrow> length xs = length ys \<Longrightarrow> lval xs = lval ys \<Longrightarrow> xs = ys"
proof (induction xs ys rule: list_induct2')
  case (4 x xs y ys)
  from 4(5) have e: "x + 10 * lval xs = y + 10 * lval ys" by simp
  from arg_cong [OF e, of "\<lambda>v. v mod 10"] 4(2,3) have "x = y" by simp
  moreover from this e have "lval xs = lval ys" by simp
  ultimately have "x = y" "lval xs = lval ys" .
  with 4 show ?case by simp
qed auto

lemma dval_Nil [simp]: "dval [] = 0"
  by (simp add: dval_def)

lemma dval_append: "dval (xs @ ys) = dval xs * 10 ^ length ys + dval ys"
  by (simp add: dval_def lval_append mult.commute)

lemma dval_Cons: "dval (x # xs) = x * 10 ^ length xs + dval xs"
  by (simp add: dval_def lval_append mult.commute)

lemma dval_rev [simp]: "dval (rev xs) = lval xs"
  by (simp add: dval_def)

lemma dval_zeros [simp]: "dval (replicate n 0) = 0"
  by (simp add: dval_def)

lemma dval_less: "digits_ok xs \<Longrightarrow> dval xs < 10 ^ length xs"
  using lval_less [of "rev xs"] by (simp add: dval_def)

lemma dval_eq_0: "dval xs = 0 \<longleftrightarrow> list_all (\<lambda>d. d = 0) xs"
  by (simp add: dval_def lval_eq_0 list_all_iff)

lemma dval_inj: "digits_ok xs \<Longrightarrow> digits_ok ys \<Longrightarrow> length xs = length ys \<Longrightarrow> dval xs = dval ys \<Longrightarrow> xs = ys"
  using lval_inj [of "rev xs" "rev ys"] by (simp add: dval_def)

lemma dval_ge: "xs \<noteq> [] \<Longrightarrow> hd xs \<noteq> 0 \<Longrightarrow> 10 ^ (length xs - 1) \<le> dval xs"
  by (cases xs) (auto simp: dval_Cons intro: trans_le_add1)

lemma dval_split: "dval xs = dval (take n xs) * 10 ^ (length xs - n) + dval (drop n xs)"
  using dval_append [of "take n xs" "drop n xs"] by simp

lemma list_ex_dval: "list_ex ((<) 0) xs \<longleftrightarrow> 0 < dval xs"
  using dval_eq_0 [of xs] by (auto simp: list_all_iff list_ex_iff)

subsection \<open>Values\<close>

lemma bc_sgn_simps [simp]: "bc_sgn PLUS = 1" "bc_sgn MINUS = - 1"
  by (simp_all add: bc_sgn_def)

lemma bc_abs_nonneg [simp]: "0 \<le> bc_abs n"
  by (simp add: bc_abs_def)

lemma bc_sgn_cases: "bc_sgn s = 1 \<or> bc_sgn s = - 1"
  by (cases s) auto

lemma is_zero_abs: "bc_wf n \<Longrightarrow> is_zero n \<longleftrightarrow> bc_abs n = 0"
  by (simp add: is_zero_def bc_wf_def bc_abs_def dval_eq_0)

lemma is_zero_val: "bc_wf n \<Longrightarrow> is_zero n \<longleftrightarrow> bc_val n = 0"
  using bc_sgn_cases [of "n_sign n"] by (auto simp: is_zero_abs bc_val_def)

lemma bc_abs_val: "bc_abs n = \<bar>bc_val n\<bar>"
  using bc_sgn_cases [of "n_sign n"] by (auto simp: bc_val_def abs_mult)

lemma bc_wf_constants [simp]: "bc_wf bc_zero" "bc_wf bc_one" "bc_wf bc_two"
  by (simp_all add: bc_wf_def bc_zero_def bc_one_def bc_two_def)

lemma bc_val_constants [simp]: "bc_val bc_zero = 0" "bc_val bc_one = 1" "bc_val bc_two = 2"
  by (simp_all add: bc_val_def bc_abs_def bc_zero_def bc_one_def bc_two_def dval_def)

lemma bc_sign_update [simp]:
  "bc_abs (n\<lparr>n_sign := s\<rparr>) = bc_abs n" "bc_wf (n\<lparr>n_sign := s\<rparr>) = bc_wf n"
  "bc_val (n\<lparr>n_sign := s\<rparr>) = bc_sgn s * bc_abs n"
  by (simp_all add: bc_abs_def bc_wf_def bc_val_def)

text \<open>The magnitude as an integer at a scale that is at least the number's.\<close>

definition scaled :: "bc_num \<Rightarrow> nat \<Rightarrow> nat" where
  "scaled n s = dval (n_value n) * 10 ^ (s - n_scale n)"

lemma bc_abs_scaled: "n_scale n \<le> s \<Longrightarrow> bc_abs n = of_nat (scaled n s) / 10 ^ s"
proof -
  assume "n_scale n \<le> s"
  then have "(10::rat) ^ s = 10 ^ n_scale n * 10 ^ (s - n_scale n)" by (simp flip: power_add)
  then show ?thesis by (simp add: bc_abs_def scaled_def field_simps)
qed

subsection \<open>Leading zeros\<close>

lemma skip_zeros_ok:
  assumes "0 < len" "len \<le> length ds" "skip_zeros len ds = (b, src)"
  shows "0 < b \<and> b \<le> len \<and> ds = replicate (len - b) 0 @ src \<and> (b = 1 \<or> hd src \<noteq> 0) \<and> length src = length ds - len + b"
  using assms
proof (induction len ds rule: skip_zeros.induct)
  case (1 bytes d ds)
  then show ?case
  proof (cases "bytes > 1 \<and> d = 0")
    case True
    then have "skip_zeros (bytes - 1) ds = (b, src)" "0 < bytes - 1" "bytes - 1 \<le> length ds"
      using 1(3,4) by auto
    from 1(1) [OF True this(2,3,1)] have ih: "0 < b" "b \<le> bytes - 1" "ds = replicate (bytes - 1 - b) 0 @ src"
      "b = 1 \<or> hd src \<noteq> 0" "length src = length ds - (bytes - 1) + b" by blast+
    have "bytes - b = Suc (bytes - 1 - b)" using True ih(2) by auto
    then have "d # ds = replicate (bytes - b) 0 @ src" using True ih(3) by simp
    with ih(1,2,4,5) True show ?thesis by auto
  qed auto
qed simp

lemma rm_leading_zeros_ok:
  assumes "0 < n_len n" "length (n_value n) = n_len n + n_scale n" "digits_ok (n_value n)"
  shows "bc_wf (rm_leading_zeros n)" "bc_abs (rm_leading_zeros n) = bc_abs n"
    "n_sign (rm_leading_zeros n) = n_sign n" "n_scale (rm_leading_zeros n) = n_scale n"
proof -
  have "bc_wf (rm_leading_zeros n) \<and> bc_abs (rm_leading_zeros n) = bc_abs n \<and>
    n_sign (rm_leading_zeros n) = n_sign n \<and> n_scale (rm_leading_zeros n) = n_scale n"
  proof (cases "hd (n_value n) = 0")
    case False
    with assms show ?thesis by (simp add: rm_leading_zeros_def bc_wf_def)
  next
    case True
    obtain b src where s: "skip_zeros (n_len n) (n_value n) = (b, src)" by fastforce
    from skip_zeros_ok [OF assms(1) _ s] assms(2) have
      b: "0 < b" "n_value n = replicate (n_len n - b) 0 @ src" "b = 1 \<or> hd src \<noteq> 0"
        "length src = n_scale n + b" by auto
    have "dval (n_value n) = dval src" unfolding b(2) by (simp add: dval_append)
    moreover have "digits_ok src" using assms(3) b(2) by (metis digits_ok_simps(3))
    ultimately show ?thesis using True s b by (simp add: rm_leading_zeros_def bc_wf_def bc_abs_def)
  qed
  then show "bc_wf (rm_leading_zeros n)" "bc_abs (rm_leading_zeros n) = bc_abs n"
    "n_sign (rm_leading_zeros n) = n_sign n" "n_scale (rm_leading_zeros n) = n_scale n" by auto
qed

subsection \<open>Comparison\<close>

lemma cmp_loop_ok:
  assumes "cmp_loop c xs ys = (c', xs', ys')" "c \<le> length xs" "c \<le> length ys"
  shows "\<exists>p. xs = p @ xs' \<and> ys = p @ ys' \<and> length p = c - c' \<and> c' \<le> c \<and>
    (c' \<noteq> 0 \<longrightarrow> xs' \<noteq> [] \<and> ys' \<noteq> [] \<and> hd xs' \<noteq> hd ys')"
  using assms
proof (induction c xs ys rule: cmp_loop.induct)
  case (1 c x xs y ys)
  show ?case
  proof (cases "x = y")
    case True
    with 1 obtain p where p: "xs = p @ xs'" "ys = p @ ys'" "length p = c - c'" "c' \<le> c"
      "c' \<noteq> 0 \<longrightarrow> xs' \<noteq> [] \<and> ys' \<noteq> [] \<and> hd xs' \<noteq> hd ys'" by auto
    with True show ?thesis by (intro exI [of _ "y # p"]) auto
  next
    case False
    with 1 show ?thesis by auto
  qed
qed auto

lemma dval_lex:
  assumes "digits_ok (x # xs)" "digits_ok (y # ys)" "length xs = length ys" "x < y"
  shows "dval (x # xs) < dval (y # ys)"
proof -
  have "dval (x # xs) < (x + 1) * 10 ^ length xs" using dval_less [of xs] assms(1) by (simp add: dval_Cons)
  also have "\<dots> \<le> y * 10 ^ length ys" using assms(3,4) by (intro mult_mono) auto
  also have "\<dots> \<le> dval (y # ys)" by (simp add: dval_Cons)
  finally show ?thesis .
qed

lemma dval_pad: "dval (xs @ replicate k 0) = dval xs * 10 ^ k"
  by (simp add: dval_append)

text \<open>The comparison of magnitudes, on the digit lists padded to a common length.\<close>

definition padded :: "bc_num \<Rightarrow> bc_num \<Rightarrow> nat list" where
  "padded n m = n_value n @ replicate (n_scale m - n_scale n) 0"

lemma dval_padded: "dval (padded n m) = scaled n (max (n_scale n) (n_scale m))"
  by (simp add: padded_def dval_pad scaled_def max_def)

lemma compare_len:
  assumes "bc_wf n1" "bc_wf n2" "n_len n1 < n_len n2"
  shows "dval (padded n1 n2) < dval (padded n2 n1)"
proof -
  let ?s = "max (n_scale n1) (n_scale n2)"
  have l1: "length (padded n1 n2) = n_len n1 + ?s" and l2: "length (padded n2 n1) = n_len n2 + ?s"
    using assms by (auto simp: padded_def bc_wf_def)
  have "dval (padded n1 n2) < 10 ^ (n_len n1 + ?s)"
    unfolding l1 [symmetric] using assms(1) by (intro dval_less) (simp add: padded_def bc_wf_def)
  also have "\<dots> \<le> 10 ^ (n_len n2 + ?s - 1)" using assms(3) by (intro power_increasing) auto
  also have "\<dots> \<le> dval (padded n2 n1)"
  proof -
    have "padded n2 n1 \<noteq> []" "hd (padded n2 n1) \<noteq> 0" using assms by (auto simp: padded_def bc_wf_def hd_append)
    then show ?thesis using dval_ge [of "padded n2 n1"] l2 by simp
  qed
  finally show ?thesis .
qed

definition cmp_nat :: "nat \<Rightarrow> nat \<Rightarrow> int" where
  "cmp_nat a b = (if a < b then - 1 else if a = b then 0 else 1)"

lemma compare_magnitudes:
  assumes "bc_wf n1" "bc_wf n2"
  shows "do_compare n1 n2 False False = cmp_nat (dval (padded n1 n2)) (dval (padded n2 n1))"
proof (cases "n_len n1 = n_len n2")
  case False
  then consider "n_len n1 < n_len n2" | "n_len n2 < n_len n1" by linarith
  then show ?thesis
    by cases (use compare_len [OF assms] compare_len [OF assms(2,1)] in \<open>auto simp: do_compare_def Let_def cmp_nat_def\<close>)
next
  case len: True
  let ?c = "n_len n1 + min (n_scale n1) (n_scale n2)"
  have l: "length (n_value n1) = n_len n1 + n_scale n1" "length (n_value n2) = n_len n1 + n_scale n2"
    and ok: "digits_ok (n_value n1)" "digits_ok (n_value n2)"
    using assms len by (auto simp: bc_wf_def)
  obtain c xs ys where cmp: "cmp_loop ?c (n_value n1) (n_value n2) = (c, xs, ys)" by (cases "cmp_loop ?c (n_value n1) (n_value n2)")
  from cmp_loop_ok [OF cmp] l obtain p where p: "n_value n1 = p @ xs" "n_value n2 = p @ ys" "length p = ?c - c" "c \<le> ?c"
    "c \<noteq> 0 \<longrightarrow> xs \<noteq> [] \<and> ys \<noteq> [] \<and> hd xs \<noteq> hd ys" by auto
  define xp where "xp = xs @ replicate (n_scale n2 - n_scale n1) 0"
  define yp where "yp = ys @ replicate (n_scale n1 - n_scale n2) 0"
  have pad: "padded n1 n2 = p @ xp" "padded n2 n1 = p @ yp" by (simp_all add: padded_def p xp_def yp_def)
  have lxy: "length xp = length yp" using l p(1,2) by (auto simp: xp_def yp_def)
  then have red: "cmp_nat (dval (padded n1 n2)) (dval (padded n2 n1)) = cmp_nat (dval xp) (dval yp)"
    by (simp add: pad dval_append cmp_nat_def)
  have okp: "digits_ok xp" "digits_ok yp" using ok by (auto simp: p xp_def yp_def)
  show ?thesis
  proof (cases "c = 0")
    case False
    then obtain x xr y yr where xy: "xs = x # xr" "ys = y # yr" "x \<noteq> y" using p(5) by (cases xs; cases ys) auto
    have "cmp_nat (dval xp) (dval yp) = (if x > y then 1 else - 1)"
    proof (cases "x > y")
      case True
      then have "dval yp < dval xp" unfolding xp_def yp_def xy append_Cons
        using okp lxy by (intro dval_lex) (auto simp: xp_def yp_def xy)
      with True show ?thesis by (simp add: cmp_nat_def)
    next
      case False
      then have "x < y" using xy(3) by simp
      then have "dval xp < dval yp" unfolding xp_def yp_def xy append_Cons
        using okp lxy by (intro dval_lex) (auto simp: xp_def yp_def xy(1,2))
      with False show ?thesis by (simp add: cmp_nat_def)
    qed
    with False show ?thesis unfolding red using len cmp by (simp add: do_compare_def Let_def xy)
  next
    case True
    have lx: "length xs = n_scale n1 - n_scale n2" "length ys = n_scale n2 - n_scale n1"
      using l p(1-3) True by auto
    have cm: "do_compare n1 n2 False False =
      (if n_scale n1 > n_scale n2 then (if dval xs \<noteq> 0 then 1 else 0)
       else if n_scale n1 < n_scale n2 then (if dval ys \<noteq> 0 then - 1 else 0) else 0)"
      using len cmp lx True by (simp add: do_compare_def Let_def list_ex_dval)
    show ?thesis
    proof (cases "n_scale n1" "n_scale n2" rule: linorder_cases)
      case less
      then have "xs = []" using lx by simp
      with less show ?thesis unfolding red cm by (simp add: cmp_nat_def xp_def yp_def)
    next
      case equal
      then have "xs = []" "ys = []" using lx by auto
      with equal show ?thesis unfolding red cm by (simp add: cmp_nat_def xp_def yp_def)
    next
      case greater
      then have "ys = []" using lx by simp
      with greater show ?thesis unfolding red cm by (simp add: cmp_nat_def xp_def yp_def)
    qed
  qed
qed

lemma padded_abs:
  "(dval (padded n1 n2) < dval (padded n2 n1)) = (bc_abs n1 < bc_abs n2)"
  "(dval (padded n1 n2) = dval (padded n2 n1)) = (bc_abs n1 = bc_abs n2)"
proof -
  let ?s = "max (n_scale n1) (n_scale n2)"
  have "bc_abs n1 = of_nat (dval (padded n1 n2)) / 10 ^ ?s" "bc_abs n2 = of_nat (dval (padded n2 n1)) / 10 ^ ?s"
    by (simp_all add: bc_abs_scaled [of _ ?s] dval_padded max.commute)
  then show "(dval (padded n1 n2) < dval (padded n2 n1)) = (bc_abs n1 < bc_abs n2)"
    "(dval (padded n1 n2) = dval (padded n2 n1)) = (bc_abs n1 = bc_abs n2)"
    by (simp_all add: divide_less_cancel)
qed

definition cmp_rat :: "rat \<Rightarrow> rat \<Rightarrow> int" where
  "cmp_rat a b = (if a < b then - 1 else if a = b then 0 else 1)"

lemma compare_abs: "bc_wf n1 \<Longrightarrow> bc_wf n2 \<Longrightarrow> do_compare n1 n2 False False = cmp_rat (bc_abs n1) (bc_abs n2)"
  by (simp add: compare_magnitudes cmp_nat_def cmp_rat_def padded_abs)

lemma do_compare_sign:
  "do_compare n1 n2 True False =
    (if n_sign n1 \<noteq> n_sign n2 then (if n_sign n1 = PLUS then 1 else - 1)
     else if n_sign n1 = PLUS then do_compare n1 n2 False False else - do_compare n1 n2 False False)"
  by (cases "n_sign n1") (auto simp: do_compare_def Let_def split: prod.splits)

definition no_minus_zero :: "bc_num \<Rightarrow> bool" where
  "no_minus_zero n \<longleftrightarrow> n_sign n = PLUS \<or> bc_abs n \<noteq> 0"

lemma compare_val:
  assumes "bc_wf n1" "bc_wf n2" "no_minus_zero n1" "no_minus_zero n2"
  shows "bc_compare n1 n2 = cmp_rat (bc_val n1) (bc_val n2)"
proof -
  note nonneg = bc_abs_nonneg [of n1] bc_abs_nonneg [of n2]
  show ?thesis
    unfolding bc_compare_def do_compare_sign compare_abs [OF assms(1,2)]
    using assms(3,4) nonneg unfolding bc_val_def cmp_rat_def no_minus_zero_def
    by (cases "n_sign n1"; cases "n_sign n2"; simp; linarith)
qed

subsection \<open>Addition of magnitudes\<close>

lemma add_carry_ok:
  "digits_ok xs \<Longrightarrow> c \<le> 1 \<Longrightarrow> lval (add_carry c xs) = lval xs + c \<and> digits_ok (add_carry c xs) \<and>
    length (add_carry c xs) = length xs + 1"
  by (induction c xs rule: add_carry.induct) (auto simp: Let_def)

lemma add_loop_ok:
  "digits_ok xs \<Longrightarrow> digits_ok ys \<Longrightarrow> c \<le> 1 \<Longrightarrow>
    lval (add_loop c xs ys) = lval xs + lval ys + c \<and> digits_ok (add_loop c xs ys) \<and>
    length (add_loop c xs ys) = max (length xs) (length ys) + 1"
  by (induction c xs ys rule: add_loop.induct) (auto simp: Let_def add_carry_ok)

lemma add_digits_ok:
  assumes "length p1 = l1 + s1" "length p2 = l2 + s2" "digits_ok p1" "digits_ok p2"
  defines "ds \<equiv> take (s1 - s2) p1 @ take (s2 - s1) p2 @ add_loop 0 (drop (s1 - s2) p1) (drop (s2 - s1) p2)"
  shows "lval ds = lval p1 * 10 ^ (s2 - s1) + lval p2 * 10 ^ (s1 - s2)" "digits_ok ds"
    "length ds = max l1 l2 + 1 + max s1 s2"
proof -
  have ok: "digits_ok (take n p)" "digits_ok (drop n p)" if "digits_ok p" for n p using that by auto
  note loop = add_loop_ok [OF ok(2) [OF assms(3)] ok(2) [OF assms(4)], of 0 "s1 - s2" "s2 - s1", simplified]
  show "digits_ok ds" using assms(3,4) loop by (auto simp: ds_def)
  show "length ds = max l1 l2 + 1 + max s1 s2" using loop assms(1,2) by (simp add: ds_def)
  have split: "lval p = lval (take n p) + 10 ^ n * lval (drop n p)" if "n \<le> length p" for n p
    using lval_append [of "take n p" "drop n p"] that by simp
  show "lval ds = lval p1 * 10 ^ (s2 - s1) + lval p2 * 10 ^ (s1 - s2)"
  proof (cases "s2 \<le> s1")
    case True
    then show ?thesis
      using loop split [of "s1 - s2" p1] assms(1) by (simp add: ds_def lval_append algebra_simps)
  next
    case False
    then show ?thesis
      using loop split [of "s2 - s1" p2] assms(2) by (simp add: ds_def lval_append algebra_simps)
  qed
qed

lemma scaled_rev: "lval (rev (n_value n)) = dval (n_value n)"
  by (simp add: dval_def)

lemma bc_abs_extended:
  "bc_abs \<lparr>n_sign = s, n_len = l, n_scale = max S m, n_value = rev ds @ replicate (m - S) 0\<rparr> = of_nat (lval ds) / 10 ^ S"
proof -
  have "max S m = S + (m - S)" by simp
  then have "(10::rat) ^ max S m = 10 ^ S * 10 ^ (m - S)" by (metis power_add)
  then show ?thesis by (simp add: bc_abs_def dval_pad)
qed

lemma do_add_ok:
  assumes "bc_wf n1" "bc_wf n2"
  shows "bc_wf (do_add n1 n2 m)" "bc_abs (do_add n1 n2 m) = bc_abs n1 + bc_abs n2"
    "n_scale (do_add n1 n2 m) = max m (max (n_scale n1) (n_scale n2))"
proof -
  let ?s1 = "n_scale n1" and ?s2 = "n_scale n2" and ?p1 = "rev (n_value n1)" and ?p2 = "rev (n_value n2)"
  let ?S = "max ?s1 ?s2"
  define ds where "ds = take (?s1 - ?s2) ?p1 @ take (?s2 - ?s1) ?p2 @ add_loop 0 (drop (?s1 - ?s2) ?p1) (drop (?s2 - ?s1) ?p2)"
  let ?r = "\<lparr>n_sign = PLUS, n_len = max (n_len n1) (n_len n2) + 1, n_scale = max ?S m,
    n_value = rev ds @ replicate (m - ?S) 0\<rparr>"
  have eq: "do_add n1 n2 m = rm_leading_zeros ?r" by (simp add: do_add_def Let_def ds_def)
  have wf: "length ?p1 = n_len n1 + ?s1" "length ?p2 = n_len n2 + ?s2" "digits_ok ?p1" "digits_ok ?p2"
    using assms by (auto simp: bc_wf_def)
  note d = add_digits_ok [OF wf, folded ds_def]
  have r: "0 < n_len ?r" "length (n_value ?r) = n_len ?r + n_scale ?r" "digits_ok (n_value ?r)"
    using d(2,3) by auto
  note rm = rm_leading_zeros_ok [OF r]
  show "bc_wf (do_add n1 n2 m)" unfolding eq by (rule rm(1))
  show "n_scale (do_add n1 n2 m) = max m ?S" unfolding eq rm(4) by (simp only: bc_num.simps max.commute)
  have "lval ds = scaled n1 ?S + scaled n2 ?S" using d(1) by (simp add: scaled_def scaled_rev max_def)
  then have "bc_abs ?r = (of_nat (scaled n1 ?S) + of_nat (scaled n2 ?S)) / 10 ^ ?S"
    unfolding bc_abs_extended by simp
  also have "\<dots> = bc_abs n1 + bc_abs n2"
  proof -
    have "bc_abs n1 = of_nat (scaled n1 ?S) / 10 ^ ?S" "bc_abs n2 = of_nat (scaled n2 ?S) / 10 ^ ?S"
      by (rule bc_abs_scaled, simp)+
    then show ?thesis by (simp only: add_divide_distrib)
  qed
  finally show "bc_abs (do_add n1 n2 m) = bc_abs n1 + bc_abs n2" unfolding eq rm(2) .
qed

subsection \<open>Subtraction of magnitudes\<close>

lemma sub_digit_ok:
  "sub_digit v = (d, b) \<Longrightarrow> - 10 \<le> v \<Longrightarrow> v < 10 \<Longrightarrow> int d - 10 * int b = v \<and> d < 10 \<and> b \<le> 1"
  by (auto simp: sub_digit_def split: if_splits)

lemma sub_neg_ok:
  "digits_ok ys \<Longrightarrow> b \<le> 1 \<Longrightarrow> sub_neg b ys = (ds, b') \<Longrightarrow>
    int (lval ds) - int b' * 10 ^ length ys = - int (lval ys) - int b \<and> digits_ok ds \<and> b' \<le> 1 \<and> length ds = length ys"
proof (induction b ys arbitrary: ds b' rule: sub_neg.induct)
  case (2 b y ys)
  obtain d c where d: "sub_digit (- int y - int b) = (d, c)" by fastforce
  obtain ds1 b1 where r: "sub_neg c ys = (ds1, b1)" by fastforce
  from 2(2,3) sub_digit_ok [OF d] have dc: "int d - 10 * int c = - int y - int b" "d < 10" "c \<le> 1" by auto
  from 2(1) [OF d [symmetric] _ dc(3) r] 2(2)
  have ih: "int (lval ds1) - int b1 * 10 ^ length ys = - int (lval ys) - int c" "digits_ok ds1" "b1 \<le> 1"
    "length ds1 = length ys" by auto
  from 2(4) d r have e: "ds = d # ds1" "b' = b1" by auto
  have "int (lval ds) - int b' * 10 ^ length (y # ys) = int d + 10 * (int (lval ds1) - int b1 * 10 ^ length ys)"
    by (simp add: e algebra_simps)
  also have "\<dots> = - int (lval (y # ys)) - int b" using dc(1) unfolding ih(1) by simp
  finally show ?case using e ih dc by simp
qed simp

lemma sub_loop_ok:
  "digits_ok xs \<Longrightarrow> digits_ok ys \<Longrightarrow> b \<le> 1 \<Longrightarrow> length ys \<le> length xs \<Longrightarrow>
    \<exists>b' \<le> 1. int (lval (sub_loop b xs ys)) - int b' * 10 ^ length xs = int (lval xs) - int (lval ys) - int b \<and>
      digits_ok (sub_loop b xs ys) \<and> length (sub_loop b xs ys) = length xs"
proof (induction b xs ys rule: sub_loop.induct)
  case (1 b x xs y ys)
  obtain d c where d: "sub_digit (int x - int y - int b) = (d, c)" by fastforce
  from 1(2-4) sub_digit_ok [OF d] have dc: "int d - 10 * int c = int x - int y - int b" "d < 10" "c \<le> 1" by auto
  from 1(1) [OF d [symmetric] _ _ dc(3)] 1(2-5) obtain b' where
    ih: "b' \<le> 1" "int (lval (sub_loop c xs ys)) - int b' * 10 ^ length xs = int (lval xs) - int (lval ys) - int c"
      "digits_ok (sub_loop c xs ys)" "length (sub_loop c xs ys) = length xs" by auto
  have "int (lval (d # sub_loop c xs ys)) - int b' * 10 ^ length (x # xs) =
      int d + 10 * (int (lval (sub_loop c xs ys)) - int b' * 10 ^ length xs)"
    by (simp add: algebra_simps)
  also have "\<dots> = int (lval (x # xs)) - int (lval (y # ys)) - int b" using dc(1) unfolding ih(2) by simp
  finally show ?case using d ih dc by (intro exI [of _ b']) simp
next
  case (2 b x xs)
  obtain d c where d: "sub_digit (int x - int b) = (d, c)" by fastforce
  from 2(2-4) sub_digit_ok [OF d] have dc: "int d - 10 * int c = int x - int b" "d < 10" "c \<le> 1" by auto
  from 2(1) [OF d [symmetric] _ _ dc(3)] 2(2-5) obtain b' where
    ih: "b' \<le> 1" "int (lval (sub_loop c xs [])) - int b' * 10 ^ length xs = int (lval xs) - int (lval []) - int c"
      "digits_ok (sub_loop c xs [])" "length (sub_loop c xs []) = length xs" by auto
  have "int (lval (d # sub_loop c xs [])) - int b' * 10 ^ length (x # xs) =
      int d + 10 * (int (lval (sub_loop c xs [])) - int b' * 10 ^ length xs)"
    by (simp add: algebra_simps)
  also have "\<dots> = int (lval (x # xs)) - int (lval []) - int b" using dc(1) unfolding ih(2) by simp
  finally show ?case using d ih dc by (intro exI [of _ b']) simp
next
  case (3 b ys)
  then show ?case by (intro exI [of _ b]) simp
qed

lemma sub_loop_exact:
  assumes "digits_ok xs" "digits_ok ys" "b \<le> 1" "length ys \<le> length xs" "lval ys + b \<le> lval xs"
  shows "int (lval (sub_loop b xs ys)) = int (lval xs) - int (lval ys) - int b"
    "digits_ok (sub_loop b xs ys)" "length (sub_loop b xs ys) = length xs"
proof -
  obtain b' where b: "b' \<le> 1" "int (lval (sub_loop b xs ys)) - int b' * 10 ^ length xs = int (lval xs) - int (lval ys) - int b"
    "digits_ok (sub_loop b xs ys)" "length (sub_loop b xs ys) = length xs"
    using sub_loop_ok [OF assms(1-4)] by blast
  have "lval (sub_loop b xs ys) < 10 ^ length xs" using lval_less [OF b(3)] b(4) by simp
  then have "int (lval (sub_loop b xs ys)) < int (10 ^ length xs)" by (simp only: of_nat_less_iff)
  then have lt: "int (lval (sub_loop b xs ys)) < 10 ^ length xs" by simp
  have "b' = 0"
  proof (rule ccontr)
    assume "b' \<noteq> 0"
    then have "b' = 1" using b(1) by simp
    with b(2) lt assms(5) show False by simp
  qed
  with b show "int (lval (sub_loop b xs ys)) = int (lval xs) - int (lval ys) - int b"
    "digits_ok (sub_loop b xs ys)" "length (sub_loop b xs ys) = length xs" by simp_all
qed

lemma lval_take_drop: "n \<le> length p \<Longrightarrow> lval p = lval (take n p) + 10 ^ n * lval (drop n p)"
  using lval_append [of "take n p" "drop n p"] by simp

lemma scaled_le:
  fixes t D P k :: nat
  assumes "P * 10 ^ k \<le> t + 10 ^ k * D" "t < 10 ^ k"
  shows "P \<le> D"
proof -
  have "10 ^ k * P < 10 ^ k * (D + 1)" using assms by (simp add: algebra_simps)
  then have "P < D + 1" by (metis mult_less_cancel1)
  then show ?thesis by simp
qed

text \<open>The digits of the difference when the first number has at least as many fraction digits.\<close>

lemma sub_digits_long:
  assumes "length p1 = l1 + s1" "length p2 = l2 + s2" "digits_ok p1" "digits_ok p2" "s2 \<le> s1" "l2 \<le> l1"
    and le: "lval p2 * 10 ^ (s1 - s2) \<le> lval p1"
  defines "ds \<equiv> take (s1 - s2) p1 @ sub_loop 0 (drop (s1 - s2) p1) p2"
  shows "int (lval ds) = int (lval p1) - int (lval p2) * 10 ^ (s1 - s2)" "digits_ok ds" "length ds = l1 + s1"
proof -
  let ?k = "s1 - s2"
  have k: "?k \<le> length p1" using assms(1) by simp
  have "digits_ok (take ?k p1)" "digits_ok (drop ?k p1)" using assms(3) by auto
  have t: "lval (take ?k p1) < 10 ^ ?k"
    using lval_less [OF \<open>digits_ok (take ?k p1)\<close>] unfolding length_take min_absorb2 [OF k] .
  have "lval p2 * 10 ^ ?k \<le> lval (take ?k p1) + 10 ^ ?k * lval (drop ?k p1)"
    using le unfolding lval_take_drop [OF k] .
  from scaled_le [OF this t] have "lval p2 + 0 \<le> lval (drop ?k p1)" by simp
  note sl = sub_loop_exact [OF \<open>digits_ok (drop ?k p1)\<close> assms(4), of 0, OF _ _ this]
  have lens: "length p2 \<le> length (drop ?k p1)" using assms(1,2,5,6) by simp
  show "digits_ok ds" "length ds = l1 + s1"
    using sl lens assms(1,5) \<open>digits_ok (take ?k p1)\<close> by (auto simp: ds_def)
  have "int (lval ds) = int (lval (take ?k p1)) + 10 ^ ?k * (int (lval (drop ?k p1)) - int (lval p2))"
    using sl(1) lens k by (simp add: ds_def lval_append min_absorb2)
  also have "\<dots> = int (lval p1) - int (lval p2) * 10 ^ ?k"
    unfolding lval_take_drop [OF k] by (simp add: algebra_simps)
  finally show "int (lval ds) = int (lval p1) - int (lval p2) * 10 ^ ?k" .
qed

lemma sub_digits_short:
  assumes "length p1 = l1 + s1" "length p2 = l2 + s2" "digits_ok p1" "digits_ok p2" "s1 \<le> s2" "l2 \<le> l1"
    and le: "lval p2 \<le> lval p1 * 10 ^ (s2 - s1)"
    and neg: "sub_neg 0 (take (s2 - s1) p2) = (low, b)"
  defines "ds \<equiv> low @ sub_loop b p1 (drop (s2 - s1) p2)"
  shows "int (lval ds) = int (lval p1) * 10 ^ (s2 - s1) - int (lval p2)" "digits_ok ds" "length ds = l1 + s2"
proof -
  let ?k = "s2 - s1"
  have k: "?k \<le> length p2" using assms(2) by simp
  have ok: "digits_ok (take ?k p2)" "digits_ok (drop ?k p2)" using assms(4) by auto
  from sub_neg_ok [OF ok(1) _ neg] k have low: "int (lval low) - int b * 10 ^ ?k = - int (lval (take ?k p2))"
    "digits_ok low" "b \<le> 1" "length low = ?k" by (auto simp: min_absorb2)
  have t: "lval (take ?k p2) < 10 ^ ?k" using lval_less [OF ok(1)] k by (simp add: min_absorb2)
  have le': "10 ^ ?k * lval (drop ?k p2) + lval (take ?k p2) \<le> 10 ^ ?k * lval p1"
    using le lval_take_drop [OF k] by (simp add: mult.commute)
  have "lval (drop ?k p2) + b \<le> lval p1"
  proof (cases "b = 0")
    case True
    have "10 ^ ?k * lval (drop ?k p2) \<le> 10 ^ ?k * lval p1" using le' by linarith
    then have "lval (drop ?k p2) \<le> lval p1" by (rule mult_left_le_imp_le) simp
    with True show ?thesis by simp
  next
    case False
    with low(3) have b1: "b = 1" by simp
    have "lval (take ?k p2) \<noteq> 0"
    proof
      assume "lval (take ?k p2) = 0"
      with low(1) b1 have "int (lval low) = 10 ^ ?k" by simp
      moreover have "lval low < 10 ^ ?k" using lval_less [OF low(2)] low(4) by simp
      then have "int (lval low) < int (10 ^ ?k)" by (simp only: of_nat_less_iff)
      ultimately show False by simp
    qed
    with le' have "10 ^ ?k * lval (drop ?k p2) < 10 ^ ?k * lval p1" by linarith
    then have "lval (drop ?k p2) < lval p1" by (metis mult_less_cancel1)
    with b1 show ?thesis by simp
  qed
  note sl = sub_loop_exact [OF assms(3) ok(2) low(3) _ this]
  have lens: "length (drop ?k p2) \<le> length p1" using assms(1,2,5,6) by simp
  show "digits_ok ds" "length ds = l1 + s2" using sl lens low assms(1,5) by (auto simp: ds_def)
  have "int (lval ds) = int (lval low) + 10 ^ ?k * (int (lval p1) - int (lval (drop ?k p2)) - int b)"
    using sl(1) lens low(4) by (simp add: ds_def lval_append)
  also have "\<dots> = (int (lval low) - int b * 10 ^ ?k) + 10 ^ ?k * int (lval p1) - 10 ^ ?k * int (lval (drop ?k p2))"
    by (simp add: algebra_simps)
  also have "\<dots> = int (lval p1) * 10 ^ ?k - int (lval p2)"
    unfolding low(1) unfolding lval_take_drop [OF k] by (simp add: algebra_simps)
  finally show "int (lval ds) = int (lval p1) * 10 ^ ?k - int (lval p2)" .
qed

lemma sub_digits_ok:
  assumes "bc_wf n1" "bc_wf n2" "bc_abs n2 \<le> bc_abs n1"
  obtains ds where
    "do_sub n1 n2 m = rm_leading_zeros \<lparr>n_sign = PLUS, n_len = n_len n1, n_scale = max (max (n_scale n1) (n_scale n2)) m,
      n_value = rev ds @ replicate (m - max (n_scale n1) (n_scale n2)) 0\<rparr>"
    "int (lval ds) = int (scaled n1 (max (n_scale n1) (n_scale n2))) - int (scaled n2 (max (n_scale n1) (n_scale n2)))"
    "digits_ok ds" "length ds = n_len n1 + max (n_scale n1) (n_scale n2)"
proof -
  let ?s1 = "n_scale n1" and ?s2 = "n_scale n2" and ?p1 = "rev (n_value n1)" and ?p2 = "rev (n_value n2)"
  have wf: "length ?p1 = n_len n1 + ?s1" "length ?p2 = n_len n2 + ?s2" "digits_ok ?p1" "digits_ok ?p2"
    using assms by (auto simp: bc_wf_def)
  have le: "dval (padded n2 n1) \<le> dval (padded n1 n2)"
    using assms(3) padded_abs [of n1 n2] by (meson not_le)
  then have len: "n_len n2 \<le> n_len n1" using compare_len [OF assms(1,2)] by (meson not_le)
  have max_len: "max (n_len n1) (n_len n2) = n_len n1" using len by simp
  have lv: "lval ?p1 = dval (n_value n1)" "lval ?p2 = dval (n_value n2)" by (simp_all add: dval_def)
  have pad: "dval (padded n1 n2) = lval ?p1 * 10 ^ (?s2 - ?s1)" "dval (padded n2 n1) = lval ?p2 * 10 ^ (?s1 - ?s2)"
    by (simp_all add: padded_def dval_pad lv)
  show thesis
  proof (cases "?s1 \<le> ?s2")
    case False
    then have sc: "?s2 \<le> ?s1" "max ?s1 ?s2 = ?s1" "min ?s1 ?s2 = ?s2" "?s1 \<noteq> ?s2" by auto
    have le': "lval ?p2 * 10 ^ (?s1 - ?s2) \<le> lval ?p1" using le sc(1) unfolding pad by simp
    let ?ds = "take (?s1 - ?s2) ?p1 @ sub_loop 0 (drop (?s1 - ?s2) ?p1) ?p2"
    note d = sub_digits_long [OF wf sc(1) len le']
    show thesis
    proof (rule that [of ?ds])
      show "do_sub n1 n2 m = rm_leading_zeros \<lparr>n_sign = PLUS, n_len = n_len n1, n_scale = max (max ?s1 ?s2) m,
          n_value = rev ?ds @ replicate (m - max ?s1 ?s2) 0\<rparr>"
        unfolding do_sub_def Let_def max_len sc(2,3) using sc(4) by simp
    qed (use d sc in \<open>simp_all add: scaled_def lv\<close>)
  next
    case True
    then have sc: "max ?s1 ?s2 = ?s2" "min ?s1 ?s2 = ?s1" by auto
    have le': "lval ?p2 \<le> lval ?p1 * 10 ^ (?s2 - ?s1)" using le True unfolding pad by simp
    obtain low b where neg: "sub_neg 0 (take (?s2 - ?s1) ?p2) = (low, b)" by fastforce
    let ?ds = "low @ sub_loop b ?p1 (drop (?s2 - ?s1) ?p2)"
    note d = sub_digits_short [OF wf True len le' neg]
    show thesis
    proof (rule that [of ?ds])
      show "do_sub n1 n2 m = rm_leading_zeros \<lparr>n_sign = PLUS, n_len = n_len n1, n_scale = max (max ?s1 ?s2) m,
          n_value = rev ?ds @ replicate (m - max ?s1 ?s2) 0\<rparr>"
        unfolding do_sub_def Let_def max_len sc using neg by simp
    qed (use d sc True in \<open>simp_all add: scaled_def lv\<close>)
  qed
qed

lemma do_sub_ok:
  assumes "bc_wf n1" "bc_wf n2" "bc_abs n2 \<le> bc_abs n1"
  shows "bc_wf (do_sub n1 n2 m)" "bc_abs (do_sub n1 n2 m) = bc_abs n1 - bc_abs n2"
    "n_scale (do_sub n1 n2 m) = max m (max (n_scale n1) (n_scale n2))"
proof -
  let ?S = "max (n_scale n1) (n_scale n2)"
  obtain ds where ds: "do_sub n1 n2 m = rm_leading_zeros \<lparr>n_sign = PLUS, n_len = n_len n1, n_scale = max ?S m,
      n_value = rev ds @ replicate (m - ?S) 0\<rparr>"
    "int (lval ds) = int (scaled n1 ?S) - int (scaled n2 ?S)" "digits_ok ds" "length ds = n_len n1 + ?S"
    using sub_digits_ok [OF assms] by blast
  let ?r = "\<lparr>n_sign = PLUS, n_len = n_len n1, n_scale = max ?S m, n_value = rev ds @ replicate (m - ?S) 0\<rparr>"
  have r: "0 < n_len ?r" "length (n_value ?r) = n_len ?r + n_scale ?r" "digits_ok (n_value ?r)"
    using ds(3,4) assms(1) by (auto simp: bc_wf_def)
  note rm = rm_leading_zeros_ok [OF r]
  show "bc_wf (do_sub n1 n2 m)" unfolding ds(1) by (rule rm(1))
  show "n_scale (do_sub n1 n2 m) = max m ?S" unfolding ds(1) rm(4) by (simp only: bc_num.simps max.commute)
  have "bc_abs n1 = of_nat (scaled n1 ?S) / 10 ^ ?S" "bc_abs n2 = of_nat (scaled n2 ?S) / 10 ^ ?S"
    by (rule bc_abs_scaled, simp)+
  moreover have "(of_nat (lval ds) :: rat) = of_nat (scaled n1 ?S) - of_nat (scaled n2 ?S)"
    using arg_cong [OF ds(2), of "of_int :: int \<Rightarrow> rat"] by simp
  ultimately show "bc_abs (do_sub n1 n2 m) = bc_abs n1 - bc_abs n2"
    unfolding ds(1) rm(2) bc_abs_extended by (simp only: diff_divide_distrib)
qed

subsection \<open>Signed addition and subtraction\<close>

lemma zero_with_scale_ok [simp]:
  "bc_wf (zero_with_scale s)" "bc_val (zero_with_scale s) = 0" "bc_abs (zero_with_scale s) = 0" "n_scale (zero_with_scale s) = s"
  by (simp_all add: zero_with_scale_def bc_wf_def bc_val_def bc_abs_def dval_zeros [of "Suc s", simplified])

lemma cmp_rat_simps [simp]:
  "cmp_rat a b = - 1 \<longleftrightarrow> a < b" "cmp_rat a b = 0 \<longleftrightarrow> a = b"
  by (auto simp: cmp_rat_def)

lemma bc_add_ok:
  assumes "bc_wf n1" "bc_wf n2"
  shows "bc_wf (bc_add n1 n2 m)" "bc_val (bc_add n1 n2 m) = bc_val n1 + bc_val n2"
    "n_scale (bc_add n1 n2 m) = max m (max (n_scale n1) (n_scale n2))"
proof -
  note add = do_add_ok [OF assms, of m]
  note sub1 = do_sub_ok [OF assms, of m] and sub2 = do_sub_ok [OF assms(2,1), of m]
  consider "n_sign n1 = n_sign n2" | "n_sign n1 \<noteq> n_sign n2" "bc_abs n1 < bc_abs n2"
    | "n_sign n1 \<noteq> n_sign n2" "bc_abs n1 = bc_abs n2" | "n_sign n1 \<noteq> n_sign n2" "bc_abs n2 < bc_abs n1"
    by linarith
  then have "bc_wf (bc_add n1 n2 m) \<and> bc_val (bc_add n1 n2 m) = bc_val n1 + bc_val n2 \<and>
    n_scale (bc_add n1 n2 m) = max m (max (n_scale n1) (n_scale n2))"
  proof cases
    case 1
    then show ?thesis using add by (simp add: bc_add_def bc_val_def distrib_left)
  next
    case 2
    then show ?thesis using sub2 assms
      by (cases "n_sign n1"; cases "n_sign n2") (simp_all add: bc_add_def Let_def compare_abs bc_val_def max.commute)
  next
    case 3
    then show ?thesis using assms
      by (cases "n_sign n1"; cases "n_sign n2") (simp_all add: bc_add_def Let_def compare_abs bc_val_def)
  next
    case 4
    then show ?thesis using sub1 assms
      by (cases "n_sign n1"; cases "n_sign n2") (simp_all add: bc_add_def Let_def compare_abs bc_val_def)
  qed
  then show "bc_wf (bc_add n1 n2 m)" "bc_val (bc_add n1 n2 m) = bc_val n1 + bc_val n2"
    "n_scale (bc_add n1 n2 m) = max m (max (n_scale n1) (n_scale n2))" by blast+
qed

lemma bc_sub_ok:
  assumes "bc_wf n1" "bc_wf n2"
  shows "bc_wf (bc_sub n1 n2 m)" "bc_val (bc_sub n1 n2 m) = bc_val n1 - bc_val n2"
    "n_scale (bc_sub n1 n2 m) = max m (max (n_scale n1) (n_scale n2))"
proof -
  note add = do_add_ok [OF assms, of m]
  note sub1 = do_sub_ok [OF assms, of m] and sub2 = do_sub_ok [OF assms(2,1), of m]
  consider "n_sign n1 \<noteq> n_sign n2" | "n_sign n1 = n_sign n2" "bc_abs n1 < bc_abs n2"
    | "n_sign n1 = n_sign n2" "bc_abs n1 = bc_abs n2" | "n_sign n1 = n_sign n2" "bc_abs n2 < bc_abs n1"
    by linarith
  then have "bc_wf (bc_sub n1 n2 m) \<and> bc_val (bc_sub n1 n2 m) = bc_val n1 - bc_val n2 \<and>
    n_scale (bc_sub n1 n2 m) = max m (max (n_scale n1) (n_scale n2))"
  proof cases
    case 1
    then show ?thesis using add
      by (cases "n_sign n1"; cases "n_sign n2") (simp_all add: bc_sub_def bc_val_def)
  next
    case 2
    then show ?thesis using sub2 assms
      by (cases "n_sign n2") (simp_all add: bc_sub_def Let_def compare_abs bc_val_def max.commute)
  next
    case 3
    then show ?thesis using assms by (simp add: bc_sub_def Let_def compare_abs bc_val_def)
  next
    case 4
    then show ?thesis using sub1 assms
      by (cases "n_sign n2") (simp_all add: bc_sub_def Let_def compare_abs bc_val_def)
  qed
  then show "bc_wf (bc_sub n1 n2 m)" "bc_val (bc_sub n1 n2 m) = bc_val n1 - bc_val n2"
    "n_scale (bc_sub n1 n2 m) = max m (max (n_scale n1) (n_scale n2))" by blast+
qed

subsection \<open>Conversions\<close>

lemma int_digits_ok: "lval (int_digits v) = v \<and> digits_ok (int_digits v) \<and> int_digits v \<noteq> [] \<and>
    (length (int_digits v) = 1 \<or> last (int_digits v) \<noteq> 0)"
proof (induction v rule: int_digits.induct)
  case (1 v)
  show ?case
  proof (cases "v div 10 = 0")
    case True
    then show ?thesis by (simp add: int_digits.simps [of v])
  next
    case False
    with 1 have ih: "lval (int_digits (v div 10)) = v div 10" "digits_ok (int_digits (v div 10))"
      "int_digits (v div 10) \<noteq> []" "length (int_digits (v div 10)) = 1 \<or> last (int_digits (v div 10)) \<noteq> 0" by auto
    have "last (int_digits (v div 10)) \<noteq> 0"
    proof (cases "length (int_digits (v div 10)) = 1")
      case True
      then obtain d where "int_digits (v div 10) = [d]" by (cases "int_digits (v div 10)") auto
      with ih(1) False show ?thesis by simp
    qed (use ih(4) in simp)
    with ih False show ?thesis by (simp add: int_digits.simps [of v])
  qed
qed

lemma int2num_ok:
  assumes "- 2147483648 < v"
  obtains n where "int2num v = Some n" "bc_wf n" "bc_val n = of_int v" "n_scale n = 0" "n_sign n = (if v < 0 then MINUS else PLUS)"
proof -
  let ?n = "\<lparr>n_sign = (if v < 0 then MINUS else PLUS), n_len = length (int_digits (nat \<bar>v\<bar>)), n_scale = 0,
      n_value = rev (int_digits (nat \<bar>v\<bar>))\<rparr>"
  note d = int_digits_ok [of "nat \<bar>v\<bar>"]
  then have "length (int_digits (nat \<bar>v\<bar>)) \<noteq> 0" by simp
  with d have "bc_wf ?n" by (auto simp: bc_wf_def hd_rev)
  moreover have "(of_nat (nat \<bar>v\<bar>) :: rat) = of_int \<bar>v\<bar>" by simp
  then have "bc_val ?n = of_int v" using d by (cases "v < 0") (simp_all add: bc_val_def bc_abs_def)
  moreover have "(if v < 0 then wrap_int (- v) else v) = \<bar>v\<bar>" using assms by (simp add: wrap_int_id)
  then have "int2num v = Some ?n" unfolding int2num_def Let_def by simp
  ultimately show ?thesis by (intro that [of ?n]) simp_all
qed

lemma int2num_min: "int2num (- 2147483648) = None"
  by (simp add: int2num_def wrap_int_def)

lemma num2long_loop_ok:
  assumes "length ds = i" "0 \<le> v" "v * 10 ^ i + int (dval ds) \<le> LONG_MAX"
  shows "num2long_loop i ds v = (0, v * 10 ^ i + int (dval ds))"
  using assms
proof (induction ds arbitrary: i v)
  case (Cons d ds)
  obtain k where k: "i = Suc k" "length ds = k" using Cons.prems(1) by (cases i) auto
  have total: "v * 10 ^ i + int (dval (d # ds)) = (v * 10 + int d) * 10 ^ k + int (dval ds)"
    using k by (simp add: dval_Cons algebra_simps)
  have step: "v * 10 + int d \<le> LONG_MAX"
  proof -
    have "(v * 10 + int d) * 1 \<le> (v * 10 + int d) * 10 ^ k" using Cons.prems(2) by (intro mult_left_mono) auto
    then have "v * 10 + int d \<le> (v * 10 + int d) * 10 ^ k" by simp
    also have "\<dots> \<le> (v * 10 + int d) * 10 ^ k + int (dval ds)" by simp
    also have "\<dots> \<le> LONG_MAX" using Cons.prems(3) unfolding total .
    finally show ?thesis .
  qed
  then have "v \<le> LONG_MAX div 10" by (simp add: LONG_MAX_def)
  moreover have "(v * 10 + int d + 2 ^ 63) mod 2 ^ 64 - 2 ^ 63 = v * 10 + int d"
    using step Cons.prems(2) by (simp add: LONG_MAX_def)
  ultimately have "num2long_loop i (d # ds) v = num2long_loop k ds (v * 10 + int d)" using k by simp
  also have "\<dots> = (0, (v * 10 + int d) * 10 ^ k + int (dval ds))"
    using Cons.prems(2,3) k total by (intro Cons.IH) auto
  finally show ?case using total by simp
qed simp

text \<open>The integer part is \<open>num2long\<close>'s result when it fits.\<close>

lemma num2long_ok:
  assumes "bc_wf n" "int (dval (take (n_len n) (n_value n))) \<le> LONG_MAX"
  shows "num2long n = (if n_sign n = PLUS then 1 else - 1) * int (dval (take (n_len n) (n_value n)))"
proof -
  have pre: "num2long_loop i (take i ds) v = num2long_loop i ds v" if "i \<le> length ds" for i ds v
    using that by (induction i ds v rule: num2long_loop.induct) auto
  have "num2long_loop (n_len n) (n_value n) 0 = (0, int (dval (take (n_len n) (n_value n))))"
    using num2long_loop_ok [of "take (n_len n) (n_value n)" "n_len n" 0] assms pre [of "n_len n" "n_value n" 0]
    by (simp add: bc_wf_def)
  then show ?thesis by (simp add: num2long_def)
qed

text \<open>
  The result is 0 for a greater number, unless the wrap-around of a step hides the overflow: this takes more digits
  after the digits of \<open>LONG_MAX + 1\<close> or \<open>LONG_MAX + 2\<close>.
\<close>

definition hidden_overflow :: "nat \<Rightarrow> bool" where
  "hidden_overflow m \<longleftrightarrow> (\<exists>k > 0. m div 10 ^ k \<in> {2 ^ 63, 2 ^ 63 + 1})"

lemma dval_div_take: "digits_ok ds \<Longrightarrow> k \<le> length ds \<Longrightarrow> dval ds div 10 ^ k = dval (take (length ds - k) ds)"
proof -
  assume ds: "digits_ok ds" "k \<le> length ds"
  have "digits_ok (drop (length ds - k) ds)" using ds(1) by (auto simp: digits_ok_def dest: in_set_dropD)
  then have "dval (drop (length ds - k) ds) < 10 ^ k" using dval_less [of "drop (length ds - k) ds"] ds(2) by simp
  then show ?thesis using dval_split [of ds "length ds - k"] ds(2) by simp
qed

lemma num2long_loop_overflow:
  assumes "length ds = i" "digits_ok ds" "0 \<le> v" "v \<le> LONG_MAX" "LONG_MAX < v * 10 ^ i + int (dval ds)"
    "\<And>k. 0 < k \<Longrightarrow> k < i \<Longrightarrow> v * 10 ^ (i - k) + int (dval (take (i - k) ds)) \<notin> {2 ^ 63, 2 ^ 63 + 1}"
  shows "case num2long_loop i ds v of (j, w) \<Rightarrow> j > 0 \<or> w < 0"
  using assms
proof (induction ds arbitrary: i v)
  case Nil
  then show ?case by simp
next
  case (Cons d ds)
  obtain k where k: "i = Suc k" "length ds = k" using Cons.prems(1) by (cases i) auto
  have d: "d < 10" "digits_ok ds" using Cons.prems(2) by (auto simp: digits_ok_def)
  let ?w = "v * 10 + int d"
  have total: "v * 10 ^ i + int (dval (d # ds)) = ?w * 10 ^ k + int (dval ds)"
    using k by (simp add: dval_Cons algebra_simps)
  show ?case
  proof (cases "v \<le> LONG_MAX div 10")
    case False
    then show ?thesis using k by simp
  next
    case True
    then have step: "num2long_loop i (d # ds) v = num2long_loop k ds ((?w + 2 ^ 63) mod 2 ^ 64 - 2 ^ 63)" using k by simp
    show ?thesis
    proof (cases "?w \<le> LONG_MAX")
      case small: True
      then have w: "(?w + 2 ^ 63) mod 2 ^ 64 - 2 ^ 63 = ?w" using Cons.prems(3) by (simp add: LONG_MAX_def)
      have prefix: "?w * 10 ^ (k - j) + int (dval (take (k - j) ds)) \<notin> {2 ^ 63, 2 ^ 63 + 1}" if "0 < j" "j < k" for j
      proof -
        have "i - j = Suc (k - j)" using k(1) that by simp
        then have "v * 10 ^ (i - j) + int (dval (take (i - j) (d # ds))) = ?w * 10 ^ (k - j) + int (dval (take (k - j) ds))"
          using k(2) that by (simp add: dval_Cons algebra_simps)
        then show ?thesis using Cons.prems(6) [of j] that k(1) by simp
      qed
      show ?thesis unfolding step w
        by (rule Cons.IH [OF k(2) d(2) _ small _ prefix]) (use Cons.prems(3,5) total in simp_all)
    next
      case big: False
      then have w: "?w \<in> {2 ^ 63, 2 ^ 63 + 1}" using True d(1) by (auto simp: LONG_MAX_def)
      have "k = 0"
      proof (rule ccontr)
        assume "k \<noteq> 0"
        then have "v * 10 ^ (i - k) + int (dval (take (i - k) (d # ds))) \<notin> {2 ^ 63, 2 ^ 63 + 1}"
          by (intro Cons.prems(6)) (simp_all add: k(1))
        then show False using w k(1) by (simp add: dval_def)
      qed
      then show ?thesis unfolding step using w by auto
    qed
  qed
qed

lemma num2long_overflow:
  assumes "bc_wf n" "LONG_MAX < int (dval (take (n_len n) (n_value n)))" "\<not> hidden_overflow (dval (take (n_len n) (n_value n)))"
  shows "num2long n = 0"
proof -
  let ?ds = "take (n_len n) (n_value n)"
  have len: "length ?ds = n_len n" and ok: "digits_ok ?ds" using assms(1) by (auto simp: bc_wf_def digits_ok_def dest: in_set_takeD)
  have pre: "num2long_loop i (take i ds) v = num2long_loop i ds v" if "i \<le> length ds" for i ds v
    using that by (induction i ds v rule: num2long_loop.induct) auto
  have prefix: "int (dval (take (n_len n - k) ?ds)) \<notin> {2 ^ 63, 2 ^ 63 + 1}" if "0 < k" "k < n_len n" for k
  proof -
    have "dval ?ds div 10 ^ k = dval (take (n_len n - k) ?ds)"
      using dval_div_take [OF ok, of k] that unfolding len by simp
    then have "dval (take (n_len n - k) ?ds) \<notin> {2 ^ 63, 2 ^ 63 + 1}" using assms(3) that unfolding hidden_overflow_def by metis
    then show ?thesis by auto
  qed
  have "case num2long_loop (n_len n) ?ds 0 of (j, w) \<Rightarrow> j > 0 \<or> w < 0"
    by (rule num2long_loop_overflow [OF len ok]) (use assms(2) prefix in \<open>simp_all add: LONG_MAX_def\<close>)
  then show ?thesis using pre [of "n_len n" "n_value n" 0] assms(1) by (auto simp: num2long_def bc_wf_def split: prod.splits)
qed

end
