(* ===== verification/Bc_Mul.thy ===== *)
theory Bc_Mul
  imports Bc_Num
begin

text \<open>
  Multiplication of arbitrary precision numbers, from \<^verbatim>\<open>functions/number.c\<close>: \<open>bc_multiply\<close> adds up the
  digit products column by column, from the last column on, and does not store the columns that the
  result's scale has no place for. The column sums are of type \<open>long\<close>; they stay below 100 times the
  number of digits, so they are natural numbers here.
\<close>

subsection \<open>The model\<close>

text \<open>
  One column: \<open>n1ptr\<close> goes down from digit \<open>i\<close> (counted from the end) while it is in the first number
  and \<open>n2ptr\<close> goes up from digit \<open>j\<close> to the end of the second.
\<close>

fun column :: "nat list \<Rightarrow> nat list \<Rightarrow> nat \<Rightarrow> nat \<Rightarrow> nat" where
  "column a b i 0 = (if i < length a then a ! i * b ! 0 else 0)"
| "column a b i (Suc j) = (if i < length a then a ! i * b ! Suc j + column a b (i + 1) j else 0)"

definition column_sum :: "nat list \<Rightarrow> nat list \<Rightarrow> nat \<Rightarrow> nat" where
  "column_sum a b indx = column a b (indx + 1 - length b) (min indx (length b - 1))"

text \<open>The columns that are tossed, and the ones that are stored; \<open>k\<close> counts what is left.\<close>

fun toss_loop :: "nat list \<Rightarrow> nat list \<Rightarrow> nat \<Rightarrow> nat \<Rightarrow> nat \<Rightarrow> nat" where
  "toss_loop a b 0 indx sm = sm"
| "toss_loop a b (Suc k) indx sm = toss_loop a b k (indx + 1) ((sm + column_sum a b indx) div 10)"

fun store_loop :: "nat list \<Rightarrow> nat list \<Rightarrow> nat \<Rightarrow> nat \<Rightarrow> nat \<Rightarrow> nat list" where
  "store_loop a b 0 indx sm = [sm]"
| "store_loop a b (Suc k) indx sm =
     (let s = sm + column_sum a b indx in s mod 10 # store_loop a b k (indx + 1) (s div 10))"

definition bc_multiply :: "bc_num \<Rightarrow> bc_num \<Rightarrow> nat \<Rightarrow> bc_num" where
  "bc_multiply n1 n2 scale =
     (let len1 = n_len n1 + n_scale n1; len2 = n_len n2 + n_scale n2; total_digits = len1 + len2;
          full_scale = n_scale n1 + n_scale n2;
          prod_scale = min full_scale (max scale (max (n_scale n1) (n_scale n2)));
          toss = full_scale - prod_scale;
          a = rev (n_value n1); b = rev (n_value n2);
          sm = toss_loop a b toss 0 0;
          digits = store_loop a b (total_digits - 1 - toss) toss sm;
          prod = rm_leading_zeros
            \<lparr>n_sign = (if n_sign n1 = n_sign n2 then PLUS else MINUS), n_len = total_digits - full_scale,
             n_scale = prod_scale, n_value = rev digits\<rparr>
      in if is_zero prod then prod\<lparr>n_sign := PLUS\<rparr> else prod)"

subsection \<open>The columns of a product\<close>

text \<open>The sum over all pairs of positions that add up to a column.\<close>

definition conv :: "nat list \<Rightarrow> nat list \<Rightarrow> nat \<Rightarrow> nat" where
  "conv a b n = (\<Sum>i \<le> n. (if i < length a then a ! i else 0) * (if n - i < length b then b ! (n - i) else 0))"

lemma column_eq:
  "j < length b \<Longrightarrow> column a b i j = (\<Sum>k \<le> j. (if i + k < length a then a ! (i + k) else 0) * b ! (j - k))"
proof (induction j arbitrary: i)
  case (Suc j)
  have "(\<Sum>k \<le> Suc j. (if i + k < length a then a ! (i + k) else 0) * b ! (Suc j - k)) =
      (if i < length a then a ! i else 0) * b ! Suc j +
      (\<Sum>k \<le> j. (if Suc i + k < length a then a ! (Suc i + k) else 0) * b ! (j - k))"
    by (subst sum.atMost_Suc_shift) (simp cong: if_cong)
  also have "\<dots> = column a b i (Suc j)"
    using Suc.IH [of "Suc i"] Suc.prems by (cases "i < length a") (simp_all del: add_Suc)
  finally show ?case by simp
qed simp

lemma column_sum_eq:
  assumes "b \<noteq> []"
  shows "column_sum a b n = conv a b n"
proof (cases "n < length b")
  case True
  then have "min n (length b - 1) = n" "n + 1 - length b = 0" by auto
  then have "column_sum a b n = column a b 0 n" unfolding column_sum_def by (simp only:)
  also have "\<dots> = conv a b n" using True unfolding column_eq [OF True] conv_def by (intro sum.cong) auto
  finally show ?thesis .
next
  case False
  let ?i = "n + 1 - length b" and ?j = "length b - 1"
  have j: "?j < length b" "n = ?i + ?j" using assms False by (cases b; auto)+
  have "min n ?j = ?j" using False by simp
  then have "column_sum a b n = column a b ?i ?j" unfolding column_sum_def by (simp only:)
  also have "\<dots> = (\<Sum>k \<le> ?j. (if ?i + k < length a then a ! (?i + k) else 0) * b ! (?j - k))"
    by (rule column_eq [OF j(1)])
  also have "\<dots> = (\<Sum>l \<in> {?i..n}. (if l < length a then a ! l else 0) * (if n - l < length b then b ! (n - l) else 0))"
    by (rule sum.reindex_bij_witness [of _ "\<lambda>l. l - ?i" "\<lambda>k. ?i + k"]) (use j in auto)
  also have "\<dots> = conv a b n" unfolding conv_def
    by (rule sum.mono_neutral_left) (use j in auto)
  finally show ?thesis .
qed

text \<open>The weighted column sums add up to the product.\<close>

lemma lval_sum: "lval xs = (\<Sum>i < length xs. xs ! i * 10 ^ i)"
proof (induction xs)
  case (Cons x xs)
  have "(\<Sum>i < length (x # xs). (x # xs) ! i * 10 ^ i) = x + (\<Sum>i < length xs. xs ! i * 10 ^ Suc i)"
    by (simp add: sum.lessThan_Suc_shift del: sum.lessThan_Suc)
  with Cons show ?case by (simp add: sum_distrib_left algebra_simps)
qed simp

lemma conv_Cons: "conv (x # a) b (Suc n) = x * (if Suc n < length b then b ! Suc n else 0) + conv a b n"
  unfolding conv_def by (subst sum.atMost_Suc_shift) (simp cong: if_cong)

lemma conv_0: "conv (x # a) b 0 = x * (if 0 < length b then b ! 0 else 0)"
  by (simp add: conv_def)

lemma conv_Nil: "conv [] b n = 0"
  by (simp add: conv_def)

lemma sum_upto_length: "length b \<le> N \<Longrightarrow> (\<Sum>n < N. (if n < length b then b ! n else 0) * 10 ^ n) = lval b"
  unfolding lval_sum by (rule sum.mono_neutral_cong_right) auto

lemma conv_sum: "length a + length b \<le> N + 1 \<Longrightarrow> b \<noteq> [] \<Longrightarrow> (\<Sum>n < N. conv a b n * 10 ^ n) = lval a * lval b"
proof (induction a arbitrary: N)
  case Nil
  then show ?case by (simp add: conv_Nil)
next
  case (Cons x a)
  then obtain M where M: "N = Suc M" by (cases N) (auto simp: Suc_le_eq)
  let ?B = "\<lambda>n. if n < length b then b ! n else 0"
  have B: "(\<Sum>n < N. ?B n * 10 ^ n) = ?B 0 + (\<Sum>n < M. ?B (Suc n) * 10 ^ Suc n)"
    unfolding M by (subst sum.lessThan_Suc_shift) simp
  have "(\<Sum>n < N. conv (x # a) b n * 10 ^ n) =
      conv (x # a) b 0 + (\<Sum>n < M. conv (x # a) b (Suc n) * 10 ^ Suc n)"
    unfolding M by (subst sum.lessThan_Suc_shift) simp
  also have "(\<Sum>n < M. conv (x # a) b (Suc n) * 10 ^ Suc n) =
      x * (\<Sum>n < M. ?B (Suc n) * 10 ^ Suc n) + 10 * (\<Sum>n < M. conv a b n * 10 ^ n)"
    unfolding conv_Cons sum_distrib_left sum.distrib [symmetric] by (intro sum.cong) (simp_all add: algebra_simps)
  also have "(\<Sum>n < M. conv a b n * 10 ^ n) = lval a * lval b"
    using Cons.prems M by (intro Cons.IH) auto
  also have "conv (x # a) b 0 + (x * (\<Sum>n < M. ?B (Suc n) * 10 ^ Suc n) + 10 * (lval a * lval b)) =
      x * (\<Sum>n < N. ?B n * 10 ^ n) + 10 * (lval a * lval b)"
    unfolding B conv_0 by (simp only: distrib_left add.assoc)
  also have "\<dots> = lval (x # a) * lval b"
    using Cons.prems by (subst sum_upto_length) (simp_all add: algebra_simps)
  finally show ?case .
qed

subsection \<open>The digit loops\<close>

lemma toss_loop_ok:
  assumes "b \<noteq> []"
  shows "toss_loop a b k n s = (s + (\<Sum>i < k. conv a b (n + i) * 10 ^ i)) div 10 ^ k"
proof (induction k arbitrary: n s)
  case (Suc k)
  have "(\<Sum>i < Suc k. conv a b (n + i) * 10 ^ i) = conv a b n + 10 * (\<Sum>i < k. conv a b (Suc n + i) * 10 ^ i)"
    by (subst sum.lessThan_Suc_shift) (simp add: sum_distrib_left algebra_simps)
  then have "(s + (\<Sum>i < Suc k. conv a b (n + i) * 10 ^ i)) div 10 ^ Suc k =
      ((s + conv a b n) + 10 * (\<Sum>i < k. conv a b (Suc n + i) * 10 ^ i)) div 10 div 10 ^ k"
    by (simp add: div_mult2_eq add.assoc)
  also have "((s + conv a b n) + 10 * (\<Sum>i < k. conv a b (Suc n + i) * 10 ^ i)) div 10 =
      (s + conv a b n) div 10 + (\<Sum>i < k. conv a b (Suc n + i) * 10 ^ i)" by simp
  finally show ?case using Suc.IH [of "Suc n" "(s + conv a b n) div 10"]
    by (simp add: column_sum_eq [OF assms])
qed simp

lemma store_loop_ok:
  assumes "b \<noteq> []"
  shows "lval (store_loop a b k n s) = s + (\<Sum>i < k. conv a b (n + i) * 10 ^ i) \<and>
    length (store_loop a b k n s) = k + 1"
proof (induction k arbitrary: n s)
  case (Suc k)
  have "(\<Sum>i < Suc k. conv a b (n + i) * 10 ^ i) = conv a b n + 10 * (\<Sum>i < k. conv a b (Suc n + i) * 10 ^ i)"
    by (subst sum.lessThan_Suc_shift) (simp add: sum_distrib_left algebra_simps)
  moreover have "(s + conv a b n) mod 10 + 10 * ((s + conv a b n) div 10) = s + conv a b n" by simp
  ultimately show ?case using Suc.IH [of "Suc n" "(s + conv a b n) div 10"]
    by (simp add: column_sum_eq [OF assms] Let_def algebra_simps)
qed simp

lemma store_loop_digits:
  assumes "b \<noteq> []" "s + (\<Sum>i < k. conv a b (n + i) * 10 ^ i) < 10 ^ (k + 1)"
  shows "digits_ok (store_loop a b k n s)"
  using assms(2)
proof (induction k arbitrary: n s)
  case (Suc k)
  let ?s = "s + conv a b n"
  have e: "(\<Sum>i < Suc k. conv a b (n + i) * 10 ^ i) = conv a b n + 10 * (\<Sum>i < k. conv a b (Suc n + i) * 10 ^ i)"
    by (subst sum.lessThan_Suc_shift) (simp add: sum_distrib_left algebra_simps)
  have "10 * (?s div 10 + (\<Sum>i < k. conv a b (Suc n + i) * 10 ^ i)) < 10 * 10 ^ (k + 1)"
    using Suc.prems unfolding e by simp
  then have "?s div 10 + (\<Sum>i < k. conv a b (Suc n + i) * 10 ^ i) < 10 ^ (k + 1)" by (metis mult_less_cancel1)
  then show ?case using Suc.IH [of "?s div 10" "Suc n"] by (simp add: column_sum_eq [OF assms(1)] Let_def)
qed simp

lemma sum_lessThan_add: "(\<Sum>n < m + k. f n) = (\<Sum>n < m. f n) + (\<Sum>i < k. f (m + i :: nat))"
  for f :: "nat \<Rightarrow> nat"
  by (induction k) simp_all

text \<open>The stored digits are the product without its last \<open>toss\<close> digits.\<close>

lemma product_digits:
  assumes "digits_ok a" "digits_ok b" "a \<noteq> []" "b \<noteq> []" "toss < length a + length b"
  defines "ds \<equiv> store_loop a b (length a + length b - 1 - toss) toss (toss_loop a b toss 0 0)"
  shows "lval ds = lval a * lval b div 10 ^ toss" "digits_ok ds" "length ds = length a + length b - toss"
proof -
  let ?k = "length a + length b - 1 - toss"
  let ?lo = "\<Sum>i < toss. conv a b i * 10 ^ i" and ?hi = "\<Sum>i < ?k. conv a b (toss + i) * 10 ^ i"
  have split: "lval a * lval b = ?lo + 10 ^ toss * ?hi"
  proof -
    have "lval a * lval b = (\<Sum>n < toss + ?k. conv a b n * 10 ^ n)"
      using assms(4,5) by (intro conv_sum [symmetric]) auto
    also have "\<dots> = ?lo + (\<Sum>i < ?k. conv a b (toss + i) * 10 ^ (toss + i))"
      by (rule sum_lessThan_add)
    also have "\<dots> = ?lo + 10 ^ toss * ?hi" by (simp add: sum_distrib_left power_add algebra_simps)
    finally show ?thesis .
  qed
  have toss: "toss_loop a b toss 0 0 = ?lo div 10 ^ toss" using toss_loop_ok [OF assms(4), of a toss 0 0] by simp
  have quot: "lval a * lval b div 10 ^ toss = ?lo div 10 ^ toss + ?hi" unfolding split by simp
  note st = store_loop_ok [OF assms(4), of a ?k toss "?lo div 10 ^ toss"]
  show "lval ds = lval a * lval b div 10 ^ toss" unfolding ds_def toss quot using st by simp
  show "length ds = length a + length b - toss" unfolding ds_def toss using st assms(3,5) by (cases a) auto
  have "lval a * lval b < 10 ^ length a * 10 ^ length b"
    using lval_less [OF assms(1)] lval_less [OF assms(2)] by (intro mult_strict_mono) auto
  also have "\<dots> = 10 ^ toss * 10 ^ (?k + 1)"
    using assms(3,5) by (cases a) (simp_all flip: power_add)
  finally have "lval a * lval b div 10 ^ toss < 10 ^ (?k + 1)" by (simp add: less_mult_imp_div_less mult.commute)
  then show "digits_ok ds" unfolding ds_def toss quot by (intro store_loop_digits [OF assms(4)])
qed

subsection \<open>The product\<close>

lemma bc_multiply_ok:
  fixes scale :: nat
  assumes "bc_wf n1" "bc_wf n2"
  defines "ps \<equiv> min (n_scale n1 + n_scale n2) (max scale (max (n_scale n1) (n_scale n2)))"
  shows "bc_wf (bc_multiply n1 n2 scale)" "n_scale (bc_multiply n1 n2 scale) = ps"
    "bc_abs (bc_multiply n1 n2 scale) = of_int \<lfloor>bc_abs n1 * bc_abs n2 * 10 ^ ps\<rfloor> / 10 ^ ps"
    "n_sign (bc_multiply n1 n2 scale) =
      (if bc_abs (bc_multiply n1 n2 scale) = 0 \<or> n_sign n1 = n_sign n2 then PLUS else MINUS)"
proof -
  let ?a = "rev (n_value n1)" and ?b = "rev (n_value n2)"
  let ?fs = "n_scale n1 + n_scale n2"
  let ?toss = "?fs - ps"
  have la: "length ?a = n_len n1 + n_scale n1" "length ?b = n_len n2 + n_scale n2" "0 < n_len n1" "0 < n_len n2"
    and ok: "digits_ok ?a" "digits_ok ?b" using assms by (auto simp: bc_wf_def)
  have ne: "?a \<noteq> []" "?b \<noteq> []" using la by (metis add_gr_0 length_greater_0_conv)+
  have ts: "?toss < length ?a + length ?b" using la by linarith
  define ds where "ds = store_loop ?a ?b (length ?a + length ?b - 1 - ?toss) ?toss (toss_loop ?a ?b ?toss 0 0)"
  note d = product_digits [OF ok ne ts, folded ds_def]
  let ?s = "if n_sign n1 = n_sign n2 then PLUS else MINUS"
  let ?r = "\<lparr>n_sign = ?s, n_len = n_len n1 + n_scale n1 + (n_len n2 + n_scale n2) - ?fs, n_scale = ps, n_value = rev ds\<rparr>"
  have psf: "ps \<le> ?fs" by (simp add: ps_def)
  have r: "0 < n_len ?r" "length (n_value ?r) = n_len ?r + n_scale ?r" "digits_ok (n_value ?r)"
    using la d psf by auto
  note rm = rm_leading_zeros_ok [OF r]
  have eq: "bc_multiply n1 n2 scale = (if is_zero (rm_leading_zeros ?r) then (rm_leading_zeros ?r)\<lparr>n_sign := PLUS\<rparr> else rm_leading_zeros ?r)"
    unfolding bc_multiply_def Let_def ps_def [symmetric] ds_def la(1,2) ..
  show "bc_wf (bc_multiply n1 n2 scale)" "n_scale (bc_multiply n1 n2 scale) = ps"
    unfolding eq using rm by simp_all
  have abs: "bc_abs (bc_multiply n1 n2 scale) = of_nat (lval ds) / 10 ^ ps"
  proof -
    have "bc_abs (bc_multiply n1 n2 scale) = bc_abs ?r" unfolding eq using rm(2) by simp
    then show ?thesis by (simp add: bc_abs_def)
  qed
  have "\<lfloor>bc_abs n1 * bc_abs n2 * 10 ^ ps\<rfloor> = int (lval ds)"
  proof -
    have p: "(10::rat) ^ ?fs = 10 ^ ps * 10 ^ ?toss" using psf by (simp flip: power_add)
    have "bc_abs n1 * bc_abs n2 = of_nat (lval ?a * lval ?b) / 10 ^ ?fs"
      by (simp add: bc_abs_def dval_def power_add)
    then have "bc_abs n1 * bc_abs n2 * 10 ^ ps = of_nat (lval ?a * lval ?b) / of_nat (10 ^ ?toss)"
      unfolding p by simp
    then have "\<lfloor>bc_abs n1 * bc_abs n2 * 10 ^ ps\<rfloor> = int (lval ?a * lval ?b div 10 ^ ?toss)"
      by (simp only: floor_divide_of_nat_eq)
    then show ?thesis using d(1) by simp
  qed
  then show "bc_abs (bc_multiply n1 n2 scale) = of_int \<lfloor>bc_abs n1 * bc_abs n2 * 10 ^ ps\<rfloor> / 10 ^ ps"
    unfolding abs by simp
  show "n_sign (bc_multiply n1 n2 scale) =
      (if bc_abs (bc_multiply n1 n2 scale) = 0 \<or> n_sign n1 = n_sign n2 then PLUS else MINUS)"
  proof -
    define pr where "pr = rm_leading_zeros ?r"
    have "n_sign pr = ?s" "is_zero pr = (bc_abs pr = 0)"
      using rm(3) is_zero_abs [OF rm(1)] by (simp_all add: pr_def)
    then show ?thesis unfolding eq pr_def [symmetric] by simp
  qed
qed

lemma bc_multiply_exact:
  assumes "bc_wf n1" "bc_wf n2" "n_scale n1 + n_scale n2 \<le> max scale (max (n_scale n1) (n_scale n2))"
  shows "bc_val (bc_multiply n1 n2 scale) = bc_val n1 * bc_val n2"
    "n_scale (bc_multiply n1 n2 scale) = n_scale n1 + n_scale n2"
proof -
  let ?fs = "n_scale n1 + n_scale n2"
  have fs: "min ?fs (max scale (max (n_scale n1) (n_scale n2))) = ?fs" using assms(3) by simp
  note m = bc_multiply_ok [OF assms(1,2), of scale, unfolded fs]
  show "n_scale (bc_multiply n1 n2 scale) = ?fs" by (rule m(2))
  have "bc_abs n1 * bc_abs n2 * 10 ^ ?fs = of_int (int (dval (n_value n1) * dval (n_value n2)))"
    by (simp add: bc_abs_def power_add)
  then have "bc_abs (bc_multiply n1 n2 scale) = bc_abs n1 * bc_abs n2"
    unfolding m(3) by (metis floor_of_int nonzero_mult_div_cancel_right power_not_zero zero_neq_numeral)
  then show "bc_val (bc_multiply n1 n2 scale) = bc_val n1 * bc_val n2"
    using m(4) unfolding bc_val_def
    by (cases "n_sign n1"; cases "n_sign n2"; auto)
qed

end
