(* ===== verification/Bc_Div.thy ===== *)
theory Bc_Div
  imports Bc_Mul
begin

text \<open>
  Division of arbitrary precision numbers, from \<^verbatim>\<open>functions/number.c\<close>: \<open>bc_divide\<close> is Knuth's
  algorithm D on the digit arrays. Its quotient digits are shown to be those of long division, so the
  result is the exact quotient cut off after \<open>scale\<close> digits. \<open>bc_divmod\<close> and \<open>bc_modulo\<close> rest on it.
\<close>

subsection \<open>The model\<close>

text \<open>
  \<open>_one_mult\<close>: the product of a digit array by a digit, and the carry that is stored in the place
  before the result (0 when nothing is stored).
\<close>

fun one_mult_loop :: "nat list \<Rightarrow> nat \<Rightarrow> nat \<Rightarrow> nat list \<times> nat" where
  "one_mult_loop [] digit carry = ([], carry)"
| "one_mult_loop (x # xs) digit carry =
     (let v = x * digit + carry
      in case one_mult_loop xs digit (v div 10) of (ds, c) \<Rightarrow> (v mod 10 # ds, c))"

definition one_mult :: "nat list \<Rightarrow> nat \<Rightarrow> nat list \<times> nat" where
  "one_mult num digit =
     (if digit = 0 then (replicate (length num) 0, 0)
      else if digit = 1 then (num, 0)
      else case one_mult_loop (rev num) digit 0 of (ds, c) \<Rightarrow> (rev ds, c))"

text \<open>The guess for a quotient digit, in unsigned 32-bit arithmetic, and the test that corrects it.\<close>

definition u32 :: "nat \<Rightarrow> nat" where
  "u32 n = n mod 4294967296"

definition first_guess :: "nat \<Rightarrow> nat \<Rightarrow> nat \<Rightarrow> nat" where
  "first_guess v0 u0 u1 = (if v0 = u0 then 9 else (u0 * 10 + u1) div v0)"

definition guess_too_big :: "nat \<Rightarrow> nat \<Rightarrow> nat \<Rightarrow> nat \<Rightarrow> nat \<Rightarrow> nat \<Rightarrow> bool" where
  "guess_too_big v0 v1 u0 u1 u2 qguess \<longleftrightarrow>
     u32 (v1 * qguess) > u32 (u32 (u0 * 10 + u1 + 4294967296 - v0 * qguess) * 10 + u2)"

definition quot_guess :: "nat \<Rightarrow> nat \<Rightarrow> nat \<Rightarrow> nat \<Rightarrow> nat \<Rightarrow> nat" where
  "quot_guess v0 v1 u0 u1 u2 =
     (let g = first_guess v0 u0 u1
      in if guess_too_big v0 v1 u0 u1 u2 g then
           if guess_too_big v0 v1 u0 u1 u2 (g - 1) then g - 2 else g - 1
         else g)"

text \<open>Multiply and subtract, and the addition that repairs a negative result; least digit first.\<close>

fun mul_sub_loop :: "nat list \<Rightarrow> nat list \<Rightarrow> nat \<Rightarrow> nat list \<times> nat" where
  "mul_sub_loop (x # xs) (y # ys) borrow =
     (case sub_digit (int x - int y - int borrow) of (d, b) \<Rightarrow>
        (case mul_sub_loop xs ys b of (ds, b') \<Rightarrow> (d # ds, b')))"
| "mul_sub_loop xs ys borrow = (xs, borrow)"

fun add_back_loop :: "nat list \<Rightarrow> nat list \<Rightarrow> nat \<Rightarrow> nat list" where
  "add_back_loop (x # xs) (y # ys) carry =
     (let v = x + y + carry in if v > 9 then (v - 10) # add_back_loop xs ys 1 else v # add_back_loop xs ys 0)"
| "add_back_loop (x # xs) [] carry = (if carry = 1 then (x + 1) mod 10 # xs else x # xs)"
| "add_back_loop [] ys carry = []"

text \<open>One round of the loop: \<open>n2\<close> are the divisor's digits; a 0 follows them in the array.\<close>

definition divide_round :: "nat list \<Rightarrow> nat list \<Rightarrow> nat \<Rightarrow> nat \<times> nat list" where
  "divide_round n2 num1 qdig =
     (let len2 = length n2;
          qguess = quot_guess (hd n2) ((n2 @ [0]) ! 1) (num1 ! qdig) (num1 ! (qdig + 1)) (num1 ! (qdig + 2));
          window = rev (take (len2 + 1) (drop qdig num1));
          (window, borrow) =
            (if qguess \<noteq> 0
             then case one_mult n2 qguess of (ds, c) \<Rightarrow> mul_sub_loop window (rev (c # ds)) 0
             else (window, 0));
          (qguess, window) =
            (if borrow = 1 then (qguess - 1, add_back_loop window (rev n2) 0) else (qguess, window))
      in (qguess, take qdig num1 @ rev window @ drop (qdig + len2 + 1) num1))"

fun divide_loop :: "nat list \<Rightarrow> nat list \<Rightarrow> nat \<Rightarrow> nat \<Rightarrow> nat list" where
  "divide_loop n2 num1 qdig 0 = []"
| "divide_loop n2 num1 qdig (Suc k) =
     (case divide_round n2 num1 qdig of (q, num1') \<Rightarrow> q # divide_loop n2 num1' (qdig + 1) k)"

text \<open>The scale of the divisor without the zeros at its end (its digits given last first).\<close>

fun strip_scale :: "nat list \<Rightarrow> nat \<Rightarrow> nat" where
  "strip_scale (d # ds) (Suc s) = (if d = 0 then strip_scale ds s else Suc s)"
| "strip_scale [] (Suc s) = Suc s"
| "strip_scale ds 0 = 0"

text \<open>
  \<open>None\<close> is the return value -1. For a divisor of 1 the code stores a truncated copy first, but it
  does not return then: the copy is released again when the quotient is stored.
\<close>

definition bc_divide :: "bc_num \<Rightarrow> bc_num \<Rightarrow> nat \<Rightarrow> bc_num option" where
  "bc_divide n1 n2 scale =
     (if is_zero n2 then None
      else
        let scale2 = strip_scale (rev (n_value n2)) (n_scale n2);
            len1 = n_len n1 + scale2;
            scale1 = int (n_scale n1) - int scale2;
            extra = (if scale1 < int scale then nat (int scale - scale1) else 0);
            num1 = 0 # n_value n1 @ replicate (extra + 1) 0;
            n2ptr = dropWhile (\<lambda>d. d = 0) (take (n_len n2 + scale2) (n_value n2));
            len2 = length n2ptr;
            zero = (len2 > len1 + scale);
            qdigits = (if len2 > len1 then scale + 1 else len1 - len2 + scale + 1);
            norm = 10 div (hd n2ptr + 1);
            sz = n_len n1 + n_scale n1 + extra + 1;
            num1' = (if norm \<noteq> 1 then fst (one_mult (take sz num1) norm) @ drop sz num1 else num1);
            n2ptr' = (if norm \<noteq> 1 then fst (one_mult n2ptr norm) else n2ptr);
            digits =
              (if zero then replicate qdigits 0
               else replicate (len2 - len1) 0 @ divide_loop n2ptr' num1' 0 (len1 + scale - len2 + 1));
            qval = \<lparr>n_sign = (if n_sign n1 = n_sign n2 then PLUS else MINUS), n_len = qdigits - scale,
                    n_scale = scale, n_value = digits\<rparr>;
            qval = (if is_zero qval then qval\<lparr>n_sign := PLUS\<rparr> else qval)
        in Some (rm_leading_zeros qval))"

text \<open>\<open>bc_divmod\<close>: the quotient and the remainder.\<close>

definition bc_divmod :: "bc_num \<Rightarrow> bc_num \<Rightarrow> nat \<Rightarrow> (bc_num \<times> bc_num) option" where
  "bc_divmod num1 num2 scale =
     (if is_zero num2 then None
      else
        let rscale = max (n_scale num1) (n_scale num2 + scale)
        in do {
          quotient \<leftarrow> bc_divide num1 num2 scale;
          let temp = bc_multiply quotient num2 rscale;
          Some (quotient, bc_sub num1 temp rscale)
        })"

definition bc_modulo :: "bc_num \<Rightarrow> bc_num \<Rightarrow> nat \<Rightarrow> bc_num option" where
  "bc_modulo num1 num2 scale = map_option snd (bc_divmod num1 num2 scale)"

subsection \<open>The one digit product\<close>

lemma one_mult_loop_ok:
  assumes "digits_ok xs" "digit < 10" "carry < 10"
  shows "case one_mult_loop xs digit carry of (ds, c) \<Rightarrow>
    lval ds + c * 10 ^ length xs = lval xs * digit + carry \<and> digits_ok ds \<and> length ds = length xs \<and> c < 10"
  using assms(1,3)
proof (induction xs arbitrary: carry)
  case (Cons x xs)
  let ?v = "x * digit + carry"
  obtain ds c where r: "one_mult_loop xs digit (?v div 10) = (ds, c)" by fastforce
  have "x * digit \<le> 9 * 9" using Cons.prems assms(2) by (intro mult_mono) auto
  then have "?v < 100" using Cons.prems by simp
  then have "?v div 10 < 10" by simp
  with Cons.IH [of "?v div 10"] Cons.prems r have
    ih: "lval ds + c * 10 ^ length xs = lval xs * digit + ?v div 10" "digits_ok ds" "length ds = length xs" "c < 10" by auto
  have "lval (?v mod 10 # ds) + c * 10 ^ length (x # xs) = ?v mod 10 + 10 * (lval ds + c * 10 ^ length xs)" by simp
  also have "\<dots> = lval (x # xs) * digit + carry" unfolding ih(1) by (simp add: algebra_simps)
  finally show ?case using r ih by (simp add: Let_def)
qed simp

lemma one_mult_ok:
  assumes "digits_ok num" "digit < 10" "one_mult num digit = (ds, c)"
  shows "dval ds + c * 10 ^ length num = dval num * digit" "digits_ok ds" "length ds = length num" "c < 10"
proof -
  obtain ds' c' where r: "one_mult_loop (rev num) digit 0 = (ds', c')" by fastforce
  have "lval ds' + c' * 10 ^ length num = dval num * digit \<and> digits_ok ds' \<and> length ds' = length num \<and> c' < 10"
    using one_mult_loop_ok [of "rev num" digit 0] assms(1,2) r by (simp add: dval_def)
  then have "dval ds + c * 10 ^ length num = dval num * digit \<and> digits_ok ds \<and> length ds = length num \<and> c < 10"
    using assms(1,3) r by (auto simp: one_mult_def split: if_splits)
  then show "dval ds + c * 10 ^ length num = dval num * digit" "digits_ok ds" "length ds = length num" "c < 10" by auto
qed

subsection \<open>The guess\<close>

text \<open>
  The leading digits of divisor and window, \<open>B\<close> being the weight of the rest: Knuth's bounds on the
  guess, for a divisor whose first digit is at least 5.
\<close>

definition leading :: "nat \<Rightarrow> nat \<Rightarrow> nat \<Rightarrow> nat \<Rightarrow> nat \<Rightarrow> nat \<Rightarrow> nat \<Rightarrow> nat \<Rightarrow> bool" where
  "leading v0 v1 u0 u1 u2 B V R \<longleftrightarrow>
     5 \<le> v0 \<and> v0 < 10 \<and> v1 < 10 \<and> u0 < 10 \<and> u1 < 10 \<and> u2 < 10 \<and>
     (10 * v0 + v1) * B \<le> V \<and> V < (10 * v0 + v1 + 1) * B \<and>
     (100 * u0 + 10 * u1 + u2) * B \<le> R \<and> R < (100 * u0 + 10 * u1 + u2 + 1) * B \<and> R < 10 * V"

lemma leadingD:
  assumes "leading v0 v1 u0 u1 u2 B V R"
  shows "5 \<le> v0" "v0 < 10" "v1 < 10" "u0 < 10" "u1 < 10" "u2 < 10" "0 < B" "0 < V"
    "(10 * v0 + v1) * B \<le> V" "V < (10 * v0 + v1 + 1) * B"
    "(100 * u0 + 10 * u1 + u2) * B \<le> R" "R < (100 * u0 + 10 * u1 + u2 + 1) * B" "R < 10 * V"
  using assms by (auto simp: leading_def intro: Nat.gr0I)

lemma quot_less:
  fixes V R :: nat
  assumes "0 < V"
  shows "R < (R div V + 1) * V"
proof -
  have "R mod V < V" using assms by simp
  moreover have "R div V * V + R mod V = R" by simp
  ultimately show ?thesis unfolding distrib_right mult_1 by linarith
qed

lemma quot_bound: "leading v0 v1 u0 u1 u2 B V R \<Longrightarrow> R div V \<le> 9"
proof -
  assume "leading v0 v1 u0 u1 u2 B V R"
  note l = leadingD [OF this]
  have "R div V < 10" using l(8,13) by (simp add: less_mult_imp_div_less)
  then show ?thesis by simp
qed

lemma cut_le:
  assumes "leading v0 v1 u0 u1 u2 B V R" "m * V \<le> R"
  shows "m * (10 * v0 + v1) \<le> 100 * u0 + 10 * u1 + u2"
proof -
  note l = leadingD [OF assms(1)]
  have "m * (10 * v0 + v1) * B \<le> m * V" unfolding mult.assoc by (intro mult_left_mono l(9)) simp
  also have "\<dots> < (100 * u0 + 10 * u1 + u2 + 1) * B" using assms(2) l(12) by linarith
  finally have "m * (10 * v0 + v1) < 100 * u0 + 10 * u1 + u2 + 1" by (metis mult_less_cancel2)
  then show ?thesis by simp
qed

lemma top_le: "leading v0 v1 u0 u1 u2 B V R \<Longrightarrow> u0 \<le> v0"
proof -
  assume "leading v0 v1 u0 u1 u2 B V R"
  note l = leadingD [OF this]
  have "100 * u0 * B \<le> (100 * u0 + 10 * u1 + u2) * B" by (intro mult_right_mono) auto
  also have "\<dots> < 10 * V" using l(11,13) by linarith
  also have "\<dots> < 10 * ((10 * v0 + v1 + 1) * B)" using l(10) by simp
  also have "\<dots> \<le> 10 * ((10 * v0 + 10) * B)" using l(3) by (intro mult_left_mono mult_right_mono) auto
  finally have "100 * u0 * B < (100 * v0 + 100) * B" by (simp add: algebra_simps)
  then have "100 * u0 < 100 * v0 + 100" by (metis mult_less_cancel2)
  then show ?thesis by simp
qed

lemma first_guess_ok:
  assumes "leading v0 v1 u0 u1 u2 B V R"
  shows "first_guess v0 u0 u1 \<le> 9" "v0 * first_guess v0 u0 u1 \<le> 10 * u0 + u1" "R div V \<le> first_guess v0 u0 u1"
proof -
  note l = leadingD [OF assms]
  have v0: "0 < v0" using l by simp
  show "first_guess v0 u0 u1 \<le> 9"
  proof (cases "v0 = u0")
    case False
    then have "u0 * 10 + u1 < 10 * v0" using top_le [OF assms] l by simp
    then have "(u0 * 10 + u1) div v0 < 10" by (simp add: less_mult_imp_div_less)
    then show ?thesis using False by (simp add: first_guess_def)
  qed (simp add: first_guess_def)
  have "v0 * ((u0 * 10 + u1) div v0) \<le> u0 * 10 + u1" by (rule times_div_less_eq_dividend)
  then have "v0 * ((u0 * 10 + u1) div v0) \<le> 10 * u0 + u1" by linarith
  then show "v0 * first_guess v0 u0 u1 \<le> 10 * u0 + u1" by (simp add: first_guess_def)
  show "R div V \<le> first_guess v0 u0 u1"
  proof (cases "v0 = u0")
    case True
    with quot_bound [OF assms] show ?thesis by (simp add: first_guess_def)
  next
    case False
    have "R div V * V \<le> R" by simp
    have "10 * (R div V * v0) \<le> R div V * (10 * v0 + v1)" by (simp add: distrib_left)
    also have "\<dots> \<le> 100 * u0 + 10 * u1 + u2" by (rule cut_le [OF assms \<open>R div V * V \<le> R\<close>])
    finally have "10 * (R div V * v0) \<le> 100 * u0 + 10 * u1 + u2" .
    moreover define p where "p = R div V * v0"
    ultimately have "p \<le> u0 * 10 + u1" using l(6) by linarith
    then have "R div V * v0 \<le> u0 * 10 + u1" by (simp add: p_def)
    then have "R div V \<le> (u0 * 10 + u1) div v0" using v0 by (simp add: less_eq_div_iff_mult_less_eq)
    with False show ?thesis by (simp add: first_guess_def)
  qed
qed

lemma too_big_iff:
  assumes "v1 < 10" "u0 < 10" "u1 < 10" "u2 < 10" "g \<le> 9" "v0 * g \<le> 10 * u0 + u1"
  shows "guess_too_big v0 v1 u0 u1 u2 g \<longleftrightarrow> 100 * u0 + 10 * u1 + u2 < g * (10 * v0 + v1)"
proof -
  obtain r where r: "u0 * 10 + u1 = v0 * g + r" using assms(6) le_Suc_ex [of "v0 * g" "u0 * 10 + u1"] by auto
  have "v1 * g \<le> 9 * 9" using assms(1,5) by (intro mult_mono) auto
  then have a: "u32 (v1 * g) = v1 * g" by (simp add: u32_def)
  have "r \<le> 99" using r assms(2,3) by linarith
  then have c: "u32 (u32 (u0 * 10 + u1 + 4294967296 - v0 * g) * 10 + u2) = r * 10 + u2"
    unfolding r using assms(4) by (simp add: u32_def)
  have "g * (10 * v0 + v1) = 10 * (v0 * g) + v1 * g" by (simp add: algebra_simps)
  then show ?thesis unfolding guess_too_big_def a c using r by linarith
qed

lemma too_big:
  assumes "leading v0 v1 u0 u1 u2 B V R" "g \<le> 9" "v0 * g \<le> 10 * u0 + u1" "guess_too_big v0 v1 u0 u1 u2 g"
  shows "R div V \<noteq> g"
proof
  assume "R div V = g"
  then have "g * V \<le> R" by auto
  with cut_le [OF assms(1) this] too_big_iff [OF leadingD(3-6) [OF assms(1)] assms(2,3)] assms(4) show False by simp
qed

lemma not_too_big:
  assumes "leading v0 v1 u0 u1 u2 B V R" "g \<le> 9" "v0 * g \<le> 10 * u0 + u1" "\<not> guess_too_big v0 v1 u0 u1 u2 g"
  shows "g \<le> R div V + 1"
proof -
  note l = leadingD [OF assms(1)]
  have cut: "g * (10 * v0 + v1) \<le> 100 * u0 + 10 * u1 + u2"
    using too_big_iff [OF l(3-6) assms(2,3)] assms(4) by simp
  have "g * V \<le> g * ((10 * v0 + v1 + 1) * B)" using l(10) by (intro mult_left_mono) auto
  also have "\<dots> = g * (10 * v0 + v1) * B + g * B" by (simp add: algebra_simps)
  also have "\<dots> \<le> (100 * u0 + 10 * u1 + u2) * B + 9 * B" using cut assms(2) by (intro add_mono mult_right_mono) auto
  also have "\<dots> < R + V"
  proof -
    have "10 * B \<le> (10 * v0 + v1) * B" using l(1) by (intro mult_right_mono) auto
    with l(7,9,11) show ?thesis by linarith
  qed
  also have "\<dots> < (R div V + 1) * V + V" using quot_less [OF l(8), of R] by simp
  also have "\<dots> = (R div V + 2) * V" by (simp add: distrib_right)
  finally have "g < R div V + 2" by (metis mult_less_cancel2)
  then show ?thesis by simp
qed

lemma twice_too_big:
  assumes "leading v0 v1 u0 u1 u2 B V R"
  shows "first_guess v0 u0 u1 \<le> R div V + 2 \<or> R div V + 2 > 9"
proof -
  note l = leadingD [OF assms]
  let ?g = "first_guess v0 u0 u1" and ?q = "R div V"
  have "10 * (v0 * ?g) * B \<le> (100 * u0 + 10 * u1 + u2) * B"
    using first_guess_ok(2) [OF assms] by (intro mult_right_mono) auto
  also have "\<dots> \<le> R" by (rule l(11))
  also have "\<dots> < (?q + 1) * V" by (rule quot_less [OF l(8)])
  also have "\<dots> \<le> (?q + 1) * ((10 * v0 + 10) * B)"
  proof (rule mult_left_mono)
    have "(10 * v0 + v1 + 1) * B \<le> (10 * v0 + 10) * B" using l(3) by (intro mult_right_mono) auto
    with l(10) show "V \<le> (10 * v0 + 10) * B" by linarith
  qed simp
  finally have "10 * (v0 * ?g) * B < (?q + 1) * (10 * v0 + 10) * B" by (simp only: mult.assoc)
  then have "10 * (v0 * ?g) < (?q + 1) * (10 * v0 + 10)" by (metis mult_less_cancel2)
  also have "\<dots> = 10 * ((?q + 1) * (v0 + 1))" by (simp add: algebra_simps)
  finally have lt: "v0 * ?g < (?q + 1) * (v0 + 1)" by simp
  show ?thesis
  proof (cases "?g \<le> ?q + 2")
    case False
    then have "v0 * (?q + 3) \<le> v0 * ?g" by (intro mult_left_mono) auto
    with lt have "v0 * (?q + 3) < (?q + 1) * (v0 + 1)" by linarith
    then have "2 * v0 < ?q + 1" by (simp add: algebra_simps)
    then show ?thesis using l(1) by simp
  qed simp
qed

lemma quot_guess_ok:
  assumes "leading v0 v1 u0 u1 u2 B V R"
  shows "R div V \<le> quot_guess v0 v1 u0 u1 u2" "quot_guess v0 v1 u0 u1 u2 \<le> R div V + 1" "quot_guess v0 v1 u0 u1 u2 \<le> 9"
proof -
  let ?g = "first_guess v0 u0 u1" and ?q = "R div V"
  note fg = first_guess_ok [OF assms]
  have "?q \<le> quot_guess v0 v1 u0 u1 u2 \<and> quot_guess v0 v1 u0 u1 u2 \<le> ?q + 1 \<and> quot_guess v0 v1 u0 u1 u2 \<le> 9"
  proof (cases "guess_too_big v0 v1 u0 u1 u2 ?g")
    case False
    then show ?thesis using fg not_too_big [OF assms fg(1,2)] by (simp add: quot_guess_def Let_def)
  next
    case True
    then have lt: "?q < ?g" using too_big [OF assms fg(1,2)] fg(3) by simp
    have "v0 * (?g - 1) \<le> v0 * ?g" by (intro mult_left_mono) auto
    then have g1: "?g - 1 \<le> 9" "v0 * (?g - 1) \<le> 10 * u0 + u1" using fg(1,2) by linarith+
    show ?thesis
    proof (cases "guess_too_big v0 v1 u0 u1 u2 (?g - 1)")
      case f: False
      then show ?thesis using True lt fg(1) not_too_big [OF assms g1] by (simp add: quot_guess_def Let_def)
    next
      case t: True
      then have "?q < ?g - 1" using too_big [OF assms g1] lt by simp
      moreover have "quot_guess v0 v1 u0 u1 u2 = ?g - 2" using True t by (simp add: quot_guess_def Let_def)
      ultimately show ?thesis using fg(1) twice_too_big [OF assms] by linarith
    qed
  qed
  then show "R div V \<le> quot_guess v0 v1 u0 u1 u2" "quot_guess v0 v1 u0 u1 u2 \<le> R div V + 1"
    "quot_guess v0 v1 u0 u1 u2 \<le> 9" by blast+
qed

subsection \<open>One round\<close>

lemma mul_sub_loop_ok:
  "length xs = length ys \<Longrightarrow> digits_ok xs \<Longrightarrow> digits_ok ys \<Longrightarrow> b \<le> 1 \<Longrightarrow> mul_sub_loop xs ys b = (ds, b') \<Longrightarrow>
    int (lval ds) - int b' * 10 ^ length xs = int (lval xs) - int (lval ys) - int b \<and> digits_ok ds \<and>
    length ds = length xs \<and> b' \<le> 1"
proof (induction xs ys arbitrary: b ds b' rule: list_induct2)
  case (Cons x xs y ys)
  obtain d c where d: "sub_digit (int x - int y - int b) = (d, c)" by fastforce
  obtain ds1 b1 where r: "mul_sub_loop xs ys c = (ds1, b1)" by fastforce
  from Cons.prems sub_digit_ok [OF d] have dc: "int d - 10 * int c = int x - int y - int b" "d < 10" "c \<le> 1" by auto
  from Cons.IH [OF _ _ dc(3) r] Cons.prems have
    ih: "int (lval ds1) - int b1 * 10 ^ length xs = int (lval xs) - int (lval ys) - int c"
      "digits_ok ds1" "length ds1 = length xs" "b1 \<le> 1" by auto
  have e: "ds = d # ds1" "b' = b1" using Cons.prems(4) d r by auto
  have "int (lval ds) - int b' * 10 ^ length (x # xs) = int d + 10 * (int (lval ds1) - int b1 * 10 ^ length xs)"
    by (simp add: e algebra_simps)
  also have "\<dots> = int (lval (x # xs)) - int (lval (y # ys)) - int b" using dc(1) unfolding ih(1) by simp
  finally show ?case using e ih dc by simp
qed simp

lemma mod_digit: "d < 10 \<Longrightarrow> (d + 10 * z) mod (10 * m) = d + 10 * (z mod m)" for d z m :: nat
proof -
  assume "d < 10"
  then have "(d + 10 * z) div 10 = z" "(d + 10 * z) mod 10 = d" by simp_all
  then show ?thesis by (simp add: mod_mult2_eq)
qed

lemma add_back_loop_ok:
  "length xs = length ys + 1 \<Longrightarrow> digits_ok xs \<Longrightarrow> digits_ok ys \<Longrightarrow> c \<le> 1 \<Longrightarrow>
    lval (add_back_loop xs ys c) = (lval xs + lval ys + c) mod 10 ^ length xs \<and>
    digits_ok (add_back_loop xs ys c) \<and> length (add_back_loop xs ys c) = length xs"
proof (induction xs ys c rule: add_back_loop.induct)
  case (1 x xs y ys c)
  let ?v = "x + y + c"
  show ?case
  proof (cases "?v > 9")
    case True
    have "lval (x # xs) + lval (y # ys) + c = (?v - 10) + 10 * (lval xs + lval ys + 1)" using True by simp
    moreover have lt: "?v - 10 < 10" using 1(4-6) by auto
    ultimately have "(lval (x # xs) + lval (y # ys) + c) mod 10 ^ length (x # xs) =
        (?v - 10) + 10 * ((lval xs + lval ys + 1) mod 10 ^ length xs)"
      by (simp only: length_Cons power_Suc mod_digit)
    with 1(1) [OF refl True] 1(3-6) True lt show ?thesis by (simp add: Let_def)
  next
    case False
    have "lval (x # xs) + lval (y # ys) + c = ?v + 10 * (lval xs + lval ys + 0)" by simp
    moreover have "?v < 10" using False by simp
    ultimately have "(lval (x # xs) + lval (y # ys) + c) mod 10 ^ length (x # xs) =
        ?v + 10 * ((lval xs + lval ys + 0) mod 10 ^ length xs)"
      by (simp only: length_Cons power_Suc mod_digit)
    with 1(2) [OF refl False] 1(3-6) False show ?thesis by (simp add: Let_def)
  qed
next
  case (2 x xs c)
  then have [simp]: "xs = []" by simp
  from 2 show ?case by (cases "c = 1") (auto simp: not_less_eq_eq le_Suc_eq)
qed simp

text \<open>The guess made from the digits of the two lists is at most one too big.\<close>

lemma dval_Cons2: "dval (x # y # zs) = (10 * x + y) * 10 ^ length zs + dval zs"
  by (simp add: dval_Cons algebra_simps)

lemma dval_Cons3: "dval (x # y # z # zs) = (100 * x + 10 * y + z) * 10 ^ length zs + dval zs"
  by (simp add: dval_Cons algebra_simps)

lemma round_guess:
  assumes "digits_ok n2" "n2 \<noteq> []" "5 \<le> hd n2" "digits_ok num1" "q + length n2 + 1 \<le> length num1" "q + 2 < length num1"
  defines "V \<equiv> dval n2" and "R \<equiv> dval (take (length n2 + 1) (drop q num1))"
  assumes bound: "R < 10 * V"
  defines "g \<equiv> quot_guess (hd n2) ((n2 @ [0]) ! 1) (num1 ! q) (num1 ! (q + 1)) (num1 ! (q + 2))"
  shows "R div V \<le> g" "g \<le> R div V + 1" "g \<le> 9"
proof -
  have dig: "num1 ! i < 10" if "i < length num1" for i using assms(4) that by (simp add: digits_ok_def)
  let ?u0 = "num1 ! q" and ?u1 = "num1 ! (q + 1)" and ?u2 = "num1 ! (q + 2)"
  have u: "?u0 < 10" "?u1 < 10" "?u2 < 10" using dig assms(6) by auto
  have d3: "drop q num1 = ?u0 # ?u1 # ?u2 # drop (q + 3) num1"
    using assms(6) by (simp add: Cons_nth_drop_Suc numeral_3_eq_3 numeral_2_eq_2)
  obtain v0 vs where n2: "n2 = v0 # vs" using assms(2) by (cases n2) auto
  have "R div V \<le> g \<and> g \<le> R div V + 1 \<and> g \<le> 9"
  proof (cases vs)
    case Nil
    have V: "V = v0" and R: "R = 10 * ?u0 + ?u1" by (simp_all add: V_def R_def n2 Nil d3 dval_Cons)
    have "leading v0 0 ?u0 ?u1 ?u2 1 (10 * V) (10 * R + ?u2)"
      using assms(1,3) u bound V unfolding leading_def by (simp add: n2 R)
    note g = quot_guess_ok [OF this]
    have "(10 * R + ?u2) div (10 * V) = R div V" using u by (simp add: div_mult2_eq)
    with g show ?thesis by (simp add: g_def n2 Nil)
  next
    case (Cons v1 ws)
    let ?B = "10 ^ length ws"
    have V: "V = (10 * v0 + v1) * ?B + dval ws" by (simp add: V_def n2 Cons dval_Cons2)
    have "dval ws < ?B" using assms(1) by (intro dval_less) (simp add: n2 Cons)
    moreover have R: "R = (100 * ?u0 + 10 * ?u1 + ?u2) * ?B + dval (take (length ws) (drop (q + 3) num1))"
      using assms(5) by (simp add: R_def n2 Cons d3 dval_Cons3)
    moreover have "dval (take (length ws) (drop (q + 3) num1)) < ?B"
    proof -
      have "digits_ok (take (length ws) (drop (q + 3) num1))" using assms(4) by auto
      from dval_less [OF this] assms(5) show ?thesis by (simp add: n2 Cons)
    qed
    ultimately have "leading v0 v1 ?u0 ?u1 ?u2 ?B V R"
      using assms(1,3) u bound unfolding leading_def by (simp add: n2 Cons V distrib_right)
    from quot_guess_ok [OF this] show ?thesis by (simp add: g_def n2 Cons)
  qed
  then show "R div V \<le> g" "g \<le> R div V + 1" "g \<le> 9" by blast+
qed

lemma divide_round_ok:
  assumes "digits_ok n2" "n2 \<noteq> []" "5 \<le> hd n2" "digits_ok num1" "q + length n2 + 1 \<le> length num1" "q + 2 < length num1"
  defines "V \<equiv> dval n2" and "R \<equiv> dval (take (length n2 + 1) (drop q num1))"
  assumes bound: "R < 10 * V"
  obtains w where "divide_round n2 num1 q = (R div V, take q num1 @ w @ drop (q + length n2 + 1) num1)"
    "dval w = R mod V" "digits_ok w" "length w = length n2 + 1"
proof -
  obtain g where g_def: "quot_guess (hd n2) ((n2 @ [0]) ! 1) (num1 ! q) (num1 ! (q + 1)) (num1 ! (q + 2)) = g"
    by simp
  note g = round_guess [OF assms(1-6), folded V_def R_def, unfolded g_def, OF bound]
  let ?n = "length n2 + 1"
  define W where "W = take ?n (drop q num1)"
  have W: "length W = ?n" "digits_ok W" "lval (rev W) = R" using assms(4,5) by (auto simp: W_def R_def dval_def)
  have V0: "0 < V" using assms(2,3) by (cases n2) (auto simp: V_def dval_Cons)
  have VB: "V < 10 ^ length n2" unfolding V_def by (rule dval_less [OF assms(1)])
  have rV: "lval (rev n2) = V" by (simp add: V_def dval_def)
  show thesis
  proof (cases "g = 0")
    case True
    then have "R div V = 0" using g(1) by simp
    then have "R mod V = R" by (metis add_0 div_mult_mod_eq mult_zero_left)
    moreover have "divide_round n2 num1 q = (0, take q num1 @ W @ drop (q + ?n) num1)"
      unfolding divide_round_def Let_def g_def using True by (simp add: W_def)
    ultimately show thesis using that [of W] W \<open>R div V = 0\<close> by (simp add: dval_def)
  next
    case False
    obtain ds c where om: "one_mult n2 g = (ds, c)" by fastforce
    have "g < 10" using g(3) by simp
    note m = one_mult_ok [OF assms(1) this om]
    have prod: "lval (rev (c # ds)) = V * g" using m(1,3) by (simp add: lval_append V_def dval_def mult.commute)
    obtain r b where ms: "mul_sub_loop (rev W) (rev (c # ds)) 0 = (r, b)" by fastforce
    have s: "int (lval r) - int b * 10 ^ ?n = int R - int V * int g" "digits_ok r" "length r = ?n" "b \<le> 1"
      using mul_sub_loop_ok [OF _ _ _ _ ms] W m(2-4) prod by auto
    have "lval r < 10 ^ ?n" using lval_less [OF s(2)] s(3) by simp
    then have rlt: "int (lval r) < 10 ^ ?n" by (metis of_nat_less_iff of_nat_numeral of_nat_power)
    have mod_eq: "int R = int V * int (R div V) + int (R mod V)"
      by (metis mult_div_mod_eq of_nat_add of_nat_mult)
    have mod_lt: "R mod V < V" using V0 by simp
    have round: "divide_round n2 num1 q =
        (if b = 1 then (g - 1, take q num1 @ rev (add_back_loop r (rev n2) 0) @ drop (q + ?n) num1)
         else (g, take q num1 @ rev r @ drop (q + ?n) num1))"
      unfolding divide_round_def Let_def g_def using False ms om by (simp add: W_def)
    show thesis
    proof (cases "g = R div V")
      case True
      with s(1) mod_eq have e: "int (lval r) - int b * 10 ^ ?n = int (R mod V)" by simp
      have "b = 0"
      proof (rule ccontr)
        assume "b \<noteq> 0"
        with s(4) have "b = 1" by simp
        with e rlt show False by simp
      qed
      with e round True show thesis using that [of "rev r"] s by simp
    next
      case False
      then have g1: "g = R div V + 1" using g(1,2) by simp
      then have "int V * int g = int V * int (R div V) + int V" by (simp add: algebra_simps)
      with s(1) mod_eq have e: "int (lval r) - int b * 10 ^ ?n = int (R mod V) - int V" by linarith
      have b1: "b = 1"
      proof (rule ccontr)
        assume "b \<noteq> 1"
        with s(4) have "b = 0" by simp
        with e mod_lt show False by simp
      qed
      let ?a = "add_back_loop r (rev n2) 0"
      have ab: "lval ?a = (lval r + V) mod 10 ^ ?n" "digits_ok ?a" "length ?a = ?n"
        using add_back_loop_ok [of r "rev n2" 0] s(2,3) assms(1) rV by auto
      have "int (lval r + V) = int (R mod V + 10 ^ ?n)" using e b1 by simp
      then have "lval r + V = R mod V + 10 ^ ?n" by (simp only: of_nat_eq_iff)
      moreover have "R mod V < 10 ^ ?n" using mod_lt VB by (simp add: less_trans)
      ultimately have "lval ?a = R mod V" using ab(1) by simp
      with round b1 g1 ab show thesis using that [of "rev ?a"] by simp
    qed
  qed
qed

subsection \<open>All rounds\<close>

lemma dval_take_Suc: "length w = Suc n \<Longrightarrow> digits_ok w \<Longrightarrow> dval w < 10 ^ n \<Longrightarrow> dval (tl w) = dval w"
proof -
  assume w: "length w = Suc n" "digits_ok w" "dval w < 10 ^ n"
  then obtain x xs where x: "w = x # xs" "length xs = n" by (cases w) auto
  have "x = 0"
  proof (rule ccontr)
    assume "x \<noteq> 0"
    then have "10 ^ n \<le> dval w" using dval_ge [of w] x by simp
    with w(3) show False by simp
  qed
  with x show ?thesis by (simp add: dval_Cons)
qed

lemma div_step: "0 < V \<Longrightarrow> (R * b + t) div V = R div V * b + (R mod V * b + t) div V" for R b t V :: nat
proof -
  assume V: "0 < V"
  have "R * b + t = (R mod V * b + t) + V * (R div V * b)"
    by (metis add.assoc add.commute distrib_right mult.assoc mult_div_mod_eq)
  then show ?thesis using V by (metis add.commute div_mult_self2 less_not_refl)
qed

lemma divide_loop_ok:
  assumes "digits_ok n2" "n2 \<noteq> []" "5 \<le> hd n2"
  shows "digits_ok num1 \<Longrightarrow> q + length n2 + k \<le> length num1 \<Longrightarrow> q + k + 1 < length num1 \<Longrightarrow>
    (0 < k \<longrightarrow> dval (take (length n2 + 1) (drop q num1)) < 10 * dval n2) \<Longrightarrow>
    length (divide_loop n2 num1 q k) = k \<and> digits_ok (divide_loop n2 num1 q k) \<and>
    (0 < k \<longrightarrow> dval (divide_loop n2 num1 q k) = dval (take (length n2 + k) (drop q num1)) div dval n2)"
proof (induction k arbitrary: num1 q)
  case (Suc k)
  let ?V = "dval n2" and ?n = "length n2" and ?R = "dval (take (length n2 + 1) (drop q num1))"
  have V0: "0 < ?V" using assms(2,3) by (cases n2) (auto simp: dval_Cons)
  have VB: "?V < 10 ^ ?n" by (rule dval_less [OF assms(1)])
  have R: "?R < 10 * ?V" using Suc.prems(4) by simp
  have idx: "q + ?n + 1 \<le> length num1" "q + 2 < length num1" using Suc.prems(2,3) by simp_all
  obtain w where w: "divide_round n2 num1 q = (?R div ?V, take q num1 @ w @ drop (q + ?n + 1) num1)"
    "dval w = ?R mod ?V" "digits_ok w" "length w = ?n + 1"
    using divide_round_ok [OF assms Suc.prems(1) idx R] by blast
  define num1' where "num1' = take q num1 @ w @ drop (q + ?n + 1) num1"
  have len': "length num1' = length num1" using w(4) idx by (simp add: num1'_def)
  have dg': "digits_ok num1'" using w(3) Suc.prems(1) by (auto simp: num1'_def)
  have "w \<noteq> []" using w(4) by auto
  then have drop': "drop (q + 1) num1' = tl w @ drop (q + ?n + 1) num1"
    using idx by (cases w) (simp_all add: num1'_def)
  have tlw: "dval (tl w) = ?R mod ?V" "length (tl w) = ?n"
    using dval_take_Suc [of w ?n] w(2-4) V0 VB by (simp_all add: less_trans [OF mod_less_divisor])
  have window: "dval (take (?n + k) (drop (q + 1) num1')) = ?R mod ?V * 10 ^ k + dval (take k (drop (q + ?n + 1) num1))"
    unfolding drop' using tlw Suc.prems(2) by (simp add: dval_append)
  have next_window: "0 < k \<longrightarrow> dval (take (?n + 1) (drop (q + 1) num1')) < 10 * ?V"
  proof
    assume "0 < k"
    then have lt: "q + ?n + 1 < length num1" using Suc.prems(2) by simp
    then have "dval (take (?n + 1) (drop (q + 1) num1')) = 10 * (?R mod ?V) + num1 ! (q + ?n + 1)"
      unfolding drop' using tlw by (simp add: dval_append take_Suc hd_drop_conv_nth dval_Cons)
    moreover have "num1 ! (q + ?n + 1) < 10" using Suc.prems(1) lt by (simp add: digits_ok_def)
    moreover have "?R mod ?V < ?V" using V0 by simp
    ultimately show "dval (take (?n + 1) (drop (q + 1) num1')) < 10 * ?V" by linarith
  qed
  have ih: "length (divide_loop n2 num1' (q + 1) k) = k" "digits_ok (divide_loop n2 num1' (q + 1) k)"
    "0 < k \<longrightarrow> dval (divide_loop n2 num1' (q + 1) k) = dval (take (?n + k) (drop (q + 1) num1')) div ?V"
    using Suc.IH [OF dg', of "q + 1"] next_window Suc.prems(2,3) len' by auto
  have eq: "divide_loop n2 num1 q (Suc k) = ?R div ?V # divide_loop n2 num1' (q + 1) k"
    using w(1) by (simp add: num1'_def)
  have lt10: "?R div ?V < 10" using R V0 by (simp add: less_mult_imp_div_less)
  have "take (?n + Suc k) (drop q num1) = take (?n + 1) (drop q num1) @ take k (drop (q + ?n + 1) num1)"
    using take_add [of "?n + 1" k "drop q num1"] by (simp add: add.commute add.left_commute)
  then have total: "dval (take (?n + Suc k) (drop q num1)) = ?R * 10 ^ k + dval (take k (drop (q + ?n + 1) num1))"
    using Suc.prems(2) by (simp add: dval_append)
  have "(?R mod ?V * 10 ^ k + dval (take k (drop (q + ?n + 1) num1))) div ?V = dval (divide_loop n2 num1' (q + 1) k)"
    using ih V0 window by (cases "k = 0") auto
  then have "dval (divide_loop n2 num1 q (Suc k)) = dval (take (?n + Suc k) (drop q num1)) div ?V"
    unfolding total eq dval_Cons using ih(1) div_step [OF V0, of ?R "10 ^ k"] by (simp only:)
  with ih eq lt10 show ?case by simp
qed simp

subsection \<open>Normalisation and the whole quotient\<close>

lemma dval_take: "digits_ok xs \<Longrightarrow> dval (take n xs) = dval xs div 10 ^ (length xs - n)"
proof -
  assume ok: "digits_ok xs"
  have "dval (drop n xs) < 10 ^ (length xs - n)" using dval_less [of "drop n xs"] ok by auto
  then have "(dval (take n xs) * 10 ^ (length xs - n) + dval (drop n xs)) div 10 ^ (length xs - n) = dval (take n xs)"
    by simp
  then show ?thesis using dval_split [of xs n] by simp
qed

lemma norm_facts:
  assumes "1 \<le> d" "d \<le> (9::nat)"
  shows "1 \<le> 10 div (d + 1)" "10 div (d + 1) < 10" "10 div (d + 1) * (d + 1) \<le> 10" "5 \<le> d * (10 div (d + 1))"
proof -
  have "d \<in> {1, 2, 3, 4, 5, 6, 7, 8, 9}" using assms by auto
  then show "1 \<le> 10 div (d + 1)" "10 div (d + 1) < 10" "10 div (d + 1) * (d + 1) \<le> 10" "5 \<le> d * (10 div (d + 1))"
    by (auto simp flip: numeral_2_eq_2)
qed

lemma one_mult_same: "one_mult xs 1 = (xs, 0)"
  by (simp add: one_mult_def)

lemma normal_divisor:
  assumes "digits_ok n2" "n2 \<noteq> []" "hd n2 \<noteq> 0"
  defines "m \<equiv> fst (one_mult n2 (10 div (hd n2 + 1)))"
  shows "digits_ok m" "length m = length n2" "m \<noteq> []" "5 \<le> hd m" "dval m = dval n2 * (10 div (hd n2 + 1))"
proof -
  let ?k = "10 div (hd n2 + 1)"
  obtain d ds where n2: "n2 = d # ds" using assms(2) by (cases n2) auto
  have "1 \<le> d" "d \<le> 9" using assms(1,3) n2 by auto
  note nf = norm_facts [OF this]
  obtain c where om: "one_mult n2 ?k = (m, c)" unfolding m_def by (metis prod.collapse)
  have "?k < 10" using nf(2) n2 by simp
  note o = one_mult_ok [OF assms(1) this om]
  show ok: "digits_ok m" and len: "length m = length n2" by (fact o)+
  then show "m \<noteq> []" using assms(2) by auto
  then obtain e es where m: "m = e # es" by (cases m) auto
  have les: "length es = length ds" using len n2 m by simp
  have "dval n2 < (d + 1) * 10 ^ length ds" using dval_less [of ds] assms(1) by (simp add: n2 dval_Cons)
  then have "dval n2 * ?k < (d + 1) * 10 ^ length ds * ?k" using nf(1) n2 by (intro mult_strict_right_mono) auto
  also have "\<dots> = ?k * (d + 1) * 10 ^ length ds" by (simp only: mult_ac)
  also have "\<dots> \<le> 10 * 10 ^ length ds" using nf(3) n2 by (intro mult_right_mono) auto
  finally have lt: "dval n2 * ?k < 10 ^ length n2" by (simp add: n2)
  have "c = 0"
  proof (rule ccontr)
    assume "c \<noteq> 0"
    then have "1 * 10 ^ length n2 \<le> c * 10 ^ length n2" by (intro mult_right_mono) auto
    with o(1) lt show False by linarith
  qed
  then show v: "dval m = dval n2 * ?k" using o(1) by simp
  have "d * ?k * 10 ^ length ds \<le> dval n2 * ?k" by (simp add: n2 dval_Cons)
  also have "\<dots> < (e + 1) * 10 ^ length ds"
    unfolding v [symmetric] using dval_less [of es] ok les by (simp add: m dval_Cons)
  finally have "d * ?k < e + 1" by (metis mult_less_cancel2)
  with nf(4) show "5 \<le> hd m" by (simp add: m n2)
qed

lemma normal_dividend:
  fixes k :: nat
  assumes "digits_ok xs" "k < 10"
  defines "m \<equiv> fst (one_mult (0 # xs) k)"
  shows "digits_ok m" "length m = length xs + 1" "dval m = dval xs * k"
proof -
  obtain c where om: "one_mult (0 # xs) k = (m, c)" unfolding m_def by (metis prod.collapse)
  note o = one_mult_ok [OF _ assms(2) om]
  show "digits_ok m" "length m = length xs + 1" using o(2,3) assms(1) by auto
  have "dval xs * k < 10 ^ length xs * 10" using dval_less [OF assms(1)] assms(2) by (intro mult_strict_mono) auto
  then have lt: "dval xs * k < 10 ^ length (0 # xs)" by simp
  have "c = 0"
  proof (rule ccontr)
    assume "c \<noteq> 0"
    then have "1 * 10 ^ length (0 # xs) \<le> c * 10 ^ length (0 # xs)" by (intro mult_right_mono) auto
    moreover have "dval m + c * 10 ^ length (0 # xs) = dval xs * k" using o(1) assms(1) by (simp add: dval_Cons)
    ultimately show False using lt by linarith
  qed
  then show "dval m = dval xs * k" using o(1) assms(1) by (simp add: dval_Cons)
qed

lemma quotient_digits:
  assumes xs: "digits_ok xs" "N \<le> length xs" and n2: "digits_ok n2" "n2 \<noteq> []" "hd n2 \<noteq> 0" "length n2 \<le> N"
  defines "nrm \<equiv> 10 div (hd n2 + 1)"
  defines "ds \<equiv> divide_loop (fst (one_mult n2 nrm)) (fst (one_mult (0 # xs) nrm) @ [0]) 0 (N - length n2 + 1)"
  shows "length ds = N - length n2 + 1" "digits_ok ds" "dval ds = dval (take N xs) div dval n2"
proof -
  let ?m = "fst (one_mult n2 nrm)" and ?u = "fst (one_mult (0 # xs) nrm)" and ?V = "dval n2" and ?j = "length xs - N"
  have "1 \<le> hd n2" "hd n2 \<le> 9" using n2 by (cases n2; auto)+
  note nf = norm_facts [OF this, folded nrm_def]
  note nd = normal_divisor [OF n2(1-3), folded nrm_def]
  note nu = normal_dividend [OF xs(1) nf(2)]
  have ok: "digits_ok (?u @ [0])" using nu(1) by simp
  have V10: "10 ^ length n2 \<le> 10 * ?V" using dval_ge [OF n2(2,3)] n2(2) by (cases n2) auto
  have V0: "0 < ?V" using V10 by (intro Nat.gr0I) auto
  have window: "dval (take (length n2 + 1) ?u) < 10 * (?V * nrm)"
  proof -
    let ?l = "length xs - length n2"
    have "dval xs * nrm < 10 ^ length xs * nrm" using dval_less [OF xs(1)] nf(1) by (intro mult_strict_right_mono) auto
    also have "10 ^ length xs = (10::nat) ^ length n2 * 10 ^ ?l" using n2(4) xs(2) by (simp flip: power_add)
    also have "10 ^ length n2 * 10 ^ ?l * nrm \<le> 10 * ?V * 10 ^ ?l * nrm" using V10 by (intro mult_right_mono) auto
    finally have "dval xs * nrm < 10 * (?V * nrm) * 10 ^ ?l" by (simp add: mult_ac)
    then have "dval xs * nrm div 10 ^ ?l < 10 * (?V * nrm)" by (rule less_mult_imp_div_less)
    then show ?thesis using nu(2,3) by (simp add: dval_take [OF nu(1)])
  qed
  have "0 < length n2" using n2(2) by simp
  then have pos: "N - length n2 < length xs" using n2(4) xs(2) by linarith
  have "length ds = N - length n2 + 1 \<and> digits_ok ds \<and>
      (0 < N - length n2 + 1 \<longrightarrow>
        dval ds = dval (take (length ?m + (N - length n2 + 1)) (drop 0 (?u @ [0]))) div dval ?m)"
    unfolding ds_def
    by (rule divide_loop_ok [OF nd(1,3,4) ok]) (use nu(2) nd(2,5) xs(2) n2(4) pos window in auto)
  then have d: "length ds = N - length n2 + 1" "digits_ok ds"
    "dval ds = dval (take (length n2 + (N - length n2 + 1)) (?u @ [0])) div (?V * nrm)"
    using nd(2,5) by auto
  have "length n2 + (N - length n2 + 1) = N + 1" using n2(4) by simp
  then have "dval ds = dval xs * nrm div 10 ^ ?j div (?V * nrm)"
    using d(3) nu xs(2) dval_take [OF nu(1), of "N + 1"] by simp
  also have "\<dots> = dval xs * nrm div (10 ^ ?j * ?V * nrm)" by (simp add: div_mult2_eq mult.assoc)
  also have "\<dots> = dval xs div (10 ^ ?j * ?V)" using nf(1) by simp
  also have "\<dots> = dval (take N xs) div ?V" by (simp add: div_mult2_eq dval_take [OF xs(1)])
  finally show "length ds = N - length n2 + 1" "digits_ok ds" "dval ds = dval (take N xs) div ?V" using d by auto
qed

subsection \<open>Division\<close>

lemma strip_scale_ok:
  assumes "s \<le> length ds" "t = strip_scale ds s"
  shows "t \<le> s" "lval ds = 10 ^ (s - t) * lval (drop (s - t) ds)"
proof -
  have "t \<le> s \<and> lval ds = 10 ^ (s - t) * lval (drop (s - t) ds)"
    using assms
  proof (induction ds s arbitrary: t rule: strip_scale.induct)
    case (1 d ds s)
    show ?case
    proof (cases "d = 0")
      case True
      with 1 have ih: "t \<le> s" "lval ds = 10 ^ (s - t) * lval (drop (s - t) ds)" by auto
      then have "Suc s - t = Suc (s - t)" by simp
      with ih True show ?thesis by simp
    qed (use 1 in simp)
  qed auto
  then show "t \<le> s" "lval ds = 10 ^ (s - t) * lval (drop (s - t) ds)" by auto
qed

lemma strip_scale_value:
  assumes "bc_wf n" "t = strip_scale (rev (n_value n)) (n_scale n)"
  shows "t \<le> n_scale n" "bc_abs n = of_nat (dval (take (n_len n + t) (n_value n))) / 10 ^ t"
proof -
  let ?k = "n_scale n - t"
  note s = strip_scale_ok [OF _ assms(2)]
  have l: "length (n_value n) = n_len n + n_scale n" using assms(1) by (simp add: bc_wf_def)
  then show t: "t \<le> n_scale n" using s(1) by simp
  have "drop ?k (rev (n_value n)) = rev (take (n_len n + t) (n_value n))" using l t by (simp add: drop_rev)
  then have "dval (n_value n) = 10 ^ ?k * dval (take (n_len n + t) (n_value n))"
    using s(2) l by (simp add: dval_def)
  moreover have "(10::rat) ^ n_scale n = 10 ^ ?k * 10 ^ t" using t by (simp flip: power_add)
  ultimately show "bc_abs n = of_nat (dval (take (n_len n + t) (n_value n))) / 10 ^ t" by (simp add: bc_abs_def)
qed

lemma dval_dropWhile: "dval (dropWhile (\<lambda>d. d = 0) xs) = dval xs"
  by (induction xs) (auto simp: dval_Cons)

text \<open>What the quotient should be: the quotient of the magnitudes, cut off after \<open>scale\<close> digits.\<close>

definition cut :: "nat \<Rightarrow> rat \<Rightarrow> rat" where
  "cut scale x = of_int \<lfloor>x * 10 ^ scale\<rfloor> / 10 ^ scale"

lemma cut_quotient:
  assumes "a = of_nat m / 10 ^ s" "b = of_nat v / 10 ^ t" "j + t + scale = s + e"
  shows "cut scale (a / b) = of_nat (m * 10 ^ e div (10 ^ j * v)) / 10 ^ scale"
proof -
  have "a / b * 10 ^ scale = of_nat (m * 10 ^ e) / (of_nat (10 ^ j * v) :: rat)"
  proof -
    have "(10::rat) ^ j * 10 ^ t * 10 ^ scale = 10 ^ s * 10 ^ e" using assms(3) by (simp flip: power_add)
    then show ?thesis by (cases "v = 0") (simp_all add: assms(1,2) field_simps)
  qed
  then show ?thesis unfolding cut_def by (simp only: floor_divide_of_nat_eq of_int_of_nat_eq)
qed

text \<open>The quotient digits before the leading zeros go, and the pieces of \<open>bc_divide\<close> that give them.\<close>

definition raw_quotient :: "nat list \<Rightarrow> nat list \<Rightarrow> nat \<Rightarrow> nat \<Rightarrow> nat list" where
  "raw_quotient xs n2 len1 scale =
     (if length n2 > len1 + scale then replicate (scale + 1) 0
      else replicate (length n2 - len1) 0 @
        divide_loop (fst (one_mult n2 (10 div (hd n2 + 1)))) (fst (one_mult (0 # xs) (10 div (hd n2 + 1))) @ [0])
          0 (len1 + scale - length n2 + 1))"

lemma raw_quotient_ok:
  assumes "digits_ok xs" "len1 + scale \<le> length xs" "digits_ok n2" "n2 \<noteq> []" "hd n2 \<noteq> 0"
  shows "length (raw_quotient xs n2 len1 scale) =
      (if length n2 > len1 then scale + 1 else len1 - length n2 + scale + 1)"
    "digits_ok (raw_quotient xs n2 len1 scale)"
    "dval (raw_quotient xs n2 len1 scale) = dval (take (len1 + scale) xs) div dval n2"
proof -
  have "length (raw_quotient xs n2 len1 scale) =
        (if length n2 > len1 then scale + 1 else len1 - length n2 + scale + 1) \<and>
      digits_ok (raw_quotient xs n2 len1 scale) \<and>
      dval (raw_quotient xs n2 len1 scale) = dval (take (len1 + scale) xs) div dval n2"
  proof (cases "length n2 > len1 + scale")
    case True
    have "digits_ok (take (len1 + scale) xs)" using assms(1) by auto
    from dval_less [OF this] have "dval (take (len1 + scale) xs) < 10 ^ (len1 + scale)" using assms(2) by simp
    also have "\<dots> \<le> 10 ^ (length n2 - 1)" using True by (intro power_increasing) auto
    also have "\<dots> \<le> dval n2" by (rule dval_ge [OF assms(4,5)])
    finally have "dval (take (len1 + scale) xs) div dval n2 = 0" by simp
    moreover have "raw_quotient xs n2 len1 scale = replicate (scale + 1) 0" using True by (simp add: raw_quotient_def)
    ultimately show ?thesis using True dval_zeros [of "scale + 1"] digits_ok_simps(5) [of "scale + 1"] by simp
  next
    case False
    then have "length n2 \<le> len1 + scale" by simp
    note q = quotient_digits [OF assms(1-5) this]
    from q False show ?thesis by (auto simp: raw_quotient_def dval_append)
  qed
  then show "length (raw_quotient xs n2 len1 scale) =
      (if length n2 > len1 then scale + 1 else len1 - length n2 + scale + 1)"
    "digits_ok (raw_quotient xs n2 len1 scale)"
    "dval (raw_quotient xs n2 len1 scale) = dval (take (len1 + scale) xs) div dval n2" by blast+
qed

lemma one_mult_norm: "(if k \<noteq> 1 then fst (one_mult xs k) @ ys else xs @ ys) = fst (one_mult xs k) @ ys"
  by (simp add: one_mult_def)

lemma one_mult_norm2: "(if k \<noteq> 1 then fst (one_mult xs k) else xs) = fst (one_mult xs k)"
  by (simp add: one_mult_def)

lemma bc_divide_raw:
  fixes scale :: nat
  assumes "bc_wf n1" "\<not> is_zero n2"
  defines "t \<equiv> strip_scale (rev (n_value n2)) (n_scale n2)"
  defines "extra \<equiv> (if int (n_scale n1) - int t < int scale then nat (int scale - (int (n_scale n1) - int t)) else 0)"
  defines "xs \<equiv> n_value n1 @ replicate extra 0"
  defines "v \<equiv> dropWhile (\<lambda>d. d = 0) (take (n_len n2 + t) (n_value n2))"
  defines "ds \<equiv> raw_quotient xs v (n_len n1 + t) scale"
  defines "q \<equiv> \<lparr>n_sign = (if n_sign n1 = n_sign n2 then PLUS else MINUS), n_len = length ds - scale,
                n_scale = scale, n_value = ds\<rparr>"
  assumes "digits_ok xs" "n_len n1 + t + scale \<le> length xs" "digits_ok v" "v \<noteq> []" "hd v \<noteq> 0"
  shows "bc_divide n1 n2 scale = Some (rm_leading_zeros (if is_zero q then q\<lparr>n_sign := PLUS\<rparr> else q))"
proof -
  have len: "length ds = (if length v > n_len n1 + t then scale + 1 else n_len n1 + t - length v + scale + 1)"
    unfolding ds_def by (rule raw_quotient_ok [OF assms(9-13)])
  have l1: "length (n_value n1) = n_len n1 + n_scale n1" using assms(1) by (simp add: bc_wf_def)
  have num1: "0 # n_value n1 @ replicate (extra + 1) 0 = (0 # xs) @ [0]"
    by (simp add: xs_def replicate_append_same)
  have cut1: "take (n_len n1 + n_scale n1 + extra + 1) ((0 # xs) @ [0]) = 0 # xs"
    "drop (n_len n1 + n_scale n1 + extra + 1) ((0 # xs) @ [0]) = [0]"
    using l1 by (simp_all add: xs_def)
  have q: "\<lparr>n_sign = (if n_sign n1 = n_sign n2 then PLUS else MINUS),
        n_len = (if length v > n_len n1 + t then scale + 1 else n_len n1 + t - length v + scale + 1) - scale,
        n_scale = scale, n_value = ds\<rparr> = q"
    by (simp add: q_def len)
  have d: "(if length v > n_len n1 + t + scale
      then replicate (if length v > n_len n1 + t then scale + 1 else n_len n1 + t - length v + scale + 1) 0
      else replicate (length v - (n_len n1 + t)) 0 @
        divide_loop (fst (one_mult v (10 div (hd v + 1)))) (fst (one_mult (0 # xs) (10 div (hd v + 1))) @ [0])
          0 (n_len n1 + t + scale - length v + 1)) = ds"
    by (simp add: ds_def raw_quotient_def)
  show ?thesis
    unfolding bc_divide_def Let_def t_def [symmetric] extra_def [symmetric] v_def [symmetric] num1 cut1
      one_mult_norm one_mult_norm2 d q
    using assms(2) by simp
qed

text \<open>
  The quotient: magnitude cut off after \<open>scale\<close> digits, the sign that of the exact quotient, and a
  zero result is never negative.
\<close>

lemma bc_divide_ok:
  assumes "bc_wf n1" "bc_wf n2" "\<not> is_zero n2"
  obtains r where "bc_divide n1 n2 scale = Some r" "bc_wf r" "n_scale r = scale"
    "bc_abs r = cut scale (bc_abs n1 / bc_abs n2)"
    "n_sign r = (if is_zero r \<or> n_sign n1 = n_sign n2 then PLUS else MINUS)"
proof -
  define t where "t = strip_scale (rev (n_value n2)) (n_scale n2)"
  define extra where
    "extra = (if int (n_scale n1) - int t < int scale then nat (int scale - (int (n_scale n1) - int t)) else 0)"
  define xs where "xs = n_value n1 @ replicate extra 0"
  define v where "v = dropWhile (\<lambda>d. d = 0) (take (n_len n2 + t) (n_value n2))"
  define j where "j = length xs - (n_len n1 + t + scale)"
  have w1: "length (n_value n1) = n_len n1 + n_scale n1" "digits_ok (n_value n1)"
    and w2: "digits_ok (n_value n2)" using assms(1,2) by (simp_all add: bc_wf_def)
  have sc: "bc_abs n2 = of_nat (dval v) / 10 ^ t"
    using strip_scale_value(2) [OF assms(2) t_def] by (simp add: v_def dval_dropWhile)
  have xs: "digits_ok xs" "n_len n1 + t + scale \<le> length xs" using w1 by (auto simp: xs_def extra_def)
  have "digits_ok (take (n_len n2 + t) (n_value n2))" using w2 by auto
  then have dv: "digits_ok v" unfolding v_def digits_ok_def by (auto dest: set_dropWhileD)
  have "dval v \<noteq> 0" using assms(3) sc by (auto simp: is_zero_abs [OF assms(2)])
  then have v: "v \<noteq> []" by auto
  then have hv: "hd v \<noteq> 0" unfolding v_def using hd_dropWhile [of "\<lambda>d. d = 0"] by auto
  let ?ds = "raw_quotient xs v (n_len n1 + t) scale"
  note rq = raw_quotient_ok [OF xs dv v hv]
  define q where "q = \<lparr>n_sign = (if n_sign n1 = n_sign n2 then PLUS else MINUS), n_len = length ?ds - scale,
                n_scale = scale, n_value = ?ds\<rparr>"
  note raw = bc_divide_raw [where scale = scale, OF assms(1,3),
      folded t_def, folded extra_def, folded xs_def v_def, OF xs dv v hv, folded q_def]
  have lq: "0 < n_len q" "length (n_value q) = n_len q + n_scale q" "digits_ok (n_value q)"
    using rq by (auto simp: q_def split: if_splits)
  have "dval ?ds = dval (n_value n1) * 10 ^ extra div (10 ^ j * dval v)"
    unfolding rq(3) dval_take [OF xs(1)] by (simp add: xs_def dval_pad div_mult2_eq j_def)
  moreover have "j + t + scale = n_scale n1 + extra" using xs(2) w1 by (simp add: j_def) (simp add: xs_def w1)
  ultimately have val: "bc_abs q = cut scale (bc_abs n1 / bc_abs n2)"
    using cut_quotient [OF bc_abs_def sc] by (simp add: bc_abs_def q_def)
  have qs: "n_scale q = scale" by (simp add: q_def)
  let ?q = "if is_zero q then q\<lparr>n_sign := PLUS\<rparr> else q"
  have q': "0 < n_len ?q" "length (n_value ?q) = n_len ?q + n_scale ?q" "digits_ok (n_value ?q)"
    "bc_abs ?q = bc_abs q" "n_scale ?q = scale" using lq qs by simp_all
  note rm = rm_leading_zeros_ok [OF q'(1-3)]
  have zero: "is_zero q \<longleftrightarrow> bc_abs q = 0" using lq(2) by (simp add: is_zero_def bc_abs_def dval_eq_0)
  show thesis
  proof (rule that [OF raw rm(1)])
    show "n_scale (rm_leading_zeros ?q) = scale" using rm(4) q'(5) by simp
    show "bc_abs (rm_leading_zeros ?q) = cut scale (bc_abs n1 / bc_abs n2)" using rm(2) q'(4) val by simp
    show "n_sign (rm_leading_zeros ?q) = (if is_zero (rm_leading_zeros ?q) \<or> n_sign n1 = n_sign n2 then PLUS else MINUS)"
      unfolding is_zero_abs [OF rm(1)] rm(2,3) q'(4) zero [symmetric] by (simp add: q_def)
  qed
qed

lemma bc_divide_none: "bc_divide n1 n2 scale = None \<longleftrightarrow> is_zero n2"
  by (simp add: bc_divide_def Let_def)

lemma cut_bounds:
  assumes "0 \<le> x"
  shows "0 \<le> cut s x" "cut s x \<le> x" "x < cut s x + 1 / 10 ^ s"
proof -
  show "0 \<le> cut s x" using assms by (simp add: cut_def)
  have "of_int \<lfloor>x * 10 ^ s\<rfloor> \<le> x * 10 ^ s" by simp
  then show "cut s x \<le> x" by (simp add: cut_def field_simps)
  have "x * 10 ^ s < of_int \<lfloor>x * 10 ^ s\<rfloor> + 1" by linarith
  then show "x < cut s x + 1 / 10 ^ s" by (simp add: cut_def field_simps)
qed

lemma bc_divmod_ok:
  assumes "bc_wf n1" "bc_wf n2" "\<not> is_zero n2"
  obtains q r where "bc_divmod n1 n2 scale = Some (q, r)" "bc_divide n1 n2 scale = Some q" "bc_wf q" "bc_wf r"
    "bc_val n1 = bc_val q * bc_val n2 + bc_val r" "bc_abs r < bc_abs n2 / 10 ^ scale"
    "n_scale r = max (n_scale n1) (n_scale n2 + scale)"
proof -
  obtain q where q: "bc_divide n1 n2 scale = Some q" "bc_wf q" "n_scale q = scale"
    "bc_abs q = cut scale (bc_abs n1 / bc_abs n2)"
    "n_sign q = (if is_zero q \<or> n_sign n1 = n_sign n2 then PLUS else MINUS)"
    using bc_divide_ok [OF assms] by blast
  let ?rs = "max (n_scale n1) (n_scale n2 + scale)"
  let ?t = "bc_multiply q n2 ?rs"
  have exact: "n_scale q + n_scale n2 \<le> max ?rs (max (n_scale q) (n_scale n2))" using q(3) by simp
  note m = bc_multiply_exact [OF q(2) assms(2) exact] and mw = bc_multiply_ok(1) [OF q(2) assms(2), of ?rs]
  let ?r = "bc_sub n1 ?t ?rs"
  note s = bc_sub_ok [OF assms(1) mw, of ?rs]
  have b: "0 < bc_abs n2" using assms(3) is_zero_abs [OF assms(2)] bc_abs_nonneg [of n2] by linarith
  have x: "0 \<le> bc_abs n1 / bc_abs n2" by simp
  note c = cut_bounds [OF x, of scale, folded q(4)]
  have lo: "bc_abs q * bc_abs n2 \<le> bc_abs n1" using c(2) b by (simp add: field_simps)
  have "bc_abs n1 / bc_abs n2 * bc_abs n2 < (bc_abs q + 1 / 10 ^ scale) * bc_abs n2"
    using c(3) b by (intro mult_strict_right_mono) auto
  then have hi: "bc_abs n1 < bc_abs q * bc_abs n2 + bc_abs n2 / 10 ^ scale" using b by (simp add: distrib_right)
  have "bc_val n1 - bc_val q * bc_val n2 = bc_sgn (n_sign n1) * (bc_abs n1 - bc_abs q * bc_abs n2)"
    using q(5) is_zero_abs [OF q(2)]
    by (cases "n_sign n1"; cases "n_sign n2") (auto simp: bc_val_def split: if_splits)
  then have "bc_abs ?r = bc_abs n1 - bc_abs q * bc_abs n2"
    unfolding bc_abs_val [of ?r] s(2) m(1) using lo bc_sgn_cases [of "n_sign n1"] by (auto simp: abs_mult)
  then have lt: "bc_abs ?r < bc_abs n2 / 10 ^ scale" using hi by linarith
  have sum: "bc_val n1 = bc_val q * bc_val n2 + bc_val ?r" unfolding s(2) m(1) by simp
  have "bc_divmod n1 n2 scale = Some (q, ?r)" using assms(3) q(1) by (simp add: bc_divmod_def Let_def)
  moreover have "n_scale ?r = ?rs" using s(3) m(2) q(3) by simp
  ultimately show thesis using that q(1,2) s(1) sum lt by blast
qed

lemma bc_modulo_ok:
  assumes "bc_wf n1" "bc_wf n2" "\<not> is_zero n2"
  obtains r where "bc_modulo n1 n2 scale = Some r" "bc_wf r" "n_scale r = max (n_scale n1) (n_scale n2 + scale)"
    "bc_abs r < bc_abs n2 / 10 ^ scale" "\<exists>q. bc_wf q \<and> bc_divide n1 n2 scale = Some q \<and> bc_val n1 = bc_val q * bc_val n2 + bc_val r"
proof -
  obtain q r where "bc_divmod n1 n2 scale = Some (q, r)" "bc_divide n1 n2 scale = Some q" "bc_wf q" "bc_wf r"
    "bc_val n1 = bc_val q * bc_val n2 + bc_val r" "bc_abs r < bc_abs n2 / 10 ^ scale"
    "n_scale r = max (n_scale n1) (n_scale n2 + scale)"
    using bc_divmod_ok [OF assms] by blast
  then show thesis using that by (auto simp: bc_modulo_def)
qed

end
