(* ===== verification/Bc_Raise.thy ===== *)
theory Bc_Raise
  imports Bc_Div
begin

text \<open>
  Powers of arbitrary precision numbers, from \<^verbatim>\<open>functions/number.c\<close>: \<open>bc_raise\<close> with a machine integer
  exponent and \<open>bc_raisemod\<close> with an arbitrary one, both by repeated squaring. The warnings of
  \<open>rt_warn\<close> and \<open>rt_error\<close> (which are the same macro) are returned beside the result.
\<close>

subsection \<open>The model\<close>

text \<open>A call whose status is ignored leaves the old value in place when it fails.\<close>

definition keep :: "'a \<Rightarrow> 'a option \<Rightarrow> 'a" where
  "keep old res = (case res of Some v \<Rightarrow> v | None \<Rightarrow> old)"

lemma keep_simps [simp]: "keep old (Some v) = v" "keep old None = old"
  by (simp_all add: keep_def)

text \<open>
  The first loop squares while the exponent is even; the exponent is positive there, and the test on 0
  only makes the recursion total. \<open>rscale\<close> is an \<open>int\<close>; \<open>bc_multiply\<close> takes its maximum with scales that
  are not negative.
\<close>

function raise_even :: "bc_num \<Rightarrow> nat \<Rightarrow> int \<Rightarrow> bc_num \<times> nat" where
  "raise_even pw exponent rscale =
     (if exponent \<noteq> 0 \<and> exponent mod 2 = 0
      then raise_even (bc_multiply pw pw (nat rscale)) (exponent div 2) rscale
      else (pw, exponent))"
  by pat_completeness auto
termination by (relation "measure (\<lambda>(p, e, r). e)") auto

function raise_loop :: "bc_num \<Rightarrow> bc_num \<Rightarrow> nat \<Rightarrow> int \<Rightarrow> bc_num" where
  "raise_loop temp pw exponent rscale =
     (if exponent > 0
      then let pw = bc_multiply pw pw (nat rscale);
               temp = (if exponent mod 2 = 1 then bc_multiply temp pw (nat rscale) else temp)
           in raise_loop temp pw (exponent div 2) rscale
      else temp)"
  by pat_completeness auto
termination by (relation "measure (\<lambda>(t, p, e, r). e)") auto

declare raise_even.simps [simp del] raise_loop.simps [simp del]

definition bc_raise :: "bc_num \<Rightarrow> bc_num \<Rightarrow> bc_num \<Rightarrow> nat \<Rightarrow> bc_num \<times> string list" where
  "bc_raise num1 num2 result scale =
     (let exponent = num2long num2;
          warnings = (if n_scale num2 \<noteq> 0 then [''non-zero scale in exponent''] else []) @
            (if exponent = 0 \<and> (n_len num2 > 1 \<or> hd (n_value num2) \<noteq> 0) then [''exponent too large in raise''] else [])
      in if exponent = 0 then (bc_one, warnings)
         else
           let neg = (exponent < 0);
               rscale = (if neg then int scale
                         else wrap_int (min (wrap_long (int (n_scale num1) * exponent)) (int (max scale (n_scale num1)))))
           in case raise_even num1 (nat \<bar>exponent\<bar>) rscale of (pw, e) \<Rightarrow>
                let temp = raise_loop pw pw (e div 2) rscale
                in (if neg then keep result (bc_divide bc_one temp scale) else temp, warnings))"

text \<open>\<open>bc_raisemod\<close>: its loop ends when the exponent is 0; \<open>None\<close> is a loop that does not end.\<close>

partial_function (option) raisemod_loop ::
  "bc_num \<Rightarrow> bc_num \<Rightarrow> bc_num \<Rightarrow> bc_num \<Rightarrow> bc_num \<Rightarrow> nat \<Rightarrow> nat \<Rightarrow> bc_num option" where
  "raisemod_loop exponent parity temp pw m rscale scale =
     (if is_zero exponent then Some temp
      else case keep (exponent, parity) (bc_divmod exponent bc_two 0) of (exponent, parity) \<Rightarrow>
        let temp = (if \<not> is_zero parity
                    then let t = bc_multiply temp pw rscale in keep t (bc_modulo t m scale)
                    else temp);
            p = bc_multiply pw pw rscale
        in raisemod_loop exponent parity temp (keep p (bc_modulo p m scale)) m rscale scale)"

datatype raisemod_result = Raisemod_Error | Raisemod_OK bc_num "string list"

definition bc_raisemod :: "bc_num \<Rightarrow> bc_num \<Rightarrow> bc_num \<Rightarrow> nat \<Rightarrow> raisemod_result option" where
  "bc_raisemod base expo m scale =
     (if is_zero m \<or> is_neg expo then Some Raisemod_Error
      else
        let exponent = (if n_scale expo \<noteq> 0 then keep expo (bc_divide expo bc_one 0) else expo);
            warnings = (if n_scale expo \<noteq> 0 then [''non-zero scale in exponent''] else []) @
              (if n_scale m \<noteq> 0 then [''non-zero scale in modulus''] else [])
        in map_option (\<lambda>r. Raisemod_OK r warnings)
             (raisemod_loop exponent bc_zero bc_one base m (max scale (n_scale base)) scale))"

subsection \<open>Powers with an exact scale\<close>

lemma power_scales:
  assumes "s * e \<le> r" "0 < e"
  shows "s \<le> (r::nat)"
  using assms by (metis One_nat_def Suc_leI le_trans mult.right_neutral mult_le_mono2)

lemma raise_even_ok:
  assumes "bc_wf pw" "0 < e" "n_scale pw * e \<le> nat r" "raise_even pw e r = (p, e')"
  shows "bc_wf p \<and> odd e' \<and> bc_val p ^ e' = bc_val pw ^ e \<and> n_scale p * e' = n_scale pw * e"
  using assms
proof (induction pw e r arbitrary: p e' rule: raise_even.induct)
  case (1 pw e r)
  show ?case
  proof (cases "e mod 2 = 0")
    case False
    with 1(5) have "p = pw" "e' = e" by (simp_all add: raise_even.simps [of pw])
    with 1(2) False show ?thesis by (simp add: odd_iff_mod_2_eq_one)
  next
    case True
    then obtain k where k: "e = 2 * k" by auto
    have k0: "0 < k" using 1(3) k by simp
    let ?q = "bc_multiply pw pw (nat r)"
    have "n_scale pw + n_scale pw \<le> nat r"
      using power_scales [of "n_scale pw + n_scale pw" k "nat r"] 1(4) k k0 by (simp add: algebra_simps)
    then have "n_scale pw + n_scale pw \<le> max (nat r) (max (n_scale pw) (n_scale pw))" by simp
    note m = bc_multiply_exact [OF 1(2,2) this]
    have "raise_even ?q k r = (p, e')" using 1(5) True k k0 by (simp add: raise_even.simps [of pw])
    with 1(1) [of p e'] 1(3,4) True k k0 m bc_multiply_ok(1) [OF 1(2,2), of "nat r"]
    have "bc_wf p \<and> odd e' \<and> bc_val p ^ e' = bc_val ?q ^ k \<and> n_scale p * e' = n_scale ?q * k"
      by (simp add: algebra_simps)
    then show ?thesis unfolding m k by (simp add: power_mult power2_eq_square algebra_simps)
  qed
qed

lemma raise_loop_ok:
  assumes "bc_wf temp" "bc_wf pw" "n_scale temp + n_scale pw * 2 * e \<le> nat r"
  shows "bc_wf (raise_loop temp pw e r) \<and> bc_val (raise_loop temp pw e r) = bc_val temp * bc_val pw ^ (2 * e) \<and>
    n_scale (raise_loop temp pw e r) = n_scale temp + n_scale pw * 2 * e"
  using assms
proof (induction temp pw e r rule: raise_loop.induct)
  case (1 temp pw e r)
  show ?case
  proof (cases "e = 0")
    case True
    with 1 show ?thesis by (simp add: raise_loop.simps [of temp])
  next
    case False
    let ?p = "bc_multiply pw pw (nat r)"
    have "n_scale pw * 2 * 1 \<le> n_scale pw * 2 * e" using False by (intro mult_left_mono) auto
    then have p2: "n_scale pw + n_scale pw \<le> nat r" "n_scale temp + (n_scale pw + n_scale pw) \<le> nat r"
      using 1(4) by linarith+
    then have "n_scale pw + n_scale pw \<le> max (nat r) (max (n_scale pw) (n_scale pw))" by simp
    note m = bc_multiply_exact [OF 1(3,3) this] and mw = bc_multiply_ok(1) [OF 1(3,3), of "nat r"]
    let ?t = "if e mod 2 = 1 then bc_multiply temp ?p (nat r) else temp"
    have "n_scale temp + n_scale ?p \<le> max (nat r) (max (n_scale temp) (n_scale ?p))" using p2 m(2) by simp
    note mt = bc_multiply_exact [OF 1(2) mw this] and mtw = bc_multiply_ok(1) [OF 1(2) mw, of "nat r"]
    have t: "bc_wf ?t" "bc_val ?t = bc_val temp * bc_val ?p ^ (e mod 2)" "n_scale ?t = n_scale temp + n_scale ?p * (e mod 2)"
      using mt mtw 1(2) by (cases "e mod 2 = 1"; simp)+
    have e: "e = 2 * (e div 2) + e mod 2" by simp
    have sc: "n_scale ?t + n_scale ?p * 2 * (e div 2) = n_scale temp + n_scale pw * 2 * e"
    proof -
      have "n_scale temp + n_scale pw * 2 * e = n_scale temp + n_scale pw * 2 * (2 * (e div 2) + e mod 2)"
        using e by simp
      also have "\<dots> = n_scale ?t + n_scale ?p * 2 * (e div 2)" unfolding t(3) m(2) by (simp only: algebra_simps)
      finally show ?thesis by simp
    qed
    have ih: "bc_wf (raise_loop ?t ?p (e div 2) r) \<and>
        bc_val (raise_loop ?t ?p (e div 2) r) = bc_val ?t * bc_val ?p ^ (2 * (e div 2)) \<and>
        n_scale (raise_loop ?t ?p (e div 2) r) = n_scale ?t + n_scale ?p * 2 * (e div 2)"
      using 1(1) [OF _ refl refl t(1) mw] sc 1(4) False by simp
    have "bc_val ?t * bc_val ?p ^ (2 * (e div 2)) = bc_val temp * bc_val ?p ^ (e mod 2 + 2 * (e div 2))"
      unfolding t(2) by (simp only: power_add mult.assoc)
    also have "\<dots> = bc_val temp * bc_val ?p ^ e" by (simp only: mod_mult_div_eq)
    also have "\<dots> = bc_val temp * bc_val pw ^ (2 * e)" unfolding m(1) by (simp add: power_mult power2_eq_square power_mult_distrib)
    finally have "bc_val ?t * bc_val ?p ^ (2 * (e div 2)) = bc_val temp * bc_val pw ^ (2 * e)" .
    moreover have "raise_loop temp pw e r = raise_loop ?t ?p (e div 2) r"
      using False by (subst raise_loop.simps) (simp add: Let_def)
    ultimately show ?thesis using ih sc by simp
  qed
qed

subsection \<open>\<open>bc_raise\<close>\<close>

definition int_part :: "bc_num \<Rightarrow> nat" where
  "int_part n = dval (take (n_len n) (n_value n))"

lemma int_part_abs: "bc_wf n \<Longrightarrow> int (int_part n) = \<lfloor>bc_abs n\<rfloor>"
proof -
  assume wf: "bc_wf n"
  have "\<lfloor>bc_abs n\<rfloor> = \<lfloor>(of_nat (dval (n_value n)) :: rat) / of_nat (10 ^ n_scale n)\<rfloor>" by (simp add: bc_abs_def)
  also have "\<dots> = int (dval (n_value n) div 10 ^ n_scale n)" by (rule floor_divide_of_nat_eq)
  finally show ?thesis using wf dval_take [of "n_value n" "n_len n"] by (simp add: int_part_def bc_wf_def)
qed

lemma int_part_zero: "bc_wf n \<Longrightarrow> int_part n = 0 \<longleftrightarrow> n_len n = 1 \<and> hd (n_value n) = 0"
proof -
  assume wf: "bc_wf n"
  then obtain d ds where v: "n_value n = d # ds" by (cases "n_value n") (auto simp: bc_wf_def)
  show ?thesis
  proof (cases "n_len n = 1")
    case True
    then show ?thesis by (simp add: int_part_def v dval_Cons)
  next
    case False
    then have "hd (take (n_len n) (n_value n)) \<noteq> 0" "take (n_len n) (n_value n) \<noteq> []"
      using wf by (auto simp: bc_wf_def v take_Cons')
    from dval_ge [OF this(2,1)] have "0 < dval (take (n_len n) (n_value n))" by (rule less_le_trans [rotated]) simp
    then show ?thesis using False by (simp add: int_part_def)
  qed
qed

text \<open>A positive exponent whose exact power the scale has room for.\<close>

lemma rscale_exact:
  assumes "int s * int e < 2 ^ 63" "max scale s < 2 ^ 31" "s * e \<le> max scale s"
  shows "nat (wrap_int (min (wrap_long (int s * int e)) (int (max scale s)))) = s * e"
proof -
  have "wrap_long (int s * int e) = int s * int e" using assms(1) by (simp add: wrap_long_def)
  moreover have "min (int s * int e) (int (max scale s)) = int (s * e)"
    using assms(3) by (metis min.absorb1 of_nat_le_iff of_nat_mult)
  moreover have "s * e < 2 ^ 31" using assms(3,2) by (rule le_less_trans)
  then have "int (s * e) < int (2 ^ 31)" by (simp only: of_nat_less_iff)
  ultimately show ?thesis by (simp add: wrap_int_def nat_mult_distrib)
qed

lemma bc_raise_ok:
  assumes "bc_wf n1" "bc_wf n2" "n_sign n2 = PLUS" "0 < int_part n2" "int (int_part n2) \<le> LONG_MAX"
    "n_scale n1 * int_part n2 \<le> max scale (n_scale n1)" "max scale (n_scale n1) < 2 ^ 31"
  shows "bc_wf (fst (bc_raise n1 n2 res scale))"
    "bc_val (fst (bc_raise n1 n2 res scale)) = bc_val n1 ^ int_part n2"
    "n_scale (fst (bc_raise n1 n2 res scale)) = n_scale n1 * int_part n2"
proof -
  let ?e = "int_part n2" and ?r = "wrap_int (min (wrap_long (int (n_scale n1) * int (int_part n2))) (int (max scale (n_scale n1))))"
  have long: "num2long n2 = int ?e"
    using num2long_ok [OF assms(2)] assms(3,5) by (simp add: int_part_def)
  have "n_scale n1 * ?e < 2 ^ 31" using assms(6,7) by (rule le_less_trans)
  then have "int (n_scale n1 * ?e) < int (2 ^ 31)" by (simp only: of_nat_less_iff)
  then have "int (n_scale n1) * int ?e < 2 ^ 63" by simp
  note rs = rscale_exact [OF this assms(7,6)]
  obtain p e where pe: "raise_even n1 ?e ?r = (p, e)" by fastforce
  have "n_scale n1 * ?e \<le> nat ?r" unfolding rs ..
  from raise_even_ok [OF assms(1,4) this pe] have
    ev: "bc_wf p" "odd e" "bc_val p ^ e = bc_val n1 ^ ?e" "n_scale p * e = n_scale n1 * ?e" by auto
  have e: "e = 1 + 2 * (e div 2)" using ev(2) by presburger
  have sc: "n_scale p + n_scale p * 2 * (e div 2) = n_scale n1 * ?e"
    unfolding ev(4) [symmetric] by (subst (2) e) (simp add: algebra_simps)
  then have "n_scale p + n_scale p * 2 * (e div 2) \<le> nat ?r" unfolding rs by simp
  note lp = raise_loop_ok [OF ev(1,1) this]
  have "fst (bc_raise n1 n2 res scale) = raise_loop p p (e div 2) ?r"
    using long assms(4) pe by (simp add: bc_raise_def Let_def)
  moreover have "bc_val p * bc_val p ^ (2 * (e div 2)) = bc_val p ^ e" by (subst (2) e) simp
  ultimately show "bc_wf (fst (bc_raise n1 n2 res scale))"
    "bc_val (fst (bc_raise n1 n2 res scale)) = bc_val n1 ^ ?e"
    "n_scale (fst (bc_raise n1 n2 res scale)) = n_scale n1 * ?e"
    using lp sc ev(3) by simp_all
qed

text \<open>An exponent that is not a long (or is a zero) gives 1; the former with a warning.\<close>

lemma num2long_loop_wrapped: "0 < i \<Longrightarrow> v > LONG_MAX div 10 \<Longrightarrow> num2long_loop i ds v = (i, v)"
  by (cases i; cases ds) auto

lemma bc_raise_zero:
  "int_part n2 = 0 \<Longrightarrow> bc_wf n2 \<Longrightarrow>
    bc_raise n1 n2 res scale = (bc_one, if n_scale n2 \<noteq> 0 then [''non-zero scale in exponent''] else [])"
proof -
  assume a: "int_part n2 = 0" "bc_wf n2"
  then have "num2long n2 = 0" using num2long_ok [OF a(2)] by (simp add: int_part_def LONG_MAX_def)
  with a int_part_zero [OF a(2)] show ?thesis by (simp add: bc_raise_def Let_def)
qed

lemma minus_less: "bc_val n \<noteq> 0 \<Longrightarrow> n_sign n = MINUS \<longleftrightarrow> bc_val n < 0"
proof -
  assume nz: "bc_val n \<noteq> 0"
  have "0 \<le> bc_abs n" by (rule bc_abs_nonneg)
  then have "0 < bc_abs n" using nz by (simp add: bc_val_def less_le)
  then show ?thesis by (cases "n_sign n") (simp_all add: bc_val_def)
qed

text \<open>The warnings, and an exponent that does not fit.\<close>

lemma bc_raise_warnings:
  assumes "bc_wf n2" "int (int_part n2) \<le> LONG_MAX"
  shows "snd (bc_raise n1 n2 res scale) = (if n_scale n2 \<noteq> 0 then [''non-zero scale in exponent''] else [])"
proof (cases "int_part n2 = 0")
  case True
  then show ?thesis using bc_raise_zero [OF True assms(1)] by simp
next
  case False
  then have "num2long n2 \<noteq> 0" using num2long_ok [OF assms(1)] assms(2) by (simp add: int_part_def)
  then show ?thesis by (simp add: bc_raise_def Let_def split: prod.splits)
qed

lemma bc_raise_too_large:
  assumes "bc_wf n2" "LONG_MAX < int (int_part n2)" "\<not> hidden_overflow (int_part n2)"
  shows "bc_raise n1 n2 res scale =
    (bc_one, (if n_scale n2 \<noteq> 0 then [''non-zero scale in exponent''] else []) @ [''exponent too large in raise''])"
proof -
  have "num2long n2 = 0" using num2long_overflow [OF assms(1)] assms(2,3) by (simp add: int_part_def)
  moreover have "n_len n2 > 1 \<or> hd (n_value n2) \<noteq> 0" using int_part_zero [OF assms(1)] assms(1,2) by (force simp: LONG_MAX_def bc_wf_def)
  ultimately show ?thesis by (simp add: bc_raise_def Let_def)
qed

text \<open>A negative exponent: the quotient of 1 by the exact power, for integers.\<close>

lemma bc_raise_neg:
  assumes "bc_wf n1" "n_scale n1 = 0" "bc_wf n2" "n_sign n2 = MINUS" "0 < int_part n2" "int (int_part n2) \<le> LONG_MAX"
  shows "\<not> is_zero n1 \<Longrightarrow> bc_wf (fst (bc_raise n1 n2 res scale)) \<and> n_scale (fst (bc_raise n1 n2 res scale)) = scale \<and>
      bc_val (fst (bc_raise n1 n2 res scale)) =
        (if bc_val n1 < 0 \<and> odd (int_part n2) then - 1 else 1) * cut scale (1 / bc_abs n1 ^ int_part n2)"
    "is_zero n1 \<Longrightarrow> fst (bc_raise n1 n2 res scale) = res"
proof -
  let ?e = "int_part n2"
  have long: "num2long n2 = - int ?e"
    using num2long_ok [OF assms(3)] assms(4,6) by (simp add: int_part_def)
  obtain p e where pe: "raise_even n1 ?e (int scale) = (p, e)" by fastforce
  from raise_even_ok [OF assms(1,5) _ pe] assms(2) have
    ev: "bc_wf p" "odd e" "bc_val p ^ e = bc_val n1 ^ ?e" "n_scale p * e = 0" by auto
  have e: "e = 1 + 2 * (e div 2)" using ev(2) by presburger
  then have "n_scale p = 0" using ev(4) by (metis add_is_0 mult_is_0 one_neq_zero)
  then have "n_scale p + n_scale p * 2 * (e div 2) \<le> nat (int scale)" by simp
  note lp = raise_loop_ok [OF ev(1,1) this]
  let ?t = "raise_loop p p (e div 2) (int scale)"
  have "bc_val p * bc_val p ^ (2 * (e div 2)) = bc_val p ^ e" by (subst (2) e) simp
  then have t: "bc_wf ?t" "bc_val ?t = bc_val n1 ^ ?e" using lp ev(3) by auto
  have r: "fst (bc_raise n1 n2 res scale) = keep res (bc_divide bc_one ?t scale)"
    using long assms(5) pe by (simp add: bc_raise_def Let_def)
  have z: "is_zero ?t \<longleftrightarrow> is_zero n1" using assms(5) t by (simp add: is_zero_val [OF t(1)] is_zero_val [OF assms(1)])
  show "is_zero n1 \<Longrightarrow> fst (bc_raise n1 n2 res scale) = res"
    using r z bc_divide_none [of bc_one ?t scale] by simp
  have abs: "bc_abs ?t = bc_abs n1 ^ ?e" by (simp add: bc_abs_val t(2) power_abs)
  have one: "bc_abs bc_one = 1" by (simp add: bc_abs_val)
  show "\<not> is_zero n1 \<Longrightarrow> bc_wf (fst (bc_raise n1 n2 res scale)) \<and> n_scale (fst (bc_raise n1 n2 res scale)) = scale \<and>
      bc_val (fst (bc_raise n1 n2 res scale)) = (if bc_val n1 < 0 \<and> odd ?e then - 1 else 1) * cut scale (1 / bc_abs n1 ^ ?e)"
  proof -
    assume "\<not> is_zero n1"
    then have nz: "\<not> is_zero ?t" using z by simp
    then have "bc_val ?t \<noteq> 0" using is_zero_val [OF t(1)] by simp
    then have "n_sign ?t = MINUS \<longleftrightarrow> bc_val ?t < 0" by (rule minus_less)
    then have sgn: "n_sign ?t = MINUS \<longleftrightarrow> bc_val n1 < 0 \<and> odd ?e" unfolding t(2) power_less_zero_eq by blast
    from bc_divide_ok [OF bc_wf_constants(2) t(1) nz, of scale] obtain q where
      q: "bc_divide bc_one ?t scale = Some q" "bc_wf q" "n_scale q = scale" "bc_abs q = cut scale (1 / bc_abs n1 ^ ?e)"
      "n_sign q = (if is_zero q \<or> n_sign bc_one = n_sign ?t then PLUS else MINUS)"
      unfolding one abs by blast
    have "bc_val q = (if bc_val n1 < 0 \<and> odd ?e then - 1 else 1) * bc_abs q"
      using q(5) sgn is_zero_abs [OF q(2)] by (cases "n_sign ?t") (auto simp: bc_val_def bc_one_def)
    then show ?thesis using q(1-4) by (simp add: r)
  qed
qed

subsection \<open>\<open>bc_raisemod\<close>\<close>

text \<open>Numbers without a fraction are integers.\<close>

definition int_val :: "bc_num \<Rightarrow> int" where
  "int_val n = (if n_sign n = PLUS then 1 else - 1) * int (dval (n_value n))"

definition bc_int :: "bc_num \<Rightarrow> bool" where
  "bc_int n \<longleftrightarrow> bc_wf n \<and> n_scale n = 0"

lemma bc_val_int: "bc_int n \<Longrightarrow> bc_val n = of_int (int_val n)"
  by (cases "n_sign n") (simp_all add: bc_int_def bc_val_def bc_abs_def int_val_def)

lemma bc_abs_int: "bc_int n \<Longrightarrow> bc_abs n = of_int \<bar>int_val n\<bar>"
  by (simp add: bc_abs_val bc_val_int)

lemma is_zero_int: "bc_int n \<Longrightarrow> is_zero n \<longleftrightarrow> int_val n = 0"
  by (simp add: is_zero_val bc_int_def bc_val_int)

lemma int_constants [simp]: "bc_int bc_zero" "bc_int bc_one" "bc_int bc_two" "int_val bc_one = 1" "int_val bc_two = 2"
  by (simp_all add: bc_int_def) (simp_all add: bc_zero_def bc_one_def bc_two_def int_val_def dval_def)

lemma bc_multiply_int:
  assumes "bc_int a" "bc_int b"
  shows "bc_int (bc_multiply a b s)" "int_val (bc_multiply a b s) = int_val a * int_val b"
proof -
  have w: "bc_wf a" "bc_wf b" and le: "n_scale a + n_scale b \<le> max s (max (n_scale a) (n_scale b))"
    using assms by (simp_all add: bc_int_def)
  note m = bc_multiply_exact [OF w le]
  show i: "bc_int (bc_multiply a b s)" using m(2) bc_multiply_ok(1) [OF w] assms by (simp add: bc_int_def)
  have "(of_int (int_val (bc_multiply a b s)) :: rat) = of_int (int_val a * int_val b)"
    using m(1) bc_val_int [OF i] assms by (simp add: bc_val_int)
  then show "int_val (bc_multiply a b s) = int_val a * int_val b" by (simp only: of_int_eq_iff)
qed

lemma cut_int: "cut 0 (of_int a / of_int b) = of_int (a div b)"
  by (simp add: cut_def floor_divide_of_int_eq)

lemma bc_divmod_int:
  assumes "bc_int a" "bc_int b" "int_val b \<noteq> 0"
  obtains q r where "bc_divmod a b 0 = Some (q, r)" "bc_int q" "bc_int r"
    "int_val a = int_val q * int_val b + int_val r" "\<bar>int_val r\<bar> < \<bar>int_val b\<bar>" "\<bar>int_val q\<bar> = \<bar>int_val a\<bar> div \<bar>int_val b\<bar>"
proof -
  have w: "bc_wf a" "bc_wf b" "n_scale a = 0" "n_scale b = 0" using assms(1,2) by (auto simp: bc_int_def)
  have nz: "\<not> is_zero b" using assms(2,3) is_zero_int by blast
  obtain q r where d: "bc_divmod a b 0 = Some (q, r)" "bc_divide a b 0 = Some q" "bc_wf q" "bc_wf r"
    "bc_val a = bc_val q * bc_val b + bc_val r" "bc_abs r < bc_abs b / 10 ^ 0" "n_scale r = max (n_scale a) (n_scale b + 0)"
    using bc_divmod_ok [OF w(1,2) nz, of 0] by blast
  obtain q' where q': "bc_divide a b 0 = Some q'" "n_scale q' = 0" "bc_abs q' = cut 0 (bc_abs a / bc_abs b)"
    using bc_divide_ok [OF w(1,2) nz, of 0] by blast
  have i: "bc_int q" "bc_int r" using d q' w by (auto simp: bc_int_def)
  have "(of_int (int_val a) :: rat) = of_int (int_val q * int_val b + int_val r)"
    using d(5) assms i by (simp add: bc_val_int)
  then have e: "int_val a = int_val q * int_val b + int_val r" by (simp only: of_int_eq_iff)
  have "(of_int \<bar>int_val r\<bar> :: rat) < of_int \<bar>int_val b\<bar>" using d(6) assms i by (simp add: bc_abs_int)
  then have lt: "\<bar>int_val r\<bar> < \<bar>int_val b\<bar>" by (simp only: of_int_less_iff)
  have "bc_abs q = cut 0 (of_int \<bar>int_val a\<bar> / of_int \<bar>int_val b\<bar>)"
    using q' d(2) bc_abs_int [OF assms(1)] bc_abs_int [OF assms(2)] by simp
  then have "(of_int \<bar>int_val q\<bar> :: rat) = of_int (\<bar>int_val a\<bar> div \<bar>int_val b\<bar>)"
    unfolding cut_int bc_abs_int [OF i(1)] .
  then have "\<bar>int_val q\<bar> = \<bar>int_val a\<bar> div \<bar>int_val b\<bar>" by (simp only: of_int_eq_iff)
  with d(1) i e lt show thesis by (rule that)
qed

lemma bc_divmod_two:
  assumes "bc_int a" "0 \<le> int_val a"
  obtains q r where "bc_divmod a bc_two 0 = Some (q, r)" "bc_int q" "bc_int r" "int_val q = int_val a div 2"
    "int_val r = int_val a mod 2"
proof -
  obtain q r where d: "bc_divmod a bc_two 0 = Some (q, r)" "bc_int q" "bc_int r" "int_val a = int_val q * 2 + int_val r"
    "\<bar>int_val r\<bar> < 2" "\<bar>int_val q\<bar> = int_val a div 2"
    using bc_divmod_int [OF assms(1), of bc_two] assms(2) by auto
  have "int_val q = int_val a div 2"
  proof (rule ccontr)
    assume "int_val q \<noteq> int_val a div 2"
    then have "int_val q < 0" "int_val q = - (int_val a div 2)" using d(6) by linarith+
    then show False using d(4,5) assms(2) by presburger
  qed
  moreover from this have "int_val r = int_val a mod 2" using d(4) by presburger
  ultimately show thesis using that d by blast
qed

lemma bc_modulo_int:
  assumes "bc_int a" "bc_int b" "int_val b \<noteq> 0"
  obtains r where "bc_modulo a b 0 = Some r" "bc_int r" "\<bar>int_val r\<bar> < \<bar>int_val b\<bar>" "int_val b dvd int_val a - int_val r"
proof -
  obtain q r where d: "bc_divmod a b 0 = Some (q, r)" "bc_int q" "bc_int r"
    "int_val a = int_val q * int_val b + int_val r" "\<bar>int_val r\<bar> < \<bar>int_val b\<bar>"
    using bc_divmod_int [OF assms] by metis
  have "int_val b dvd int_val a - int_val r" using d(4) by simp
  with d show thesis using that by (simp add: bc_modulo_def)
qed

text \<open>Congruence, as divisibility of the difference.\<close>

lemma dvd_diff_mult: "m dvd a - b \<Longrightarrow> m dvd c - d \<Longrightarrow> m dvd a * c - b * d" for m :: int
proof -
  assume "m dvd a - b" "m dvd c - d"
  then have "m dvd (a - b) * c + b * (c - d)" by simp
  then show ?thesis by (simp add: algebra_simps)
qed

lemma dvd_diff_power: "m dvd a - b \<Longrightarrow> m dvd a ^ n - b ^ n" for m :: int
  by (induction n) (auto intro: dvd_diff_mult)

lemma dvd_diff_trans: "m dvd a - b \<Longrightarrow> m dvd b - c \<Longrightarrow> m dvd a - c" for m :: int
  using dvd_add [of m "a - b" "b - c"] by simp

lemma raisemod_loop_ok:
  assumes "bc_int m" "int_val m \<noteq> 0"
  shows "bc_int ex \<Longrightarrow> int_val ex = int n \<Longrightarrow> bc_int temp \<Longrightarrow> bc_int pw \<Longrightarrow>
    \<exists>r. raisemod_loop ex parity temp pw m rs 0 = Some r \<and> bc_int r \<and>
      int_val m dvd int_val temp * int_val pw ^ n - int_val r \<and>
      (n = 0 \<longrightarrow> r = temp) \<and> (0 < n \<longrightarrow> \<bar>int_val r\<bar> < \<bar>int_val m\<bar>)"
proof (induction n arbitrary: ex parity temp pw rule: less_induct)
  case (less n)
  show ?case
  proof (cases "n = 0")
    case True
    then have "raisemod_loop ex parity temp pw m rs 0 = Some temp"
      using less.prems is_zero_int [of ex] by (subst raisemod_loop.simps) simp
    with True less.prems show ?thesis by simp
  next
    case False
    then have nz: "\<not> is_zero ex" using less.prems is_zero_int [of ex] by simp
    obtain q r where d: "bc_divmod ex bc_two 0 = Some (q, r)" "bc_int q" "bc_int r" "int_val q = int (n div 2)"
      "int_val r = int (n mod 2)"
      using bc_divmod_two [OF less.prems(1)] less.prems(2) by (auto simp: zdiv_int zmod_int)
    have mul: "bc_int (bc_multiply a b rs)" "int_val (bc_multiply a b rs) = int_val a * int_val b"
      if "bc_int a" "bc_int b" for a b using bc_multiply_int [OF that] by blast+
    obtain t where t: "bc_modulo (bc_multiply temp pw rs) m 0 = Some t" "bc_int t" "\<bar>int_val t\<bar> < \<bar>int_val m\<bar>"
      "int_val m dvd int_val temp * int_val pw - int_val t"
      using bc_modulo_int [OF mul(1) assms, OF less.prems(3,4)] mul(2) [OF less.prems(3,4)] by metis
    obtain p where p: "bc_modulo (bc_multiply pw pw rs) m 0 = Some p" "bc_int p"
      "int_val m dvd int_val pw * int_val pw - int_val p"
      using bc_modulo_int [OF mul(1) assms, OF less.prems(4,4)] mul(2) [OF less.prems(4,4)] by metis
    define temp' where "temp' = (if odd n then t else temp)"
    have t': "bc_int temp'" "int_val m dvd int_val temp * int_val pw ^ (n mod 2) - int_val temp'"
      using t(2,4) less.prems(3) by (auto simp: temp'_def odd_iff_mod_2_eq_one even_iff_mod_2_eq_zero)
    have zr: "is_zero r \<longleftrightarrow> even n" using is_zero_int [OF d(3)] d(5) by (auto simp: even_iff_mod_2_eq_zero)
    have step: "raisemod_loop ex parity temp pw m rs 0 = raisemod_loop q r temp' p m rs 0"
      using nz d(1) t(1) p(1) zr by (subst raisemod_loop.simps) (simp add: Let_def temp'_def)
    obtain s where s: "raisemod_loop q r temp' p m rs 0 = Some s" "bc_int s"
      "int_val m dvd int_val temp' * int_val p ^ (n div 2) - int_val s"
      "n div 2 = 0 \<longrightarrow> s = temp'" "0 < n div 2 \<longrightarrow> \<bar>int_val s\<bar> < \<bar>int_val m\<bar>"
      using less.IH [of "n div 2" q temp' p r] False d(2,4) t'(1) p(2) by auto
    have n: "n = n mod 2 + 2 * (n div 2)" by simp
    have "int_val temp * int_val pw ^ n = int_val temp * int_val pw ^ (n mod 2) * (int_val pw * int_val pw) ^ (n div 2)"
      by (subst n) (simp only: power_add power_mult power2_eq_square mult.assoc)
    moreover have "int_val m dvd int_val temp * int_val pw ^ (n mod 2) * (int_val pw * int_val pw) ^ (n div 2) -
        int_val temp' * int_val p ^ (n div 2)"
      by (intro dvd_diff_mult t'(2) dvd_diff_power p(3))
    ultimately have "int_val m dvd int_val temp * int_val pw ^ n - int_val s"
      using dvd_diff_trans [OF _ s(3)] by (simp only:)
    moreover have "\<bar>int_val s\<bar> < \<bar>int_val m\<bar>"
    proof (cases "n div 2 = 0")
      case True
      with False have "n = 1" by simp
      with True s(4) t(3) show ?thesis by (simp add: temp'_def)
    qed (use s(5) in simp)
    ultimately show ?thesis using step s(1,2) False by auto
  qed
qed

lemma bc_raisemod_ok:
  assumes "bc_int base" "bc_int expo" "bc_int m" "n_sign expo = PLUS" "\<not> is_zero m"
  obtains r where "bc_raisemod base expo m 0 = Some (Raisemod_OK r [])" "bc_int r"
    "int_val m dvd int_val base ^ nat (int_val expo) - int_val r"
    "int_val expo = 0 \<Longrightarrow> r = bc_one" "0 < int_val expo \<Longrightarrow> \<bar>int_val r\<bar> < \<bar>int_val m\<bar>"
proof -
  have m: "int_val m \<noteq> 0" using assms(3,5) is_zero_int by blast
  have e: "int_val expo = int (nat (int_val expo))" using assms(4) by (simp add: int_val_def)
  obtain r where r: "raisemod_loop expo bc_zero bc_one base m 0 0 = Some r" "bc_int r"
    "int_val m dvd int_val base ^ nat (int_val expo) - int_val r"
    "nat (int_val expo) = 0 \<longrightarrow> r = bc_one" "0 < nat (int_val expo) \<longrightarrow> \<bar>int_val r\<bar> < \<bar>int_val m\<bar>"
    using raisemod_loop_ok [OF assms(3) m assms(2) e, of bc_one base bc_zero 0] assms(1) by auto
  have "n_scale base = 0" "n_scale expo = 0" "n_scale m = 0" using assms by (simp_all add: bc_int_def)
  then have "bc_raisemod base expo m 0 = Some (Raisemod_OK r [])"
    using r(1) assms(4,5) by (simp add: bc_raisemod_def Let_def is_neg_def)
  with r show thesis using that by auto
qed

end
