(* ===== verification/Bc_Sqrt.thy ===== *)
theory Bc_Sqrt
  imports Bc_Raise
begin

text \<open>
  Square roots of arbitrary precision numbers: \<open>bc_sqrt\<close> of \<^verbatim>\<open>functions/number.c\<close>, Newton's iteration on
  truncated decimals, with a working scale that starts at 3 and triples up to one more than the
  scale asked for. The iteration is shown to end for every operand, the result to be correct to the last
  digit for operands from \<open>10 ^ -6\<close> on, and to be 0 for the smaller ones.
\<close>

subsection \<open>The model\<close>

text \<open>\<open>is_near_zero\<close>: the loop leaves the count and the digit it looked at last.\<close>

fun near_zero_loop :: "nat \<Rightarrow> nat list \<Rightarrow> nat \<times> nat" where
  "near_zero_loop (Suc count) (d # ds) = (if d = 0 then near_zero_loop count ds else (Suc count, d))"
| "near_zero_loop count ds = (count, 0)"

definition is_near_zero :: "bc_num \<Rightarrow> nat \<Rightarrow> bool" where
  "is_near_zero num scale =
     (case near_zero_loop (n_len num + scale) (n_value num) of
       (count, d) \<Rightarrow> if count \<noteq> 0 \<and> (count \<noteq> 1 \<or> d \<noteq> 1) then False else True)"

definition point5 :: bc_num where
  "point5 = \<lparr>n_sign = PLUS, n_len = 1, n_scale = 1, n_value = [0, 5]\<rparr>"

text \<open>
  The loop; a division by a guess of 0 fails and leaves the guess as it is. \<open>None\<close> is a loop that does
  not end.
\<close>

definition newton_step :: "bc_num \<Rightarrow> bc_num \<Rightarrow> nat \<Rightarrow> bc_num" where
  "newton_step num guess cscale =
     bc_multiply (bc_add (keep guess (bc_divide num guess cscale)) guess 0) point5 cscale"

partial_function (option) sqrt_loop :: "bc_num \<Rightarrow> nat \<Rightarrow> bc_num \<Rightarrow> nat \<Rightarrow> bc_num option" where
  "sqrt_loop num rscale guess cscale =
     (let guess1 = guess;
          guess = newton_step num guess1 cscale;
          diff = bc_sub guess guess1 (cscale + 1)
      in if is_near_zero diff cscale
         then if cscale < rscale + 1 then sqrt_loop num rscale guess (min (cscale * 3) (rscale + 1)) else Some guess
         else sqrt_loop num rscale guess cscale)"

text \<open>The first guess; \<open>guess1->n_scale = 0\<close> drops the fraction but not its digit.\<close>

definition first_root :: "bc_num \<Rightarrow> bc_num option" where
  "first_root num =
     (if bc_compare num bc_one < 0 then Some bc_one
      else do {
        guess \<leftarrow> int2num 10;
        guess1 \<leftarrow> int2num (int (n_len num));
        let guess1 = (bc_multiply guess1 point5 0)\<lparr>n_scale := 0\<rparr>;
        Some (fst (bc_raise guess guess1 guess 0)) })"

text \<open>The status and the number; \<open>None\<close> again for a loop that does not end.\<close>

definition bc_sqrt :: "bc_num \<Rightarrow> nat \<Rightarrow> (int \<times> bc_num) option" where
  "bc_sqrt num scale =
     (if bc_compare num bc_zero < 0 then Some (0, num)
      else if bc_compare num bc_zero = 0 then Some (1, bc_zero)
      else if bc_compare num bc_one = 0 then Some (1, bc_one)
      else
        let rscale = max scale (n_scale num)
        in do {
          guess \<leftarrow> first_root num;
          guess \<leftarrow> sqrt_loop num rscale guess 3;
          Some (1, keep num (bc_divide guess bc_one rscale))
        })"

subsection \<open>Newton's iteration on natural numbers\<close>

definition nstep :: "nat \<Rightarrow> nat \<Rightarrow> nat" where
  "nstep X G = (X div G + G) div 2"

definition is_root :: "nat \<Rightarrow> nat \<Rightarrow> bool" where
  "is_root s X \<longleftrightarrow> s * s \<le> X \<and> X < (s + 1) * (s + 1)"

lemma root_exists: "\<exists>s. is_root s X"
proof (induction X)
  case 0
  have "is_root 0 0" by (simp add: is_root_def)
  then show ?case ..
next
  case (Suc X)
  then obtain s where s: "s * s \<le> X" "X < (s + 1) * (s + 1)" by (auto simp: is_root_def)
  show ?case
  proof (cases "Suc X < (s + 1) * (s + 1)")
    case True
    with s show ?thesis by (intro exI [of _ s]) (simp add: is_root_def)
  next
    case False
    with s(2) have "Suc X = (s + 1) * (s + 1)" by simp
    then have "is_root (s + 1) (Suc X)" by (simp add: is_root_def)
    then show ?thesis ..
  qed
qed

lemma div_times_less: "0 < G \<Longrightarrow> X < (X div G + 1) * G" for G :: nat
  using quot_less [of G X] by simp

text \<open>A step never goes below the root, and goes down from above it.\<close>

lemma nstep_ge:
  assumes "is_root s X" "0 < G"
  shows "s \<le> nstep X G"
proof (rule ccontr)
  assume "\<not> s \<le> nstep X G"
  then have "X div G + G < 2 * s" by (simp add: nstep_def)
  then have "X div G + 1 + G \<le> 2 * s" by simp
  then have ge: "int (X div G + 1) \<le> 2 * int s - int G" by simp
  have "X < (X div G + 1) * G" by (rule div_times_less [OF assms(2)])
  then have "int X < int (X div G + 1) * int G" by (simp only: of_nat_less_iff flip: of_nat_mult)
  also have "\<dots> \<le> (2 * int s - int G) * int G" using ge by (intro mult_right_mono) auto
  also have "\<dots> = int s * int s - (int s - int G) * (int s - int G)" by (simp add: algebra_simps)
  also have "\<dots> \<le> int s * int s" by simp
  also have "\<dots> \<le> int X" using assms(1) unfolding is_root_def by (metis of_nat_le_iff of_nat_mult)
  finally show False by simp
qed

lemma nstep_less:
  assumes "is_root s X" "s < G"
  shows "nstep X G < G"
proof -
  have "X < G * G"
  proof -
    have "(s + 1) * (s + 1) \<le> G * G" using assms(2) by (intro mult_mono) auto
    with assms(1) show ?thesis by (simp add: is_root_def)
  qed
  then have "X div G < G" by (simp add: less_mult_imp_div_less)
  then show ?thesis by (simp add: nstep_def)
qed

lemma nstep_root:
  assumes "is_root s X" "0 < s"
  shows "nstep X s \<le> s + 1"
proof -
  have "X < (s + 3) * s" using assms by (simp add: is_root_def algebra_simps)
  then have "X div s < s + 3" by (rule less_mult_imp_div_less)
  then show ?thesis by (simp add: nstep_def)
qed

text \<open>Where the iteration stops, it is at the root or one above.\<close>

lemma nstep_near:
  assumes "is_root s X" "0 < G" "\<bar>int (nstep X G) - int G\<bar> \<le> 1"
  shows "nstep X G = s \<or> nstep X G = s + 1"
proof -
  have ge: "s \<le> nstep X G" by (rule nstep_ge [OF assms(1,2)])
  have "nstep X G \<le> s + 1"
  proof (cases "G \<le> s")
    case True
    with assms(3) show ?thesis by linarith
  next
    case False
    then have lt: "nstep X G < G" using nstep_less [OF assms(1)] by simp
    then have G: "nstep X G = G - 1" using assms(3) by linarith
    show ?thesis
    proof (cases "G \<le> 2")
      case True
      with G show ?thesis by simp
    next
      case big: False
      have "2 * (G - 1) \<le> X div G + G" using G unfolding nstep_def by simp
      then have "G - 2 \<le> X div G" by simp
      then have "(G - 2) * G \<le> X div G * G" by (rule mult_right_mono) simp
      also have "\<dots> \<le> X" by simp
      also have "\<dots> < (s + 1) * (s + 1)" using assms(1) by (simp add: is_root_def)
      finally have "int ((G - 2) * G) < int ((s + 1) * (s + 1))" by (simp only: of_nat_less_iff)
      then have sq: "(int G - 1) * (int G - 1) \<le> (int s + 1) * (int s + 1)"
        using big by (simp add: of_nat_diff algebra_simps)
      have "int G - 1 \<le> int s + 1"
      proof (rule ccontr)
        assume "\<not> int G - 1 \<le> int s + 1"
        then have "(int s + 1) * (int s + 1) < (int G - 1) * (int G - 1)" by (intro mult_strict_mono) auto
        with sq show False by simp
      qed
      with G show ?thesis by linarith
    qed
  qed
  with ge show ?thesis by linarith
qed

subsection \<open>The steps of the loop\<close>

lemma near_zero_loop_ok:
  "c \<le> length ds \<Longrightarrow> near_zero_loop c ds = (k, d) \<Longrightarrow> (k = 0 \<or> k = 1 \<and> d = 1) \<longleftrightarrow> dval (take c ds) \<le> 1"
proof (induction c ds rule: near_zero_loop.induct)
  case (1 c e ds)
  show ?case
  proof (cases "e = 0")
    case True
    with 1 show ?thesis by (simp add: dval_Cons)
  next
    case False
    then have kd: "k = Suc c" "d = e" using 1(3) by auto
    show ?thesis
    proof (cases "c = 0")
      case True
      with kd False show ?thesis by (auto simp: dval_Cons)
    next
      case c: False
      have "1 * 10 ^ 1 \<le> e * 10 ^ c" using False c by (intro mult_mono power_increasing) auto
      moreover have "dval (take (Suc c) (e # ds)) = e * 10 ^ c + dval (take c ds)" using 1(2) by (simp add: dval_Cons)
      ultimately show ?thesis using kd c by simp
    qed
  qed
qed auto

lemma is_near_zero_ok:
  assumes "bc_wf d" "s \<le> n_scale d" "bc_abs d = of_nat k / 10 ^ s"
  shows "is_near_zero d s \<longleftrightarrow> k \<le> 1"
proof -
  have l: "length (n_value d) = n_len d + n_scale d" "digits_ok (n_value d)" using assms(1) by (auto simp: bc_wf_def)
  obtain j e where nz: "near_zero_loop (n_len d + s) (n_value d) = (j, e)" by fastforce
  have "is_near_zero d s \<longleftrightarrow> dval (take (n_len d + s) (n_value d)) \<le> 1"
    using near_zero_loop_ok [OF _ nz] l assms(2) nz by (auto simp: is_near_zero_def)
  moreover have "dval (take (n_len d + s) (n_value d)) = k"
  proof -
    have "(10::rat) ^ n_scale d = 10 ^ s * 10 ^ (n_scale d - s)" using assms(2) by (simp flip: power_add)
    then have "(of_nat (dval (n_value d)) :: rat) = of_nat (k * 10 ^ (n_scale d - s))"
      using assms(3) by (simp add: bc_abs_def field_simps)
    then have "dval (n_value d) = k * 10 ^ (n_scale d - s)" by (simp only: of_nat_eq_iff)
    moreover have "length (n_value d) - (n_len d + s) = n_scale d - s" using l by simp
    ultimately show ?thesis using dval_take [OF l(2)] by simp
  qed
  ultimately show ?thesis by simp
qed

text \<open>A guess, and the integer it is at a working scale.\<close>

definition guess_ok :: "bc_num \<Rightarrow> nat \<Rightarrow> nat \<Rightarrow> bool" where
  "guess_ok g c G \<longleftrightarrow> bc_wf g \<and> n_sign g = PLUS \<and> n_scale g \<le> c \<and> bc_abs g = of_nat G / 10 ^ c"

definition target :: "bc_num \<Rightarrow> nat \<Rightarrow> nat" where
  "target num c = dval (n_value num) * 10 ^ (2 * c - n_scale num) div 10 ^ (n_scale num - 2 * c)"

lemma guess_ok_scale: "guess_ok g c G \<Longrightarrow> c \<le> c' \<Longrightarrow> guess_ok g c' (G * 10 ^ (c' - c))"
proof -
  assume g: "guess_ok g c G" "c \<le> c'"
  then have "(10::rat) ^ c' = 10 ^ c * 10 ^ (c' - c)" by (simp flip: power_add)
  with g show ?thesis by (simp add: guess_ok_def)
qed

lemma quotient_target:
  assumes "guess_ok g c G"
  shows "cut c (bc_abs num / bc_abs g) = of_nat (target num c div G) / 10 ^ c"
proof -
  let ?s = "n_scale num"
  have "?s - 2 * c + c + c = ?s + (2 * c - ?s)" by simp
  moreover have "bc_abs g = of_nat G / 10 ^ c" using assms by (simp add: guess_ok_def)
  ultimately have "cut c (bc_abs num / bc_abs g) =
      of_nat (dval (n_value num) * 10 ^ (2 * c - ?s) div (10 ^ (?s - 2 * c) * G)) / 10 ^ c"
    using cut_quotient [OF bc_abs_def, of "bc_abs g"] by blast
  then show ?thesis by (simp only: target_def div_mult2_eq)
qed

lemma point5_ok: "bc_wf point5" "n_sign point5 = PLUS" "n_scale point5 = 1" "bc_abs point5 = 1 / 2"
    "bc_val point5 = 1 / 2"
  by (simp_all add: point5_def bc_wf_def bc_val_def bc_abs_def dval_def)

lemma bc_add_sign: "n_sign a = PLUS \<Longrightarrow> n_sign b = PLUS \<Longrightarrow> n_sign (bc_add a b m) = PLUS"
  by (simp add: bc_add_def)

lemma plus_val: "n_sign a = PLUS \<Longrightarrow> bc_val a = bc_abs a"
  by (simp add: bc_val_def)

lemma newton_step_ok:
  assumes num: "bc_wf num" "n_sign num = PLUS" and g: "guess_ok g c G" and c: "1 \<le> c"
  shows "guess_ok (newton_step num g c) c (nstep (target num c) G)"
proof -
  let ?q = "keep g (bc_divide num g c)" and ?X = "target num c"
  have wg: "bc_wf g" "n_sign g = PLUS" "n_scale g \<le> c" "bc_abs g = of_nat G / 10 ^ c"
    using g by (auto simp: guess_ok_def)
  have q: "bc_wf ?q \<and> n_sign ?q = PLUS \<and> n_scale ?q \<le> c \<and> (0 < G \<longrightarrow> n_scale ?q = c) \<and>
      bc_abs ?q = of_nat (?X div G) / 10 ^ c"
  proof (cases "is_zero g")
    case True
    then have "bc_divide num g c = None" by (simp add: bc_divide_none)
    moreover have "G = 0" using True wg by (simp add: is_zero_abs)
    ultimately show ?thesis using wg by simp
  next
    case False
    then obtain r where "bc_divide num g c = Some r" "bc_wf r" "n_scale r = c"
      "bc_abs r = cut c (bc_abs num / bc_abs g)" "n_sign r = (if is_zero r \<or> n_sign num = n_sign g then PLUS else MINUS)"
      using bc_divide_ok [OF num(1) wg(1)] by blast
    then show ?thesis using num(2) wg(2) quotient_target [OF g] by simp
  qed
  let ?a = "bc_add ?q g 0"
  have a: "bc_wf ?a" "n_sign ?a = PLUS" "n_scale ?a = max (n_scale ?q) (n_scale g)"
    "bc_abs ?a = of_nat (?X div G + G) / 10 ^ c"
  proof -
    show w: "bc_wf ?a" "n_scale ?a = max (n_scale ?q) (n_scale g)" using bc_add_ok [of ?q g 0] q wg by simp_all
    show s: "n_sign ?a = PLUS" using q wg by (simp add: bc_add_sign)
    have "bc_abs ?a = bc_abs ?q + bc_abs g" using bc_add_ok(2) [of ?q g 0] q wg s by (simp add: plus_val)
    then show "bc_abs ?a = of_nat (?X div G + G) / 10 ^ c" using q wg by (simp add: add_divide_distrib)
  qed
  let ?ps = "min (n_scale ?a + 1) (max c (max (n_scale ?a) 1))"
  note m = bc_multiply_ok [OF a(1) point5_ok(1), of c, unfolded point5_ok(3,4)]
  have ps: "?ps \<le> c" using a(3) q wg(3) c by auto
  have sign: "n_sign (newton_step num g c) = PLUS" using m(4) a(2) by (simp add: newton_step_def point5_ok)
  have "bc_abs (newton_step num g c) = of_nat (nstep ?X G) / 10 ^ c"
  proof (cases "G = 0")
    case True
    then show ?thesis using m(3) a(4) by (simp add: newton_step_def nstep_def)
  next
    case False
    then have psc: "?ps = c" using a(3) q wg(3) c by simp
    have "bc_abs ?a * (1 / 2) * 10 ^ c = of_nat (?X div G + G) / of_nat 2" unfolding a(4) by simp
    then have "\<lfloor>bc_abs ?a * (1 / 2) * 10 ^ c\<rfloor> = int (nstep ?X G)"
      unfolding nstep_def by (simp only: floor_divide_of_nat_eq)
    then show ?thesis using m(3) unfolding psc newton_step_def by simp
  qed
  then show ?thesis using m(1,2) ps sign by (simp add: guess_ok_def newton_step_def)
qed

lemma sqrt_loop_step:
  assumes num: "bc_wf num" "n_sign num = PLUS" and g: "guess_ok g c G" and c: "1 \<le> c"
  shows "sqrt_loop num r g c =
    (if \<bar>int (nstep (target num c) G) - int G\<bar> \<le> 1
     then if c < r + 1 then sqrt_loop num r (newton_step num g c) (min (c * 3) (r + 1)) else Some (newton_step num g c)
     else sqrt_loop num r (newton_step num g c) c)"
proof -
  let ?n = "newton_step num g c" and ?G = "nstep (target num c) G"
  let ?d = "bc_sub ?n g (c + 1)"
  note n = newton_step_ok [OF assms]
  have w: "bc_wf ?n" "bc_wf g" "n_scale ?n \<le> c" "n_scale g \<le> c" "n_sign ?n = PLUS" "n_sign g = PLUS"
    "bc_abs ?n = of_nat ?G / 10 ^ c" "bc_abs g = of_nat G / 10 ^ c"
    using n g by (auto simp: guess_ok_def)
  note d = bc_sub_ok [OF w(1,2), of "c + 1"]
  have "bc_abs ?d = \<bar>of_nat ?G / 10 ^ c - of_nat G / 10 ^ c\<bar>"
    unfolding bc_abs_val [of ?d] d(2) plus_val [OF w(5)] plus_val [OF w(6)] w(7,8) ..
  also have "\<dots> = \<bar>of_int (int ?G - int G)\<bar> / 10 ^ c" by (simp flip: diff_divide_distrib)
  also have "\<dots> = of_nat (nat \<bar>int ?G - int G\<bar>) / 10 ^ c" by simp
  finally have "bc_abs ?d = of_nat (nat \<bar>int ?G - int G\<bar>) / 10 ^ c" .
  moreover have "c \<le> n_scale ?d" using d(3) by simp
  ultimately have "is_near_zero ?d c \<longleftrightarrow> nat \<bar>int ?G - int G\<bar> \<le> 1" using is_near_zero_ok [OF d(1)] by blast
  then have "is_near_zero ?d c \<longleftrightarrow> \<bar>int ?G - int G\<bar> \<le> 1" by linarith
  then show ?thesis by (subst sqrt_loop.simps) (simp only: Let_def)
qed

subsection \<open>One working scale, and all of them\<close>

definition next_stage :: "bc_num \<Rightarrow> nat \<Rightarrow> bc_num \<Rightarrow> nat \<Rightarrow> bc_num option" where
  "next_stage num r g c = (if c < r + 1 then sqrt_loop num r g (min (c * 3) (r + 1)) else Some g)"

lemma stage_ends:
  assumes num: "bc_wf num" "n_sign num = PLUS" and c: "1 \<le> c" and s: "is_root s (target num c)" "0 < s"
  shows "guess_ok g c G \<Longrightarrow> 0 < G \<Longrightarrow>
    \<exists>g' G'. sqrt_loop num r g c = next_stage num r g' c \<and> guess_ok g' c G' \<and> (G' = s \<or> G' = s + 1)"
proof -
  have above: "\<exists>g' G'. sqrt_loop num r g c = next_stage num r g' c \<and> guess_ok g' c G' \<and> (G' = s \<or> G' = s + 1)"
    if "guess_ok g c G" "s \<le> G" for g G
    using that
  proof (induction G arbitrary: g rule: less_induct)
    case (less G)
    let ?n = "newton_step num g c" and ?G = "nstep (target num c) G"
    note step = sqrt_loop_step [OF num less.prems(1) c, of r] and n = newton_step_ok [OF num less.prems(1) c]
    have G: "0 < G" using less.prems(2) s(2) by simp
    show ?case
    proof (cases "\<bar>int ?G - int G\<bar> \<le> 1")
      case True
      with step have "sqrt_loop num r g c = next_stage num r ?n c" by (simp add: next_stage_def)
      with n nstep_near [OF s(1) G True] show ?thesis by blast
    next
      case False
      have ge: "s \<le> ?G" by (rule nstep_ge [OF s(1) G])
      have "s \<noteq> G"
      proof
        assume "s = G"
        with nstep_root [OF s] ge False show False by simp
      qed
      then have "?G < G" using less.prems(2) by (intro nstep_less [OF s(1)]) simp
      from less.IH [OF this n ge] step False show ?thesis by simp
    qed
  qed
  assume g: "guess_ok g c G" "0 < G"
  let ?n = "newton_step num g c" and ?G = "nstep (target num c) G"
  note step = sqrt_loop_step [OF num g(1) c, of r] and n = newton_step_ok [OF num g(1) c]
  show ?thesis
  proof (cases "\<bar>int ?G - int G\<bar> \<le> 1")
    case True
    with step have "sqrt_loop num r g c = next_stage num r ?n c" by (simp add: next_stage_def)
    with n nstep_near [OF s(1) g(2) True] show ?thesis by blast
  next
    case False
    with above [OF n nstep_ge [OF s(1) g(2)]] step show ?thesis by simp
  qed
qed

lemma target_mono: "0 < target num c \<Longrightarrow> c \<le> c' \<Longrightarrow> 0 < target num c'"
proof -
  let ?s = "n_scale num" and ?m = "dval (n_value num)"
  assume a: "0 < target num c" "c \<le> c'"
  then have ge: "10 ^ (?s - 2 * c) \<le> ?m * 10 ^ (2 * c - ?s)" by (simp add: target_def div_greater_zero_iff)
  then have m: "0 < ?m" by (intro Nat.gr0I) auto
  have "10 ^ (?s - 2 * c') \<le> ?m * 10 ^ (2 * c' - ?s)"
  proof (cases "?s \<le> 2 * c'")
    case True
    with m show ?thesis by simp
  next
    case False
    then have "10 ^ (?s - 2 * c') \<le> (10::nat) ^ (?s - 2 * c)" using a(2) by (intro power_increasing) auto
    also have "\<dots> \<le> ?m" using ge False a(2) by simp
    finally show ?thesis using False by simp
  qed
  then show "0 < target num c'" by (simp add: target_def div_greater_zero_iff)
qed

lemma root_positive: "is_root s X \<Longrightarrow> 0 < X \<Longrightarrow> 0 < s"
  by (intro Nat.gr0I) (simp add: is_root_def)

lemma all_stages:
  assumes num: "bc_wf num" "n_sign num = PLUS" and C: "C = max 3 (r + 1)"
  shows "3 \<le> c \<Longrightarrow> c \<le> C \<Longrightarrow> 0 < target num c \<Longrightarrow> guess_ok g c G \<Longrightarrow> 0 < G \<Longrightarrow>
    \<exists>g' G' s. sqrt_loop num r g c = Some g' \<and> guess_ok g' C G' \<and> is_root s (target num C) \<and> (G' = s \<or> G' = s + 1)"
proof (induction "C - c" arbitrary: c g G rule: less_induct)
  case less
  obtain s where s: "is_root s (target num c)" using root_exists by blast
  have s0: "0 < s" by (rule root_positive [OF s less.prems(3)])
  obtain g' G' where g': "sqrt_loop num r g c = next_stage num r g' c" "guess_ok g' c G'" "G' = s \<or> G' = s + 1"
    using stage_ends [OF num _ s s0 less.prems(4,5)] less.prems(1) by fastforce
  show ?case
  proof (cases "c < r + 1")
    case False
    then have "c = C" using less.prems(1,2) C by auto
    then have "sqrt_loop num r g c = Some g' \<and> guess_ok g' C G' \<and> is_root s (target num C) \<and> (G' = s \<or> G' = s + 1)"
      using g' s False by (simp add: next_stage_def)
    then show ?thesis by blast
  next
    case True
    let ?c = "min (c * 3) (r + 1)"
    have lt: "c < ?c" "?c \<le> C" using True less.prems(1) C by auto
    then have c: "C - ?c < C - c" "3 \<le> ?c" "c \<le> ?c" using less.prems(1) by auto
    have "0 < G' * 10 ^ (?c - c)" using g'(3) s0 by auto
    from less.hyps [OF c(1,2) lt(2) target_mono [OF less.prems(3) c(3)] guess_ok_scale [OF g'(2) c(3)] this]
    show ?thesis using g'(1) True by (simp add: next_stage_def)
  qed
qed

text \<open>Below \<open>10 ^ -6\<close> the integer at the first scale is 0: the guess is halved until it is 0.\<close>

fun halves_to_zero :: "nat \<Rightarrow> bool" where
  "halves_to_zero G \<longleftrightarrow> (if G \<le> 1 then True else G \<noteq> 2 \<and> halves_to_zero (G div 2))"

declare halves_to_zero.simps [simp del]

lemma vanishing_stage:
  assumes num: "bc_wf num" "n_sign num = PLUS" and c: "1 \<le> c" and X: "target num c = 0"
  shows "guess_ok g c G \<Longrightarrow> halves_to_zero G \<Longrightarrow>
    \<exists>g'. sqrt_loop num r g c = next_stage num r g' c \<and> guess_ok g' c 0"
proof (induction G arbitrary: g rule: less_induct)
  case (less G)
  let ?n = "newton_step num g c"
  have nst: "nstep (target num c) G = G div 2" by (simp add: X nstep_def)
  note step = sqrt_loop_step [OF num less.prems(1) c, of r, unfolded nst]
    and n = newton_step_ok [OF num less.prems(1) c, unfolded nst]
  show ?case
  proof (cases "G \<le> 1")
    case True
    then have "G div 2 = 0" "\<bar>int (G div 2) - int G\<bar> \<le> 1" by auto
    with step n have "sqrt_loop num r g c = next_stage num r ?n c \<and> guess_ok ?n c 0" by (simp add: next_stage_def)
    then show ?thesis by blast
  next
    case False
    then have h: "halves_to_zero (G div 2)" "G \<noteq> 2" using less.prems(2) by (auto simp: halves_to_zero.simps [of G])
    have lt: "G div 2 < G" using False by simp
    have "\<not> \<bar>int (G div 2) - int G\<bar> \<le> 1" using False h(2) by linarith
    with less.IH [OF lt n h(1)] step show ?thesis by simp
  qed
qed

lemma zero_stage:
  assumes num: "bc_wf num" "n_sign num = PLUS" and c: "1 \<le> c" and g: "guess_ok g c 0"
  shows "\<exists>g'. sqrt_loop num r g c = next_stage num r g' c \<and> guess_ok g' c 0"
proof -
  have nst: "nstep (target num c) 0 = 0" by (simp add: nstep_def)
  from sqrt_loop_step [OF num g c, of r, unfolded nst] newton_step_ok [OF num g c, unfolded nst] show ?thesis
    by (auto simp: next_stage_def)
qed

lemma zero_stages:
  assumes num: "bc_wf num" "n_sign num = PLUS" and C: "C = max 3 (r + 1)"
  shows "3 \<le> c \<Longrightarrow> c \<le> C \<Longrightarrow> guess_ok g c 0 \<Longrightarrow> \<exists>g'. next_stage num r g c = Some g' \<and> guess_ok g' C 0"
proof (induction "C - c" arbitrary: c g rule: less_induct)
  case less
  show ?case
  proof (cases "c < r + 1")
    case False
    then have "c = C" using less.prems(1,2) C by auto
    with less.prems False show ?thesis by (simp add: next_stage_def)
  next
    case True
    let ?c = "min (c * 3) (r + 1)"
    have lt: "c < ?c" "?c \<le> C" using True less.prems(1) C by auto
    then have c: "C - ?c < C - c" "3 \<le> ?c" "1 \<le> ?c" using less.prems(1) by auto
    have "guess_ok g ?c 0" using guess_ok_scale [OF less.prems(3), of ?c] lt(1) by simp
    from zero_stage [OF num c(3) this] obtain g' where
      g': "sqrt_loop num r g ?c = next_stage num r g' ?c" "guess_ok g' ?c 0" by blast
    from less.hyps [OF c(1,2) lt(2) g'(2)] g'(1) True show ?thesis by (simp add: next_stage_def)
  qed
qed

subsection \<open>The first guess\<close>

lemma num2long_loop_take: "i \<le> length ds \<Longrightarrow> num2long_loop i (take i ds) v = num2long_loop i ds v"
  by (induction i ds v rule: num2long_loop.induct) auto

lemma num2long_take:
  "n_len n \<le> length (n_value n) \<Longrightarrow> num2long (n\<lparr>n_value := take (n_len n) (n_value n)\<rparr>) = num2long n"
  by (simp add: num2long_def num2long_loop_take)

lemma bc_raise_take:
  "0 < n_len n \<Longrightarrow> n_len n \<le> length (n_value n) \<Longrightarrow>
    bc_raise a (n\<lparr>n_value := take (n_len n) (n_value n)\<rparr>) res scale = bc_raise a n res scale"
  unfolding bc_raise_def num2long_take by (simp add: num2long_take hd_take)

definition ten :: bc_num where
  "ten = \<lparr>n_sign = PLUS, n_len = 2, n_scale = 0, n_value = [1, 0]\<rparr>"

lemma ten_ok: "bc_wf ten" "n_sign ten = PLUS" "n_scale ten = 0" "bc_val ten = 10"
  by (simp_all add: ten_def bc_wf_def digits_ok_def bc_val_def bc_abs_def dval_def)

lemma int2num_ten: "int2num 10 = Some ten"
  by (simp add: int2num_def ten_def int_digits.simps)

lemma positive_sign: "0 < bc_val n \<Longrightarrow> n_sign n = PLUS"
  using bc_abs_nonneg [of n] by (cases "n_sign n") (auto simp: bc_val_def)

lemma one_guess: "guess_ok bc_one 3 1000"
  by (simp add: guess_ok_def plus_val [symmetric] bc_one_def [THEN arg_cong [of _ _ n_sign]]
      bc_one_def [THEN arg_cong [of _ _ n_scale]])

lemma first_root_ok:
  assumes "bc_wf num" "n_sign num = PLUS" "n_len num < 2 ^ 31"
  obtains g G where "first_root num = Some g" "guess_ok g 3 G" "0 < G"
proof (cases "bc_compare num bc_one < 0")
  case True
  then have "first_root num = Some bc_one" by (simp add: first_root_def)
  then show thesis by (rule that [OF _ one_guess]) simp
next
  case False
  obtain l where i: "int2num (int (n_len num)) = Some l" "bc_wf l" "bc_val l = of_int (int (n_len num))" "n_scale l = 0"
    "n_sign l = PLUS" by (rule int2num_ok [of "int (n_len num)"]) auto
  let ?p = "bc_multiply l point5 0"
  let ?e = "?p\<lparr>n_scale := 0\<rparr>"
  let ?e' = "?e\<lparr>n_value := take (n_len ?e) (n_value ?e)\<rparr>"
  have l: "bc_wf l" "n_scale l = 0" "n_sign l = PLUS" "bc_abs l = of_nat (n_len num)"
    using i by (simp_all add: bc_abs_val)
  note m = bc_multiply_ok [OF l(1) point5_ok(1), of 0, unfolded l(2) point5_ok(3)]
  have mabs: "bc_abs ?p = of_nat (n_len num) / 2"
    using bc_multiply_exact(1) [OF l(1) point5_ok(1), of 0] l(2,4) by (simp add: point5_ok bc_abs_val [of "bc_multiply l point5 0"] bc_abs_val [of l] abs_mult)
  have len: "0 < n_len ?e" "n_len ?e \<le> length (n_value ?e)" using m(1) by (simp_all add: bc_wf_def)
  have w: "bc_wf ?e'" using m(1) by (auto simp: bc_wf_def digits_ok_def hd_take dest: in_set_takeD)
  have sign: "n_sign ?e' = PLUS" using m(4) l(3) by (simp add: point5_ok)
  have half: "int_part ?e' = n_len num div 2"
  proof -
    have "int (int_part ?e') = int (int_part ?p)" by (simp add: int_part_def)
    also have "\<dots> = \<lfloor>(of_nat (n_len num) :: rat) / of_nat 2\<rfloor>" using int_part_abs [OF m(1)] mabs by simp
    also have "\<dots> = int (n_len num div 2)" by (rule floor_divide_of_nat_eq)
    finally show ?thesis by simp
  qed
  let ?g = "fst (bc_raise ten ?e' ten 0)"
  have root: "first_root num = Some ?g"
    unfolding bc_raise_take [OF len] using False i(1) by (simp add: first_root_def Let_def int2num_ten)
  show thesis
  proof (cases "n_len num div 2 = 0")
    case True
    then have "first_root num = Some bc_one" unfolding root using bc_raise_zero [OF _ w] half by simp
    then show thesis by (rule that [OF _ one_guess]) simp
  next
    case pos: False
    have long: "int (int_part ?e') \<le> LONG_MAX" using half assms(3) by (simp add: LONG_MAX_def)
    have zs: "n_scale ten * int_part ?e' \<le> max 0 (n_scale ten)" "max 0 (n_scale ten) < 2 ^ 31"
      by (simp_all add: ten_ok)
    have e0: "0 < int_part ?e'" using half pos by simp
    note r = bc_raise_ok [OF ten_ok(1) w sign e0 long zs, of ten]
    let ?k = "int_part ?e'"
    have nonneg: "0 \<le> bc_val ?g" "bc_val ?g = 10 ^ ?k" unfolding r(2) ten_ok(4) by simp_all
    have "0 < bc_val ?g" unfolding nonneg(2) by simp
    then have "n_sign ?g = PLUS" by (rule positive_sign)
    then have "guess_ok ?g 3 (10 ^ ?k * 10 ^ 3)"
      using r(1,3) nonneg by (simp add: guess_ok_def plus_val [symmetric] ten_ok)
    then show thesis by (rule that [OF root]) simp
  qed
qed

subsection \<open>The square root\<close>

lemma target_value:
  assumes "n_scale num \<le> 2 * c"
  shows "bc_abs num = of_nat (target num c) / 10 ^ (2 * c)"
proof -
  have "(10::rat) ^ (2 * c) = 10 ^ n_scale num * 10 ^ (2 * c - n_scale num)" using assms by (simp flip: power_add)
  then show ?thesis using assms by (simp add: bc_abs_def target_def)
qed

lemma target_floor: "int (target num c) = \<lfloor>bc_abs num * 10 ^ (2 * c)\<rfloor>"
proof -
  let ?s = "n_scale num"
  have "(10::rat) ^ ?s * 10 ^ (2 * c - ?s) = 10 ^ (2 * c) * 10 ^ (?s - 2 * c)" by (simp flip: power_add)
  then have "bc_abs num * 10 ^ (2 * c) =
      of_nat (dval (n_value num) * 10 ^ (2 * c - ?s)) / (of_nat (10 ^ (?s - 2 * c)) :: rat)"
    by (simp add: bc_abs_def field_simps)
  then show ?thesis unfolding target_def by (simp only: floor_divide_of_nat_eq)
qed

lemma target_positive: "0 < target num c \<longleftrightarrow> 1 / 10 ^ (2 * c) \<le> bc_abs num"
proof -
  have "0 < target num c \<longleftrightarrow> 1 \<le> \<lfloor>bc_abs num * 10 ^ (2 * c)\<rfloor>"
    by (simp add: Suc_le_eq flip: target_floor)
  then show ?thesis by (simp add: field_simps)
qed

lemma frac_mono:
  "a < b \<Longrightarrow> (of_nat a :: rat) / 10 ^ n < of_nat b / 10 ^ n" "a \<le> b \<Longrightarrow> (of_nat a :: rat) / 10 ^ n \<le> of_nat b / 10 ^ n"
  by (simp_all add: divide_strict_right_mono divide_right_mono)

lemma square_le: "a \<le> b \<Longrightarrow> a * a \<le> b * b" for a b :: nat
  by (intro mult_mono) auto

lemma square_less: "a < b \<Longrightarrow> a * a < b * b" for a b :: nat
  by (intro mult_strict_mono) auto

lemma root_cut:
  assumes s: "is_root s X" "G = s \<or> G = s + 1" and k: "K \<ge> 10"
  shows "X < (G div K + 1) * K * ((G div K + 1) * K)" "0 < G div K \<Longrightarrow> (G div K - 1) * K * ((G div K - 1) * K) \<le> X"
proof -
  let ?D = "G div K"
  have up: "G < (?D + 1) * K" using div_times_less [of K G] k by simp
  then have "s + 1 \<le> (?D + 1) * K" using s(2) by auto
  then have "(s + 1) * (s + 1) \<le> (?D + 1) * K * ((?D + 1) * K)" by (rule square_le)
  with s(1) show "X < (?D + 1) * K * ((?D + 1) * K)" by (simp add: is_root_def)
  assume D: "0 < ?D"
  have "?D * K \<le> G" by simp
  moreover have "?D * K = (?D - 1) * K + K" using D by (cases ?D) auto
  ultimately have "(?D - 1) * K \<le> s" using s(2) k by linarith
  then have "(?D - 1) * K * ((?D - 1) * K) \<le> s * s" by (rule square_le)
  with s(1) show "(?D - 1) * K * ((?D - 1) * K) \<le> X" by (simp add: is_root_def)
qed

lemma compare_constants:
  assumes "bc_wf num" "n_sign num = PLUS"
  shows "bc_compare num bc_zero = cmp_rat (bc_abs num) 0" "bc_compare num bc_one = cmp_rat (bc_abs num) 1"
proof -
  have nm: "no_minus_zero num" "no_minus_zero bc_zero" "no_minus_zero bc_one"
    using assms(2) by (simp_all add: no_minus_zero_def bc_zero_def bc_one_def)
  show "bc_compare num bc_zero = cmp_rat (bc_abs num) 0" "bc_compare num bc_one = cmp_rat (bc_abs num) 1"
    using compare_val [OF assms(1) _ nm(1,2)] compare_val [OF assms(1) _ nm(1,3)] plus_val [OF assms(2)] by simp_all
qed

lemma cut_guess:
  assumes "guess_ok g C G" "r \<le> C"
  shows "cut r (bc_abs g / bc_abs bc_one) = of_nat (G div 10 ^ (C - r)) / 10 ^ r"
proof -
  have g: "bc_abs g = of_nat G / 10 ^ C" using assms(1) by (simp add: guess_ok_def)
  have one: "bc_abs bc_one = of_nat 1 / 10 ^ 0" by (simp add: bc_abs_val)
  show ?thesis using cut_quotient [OF g one, of "C - r" r 0] assms(2) by simp
qed

lemma bc_sqrt_general:
  assumes num: "bc_wf num" "n_sign num = PLUS" "n_len num < 2 ^ 31" and nz: "\<not> is_zero num" "bc_abs num \<noteq> 1"
    and loop: "\<And>g G. guess_ok g 3 G \<Longrightarrow> 0 < G \<Longrightarrow> first_root num = Some g \<Longrightarrow>
      \<exists>g' G'. sqrt_loop num (max scale (n_scale num)) g 3 = Some g' \<and> guess_ok g' (max 3 (max scale (n_scale num) + 1)) G' \<and> P G'"
  obtains G r where "bc_sqrt num scale = Some (1, r)" "bc_wf r" "n_sign r = PLUS" "n_scale r = max scale (n_scale num)"
    "bc_abs r = of_nat (G div 10 ^ (max 3 (max scale (n_scale num) + 1) - max scale (n_scale num))) / 10 ^ max scale (n_scale num)" "P G"
proof -
  let ?r = "max scale (n_scale num)"
  let ?C = "max 3 (?r + 1)"
  obtain g G where g: "first_root num = Some g" "guess_ok g 3 G" "0 < G" by (rule first_root_ok [OF num])
  from loop [OF g(2,3,1)] obtain g' G' where
    g': "sqrt_loop num ?r g 3 = Some g'" "guess_ok g' ?C G'" "P G'" by blast
  have pos: "0 < bc_abs num" using nz(1) is_zero_abs [OF num(1)] bc_abs_nonneg [of num] by linarith
  have wg: "bc_wf g'" "n_sign g' = PLUS" using g'(2) by (auto simp: guess_ok_def)
  have "\<not> is_zero bc_one" by (simp add: is_zero_abs) (simp add: bc_abs_val)
  from bc_divide_ok [OF wg(1) bc_wf_constants(2) this, of ?r] obtain q where
    q: "bc_divide g' bc_one ?r = Some q" "bc_wf q" "n_scale q = ?r" "bc_abs q = cut ?r (bc_abs g' / bc_abs bc_one)"
      "n_sign q = (if is_zero q \<or> n_sign g' = n_sign bc_one then PLUS else MINUS)" by blast
  have cmp: "\<not> bc_compare num bc_zero < 0" "bc_compare num bc_zero \<noteq> 0" "bc_compare num bc_one \<noteq> 0"
    using pos nz(2) by (simp_all add: compare_constants [OF num(1,2)] cmp_rat_def)
  have "bc_sqrt num scale = Some (1, q)" using cmp g(1) g'(1) q(1) by (simp add: bc_sqrt_def Let_def)
  moreover have "n_sign q = PLUS" using q(5) wg(2) by (simp add: bc_one_def)
  moreover have "bc_abs q = of_nat (G' div 10 ^ (?C - ?r)) / 10 ^ ?r"
    unfolding q(4) by (rule cut_guess [OF g'(2)], rule max.coboundedI2, rule le_add1)
  ultimately show thesis using that q(2,3) g'(3) by blast
qed

lemma sqrt_error:
  assumes s: "is_root s X" "G = s \<or> G = s + 1" and x: "bc_abs num = of_nat X / 10 ^ (2 * C)"
    and r: "r < C" "n_scale num \<le> r" and nz: "0 < dval (n_value num)"
  shows "bc_abs num < (of_nat (G div 10 ^ (C - r)) / 10 ^ r + 1 / 10 ^ r) ^ 2"
    "(of_nat (G div 10 ^ (C - r)) / 10 ^ r - 1 / 10 ^ r) ^ 2 \<le> bc_abs num"
proof -
  let ?K = "10 ^ (C - r) :: nat"
  let ?D = "G div ?K"
  have "(10::nat) ^ 1 \<le> 10 ^ (C - r)" using r(1) by (intro power_increasing) auto
  then have K: "10 \<le> ?K" by simp
  have "r \<le> C" using r(1) by simp
  then have e: "(10::rat) ^ C = of_nat ?K * 10 ^ r" by (simp flip: power_add)
  have KC: "(10::rat) ^ (2 * C) = of_nat ?K * of_nat ?K * 10 ^ (2 * r)"
    unfolding mult_2 power_add e by (simp only: mult_ac)
  have unit: "of_nat (a * ?K * (a * ?K)) / 10 ^ (2 * C) = (of_nat a / 10 ^ r :: rat) ^ 2" for a
    unfolding KC unfolding mult_2 power_add by (simp add: power2_eq_square)
  have "bc_abs num < of_nat ((?D + 1) * ?K * ((?D + 1) * ?K)) / 10 ^ (2 * C)"
    unfolding x by (rule frac_mono(1) [OF root_cut(1) [OF s K]])
  then show "bc_abs num < (of_nat ?D / 10 ^ r + 1 / 10 ^ r) ^ 2" unfolding unit by (simp add: add_divide_distrib add.commute)
  show "(of_nat ?D / 10 ^ r - 1 / 10 ^ r) ^ 2 \<le> bc_abs num"
  proof (cases "?D = 0")
    case True
    have "(10::rat) ^ n_scale num * 1 \<le> 10 ^ r * 10 ^ r" using r(2) by (intro mult_mono power_increasing) auto
    then have "(1 / 10 ^ r :: rat) ^ 2 \<le> 1 / 10 ^ n_scale num" by (simp add: field_simps power2_eq_square)
    also have "\<dots> \<le> bc_abs num" using nz by (simp add: bc_abs_def field_simps)
    finally show ?thesis using True by simp
  next
    case False
    then have "(of_nat ?D / 10 ^ r - 1 / 10 ^ r) ^ 2 = (of_nat (?D - 1) / 10 ^ r :: rat) ^ 2"
      by (simp add: diff_divide_distrib of_nat_diff)
    also have "\<dots> = of_nat ((?D - 1) * ?K * ((?D - 1) * ?K)) / 10 ^ (2 * C)" by (rule unit [symmetric])
    also have "\<dots> \<le> bc_abs num" unfolding x using False by (intro frac_mono(2) root_cut(2) [OF s K]) simp
    finally show ?thesis .
  qed
qed

text \<open>From \<open>10 ^ -6\<close> on the result is less than one unit of its last digit away from the root.\<close>

lemma bc_sqrt_ok:
  assumes num: "bc_wf num" "n_sign num = PLUS" "n_len num < 2 ^ 31" and big: "1 / 10 ^ 6 \<le> bc_abs num"
  obtains r where "bc_sqrt num scale = Some (1, r)" "bc_wf r" "n_sign r = PLUS"
    "bc_abs num < (bc_val r + 1 / 10 ^ max scale (n_scale num)) ^ 2"
    "(bc_val r - 1 / 10 ^ max scale (n_scale num)) ^ 2 \<le> bc_abs num"
proof (cases "bc_abs num = 1")
  case True
  then have "bc_sqrt num scale = Some (1, bc_one)"
    by (simp add: bc_sqrt_def compare_constants [OF num(1,2)] cmp_rat_def)
  moreover have "(1 - 1 / 10 ^ n :: rat) ^ 2 \<le> 1" for n by (rule power_le_one) (simp_all add: field_simps)
  moreover have "(1::rat) < (1 + 1 / 10 ^ n) ^ 2" for n by (rule one_less_power) (simp_all add: field_simps)
  moreover have "n_sign bc_one = PLUS" by (simp add: bc_one_def)
  ultimately show thesis using that [of bc_one] True by simp
next
  case False
  let ?r = "max scale (n_scale num)" and ?s = "n_scale num"
  let ?C = "max 3 (?r + 1)"
  have nz: "\<not> is_zero num" using big is_zero_abs [OF num(1)] by auto
  have t: "0 < target num 3" using big by (simp add: target_positive)
  let ?X = "target num ?C" and ?K = "10 ^ (?C - ?r) :: nat"
  have loop: "\<exists>g' G'. sqrt_loop num ?r g 3 = Some g' \<and> guess_ok g' ?C G' \<and>
      (\<exists>s. is_root s ?X \<and> (G' = s \<or> G' = s + 1))" if "guess_ok g 3 G" "0 < G" for g G
    using all_stages [OF num(1,2) refl, of 3 ?r g G] t that by auto
  obtain G r where r: "bc_sqrt num scale = Some (1, r)" "bc_wf r" "n_sign r = PLUS" "n_scale r = ?r"
    "bc_abs r = of_nat (G div ?K) / 10 ^ ?r" "\<exists>s. is_root s ?X \<and> (G = s \<or> G = s + 1)"
    by (rule bc_sqrt_general [OF num nz False, where scale = scale and P = "\<lambda>G. \<exists>s. is_root s ?X \<and> (G = s \<or> G = s + 1)"])
      (use loop in blast)+
  obtain s where s: "is_root s ?X" "G = s \<or> G = s + 1" using r(6) by blast
  have x: "bc_abs num = of_nat ?X / 10 ^ (2 * ?C)" by (rule target_value) simp
  have pos: "0 < dval (n_value num)" using nz is_zero_abs [OF num(1)] by (auto simp: bc_abs_def intro: Nat.gr0I)
  have "?r < ?C" by (rule less_max_iff_disj [THEN iffD2]) simp
  note err = sqrt_error [OF s x this max.cobounded2 pos, folded r(5) plus_val [OF r(3)]]
  show thesis by (rule that [OF r(1-3)]) (use err in auto)
qed

text \<open>Below \<open>10 ^ -6\<close> the result is 0, whatever the scale.\<close>

lemma bc_sqrt_small:
  assumes num: "bc_wf num" "n_sign num = PLUS" "n_len num < 2 ^ 31" and small: "0 < bc_abs num" "bc_abs num < 1 / 10 ^ 6"
  obtains r where "bc_sqrt num scale = Some (1, r)" "bc_wf r" "bc_val r = 0"
proof -
  let ?r = "max scale (n_scale num)"
  have nz: "\<not> is_zero num" "bc_abs num \<noteq> 1" using small is_zero_abs [OF num(1)] by auto
  have X: "target num 3 = 0" using small target_positive [of num 3] by simp
  have "bc_compare num bc_one < 0" using small by (simp add: compare_constants [OF num(1,2)] cmp_rat_def)
  then have one: "first_root num = Some bc_one" by (simp add: first_root_def)
  have h: "halves_to_zero 1000" by (simp add: halves_to_zero.simps)
  have loop: "\<exists>g' G'. sqrt_loop num ?r g 3 = Some g' \<and> guess_ok g' (max 3 (?r + 1)) G' \<and> G' = 0"
    if "guess_ok g 3 G" "first_root num = Some g" for g G
  proof -
    have "bc_abs bc_one = of_nat G / 10 ^ 3" using that one by (simp add: guess_ok_def)
    then have "(of_nat G :: rat) = of_nat 1000" by (simp add: bc_abs_val)
    then have "G = 1000" by (simp only: of_nat_eq_iff)
    with vanishing_stage [OF num(1,2) _ X that(1), of ?r] h obtain g' where
      g': "sqrt_loop num ?r g 3 = next_stage num ?r g' 3" "guess_ok g' 3 0" by auto
    with zero_stages [OF num(1,2) refl, of 3 ?r g'] show ?thesis by auto
  qed
  obtain G r where r: "bc_sqrt num scale = Some (1, r)" "bc_wf r" "n_sign r = PLUS"
    "bc_abs r = of_nat (G div 10 ^ (max 3 (?r + 1) - ?r)) / 10 ^ ?r" "G = 0"
    by (rule bc_sqrt_general [OF num nz, where scale = scale and P = "\<lambda>G. G = 0"]) (use loop in blast)+
  then show thesis using that by (simp add: plus_val)
qed

text \<open>The operands that never reach the iteration.\<close>

lemma bc_sqrt_simple:
  assumes "bc_wf num"
  shows "n_sign num = MINUS \<Longrightarrow> bc_sqrt num scale = Some (0, num)"
    "n_sign num = PLUS \<Longrightarrow> bc_abs num = 0 \<Longrightarrow> bc_sqrt num scale = Some (1, bc_zero)"
proof -
  show "n_sign num = MINUS \<Longrightarrow> bc_sqrt num scale = Some (0, num)"
    by (simp add: bc_sqrt_def bc_compare_def do_compare_sign bc_zero_def)
  show "n_sign num = PLUS \<Longrightarrow> bc_abs num = 0 \<Longrightarrow> bc_sqrt num scale = Some (1, bc_zero)"
    using compare_constants [OF assms] by (simp add: bc_sqrt_def cmp_rat_def)
qed

end
