(* ===== verification/Bc_Math.thy ===== *)
theory Bc_Math
  imports Bc_Sqrt
begin

text \<open>
  The text form of arbitrary precision numbers (\<open>str2num\<close> and \<open>num2str\<close> of \<^verbatim>\<open>functions/number.c\<close>) and
  the PHP functions on them (\<^verbatim>\<open>functions/bcmath.c\<close>). The operands of a PHP function are its arguments
  after \<open>convert_to_string\<close> and \<open>convert_to_long\<close>; \<open>str2num\<close> gets them as C strings, which end at the first NUL.
\<close>

subsection \<open>Text\<close>

definition ch_val :: "char \<Rightarrow> nat" where
  "ch_val c = uchar c - 48"

definition bcd_char :: "nat \<Rightarrow> char" where
  "bcd_char d = to_char (d + 48)"

definition skip_sign :: "char list \<Rightarrow> char list" where
  "skip_sign s = (if s \<noteq> [] \<and> (hd s = CHR ''+'' \<or> hd s = CHR ''-'') then tl s else s)"

definition str2num :: "char list \<Rightarrow> nat \<Rightarrow> bc_num" where
  "str2num str scale =
     (let p0 = dropWhile (\<lambda>c. c = CHR ''0'') (skip_sign str);
          digits = length (takeWhile isdigit p0);
          p1 = dropWhile isdigit p0;
          p2 = (if p1 \<noteq> [] \<and> hd p1 = CHR ''.'' then tl p1 else p1);
          strscale = length (takeWhile isdigit p2)
      in if dropWhile isdigit p2 \<noteq> [] \<or> digits + strscale = 0 then bc_zero
         else
           let strscale = min strscale scale;
               zero_int = (digits = 0);
               q = dropWhile (\<lambda>c. c = CHR ''0'') (skip_sign str);
               whole = (if zero_int then [0] else map ch_val (take digits q));
               frac = (if strscale > 0 then map ch_val (take strscale (drop (digits + 1) q)) else [])
           in \<lparr>n_sign = (if str \<noteq> [] \<and> hd str = CHR ''-'' then MINUS else PLUS),
               n_len = (if zero_int then 1 else digits), n_scale = strscale, n_value = whole @ frac\<rparr>)"

definition num2str :: "bc_num \<Rightarrow> char list" where
  "num2str num =
     (if n_sign num = PLUS then [] else ''-'') @ map bcd_char (take (n_len num) (n_value num)) @
     (if n_scale num > 0 then CHR ''.'' # map bcd_char (take (n_scale num) (drop (n_len num) (n_value num))) else [])"

subsection \<open>The PHP functions\<close>

text \<open>
  What a function leaves in \<open>return_value\<close>; after a warning it is not set. \<open>None\<close> stands for a negative
  scale, which no function rejects: \<open>new_num\<close> then allocates less than the digits take.
\<close>

datatype bc_return = RString "char list" | RLong int | RWarning string

definition bc_scale :: "int \<Rightarrow> int option \<Rightarrow> int" where
  "bc_scale bc_precision scale_param = wrap_int (case scale_param of None \<Rightarrow> bc_precision | Some v \<Rightarrow> v)"

definition with_scale :: "int \<Rightarrow> int option \<Rightarrow> (nat \<Rightarrow> bc_return option) \<Rightarrow> bc_return option" where
  "with_scale bc_precision scale_param f =
     (let scale = bc_scale bc_precision scale_param in if scale < 0 then None else f (nat scale))"

definition php3_bcmath_add :: "int \<Rightarrow> char list \<Rightarrow> char list \<Rightarrow> int option \<Rightarrow> bc_return option" where
  "php3_bcmath_add prec left right scale_param = with_scale prec scale_param (\<lambda>scale.
     let first = str2num (cstr left) scale; second = str2num (cstr right) scale
     in Some (RString (num2str (bc_add first second scale))))"

definition php3_bcmath_sub :: "int \<Rightarrow> char list \<Rightarrow> char list \<Rightarrow> int option \<Rightarrow> bc_return option" where
  "php3_bcmath_sub prec left right scale_param = with_scale prec scale_param (\<lambda>scale.
     let first = str2num (cstr left) scale; second = str2num (cstr right) scale
     in Some (RString (num2str (bc_sub first second scale))))"

text \<open>
  \<open>bcmul\<close> with three arguments. With two it calls \<open>getParametersLong\<close>, which no
  file of the repository declares or defines.
\<close>

definition php3_bcmath_mul :: "int \<Rightarrow> char list \<Rightarrow> char list \<Rightarrow> int \<Rightarrow> bc_return option" where
  "php3_bcmath_mul prec left right scale_param = with_scale prec (Some scale_param) (\<lambda>scale.
     let first = str2num (cstr left) scale; second = str2num (cstr right) scale
     in Some (RString (num2str (bc_multiply first second scale))))"

definition php3_bcmath_div :: "int \<Rightarrow> char list \<Rightarrow> char list \<Rightarrow> int option \<Rightarrow> bc_return option" where
  "php3_bcmath_div prec left right scale_param = with_scale prec scale_param (\<lambda>scale.
     let first = str2num (cstr left) scale; second = str2num (cstr right) scale
     in case bc_divide first second scale of
          Some result \<Rightarrow> Some (RString (num2str result))
        | None \<Rightarrow> Some (RWarning ''Division by zero''))"

definition php3_bcmath_mod :: "char list \<Rightarrow> char list \<Rightarrow> bc_return option" where
  "php3_bcmath_mod left right =
     (let first = str2num (cstr left) 0; second = str2num (cstr right) 0
      in case bc_modulo first second 0 of
           Some result \<Rightarrow> Some (RString (num2str result))
         | None \<Rightarrow> Some (RWarning ''Division by zero''))"

definition php3_bcmath_pow :: "int \<Rightarrow> char list \<Rightarrow> char list \<Rightarrow> int option \<Rightarrow> (string list \<times> bc_return) option" where
  "php3_bcmath_pow prec left right scale_param =
     (let scale = bc_scale prec scale_param
      in if scale < 0 then None
         else case bc_raise (str2num (cstr left) (nat scale)) (str2num (cstr right) (nat scale)) bc_zero (nat scale) of
           (result, warnings) \<Rightarrow> Some (warnings, RString (num2str result)))"

definition php3_bcmath_sqrt :: "int \<Rightarrow> char list \<Rightarrow> int option \<Rightarrow> bc_return option" where
  "php3_bcmath_sqrt prec left scale_param = with_scale prec scale_param (\<lambda>scale.
     case bc_sqrt (str2num (cstr left) scale) scale of
       None \<Rightarrow> None
     | Some (status, result) \<Rightarrow>
         if status \<noteq> 0 then Some (RString (num2str result)) else Some (RWarning ''Square root of negative number''))"

definition php3_bcmath_comp :: "int \<Rightarrow> char list \<Rightarrow> char list \<Rightarrow> int option \<Rightarrow> bc_return option" where
  "php3_bcmath_comp prec left right scale_param = with_scale prec scale_param (\<lambda>scale.
     Some (RLong (bc_compare (str2num (cstr left) scale) (str2num (cstr right) scale))))"

text \<open>The default scale: read from the configuration for each request, and changed by \<open>bcscale\<close>.\<close>

definition php3_rinit_bcmath :: "int option \<Rightarrow> int" where
  "php3_rinit_bcmath cfg_scale = (case cfg_scale of None \<Rightarrow> 0 | Some v \<Rightarrow> v)"

definition php3_bcmath_set_scale :: "int \<Rightarrow> int \<Rightarrow> int" where
  "php3_bcmath_set_scale bc_precision new_scale = new_scale"

subsection \<open>Digits and characters\<close>

lemma code_of: "uchar CHR ''0'' = 48" "uchar CHR ''-'' = 45" "uchar CHR ''+'' = 43" "uchar CHR ''.'' = 46"
  by (simp_all add: uchar_def)

lemma bcd_char_facts:
  assumes "d < 10"
  shows "isdigit (bcd_char d)" "ch_val (bcd_char d) = d" "bcd_char d = CHR ''0'' \<longleftrightarrow> d = 0"
    "bcd_char d \<noteq> CHR ''-''" "bcd_char d \<noteq> CHR ''+''"
  using assms by (simp_all add: isdigit_def bcd_char_def ch_val_def code_of flip: uchar_inject)

lemma isdigit_ch_val: "isdigit c \<Longrightarrow> ch_val c < 10"
  by (auto simp: isdigit_def ch_val_def)

lemma isdigit_zero: "isdigit CHR ''0''" "\<not> isdigit CHR ''.''" "\<not> isdigit CHR ''-''" "\<not> isdigit CHR ''+''"
  by (simp_all add: isdigit_def code_of)

lemma ch_val_zero: "isdigit c \<Longrightarrow> ch_val c = 0 \<longleftrightarrow> c = CHR ''0''"
  by (auto simp: isdigit_def ch_val_def code_of simp flip: uchar_inject)

lemma digits_ok_ch_val: "list_all isdigit ds \<Longrightarrow> digits_ok (map ch_val ds)"
  by (auto simp: digits_ok_def list_all_iff isdigit_ch_val)

text \<open>The digits of a literal: \<open>str2num\<close> on an optional sign, digits, and an optional fraction.\<close>

definition literal :: "char list \<Rightarrow> char list \<Rightarrow> char list \<Rightarrow> char list" where
  "literal sg ds fs = sg @ ds @ (if fs = [] then [] else CHR ''.'' # fs)"

definition number_of :: "sign \<Rightarrow> char list \<Rightarrow> char list \<Rightarrow> nat \<Rightarrow> bc_num" where
  "number_of sign ds fs scale =
     \<lparr>n_sign = sign, n_len = (if ds = [] then 1 else length ds), n_scale = min (length fs) scale,
      n_value = (if ds = [] then [0] else map ch_val ds) @ map ch_val (take scale fs)\<rparr>"

lemma number_of_wf:
  assumes "list_all isdigit ds" "list_all isdigit fs" "ds = [] \<or> hd ds \<noteq> CHR ''0''"
  shows "bc_wf (number_of sign ds fs scale)" "n_scale (number_of sign ds fs scale) \<le> scale"
proof -
  have "list_all isdigit (take scale fs)" using assms(2) by (auto simp: list_all_iff dest: in_set_takeD)
  note ok = digits_ok_ch_val [OF assms(1)] digits_ok_ch_val [OF this]
  have "ds \<noteq> [] \<Longrightarrow> hd (map ch_val ds) \<noteq> 0" using assms(1,3) ch_val_zero by (cases ds) auto
  with ok show "bc_wf (number_of sign ds fs scale)" "n_scale (number_of sign ds fs scale) \<le> scale"
    unfolding number_of_def bc_wf_def by (cases "ds = []") (simp_all add: min.commute)
qed

lemma number_of_abs:
  "bc_abs (number_of sign ds fs scale) = of_nat (dval (map ch_val (ds @ take scale fs))) / 10 ^ min (length fs) scale"
  by (simp add: number_of_def bc_abs_def dval_Cons dval_append min.commute)

lemma skip_sign_literal:
  assumes "sg \<in> {[], ''+'', ''-''}" "list_all isdigit ds"
  shows "skip_sign (literal sg ds fs) = literal [] ds fs"
  using assms isdigit_zero by (cases ds; cases fs) (auto simp: skip_sign_def literal_def)

lemma takeWhile_digits: "list_all isdigit ds \<Longrightarrow> takeWhile isdigit (ds @ xs) = ds @ takeWhile isdigit xs"
  by (induction ds) auto

lemma dropWhile_digits: "list_all isdigit ds \<Longrightarrow> dropWhile isdigit (ds @ xs) = dropWhile isdigit xs"
  by (induction ds) auto

lemma take_min_length: "take (min n (length xs)) xs = take n xs"
  by (simp add: min_def)

lemma str2num_literal:
  assumes "sg \<in> {[], ''+'', ''-''}" "list_all isdigit ds" "list_all isdigit fs"
  defines "ws \<equiv> dropWhile (\<lambda>c. c = CHR ''0'') ds"
  assumes "ws \<noteq> [] \<or> fs \<noteq> []"
  shows "str2num (literal sg ds fs) scale =
    number_of (if sg = ''-'' then MINUS else PLUS) ws fs scale"
proof -
  have p0: "dropWhile (\<lambda>c. c = CHR ''0'') (skip_sign (literal sg ds fs)) = ws @ (if fs = [] then [] else CHR ''.'' # fs)"
  proof -
    have "dropWhile (\<lambda>c. c = CHR ''0'') (ds @ CHR ''.'' # fs) = ws @ CHR ''.'' # fs"
      unfolding ws_def by (induction ds) auto
    then show ?thesis unfolding skip_sign_literal [OF assms(1,2)] by (simp add: literal_def ws_def)
  qed
  have w: "list_all isdigit ws" using assms(2) unfolding ws_def list_all_iff by (auto dest: set_dropWhileD)
  have rest: "takeWhile isdigit (if fs = [] then [] else CHR ''.'' # fs) = []"
    "dropWhile isdigit (if fs = [] then [] else CHR ''.'' # fs) = (if fs = [] then [] else CHR ''.'' # fs)"
    using isdigit_zero by simp_all
  have fs: "takeWhile isdigit fs = fs" "dropWhile isdigit fs = []"
    using assms(3) by (auto simp: list_all_iff)
  have sg: "(literal sg ds fs \<noteq> [] \<and> hd (literal sg ds fs) = CHR ''-'') \<longleftrightarrow> sg = ''-''"
    using assms(1,2) isdigit_zero by (cases ds; cases fs) (auto simp: literal_def)
  show ?thesis
    unfolding str2num_def Let_def p0 takeWhile_digits [OF w] dropWhile_digits [OF w] rest sg
    using assms(5) by (cases "fs = []") (auto simp: fs min.commute take_min_length number_of_def)
qed

text \<open>Every string gives a well-formed number with at most the scale asked for.\<close>

lemma takeWhile_isdigit: "list_all isdigit (takeWhile isdigit s)"
  by (auto simp: list_all_iff dest: set_takeWhileD)

lemma str2num_cases:
  "str2num str scale = bc_zero \<or> (\<exists>ds fs. list_all isdigit ds \<and> list_all isdigit fs \<and> (ds = [] \<or> hd ds \<noteq> CHR ''0'') \<and>
     str2num str scale = number_of (if str \<noteq> [] \<and> hd str = CHR ''-'' then MINUS else PLUS) ds fs scale)"
proof -
  define p0 where "p0 = dropWhile (\<lambda>c. c = CHR ''0'') (skip_sign str)"
  define ds where "ds = takeWhile isdigit p0"
  define p1 where "p1 = dropWhile isdigit p0"
  define p2 where "p2 = (if p1 \<noteq> [] \<and> hd p1 = CHR ''.'' then tl p1 else p1)"
  define fs where "fs = takeWhile isdigit p2"
  note parts = str2num_def [of str scale, unfolded Let_def, folded p0_def, folded ds_def p1_def, folded p2_def, folded fs_def]
  show ?thesis
  proof (cases "dropWhile isdigit p2 \<noteq> [] \<or> length ds + length fs = 0")
    case True
    then have "str2num str scale = bc_zero" unfolding parts by (rule if_P)
    then show ?thesis ..
  next
    case False
    have ok: "list_all isdigit ds" "list_all isdigit fs" by (simp_all add: ds_def fs_def takeWhile_isdigit)
    have p0: "p0 = ds @ p1" by (simp add: ds_def p1_def)
    have "p0 \<noteq> [] \<Longrightarrow> hd p0 \<noteq> CHR ''0''" unfolding p0_def using hd_dropWhile [of "\<lambda>c. c = CHR ''0''"] by blast
    then have hd: "ds = [] \<or> hd ds \<noteq> CHR ''0''" using p0 by (cases ds) auto
    have fraction: "drop 1 p1 = fs" if "fs \<noteq> []"
    proof -
      have "dropWhile isdigit p2 = []" using False by blast
      then have p2: "p2 = fs" using takeWhile_dropWhile_id [of isdigit p2] unfolding fs_def by (simp only: append_Nil2)
      have "p1 \<noteq> [] \<and> hd p1 = CHR ''.''"
      proof (rule ccontr)
        assume "\<not> (p1 \<noteq> [] \<and> hd p1 = CHR ''.'')"
        then have "p1 = fs" using p2 by (simp only: p2_def if_False)
        with that have "\<not> isdigit (hd fs)" unfolding p1_def by (metis hd_dropWhile)
        with that ok(2) show False by (cases fs) auto
      qed
      with p2 show ?thesis by (simp add: p2_def drop_Suc)
    qed
    have whole: "take (length ds) p0 = ds" using p0 by simp
    have frac: "(if min (length fs) scale > 0 then map ch_val (take (min (length fs) scale) (drop (length ds + 1) p0)) else []) =
        map ch_val (take scale fs)"
      using fraction p0 by (cases "fs = []") (auto simp: min.commute take_min_length)
    have "str2num str scale = number_of (if str \<noteq> [] \<and> hd str = CHR ''-'' then MINUS else PLUS) ds fs scale"
      unfolding parts whole frac if_not_P [OF False] number_of_def by simp
    with ok hd show ?thesis by blast
  qed
qed

lemma str2num_ok: "bc_wf (str2num str scale)" "n_scale (str2num str scale) \<le> scale"
proof -
  have "bc_wf bc_zero" "n_scale bc_zero \<le> scale" by simp (simp add: bc_zero_def)
  then show "bc_wf (str2num str scale)" "n_scale (str2num str scale) \<le> scale"
    using str2num_cases [of str scale] number_of_wf by metis+
qed

subsection \<open>Printing and reading back\<close>

lemma num2str_literal:
  assumes "bc_wf n"
  defines "w \<equiv> take (n_len n) (n_value n)" and "f \<equiv> drop (n_len n) (n_value n)"
  shows "num2str n = literal (if n_sign n = PLUS then [] else ''-'') (map bcd_char w) (map bcd_char f)"
    "digits_ok w" "digits_ok f" "length w = n_len n" "length f = n_scale n" "n_value n = w @ f"
proof -
  have l: "length (n_value n) = n_len n + n_scale n" "digits_ok (n_value n)" using assms(1) by (auto simp: bc_wf_def)
  then show "length w = n_len n" "length f = n_scale n" "digits_ok w" "digits_ok f" by (auto simp: w_def f_def)
  show "n_value n = w @ f" by (simp add: w_def f_def)
  have "n_scale n > 0 \<longleftrightarrow> map bcd_char f \<noteq> []" using l by (simp add: f_def)
  then show "num2str n = literal (if n_sign n = PLUS then [] else ''-'') (map bcd_char w) (map bcd_char f)"
    using l(1) by (simp add: num2str_def literal_def w_def f_def)
qed

lemma map_ch_val_bcd: "digits_ok ds \<Longrightarrow> map (ch_val \<circ> bcd_char) ds = ds"
  by (induction ds) (auto simp: bcd_char_facts)

lemma isdigit_bcd: "digits_ok ds \<Longrightarrow> list_all isdigit (map bcd_char ds)"
  by (induction ds) (auto simp: bcd_char_facts)

lemma num2str_round_trip:
  assumes "bc_wf n" "n_scale n \<le> scale" "no_minus_zero n"
  shows "str2num (num2str n) scale = n"
proof -
  define w where "w = take (n_len n) (n_value n)"
  define f where "f = drop (n_len n) (n_value n)"
  note l = num2str_literal [OF assms(1), folded w_def f_def]
  let ?s = "if n_sign n = PLUS then [] else ''-''"
  let ?ws = "dropWhile (\<lambda>c. c = CHR ''0'') (map bcd_char w)"
  have sg: "?s \<in> {[], ''+'', ''-''}" by simp
  have sign: "(if ?s = ''-'' then MINUS else PLUS) = n_sign n" by (cases "n_sign n") simp_all
  have wne: "w \<noteq> []" using l(4) assms(1) by (auto simp: bc_wf_def)
  have hw: "hd w = hd (n_value n)" using l(6) wne by simp
  have all: "take scale f = f" using l(5) assms(2) by simp
  show ?thesis
  proof (cases "hd w = 0")
    case False
    then have ws: "?ws = map bcd_char w" using wne l(2) by (cases w) (auto simp: bcd_char_facts)
    then have "?ws \<noteq> [] \<or> map bcd_char f \<noteq> []" using wne by simp
    from str2num_literal [OF sg isdigit_bcd [OF l(2)] isdigit_bcd [OF l(3)] this] show ?thesis
      unfolding l(1) ws sign using l assms(2) wne all
      by (intro bc_num.equality) (simp_all add: number_of_def take_map map_ch_val_bcd)
  next
    case True
    then have "n_len n = 1" using assms(1) hw by (auto simp: bc_wf_def)
    then have w: "w = [0]" using True l(4) wne by (cases w) auto
    then have ws: "?ws = []" by (simp add: bcd_char_facts)
    show ?thesis
    proof (cases "f = []")
      case False
      then have "?ws \<noteq> [] \<or> map bcd_char f \<noteq> []" by simp
      from str2num_literal [OF sg isdigit_bcd [OF l(2)] isdigit_bcd [OF l(3)] this] show ?thesis
        unfolding l(1) ws sign using l assms(2) \<open>n_len n = 1\<close> w all
        by (intro bc_num.equality) (simp_all add: number_of_def take_map map_ch_val_bcd)
    next
      case f: True
      then have n: "n_value n = [0]" "n_scale n = 0" using l w by auto
      then have "bc_abs n = 0" by (simp add: bc_abs_def dval_def)
      then have "n = bc_zero" using assms(3) n \<open>n_len n = 1\<close> by (cases n) (simp add: no_minus_zero_def bc_zero_def)
      then show ?thesis
        by (simp add: str2num_def num2str_def bc_zero_def skip_sign_def bcd_char_facts Let_def)
    qed
  qed
qed

subsection \<open>The PHP functions on numbers in text form\<close>

text \<open>There is no NUL in a printed number.\<close>

lemma cstr_num2str:
  assumes "bc_wf n"
  shows "cstr (num2str n) = num2str n"
proof (rule cstr_id)
  note l = num2str_literal [OF assms]
  have digits: "NUL \<notin> set (map bcd_char ds)" if "digits_ok ds" for ds
  proof
    assume "NUL \<in> set (map bcd_char ds)"
    then have "isdigit NUL" using isdigit_bcd [OF that] unfolding list_all_iff by blast
    then show False by (simp add: isdigit_def)
  qed
  show "NUL \<notin> set (num2str n)" unfolding l(1) literal_def using digits l(2,3) by auto
qed

lemma with_scale_nat: "scale < 2 ^ 31 \<Longrightarrow> with_scale prec (Some (int scale)) f = f scale"
proof -
  assume "scale < 2 ^ 31"
  then have "bc_scale prec (Some (int scale)) = int scale" by (simp add: bc_scale_def wrap_int_def)
  then show ?thesis by (simp add: with_scale_def)
qed

lemma with_default: "scale < 2 ^ 31 \<Longrightarrow> with_scale (int scale) None f = f scale"
  using with_scale_nat [of scale 0 f] by (simp add: with_scale_def bc_scale_def)

end
