(* ===== verification/Operators.thy ===== *)
theory Operators
  imports Convert Bc_Math
begin

text \<open>
  The operators of \<^verbatim>\<open>php-src/operators.c\<close>. A function gets the values its operands point to and returns
  its status, the value of \<open>result\<close>, what the operands have become, and the store; \<open>result\<close> is not one
  of the operands. An operand whose table is destroyed keeps its (dangling) address. \<open>None\<close> is a memory
  fault, a trap (\<open>LONG_MIN % -1\<close>) or a shift that C leaves undefined; \<open>long\<close> arithmetic wraps.
\<close>

type_synonym 'f outcome = "(int \<times> 'f pval \<times> 'f pval \<times> 'f pval \<times> 'f store) option"

subsection \<open>Arithmetic\<close>

text \<open>\<open>_php3_hash_merge\<close> with \<open>pval_copy_constructor\<close>: the loop over the table \<open>b\<close>, adding to the table \<open>a\<close>.\<close>

definition merge_element :: "'f pval hashtable \<Rightarrow> 'f pval bucket \<Rightarrow> (int \<times> ptr \<times> 'f pval hashtable) option" where
  "merge_element t x =
     (case arKey x of
        Some k \<Rightarrow> php3_hash_add_or_update t k (pData x) HASH_ADD
      | None \<Rightarrow> do {
          ex \<leftarrow> php3_hash_index_exists t (hval x);
          if ex = 0 then php3_hash_index_update_or_next_insert t (hval x) (pData x) HASH_UPDATE
          else Some (FAILURE, None, t) })"

text \<open>The copy constructor is applied to the element at \<open>q\<close> of the table \<open>a\<close>.\<close>

definition construct_element :: "addr \<Rightarrow> ptr \<Rightarrow> 'f store \<Rightarrow> 'f store option" where
  "construct_element a q st =
     do {
       t \<leftarrow> tables st a;
       p \<leftarrow> q;
       x \<leftarrow> heap t p;
       (r, d, st1) \<leftarrow> pval_copy_constructor (Copy (pData x)) st;
       t1 \<leftarrow> tables st1 a;
       hp \<leftarrow> set_field (heap t1) p (\<lambda>b. b\<lparr>pData := d\<rparr>);
       Some (set_table st1 a (t1\<lparr>heap := hp\<rparr>)) }"

partial_function (option) merge_from :: "addr \<Rightarrow> addr \<Rightarrow> ptr \<Rightarrow> 'f store \<Rightarrow> 'f store option" where
  "merge_from a b p st =
     (case p of
        None \<Rightarrow> Some st
      | Some q \<Rightarrow> do {
          s \<leftarrow> tables st b;
          x \<leftarrow> heap s q;
          t \<leftarrow> tables st a;
          (r, d, t1) \<leftarrow> merge_element t x;
          st1 \<leftarrow> (if r = SUCCESS then construct_element a d (set_table st a t1) else Some (set_table st a t1));
          s1 \<leftarrow> tables st1 b;
          x1 \<leftarrow> heap s1 q;
          merge_from a b (pListNext x1) st1 })"

definition array_merge :: "addr \<Rightarrow> addr \<Rightarrow> 'f store \<Rightarrow> 'f store option" where
  "array_merge a b st =
     do {
       s \<leftarrow> tables st b;
       st1 \<leftarrow> merge_from a b (pListHead s) st;
       t \<leftarrow> tables st1 a;
       Some (set_table st1 a (t\<lparr>pInternalPointer := pListHead t\<rparr>)) }"

text \<open>What all arithmetic operators do when the operands are not numbers: destroy both and fail.\<close>

definition fail_both :: "'f pval \<Rightarrow> 'f pval \<Rightarrow> 'f store \<Rightarrow> 'f outcome" where
  "fail_both op1 op2 st =
     do {
       st1 \<leftarrow> pval_destructor (Destroy op1) st;
       st2 \<leftarrow> pval_destructor (Destroy op2) st1;
       Some (FAILURE, var_reset, op1, op2, st2) }"

definition float_result :: "('f \<Rightarrow> 'f \<Rightarrow> 'f) \<Rightarrow> 'f doubles \<Rightarrow> 'f pval \<Rightarrow> 'f pval \<Rightarrow> 'f store \<Rightarrow> 'f outcome" where
  "float_result f D op1 op2 st =
     (case (op1, op2) of
        (IS_DOUBLE x, IS_LONG j) \<Rightarrow> Some (SUCCESS, IS_DOUBLE (f x (of_long D j)), op1, op2, st)
      | (IS_LONG i, IS_DOUBLE y) \<Rightarrow> Some (SUCCESS, IS_DOUBLE (f (of_long D i) y), op1, op2, st)
      | (IS_DOUBLE x, IS_DOUBLE y) \<Rightarrow> Some (SUCCESS, IS_DOUBLE (f x y), op1, op2, st)
      | _ \<Rightarrow> fail_both op1 op2 st)"

definition add_function :: "'f doubles \<Rightarrow> 'f pval \<Rightarrow> 'f pval \<Rightarrow> 'f store \<Rightarrow> 'f outcome" where
  "add_function D op1 op2 st =
     (case (op1, op2) of
        (IS_ARRAY a, IS_ARRAY b) \<Rightarrow> do {
          st1 \<leftarrow> array_merge a b st;
          st2 \<leftarrow> pval_destructor (Destroy op2) st1;
          Some (SUCCESS, op1, op1, op2, st2) }
      | _ \<Rightarrow>
        (let n1 = convert_string_to_number D op1; n2 = convert_string_to_number D op2 in
         case (n1, n2) of
           (IS_LONG i, IS_LONG j) \<Rightarrow>
             (let dval = fadd D (of_long D i) (of_long D j) in
              if fless D (of_long D LONG_MAX) dval then Some (SUCCESS, IS_DOUBLE dval, n1, n2, st)
              else Some (SUCCESS, IS_LONG (wrap_long (i + j)), n1, n2, st))
         | _ \<Rightarrow> float_result (fadd D) D n1 n2 st))"

definition sub_function :: "'f doubles \<Rightarrow> 'f pval \<Rightarrow> 'f pval \<Rightarrow> 'f store \<Rightarrow> 'f outcome" where
  "sub_function D op1 op2 st =
     (let n1 = convert_string_to_number D op1; n2 = convert_string_to_number D op2 in
      case (n1, n2) of
        (IS_LONG i, IS_LONG j) \<Rightarrow>
          (let dval = fsub D (of_long D i) (of_long D j) in
           if fless D dval (of_long D LONG_MIN) then Some (SUCCESS, IS_DOUBLE dval, n1, n2, st)
           else Some (SUCCESS, IS_LONG (wrap_long (i - j)), n1, n2, st))
      | _ \<Rightarrow> float_result (fsub D) D n1 n2 st)"

definition mul_function :: "'f doubles \<Rightarrow> 'f pval \<Rightarrow> 'f pval \<Rightarrow> 'f store \<Rightarrow> 'f outcome" where
  "mul_function D op1 op2 st =
     (let n1 = convert_string_to_number D op1; n2 = convert_string_to_number D op2 in
      case (n1, n2) of
        (IS_LONG i, IS_LONG j) \<Rightarrow>
          (let dval = fmul D (of_long D i) (of_long D j) in
           if fless D (of_long D LONG_MAX) dval then Some (SUCCESS, IS_DOUBLE dval, n1, n2, st)
           else Some (SUCCESS, IS_LONG (wrap_long (i * j)), n1, n2, st))
      | _ \<Rightarrow> float_result (fmul D) D n1 n2 st)"

text \<open>\<open>i % j\<close> and \<open>i / j\<close> on \<open>long\<close>s: the processor traps for the quotient \<open>LONG_MIN / -1\<close>.\<close>

definition long_mod :: "int \<Rightarrow> int \<Rightarrow> int option" where
  "long_mod i j = (if j = 0 \<or> i = LONG_MIN \<and> j = - 1 then None else Some (c_mod i j))"

definition div_function :: "'f doubles \<Rightarrow> 'f pval \<Rightarrow> 'f pval \<Rightarrow> 'f store \<Rightarrow> 'f outcome" where
  "div_function D op1 op2 st =
     (let n1 = convert_string_to_number D op1; n2 = convert_string_to_number D op2 in
      if (case n2 of IS_LONG j \<Rightarrow> j = 0 | IS_DOUBLE y \<Rightarrow> feq D y (of_long D 0) | _ \<Rightarrow> False)
      then Some (FAILURE, var_reset, n1, n2, st)
      else case (n1, n2) of
        (IS_LONG i, IS_LONG j) \<Rightarrow> do {
          m \<leftarrow> long_mod i j;
          if m = 0 then Some (SUCCESS, IS_LONG (c_div i j), n1, n2, st)
          else Some (SUCCESS, IS_DOUBLE (fdiv D (of_long D i) (of_long D j)), n1, n2, st) }
      | _ \<Rightarrow> float_result (fdiv D) D n1 n2 st)"

text \<open>The value of an operand after \<open>convert_to_long\<close>.\<close>

definition lval :: "'f pval \<Rightarrow> int" where
  "lval v = (case v of IS_LONG i \<Rightarrow> i | _ \<Rightarrow> 0)"

definition both_to_long :: "'f doubles \<Rightarrow> 'f pval \<Rightarrow> 'f pval \<Rightarrow> 'f store \<Rightarrow> ('f pval \<times> 'f pval \<times> 'f store) option" where
  "both_to_long D op1 op2 st =
     do {
       (n1, st1) \<leftarrow> convert_to_long D op1 st;
       (n2, st2) \<leftarrow> convert_to_long D op2 st1;
       Some (n1, n2, st2) }"

definition mod_function :: "'f doubles \<Rightarrow> 'f pval \<Rightarrow> 'f pval \<Rightarrow> 'f store \<Rightarrow> 'f outcome" where
  "mod_function D op1 op2 st =
     do {
       (n1, n2, st1) \<leftarrow> both_to_long D op1 op2 st;
       if lval n2 = 0 then Some (FAILURE, var_reset, n1, n2, st1)
       else do { m \<leftarrow> long_mod (lval n1) (lval n2); Some (SUCCESS, IS_LONG m, n1, n2, st1) } }"

subsection \<open>Boolean operators\<close>

text \<open>
  The type of a converted operand is always \<open>IS_LONG\<close>, so that the branches for other types are dead; they
  are kept. The second operand is not touched where the first decides.
\<close>

definition is_long :: "'f pval \<Rightarrow> bool" where
  "is_long v = (case v of IS_LONG i \<Rightarrow> True | _ \<Rightarrow> False)"

definition boolean_or_function :: "'f doubles \<Rightarrow> 'f pval \<Rightarrow> 'f pval \<Rightarrow> 'f store \<Rightarrow> 'f outcome" where
  "boolean_or_function D op1 op2 st =
     do {
       (n1, st1) \<leftarrow> convert_to_boolean_long D op1 st;
       if is_long n1 \<and> lval n1 \<noteq> 0 then Some (SUCCESS, IS_LONG 1, n1, op2, st1)
       else do {
         (n2, st2) \<leftarrow> convert_to_boolean_long D op2 st1;
         if is_long n2 \<and> lval n2 \<noteq> 0 then Some (SUCCESS, IS_LONG 1, n1, n2, st2)
         else if is_long n1 \<and> is_long n2 then Some (SUCCESS, IS_LONG 0, n1, n2, st2)
         else Some (FAILURE, var_reset, n1, n2, st2) } }"

definition boolean_and_function :: "'f doubles \<Rightarrow> 'f pval \<Rightarrow> 'f pval \<Rightarrow> 'f store \<Rightarrow> 'f outcome" where
  "boolean_and_function D op1 op2 st =
     do {
       (n1, st1) \<leftarrow> convert_to_boolean_long D op1 st;
       if is_long n1 \<and> lval n1 = 0 then Some (SUCCESS, IS_LONG 0, n1, op2, st1)
       else do {
         (n2, st2) \<leftarrow> convert_to_boolean_long D op2 st1;
         if is_long n2 \<and> lval n2 = 0 then Some (SUCCESS, IS_LONG 0, n1, n2, st2)
         else if is_long n1 \<and> is_long n2 then Some (SUCCESS, IS_LONG 1, n1, n2, st2)
         else Some (FAILURE, var_reset, n1, n2, st2) } }"

definition boolean_xor_function :: "'f doubles \<Rightarrow> 'f pval \<Rightarrow> 'f pval \<Rightarrow> 'f store \<Rightarrow> 'f outcome" where
  "boolean_xor_function D op1 op2 st =
     do {
       (n1, st1) \<leftarrow> convert_to_boolean_long D op1 st;
       (n2, st2) \<leftarrow> convert_to_boolean_long D op2 st1;
       Some (SUCCESS, IS_LONG (xor (lval n1) (lval n2)), n1, n2, st2) }"

definition boolean_not_function :: "'f doubles \<Rightarrow> 'f pval \<Rightarrow> 'f store \<Rightarrow> (int \<times> 'f pval \<times> 'f pval \<times> 'f store) option" where
  "boolean_not_function D op1 st =
     do {
       (n1, st1) \<leftarrow> convert_to_boolean_long D op1 st;
       if is_long n1 then Some (SUCCESS, IS_LONG (if lval n1 = 0 then 1 else 0), n1, st1)
       else Some (FAILURE, var_reset, n1, st1) }"

subsection \<open>Bitwise operators\<close>

definition char_op :: "(8 word \<Rightarrow> 8 word \<Rightarrow> 8 word) \<Rightarrow> char \<Rightarrow> char \<Rightarrow> char" where
  "char_op f c d = to_char (unat (f (of_nat (uchar c)) (of_nat (uchar d))))"

definition bitwise_not_function :: "'f doubles \<Rightarrow> 'f pval \<Rightarrow> 'f store \<Rightarrow> (int \<times> 'f pval \<times> 'f pval \<times> 'f store) option" where
  "bitwise_not_function D op1 st =
     (case op1 of
        IS_DOUBLE d \<Rightarrow> Some (SUCCESS, IS_LONG (not (to_long D d)), IS_LONG (to_long D d), st)
      | IS_LONG i \<Rightarrow> Some (SUCCESS, IS_LONG (not i), op1, st)
      | IS_STRING s \<Rightarrow> (let s' = map (\<lambda>c. to_char (255 - uchar c)) s in Some (SUCCESS, IS_STRING s', IS_STRING s', st))
      | UNDEFINED \<Rightarrow> Some (SUCCESS, UNDEFINED, op1, st)
      | _ \<Rightarrow> do { st1 \<leftarrow> pval_destructor (Destroy op1) st; Some (FAILURE, var_reset, op1, st1) })"

text \<open>
  On two strings \<open>result->type\<close> is not set: the result is a string only if \<open>result\<close> was one before (the
  argument \<open>r0\<close>), and otherwise a value whose type does not fit (\<open>OTHER\<close>). The bytes are
  written into the longer operand by \<open>bitwise_or_function\<close>, into the shorter one by the other two.
\<close>

definition retype :: "'f pval \<Rightarrow> char list \<Rightarrow> 'f pval" where
  "retype r0 s = (if string_of r0 \<noteq> None then IS_STRING s else OTHER)"

definition bitwise_or_function :: "'f doubles \<Rightarrow> 'f pval \<Rightarrow> 'f pval \<Rightarrow> 'f pval \<Rightarrow> 'f store \<Rightarrow> 'f outcome" where
  "bitwise_or_function D r0 op1 op2 st =
     (case (string_of op1, string_of op2) of
        (Some s1, Some s2) \<Rightarrow>
          (let (longer, shorter) = (if length s1 \<ge> length s2 then (s1, s2) else (s2, s1));
               s = map2 (char_op or) longer shorter @ drop (length shorter) longer
           in Some (SUCCESS, retype r0 s, op1, op2, st))
      | _ \<Rightarrow> do {
          (n1, n2, st1) \<leftarrow> both_to_long D op1 op2 st;
          Some (SUCCESS, IS_LONG (or (lval n1) (lval n2)), n1, n2, st1) })"

definition bitwise_and_function :: "'f doubles \<Rightarrow> 'f pval \<Rightarrow> 'f pval \<Rightarrow> 'f pval \<Rightarrow> 'f store \<Rightarrow> 'f outcome" where
  "bitwise_and_function D r0 op1 op2 st =
     (case (string_of op1, string_of op2) of
        (Some s1, Some s2) \<Rightarrow>
          (let (longer, shorter) = (if length s1 \<ge> length s2 then (s1, s2) else (s2, s1))
           in Some (SUCCESS, retype r0 (map2 (char_op and) shorter longer), op1, op2, st))
      | _ \<Rightarrow> do {
          (n1, n2, st1) \<leftarrow> both_to_long D op1 op2 st;
          Some (SUCCESS, IS_LONG (and (lval n1) (lval n2)), n1, n2, st1) })"

definition bitwise_xor_function :: "'f doubles \<Rightarrow> 'f pval \<Rightarrow> 'f pval \<Rightarrow> 'f pval \<Rightarrow> 'f store \<Rightarrow> 'f outcome" where
  "bitwise_xor_function D r0 op1 op2 st =
     (case (string_of op1, string_of op2) of
        (Some s1, Some s2) \<Rightarrow>
          (let (longer, shorter) = (if length s1 \<ge> length s2 then (s1, s2) else (s2, s1))
           in Some (SUCCESS, retype r0 (map2 (char_op xor) shorter longer), op1, op2, st))
      | _ \<Rightarrow> do {
          (n1, n2, st1) \<leftarrow> both_to_long D op1 op2 st;
          Some (SUCCESS, IS_LONG (xor (lval n1) (lval n2)), n1, n2, st1) })"

definition shift_left_function :: "'f doubles \<Rightarrow> 'f pval \<Rightarrow> 'f pval \<Rightarrow> 'f store \<Rightarrow> 'f outcome" where
  "shift_left_function D op1 op2 st =
     do {
       (n1, n2, st1) \<leftarrow> both_to_long D op1 op2 st;
       if lval n2 < 0 \<or> lval n2 \<ge> 64 then None
       else Some (SUCCESS, IS_LONG (wrap_long (push_bit (nat (lval n2)) (lval n1))), n1, n2, st1) }"

definition shift_right_function :: "'f doubles \<Rightarrow> 'f pval \<Rightarrow> 'f pval \<Rightarrow> 'f store \<Rightarrow> 'f outcome" where
  "shift_right_function D op1 op2 st =
     do {
       (n1, n2, st1) \<leftarrow> both_to_long D op1 op2 st;
       if lval n2 < 0 \<or> lval n2 \<ge> 64 then None
       else Some (SUCCESS, IS_LONG (drop_bit (nat (lval n2)) (lval n1)), n1, n2, st1) }"

subsection \<open>Strings\<close>

text \<open>\<open>op2\<close> is the scanner's: only its \<open>chval\<close> is used, and destroying it frees nothing.\<close>

definition add_char_to_string :: "'f pval \<Rightarrow> char \<Rightarrow> 'f store \<Rightarrow> (int \<times> 'f pval \<times> 'f store) option" where
  "add_char_to_string op1 chval st =
     (case string_of op1 of
        None \<Rightarrow> do { st1 \<leftarrow> pval_destructor (Destroy op1) st; Some (FAILURE, var_reset, st1) }
      | Some s \<Rightarrow> Some (SUCCESS, IS_STRING (s @ [chval]), st))"

definition concat_function :: "'f pval \<Rightarrow> 'f pval \<Rightarrow> bool \<Rightarrow> 'f store \<Rightarrow> 'f outcome" where
  "concat_function op1 op2 free_op2 st =
     (let n1 = convert_to_string op1; n2 = convert_to_string op2 in
      case (string_of n1, string_of n2) of
        (Some s1, Some s2) \<Rightarrow> Some (SUCCESS, IS_STRING (s1 @ s2), n1, n2, st)
      | _ \<Rightarrow> do {
          st1 \<leftarrow> pval_destructor (Destroy n1) st;
          st2 \<leftarrow> (if free_op2 then pval_destructor (Destroy n2) st1 else Some st1);
          Some (FAILURE, var_reset, n1, n2, st2) })"

definition concat_function_with_free :: "'f pval \<Rightarrow> 'f pval \<Rightarrow> 'f store \<Rightarrow> 'f outcome" where
  "concat_function_with_free op1 op2 st = concat_function op1 op2 True st"

definition php3_str_tolower :: "char list \<Rightarrow> nat \<Rightarrow> char list option" where
  "php3_str_tolower str len = (if len \<le> length str then Some (map tolower (take len str) @ drop len str) else None)"

text \<open>
  \<open>memcmp\<close> is documented up to its sign: here it is the difference of the first two bytes that differ,
  which is also what \<open>php3_binary_strcasecmp\<close> computes.
\<close>

fun first_difference :: "(char \<Rightarrow> nat) \<Rightarrow> char list \<Rightarrow> char list \<Rightarrow> int" where
  "first_difference f (c # cs) (d # ds) = (if f c \<noteq> f d then int (f c) - int (f d) else first_difference f cs ds)"
| "first_difference f cs ds = 0"

definition php3_binary_strcasecmp :: "char list \<Rightarrow> char list \<Rightarrow> int" where
  "php3_binary_strcasecmp s1 s2 =
     (let r = first_difference (\<lambda>c. uchar (tolower c)) s1 s2 in if r \<noteq> 0 then r else int (length s1) - int (length s2))"

definition php3_binary_strcmp :: "char list \<Rightarrow> char list \<Rightarrow> int" where
  "php3_binary_strcmp s1 s2 =
     (let retval = first_difference uchar s1 s2 in
      if retval = 0 then int (length s1) - int (length s2) else retval)"

text \<open>The numbers of two numeric strings as \<open>double\<close>s; a string read as a \<open>long\<close> is read again.\<close>

definition numeric_double :: "'f doubles \<Rightarrow> char list \<Rightarrow> 'f numeric \<Rightarrow> 'f" where
  "numeric_double D s n = (case n of Num_double d \<Rightarrow> d | _ \<Rightarrow> fst (strtod D (cstr s)))"

definition php3_smart_strcmp :: "'f doubles \<Rightarrow> char list \<Rightarrow> char list \<Rightarrow> 'f pval" where
  "php3_smart_strcmp D s1 s2 =
     (case (is_numeric_string D s1, is_numeric_string D s2) of
        (Not_numeric, _) \<Rightarrow> IS_LONG (php3_binary_strcmp s1 s2)
      | (_, Not_numeric) \<Rightarrow> IS_LONG (php3_binary_strcmp s1 s2)
      | (Num_bc d, _) \<Rightarrow> IS_LONG (bc_compare (str2num (cstr s1) 100) (str2num (cstr s2) 100))
      | (_, Num_bc d) \<Rightarrow> IS_LONG (bc_compare (str2num (cstr s1) 100) (str2num (cstr s2) 100))
      | (Num_long i, Num_long j) \<Rightarrow> IS_LONG (wrap_long (i - j))
      | (n1, n2) \<Rightarrow> IS_DOUBLE (fsub D (numeric_double D s1 n1) (numeric_double D s2 n2)))"

subsection \<open>Comparison\<close>

definition compare_function :: "'f doubles \<Rightarrow> 'f pval \<Rightarrow> 'f pval \<Rightarrow> 'f store \<Rightarrow> 'f outcome" where
  "compare_function D op1 op2 st =
     (case (string_of op1, string_of op2) of
        (Some s1, Some s2) \<Rightarrow> Some (SUCCESS, php3_smart_strcmp D s1 s2, op1, op2, st)
      | _ \<Rightarrow>
        (let n1 = convert_string_to_number D op1; n2 = convert_string_to_number D op2 in
         case (n1, n2) of
           (IS_LONG i, IS_LONG j) \<Rightarrow> Some (SUCCESS, IS_LONG (wrap_long (i - j)), n1, n2, st)
         | _ \<Rightarrow> float_result (fsub D) D n1 n2 st))"

text \<open>
  The six relations differ in the test made on the result of \<open>compare_function\<close>: equality converts it
  by \<open>convert_to_boolean_long\<close>, the others compare it with 0.
\<close>

definition equality :: "bool \<Rightarrow> 'f doubles \<Rightarrow> 'f pval \<Rightarrow> 'f pval \<Rightarrow> 'f store \<Rightarrow> 'f outcome" where
  "equality neg D op1 op2 st =
     do {
       (r, res, n1, n2, st1) \<leftarrow> compare_function D op1 op2 st;
       if r = FAILURE then Some (FAILURE, res, n1, n2, st1)
       else do {
         (v, st2) \<leftarrow> convert_to_boolean_long D res st1;
         if is_long v then Some (SUCCESS, IS_LONG (if (lval v = 0) = neg then 0 else 1), n1, n2, st2)
         else Some (FAILURE, var_reset, n1, n2, st2) } }"

definition is_equal_function :: "'f doubles \<Rightarrow> 'f pval \<Rightarrow> 'f pval \<Rightarrow> 'f store \<Rightarrow> 'f outcome" where
  "is_equal_function D op1 op2 st = equality False D op1 op2 st"

definition is_not_equal_function :: "'f doubles \<Rightarrow> 'f pval \<Rightarrow> 'f pval \<Rightarrow> 'f store \<Rightarrow> 'f outcome" where
  "is_not_equal_function D op1 op2 st = equality True D op1 op2 st"

definition ordering :: "(int \<Rightarrow> bool) \<Rightarrow> ('f \<Rightarrow> bool) \<Rightarrow> 'f doubles \<Rightarrow> 'f pval \<Rightarrow> 'f pval \<Rightarrow> 'f store \<Rightarrow> 'f outcome" where
  "ordering on_long on_double D op1 op2 st =
     do {
       (r, res, n1, n2, st1) \<leftarrow> compare_function D op1 op2 st;
       if r = FAILURE then Some (FAILURE, res, n1, n2, st1)
       else (case res of
          IS_LONG i \<Rightarrow> Some (SUCCESS, IS_LONG (if on_long i then 1 else 0), n1, n2, st1)
        | IS_DOUBLE d \<Rightarrow> Some (SUCCESS, IS_LONG (if on_double d then 1 else 0), n1, n2, st1)
        | _ \<Rightarrow> Some (FAILURE, var_reset, n1, n2, st1)) }"

definition is_smaller_function :: "'f doubles \<Rightarrow> 'f pval \<Rightarrow> 'f pval \<Rightarrow> 'f store \<Rightarrow> 'f outcome" where
  "is_smaller_function D op1 op2 st = ordering (\<lambda>i. i < 0) (\<lambda>d. fless D d (of_long D 0)) D op1 op2 st"

definition is_smaller_or_equal_function :: "'f doubles \<Rightarrow> 'f pval \<Rightarrow> 'f pval \<Rightarrow> 'f store \<Rightarrow> 'f outcome" where
  "is_smaller_or_equal_function D op1 op2 st =
     ordering (\<lambda>i. i \<le> 0) (\<lambda>d. fless D d (of_long D 0) \<or> feq D d (of_long D 0)) D op1 op2 st"

definition is_greater_function :: "'f doubles \<Rightarrow> 'f pval \<Rightarrow> 'f pval \<Rightarrow> 'f store \<Rightarrow> 'f outcome" where
  "is_greater_function D op1 op2 st = ordering (\<lambda>i. i > 0) (\<lambda>d. fless D (of_long D 0) d) D op1 op2 st"

definition is_greater_or_equal_function :: "'f doubles \<Rightarrow> 'f pval \<Rightarrow> 'f pval \<Rightarrow> 'f store \<Rightarrow> 'f outcome" where
  "is_greater_or_equal_function D op1 op2 st =
     ordering (\<lambda>i. i \<ge> 0) (\<lambda>d. fless D (of_long D 0) d \<or> feq D d (of_long D 0)) D op1 op2 st"

subsection \<open>Increment and decrement\<close>

text \<open>The loop of \<open>increment_string\<close>, from the last character on: the new characters, \<open>last\<close> and \<open>carry\<close>.\<close>

datatype char_class = LOWER_CASE | UPPER_CASE | NUMERIC

definition char_class_of :: "char \<Rightarrow> char_class option" where
  "char_class_of c =
     (if 97 \<le> uchar c \<and> uchar c \<le> 122 then Some LOWER_CASE
      else if 65 \<le> uchar c \<and> uchar c \<le> 90 then Some UPPER_CASE
      else if 48 \<le> uchar c \<and> uchar c \<le> 57 then Some NUMERIC
      else None)"

fun first_of :: "char_class \<Rightarrow> char" where
  "first_of LOWER_CASE = CHR ''a''" | "first_of UPPER_CASE = CHR ''A''" | "first_of NUMERIC = CHR ''0''"

fun last_of :: "char_class \<Rightarrow> char" where
  "last_of LOWER_CASE = CHR ''z''" | "last_of UPPER_CASE = CHR ''Z''" | "last_of NUMERIC = CHR ''9''"

fun increment_loop :: "char_class \<Rightarrow> bool \<Rightarrow> char list \<Rightarrow> char list \<times> char_class \<times> bool" where
  "increment_loop lst carry [] = ([], lst, carry)"
| "increment_loop lst carry (ch # s) =
     (case char_class_of ch of
        None \<Rightarrow> (ch # s, lst, False)
      | Some k \<Rightarrow>
          if ch = last_of k then (let (s', lst', carry') = increment_loop k True s in (first_of k # s', lst', carry'))
          else (to_char (uchar ch + 1) # s, k, False))"

definition increment_string :: "char list \<Rightarrow> char list" where
  "increment_string s =
     (let (s', lst, carry) = increment_loop NUMERIC False (rev s)
      in (if carry then [case lst of NUMERIC \<Rightarrow> CHR ''1'' | UPPER_CASE \<Rightarrow> CHR ''A'' | LOWER_CASE \<Rightarrow> CHR ''a''] else []) @ rev s')"

definition increment_function :: "'f doubles \<Rightarrow> 'f pval \<Rightarrow> int \<times> 'f pval" where
  "increment_function D op1 =
     (case op1 of
        IS_LONG i \<Rightarrow> (SUCCESS, IS_LONG (wrap_long (i + 1)))
      | IS_DOUBLE d \<Rightarrow> (SUCCESS, IS_DOUBLE (fadd D d (of_long D 1)))
      | IS_STRING s \<Rightarrow> (SUCCESS, if s = [] then IS_LONG 1 else IS_STRING (increment_string s))
      | UNDEFINED \<Rightarrow> (SUCCESS, IS_LONG 1)
      | _ \<Rightarrow> (FAILURE, op1))"

definition decrement_function :: "'f doubles \<Rightarrow> 'f pval \<Rightarrow> int \<times> 'f pval" where
  "decrement_function D op1 =
     (case op1 of
        IS_LONG i \<Rightarrow> (SUCCESS, IS_LONG (wrap_long (i - 1)))
      | IS_DOUBLE d \<Rightarrow> (SUCCESS, IS_DOUBLE (fsub D d (of_long D 1)))
      | IS_STRING s \<Rightarrow>
          (SUCCESS, if s = [] then IS_LONG (- 1)
                    else case is_numeric_string D s of Num_long i \<Rightarrow> IS_LONG (wrap_long (i - 1)) | _ \<Rightarrow> op1)
      | UNDEFINED \<Rightarrow> (SUCCESS, IS_LONG (- 1))
      | _ \<Rightarrow> (FAILURE, op1))"

end
