(* ===== verification/Arithmetic.thy ===== *)
theory Arithmetic
  imports Operators
begin

text \<open>
  The arithmetic operators on \<open>long\<close>s, whose overflow test is made on \<open>double\<close>s. What the code needs of the
  processor is \<open>ieee D emb rnd\<close>: on integers the operations of \<open>D\<close> are exact up to rounding to a nearest
  \<open>double\<close>, as IEEE 754 has it (\<open>emb\<close> is the \<open>double\<close> of an integer that has one).
\<close>

subsection \<open>Integers as doubles\<close>

definition representable :: "int \<Rightarrow> bool" where
  "representable m \<longleftrightarrow> (\<exists>k e. \<bar>k\<bar> \<le> 2 ^ 53 \<and> m = k * 2 ^ e)"

definition nearest :: "(int \<Rightarrow> int) \<Rightarrow> bool" where
  "nearest rnd \<longleftrightarrow> (\<forall>n. representable (rnd n) \<and> (\<forall>m. representable m \<longrightarrow> \<bar>rnd n - n\<bar> \<le> \<bar>m - n\<bar>))"

definition ieee :: "'f doubles \<Rightarrow> (int \<Rightarrow> 'f) \<Rightarrow> (int \<Rightarrow> int) \<Rightarrow> bool" where
  "ieee D emb rnd \<longleftrightarrow> nearest rnd \<and> (\<forall>i. of_long D i = emb (rnd i)) \<and>
     (\<forall>a b. representable a \<longrightarrow> representable b \<longrightarrow>
        fadd D (emb a) (emb b) = emb (rnd (a + b)) \<and> fsub D (emb a) (emb b) = emb (rnd (a - b)) \<and>
        fmul D (emb a) (emb b) = emb (rnd (a * b)) \<and> fless D (emb a) (emb b) = (a < b))"

lemma representableI: "\<bar>k\<bar> \<le> 2 ^ 53 \<Longrightarrow> representable (k * 2 ^ e)"
  unfolding representable_def by blast

lemma nearestD: "nearest rnd \<Longrightarrow> representable (rnd n)" "nearest rnd \<Longrightarrow> representable m \<Longrightarrow> \<bar>rnd n - n\<bar> \<le> \<bar>m - n\<bar>"
  unfolding nearest_def by blast+

lemma rnd_exact: "nearest rnd \<Longrightarrow> representable n \<Longrightarrow> rnd n = n"
  using nearestD(2) [of rnd n n] by simp

lemma rnd_small: "nearest rnd \<Longrightarrow> \<bar>n\<bar> \<le> 2 ^ 53 \<Longrightarrow> rnd n = n"
  using representableI [of n 0] by (simp add: rnd_exact)

text \<open>A multiple of \<open>p\<close> next to \<open>n\<close>.\<close>

definition quantum :: "int \<Rightarrow> int \<Rightarrow> int" where
  "quantum p n = (2 * n + p) div (2 * p)"

lemma quantum_near:
  assumes "0 < p"
  shows "- p \<le> 2 * (quantum p n * p - n)" "2 * (quantum p n * p - n) \<le> p"
proof -
  have "2 * n + p = 2 * p * quantum p n + (2 * n + p) mod (2 * p)" by (simp add: quantum_def)
  moreover have "0 \<le> (2 * n + p) mod (2 * p)" "(2 * n + p) mod (2 * p) < 2 * p" using assms by simp_all
  ultimately show "- p \<le> 2 * (quantum p n * p - n)" "2 * (quantum p n * p - n) \<le> p" by (auto simp: algebra_simps)
qed

lemma quantum_nearest:
  assumes "0 < p"
  shows "\<bar>quantum p n * p - n\<bar> \<le> \<bar>j * p - n\<bar>"
proof (cases "j = quantum p n")
  case False
  then have "1 * p \<le> \<bar>j - quantum p n\<bar> * \<bar>p\<bar>" using assms by (intro mult_mono) auto
  then have "p \<le> \<bar>j * p - quantum p n * p\<bar>" by (simp only: abs_mult [symmetric] left_diff_distrib mult_1)
  moreover have "\<bar>2 * (quantum p n * p - n)\<bar> \<le> p" using quantum_near [OF assms, of n] unfolding abs_le_iff by simp
  moreover obtain a b where "a = quantum p n * p" "b = j * p" by simp
  ultimately show ?thesis by simp
qed simp

lemma quantum_bound:
  assumes "0 < p" "\<bar>n\<bar> \<le> 2 ^ 53 * p"
  shows "\<bar>quantum p n\<bar> \<le> 2 ^ 53"
proof -
  note err = quantum_near [OF assms(1), of n]
  have bound: "n \<le> 9007199254740992 * p" "- n \<le> 9007199254740992 * p" using assms(2) by (simp_all add: abs_le_iff)
  have "quantum p n \<le> 2 ^ 53"
  proof (rule ccontr)
    assume "\<not> quantum p n \<le> 2 ^ 53"
    then have "(2 ^ 53 + 1) * p \<le> quantum p n * p" using assms(1) by (intro mult_right_mono) auto
    then have "9007199254740992 * p + p \<le> quantum p n * p" by (simp add: distrib_right)
    with err(2) bound(1) assms(1) show False by (simp add: right_diff_distrib)
  qed
  moreover have "- (2 ^ 53) \<le> quantum p n"
  proof (rule ccontr)
    assume "\<not> - (2 ^ 53) \<le> quantum p n"
    then have "quantum p n * p \<le> (- (2 ^ 53) - 1) * p" using assms(1) by (intro mult_right_mono) auto
    then have "quantum p n * p \<le> - (9007199254740992 * p) - p" by (simp add: left_diff_distrib)
    with err(1) bound(2) assms(1) show False by (simp add: right_diff_distrib)
  qed
  ultimately show ?thesis by simp
qed

text \<open>The error of rounding is at most half the distance of two neighbours.\<close>

lemma rnd_error:
  assumes "nearest rnd" "\<bar>n\<bar> \<le> 2 ^ (53 + e)"
  shows "2 * \<bar>rnd n - n\<bar> \<le> 2 ^ e"
proof -
  define p :: int where "p = 2 ^ e"
  have p: "0 < p" by (simp add: p_def)
  have "\<bar>n\<bar> \<le> 2 ^ 53 * p" using assms(2) by (simp add: p_def power_add)
  from representableI [OF quantum_bound [OF p this], of e]
  have "\<bar>rnd n - n\<bar> \<le> \<bar>quantum p n * p - n\<bar>" unfolding p_def by (rule nearestD(2) [OF assms(1)])
  moreover have "2 * \<bar>quantum p n * p - n\<bar> \<le> p"
    using quantum_near [OF p, of n] unfolding abs_if by (simp only: split: if_split) simp
  ultimately show ?thesis unfolding p_def [symmetric] by simp
qed

text \<open>Such a rounding: the least exponent for which the number fits into 53 bits.\<close>

function exponent :: "int \<Rightarrow> nat" where
  "exponent m = (if m \<le> 2 ^ 53 then 0 else Suc (exponent ((m + 1) div 2)))"
  by pat_completeness auto
termination
  by (relation "measure nat") auto

declare exponent.simps [simp del]

definition round53 :: "int \<Rightarrow> int" where
  "round53 n = (let p = 2 ^ exponent \<bar>n\<bar> in quantum p n * p)"

lemma exponent_fits: "m \<le> 2 ^ (53 + exponent m) \<and> (0 < exponent m \<longrightarrow> 2 ^ (52 + exponent m) < m)"
proof (induction m rule: exponent.induct)
  case (1 m)
  show ?case
  proof (cases "m \<le> 2 ^ 53")
    case True
    then show ?thesis by (simp add: exponent.simps [of m])
  next
    case False
    let ?h = "(m + 1) div 2"
    have "m \<le> 2 * ?h" "2 * ?h \<le> m + 1" by presburger+
    moreover have "2 ^ (52 + Suc (exponent ?h)) < m"
    proof (cases "exponent ?h")
      case (Suc d)
      then have "2 ^ (52 + exponent ?h) + 1 \<le> ?h" using 1 False by simp
      then have "2 * 2 ^ (52 + exponent ?h) + 2 \<le> 2 * ?h" by simp
      moreover have "(2 :: int) ^ (52 + Suc (exponent ?h)) = 2 * 2 ^ (52 + exponent ?h)" by (simp only: add_Suc_right power_Suc)
      ultimately show ?thesis using \<open>2 * ?h \<le> m + 1\<close> by linarith
    qed (use False in simp)
    moreover have "?h \<le> 2 ^ (53 + exponent ?h)" using 1 False by simp
    then have "2 * ?h \<le> 2 ^ (53 + Suc (exponent ?h))" by (simp only: add_Suc_right power_Suc mult_le_cancel_left_pos zero_less_numeral)
    moreover have "exponent m = Suc (exponent ?h)" using False by (subst exponent.simps) simp
    ultimately show ?thesis by simp
  qed
qed

lemma round53_nearest: "nearest round53"
  unfolding nearest_def
proof (intro allI conjI impI)
  fix n :: int
  let ?e = "exponent \<bar>n\<bar>"
  define p :: int where "p = 2 ^ ?e"
  have p: "0 < p" by (simp add: p_def)
  have "\<bar>n\<bar> \<le> 2 ^ 53 * p" using exponent_fits [of "\<bar>n\<bar>"] by (simp add: p_def power_add)
  from representableI [OF quantum_bound [OF p this], of ?e]
  show "representable (round53 n)" by (simp add: round53_def p_def Let_def)
  fix m assume "representable m"
  then obtain k f where m: "\<bar>k\<bar> \<le> 2 ^ 53" "m = k * 2 ^ f" unfolding representable_def by blast
  have "\<bar>quantum p n * p - n\<bar> \<le> \<bar>m - n\<bar>"
  proof (cases "?e \<le> f")
    case True
    then have "(2 :: int) ^ f = 2 ^ (f - ?e) * p" unfolding p_def by (simp flip: power_add)
    then have "m = k * 2 ^ (f - ?e) * p" using m(2) by simp
    then show ?thesis using quantum_nearest [OF p] by simp
  next
    case False
    then have "(2 :: int) ^ f \<le> 2 ^ (?e - 1)" by (intro power_increasing) auto
    have "\<bar>m\<bar> \<le> 2 ^ 53 * 2 ^ f" using m by (simp add: abs_mult mult_right_mono)
    also have "\<dots> \<le> 2 ^ 53 * 2 ^ (?e - 1)" using \<open>(2 :: int) ^ f \<le> 2 ^ (?e - 1)\<close> by (intro mult_left_mono) auto
    also have "\<dots> = 2 ^ (53 + (?e - 1))" by (simp only: power_add)
    also have "53 + (?e - 1) = 52 + ?e" using False by simp
    finally have "\<bar>m\<bar> \<le> 2 ^ 52 * p" by (simp add: p_def power_add)
    moreover have "2 ^ 52 * p < \<bar>n\<bar>" using exponent_fits [of "\<bar>n\<bar>"] False by (simp add: p_def power_add)
    ultimately have "\<bar>(if 0 \<le> n then 2 ^ 52 else - (2 ^ 52)) * p - n\<bar> \<le> \<bar>m - n\<bar>" using p by auto
    with quantum_nearest [OF p, of n "if 0 \<le> n then 2 ^ 52 else - (2 ^ 52)"] show ?thesis by linarith
  qed
  then show "\<bar>round53 n - n\<bar> \<le> \<bar>m - n\<bar>" by (simp add: round53_def p_def Let_def)
qed

text \<open>Above \<open>2 ^ 63\<close> neighbours are 2048 apart.\<close>

lemma representable_gap:
  assumes "representable m" "2 ^ 63 < m"
  shows "2 ^ 63 + 2048 \<le> m"
proof -
  obtain k e where m: "\<bar>k\<bar> \<le> 2 ^ 53" "m = k * 2 ^ e" using assms(1) unfolding representable_def by blast
  have "11 \<le> e"
  proof (rule ccontr)
    assume "\<not> 11 \<le> e"
    then have "(2 :: int) ^ e \<le> 2 ^ 10" by (intro power_increasing) auto
    have "k * 2 ^ e \<le> 2 ^ 53 * 2 ^ e" using m(1) by (intro mult_right_mono) auto
    also have "\<dots> \<le> 2 ^ 53 * 2 ^ 10" using \<open>(2 :: int) ^ e \<le> 2 ^ 10\<close> by (intro mult_left_mono) auto
    finally show False using assms(2) m(2) by simp
  qed
  then have "(2 :: int) ^ e = 2 ^ 11 * 2 ^ (e - 11)" by (metis le_add_diff_inverse power_add)
  then have "m = 2048 * (k * 2 ^ (e - 11))" using m(2) by simp
  with assms(2) show ?thesis by simp
qed

lemma rnd_63:
  assumes "nearest rnd"
  shows "rnd (2 ^ 63) = 2 ^ 63" "rnd LONG_MAX = 2 ^ 63" "rnd LONG_MIN = - (2 ^ 63)"
proof -
  have r: "representable (2 ^ 63)" using representableI [of 1 63] by simp
  show "rnd (2 ^ 63) = 2 ^ 63" by (rule rnd_exact [OF assms r])
  have "representable (- (2 ^ 63))" using representableI [of "- 1" 63] by simp
  then show "rnd LONG_MIN = - (2 ^ 63)" using rnd_exact [OF assms] by (simp add: LONG_MIN_def)
  have near: "\<bar>rnd LONG_MAX - LONG_MAX\<bar> \<le> 1" using nearestD(2) [OF assms r, of LONG_MAX] by (simp add: LONG_MAX_def)
  obtain k e where m: "\<bar>k\<bar> \<le> 2 ^ 53" "rnd LONG_MAX = k * 2 ^ e" using nearestD(1) [OF assms, of LONG_MAX] unfolding representable_def by blast
  have "2 \<le> e"
  proof (rule ccontr)
    assume "\<not> 2 \<le> e"
    then have "(2 :: int) ^ e \<le> 2 ^ 1" by (intro power_increasing) auto
    have "k * 2 ^ e \<le> 2 ^ 53 * 2 ^ e" using m(1) by (intro mult_right_mono) auto
    also have "\<dots> \<le> 2 ^ 53 * 2 ^ 1" using \<open>(2 :: int) ^ e \<le> 2 ^ 1\<close> by (intro mult_left_mono) auto
    finally show False using near m(2) by (simp add: LONG_MAX_def)
  qed
  then have "(2 :: int) ^ e = 2 ^ 2 * 2 ^ (e - 2)" by (metis le_add_diff_inverse power_add)
  then have "rnd LONG_MAX = 4 * (k * 2 ^ (e - 2))" using m(2) by simp
  with near show "rnd LONG_MAX = 2 ^ 63" by (simp add: LONG_MAX_def)
qed

text \<open>A sum of two rounded numbers whose exact sum is a \<open>long\<close> does not come out above \<open>2 ^ 63\<close>.\<close>

lemma rnd_not_above:
  assumes "nearest rnd" "s < 2 ^ 63 + 1024"
  shows "\<not> 2 ^ 63 < rnd s"
proof
  assume "2 ^ 63 < rnd s"
  then have gap: "2 ^ 63 + 2048 \<le> rnd s" using representable_gap nearestD(1) [OF assms(1)] by blast
  have "representable (2 ^ 63)" using representableI [of 1 63] by simp
  from nearestD(2) [OF assms(1) this, of s] gap assms(2) show False by linarith
qed

lemma rnd_above:
  assumes "nearest rnd" "2 ^ 63 + 1024 < s"
  shows "2 ^ 63 < rnd s"
proof -
  have "representable (2 ^ 63 + 2048)" using representableI [of "2 ^ 52 + 1" 11] by simp
  from nearestD(2) [OF assms(1) this, of s] assms(2) show ?thesis by linarith
qed

lemma long_error: "nearest rnd \<Longrightarrow> LONG_MIN \<le> i \<Longrightarrow> i \<le> LONG_MAX \<Longrightarrow> \<bar>rnd i - i\<bar> \<le> 512"
  using rnd_error [of rnd i 10] by (simp add: LONG_MIN_def LONG_MAX_def abs_if split: if_splits)

lemma rnd_sign: "nearest rnd \<Longrightarrow> 0 \<le> n \<Longrightarrow> 0 \<le> rnd n" "nearest rnd \<Longrightarrow> n \<le> 0 \<Longrightarrow> rnd n \<le> 0"
  using nearestD(2) [of rnd 0 n] representableI [of 0 0] by auto

lemma rnd_not_below:
  assumes "nearest rnd" "- (2 ^ 63) - 1024 < s"
  shows "\<not> rnd s < - (2 ^ 63)"
proof
  assume "rnd s < - (2 ^ 63)"
  moreover have "representable (- rnd s)" using nearestD(1) [OF assms(1), of s] unfolding representable_def
    by (metis abs_minus_cancel mult_minus_left)
  ultimately have gap: "rnd s \<le> - (2 ^ 63) - 2048" using representable_gap [of "- rnd s"] by simp
  have "representable (- (2 ^ 63))" using representableI [of "- 1" 63] by simp
  from nearestD(2) [OF assms(1) this, of s] gap assms(2) show False by linarith
qed

lemma rnd_below:
  assumes "nearest rnd" "s < - (2 ^ 63) - 1024"
  shows "rnd s < - (2 ^ 63)"
proof -
  have "representable (- (2 ^ 63) - 2048)" using representableI [of "- (2 ^ 52) - 1" 11] by simp
  from nearestD(2) [OF assms(1) this, of s] assms(2) show ?thesis by linarith
qed

subsection \<open>The error of a difference and of a product\<close>

lemma half_error: "nearest rnd \<Longrightarrow> \<bar>i\<bar> \<le> 2 ^ 62 \<Longrightarrow> \<bar>rnd i - i\<bar> \<le> 256"
  using rnd_error [of rnd i 9] by simp

lemma sub_error:
  assumes "nearest rnd" "LONG_MIN \<le> i" "i \<le> LONG_MAX" "LONG_MIN \<le> j" "j \<le> LONG_MAX" "LONG_MIN \<le> i - j"
  shows "- (2 ^ 63) - 1024 < rnd i - rnd j"
proof (cases "\<bar>i\<bar> \<le> 2 ^ 62 \<or> \<bar>j\<bar> \<le> 2 ^ 62")
  case True
  then have "\<bar>rnd i - i\<bar> + \<bar>rnd j - j\<bar> \<le> 768"
    using half_error [OF assms(1)] long_error [OF assms(1)] assms(2-5) by (smt (verit))
  with assms(6) show ?thesis by (simp add: LONG_MIN_def)
next
  case False
  then have "- (2 ^ 62) - 1024 \<le> i - j - 1024" using assms(2-6) by (auto simp: LONG_MIN_def LONG_MAX_def)
  moreover have "\<bar>rnd i - i\<bar> \<le> 512" "\<bar>rnd j - j\<bar> \<le> 512" using long_error [OF assms(1)] assms(2-5) by simp_all
  ultimately show ?thesis by simp
qed

lemma power_between: "2 ^ 53 < n \<Longrightarrow> n < 2 ^ 64 \<Longrightarrow> \<exists>e \<le> 11. (2 :: int) ^ (52 + e) < n \<and> n \<le> 2 ^ (53 + e)"
proof -
  assume n: "2 ^ 53 < n" "n < 2 ^ 64"
  define e where "e = (LEAST e. n \<le> 2 ^ (53 + e))"
  have le: "n \<le> 2 ^ (53 + e)" unfolding e_def by (rule LeastI [of _ 11]) (use n in simp)
  have "e \<le> 11" unfolding e_def by (rule Least_le) (use n in simp)
  have "e \<noteq> 0" using le n(1) by (intro notI) simp
  then obtain d where d: "e = Suc d" by (cases e) auto
  then have "\<not> n \<le> 2 ^ (53 + d)" using not_less_Least [of d "\<lambda>e. n \<le> 2 ^ (53 + e)"] unfolding e_def by simp
  with le d \<open>e \<le> 11\<close> show ?thesis by (intro exI [of _ e]) simp
qed

lemma mul_error_large:
  assumes "nearest rnd" "2 ^ 53 < \<bar>i\<bar>" "\<bar>i\<bar> \<le> 2 ^ 63" "\<bar>i * j\<bar> \<le> 2 ^ 63"
  shows "\<bar>rnd i * rnd j - i * j\<bar> < 1024"
proof -
  obtain e where e: "e \<le> 11" "2 ^ (52 + e) < \<bar>i\<bar>" "\<bar>i\<bar> \<le> 2 ^ (53 + e)" using power_between [of "\<bar>i\<bar>"] assms(2,3) by auto
  have "\<bar>j\<bar> < 2 ^ (11 - e)"
  proof (rule ccontr)
    assume "\<not> \<bar>j\<bar> < 2 ^ (11 - e)"
    then have "2 ^ (52 + e) * 2 ^ (11 - e) < \<bar>i\<bar> * \<bar>j\<bar>"
      using e(2) by (intro mult_less_le_imp_less) auto
    moreover have "(2 :: int) ^ (52 + e) * 2 ^ (11 - e) = 2 ^ 63" using e(1) by (simp flip: power_add)
    ultimately show False using assms(4) by (simp add: abs_mult)
  qed
  moreover have "(2 :: int) ^ (11 - e) \<le> 2 ^ 11" by (intro power_increasing) auto
  ultimately have j: "rnd j = j" by (intro rnd_small [OF assms(1)]) simp
  have "2 * \<bar>rnd i - i\<bar> \<le> 2 ^ e" by (rule rnd_error [OF assms(1) e(3)])
  then have "2 * \<bar>rnd i - i\<bar> * \<bar>j\<bar> \<le> 2 ^ e * \<bar>j\<bar>" by (intro mult_right_mono) auto
  also have "\<dots> < 2 ^ e * 2 ^ (11 - e)" using \<open>\<bar>j\<bar> < 2 ^ (11 - e)\<close> by (intro mult_strict_left_mono) auto
  also have "(2 :: int) ^ e * 2 ^ (11 - e) = 2 ^ 11" using e(1) by (simp flip: power_add)
  finally have "\<bar>rnd i - i\<bar> * \<bar>j\<bar> < 1024" by (simp add: mult.commute)
  moreover have "rnd i * rnd j - i * j = (rnd i - i) * j" by (simp add: j left_diff_distrib)
  ultimately show ?thesis by (simp only: abs_mult)
qed

lemma mul_error:
  assumes "nearest rnd" "\<bar>i\<bar> \<le> 2 ^ 63" "\<bar>j\<bar> \<le> 2 ^ 63" "\<bar>i * j\<bar> \<le> 2 ^ 63"
  shows "\<bar>rnd i * rnd j - i * j\<bar> < 1024"
proof (cases "2 ^ 53 < \<bar>i\<bar>")
  case False
  then have i: "rnd i = i" by (intro rnd_small [OF assms(1)]) simp
  show ?thesis
  proof (cases "2 ^ 53 < \<bar>j\<bar>")
    case True
    have "\<bar>j * i\<bar> \<le> 2 ^ 63" using assms(4) by (simp add: mult.commute)
    from mul_error_large [OF assms(1) True assms(3) this] show ?thesis by (simp add: mult.commute)
  next
    case False
    then have "rnd j = j" by (intro rnd_small [OF assms(1)]) simp
    with i show ?thesis by simp
  qed
qed (rule mul_error_large [OF assms(1) _ assms(2,4)])

text \<open>A product above \<open>2 ^ 63\<close> by more than the relative error is found by the test.\<close>

lemma relative_error:
  assumes "nearest rnd" "\<bar>i\<bar> \<le> 2 ^ 63"
  shows "(2 ^ 53 - 1) * \<bar>i\<bar> \<le> 2 ^ 53 * \<bar>rnd i\<bar>"
proof (cases "2 ^ 53 < \<bar>i\<bar>")
  case True
  then obtain e where e: "2 ^ (52 + e) < \<bar>i\<bar>" "\<bar>i\<bar> \<le> 2 ^ (53 + e)" using power_between [of "\<bar>i\<bar>"] assms(2) by auto
  have "2 * \<bar>rnd i - i\<bar> \<le> 2 ^ e" by (rule rnd_error [OF assms(1) e(2)])
  moreover have "(2 :: int) ^ (52 + e) = 2 ^ 52 * 2 ^ e" by (rule power_add)
  ultimately have "2 ^ 53 * \<bar>rnd i - i\<bar> \<le> \<bar>i\<bar>" using e(1) by simp
  moreover have "\<bar>i\<bar> \<le> \<bar>rnd i\<bar> + \<bar>rnd i - i\<bar>" by arith
  ultimately show ?thesis by simp
next
  case False
  then have "rnd i = i" by (intro rnd_small [OF assms(1)]) simp
  then show ?thesis by simp
qed

lemma mul_above:
  assumes "nearest rnd" "\<bar>i\<bar> \<le> 2 ^ 63" "\<bar>j\<bar> \<le> 2 ^ 63" "2 ^ 63 + 8192 \<le> i * j"
  shows "2 ^ 63 < rnd (rnd i * rnd j)"
proof (rule rnd_above [OF assms(1)])
  have "0 \<le> rnd i * rnd j" using assms(4) rnd_sign [OF assms(1), of i] rnd_sign [OF assms(1), of j]
    by (cases "0 \<le> i"; cases "0 \<le> j") (auto simp: mult_nonneg_nonpos mult_nonneg_nonpos2 zero_le_mult_iff not_le
      dest: mult_nonneg_nonpos [of i j] mult_nonneg_nonpos2 [of j i])
  then have abs: "rnd i * rnd j = \<bar>rnd i\<bar> * \<bar>rnd j\<bar>" "i * j = \<bar>i\<bar> * \<bar>j\<bar>" using assms(4) by (simp_all flip: abs_mult)
  have "((2 ^ 53 - 1) * \<bar>i\<bar>) * ((2 ^ 53 - 1) * \<bar>j\<bar>) \<le> (2 ^ 53 * \<bar>rnd i\<bar>) * (2 ^ 53 * \<bar>rnd j\<bar>)"
    by (rule mult_mono [OF relative_error [OF assms(1,2)] relative_error [OF assms(1,3)]]) simp_all
  then have "(2 ^ 53 - 1) * (2 ^ 53 - 1) * (i * j) \<le> 2 ^ 53 * 2 ^ 53 * (rnd i * rnd j)"
    unfolding abs by (simp only: mult.assoc mult.left_commute)
  with assms(4) show "2 ^ 63 + 1024 < rnd i * rnd j" by simp
qed

lemma mul_negative: "nearest rnd \<Longrightarrow> i * j \<le> 0 \<Longrightarrow> \<not> 2 ^ 63 < rnd (rnd i * rnd j)"
proof -
  assume n: "nearest rnd" "i * j \<le> 0"
  have "rnd i * rnd j \<le> 0" using n(2) rnd_sign [OF n(1), of i] rnd_sign [OF n(1), of j]
    by (auto simp: mult_le_0_iff)
  then have "rnd (rnd i * rnd j) \<le> 0" by (rule rnd_sign(2) [OF n(1)])
  then show ?thesis by simp
qed

subsection \<open>The operators on longs\<close>

lemma ieeeD:
  assumes "ieee D emb rnd"
  shows "nearest rnd" "of_long D i = emb (rnd i)"
    "fadd D (emb (rnd i)) (emb (rnd j)) = emb (rnd (rnd i + rnd j))" "fsub D (emb (rnd i)) (emb (rnd j)) = emb (rnd (rnd i - rnd j))"
    "fmul D (emb (rnd i)) (emb (rnd j)) = emb (rnd (rnd i * rnd j))" "fless D (emb (rnd i)) (emb (rnd j)) = (rnd i < rnd j)"
  using assms nearestD(1) [of rnd] unfolding ieee_def by blast+

lemma long_operands [simp]:
  "convert_string_to_number D (IS_LONG i) = IS_LONG i" "convert_string_to_number D (IS_DOUBLE d) = IS_DOUBLE d"
  by (simp_all add: convert_string_to_number_def string_of_def)

lemma limits:
  assumes "ieee D emb rnd"
  shows "fless D (of_long D LONG_MAX) (emb (rnd n)) = (2 ^ 63 < rnd n)" "fless D (emb (rnd n)) (of_long D LONG_MIN) = (rnd n < - (2 ^ 63))"
  using ieeeD(6) [OF assms, of LONG_MAX n] ieeeD(6) [OF assms, of n LONG_MIN] rnd_63 [OF ieeeD(1) [OF assms]]
  unfolding ieeeD(2) [OF assms] by simp_all

lemma add_longs:
  assumes "ieee D emb rnd"
  shows "add_function D (IS_LONG i) (IS_LONG j) st =
    Some (SUCCESS, if 2 ^ 63 < rnd (rnd i + rnd j) then IS_DOUBLE (emb (rnd (rnd i + rnd j))) else IS_LONG (wrap_long (i + j)),
      IS_LONG i, IS_LONG j, st)"
proof -
  have d: "fadd D (of_long D i) (of_long D j) = emb (rnd (rnd i + rnd j))" using ieeeD [OF assms] by simp
  show ?thesis unfolding add_function_def by (simp add: d Let_def limits [OF assms])
qed

lemma sub_longs:
  assumes "ieee D emb rnd"
  shows "sub_function D (IS_LONG i) (IS_LONG j) st =
    Some (SUCCESS, if rnd (rnd i - rnd j) < - (2 ^ 63) then IS_DOUBLE (emb (rnd (rnd i - rnd j))) else IS_LONG (wrap_long (i - j)),
      IS_LONG i, IS_LONG j, st)"
proof -
  have d: "fsub D (of_long D i) (of_long D j) = emb (rnd (rnd i - rnd j))" using ieeeD [OF assms] by simp
  show ?thesis unfolding sub_function_def by (simp add: d Let_def limits [OF assms])
qed

lemma mul_longs:
  assumes "ieee D emb rnd"
  shows "mul_function D (IS_LONG i) (IS_LONG j) st =
    Some (SUCCESS, if 2 ^ 63 < rnd (rnd i * rnd j) then IS_DOUBLE (emb (rnd (rnd i * rnd j))) else IS_LONG (wrap_long (i * j)),
      IS_LONG i, IS_LONG j, st)"
proof -
  have d: "fmul D (of_long D i) (of_long D j) = emb (rnd (rnd i * rnd j))" using ieeeD [OF assms] by simp
  show ?thesis unfolding mul_function_def by (simp add: d Let_def limits [OF assms])
qed

text \<open>
  C24: On \<open>long\<close>s, \<open>+\<close>, \<open>-\<close> and \<open>*\<close> give the exact \<open>long\<close> whenever there is one: the test on \<open>double\<close>s has no false
  alarm. The test looks in one direction only and is not sharp: a sum or a product below \<open>LONG_MIN\<close>, a difference above
  \<open>LONG_MAX\<close> and \<open>LONG_MAX + 1\<close> wrap around; a sum above \<open>LONG_MAX\<close> by more than 2049, a product above it by more than
  8192, and a difference below \<open>LONG_MIN\<close> by more than 2049, is the \<open>double\<close> of the rounded operands.
\<close>

theorem long_arithmetic:
  assumes "ieee D emb rnd" "LONG_MIN \<le> i" "i \<le> LONG_MAX" "LONG_MIN \<le> j" "j \<le> LONG_MAX"
  shows "(LONG_MIN \<le> i + j \<and> i + j \<le> LONG_MAX \<longrightarrow> add_function D (IS_LONG i) (IS_LONG j) st = Some (SUCCESS, IS_LONG (i + j), IS_LONG i, IS_LONG j, st)) \<and>
    (LONG_MIN \<le> i - j \<and> i - j \<le> LONG_MAX \<longrightarrow> sub_function D (IS_LONG i) (IS_LONG j) st = Some (SUCCESS, IS_LONG (i - j), IS_LONG i, IS_LONG j, st)) \<and>
    (LONG_MIN \<le> i * j \<and> i * j \<le> LONG_MAX \<longrightarrow> mul_function D (IS_LONG i) (IS_LONG j) st = Some (SUCCESS, IS_LONG (i * j), IS_LONG i, IS_LONG j, st)) \<and>
    (i + j < LONG_MIN \<or> i + j = LONG_MAX + 1 \<and> i = LONG_MAX \<longrightarrow>
       add_function D (IS_LONG i) (IS_LONG j) st = Some (SUCCESS, IS_LONG (wrap_long (i + j)), IS_LONG i, IS_LONG j, st) \<and> wrap_long (i + j) \<noteq> i + j) \<and>
    (i - j > LONG_MAX \<longrightarrow> sub_function D (IS_LONG i) (IS_LONG j) st = Some (SUCCESS, IS_LONG (wrap_long (i - j)), IS_LONG i, IS_LONG j, st) \<and> wrap_long (i - j) \<noteq> i - j) \<and>
    (i + j > LONG_MAX + 2049 \<longrightarrow> add_function D (IS_LONG i) (IS_LONG j) st = Some (SUCCESS, IS_DOUBLE (emb (rnd (rnd i + rnd j))), IS_LONG i, IS_LONG j, st)) \<and>
    (i - j < LONG_MIN - 2049 \<longrightarrow> sub_function D (IS_LONG i) (IS_LONG j) st = Some (SUCCESS, IS_DOUBLE (emb (rnd (rnd i - rnd j))), IS_LONG i, IS_LONG j, st)) \<and>
    (i * j < LONG_MIN \<longrightarrow> mul_function D (IS_LONG i) (IS_LONG j) st = Some (SUCCESS, IS_LONG (wrap_long (i * j)), IS_LONG i, IS_LONG j, st) \<and> wrap_long (i * j) \<noteq> i * j) \<and>
    (i * j > LONG_MAX + 8192 \<longrightarrow> mul_function D (IS_LONG i) (IS_LONG j) st = Some (SUCCESS, IS_DOUBLE (emb (rnd (rnd i * rnd j))), IS_LONG i, IS_LONG j, st))"
proof -
  note ops = add_longs [OF assms(1)] sub_longs [OF assms(1)] mul_longs [OF assms(1)]
  note near = ieeeD(1) [OF assms(1)]
  have e: "\<bar>rnd i - i\<bar> \<le> 512" "\<bar>rnd j - j\<bar> \<le> 512" using long_error [OF near] assms(2-5) by simp_all
  have wrapped: "wrap_long n \<noteq> n" if "n < LONG_MIN \<or> LONG_MAX < n" for n
    using that wrap_long_bounds [of n] by auto
  have add: "\<not> 2 ^ 63 < rnd (rnd i + rnd j)" if "i + j \<le> LONG_MAX"
    using that e by (intro rnd_not_above [OF near]) (simp add: LONG_MAX_def)
  have max: "\<not> 2 ^ 63 < rnd (rnd i + rnd j)" if "i + j = LONG_MAX + 1" "i = LONG_MAX"
    using that e rnd_small [OF near, of 1] rnd_63 [OF near] by (intro rnd_not_above [OF near]) (simp add: LONG_MAX_def)
  have sub: "\<not> rnd (rnd i - rnd j) < - (2 ^ 63)" if "LONG_MIN \<le> i - j"
    by (rule rnd_not_below [OF near sub_error [OF near assms(2-5) that]])
  have mul: "\<not> 2 ^ 63 < rnd (rnd i * rnd j)" if "LONG_MIN \<le> i * j" "i * j \<le> LONG_MAX"
    using mul_error [OF near, of i j] assms(2-5) that
    by (intro rnd_not_above [OF near]) (simp add: LONG_MAX_def LONG_MIN_def abs_le_iff abs_less_iff)
  have over: "2 ^ 63 < rnd (rnd i + rnd j)" if "i + j > LONG_MAX + 2049"
    using that e by (intro rnd_above [OF near]) (simp add: LONG_MAX_def)
  have under: "rnd (rnd i - rnd j) < - (2 ^ 63)" if "i - j < LONG_MIN - 2049"
    using that e by (intro rnd_below [OF near]) (simp add: LONG_MIN_def)
  have mul_over: "2 ^ 63 < rnd (rnd i * rnd j)" if "i * j > LONG_MAX + 8192"
    by (rule mul_above [OF near]) (use that assms(2-5) in \<open>simp_all add: LONG_MAX_def LONG_MIN_def abs_le_iff\<close>)
  have mul_under: "\<not> 2 ^ 63 < rnd (rnd i * rnd j)" if "i * j < LONG_MIN"
    by (rule mul_negative [OF near]) (use that in \<open>simp add: LONG_MIN_def\<close>)
  show ?thesis
    using ops add max sub mul over under wrapped mul_over mul_under by (auto simp: wrap_long_id LONG_MIN_def LONG_MAX_def)
qed

text \<open>Integers as they are rounded: the \<open>double\<close>s of the witnesses.\<close>

definition int_doubles :: "int doubles" where
  "int_doubles = \<lparr>of_long = round53, to_long = (\<lambda>d. d), fadd = (\<lambda>a b. round53 (a + b)), fsub = (\<lambda>a b. round53 (a - b)),
     fmul = (\<lambda>a b. round53 (a * b)), fdiv = (\<lambda>a b. round53 (a div b)), feq = (=), fless = (<),
     strtod = (\<lambda>s. case strtol s 10 of (i, n, erange) \<Rightarrow> (round53 i, n, erange))\<rparr>"

lemma int_doubles_ieee: "ieee int_doubles (\<lambda>i. i) round53"
  by (simp add: ieee_def int_doubles_def round53_nearest)

theorem long_arithmetic_witness:
  "(let r = \<lambda>v. Some (SUCCESS, v, IS_LONG LONG_MAX, IS_LONG 1, empty_store) in
    add_function int_doubles (IS_LONG LONG_MAX) (IS_LONG 1) empty_store = r (IS_LONG LONG_MIN) \<and>
    sub_function int_doubles (IS_LONG LONG_MAX) (IS_LONG 1) empty_store = r (IS_LONG (LONG_MAX - 1)) \<and>
    mul_function int_doubles (IS_LONG LONG_MAX) (IS_LONG 1) empty_store = r (IS_LONG LONG_MAX)) \<and>
   mul_function int_doubles (IS_LONG LONG_MAX) (IS_LONG LONG_MAX) empty_store =
     Some (SUCCESS, IS_DOUBLE (round53 (round53 LONG_MAX * round53 LONG_MAX)), IS_LONG LONG_MAX, IS_LONG LONG_MAX, empty_store) \<and>
   mul_function int_doubles (IS_LONG LONG_MAX) (IS_LONG (- 2)) empty_store =
     Some (SUCCESS, IS_LONG 2, IS_LONG LONG_MAX, IS_LONG (- 2), empty_store)"
  using long_arithmetic [OF int_doubles_ieee, of LONG_MAX 1 empty_store] long_arithmetic [OF int_doubles_ieee, of LONG_MAX LONG_MAX empty_store]
    long_arithmetic [OF int_doubles_ieee, of LONG_MAX "- 2" empty_store]
  by (simp add: LONG_MIN_def LONG_MAX_def wrap_long_def)

end
