(* ===== verification/Variables_Proofs.thy ===== *)
theory Variables_Proofs
  imports Variables
begin

text \<open>
  Destroying and copying values. \<open>owned st v t S\<close> says that \<open>v\<close> is the tree \<open>t\<close> on exactly the tables \<open>S\<close>,
  none of which it reaches twice: the invariant that lets the interpreter free a value without
  counting references.
\<close>

subsection \<open>Ownership\<close>

text \<open>A table as the interpreter makes it for an array: \<open>_php3_hash_init(ht, n, NULL, PVAL_DESTRUCTOR, 0)\<close>.\<close>

definition array_table :: "'d hashtable \<Rightarrow> bool" where
  "array_table t \<longleftrightarrow> plain t \<and> pDestructor t \<and> \<not> persistent t \<and> pHashFunction t = hashpjw"

definition leaf_tree :: "'f pval \<Rightarrow> 'f tree" where
  "leaf_tree v = (case v of IS_LONG i \<Rightarrow> Long_leaf i | IS_DOUBLE d \<Rightarrow> Double_leaf d | IS_STRING s \<Rightarrow> String_leaf s
     | UNDEFINED \<Rightarrow> Undefined_leaf | _ \<Rightarrow> Other_leaf)"

inductive owned :: "'f store \<Rightarrow> 'f pval \<Rightarrow> 'f tree \<Rightarrow> addr set \<Rightarrow> bool"
  and owned_all :: "'f store \<Rightarrow> (hkey \<times> 'f pval) list \<Rightarrow> (hkey \<times> 'f tree) list \<Rightarrow> addr set \<Rightarrow> bool"
  for st :: "'f store" where
  owned_leaf: "table_of v = None \<Longrightarrow> owned st v (leaf_tree v) {}"
| owned_node: "table_of v = Some a \<Longrightarrow> a \<noteq> symbol_table st \<Longrightarrow> tables st a = Some t \<Longrightarrow> ht_inv t os \<Longrightarrow>
    array_table t \<Longrightarrow> owned_all st (ht_abs t os) kvs S \<Longrightarrow> a \<notin> S \<Longrightarrow>
    owned st v (Node (v = IS_OBJECT a) kvs) (insert a S)"
| owned_Nil: "owned_all st [] [] {}"
| owned_Cons: "owned st v tr S \<Longrightarrow> owned_all st al kvs S' \<Longrightarrow> S \<inter> S' = {} \<Longrightarrow>
    owned_all st ((k, v) # al) ((k, tr) # kvs) (S \<union> S')"

inductive_cases owned_nodeE: "owned st v (Node obj kvs) S"
inductive_cases owned_ConsE: "owned_all st (kv # al) kvs S"
inductive_simps owned_all_Nil [simp]: "owned_all st [] kvs S"

lemma owned_cong:
  "(owned st v tr S \<longrightarrow> symbol_table st' = symbol_table st \<longrightarrow> (\<forall>b \<in> S. tables st' b = tables st b) \<longrightarrow> owned st' v tr S) \<and>
   (owned_all st al kvs S' \<longrightarrow> symbol_table st' = symbol_table st \<longrightarrow> (\<forall>b \<in> S'. tables st' b = tables st b) \<longrightarrow> owned_all st' al kvs S')"
proof -
  have "(owned st v tr S \<Longrightarrow> symbol_table st' = symbol_table st \<longrightarrow> (\<forall>b \<in> S. tables st' b = tables st b) \<longrightarrow> owned st' v tr S)"
    "(owned_all st al kvs S' \<Longrightarrow> symbol_table st' = symbol_table st \<longrightarrow> (\<forall>b \<in> S'. tables st' b = tables st b) \<longrightarrow> owned_all st' al kvs S')"
    by (induction rule: owned_owned_all.inducts) (auto intro: owned_owned_all.intros)
  then show ?thesis by blast
qed

lemma owned_frame:
  "owned st v tr S \<Longrightarrow> symbol_table st' = symbol_table st \<Longrightarrow> (\<And>b. b \<in> S \<Longrightarrow> tables st' b = tables st b) \<Longrightarrow> owned st' v tr S"
  "owned_all st al kvs S \<Longrightarrow> symbol_table st' = symbol_table st \<Longrightarrow> (\<And>b. b \<in> S \<Longrightarrow> tables st' b = tables st b) \<Longrightarrow> owned_all st' al kvs S"
  using owned_cong by blast+

lemma owned_tables:
  "owned st v tr S \<Longrightarrow> b \<in> S \<Longrightarrow> tables st b \<noteq> None \<and> b \<noteq> symbol_table st"
  "owned_all st al kvs S' \<Longrightarrow> b \<in> S' \<Longrightarrow> tables st b \<noteq> None \<and> b \<noteq> symbol_table st"
  by (induction rule: owned_owned_all.inducts) auto

lemma owned_append:
  "owned_all st al kvs S \<Longrightarrow> owned_all st al' kvs' S' \<Longrightarrow> S \<inter> S' = {} \<Longrightarrow> owned_all st (al @ al') (kvs @ kvs') (S \<union> S')"
proof (induction al arbitrary: kvs S)
  case (Cons kv al)
  from Cons.prems(1) obtain k v tr kvs0 S1 S2 where
    c: "kv = (k, v)" "kvs = (k, tr) # kvs0" "S = S1 \<union> S2" "owned st v tr S1" "owned_all st al kvs0 S2" "S1 \<inter> S2 = {}"
    by (rule owned_ConsE) blast
  have "owned_all st (al @ al') (kvs0 @ kvs') (S2 \<union> S')" using c Cons.prems by (intro Cons.IH) auto
  moreover have "S1 \<inter> (S2 \<union> S') = {}" using c Cons.prems(3) by auto
  ultimately have "owned_all st ((k, v) # al @ al') ((k, tr) # kvs0 @ kvs') (S1 \<union> (S2 \<union> S'))"
    using c(4) by (intro owned_Cons)
  then show ?case using c by (simp add: Un_assoc)
qed simp

lemma owned_keys: "owned_all st al kvs S \<Longrightarrow> map fst kvs = map fst al"
  by (induction al arbitrary: kvs S) (auto elim: owned_ConsE)

subsection \<open>Destroying\<close>

definition freed :: "'f store \<Rightarrow> addr set \<Rightarrow> 'f store" where
  "freed st S = st\<lparr>tables := (tables st) |` (- S)\<rparr>"

lemma freed_none [simp]: "freed st {} = st"
  by (simp add: freed_def restrict_map_def)

lemma destroy_owned:
  "owned st v tr S \<Longrightarrow> \<forall>st'. symbol_table st' = symbol_table st \<longrightarrow> (\<forall>b \<in> S. tables st' b = tables st b) \<longrightarrow>
    pval_destructor (Destroy v) st' = Some (freed st' S)"
  "owned_all st al kvs S' \<Longrightarrow> \<forall>st' a t p prev os. symbol_table st' = symbol_table st \<longrightarrow> (\<forall>b \<in> S'. tables st' b = tables st b) \<longrightarrow>
    a \<notin> S' \<longrightarrow> tables st' a = Some t \<longrightarrow> dseg (heap t) p prev os None \<longrightarrow> distinct os \<longrightarrow> plain t \<longrightarrow> pDestructor t \<longrightarrow>
    map (\<lambda>x. pData (bk t x)) os = map snd al \<longrightarrow>
    (\<exists>t'. pval_destructor (Destroy_from a p) st' = Some (set_table (freed st' S') a t'))"
proof (induction rule: owned_owned_all.inducts)
  case (owned_leaf v)
  then show ?case by (simp add: pval_destructor.simps)
next
  case (owned_node v a t os kvs S)
  show ?case
  proof (intro allI impI)
    fix st' :: "'a store"
    assume s: "symbol_table st' = symbol_table st" "\<forall>b \<in> insert a S. tables st' b = tables st b"
    have "map (\<lambda>x. pData (bk t x)) os = map snd (ht_abs t os)" by (simp add: ht_abs_def)
    moreover have "dseg (heap t) (pListHead t) None os None" "distinct os"
      using owned_node(2) by (auto simp: ht_inv_def order_inv_def)
    ultimately obtain t' where "pval_destructor (Destroy_from a (pListHead t)) st' = Some (set_table (freed st' S) a t')"
      using owned_node(8) owned_node(2-6) s by (fastforce simp: array_table_def)
    moreover have "free_table (set_table (freed st' S) a t') a = freed st' (insert a S)"
      by (auto simp: free_table_def set_table_def freed_def restrict_map_def fun_eq_iff)
    ultimately show "pval_destructor (Destroy v) st' = Some (freed st' (insert a S))"
      using owned_node(1,5,6) s by (subst pval_destructor.simps) simp
  qed
next
  case owned_Nil
  show ?case
  proof (intro allI impI)
    fix st' :: "'a store" and a t p prev os
    assume "tables st' a = Some t" "dseg (heap t) p prev os None" "map (\<lambda>x. pData (bk t x)) os = map snd []"
    moreover from this have "p = None" by simp
    ultimately have "pval_destructor (Destroy_from a p) st' = Some st'" "set_table st' a t = st'"
      by (simp_all add: pval_destructor.simps [of "Destroy_from a None"])
    then show "\<exists>t'. pval_destructor (Destroy_from a p) st' = Some (set_table (freed st' {}) a t')"
      unfolding freed_none by metis
  qed
next
  case (owned_Cons v tr S al kvs S' k)
  show ?case
  proof (intro allI impI)
    fix st' :: "'a store" and a t p prev os
    assume s: "symbol_table st' = symbol_table st" "\<forall>b \<in> S \<union> S'. tables st' b = tables st b" "a \<notin> S \<union> S'"
      and t: "tables st' a = Some t" "dseg (heap t) p prev os None" "distinct os" "plain t" "pDestructor t"
      and data: "map (\<lambda>x. pData (bk t x)) os = map snd ((k, v) # al)"
    obtain x xs where os: "os = x # xs" using data by (cases os) auto
    then obtain b where b: "p = Some x" "heap t x = Some b" "dseg (heap t) (pListNext b) (Some x) xs None" using t(2) by auto
    have v: "pData b = v" "\<not> bIsPointer b" using data os b(2) plain_at [OF t(4) b(2)] by auto
    let ?st1 = "freed st' S" and ?t1 = "t\<lparr>heap := (heap t)(x := None)\<rparr>"
    have d: "pval_destructor (Destroy v) st' = Some ?st1" using owned_Cons.IH(2) s by simp
    have ta: "tables ?st1 a = Some t" using s(3) t(1) by (simp add: freed_def)
    let ?st2 = "set_table ?st1 a ?t1"
    have st2: "symbol_table ?st2 = symbol_table st" "\<forall>b \<in> S'. tables ?st2 b = tables st b" "tables ?st2 a = Some ?t1" "a \<notin> S'"
      using s owned_Cons.hyps by (auto simp: freed_def set_table_def restrict_map_def)
    have t1: "dseg (heap ?t1) (pListNext b) (Some x) xs None" "distinct xs" "plain ?t1" "pDestructor ?t1"
      using b(3) t(3-5) os by (auto simp: plain_def plain_heap_def)
    have "map (\<lambda>y. pData (bk ?t1 y)) xs = map (\<lambda>y. pData (bk t y)) xs"
      using os t(3) by (intro map_cong) auto
    also have "\<dots> = map snd al" using data os by simp
    finally obtain t' where r: "pval_destructor (Destroy_from a (pListNext b)) ?st2 = Some (set_table (freed ?st2 S') a t')"
      using owned_Cons.IH(4) [rule_format, OF st2(1) _ st2(4,3) t1] st2(2) by blast
    have "set_table (freed ?st2 S') a t' = set_table (freed st' (S \<union> S')) a t'"
      using s(3) by (auto simp: freed_def set_table_def restrict_map_def fun_eq_iff)
    then show "\<exists>t'. pval_destructor (Destroy_from a p) st' = Some (set_table (freed st' (S \<union> S')) a t')"
      using r d ta t(1,5) b v by (subst pval_destructor.simps) auto
  qed
qed


subsection \<open>Copying\<close>

text \<open>The tables \<open>S\<close> are new in \<open>st'\<close>; all others but \<open>A\<close> are as they were.\<close>

definition grown :: "addr set \<Rightarrow> 'f store \<Rightarrow> addr set \<Rightarrow> 'f store \<Rightarrow> bool" where
  "grown A st S st' \<longleftrightarrow> store_wf st' \<and> symbol_table st' = symbol_table st \<and> next_table st \<le> next_table st' \<and>
     S \<subseteq> {next_table st ..< next_table st'} \<and> (\<forall>b. b \<notin> S \<union> A \<longrightarrow> tables st' b = tables st b)"

lemma grown_trans: "grown A st S st1 \<Longrightarrow> grown A st1 S' st2 \<Longrightarrow> grown A st (S \<union> S') st2"
  by (auto simp: grown_def)

lemma grown_old: "grown A st S st' \<Longrightarrow> b < next_table st \<Longrightarrow> b \<notin> A \<Longrightarrow> tables st' b = tables st b"
  unfolding grown_def by (metis UnE atLeastLessThan_iff linorder_not_less subset_iff)

lemma add_copy_ok:
  assumes inv: "ht_inv t os" and arr: "array_table t" and b: "bucket_ok t b" and new: "bkey b \<notin> fst ` set (ht_abs t os)"
  obtains q t' os' where "add_copy t b d = Some (SUCCESS, Some q, t')" "ht_inv t' os'"
    "ht_abs t' os' = ht_abs t os @ [(bkey b, d)]" "array_table t'" "pHashFunction t' = pHashFunction t"
proof -
  have "mem_ok t" using arr by (simp add: array_table_def mem_ok_def)
  then obtain q t' os' where r: "add_copy t b d = Some (SUCCESS, Some q, t')" "ht_inv t' os'"
    "ht_abs t' os' = AList.update (bkey b) d (ht_abs t os)" "same_params t t'"
    unfolding add_copy_def by (rule insert_bucket_ok [OF inv _ b])
  have "plain t'" using r(1) arr unfolding add_copy_def array_table_def
    by (auto dest: plain_add_or_update plain_index_update split: option.splits)
  then have "array_table t'" using arr r(4) by (simp add: array_table_def same_params_def)
  with r new show ?thesis by (intro that [of q t' os']) (simp_all add: update_new_pair same_params_def)
qed

lemma array_table_pointer [simp]: "array_table (t\<lparr>pInternalPointer := p\<rparr>) = array_table t"
  by (simp add: array_table_def)

lemma init_heap: "php3_hash_init n h d p ms = Some t \<Longrightarrow> heap t = Map.empty"
  by (auto simp: php3_hash_init_def pemalloc_def Let_def split: if_splits list.splits)

lemma copy_owned:
  "owned st v tr S \<Longrightarrow> \<forall>st'. store_wf st' \<longrightarrow> symbol_table st' = symbol_table st \<longrightarrow> (\<forall>b \<in> S. tables st' b = tables st b) \<longrightarrow>
    (\<exists>v' st1 S1. pval_copy_constructor (Copy v) st' = Some (SUCCESS, v', st1) \<and> owned st1 v' tr S1 \<and> grown {} st' S1 st1)"
  "owned_all st al kvs S' \<Longrightarrow> \<forall>st' a s p prev xs c t os ks S0. store_wf st' \<longrightarrow> symbol_table st' = symbol_table st \<longrightarrow>
    (\<forall>b \<in> S'. tables st' b = tables st b) \<longrightarrow> tables st' a = Some s \<longrightarrow> dseg (heap s) p prev xs None \<longrightarrow>
    map (\<lambda>x. (bkey (bk s x), pData (bk s x))) xs = al \<longrightarrow> (\<forall>x \<in> set xs. bucket_ok t (bk s x)) \<longrightarrow>
    a \<noteq> c \<longrightarrow> c \<notin> S' \<union> S0 \<longrightarrow> tables st' c = Some t \<longrightarrow> ht_inv t os \<longrightarrow> array_table t \<longrightarrow>
    distinct (map fst (ht_abs t os @ al)) \<longrightarrow> owned_all st' (ht_abs t os) ks S0 \<longrightarrow>
    (\<exists>st1 t1 os1 S1. pval_copy_constructor (Copy_from a p c) st' = Some (SUCCESS, OTHER, st1) \<and> tables st1 c = Some t1 \<and>
      ht_inv t1 os1 \<and> array_table t1 \<and> owned_all st1 (ht_abs t1 os1) (ks @ kvs) (S0 \<union> S1) \<and> grown {c} st' S1 st1)"
proof (induction rule: owned_owned_all.inducts)
  case (owned_leaf v)
  then show ?case
    by (auto simp: pval_copy_constructor.simps grown_def intro: owned_owned_all.owned_leaf)
next
  case (owned_node v a t os kvs S)
  show ?case
  proof (intro allI impI)
    fix st' :: "'a store"
    assume wf: "store_wf st'" and s: "symbol_table st' = symbol_table st" "\<forall>b \<in> insert a S. tables st' b = tables st b"
    have ta: "tables st' a = Some t" using s(2) owned_node(6) by simp
    obtain u :: "'a pval hashtable" where u: "php3_hash_init (nTableSize t) (Some (pHashFunction t)) (pDestructor t) False [] = Some u"
      "ht_inv u []" "ht_abs u [] = []" "persistent u = False" "pDestructor u = pDestructor t" "pHashFunction u = pHashFunction t" "heap u = Map.empty"
      by (rule init_ok [of "[]" "nTableSize t" "Some (pHashFunction t)" "pDestructor t" False]) (simp_all add: init_heap)
    let ?c = "next_table st'" and ?st1 = "(set_table st' (next_table st') u)\<lparr>next_table := Suc (next_table st')\<rparr>"
    have a: "a < ?c" "symbol_table st' < ?c" using wf ta by (auto simp: store_wf_def)
    have S: "b < ?c" if "b \<in> S" for b
      using owned_tables(2) [OF owned_node(7) that] s(2) that wf unfolding store_wf_def by (metis insertCI not_Some_eq)
    have cS: "?c \<notin> S" using S by blast
    have arr: "array_table u" using u owned_node(3) by (simp add: array_table_def plain_def plain_heap_def)
    have seg: "dseg (heap t) (pListHead t) None os None" "distinct (map fst (ht_abs t os))"
      using owned_node(2) abs_distinct by (auto simp: ht_inv_def order_inv_def)
    have keys: "\<forall>x \<in> set os. bucket_ok u (bk t x)"
      using inv_bucket_ok [OF owned_node(2)] bucket_ok_cong [of u t] u(6) by simp
    have wf1: "store_wf ?st1" "symbol_table ?st1 = symbol_table st" "\<forall>b \<in> S. tables ?st1 b = tables st b"
      "tables ?st1 a = Some t" "tables ?st1 ?c = Some u"
      using wf s a S ta by (auto simp: store_wf_def set_table_def less_Suc_eq)
    obtain st2 t2 os2 S2 where r: "pval_copy_constructor (Copy_from a (pListHead t) ?c) ?st1 = Some (SUCCESS, OTHER, st2)"
      "tables st2 ?c = Some t2" "ht_inv t2 os2" "array_table t2" "owned_all st2 (ht_abs t2 os2) kvs S2" "grown {?c} ?st1 S2 st2"
      using owned_node(8) [rule_format, of ?st1 a t "pListHead t" None os u ?c "{}" "[]" "[]"]
        wf1 seg keys a S cS u(2,3) arr by (auto simp: ht_abs_def [of t])
    let ?t3 = "t2\<lparr>pInternalPointer := pListHead t2\<rparr>" and ?st3 = "set_table st2 ?c (t2\<lparr>pInternalPointer := pListHead t2\<rparr>)"
    have c: "?c \<notin> S2" using r(6) by (auto simp: grown_def)
    have "owned_all ?st3 (ht_abs ?t3 os2) kvs S2"
      using r(5) c by (simp, elim owned_frame) (auto simp: set_table_def)
    moreover have "ht_inv ?t3 os2" using r(3) by (intro inv_set_pointer) (auto simp: list_head dest: head_ptr_in)
    moreover have "table_of (with_table v ?c) = Some ?c" "(with_table v ?c = IS_OBJECT ?c) = (v = IS_OBJECT a)"
      using owned_node(1) by (auto simp: with_table_def table_of_def split: pval.splits)
    ultimately have "owned ?st3 (with_table v ?c) (Node (v = IS_OBJECT a) kvs) (insert ?c S2)"
      using owned_owned_all.owned_node [of "with_table v ?c" ?c ?st3 ?t3 os2 kvs S2] r(4,6) c a(2)
      by (auto simp: set_table_def grown_def)
    moreover have "grown {} st' (insert ?c S2) ?st3"
      using r(2,6) by (auto simp: grown_def set_table_def store_wf_def)
    moreover have "pval_copy_constructor (Copy v) st' = Some (SUCCESS, with_table v ?c, ?st3)"
      using owned_node(1,5) s(1) ta u(1) r(1,2) by (subst pval_copy_constructor.simps) (simp add: new_table_def)
    ultimately show "\<exists>v' st1 S1. pval_copy_constructor (Copy v) st' = Some (SUCCESS, v', st1) \<and>
        owned st1 v' (Node (v = IS_OBJECT a) kvs) S1 \<and> grown {} st' S1 st1" by blast
  qed
next
  case owned_Nil
  show ?case
  proof (intro allI impI)
    fix st' :: "'a store" and a s p prev xs c t os ks S0
    assume "store_wf st'" "dseg (heap s) p prev xs None" "map (\<lambda>x. (bkey (bk s x), pData (bk s x))) xs = []"
      "tables st' c = Some t" "ht_inv t os" "array_table t" "owned_all st' (ht_abs t os) ks S0"
    then show "\<exists>st1 t1 os1 S1. pval_copy_constructor (Copy_from a p c) st' = Some (SUCCESS, OTHER, st1) \<and> tables st1 c = Some t1 \<and>
      ht_inv t1 os1 \<and> array_table t1 \<and> owned_all st1 (ht_abs t1 os1) (ks @ []) (S0 \<union> S1) \<and> grown {c} st' S1 st1"
      by (intro exI [of _ st'] exI [of _ t] exI [of _ os] exI [of _ "{}"]) (simp add: pval_copy_constructor.simps grown_def)
  qed
next
  case (owned_Cons v tr S al kvs S' k)
  show ?case
  proof (intro allI impI)
    fix st' :: "'a store" and a s p prev xs c t os ks S0
    assume wf: "store_wf st'" and st: "symbol_table st' = symbol_table st" "\<forall>b \<in> S \<union> S'. tables st' b = tables st b"
      and ta: "tables st' a = Some s" and seg: "dseg (heap s) p prev xs None"
      and al: "map (\<lambda>x. (bkey (bk s x), pData (bk s x))) xs = (k, v) # al" and ok: "\<forall>x \<in> set xs. bucket_ok t (bk s x)"
      and ac: "a \<noteq> c" and c: "c \<notin> S \<union> S' \<union> S0" and tc: "tables st' c = Some t" "ht_inv t os" "array_table t"
      and dist: "distinct (map fst (ht_abs t os @ (k, v) # al))" and copied: "owned_all st' (ht_abs t os) ks S0"
    obtain x ys where xs: "xs = x # ys" using al by (cases xs) auto
    then obtain b where b: "p = Some x" "heap s x = Some b" "dseg (heap s) (pListNext b) (Some x) ys None" using seg by auto
    have kv: "bkey b = k" "pData b = v" "map (\<lambda>x. (bkey (bk s x), pData (bk s x))) ys = al" using al xs b(2) by auto
    obtain v' st1 S1 where cp: "pval_copy_constructor (Copy v) st' = Some (SUCCESS, v', st1)" "owned st1 v' tr S1" "grown {} st' S1 st1"
      using owned_Cons.IH(2) wf st by auto
    have old: "tables st1 b = tables st' b" if "b < next_table st'" for b using grown_old [OF cp(3) that] by simp
    have lt: "a < next_table st'" "c < next_table st'" using wf ta tc(1) by (auto simp: store_wf_def)
    have S0: "b < next_table st'" if "b \<in> S0" for b
      using owned_tables(2) [OF copied that] wf by (auto simp: store_wf_def)
    have S': "b < next_table st'" if "b \<in> S'" for b
      using owned_tables(2) [OF owned_Cons.IH(3) that] st(2) that wf unfolding store_wf_def by (metis UnCI not_Some_eq)
    have "bucket_ok t b" using ok xs b(2) by simp
    moreover have "bkey b \<notin> fst ` set (ht_abs t os)" using dist kv(1) by simp
    ultimately obtain q t1 os1 where t1: "add_copy t b v' = Some (SUCCESS, Some q, t1)" "ht_inv t1 os1"
      "ht_abs t1 os1 = ht_abs t os @ [(bkey b, v')]" "array_table t1" "pHashFunction t1 = pHashFunction t"
      by (rule add_copy_ok [OF tc(2,3)])
    let ?st2 = "set_table st1 c t1"
    have S1: "S1 \<subseteq> {next_table st' ..< next_table st1}" "store_wf st1" "symbol_table st1 = symbol_table st'"
      "next_table st' \<le> next_table st1" using cp(3) by (auto simp: grown_def)
    have c1: "c \<notin> S1" using S1(1) lt by auto
    have c2: "tables st1 c = Some t" using old lt tc(1) by simp
    have "owned_all st1 (ht_abs t os) ks S0" using copied by (rule owned_frame) (use S1 old S0 in auto)
    then have "owned_all st1 (ht_abs t1 os1) (ks @ [(k, tr)]) (S0 \<union> (S1 \<union> {}))"
      unfolding t1(3) kv(1)
    proof (rule owned_append)
      show "owned_all st1 [(k, v')] [(k, tr)] (S1 \<union> {})" using cp(2) by (intro owned_owned_all.intros) auto
      show "S0 \<inter> (S1 \<union> {}) = {}" using S1(1) S0 by fastforce
    qed
    then have own: "owned_all ?st2 (ht_abs t1 os1) (ks @ [(k, tr)]) (S0 \<union> S1)"
      by (simp, elim owned_frame) (use c c1 in \<open>auto simp: set_table_def\<close>)
    have wf2: "store_wf ?st2" by (rule store_wf_set [OF S1(2) c2])
    have st2: "symbol_table ?st2 = symbol_table st" "\<forall>b \<in> S'. tables ?st2 b = tables st b" "tables ?st2 a = Some s" "tables ?st2 c = Some t1"
      using st S1(3) old S' lt c ac ta by (auto simp: set_table_def)
    have ok2: "\<forall>x \<in> set ys. bucket_ok t1 (bk s x)" using ok xs bucket_ok_cong [OF t1(5)] by simp
    have d2: "distinct (map fst (ht_abs t1 os1 @ al))" using dist kv(1) by (auto simp: t1(3))
    have c3: "c \<notin> S' \<union> (S0 \<union> S1)" using c c1 by simp
    obtain st3 t3 os3 S3 where r: "pval_copy_constructor (Copy_from a (pListNext b) c) ?st2 = Some (SUCCESS, OTHER, st3)" "tables st3 c = Some t3"
      "ht_inv t3 os3" "array_table t3" "owned_all st3 (ht_abs t3 os3) ((ks @ [(k, tr)]) @ kvs) ((S0 \<union> S1) \<union> S3)" "grown {c} ?st2 S3 st3"
      using owned_Cons.IH(4) [rule_format, OF wf2 st2(1) _ st2(3) b(3) kv(3) _ ac c3 st2(4) t1(2,4) d2 own] st2(2) ok2 by blast
    have "pval_copy_constructor (Copy_from a p c) st' = Some (SUCCESS, OTHER, st3)"
      using ta b cp(1) c2 t1(1) r(1) kv(2) old lt by (subst pval_copy_constructor.simps) simp
    moreover have "grown {c} st' (S1 \<union> S3) st3"
      using cp(3) r(6) lt by (auto simp: grown_def set_table_def)
    ultimately show "\<exists>st1 t1 os1 S1. pval_copy_constructor (Copy_from a p c) st' = Some (SUCCESS, OTHER, st1) \<and> tables st1 c = Some t1 \<and>
      ht_inv t1 os1 \<and> array_table t1 \<and> owned_all st1 (ht_abs t1 os1) (ks @ (k, tr) # kvs) (S0 \<union> S1) \<and> grown {c} st' S1 st1"
      using r(2-5) by (intro exI [of _ st3] exI [of _ t3] exI [of _ os3] exI [of _ "S1 \<union> S3"]) (simp add: Un_assoc)
  qed
qed

end
