(* ===== verification/Operators_Props.thy ===== *)
theory Operators_Props
  imports Arithmetic Variables_Proofs
begin

text \<open>
  What the relations, the boolean operators and the operators on arrays compute, and that the
  values they handle stay owned.
\<close>

subsection \<open>Relations\<close>

text \<open>All relations, as the code asks them of an \<open>int\<close>.\<close>

lemma relations_long:
  assumes "compare_function D op1 op2 st = Some (SUCCESS, IS_LONG n, n1, n2, st1)"
  defines "r \<equiv> \<lambda>b. Some (SUCCESS, IS_LONG (if b then 1 else 0), n1, n2, st1)"
  shows "is_equal_function D op1 op2 st = r (n = 0)" "is_not_equal_function D op1 op2 st = r (n \<noteq> 0)"
    "is_smaller_function D op1 op2 st = r (n < 0)" "is_smaller_or_equal_function D op1 op2 st = r (n \<le> 0)"
    "is_greater_function D op1 op2 st = r (n > 0)" "is_greater_or_equal_function D op1 op2 st = r (n \<ge> 0)"
  by (simp_all add: r_def assms(1) equality_def ordering_def is_equal_function_def is_not_equal_function_def is_smaller_function_def
      is_smaller_or_equal_function_def is_greater_function_def is_greater_or_equal_function_def
      convert_to_boolean_long_def is_long_def lval_def)

lemma compare_long: "compare_function D (IS_LONG i) (IS_LONG j) st = Some (SUCCESS, IS_LONG (wrap_long (i - j)), IS_LONG i, IS_LONG j, st)"
  by (simp add: compare_function_def string_of_def convert_string_to_number_def)

lemma wrap_long_zero:
  assumes "LONG_MIN \<le> i" "i \<le> LONG_MAX" "LONG_MIN \<le> j" "j \<le> LONG_MAX"
  shows "wrap_long (i - j) = 0 \<longleftrightarrow> i = j" "i - j > LONG_MAX \<Longrightarrow> wrap_long (i - j) < 0" "i - j < LONG_MIN \<Longrightarrow> wrap_long (i - j) > 0"
proof -
  have "wrap_long (i - j) = wrap_long (i - j - 2 ^ 64)" "wrap_long (i - j) = wrap_long (i - j + 2 ^ 64)"
    by (simp_all add: wrap_long_cong)
  then have over: "i - j > LONG_MAX \<Longrightarrow> wrap_long (i - j) = i - j - 2 ^ 64"
    and under: "i - j < LONG_MIN \<Longrightarrow> wrap_long (i - j) = i - j + 2 ^ 64"
    using assms wrap_long_id [of "i - j - 2 ^ 64"] wrap_long_id [of "i - j + 2 ^ 64"] by (simp_all add: LONG_MAX_def LONG_MIN_def)
  show "i - j > LONG_MAX \<Longrightarrow> wrap_long (i - j) < 0" using over assms by (simp add: LONG_MAX_def LONG_MIN_def)
  show "i - j < LONG_MIN \<Longrightarrow> wrap_long (i - j) > 0" using under assms by (simp add: LONG_MAX_def LONG_MIN_def)
  show "wrap_long (i - j) = 0 \<longleftrightarrow> i = j"
    using over under wrap_long_id [of "i - j"] assms
    by (cases "i - j > LONG_MAX"; cases "i - j < LONG_MIN") (auto simp: LONG_MAX_def LONG_MIN_def)
qed

text \<open>
  C25: The relations on \<open>long\<close>s are the order of the integers as long as their difference is a \<open>long\<close>; equality
  is right for all. When the difference overflows the order is reversed: \<open>LONG_MAX < -1\<close> holds.
\<close>

theorem compare_longs:
  assumes "LONG_MIN \<le> i" "i \<le> LONG_MAX" "LONG_MIN \<le> j" "j \<le> LONG_MAX"
  shows "let r = (\<lambda>b. Some (SUCCESS, IS_LONG (if b then 1 else 0), IS_LONG i, IS_LONG j, st));
      fits = LONG_MIN \<le> i - j \<and> i - j \<le> LONG_MAX in
    is_equal_function D (IS_LONG i) (IS_LONG j) st = r (i = j) \<and> is_not_equal_function D (IS_LONG i) (IS_LONG j) st = r (i \<noteq> j) \<and>
    is_smaller_function D (IS_LONG i) (IS_LONG j) st = r (if fits then i < j else j < i) \<and>
    is_smaller_or_equal_function D (IS_LONG i) (IS_LONG j) st = r (if fits then i \<le> j else j \<le> i) \<and>
    is_greater_function D (IS_LONG i) (IS_LONG j) st = r (if fits then i > j else j > i) \<and>
    is_greater_or_equal_function D (IS_LONG i) (IS_LONG j) st = r (if fits then i \<ge> j else j \<ge> i)"
proof (cases "LONG_MIN \<le> i - j \<and> i - j \<le> LONG_MAX")
  case True
  then have "wrap_long (i - j) = i - j" by (simp add: wrap_long_id)
  then show ?thesis using True by (simp add: relations_long [OF compare_long] Let_def)
next
  case False
  then consider "i - j > LONG_MAX" | "i - j < LONG_MIN" by linarith
  then show ?thesis
  proof cases
    case 1
    then have "j < i" by (simp add: LONG_MAX_def)
    with 1 wrap_long_zero [OF assms] False show ?thesis by (simp add: relations_long [OF compare_long] Let_def)
  next
    case 2
    then have "i < j" by (simp add: LONG_MIN_def)
    with 2 wrap_long_zero [OF assms] False show ?thesis by (simp add: relations_long [OF compare_long] Let_def)
  qed
qed

theorem compare_longs_witness:
  "is_smaller_function int_doubles (IS_LONG LONG_MAX) (IS_LONG (- 1)) empty_store =
    Some (SUCCESS, IS_LONG 1, IS_LONG LONG_MAX, IS_LONG (- 1), empty_store)"
  using compare_longs [of LONG_MAX "- 1" empty_store int_doubles] by (simp add: LONG_MAX_def LONG_MIN_def Let_def)

subsection \<open>Strings\<close>

definition byte_order :: "(char \<times> char) set" where
  "byte_order = {(c, d). uchar c < uchar d}"

lemma strcmp_sign:
  "php3_binary_strcmp s t = 0 \<longleftrightarrow> s = t" "php3_binary_strcmp s t < 0 \<longleftrightarrow> (s, t) \<in> lexord byte_order"
  "php3_binary_strcmp t s = - php3_binary_strcmp s t"
proof -
  have d: "first_difference uchar s t = 0 \<longleftrightarrow> take (min (length s) (length t)) s = take (min (length s) (length t)) t"
    for s t by (induction uchar s t rule: first_difference.induct) auto
  show "php3_binary_strcmp t s = - php3_binary_strcmp s t"
  proof -
    have "first_difference uchar t s = - first_difference uchar s t"
      by (induction uchar s t rule: first_difference.induct) (auto elim: first_difference.elims)
    then show ?thesis by (simp add: php3_binary_strcmp_def Let_def)
  qed
  show "php3_binary_strcmp s t = 0 \<longleftrightarrow> s = t"
    using d [of s t] by (auto simp: php3_binary_strcmp_def Let_def split: if_splits)
  show "php3_binary_strcmp s t < 0 \<longleftrightarrow> (s, t) \<in> lexord byte_order"
    by (induction uchar s t rule: first_difference.induct)
      (auto simp: php3_binary_strcmp_def byte_order_def Let_def neq_Nil_conv split: if_splits)
qed


lemma strtol_range: "LONG_MIN \<le> fst (strtol s b)" "fst (strtol s b) \<le> LONG_MAX"
proof -
  have clip: "LONG_MIN \<le> max LONG_MIN (min LONG_MAX v) \<and> max LONG_MIN (min LONG_MAX v) \<le> LONG_MAX" "LONG_MIN \<le> 0 \<and> 0 \<le> LONG_MAX" for v
    by (auto simp: LONG_MIN_def LONG_MAX_def)
  then have "LONG_MIN \<le> fst (strtol s b) \<and> fst (strtol s b) \<le> LONG_MAX"
    unfolding strtol_def Let_def by (simp only: fst_conv split: if_split) blast
  then show "LONG_MIN \<le> fst (strtol s b)" "fst (strtol s b) \<le> LONG_MAX" by blast+
qed

lemma numeric_long_range: "is_numeric_string D s = Num_long i \<Longrightarrow> LONG_MIN \<le> i \<and> i \<le> LONG_MAX"
  using strtol_range [of "cstr s" 10] by (auto simp: is_numeric_string_def Let_def split: if_splits prod.splits)

definition spaced_number :: "char list" where
  "spaced_number = '' 12345678901234567890''"

lemma spaced_number_is_zero: "bc_compare (str2num (cstr spaced_number) 100) (str2num (cstr ''0'') 100) = 0"
  by code_simp

lemma zero_text: "is_numeric_string D ''0'' = Num_long 0"
proof -
  have "strtol (cstr ''0'') 10 = (0, 1, False)" by code_simp
  then show ?thesis by (simp add: is_numeric_string_def)
qed

lemma relations_double:
  assumes "compare_function D op1 op2 st = Some (SUCCESS, IS_DOUBLE d, n1, n2, st1)"
  defines "r \<equiv> \<lambda>b. Some (SUCCESS, IS_LONG (if b then 1 else 0), n1, n2, st1)"
  shows "is_equal_function D op1 op2 st = r (feq D d (of_long D 0))" "is_smaller_function D op1 op2 st = r (fless D d (of_long D 0))"
    "is_greater_function D op1 op2 st = r (fless D (of_long D 0) d)"
  by (simp_all add: r_def assms(1) equality_def ordering_def is_equal_function_def is_smaller_function_def
      is_greater_function_def convert_to_boolean_long_def is_long_def lval_def)

text \<open>The comparison of two strings, by what they read as.\<close>

lemma smart_strcmp_cases:
  "is_numeric_string D s = Not_numeric \<or> is_numeric_string D t = Not_numeric \<Longrightarrow>
     php3_smart_strcmp D s t = IS_LONG (php3_binary_strcmp s t)"
  "is_numeric_string D s = Num_long i \<Longrightarrow> is_numeric_string D t = Num_long j \<Longrightarrow>
     php3_smart_strcmp D s t = IS_LONG (wrap_long (i - j))"
  "is_numeric_string D s \<noteq> Not_numeric \<Longrightarrow> is_numeric_string D t \<noteq> Not_numeric \<Longrightarrow>
     is_numeric_string D s = Num_bc d \<or> is_numeric_string D t = Num_bc d \<Longrightarrow>
     php3_smart_strcmp D s t = IS_LONG (bc_compare (str2num (cstr s) 100) (str2num (cstr t) 100))"
  "is_numeric_string D s = Num_double d \<and> (\<exists>e. is_numeric_string D t = Num_double e \<or> is_numeric_string D t = Num_long j) \<or>
     is_numeric_string D t = Num_double d \<and> is_numeric_string D s = Num_long j \<Longrightarrow>
     php3_smart_strcmp D s t = IS_DOUBLE (fsub D (numeric_double D s (is_numeric_string D s)) (numeric_double D t (is_numeric_string D t)))"
  by (cases "is_numeric_string D s"; cases "is_numeric_string D t"; force simp: php3_smart_strcmp_def)+

text \<open>The rounded difference of two representable numbers has the sign of the difference.\<close>

lemma rnd_difference:
  assumes "nearest rnd"
  shows "rnd n < 0 \<longleftrightarrow> n < 0" "0 < rnd n \<longleftrightarrow> 0 < n"
proof -
  have "rnd n < 0" if "n < 0" using nearestD(2) [OF assms, of "- 1" n] representableI [of "- 1" 0] that by simp
  moreover have "0 < rnd n" if "0 < n" using nearestD(2) [OF assms, of 1 n] representableI [of 1 0] that by simp
  ultimately show "rnd n < 0 \<longleftrightarrow> n < 0" "0 < rnd n \<longleftrightarrow> 0 < n" using rnd_sign [OF assms, of n] by (meson not_le)+
qed

lemma double_order:
  assumes "ieee D emb rnd" "representable k" "representable l"
  shows "fless D (fsub D (emb k) (emb l)) (of_long D 0) = (k < l)" "fless D (of_long D 0) (fsub D (emb k) (emb l)) = (l < k)"
proof -
  have n: "nearest rnd" and sub: "fsub D (emb k) (emb l) = emb (rnd (k - l))" and zero: "of_long D 0 = emb (rnd 0)"
    and less: "\<And>a b. representable a \<Longrightarrow> representable b \<Longrightarrow> fless D (emb a) (emb b) = (a < b)"
    using assms by (auto simp: ieee_def)
  have "rnd 0 = 0" using rnd_exact [OF n, of 0] representableI [of 0 0] by simp
  then show "fless D (fsub D (emb k) (emb l)) (of_long D 0) = (k < l)" "fless D (of_long D 0) (fsub D (emb k) (emb l)) = (l < k)"
    using less nearestD(1) [OF n] rnd_difference [OF n, of "k - l"] unfolding sub zero by (metis diff_gt_0_iff_gt diff_less_0_iff_less)+
qed

text \<open>The relations on two strings, by what \<open>php3_smart_strcmp\<close> returns and the kinds of number the strings are.\<close>

lemma compare_texts:
  "php3_smart_strcmp D s t = v \<Longrightarrow>
    compare_function D (IS_STRING s) (IS_STRING t) st = Some (SUCCESS, v, IS_STRING s, IS_STRING t, st)"
  by (simp add: compare_function_def string_of_def)

lemma text_bytes:
  assumes "is_numeric_string D s = Not_numeric \<or> is_numeric_string D t = Not_numeric"
  shows "is_equal_function D (IS_STRING s) (IS_STRING t) st = Some (SUCCESS, IS_LONG (if s = t then 1 else 0), IS_STRING s, IS_STRING t, st)"
    and "is_smaller_function D (IS_STRING s) (IS_STRING t) st =
      Some (SUCCESS, IS_LONG (if (s, t) \<in> lexord byte_order then 1 else 0), IS_STRING s, IS_STRING t, st)"
    and "is_greater_function D (IS_STRING s) (IS_STRING t) st =
      Some (SUCCESS, IS_LONG (if (t, s) \<in> lexord byte_order then 1 else 0), IS_STRING s, IS_STRING t, st)"
  using relations_long(1,3,5) [OF compare_texts [OF smart_strcmp_cases(1) [OF assms], of st]]
    strcmp_sign(1,2,3) [of s t] strcmp_sign(2) [of t s] by simp_all

lemma text_longs:
  assumes "is_numeric_string D s = Num_long i \<and> is_numeric_string D t = Num_long j"
  shows "is_equal_function D (IS_STRING s) (IS_STRING t) st = Some (SUCCESS, IS_LONG (if i = j then 1 else 0), IS_STRING s, IS_STRING t, st)"
    and "LONG_MIN \<le> i - j \<and> i - j \<le> LONG_MAX \<Longrightarrow> is_smaller_function D (IS_STRING s) (IS_STRING t) st =
      Some (SUCCESS, IS_LONG (if i < j then 1 else 0), IS_STRING s, IS_STRING t, st)"
    and "LONG_MIN \<le> i - j \<and> i - j \<le> LONG_MAX \<Longrightarrow> is_greater_function D (IS_STRING s) (IS_STRING t) st =
      Some (SUCCESS, IS_LONG (if j < i then 1 else 0), IS_STRING s, IS_STRING t, st)"
  using relations_long(1,3,5) [OF compare_texts [OF smart_strcmp_cases(2) [OF conjunct1 [OF assms] conjunct2 [OF assms]], of st]]
    wrap_long_zero(1) [of i j] numeric_long_range [OF conjunct1 [OF assms]] numeric_long_range [OF conjunct2 [OF assms]]
  by (simp_all add: wrap_long_id)

lemma text_bc_values:
  assumes "is_numeric_string D s \<noteq> Not_numeric \<and> is_numeric_string D t \<noteq> Not_numeric \<and>
      (is_numeric_string D s = Num_bc d \<or> is_numeric_string D t = Num_bc d) \<and>
      no_minus_zero (str2num (cstr s) 100) \<and> no_minus_zero (str2num (cstr t) 100)"
  defines "a \<equiv> bc_val (str2num (cstr s) 100)" and "b \<equiv> bc_val (str2num (cstr t) 100)"
  shows "is_equal_function D (IS_STRING s) (IS_STRING t) st = Some (SUCCESS, IS_LONG (if a = b then 1 else 0), IS_STRING s, IS_STRING t, st)"
    and "is_smaller_function D (IS_STRING s) (IS_STRING t) st = Some (SUCCESS, IS_LONG (if a < b then 1 else 0), IS_STRING s, IS_STRING t, st)"
    and "is_greater_function D (IS_STRING s) (IS_STRING t) st = Some (SUCCESS, IS_LONG (if b < a then 1 else 0), IS_STRING s, IS_STRING t, st)"
proof -
  have "php3_smart_strcmp D s t = IS_LONG (cmp_rat a b)"
    using assms(1) smart_strcmp_cases(3) [of D s t d] compare_val [OF str2num_ok(1) str2num_ok(1)] by (simp add: a_def b_def)
  note r = relations_long [OF compare_texts [OF this, of st]]
  show "is_equal_function D (IS_STRING s) (IS_STRING t) st = Some (SUCCESS, IS_LONG (if a = b then 1 else 0), IS_STRING s, IS_STRING t, st)"
    "is_smaller_function D (IS_STRING s) (IS_STRING t) st = Some (SUCCESS, IS_LONG (if a < b then 1 else 0), IS_STRING s, IS_STRING t, st)"
    "is_greater_function D (IS_STRING s) (IS_STRING t) st = Some (SUCCESS, IS_LONG (if b < a then 1 else 0), IS_STRING s, IS_STRING t, st)"
    using r(1,3,5) by (simp_all add: cmp_rat_def)
qed

lemma text_spaced:
  assumes "is_numeric_string D spaced_number = Num_bc d"
  shows "is_equal_function D (IS_STRING spaced_number) (IS_STRING ''0'') st =
    Some (SUCCESS, IS_LONG (if True then 1 else 0), IS_STRING spaced_number, IS_STRING ''0'', st)"
proof -
  have "php3_smart_strcmp D spaced_number ''0'' = IS_LONG 0"
    using smart_strcmp_cases(3) [of D spaced_number "''0''" d] assms by (simp add: zero_text spaced_number_is_zero)
  from relations_long(1) [OF compare_texts [OF this, of st]] show ?thesis by simp
qed

lemma text_doubles_compared:
  assumes "is_numeric_string D s = Num_double d \<and> (\<exists>e. is_numeric_string D t = Num_double e \<or> is_numeric_string D t = Num_long j) \<or>
      is_numeric_string D t = Num_double d \<and> is_numeric_string D s = Num_long j"
  defines "x \<equiv> numeric_double D s (is_numeric_string D s)" and "y \<equiv> numeric_double D t (is_numeric_string D t)"
  shows "is_equal_function D (IS_STRING s) (IS_STRING t) st =
      Some (SUCCESS, IS_LONG (if feq D (fsub D x y) (of_long D 0) then 1 else 0), IS_STRING s, IS_STRING t, st)"
    and "is_smaller_function D (IS_STRING s) (IS_STRING t) st =
      Some (SUCCESS, IS_LONG (if fless D (fsub D x y) (of_long D 0) then 1 else 0), IS_STRING s, IS_STRING t, st)"
    and "is_greater_function D (IS_STRING s) (IS_STRING t) st =
      Some (SUCCESS, IS_LONG (if fless D (of_long D 0) (fsub D x y) then 1 else 0), IS_STRING s, IS_STRING t, st)"
    and "ieee D emb rnd \<and> representable k \<and> representable l \<and> x = emb k \<and> y = emb l \<Longrightarrow>
      is_smaller_function D (IS_STRING s) (IS_STRING t) st = Some (SUCCESS, IS_LONG (if k < l then 1 else 0), IS_STRING s, IS_STRING t, st)"
    and "ieee D emb rnd \<and> representable k \<and> representable l \<and> x = emb k \<and> y = emb l \<Longrightarrow>
      is_greater_function D (IS_STRING s) (IS_STRING t) st = Some (SUCCESS, IS_LONG (if l < k then 1 else 0), IS_STRING s, IS_STRING t, st)"
  using relations_double [OF compare_texts [OF smart_strcmp_cases(4) [OF assms(1)], of st]] double_order [of D emb rnd k l]
  unfolding x_def [symmetric] y_def [symmetric] by simp_all

text \<open>
  C26: The relations on two strings. When one is not numeric, they are those of the byte strings: equality, and the
  lexicographic order of unsigned bytes, a proper prefix being smaller. On two strings that read as \<open>long\<close>s they are
  those of the numbers, as above. When one has more than 16 characters and is read by the bc library, they are those of
  the values of the two texts with at most 100 decimal places, unless one is a zero with a minus sign; a number after a
  space is 0 there, so \<open>" 12345678901234567890"\<close> equals \<open>"0"\<close>. Otherwise the \<open>double\<close>s are subtracted and the difference
  is compared with 0, which is the order of integers that are exact as \<open>double\<close>s.
\<close>

theorem compare_strings:
  shows "let r = (\<lambda>s t b. Some (SUCCESS, IS_LONG (if b then 1 else 0), IS_STRING s, IS_STRING t, st));
      equal = (\<lambda>s t. is_equal_function D (IS_STRING s) (IS_STRING t) st);
      smaller = (\<lambda>s t. is_smaller_function D (IS_STRING s) (IS_STRING t) st);
      greater = (\<lambda>s t. is_greater_function D (IS_STRING s) (IS_STRING t) st);
      m = is_numeric_string D s; n = is_numeric_string D t; x = numeric_double D s m; y = numeric_double D t n;
      a = str2num (cstr s) 100; b = str2num (cstr t) 100 in
    (m = Not_numeric \<or> n = Not_numeric \<longrightarrow>
      equal s t = r s t (s = t) \<and> smaller s t = r s t ((s, t) \<in> lexord byte_order) \<and>
      greater s t = r s t ((t, s) \<in> lexord byte_order)) \<and>
    (m = Num_long i \<and> n = Num_long j \<longrightarrow>
      equal s t = r s t (i = j) \<and>
      (LONG_MIN \<le> i - j \<and> i - j \<le> LONG_MAX \<longrightarrow> smaller s t = r s t (i < j) \<and> greater s t = r s t (j < i))) \<and>
    (m \<noteq> Not_numeric \<and> n \<noteq> Not_numeric \<and> (m = Num_bc d \<or> n = Num_bc d) \<and> no_minus_zero a \<and> no_minus_zero b \<longrightarrow>
      equal s t = r s t (bc_val a = bc_val b) \<and> smaller s t = r s t (bc_val a < bc_val b) \<and>
      greater s t = r s t (bc_val b < bc_val a)) \<and>
    (is_numeric_string D spaced_number = Num_bc d \<longrightarrow> equal spaced_number ''0'' = r spaced_number ''0'' True) \<and>
    (m = Num_double d \<and> (\<exists>e. n = Num_double e \<or> n = Num_long j) \<or> n = Num_double d \<and> m = Num_long j \<longrightarrow>
      equal s t = r s t (feq D (fsub D x y) (of_long D 0)) \<and>
      smaller s t = r s t (fless D (fsub D x y) (of_long D 0)) \<and> greater s t = r s t (fless D (of_long D 0) (fsub D x y)) \<and>
      (ieee D emb rnd \<and> representable k \<and> representable l \<and> x = emb k \<and> y = emb l \<longrightarrow>
        smaller s t = r s t (k < l) \<and> greater s t = r s t (l < k)))"
  unfolding Let_def
  by (intro conjI impI; (rule text_bytes text_longs text_bc_values text_spaced text_doubles_compared; assumption))

text \<open>Two texts that \<open>strtod\<close> reads, beside those of \<open>int_doubles\<close>.\<close>

definition text_doubles :: "int doubles" where
  "text_doubles = int_doubles\<lparr>strtod := (\<lambda>s. if s = ''1e1'' then (10, 3, False)
     else if s = spaced_number then (round53 12345678901234567890, 21, False) else strtod int_doubles s)\<rparr>"

theorem compare_strings_witness:
  "is_smaller_function text_doubles (IS_STRING ''ab'') (IS_STRING ''b'') empty_store =
     Some (SUCCESS, IS_LONG 1, IS_STRING ''ab'', IS_STRING ''b'', empty_store) \<and>
   is_smaller_function text_doubles (IS_STRING ''5'') (IS_STRING ''1e1'') empty_store =
     Some (SUCCESS, IS_LONG 1, IS_STRING ''5'', IS_STRING ''1e1'', empty_store) \<and>
   is_equal_function text_doubles (IS_STRING spaced_number) (IS_STRING ''0'') empty_store =
     Some (SUCCESS, IS_LONG 1, IS_STRING spaced_number, IS_STRING ''0'', empty_store)"
proof -
  have n: "is_numeric_string text_doubles ''ab'' = Not_numeric" "is_numeric_string text_doubles ''5'' = Num_long 5"
    "is_numeric_string text_doubles ''1e1'' = Num_double 10" "is_numeric_string text_doubles spaced_number = Num_bc (round53 12345678901234567890)"
    "numeric_double text_doubles ''5'' (Num_long 5) = 5"
    by code_simp+
  have ieee: "ieee text_doubles (\<lambda>i. i) round53" using int_doubles_ieee by (simp add: ieee_def text_doubles_def)
  have ab: "(''ab'', ''b'') \<in> lexord byte_order" by (simp add: byte_order_def uchar_def)
  have rep: "representable 5" "representable 10" using representableI [of 5 0] representableI [of 10 0] by simp_all
  note c = compare_strings [where D = text_doubles and st = empty_store, unfolded Let_def]
  have "is_smaller_function text_doubles (IS_STRING ''ab'') (IS_STRING ''b'') empty_store =
     Some (SUCCESS, IS_LONG 1, IS_STRING ''ab'', IS_STRING ''b'', empty_store)"
    using c [where s = "''ab''" and t = "''b''", THEN conjunct1] n(1) ab by simp
  moreover have "is_smaller_function text_doubles (IS_STRING ''5'') (IS_STRING ''1e1'') empty_store =
     Some (SUCCESS, IS_LONG 1, IS_STRING ''5'', IS_STRING ''1e1'', empty_store)"
    using c [where s = "''5''" and t = "''1e1''" and j = 5 and d = 10 and k = 5 and l = 10 and emb = "\<lambda>i. i" and rnd = round53,
        THEN conjunct2, THEN conjunct2, THEN conjunct2, THEN conjunct2] n(2,3,5) ieee rep double_order(1) [OF ieee rep]
    by (simp add: numeric_double_def)
  moreover have "is_equal_function text_doubles (IS_STRING spaced_number) (IS_STRING ''0'') empty_store =
     Some (SUCCESS, IS_LONG 1, IS_STRING spaced_number, IS_STRING ''0'', empty_store)"
    using c [where d = "round53 12345678901234567890", THEN conjunct2, THEN conjunct2, THEN conjunct2, THEN conjunct1] n(4) by simp
  ultimately show ?thesis by blast
qed

subsection \<open>Boolean operators\<close>

text \<open>What a value counts as in a condition.\<close>

definition truth :: "'f doubles \<Rightarrow> 'f store \<Rightarrow> 'f pval \<Rightarrow> bool" where
  "truth D st v =
     (case v of IS_LONG i \<Rightarrow> i \<noteq> 0 | IS_DOUBLE d \<Rightarrow> \<not> feq D d (of_long D 0) | IS_STRING s \<Rightarrow> s \<noteq> [] \<and> s \<noteq> ''0''
      | IS_ARRAY a \<Rightarrow> (\<exists>t. tables st a = Some t \<and> nNumOfElements t > 0)
      | IS_OBJECT a \<Rightarrow> (\<exists>t. tables st a = Some t \<and> nNumOfElements t > 0) | _ \<Rightarrow> False)"

lemma destroy_value: "owned st v tr S \<Longrightarrow> pval_destructor (Destroy v) st = Some (freed st S)"
  using destroy_owned(1) by blast

lemma to_boolean_ok:
  assumes "owned st v tr S"
  obtains n where "convert_to_boolean_long D v st = Some (IS_LONG n, freed st S)" "n \<noteq> 0 \<longleftrightarrow> truth D st v"
    "\<not> is_long v \<Longrightarrow> n = (if truth D st v then 1 else 0)"
proof (cases "table_of v")
  case None
  then have S: "S = {}" using assms by (auto elim: owned.cases)
  with assms have "pval_destructor (Destroy v) st = Some st" using destroy_value by force
  with None S show ?thesis
    by (intro that [of "if is_long v then lval v else if truth D st v then 1 else 0"])
      (auto simp: convert_to_boolean_long_def truth_def is_long_def lval_def table_of_def split: pval.splits)
next
  case (Some a)
  then obtain t where t: "tables st a = Some t" using assms by (auto elim: owned.cases)
  have "v = IS_ARRAY a \<or> v = IS_OBJECT a" using Some by (cases v) (auto simp: table_of_def)
  then show ?thesis using t destroy_value [OF assms]
    by (intro that [of "if truth D st v then 1 else 0"])
      (auto simp: convert_to_boolean_long_def count_and_destroy_def truth_def)
qed

lemma freed_freed [simp]: "freed (freed st S) S' = freed st (S \<union> S')"
  by (auto simp: freed_def restrict_map_def fun_eq_iff)

lemma owned_freed: "owned st v tr S' \<Longrightarrow> S \<inter> S' = {} \<Longrightarrow> owned (freed st S) v tr S' \<and> truth D (freed st S) v = truth D st v"
proof
  assume v: "owned st v tr S'" "S \<inter> S' = {}"
  have same: "b \<in> S' \<Longrightarrow> tables (freed st S) b = tables st b" for b using v(2) by (auto simp: freed_def restrict_map_def)
  show "owned (freed st S) v tr S'" by (rule owned_frame(1) [OF v(1) _ same]) (simp_all add: freed_def)
  have "table_of v = Some a \<Longrightarrow> a \<in> S'" for a using v(1) by (auto elim: owned.cases)
  then show "truth D (freed st S) v = truth D st v"
    using same by (auto simp: truth_def table_of_def split: pval.splits)
qed

text \<open>
  C27: The boolean operators on values that own their tables: \<open>or\<close>, \<open>and\<close> and \<open>not\<close> give 1 or 0 by the truth of the
  operands and free the tables of the operands they look at, which are both unless the first decides.
  \<open>xor\<close> does so too, but on operands that are not \<open>long\<close>s: it takes the bitwise \<open>xor\<close> of \<open>long\<close>s, so that \<open>1 xor 2\<close>
  is true.
\<close>

theorem boolean_operators:
  assumes "owned st v tr S" "owned st w tr' S'" "S \<inter> S' = {}"
  shows "(\<exists>n1 n2. boolean_or_function D v w st = Some (SUCCESS, IS_LONG (if truth D st v \<or> truth D st w then 1 else 0), n1, n2,
        freed st (if truth D st v then S else S \<union> S'))) \<and>
    (\<exists>n1 n2. boolean_and_function D v w st = Some (SUCCESS, IS_LONG (if truth D st v \<and> truth D st w then 1 else 0), n1, n2,
        freed st (if truth D st v then S \<union> S' else S))) \<and>
    (\<exists>n1. boolean_not_function D v st = Some (SUCCESS, IS_LONG (if truth D st v then 0 else 1), n1, freed st S)) \<and>
    (\<not> is_long v \<and> \<not> is_long w \<longrightarrow>
      (\<exists>n1 n2. boolean_xor_function D v w st = Some (SUCCESS, IS_LONG (if truth D st v \<noteq> truth D st w then 1 else 0), n1, n2,
        freed st (S \<union> S')))) \<and>
    boolean_xor_function D (IS_LONG 1) (IS_LONG 2) st = Some (SUCCESS, IS_LONG 3, IS_LONG 1, IS_LONG 2, st)"
proof -
  obtain n where n: "convert_to_boolean_long D v st = Some (IS_LONG n, freed st S)" "n \<noteq> 0 \<longleftrightarrow> truth D st v"
    "\<not> is_long v \<Longrightarrow> n = (if truth D st v then 1 else 0)" by (rule to_boolean_ok [OF assms(1)]) blast
  note w = owned_freed [OF assms(2,3)]
  obtain m where m: "convert_to_boolean_long D w (freed st S) = Some (IS_LONG m, freed st (S \<union> S'))" "m \<noteq> 0 \<longleftrightarrow> truth D st w"
    "\<not> is_long w \<Longrightarrow> m = (if truth D st w then 1 else 0)"
    by (rule to_boolean_ok [OF conjunct1 [OF w], of D]) (use w in auto)
  have "xor 1 2 = (3 :: int)" by simp
  then show ?thesis using n m
    by (auto simp: boolean_or_function_def boolean_and_function_def boolean_not_function_def boolean_xor_function_def
        is_long_def lval_def convert_to_boolean_long_def split: if_splits)
qed

theorem boolean_operators_witness:
  "\<exists>n1 n2. boolean_or_function int_doubles (IS_STRING ''0'') (IS_LONG 5) empty_store = Some (SUCCESS, IS_LONG 1, n1, n2, empty_store)"
proof -
  have "owned empty_store (IS_STRING ''0'') (leaf_tree (IS_STRING ''0'' :: int pval)) {}"
    "owned empty_store (IS_LONG 5) (leaf_tree (IS_LONG 5 :: int pval)) {}" by (intro owned_leaf; simp add: table_of_def)+
  from boolean_operators [OF this, of int_doubles] show ?thesis by (simp add: truth_def)
qed

end
