(* ===== verification/Increment.thy ===== *)
theory Increment
  imports Operators
begin

text \<open>
  \<open>increment_string\<close> as a successor function: a text of letters and digits is a numeral in which each
  place has the base of its class (26 or 10).
\<close>

fun radix :: "char_class \<Rightarrow> nat" where
  "radix LOWER_CASE = 26" | "radix UPPER_CASE = 26" | "radix NUMERIC = 10"

definition class_of :: "char \<Rightarrow> char_class" where
  "class_of c = the (char_class_of c)"

definition place_value :: "char \<Rightarrow> nat" where
  "place_value c = uchar c - uchar (first_of (class_of c))"

definition alnum :: "char list \<Rightarrow> bool" where
  "alnum s \<longleftrightarrow> list_all (\<lambda>c. char_class_of c \<noteq> None) s"

text \<open>The rank of a text among those with the same classes, and their number; first place first.\<close>

fun rank :: "char list \<Rightarrow> nat" and total :: "char list \<Rightarrow> nat" where
  "rank [] = 0"
| "rank (c # s) = place_value c * total s + rank s"
| "total [] = 1"
| "total (c # s) = radix (class_of c) * total s"

lemma uchars:
  "uchar CHR ''a'' = 97" "uchar CHR ''z'' = 122" "uchar CHR ''A'' = 65" "uchar CHR ''Z'' = 90" "uchar CHR ''0'' = 48" "uchar CHR ''9'' = 57"
  by (simp_all add: uchar_def)

lemma class_bounds:
  "char_class_of c = Some k \<longleftrightarrow> uchar (first_of k) \<le> uchar c \<and> uchar c \<le> uchar (last_of k)"
  by (cases k) (auto simp: char_class_of_def uchars)

lemma radix_bounds: "uchar (last_of k) - uchar (first_of k) = radix k - 1" "0 < radix k" "uchar (first_of k) \<le> uchar (last_of k)"
  by (cases k; simp add: uchars)+

lemma first_last_class [simp]: "char_class_of (first_of k) = Some k" "char_class_of (last_of k) = Some k"
  using radix_bounds(3) [of k] by (simp_all add: class_bounds)

lemma place_value_class: "char_class_of c = Some k \<Longrightarrow> place_value c = uchar c - uchar (first_of k)"
  by (simp add: place_value_def class_of_def)

lemma place_value_less: "char_class_of c = Some k \<Longrightarrow> place_value c < radix k"
  using radix_bounds [of k] class_bounds [of c k] by (simp add: place_value_class) linarith

lemma place_value_first [simp]: "place_value (first_of k) = 0"
  by (simp add: place_value_def class_of_def)

lemma place_value_last [simp]: "place_value (last_of k) = radix k - 1"
  by (simp add: place_value_def class_of_def radix_bounds)

lemma next_char:
  assumes "char_class_of c = Some k" "c \<noteq> last_of k"
  shows "char_class_of (to_char (uchar c + 1)) = Some k" "place_value (to_char (uchar c + 1)) = Suc (place_value c)"
proof -
  have "uchar c < uchar (last_of k)" using assms by (metis class_bounds le_neq_implies_less uchar_inject)
  moreover from this have "uchar (to_char (uchar c + 1)) = uchar c + 1"
    using uchar_less [of "last_of k"] by (simp del: uchar_less)
  ultimately show cl: "char_class_of (to_char (uchar c + 1)) = Some k"
    using assms(1) by (simp add: class_bounds)
  then show "place_value (to_char (uchar c + 1)) = Suc (place_value c)"
    using \<open>uchar (to_char (uchar c + 1)) = uchar c + 1\<close> assms(1) place_value_class [OF assms(1)] class_bounds [of c k]
    by (simp add: place_value_class Suc_diff_le)
qed

lemma total_pos: "0 < total s"
  by (induction s) (auto simp: radix_bounds)

lemma rank_total_append: "total (s @ t) = total s * total t" "rank (s @ t) = rank s * total t + rank t"
  by (induction s) (auto simp: algebra_simps)

lemma rank_less: "alnum s \<Longrightarrow> rank s < total s"
proof (induction s)
  case (Cons c s)
  then obtain k where k: "char_class_of c = Some k" "class_of c = k" by (auto simp: alnum_def class_of_def)
  have "place_value c * total s + rank s < Suc (place_value c) * total s" using Cons by (simp add: alnum_def)
  also have "\<dots> \<le> radix k * total s" using place_value_less [OF k(1)] by (intro mult_le_mono1) simp
  finally show ?case using k by simp
qed simp

text \<open>The text of the given classes with the least rank, and when a text has the greatest.\<close>

definition zeros :: "char list \<Rightarrow> char list" where
  "zeros s = map (\<lambda>c. first_of (class_of c)) s"

lemma rank_zeros [simp]: "rank (zeros s) = 0"
  by (induction s) (simp_all add: zeros_def)

lemma classes_zeros: "alnum s \<Longrightarrow> map char_class_of (zeros s) = map char_class_of s"
  by (induction s) (auto simp: zeros_def alnum_def class_of_def)

text \<open>The loop on \<open>rev s\<close>, in terms of \<open>s\<close>.\<close>

lemma increment_loop_ok:
  "alnum s \<Longrightarrow> (r = [] \<or> char_class_of (hd r) = None) \<Longrightarrow>
    (if Suc (rank s) < total s
     then \<exists>s' l. increment_loop lst carry (rev s @ r) = (rev s' @ r, l, False) \<and> map char_class_of s' = map char_class_of s \<and> rank s' = Suc (rank s)
     else increment_loop lst carry (rev s @ r) =
       (rev (zeros s) @ r, if s = [] then lst else class_of (hd s), if r = [] then (if s = [] then carry else True) else False))"
proof (induction s arbitrary: lst carry rule: rev_induct)
  case Nil
  then show ?case by (cases r) (auto simp: zeros_def)
next
  case (snoc c s)
  obtain k where k: "char_class_of c = Some k" "class_of c = k" using snoc.prems(1) by (auto simp: alnum_def class_of_def)
  have s: "alnum s" using snoc.prems(1) by (simp add: alnum_def)
  have p: "place_value c < radix k" by (rule place_value_less [OF k(1)])
  note ra = rank_total_append
  show ?case
  proof (cases "c = last_of k")
    case True
    then have r1: "rank (s @ [c]) = rank s * radix k + (radix k - 1)" "total (s @ [c]) = total s * radix k" using k by (simp_all add: ra)
    have step: "increment_loop lst carry (rev (s @ [c]) @ r) =
        (case increment_loop k True (rev s @ r) of (s', l, carry') \<Rightarrow> (first_of k # s', l, carry'))"
      using k True by simp
    have full: "Suc (rank (s @ [c])) = Suc (rank s) * radix k" using r1 radix_bounds(2) [of k] by simp
    show ?thesis
    proof (cases "Suc (rank s) < total s")
      case less: True
      then obtain s' l where s': "increment_loop k True (rev s @ r) = (rev s' @ r, l, False)"
        "map char_class_of s' = map char_class_of s" "rank s' = Suc (rank s)"
        using snoc.IH [OF s snoc.prems(2), of k True] by auto
      have "Suc (rank s) * radix k < total s * radix k" using less radix_bounds(2) [of k] by (intro mult_less_mono1)
      then have "Suc (rank (s @ [c])) < total (s @ [c])" using r1(2) full by simp
      moreover have "rank (s' @ [first_of k]) = Suc (rank (s @ [c]))"
        using s'(3) full by (simp add: ra class_of_def)
      ultimately show ?thesis using step s' k by (auto intro!: exI [of _ "s' @ [first_of k]"])
    next
      case False
      then have "total s * radix k \<le> Suc (rank s) * radix k" by (intro mult_le_mono1) simp
      then have "\<not> Suc (rank (s @ [c])) < total (s @ [c])" using r1(2) full by simp
      moreover have "class_of (hd (s @ [c])) = (if s = [] then k else class_of (hd s))" using k by (cases s) simp_all
      ultimately show ?thesis
        using step snoc.IH [OF s snoc.prems(2), of k True] False k by (auto simp: zeros_def)
    qed
  next
    case False
    have "place_value c \<noteq> radix k - 1"
    proof
      assume "place_value c = radix k - 1"
      then have "uchar c - uchar (first_of k) = radix k - 1" using place_value_class [OF k(1)] by simp
      then have "uchar c = uchar (last_of k)"
        using class_bounds [of c k] k(1) radix_bounds [of k] by linarith
      with False show False by simp
    qed
    with p have "Suc (place_value c) < radix k" by simp
    then have "rank s * radix k + Suc (place_value c) < Suc (rank s) * radix k" by simp
    also have "\<dots> \<le> total s * radix k" using rank_less [OF s] by (intro mult_le_mono1) simp
    finally have "Suc (rank (s @ [c])) < total (s @ [c])" using k by (simp add: ra)
    moreover have "increment_loop lst carry (rev (s @ [c]) @ r) = (rev (s @ [to_char (uchar c + 1)]) @ r, k, False)"
      using k False by simp
    moreover have "rank (s @ [to_char (uchar c + 1)]) = Suc (rank (s @ [c]))"
      using k next_char [OF k(1) False] by (simp add: ra class_of_def)
    ultimately show ?thesis using k next_char [OF k(1) False] by (auto intro!: exI [of _ "s @ [to_char (uchar c + 1)]"])
  qed
qed

text \<open>
  C28: \<open>increment_string\<close> on a text that ends in the letters and digits \<open>s\<close>, which nothing or another character
  precedes: \<open>s\<close> becomes the next text with the same class in each place; the last such text becomes the
  first one, with \<open>1\<close>, \<open>A\<close> or \<open>a\<close> (by the class of its first place) put in front where nothing precedes it. Where
  something precedes it the carry is lost: the decimal number \<open>"1.9"\<close> becomes \<open>"1.0"\<close>.
\<close>

theorem increment_string_successor:
  assumes "alnum s" "s \<noteq> []" "p = [] \<or> char_class_of (last p) = None"
  shows "(if Suc (rank s) < total s
      then \<exists>s'. increment_string (p @ s) = p @ s' \<and> map char_class_of s' = map char_class_of s \<and> rank s' = Suc (rank s)
      else increment_string (p @ s) =
        (if p = [] then [case class_of (hd s) of NUMERIC \<Rightarrow> CHR ''1'' | UPPER_CASE \<Rightarrow> CHR ''A'' | LOWER_CASE \<Rightarrow> CHR ''a''] else p) @ zeros s) \<and>
    increment_string ''1.9'' = ''1.0''"
proof -
  have "rev p = [] \<or> char_class_of (hd (rev p)) = None" using assms(3) by (cases p rule: rev_cases) auto
  from increment_loop_ok [OF assms(1) this, of NUMERIC False]
  have "if Suc (rank s) < total s
      then \<exists>s'. increment_string (p @ s) = p @ s' \<and> map char_class_of s' = map char_class_of s \<and> rank s' = Suc (rank s)
      else increment_string (p @ s) =
        (if p = [] then [case class_of (hd s) of NUMERIC \<Rightarrow> CHR ''1'' | UPPER_CASE \<Rightarrow> CHR ''A'' | LOWER_CASE \<Rightarrow> CHR ''a''] else p) @ zeros s"
    using assms(2) by (auto simp: increment_string_def split: if_splits)
  moreover have "increment_string ''1.9'' = ''1.0''"
    by (simp add: increment_string_def char_class_of_def uchars uchar_def)
  ultimately show ?thesis ..
qed

theorem increment_string_successor_witness:
  "(\<exists>s'. increment_string ''Az'' = s' \<and> map char_class_of s' = [Some UPPER_CASE, Some LOWER_CASE] \<and> rank s' = 26) \<and>
    increment_string ''Zz9'' = ''AAa0''"
proof -
  have c: "alnum ''Az''" "alnum ''Zz9''" by (simp_all add: alnum_def char_class_of_def uchar_def)
  have r: "rank ''Az'' = 25" "total ''Az'' = 676" "rank ''Zz9'' = 6759" "total ''Zz9'' = 6760" "class_of CHR ''Z'' = UPPER_CASE"
    "zeros ''Zz9'' = ''Aa0''" "map char_class_of ''Az'' = [Some UPPER_CASE, Some LOWER_CASE]"
    by (simp_all add: class_of_def place_value_def zeros_def char_class_of_def uchar_def)
  show ?thesis
    using increment_string_successor [OF c(1), of "[]"] increment_string_successor [OF c(2), of "[]"] r by simp
qed

end
