(* ===== verification/Array_Union.thy ===== *)
theory Array_Union
  imports Arithmetic Variables_Proofs
begin

text \<open>
  The sum of two arrays (\<open>add_function\<close>): \<open>_php3_hash_merge\<close> inserts each element whose key is new, which for a
  moment shares its tables with the right operand, and replaces it by a copy; then the right operand is destroyed.
\<close>

lemma merge_element_new:
  assumes inv: "ht_inv t os" and arr: "array_table t" and x: "bucket_ok t x" and new: "bkey x \<notin> fst ` set (ht_abs t os)"
  obtains q t1 os1 where "merge_element t x = Some (SUCCESS, Some q, t1)" "ht_inv t1 os1" "q \<in> set os1" "array_table t1"
    "ht_abs t1 os1 = ht_abs t os @ [(bkey x, pData x)]" "bkey (bk t1 q) = bkey x"
proof -
  note result = that
  have mem: "mem_ok t" using arr by (simp add: array_table_def mem_ok_def)
  have fin: thesis if "merge_element t x = Some (SUCCESS, Some q, t1)" "ht_inv t1 os1" "ht_abs t1 os1 = AList.update (bkey x) (pData x) (ht_abs t os)"
    "same_params t t1" "q \<in> set os1" "bkey (bk t1 q) = bkey x" "plain t1" for q t1 os1
    using that arr new by (intro result [of q t1 os1]) (simp_all add: array_table_def same_params_def update_new_pair)
  show thesis
  proof (cases "arKey x")
    case None
    then have k: "bkey x = Idx (hval x)" by (simp add: bkey_def)
    have tgt: "hval x = target_index t (hval x) HASH_UPDATE" by (simp add: target_index_def)
    have ex: "php3_hash_index_exists t (hval x) = Some 0" using index_exists_ok [OF inv, of "hval x"] new k by simp
    obtain q t1 os1 where r: "php3_hash_index_update_or_next_insert t (hval x) (pData x) HASH_UPDATE = Some (SUCCESS, Some q, t1)"
      "ht_inv t1 os1" "ht_abs t1 os1 = AList.update (Idx (hval x)) (pData x) (ht_abs t os)"
      "same_params t t1" "q \<in> set os1" "bkey (bk t1 q) = Idx (hval x)"
      using index_insert_ok [OF inv mem tgt, of "pData x"] by blast
    moreover have "plain t1" using plain_index_update [OF r(1)] arr by (simp add: array_table_def)
    ultimately show thesis using None k ex by (intro fin [of q t1 os1]) (simp_all add: merge_element_def)
  next
    case (Some s)
    then have k: "norm_key s = bkey x" "s \<noteq> []" using x by (auto simp: bkey_def bucket_ok_def norm_key_def)
    have "HASH_ADD \<noteq> HASH_NEXT_INSERT" "HASH_ADD = HASH_UPDATE \<or> norm_key s \<notin> fst ` set (ht_abs t os)" using new k(1) by simp_all
    from add_or_update_ok [OF inv mem k(2) this, of "pData x"] obtain q t1 os1 where r: "php3_hash_add_or_update t s (pData x) HASH_ADD = Some (SUCCESS, Some q, t1)"
      "ht_inv t1 os1" "ht_abs t1 os1 = AList.update (norm_key s) (pData x) (ht_abs t os)"
      "same_params t t1" "q \<in> set os1" "bkey (bk t1 q) = norm_key s" by metis
    moreover have "plain t1" using plain_add_or_update [OF r(1)] arr by (simp add: array_table_def)
    ultimately show thesis using Some k by (intro fin [of q t1 os1]) (simp_all add: merge_element_def)
  qed
qed

lemma merge_element_old:
  assumes inv: "ht_inv t os" and x: "bucket_ok t x" and old: "bkey x \<in> fst ` set (ht_abs t os)"
  shows "merge_element t x = Some (FAILURE, None, t)"
proof (cases "arKey x")
  case None
  then have "bkey x = Idx (hval x)" by (simp add: bkey_def)
  then have "php3_hash_index_exists t (hval x) = Some 1" using index_exists_ok [OF inv, of "hval x"] old by simp
  then show ?thesis using None by (simp add: merge_element_def)
next
  case (Some s)
  then have k: "norm_key s = bkey x" "s \<noteq> []" using x by (auto simp: bkey_def bucket_ok_def norm_key_def)
  have "php3_hash_add_or_update t s (pData x) HASH_ADD = Some (FAILURE, None, t)" using inv k old by (intro add_present) simp_all
  then show ?thesis using Some by (simp add: merge_element_def)
qed

text \<open>The new element becomes a copy of its own.\<close>

lemma construct_element_ok:
  assumes t: "tables st a = Some t" "ht_inv t os" "array_table t" "q \<in> set os"
    and abs: "ht_abs t os = al @ [(bkey (bk t q), v)]" and own: "owned st v tr S" "a \<notin> S" and wf: "store_wf st"
  obtains v' t' st' S' where "construct_element a (Some q) st = Some (set_table st' a t')" "ht_inv t' os" "array_table t'"
    "ht_abs t' os = al @ [(bkey (bk t q), v')]" "owned st' v' tr S'" "grown {} st S' st'" "tables st' a = Some t"
proof -
  obtain b where b: "heap t q = Some b" using inv_heap [OF t(2,4)] by blast
  have new: "bkey (bk t q) \<notin> fst ` set al" using abs_distinct [OF t(2)] abs by simp
  have "(bkey (bk t q), pData (bk t q)) \<in> set (ht_abs t os)" using t(4) by (simp add: ht_abs_def)
  with new abs b have d: "pData b = v" by force
  obtain v' st' S' where cp: "pval_copy_constructor (Copy v) st = Some (SUCCESS, v', st')" "owned st' v' tr S'" "grown {} st S' st'"
    using copy_owned(1) [OF own(1)] wf by blast
  have a: "a < next_table st" using wf t(1) by (auto simp: store_wf_def)
  have ta: "tables st' a = Some t" using grown_old [OF cp(3) a] t(1) by simp
  let ?t = "t\<lparr>heap := (heap t)(q \<mapsto> b\<lparr>pData := v'\<rparr>)\<rparr>"
  have "construct_element a (Some q) st = Some (set_table st' a ?t)"
    using t(1) b d cp(1) ta by (simp add: construct_element_def set_field_def)
  moreover have "ht_inv ?t os" "ht_abs ?t os = AList.update (bkey (bk t q)) v' (ht_abs t os)"
    using inv_write_data [OF t(2,4), of "b\<lparr>pData := v'\<rparr>"] b by simp_all
  moreover have "array_table ?t" using t(3) b by (auto simp: array_table_def plain_def plain_heap_def)
  ultimately show thesis using cp ta abs new by (intro that [of st' ?t v' S']) (simp_all add: update_last)
qed

definition merged :: "(hkey \<times> 'a) list \<Rightarrow> (hkey \<times> 'a) list \<Rightarrow> (hkey \<times> 'a) list" where
  "merged ks kvs = ks @ filter (\<lambda>(k, t). k \<notin> fst ` set ks) kvs"

lemma merged_Cons:
  assumes "distinct (map fst ((k, v) # kvs))"
  shows "merged ks ((k, v) # kvs) = (if k \<in> fst ` set ks then merged ks kvs else merged (ks @ [(k, v)]) kvs)"
proof -
  have "(k', t) \<in> set kvs \<Longrightarrow> k' \<noteq> k" for k' t using assms by force
  then have "filter (\<lambda>(k', t). k' \<notin> fst ` set (ks @ [(k, v)])) kvs = filter (\<lambda>(k', t). k' \<notin> fst ` set ks) kvs"
    by (intro filter_cong) auto
  then show ?thesis by (simp add: merged_def)
qed

lemma merge_from_ok:
  assumes "store_wf st" "owned_all st al kvs S'" "tables st b = Some s" "dseg (heap s) p prev xs None"
    and "map (\<lambda>x. (bkey (bk s x), pData (bk s x))) xs = al" "\<forall>x \<in> set xs. bucket_ok t (bk s x)" "distinct (map fst al)"
    and "tables st a = Some t" "ht_inv t os" "array_table t" "owned_all st (ht_abs t os) ks S"
    and "a \<noteq> b" "a \<notin> S \<union> S'" "S \<inter> S' = {}"
  shows "\<exists>st1 t1 os1 S1. merge_from a b p st = Some st1 \<and> tables st1 a = Some t1 \<and> ht_inv t1 os1 \<and> array_table t1 \<and>
    owned_all st1 (ht_abs t1 os1) (merged ks kvs) (S \<union> S1) \<and> grown {a} st S1 st1"
  using assms
proof (induction al arbitrary: kvs S' p prev xs st t os ks S)
  case Nil
  then show ?case
    by (intro exI [of _ st] exI [of _ t] exI [of _ os] exI [of _ "{}"]) (simp add: merge_from.simps merged_def grown_def)
next
  case (Cons kv al)
  note wf = Cons.prems(1) and tb = Cons.prems(3) and ta = Cons.prems(8) and inv = Cons.prems(9) and arr = Cons.prems(10)
    and left = Cons.prems(11) and ab = Cons.prems(12)
  from Cons.prems(2) obtain k v tr kvs0 S2 S3 where
    c: "kv = (k, v)" "kvs = (k, tr) # kvs0" "S' = S2 \<union> S3" "owned st v tr S2" "owned_all st al kvs0 S3" "S2 \<inter> S3 = {}"
    by (rule owned_ConsE) blast
  obtain x ys where xs: "xs = x # ys" using Cons.prems(5) by (cases xs) auto
  then obtain d where d: "p = Some x" "heap s x = Some d" "dseg (heap s) (pListNext d) (Some x) ys None" using Cons.prems(4) by auto
  have kv: "bkey d = k" "pData d = v" "map (\<lambda>x. (bkey (bk s x), pData (bk s x))) ys = al" using Cons.prems(5) xs d(2) c(1) by auto
  have ok: "bucket_ok t d" "\<forall>x \<in> set ys. bucket_ok t (bk s x)" using Cons.prems(6) xs d(2) by auto
  have keys: "map fst ks = map fst (ht_abs t os)" using owned_keys [OF left] .
  then have ks: "fst ` set ks = fst ` set (ht_abs t os)" by (metis set_map)
  have "distinct (map fst ((k, tr) # kvs0))" using Cons.prems(7) c(1) owned_keys [OF c(5)] by simp
  note m = merged_Cons [OF this, of ks]
  have dist: "distinct (map fst al)" using Cons.prems(7) by simp
  have S: "a \<notin> S" "a \<notin> S2" "a \<notin> S3" "S \<inter> S3 = {}" "a \<notin> S \<union> S3" using Cons.prems(13,14) c(3) by auto
  show ?case
  proof (cases "k \<in> fst ` set ks")
    case True
    then have "merge_element t d = Some (FAILURE, None, t)" using merge_element_old [OF inv ok(1)] kv(1) ks by simp
    then have "merge_from a b p st = merge_from a b (pListNext d) st"
      using tb ta d by (subst merge_from.simps) simp
    with Cons.IH [OF wf c(5) tb d(3) kv(3) ok(2) dist ta inv arr left ab S(5,4)] True m c(2) show ?thesis by simp
  next
    case False
    then have "bkey d \<notin> fst ` set (ht_abs t os)" using kv(1) ks by simp
    then obtain q t1 os1 where t1: "merge_element t d = Some (SUCCESS, Some q, t1)" "ht_inv t1 os1" "q \<in> set os1" "array_table t1"
      "ht_abs t1 os1 = ht_abs t os @ [(bkey (bk t1 q), v)]" "bkey (bk t1 q) = k"
      by (rule merge_element_new [OF inv arr ok(1)]) (auto simp: kv)
    let ?st = "set_table st a t1"
    have frame: "tables ?st y = tables st y" if "y \<noteq> a" for y using that by (simp add: set_table_def)
    have "owned ?st v tr S2" using c(4) by (rule owned_frame(1)) (use S(2) in \<open>auto simp: set_table_def\<close>)
    moreover have "tables ?st a = Some t1" "store_wf ?st" using store_wf_set [OF wf ta] by (simp_all add: set_table_def)
    ultimately obtain v' t2 st2 S1 where e: "construct_element a (Some q) ?st = Some (set_table st2 a t2)" "ht_inv t2 os1" "array_table t2"
      "ht_abs t2 os1 = ht_abs t os @ [(k, v')]" "owned st2 v' tr S1" "grown {} ?st S1 st2" "tables st2 a = Some t1"
      using construct_element_ok [OF _ t1(2,4,3,5), of ?st a tr S2] S(2) t1(6) by metis
    let ?st2 = "set_table st2 a t2"
    have g: "grown {a} st S1 ?st2" "S1 \<inter> {..< next_table st} = {}"
      using e(6) store_wf_set [OF _ e(7)] by (auto simp: grown_def set_table_def)
    have lt: "y < next_table st" if "y \<in> S \<union> S2 \<union> S3 \<union> {a, b}" for y
      using that owned_tables(1) [OF c(4)] owned_tables(2) [OF c(5)] owned_tables(2) [OF left] wf ta tb unfolding store_wf_def by blast
    have same: "tables ?st2 y = tables st y" if "y \<in> S \<union> S3 \<union> {b}" for y
      using grown_old [OF g(1) lt] that S(1,3) ab by blast
    have sym: "symbol_table ?st2 = symbol_table st" using g(1) by (simp add: grown_def)
    have l: "owned_all ?st2 (ht_abs t os) ks S" using left by (rule owned_frame(2)) (use sym same in auto)
    have aS1: "a \<notin> S1" using g(2) lt [of a] by auto
    have "owned ?st2 v' tr S1" using e(5) by (rule owned_frame(1)) (use aS1 in \<open>auto simp: set_table_def\<close>)
    then have n: "owned_all ?st2 [(k, v')] [(k, tr)] (S1 \<union> {})" by (intro owned_owned_all.intros) auto
    have SS1: "S \<inter> (S1 \<union> {}) = {}" using g(2) lt by auto
    have own2: "owned_all ?st2 (ht_abs t2 os1) (ks @ [(k, tr)]) (S \<union> S1)"
      using owned_append [OF l n SS1] e(4) by simp
    have rest: "owned_all ?st2 al kvs0 S3" using c(5) by (rule owned_frame(2)) (use sym same in auto)
    have tb2: "tables ?st2 b = Some s" "tables ?st2 a = Some t2" using same [of b] tb by (auto simp: set_table_def)
    have S3: "a \<notin> (S \<union> S1) \<union> S3" "(S \<union> S1) \<inter> S3 = {}" using S aS1 g(2) lt by auto
    have "pHashFunction t2 = pHashFunction t" using e(3) arr by (simp add: array_table_def)
    then have ok2: "\<forall>x \<in> set ys. bucket_ok t2 (bk s x)" using ok(2) bucket_ok_cong by metis
    have wf2: "store_wf ?st2" using g(1) by (simp add: grown_def)
    obtain st3 t3 os3 S4 where r: "merge_from a b (pListNext d) ?st2 = Some st3" "tables st3 a = Some t3" "ht_inv t3 os3" "array_table t3"
      "owned_all st3 (ht_abs t3 os3) (merged (ks @ [(k, tr)]) kvs0) ((S \<union> S1) \<union> S4)" "grown {a} ?st2 S4 st3"
      using Cons.IH [OF wf2 rest tb2(1) d(3) kv(3) ok2 dist tb2(2) e(2,3) own2 ab S3] by blast
    have "merge_from a b p st = Some st3"
      using tb ta d t1(1) e(1) tb2(1) r(1) by (subst merge_from.simps) simp
    then show ?thesis using r(2-5) grown_trans [OF g(1) r(6)] False m c(2)
      by (intro exI [of _ st3] exI [of _ t3] exI [of _ os3] exI [of _ "S1 \<union> S4"]) (simp add: Un_assoc)
  qed
qed


lemma convert_scalar_ok:
  assumes "owned st v tr S" "store_wf st"
  obtains st' where "convert_scalar_to_array v False st = Some (IS_ARRAY (next_table st), st')"
    "owned st' (IS_ARRAY (next_table st)) (Node False [(Idx 0, tr)]) (insert (next_table st) S)"
    "store_wf st'" "extends st st'" "S \<subseteq> {..<next_table st}" "\<forall>c. c \<noteq> next_table st \<longrightarrow> tables st' c = tables st c"
    "next_table st' = Suc (next_table st)"
proof -
  let ?c = "next_table st"
  obtain t :: "'a pval hashtable" where t: "php3_hash_init 0 None True False [] = Some t" "ht_inv t []" "ht_abs t [] = []"
    "persistent t = False" "pDestructor t = True" "pHashFunction t = hashpjw"
    by (rule init_ok [of "[]" 0 None True False]) auto
  then have arr: "array_table t" using init_heap [OF t(1)] by (simp add: array_table_def plain_def plain_heap_def)
  have mem: "mem_ok t" using t(4) by (simp add: mem_ok_def)
  have tgt: "0 = target_index t 0 HASH_UPDATE" by (simp add: target_index_def)
  obtain q t1 os1 where t1: "php3_hash_index_update_or_next_insert t 0 v HASH_UPDATE = Some (SUCCESS, Some q, t1)"
    "ht_inv t1 os1" "ht_abs t1 os1 = AList.update (Idx 0) v (ht_abs t [])" "same_params t t1"
    using index_insert_ok [OF t(2) mem tgt, of v] by blast
  have arr1: "array_table t1" using plain_index_update [OF t1(1)] arr t1(4) by (simp add: array_table_def same_params_def)
  let ?st = "(set_table st ?c t1)\<lparr>next_table := Suc ?c\<rparr>"
  have S: "S \<subseteq> {..<?c}" using owned_tables(1) [OF assms(1)] assms(2) unfolding store_wf_def by blast
  have "owned ?st v tr S" using assms(1) by (rule owned_frame(1)) (use S in \<open>auto simp: set_table_def\<close>)
  then have "owned_all ?st (ht_abs t1 os1) [(Idx 0, tr)] (S \<union> {})"
    unfolding t1(3) t(3) by (simp, intro owned_owned_all.owned_Cons [where S' = "{}", simplified]) auto
  then have "owned ?st (IS_ARRAY ?c) (Node (IS_ARRAY ?c = (IS_OBJECT ?c :: 'a pval)) [(Idx 0, tr)]) (insert ?c S)"
    using t1(2) arr1 S assms(2) by (intro owned_owned_all.owned_node [where t = t1 and os = os1]) (auto simp: table_of_def set_table_def store_wf_def)
  moreover have "convert_scalar_to_array v False st = Some (IS_ARRAY ?c, ?st)"
    using t(1) t1(1) by (simp add: convert_scalar_to_array_def new_table_def)
  ultimately show thesis using assms(2) S
    by (intro that [of ?st]) (auto simp: store_wf_def extends_def set_table_def less_Suc_eq)
qed

text \<open>
  C22: The sum of two arrays that share no table: the result is the left operand's table, with the elements of the
  right operand whose keys are new after its own, in their order and copied; the right operand is freed with
  all it reaches, and every other table stays as it is.
\<close>

theorem array_union:
  assumes "owned st (IS_ARRAY a) (Node False kvs) S" "owned st (IS_ARRAY b) (Node False kvs') S'" "S \<inter> S' = {}" "store_wf st"
  shows "\<exists>st' S1. add_function D (IS_ARRAY a) (IS_ARRAY b) st = Some (SUCCESS, IS_ARRAY a, IS_ARRAY a, IS_ARRAY b, st') \<and>
    owned st' (IS_ARRAY a) (Node False (merged kvs kvs')) (S \<union> S1) \<and>
    (\<forall>c \<in> S'. tables st' c = None) \<and> (\<forall>c. c \<notin> S \<union> S' \<union> S1 \<longrightarrow> tables st' c = tables st c)"
proof -
  obtain t os S0 where a: "S = insert a S0" "a \<noteq> symbol_table st" "tables st a = Some t" "ht_inv t os" "array_table t"
    "owned_all st (ht_abs t os) kvs S0" "a \<notin> S0" using assms(1) by (rule owned_nodeE) (auto simp: table_of_def)
  obtain s ps S2 where b: "S' = insert b S2" "b \<noteq> symbol_table st" "tables st b = Some s" "ht_inv s ps" "array_table s"
    "owned_all st (ht_abs s ps) kvs' S2" "b \<notin> S2" using assms(2) by (rule owned_nodeE) (auto simp: table_of_def)
  have seg: "dseg (heap s) (pListHead s) None ps None" "distinct (map fst (ht_abs s ps))"
    using b(4) abs_distinct by (auto simp: ht_inv_def order_inv_def)
  have "bucket_ok t = bucket_ok s" by (rule bucket_ok_cong) (use a(5) b(5) in \<open>simp add: array_table_def\<close>)
  then have ok: "\<forall>x \<in> set ps. bucket_ok t (bk s x)" using inv_bucket_ok [OF b(4)] by simp
  have ab: "a \<noteq> b" "a \<notin> S0 \<union> S2" "S0 \<inter> S2 = {}" using assms(3) a(1,7) b(1) by auto
  obtain st1 t1 os1 S1 where r: "merge_from a b (pListHead s) st = Some st1" "tables st1 a = Some t1" "ht_inv t1 os1" "array_table t1"
    "owned_all st1 (ht_abs t1 os1) (merged kvs kvs') (S0 \<union> S1)" "grown {a} st S1 st1"
    using merge_from_ok [OF assms(4) b(6,3) seg(1) _ ok seg(2) a(3-6) ab] by (auto simp: ht_abs_def [of s])
  let ?t = "t1\<lparr>pInternalPointer := pListHead t1\<rparr>"
  let ?st2 = "set_table st1 a ?t"
  have lt: "c < next_table st" if "c \<in> S \<union> S'" for c
    using that owned_tables(1) [OF assms(1)] owned_tables(1) [OF assms(2)] assms(4) unfolding store_wf_def by blast
  have S1: "c \<notin> S1" if "c \<in> S \<union> S'" for c using lt [OF that] r(6) by (auto simp: grown_def)
  have same: "tables ?st2 c = tables st c" if "c \<in> S'" for c
  proof -
    have "c \<noteq> a" using that assms(3) a(1) by auto
    then show ?thesis using grown_old [OF r(6) lt [of c]] that by (simp add: set_table_def)
  qed
  have sym: "symbol_table ?st2 = symbol_table st" using r(6) by (simp add: grown_def set_table_def)
  have "owned ?st2 (IS_ARRAY b) (Node False kvs') S'" using assms(2) by (rule owned_frame(1)) (use sym same in auto)
  then have d: "pval_destructor (Destroy (IS_ARRAY b)) ?st2 = Some (freed ?st2 S')" using destroy_owned(1) by blast
  have a1: "a \<notin> S0 \<union> S1" using a(1,7) S1 [of a] by simp
  have "owned_all ?st2 (ht_abs ?t os1) (merged kvs kvs') (S0 \<union> S1)"
    by (simp, rule owned_frame(2) [OF r(5)]) (use a1 in \<open>auto simp: set_table_def\<close>)
  moreover have "ht_inv ?t os1" using r(3) by (rule inv_set_pointer) (auto simp: list_head [OF r(3)] dest: head_ptr_in)
  ultimately have "owned ?st2 (IS_ARRAY a) (Node (IS_ARRAY a = (IS_OBJECT a :: 'a pval)) (merged kvs kvs')) (insert a (S0 \<union> S1))"
    using a1 a(2) r(4) sym by (intro owned_owned_all.owned_node [where t = ?t and os = os1]) (auto simp: table_of_def set_table_def)
  then have "owned (freed ?st2 S') (IS_ARRAY a) (Node False (merged kvs kvs')) (S \<union> S1)"
    by (simp add: a(1), elim owned_frame(1)) (use S1 assms(3) a(1) in \<open>auto simp: freed_def restrict_map_def\<close>)
  moreover have "add_function D (IS_ARRAY a) (IS_ARRAY b) st = Some (SUCCESS, IS_ARRAY a, IS_ARRAY a, IS_ARRAY b, freed ?st2 S')"
    using b(3) r(1,2) d by (simp add: add_function_def array_merge_def)
  moreover have "c \<notin> S \<union> S' \<union> S1 \<Longrightarrow> tables (freed ?st2 S') c = tables st c" for c
    using r(6) a(1) by (auto simp: freed_def set_table_def grown_def restrict_map_def)
  ultimately show ?thesis by (intro exI [of _ "freed ?st2 S'"] exI [of _ S1]) (auto simp: freed_def)
qed

lemma store_wf_empty: "store_wf empty_store"
  by (simp add: store_wf_def empty_store_def)

lemma owned_long: "owned st (IS_LONG i) (Long_leaf i) {}"
  using owned_leaf [of "IS_LONG i" st] by (simp add: table_of_def leaf_tree_def)

text \<open>Two arrays in one store: \<open>(0 => 5)\<close> and \<open>(0 => (0 => 6))\<close>.\<close>

lemma two_arrays: "\<exists>st :: int store. store_wf st \<and> owned st (IS_ARRAY 1) (Node False [(Idx 0, Long_leaf 5)]) {1} \<and>
    owned st (IS_ARRAY 3) (Node False [(Idx 0, Node False [(Idx 0, Long_leaf 6)])]) {2, 3}"
proof -
  obtain st1 :: "int store" where s1: "owned st1 (IS_ARRAY 1) (Node False [(Idx 0, Long_leaf 5)]) {1}" "store_wf st1" "next_table st1 = 2"
    using convert_scalar_ok [OF owned_long [of empty_store 5] store_wf_empty]
    by (auto simp: empty_store_def numeral_2_eq_2)
  obtain st2 where s2: "owned st2 (IS_ARRAY 2) (Node False [(Idx 0, Long_leaf 6)]) {2}" "store_wf st2" "next_table st2 = 3"
    "\<forall>c. c \<noteq> 2 \<longrightarrow> tables st2 c = tables st1 c" "symbol_table st2 = symbol_table st1"
    using convert_scalar_ok [OF owned_long [of st1 6] s1(2)] s1(3)
    by (auto simp: extends_def)
  obtain st3 where s3: "owned st3 (IS_ARRAY 3) (Node False [(Idx 0, Node False [(Idx 0, Long_leaf 6)])]) {3, 2}" "store_wf st3"
    "\<forall>c. c \<noteq> 3 \<longrightarrow> tables st3 c = tables st2 c" "symbol_table st3 = symbol_table st2"
    using convert_scalar_ok [OF s2(1,2)] s2(3) by (auto simp: extends_def)
  have "owned st3 (IS_ARRAY 1) (Node False [(Idx 0, Long_leaf 5)]) {1}"
    using s1(1) by (rule owned_frame(1)) (use s2 s3 in auto)
  with s3(1,2) show ?thesis by (intro exI [of _ st3]) (simp add: insert_commute)
qed

theorem array_union_witness:
  "\<exists>st st' S1. add_function int_doubles (IS_ARRAY 1) (IS_ARRAY 3) st = Some (SUCCESS, IS_ARRAY 1, IS_ARRAY 1, IS_ARRAY 3, st') \<and>
    owned st' (IS_ARRAY 1) (Node False [(Idx 0, Long_leaf 5)]) S1"
proof -
  obtain st :: "int store" where "store_wf st" "owned st (IS_ARRAY 1) (Node False [(Idx 0, Long_leaf 5)]) {1}"
    "owned st (IS_ARRAY 3) (Node False [(Idx 0, Node False [(Idx 0, Long_leaf 6)])]) {2, 3}" using two_arrays by blast
  from array_union [OF this(2,3) _ this(1), of int_doubles] show ?thesis by (auto simp: merged_def)
qed

text \<open>
  C23: \<open>pval_copy_constructor\<close> on a value that owns its tables gives the same tree on tables that are all new, leaves
  the original as it is, and \<open>pval_destructor\<close> on the copy frees exactly these again.
\<close>

theorem copy_then_destroy:
  assumes "owned st v tr S" "store_wf st"
  shows "\<exists>v' st1 S1. pval_copy_constructor (Copy v) st = Some (SUCCESS, v', st1) \<and> owned st1 v' tr S1 \<and> owned st1 v tr S \<and>
    S1 \<subseteq> {next_table st ..< next_table st1} \<and>
    (\<exists>st2. pval_destructor (Destroy v') st1 = Some st2 \<and> tables st2 = tables st)"
proof -
  obtain v' st1 S1 where c: "pval_copy_constructor (Copy v) st = Some (SUCCESS, v', st1)" "owned st1 v' tr S1" "grown {} st S1 st1"
    using copy_owned(1) [OF assms(1)] assms(2) by blast
  have "S \<subseteq> {..<next_table st}" using owned_tables(1) [OF assms(1)] assms(2) unfolding store_wf_def by blast
  then have "owned st1 v tr S" by (intro owned_frame(1) [OF assms(1)]) (use c(3) grown_old [OF c(3)] in \<open>auto simp: grown_def [of _ st]\<close>)
  moreover have none: "tables st b = None" if "next_table st \<le> b" for b
    using assms(2) that unfolding store_wf_def by (metis not_None_eq not_less)
  have "tables (freed st1 S1) b = tables st b" for b
    using c(3) none [of b] by (auto simp: freed_def grown_def restrict_map_def)
  then have "tables (freed st1 S1) = tables st" ..
  ultimately show ?thesis using c destroy_owned(1) [OF c(2)] by (auto simp: grown_def)
qed

theorem copy_then_destroy_witness:
  "\<exists>(st :: int store) v' st1 S1. pval_copy_constructor (Copy (IS_ARRAY 3)) st = Some (SUCCESS, v', st1) \<and>
    owned st1 v' (Node False [(Idx 0, Node False [(Idx 0, Long_leaf 6)])]) S1"
proof -
  obtain st :: "int store" where "store_wf st"
    "owned st (IS_ARRAY 3) (Node False [(Idx 0, Node False [(Idx 0, Long_leaf 6)])]) {2, 3}" using two_arrays by blast
  from copy_then_destroy [OF this(2,1)] show ?thesis by blast
qed

end
