(* ===== verification/Php_Math.thy ===== *)
theory Php_Math
  imports Decimal
begin

text \<open>
  The functions of \<^verbatim>\<open>php-src/functions/math.c\<close> on numbers in other bases and on the text form of
  numbers: \<open>_php3_basetolong\<close>, \<open>_php3_longtobase\<close> and the PHP functions on them, and \<open>number_format\<close>,
  whose digits come from \<open>sprintf\<close>. A \<open>long\<close> is an integer in its range; overflow wraps.
\<close>

subsection \<open>Reading and writing in a base\<close>

text \<open>The digit a character stands for in the base, if it is one.\<close>

definition base_digit :: "nat \<Rightarrow> char \<Rightarrow> nat option" where
  "base_digit base ch =
     (let c = toupper ch in
      if 48 \<le> uchar c \<and> uchar c \<le> 57 then (if uchar c - 48 < base then Some (uchar c - 48) else None)
      else if 65 \<le> uchar c \<and> uchar c \<le> 90 then (if uchar c - 65 + 10 < base then Some (uchar c - 65 + 10) else None)
      else None)"

text \<open>The loop from the last character to the first.\<close>

fun basetolong_loop :: "nat \<Rightarrow> char list \<Rightarrow> int \<Rightarrow> int \<Rightarrow> int" where
  "basetolong_loop base [] mult num = num"
| "basetolong_loop base (c # cs) mult num =
     basetolong_loop base cs (wrap_long (mult * int base))
       (case base_digit base c of None \<Rightarrow> num | Some digit \<Rightarrow> wrap_long (num + wrap_long (mult * int digit)))"

definition basetolong :: "char list \<Rightarrow> int \<Rightarrow> int" where
  "basetolong s base = (if base < 2 \<or> base > 36 then 0 else basetolong_loop (nat base) (rev s) 1 0)"

definition base_digits :: "char list" where
  "base_digits = ''0123456789abcdefghijklmnopqrstuvwxyz''"

text \<open>
  The loop that writes digits from the end of a buffer of 65 bytes: \<open>p\<close> is the offset of \<open>ptr\<close>, \<open>acc\<close>
  what is written behind it. A negative remainder reads before the table \<open>digits\<close>.
\<close>

fun longtobase_loop :: "nat \<Rightarrow> int \<Rightarrow> nat \<Rightarrow> char list \<Rightarrow> char list option" where
  "longtobase_loop base v p acc =
     (let digit = c_mod v (int base) in
      if digit < 0 then None
      else
        let acc' = base_digits ! nat digit # acc; v' = c_div v (int base) in
        case p of 0 \<Rightarrow> Some acc' | Suc p' \<Rightarrow> if v' \<noteq> 0 then longtobase_loop base v' p' acc' else Some acc')"

declare longtobase_loop.simps [simp del]

definition longtobase :: "int \<Rightarrow> int \<Rightarrow> char list option" where
  "longtobase v base = (if base < 2 \<or> base > 36 then Some [] else longtobase_loop (nat base) v 63 [])"

definition php3_bindec :: "char list \<Rightarrow> int" where "php3_bindec s = basetolong s 2"
definition php3_hexdec :: "char list \<Rightarrow> int" where "php3_hexdec s = basetolong s 16"
definition php3_octdec :: "char list \<Rightarrow> int" where "php3_octdec s = basetolong s 8"
definition php3_decbin :: "int \<Rightarrow> char list option" where "php3_decbin n = longtobase n 2"
definition php3_decoct :: "int \<Rightarrow> char list option" where "php3_decoct n = longtobase n 8"
definition php3_dechex :: "int \<Rightarrow> char list option" where "php3_dechex n = longtobase n 16"

text \<open>\<open>Some None\<close> is the result false, after a warning.\<close>

definition php3_base_convert :: "char list \<Rightarrow> int \<Rightarrow> int \<Rightarrow> char list option option" where
  "php3_base_convert number frombase tobase =
     (if frombase < 2 \<or> frombase > 36 then Some None
      else if tobase < 2 \<or> tobase > 36 then Some None
      else map_option Some (longtobase (basetolong number frombase) tobase))"

subsection \<open>Grouping digits\<close>

text \<open>
  The loop of \<open>_php3_number_format\<close> over the integer digits, last first; \<open>count\<close> digits are written.
  \<open>tmp\<close> is what \<open>sprintf\<close> printed for the absolute value with \<open>dec\<close> digits after the point.
\<close>

fun group_loop :: "char \<Rightarrow> char list \<Rightarrow> nat \<Rightarrow> char list" where
  "group_loop sep [] count = []"
| "group_loop sep (c # cs) count =
     (if Suc count mod 3 = 0 \<and> cs \<noteq> [] then c # sep # group_loop sep cs (Suc count) else c # group_loop sep cs (Suc count))"

text \<open>
  The result is written into a block of \<open>reslen + 1\<close> bytes from its end: \<open>None\<close> when that is not
  exactly what is needed, or when there is no decimal point to stop the first loop.
\<close>

definition number_format_text :: "char list \<Rightarrow> nat \<Rightarrow> bool \<Rightarrow> char \<Rightarrow> char \<Rightarrow> char list option" where
  "number_format_text tmp dec negative dec_point sep =
     (if tmp = [] \<or> \<not> isdigit (hd tmp) then Some tmp
      else
        let t = map (\<lambda>c. if c = CHR ''.'' then dec_point else c) tmp;
            tmplen = length t;
            reslen = (if dec \<noteq> 0 then dec + 1 + (tmplen - dec - 1) + (tmplen - 1 - dec - 1) div 3
                      else tmplen + (tmplen - 1) div 3) + (if negative then 1 else 0);
            frac = (if dec \<noteq> 0 then takeWhile (\<lambda>c. c \<noteq> dec_point) (rev t) else []);
            rest = drop (length frac) (rev t)
        in if dec \<noteq> 0 \<and> rest = [] then None
           else
             let point = (if dec \<noteq> 0 then [dec_point] else []);
                 digits = (if dec \<noteq> 0 then tl rest else rest);
                 out = frac @ point @ group_loop sep digits 0 @ (if negative then ''-'' else [])
             in if length out = reslen then Some (rev out) else None)"

definition php3_number_format :: "(nat \<Rightarrow> 'f \<Rightarrow> char list) \<Rightarrow> ('f \<Rightarrow> bool) \<Rightarrow> ('f \<Rightarrow> 'f) \<Rightarrow> 'f \<Rightarrow> int \<Rightarrow> char \<Rightarrow> char \<Rightarrow> char list option" where
  "php3_number_format fixed is_neg negate d dec dec_point sep =
     (let n = nat (max 0 dec); d' = (if is_neg d then negate d else d)
      in number_format_text (fixed n d') n (is_neg d) dec_point sep)"


subsection \<open>The value of a numeral\<close>

definition digit_or_0 :: "nat \<Rightarrow> char \<Rightarrow> nat" where
  "digit_or_0 base c = (case base_digit base c of None \<Rightarrow> 0 | Some d \<Rightarrow> d)"

text \<open>Characters that are no digits count as 0.\<close>

definition base_val :: "nat \<Rightarrow> char list \<Rightarrow> nat" where
  "base_val base s = foldl (\<lambda>v c. v * base + digit_or_0 base c) 0 s"

lemma base_val_snoc: "base_val base (s @ [c]) = base_val base s * base + digit_or_0 base c"
  by (simp add: base_val_def)

lemma base_val_Nil [simp]: "base_val base [] = 0"
  by (simp add: base_val_def)

lemma basetolong_loop_ok:
  "basetolong_loop base (rev s) (wrap_long mult) (wrap_long num) = wrap_long (num + mult * int (base_val base s))"
proof (induction s arbitrary: mult num rule: rev_induct)
  case (snoc c s)
  let ?d = "int (digit_or_0 base c)"
  have "(case base_digit base c of None \<Rightarrow> wrap_long num | Some digit \<Rightarrow> wrap_long (wrap_long num + wrap_long (wrap_long mult * int digit))) =
      wrap_long (num + mult * ?d)"
    by (simp add: digit_or_0_def wrap_long_add wrap_long_mult split: option.split)
  then have "basetolong_loop base (rev (s @ [c])) (wrap_long mult) (wrap_long num) =
      basetolong_loop base (rev s) (wrap_long (mult * int base)) (wrap_long (num + mult * ?d))"
    by (simp add: wrap_long_mult)
  also have "\<dots> = wrap_long (num + mult * ?d + mult * int base * int (base_val base s))" by (rule snoc.IH)
  also have "num + mult * ?d + mult * int base * int (base_val base s) = num + mult * int (base_val base (s @ [c]))"
    by (simp add: base_val_snoc algebra_simps)
  finally show ?case .
qed simp

lemma wrap_long_0_1: "wrap_long 0 = 0" "wrap_long 1 = 1"
  by (simp_all add: wrap_long_def)

lemma basetolong_ok: "2 \<le> base \<Longrightarrow> base \<le> 36 \<Longrightarrow> basetolong s base = wrap_long (int (base_val (nat base) s))"
  using basetolong_loop_ok [of "nat base" s 1 0] by (simp add: basetolong_def wrap_long_0_1)

lemma digit_chars:
  assumes "d < 36" "d < base"
  shows "base_digit base (base_digits ! d) = Some d"
proof -
  have "list_all (\<lambda>d. uchar (toupper (base_digits ! d)) = (if d < 10 then 48 + d else 55 + d)) [0..<36]"
    by (simp add: upt_rec base_digits_def toupper_def islower_def uchar_def to_char_def)
  then have "uchar (toupper (base_digits ! d)) = (if d < 10 then 48 + d else 55 + d)"
    using assms(1) by (simp add: list_all_iff)
  with assms show ?thesis by (simp add: base_digit_def Let_def)
qed

text \<open>The numeral of a number, most significant digit first.\<close>

function base_text :: "nat \<Rightarrow> nat \<Rightarrow> char list" where
  "base_text b v = (if v < b \<or> b < 2 then [base_digits ! v] else base_text b (v div b) @ [base_digits ! (v mod b)])"
  by pat_completeness auto
termination
  by (relation "measure snd") auto

declare base_text.simps [simp del]

lemma base_val_text: "2 \<le> b \<Longrightarrow> b \<le> 36 \<Longrightarrow> base_val b (base_text b v) = v"
proof (induction b v rule: base_text.induct)
  case (1 b v)
  show ?case
  proof (cases "v < b")
    case True
    with 1 have "base_digit b (base_digits ! v) = Some v" by (intro digit_chars) auto
    with True base_val_snoc [of b "[]"] show ?thesis by (subst base_text.simps) (simp add: digit_or_0_def)
  next
    case False
    have "base_digit b (base_digits ! (v mod b)) = Some (v mod b)"
      using 1 by (intro digit_chars) (auto intro: less_le_trans [OF mod_less_divisor])
    with False 1 show ?thesis by (subst base_text.simps) (simp add: base_val_snoc digit_or_0_def)
  qed
qed

lemma base_text_digits: "2 \<le> b \<Longrightarrow> b \<le> 36 \<Longrightarrow> c \<in> set (base_text b v) \<Longrightarrow> base_digit b c \<noteq> None"
proof (induction b v rule: base_text.induct)
  case (1 b v)
  have "base_digit b (base_digits ! (v mod b)) = Some (v mod b)"
    using 1 by (intro digit_chars) (auto intro: less_le_trans [OF mod_less_divisor])
  moreover have "v < b \<Longrightarrow> base_digit b (base_digits ! v) = Some v" using 1 by (intro digit_chars) auto
  moreover have "c \<in> set (if v < b then [base_digits ! v] else base_text b (v div b) @ [base_digits ! (v mod b)])"
    using 1(4) 1(2) by (subst (asm) base_text.simps) auto
  ultimately show ?case using 1 by (auto split: if_splits)
qed

lemma longtobase_loop_ok:
  "2 \<le> b \<Longrightarrow> v < b ^ Suc p \<Longrightarrow> longtobase_loop b (int v) p acc = Some (base_text b v @ acc)"
proof (induction p arbitrary: v acc)
  case 0
  then show ?case by (subst longtobase_loop.simps, subst base_text.simps) (simp add: c_mod_nonneg zmod_int [symmetric])
next
  case (Suc p)
  have m: "c_mod (int v) (int b) = int (v mod b)" "c_div (int v) (int b) = int (v div b)"
    using Suc.prems(1) by (simp_all add: c_mod_nonneg c_div_nonneg zmod_int zdiv_int)
  show ?case
  proof (cases "v < b")
    case True
    then show ?thesis using Suc.prems(1) m by (subst longtobase_loop.simps, subst base_text.simps) simp
  next
    case False
    then have "v div b \<noteq> 0" using Suc.prems(1) by (simp add: div_eq_0_iff)
    moreover have "v div b < b ^ Suc p"
      using Suc.prems(1,2) by (intro less_mult_imp_div_less) (simp add: mult.commute)
    ultimately show ?thesis using Suc.IH [of "v div b"] Suc.prems(1) m False
      by (subst longtobase_loop.simps, subst base_text.simps) (simp add: Let_def)
  qed
qed

lemma longtobase_loop_negative:
  "2 \<le> b \<Longrightarrow> 0 < v \<Longrightarrow> v < b ^ Suc p \<Longrightarrow> longtobase_loop b (- int v) p acc = None"
proof (induction p arbitrary: v acc)
  case 0
  then have "c_mod (- int v) (int b) = - int v" by (simp add: c_mod_def c_div_def)
  with 0 show ?case by (subst longtobase_loop.simps) (simp add: Let_def)
next
  case (Suc p)
  have d: "c_div (- int v) (int b) = - int (v div b)"
    using Suc.prems(1,2) by (simp add: c_div_def zdiv_int)
  have "c_mod (- int v) (int b) = - (int v - int b * (int v div int b))"
    unfolding c_mod_def d by (simp add: zdiv_int)
  then have m: "c_div (- int v) (int b) = - int (v div b)" "c_mod (- int v) (int b) = - int (v mod b)"
    using d by (simp_all add: minus_mult_div_eq_mod zmod_int)
  show ?case
  proof (cases "v mod b = 0")
    case True
    then have "0 < v div b" using Suc.prems(1,2) by (auto simp: div_greater_zero_iff dest: dvd_imp_le mod_0_imp_dvd)
    moreover have "v div b < b ^ Suc p"
      using Suc.prems(1,3) by (intro less_mult_imp_div_less) (simp add: mult.commute)
    ultimately show ?thesis using Suc.IH Suc.prems(1) m True by (subst longtobase_loop.simps) (simp add: Let_def)
  next
    case False
    with m show ?thesis by (subst longtobase_loop.simps) (simp add: Let_def)
  qed
qed

lemma pow_64: "2 \<le> b \<Longrightarrow> v \<le> 2 ^ 63 \<Longrightarrow> v < (b :: nat) ^ Suc 63"
  using power_mono [of 2 b "Suc 63"] by simp


subsection \<open>Grouping\<close>

text \<open>The reference: groups of three from the end, the list given last digit first.\<close>

fun groups_of_3 :: "char \<Rightarrow> char list \<Rightarrow> char list" where
  "groups_of_3 sep (a # b # c # d # r) = a # b # c # sep # groups_of_3 sep (d # r)"
| "groups_of_3 sep xs = xs"

definition grouped :: "char \<Rightarrow> char list \<Rightarrow> char list" where
  "grouped sep ip = rev (groups_of_3 sep (rev ip))"

lemma third_next: "count mod 3 = 0 \<Longrightarrow> Suc count mod 3 = 1 \<and> Suc (Suc count) mod 3 = (2::nat)"
  by presburger

lemma group_loop_ok: "count mod 3 = 0 \<Longrightarrow> group_loop sep xs count = groups_of_3 sep xs"
proof (induction sep xs arbitrary: count rule: groups_of_3.induct)
  case (1 sep a b c d r)
  then have m: "Suc count mod 3 = 1" "Suc (Suc count) mod 3 = 2" "Suc (Suc (Suc count)) mod 3 = 0" by presburger+
  have step: "group_loop sep (c # cs) n = c # (if Suc n mod 3 = 0 \<and> cs \<noteq> [] then sep # group_loop sep cs (Suc n) else group_loop sep cs (Suc n))"
    for c cs n by simp
  have "group_loop sep (d # r) (Suc (Suc (Suc count))) = groups_of_3 sep (d # r)" by (rule "1.IH" [OF m(3)])
  then show ?case
    by (subst step, simp only: m, subst step, simp only: m, subst step, simp only: m) simp
qed (auto simp: third_next)

lemma groups_length: "length (groups_of_3 sep xs) = length xs + (length xs - 1) div 3"
  by (induction sep xs rule: groups_of_3.induct) auto

lemma groups_filter: "sep \<notin> set xs \<Longrightarrow> filter (\<lambda>c. c \<noteq> sep) (groups_of_3 sep xs) = xs"
  by (induction sep xs rule: groups_of_3.induct) auto

lemma number_format_text_eq:
  assumes "tmp \<noteq> []" "isdigit (hd tmp)" "map (\<lambda>c. if c = CHR ''.'' then dec_point else c) tmp = ip @ (if dec = 0 then [] else dec_point # fr)"
    and "ip \<noteq> []" "length fr = dec" "dec_point \<notin> set fr"
  shows "number_format_text tmp dec neg dec_point sep =
    Some ((if neg then ''-'' else []) @ grouped sep ip @ (if dec = 0 then [] else dec_point # fr))"
proof -
  have g: "group_loop sep (rev ip) 0 = groups_of_3 sep (rev ip)" by (rule group_loop_ok) simp
  show ?thesis
  proof (cases "dec = 0")
    case True
    with assms show ?thesis by (simp add: number_format_text_def grouped_def groups_length g)
  next
    case False
    have tw: "takeWhile (\<lambda>c. c \<noteq> dec_point) (rev fr @ dec_point # rev ip) = rev fr"
      using assms(6) by (subst takeWhile_append2) auto
    have len: "0 < length ip" using assms(4) by simp
    have t: "map (\<lambda>c. if c = CHR ''.'' then dec_point else c) tmp = ip @ dec_point # fr" using assms(3) False by simp
    show ?thesis using False assms(1,2,5) len
      by (simp add: number_format_text_def t tw grouped_def groups_length g Let_def)
  qed
qed

lemma isdigit_not_dot: "isdigit c \<Longrightarrow> c \<noteq> CHR ''.''"
  by (auto simp: isdigit_def uchar_def)

lemma number_format_ok:
  assumes "ip \<noteq> []" "\<forall>c \<in> set ip. isdigit c" "length fr = dec" "\<forall>c \<in> set fr. isdigit c" "\<not> isdigit dec_point"
  shows "number_format_text (ip @ (if dec = 0 then [] else CHR ''.'' # fr)) dec neg dec_point sep =
    Some ((if neg then ''-'' else []) @ grouped sep ip @ (if dec = 0 then [] else dec_point # fr))"
proof (rule number_format_text_eq [OF _ _ _ assms(1,3)])
  have id: "map (\<lambda>c. if c = CHR ''.'' then dec_point else c) xs = xs" if "\<forall>c \<in> set xs. isdigit c" for xs
    using that isdigit_not_dot by (intro map_idI) auto
  show "map (\<lambda>c. if c = CHR ''.'' then dec_point else c) (ip @ (if dec = 0 then [] else CHR ''.'' # fr)) =
      ip @ (if dec = 0 then [] else dec_point # fr)" using id [OF assms(2)] id [OF assms(4)] by simp
  show "isdigit (hd (ip @ (if dec = 0 then [] else CHR ''.'' # fr)))" using assms(1,2) by (cases ip) simp_all
  show "dec_point \<notin> set fr" using assms(4,5) by blast
qed (simp add: assms(1))

subsection \<open>The properties\<close>

text \<open>
  C29: Every non-negative \<open>long\<close> survives \<open>_php3_longtobase\<close> and \<open>_php3_basetolong\<close> in every base from 2
  to 36, and its text has digits of the base only; for a negative one the remainder is negative and the
  code reads before the array of digits.
\<close>

theorem base_round_trip:
  assumes "2 \<le> base" "base \<le> 36" "LONG_MIN \<le> n" "n \<le> LONG_MAX"
  shows "if n < 0 then longtobase n base = None
    else \<exists>s. longtobase n base = Some s \<and> s \<noteq> [] \<and> basetolong s base = n \<and> (\<forall>c \<in> set s. base_digit (nat base) c \<noteq> None)"
proof -
  have b: "2 \<le> nat base" "nat base \<le> 36" using assms(1,2) by auto
  have range: "\<not> (base < 2 \<or> base > 36)" using assms(1,2) by simp
  show ?thesis
  proof (cases "n < 0")
    case True
    then have "nat (- n) < nat base ^ Suc 63" "0 < nat (- n)" "n = - int (nat (- n))"
      using pow_64 [OF b(1), of "nat (- n)"] assms(3) by (simp_all add: LONG_MIN_def)
    then have "longtobase_loop (nat base) n 63 [] = None" using longtobase_loop_negative [OF b(1)] by metis
    then show ?thesis using True range by (simp add: longtobase_def)
  next
    case False
    let ?s = "base_text (nat base) (nat n)"
    have "nat n < nat base ^ Suc 63" using pow_64 [OF b(1), of "nat n"] assms(4) by (simp add: LONG_MAX_def)
    from longtobase_loop_ok [OF b(1) this, of "[]"] have "longtobase n base = Some ?s"
      using False range by (simp add: longtobase_def)
    moreover have "basetolong ?s base = n"
      using False assms by (simp add: basetolong_ok base_val_text [OF b] wrap_long_id)
    moreover have "?s \<noteq> []" by (subst base_text.simps) simp
    ultimately show ?thesis using False base_text_digits [OF b] by auto
  qed
qed

theorem base_round_trip_witness:
  "longtobase (- 1) 2 = None \<and> (\<exists>s. longtobase 48879 16 = Some s \<and> basetolong s 16 = 48879)"
  using base_round_trip [of 2 "- 1"] base_round_trip [of 16 48879] by (auto simp: LONG_MIN_def LONG_MAX_def)

text \<open>
  \<open>_php3_basetolong\<close> is the value of the numeral modulo \<open>2 ^ 64\<close>, a character that is no digit of the base
  counting as 0 in its place; \<open>base_convert\<close> of a numeral whose value is a \<open>long\<close> gives a numeral of the same
  value, and false for a base outside 2 to 36.
\<close>

lemma base_convert_value:
  assumes "2 \<le> a" "a \<le> 36"
  shows "basetolong s a = wrap_long (int (base_val (nat a) s)) \<and>
    (2 \<le> b \<and> b \<le> 36 \<and> int (base_val (nat a) s) \<le> LONG_MAX \<longrightarrow>
      (\<exists>r. php3_base_convert s a b = Some (Some r) \<and> base_val (nat b) r = base_val (nat a) s)) \<and>
    (b < 2 \<or> b > 36 \<longrightarrow> php3_base_convert s a b = Some None)"
proof -
  have "\<exists>r. php3_base_convert s a b = Some (Some r) \<and> base_val (nat b) r = base_val (nat a) s"
    if b: "2 \<le> b" "b \<le> 36" and v: "int (base_val (nat a) s) \<le> LONG_MAX"
  proof -
    let ?v = "base_val (nat a) s"
    have nb: "2 \<le> nat b" "nat b \<le> 36" using b by auto
    have val: "basetolong s a = int ?v" using basetolong_ok [OF assms] v by (simp add: wrap_long_id LONG_MIN_def)
    have "?v < nat b ^ Suc 63" using v by (intro pow_64 [OF nb(1)]) (simp add: LONG_MAX_def)
    from longtobase_loop_ok [OF nb(1) this, of "[]"] have "longtobase (int ?v) b = Some (base_text (nat b) ?v)"
      using b by (simp add: longtobase_def)
    then have "php3_base_convert s a b = Some (Some (base_text (nat b) ?v))"
      using assms b val by (simp add: php3_base_convert_def)
    then show ?thesis using base_val_text [OF nb] by blast
  qed
  then show ?thesis using basetolong_ok [OF assms] assms by (auto simp: php3_base_convert_def)
qed

lemma base_convert_value_example:
  "\<exists>r. php3_base_convert ''fF'' 16 2 = Some (Some r) \<and> base_val 2 r = 255"
proof -
  have "base_val 16 ''fF'' = 255"
    by (simp add: base_val_def digit_or_0_def base_digit_def toupper_def islower_def uchar_def to_char_def)
  then show ?thesis using base_convert_value [of 16 "''fF''" 2] by (simp add: LONG_MAX_def)
qed

text \<open>
  \<open>number_format\<close> on what \<open>sprintf\<close> prints for a finite number (digits, then a point and \<open>dec\<close> digits)
  fills its block exactly and gives the sign, the integer digits in groups of three from the right, the
  decimal point and the digits after it, when the decimal point is not itself a digit; without
  the separators the digits are those printed.
\<close>

lemma number_format_groups:
  assumes "ip \<noteq> []" "\<forall>c \<in> set ip. isdigit c" "length fr = nat dec" "\<forall>c \<in> set fr. isdigit c" "\<not> isdigit dec_point"
    and "fixed (nat dec) (if is_neg d then negate d else d) = ip @ (if nat dec = 0 then [] else CHR ''.'' # fr)"
  shows "php3_number_format fixed is_neg negate d dec dec_point sep =
      Some ((if is_neg d then ''-'' else []) @ grouped sep ip @ (if nat dec = 0 then [] else dec_point # fr)) \<and>
    (sep \<notin> set ip \<longrightarrow> filter (\<lambda>c. c \<noteq> sep) (grouped sep ip) = ip) \<and>
    length (grouped sep ip) = length ip + (length ip - 1) div 3"
proof -
  have "nat (max 0 dec) = nat dec" by simp
  then show ?thesis
    using number_format_ok [OF assms(1-5), of "is_neg d" sep] assms(6) groups_filter [of sep "rev ip"] groups_length [of sep "rev ip"]
    by (simp add: php3_number_format_def grouped_def rev_filter [symmetric] Let_def)
qed

lemma number_format_groups_example:
  "php3_number_format (\<lambda>n d. show_long d @ ''.50'') (\<lambda>d. d < 0) uminus (- 1234567) 2 CHR '','' CHR '' '' =
    Some ''-1 234 567,50''"
proof -
  have "map to_char [49, 50, 51, 52, 53, 54, 55] = ''1234567''" by code_simp
  then have d: "show_long 1234567 = ''1234567''" by (simp add: show_long_def digits_of.simps)
  have g: "grouped CHR '' '' ''1234567'' = ''1 234 567''"
    and i: "list_all isdigit ''1234567''" and f: "list_all isdigit ''50''" and p: "\<not> isdigit CHR '',''" by code_simp+
  note groups = number_format_groups [of "''1234567''" "''50''" 2 "CHR '',''" "\<lambda>n d. show_long d @ ''.50''" "\<lambda>d. d < 0" "- 1234567" uminus "CHR '' ''",
    unfolded g list_all_iff [symmetric], OF _ i _ f p]
  have "(if (- 1234567 :: int) < 0 then - (- 1234567) else - 1234567) = (1234567 :: int)" "nat 2 = 2" by simp_all
  then show ?thesis using groups by (simp only: d) simp
qed

end
