(* ===== verification/Codec.thy ===== *)
theory Codec
  imports Base
begin

text \<open>
  The contract that every pair of an encoder and a decoder of the interpreter is held to, as a
  locale: on the strings it is meant for, decoding what was encoded gives the string back, and the
  output uses only the characters the format allows. The theories of the single formats interpret
  it on the model of their C functions.
\<close>

locale codec =
  fixes encode :: "char list \<Rightarrow> char list option"
    and decode :: "char list \<Rightarrow> char list option"
    and valid :: "char list \<Rightarrow> bool"
    and allowed :: "char \<Rightarrow> bool"
  assumes encode_total: "valid s \<Longrightarrow> \<exists>e. encode s = Some e \<and> (\<forall>c \<in> set e. allowed c)"
    and decode_encode: "valid s \<Longrightarrow> encode s = Some e \<Longrightarrow> decode e = Some s"

text \<open>Encoding the fields of a record one by one and decoding them again.\<close>

fun traverse :: "('a \<Rightarrow> 'b option) \<Rightarrow> 'a list \<Rightarrow> 'b list option" where
  "traverse f [] = Some []"
| "traverse f (x # xs) = do { y \<leftarrow> f x; ys \<leftarrow> traverse f xs; Some (y # ys) }"

context codec
begin

lemma encode_inj: "valid s \<Longrightarrow> valid t \<Longrightarrow> encode s = encode t \<Longrightarrow> s = t"
  by (metis decode_encode encode_total option.inject)

lemma round_trip: "valid s \<Longrightarrow> do { e \<leftarrow> encode s; decode e } = Some s"
  using encode_total [of s] decode_encode [of s] by auto

lemma fields_round_trip:
  "\<forall>s \<in> set ss. valid s \<Longrightarrow> do { es \<leftarrow> traverse encode ss; traverse decode es } = Some ss"
proof (induction ss)
  case (Cons s ss)
  then obtain e where e: "encode s = Some e" using encode_total [of s] by auto
  from Cons obtain es where "traverse encode ss = Some es" "traverse decode es = Some ss"
    by (auto simp: bind_eq_Some_conv)
  with Cons.prems e decode_encode [of s e] show ?case by simp
qed simp

text \<open>A separator outside the allowed alphabet never occurs in an encoded field.\<close>

lemma separator_free: "valid s \<Longrightarrow> encode s = Some e \<Longrightarrow> \<not> allowed c \<Longrightarrow> c \<notin> set e"
  using encode_total [of s] by auto

end

end
