(* ===== verification/Slashes.thy ===== *)
theory Slashes
  imports Codec
begin

text \<open>
  The escaping functions of \<^verbatim>\<open>functions/string.c\<close>: \<open>_php3_addslashes\<close> and \<open>_php3_stripslashes\<close> (with
  the \<open>magic_quotes_sybase\<close> setting as the argument \<open>sybase\<close>), \<open>quotemeta\<close> and \<open>php_bin2hex\<close>.

  Input buffers are lists that hold the terminating NUL; \<open>None\<close> is a read past the end of the buffer
  or a write past the end of the output. \<open>stripslashes\<close> edits in place with the write position never
  ahead of the read position, so what it reads is what the caller passed.
\<close>

subsection \<open>The model\<close>

definition slash_char :: "bool \<Rightarrow> char \<Rightarrow> char list" where
  "slash_char sybase c =
     (if c = NUL then [CHR 0x5C, CHR ''0'']
      else if c = CHR 0x27 then (if sybase then [CHR 0x27, CHR 0x27] else [CHR 0x5C, c])
      else if c = CHR 0x22 \<or> c = CHR 0x5C then (if sybase then [c] else [CHR 0x5C, c])
      else [c])"

text \<open>The loop condition is \<open>(c = *source) || source < end\<close>: \<open>n\<close> bytes are left before \<open>end\<close>.\<close>

fun addslashes_loop :: "bool \<Rightarrow> char list \<Rightarrow> nat \<Rightarrow> char list option" where
  "addslashes_loop sybase [] n = None"
| "addslashes_loop sybase (c # cs) n =
     (if c \<noteq> NUL \<or> n > 0
      then do { r \<leftarrow> addslashes_loop sybase cs (n - 1); Some (slash_char sybase c @ r) }
      else Some [])"

text \<open>The output buffer has \<open>(length ? length : strlen(str)) * 2 + 1\<close> bytes.\<close>

definition addslashes_room :: "char list \<Rightarrow> nat \<Rightarrow> nat" where
  "addslashes_room buf n = (if n \<noteq> 0 then n else length (cstr buf)) * 2 + 1"

definition php3_addslashes :: "bool \<Rightarrow> char list \<Rightarrow> nat \<Rightarrow> char list option" where
  "php3_addslashes sybase buf n =
     do {
       r \<leftarrow> addslashes_loop sybase buf n;
       if length r + 1 \<le> addslashes_room buf n then Some r else None }"

fun stripslashes_loop :: "char \<Rightarrow> char list \<Rightarrow> char list" where
  "stripslashes_loop esc [] = []"
| "stripslashes_loop esc [t] = (if t = esc then [] else [t])"
| "stripslashes_loop esc (t # u # ts) =
     (if t = esc then (if u = CHR ''0'' then NUL else u) # stripslashes_loop esc ts
      else t # stripslashes_loop esc (u # ts))"

definition php3_stripslashes :: "bool \<Rightarrow> char list \<Rightarrow> char list" where
  "php3_stripslashes sybase s = stripslashes_loop (if sybase then CHR 0x27 else CHR 0x5C) s"

text \<open>The characters \<open>quotemeta\<close> escapes; the empty string makes it return false.\<close>

definition is_meta :: "char \<Rightarrow> bool" where
  "is_meta c \<longleftrightarrow> c \<in> {CHR ''.'', CHR 0x5C, CHR ''+'', CHR ''*'', CHR ''?'', CHR ''['', CHR ''^'', CHR '']'',
     CHR ''$'', CHR ''('', CHR '')''}"

definition php3_quotemeta :: "char list \<Rightarrow> char list option" where
  "php3_quotemeta s =
     (case cstr s of [] \<Rightarrow> None | t \<Rightarrow> Some (concat (map (\<lambda>c. if is_meta c then [CHR 0x5C, c] else [c]) t)))"

definition hexconvtab :: "char list" where
  "hexconvtab = ''0123456789abcdef''"

text \<open>The buffer has 201 bytes whatever \<open>oldlen\<close> is, and the loop stops at the first NUL.\<close>

definition php_bin2hex :: "char list \<Rightarrow> char list option" where
  "php_bin2hex old =
     (let s = cstr old;
          r = concat (map (\<lambda>c. [hexconvtab ! (uchar c div 16), hexconvtab ! (uchar c mod 16)]) s)
      in if length r + 1 \<le> 201 then Some r else None)"

subsection \<open>Escaping a whole string\<close>

lemma addslashes_loop_whole:
  "addslashes_loop sybase (s @ [NUL]) (length s) = Some (concat (map (slash_char sybase) s))"
  by (induction s) auto

lemma slash_char_length: "length (slash_char sybase c) \<le> 2"
  by (simp add: slash_char_def)

lemma concat_slash_length: "length (concat (map (slash_char sybase) s)) \<le> 2 * length s"
proof (induction s)
  case (Cons c s)
  with slash_char_length [of sybase c] show ?case by simp
qed simp

lemma addslashes_whole:
  "php3_addslashes sybase (s @ [NUL]) (length s) = Some (concat (map (slash_char sybase) s))"
  using concat_slash_length [of sybase s]
  by (cases s) (auto simp: php3_addslashes_def addslashes_loop_whole addslashes_room_def)

lemma strip_slash_char:
  "stripslashes_loop (CHR 0x5C) (slash_char False c @ r) = c # stripslashes_loop (CHR 0x5C) r"
  by (cases r) (auto simp: slash_char_def)

lemma strip_add_plain: "stripslashes_loop (CHR 0x5C) (concat (map (slash_char False) s)) = s"
  by (induction s) (simp_all add: strip_slash_char)

lemma strip_slash_char_sybase:
  "c \<noteq> NUL \<Longrightarrow> stripslashes_loop (CHR 0x27) (slash_char True c @ r) = c # stripslashes_loop (CHR 0x27) r"
  by (cases r) (auto simp: slash_char_def)

lemma strip_add_sybase:
  "NUL \<notin> set s \<Longrightarrow> stripslashes_loop (CHR 0x27) (concat (map (slash_char True) s)) = s"
  by (induction s) (auto simp: strip_slash_char_sybase)

text \<open>In Sybase mode an escaped NUL is not undone.\<close>

lemma strip_add_sybase_length:
  "length (stripslashes_loop (CHR 0x27) (concat (map (slash_char True) s))) = length s + count_list s NUL"
proof (induction s)
  case (Cons c s)
  show ?case
  proof (cases "c = NUL")
    case True
    then have "stripslashes_loop (CHR 0x27) (slash_char True c @ r) = CHR 0x5C # CHR ''0'' # stripslashes_loop (CHR 0x27) r" for r
      by (cases r) (auto simp: slash_char_def)
    with True Cons show ?thesis by simp
  next
    case False
    with Cons show ?thesis by (simp add: strip_slash_char_sybase)
  qed
qed simp

lemma quotemeta_strip:
  "stripslashes_loop (CHR 0x5C) (concat (map (\<lambda>c. if is_meta c then [CHR 0x5C, c] else [c]) s)) = s"
proof (induction s)
  case (Cons c s)
  have "stripslashes_loop (CHR 0x5C) ((if is_meta c then [CHR 0x5C, c] else [c]) @ r) = c # stripslashes_loop (CHR 0x5C) r" for r
    by (cases r) (auto simp: is_meta_def)
  with Cons show ?case by simp
qed simp

text \<open>\<open>slashes\<close> as a codec on the whole string with its terminator.\<close>

interpretation slashes: codec "\<lambda>s. php3_addslashes False (s @ [NUL]) (length s)"
  "\<lambda>e. Some (php3_stripslashes False e)" "\<lambda>s. True" "\<lambda>c. c \<noteq> NUL"
proof
  fix s e :: "char list"
  have "NUL \<notin> set (slash_char False c)" for c by (simp add: slash_char_def)
  then show "\<exists>e. php3_addslashes False (s @ [NUL]) (length s) = Some e \<and> (\<forall>c \<in> set e. c \<noteq> NUL)"
    by (auto simp: addslashes_whole)
  assume "php3_addslashes False (s @ [NUL]) (length s) = Some e"
  then show "Some (php3_stripslashes False e) = Some s"
    by (auto simp: addslashes_whole php3_stripslashes_def strip_add_plain)
qed

subsection \<open>Properties\<close>

text \<open>
  Round trip of \<open>addslashes\<close> and \<open>stripslashes\<close>, for every string, binary ones included: the
  escaped string has no NUL and no unescaped quote or backslash is left for \<open>stripslashes\<close> to eat. In
  Sybase mode the same holds of strings without NUL; each NUL of a string comes back as the two
  characters \<open>\0\<close>, so the result is longer by their number.
\<close>

lemma addslashes_round_trip:
  "\<exists>e. php3_addslashes False (s @ [NUL]) (length s) = Some e \<and> php3_stripslashes False e = s \<and> NUL \<notin> set e \<and>
    (\<exists>f. php3_addslashes True (s @ [NUL]) (length s) = Some f \<and>
      length (php3_stripslashes True f) = length s + count_list s NUL \<and>
      (php3_stripslashes True f = s \<longleftrightarrow> NUL \<notin> set s))"
proof -
  obtain e where e: "php3_addslashes False (s @ [NUL]) (length s) = Some e" "NUL \<notin> set e"
    using slashes.encode_total [of s] by auto
  have "php3_stripslashes False e = s" using slashes.decode_encode [OF _ e(1)] by simp
  moreover let ?f = "concat (map (slash_char True) s)"
  have len: "length (php3_stripslashes True ?f) = length s + count_list s NUL"
    by (simp add: php3_stripslashes_def strip_add_sybase_length)
  moreover have "php3_stripslashes True ?f = s \<longleftrightarrow> NUL \<notin> set s"
    using len strip_add_sybase [of s] by (auto simp: php3_stripslashes_def count_list_0_iff)
  ultimately show ?thesis using e addslashes_whole [of True s] by blast
qed

text \<open>
  \<open>quotemeta\<close> escapes each meta character with one backslash and nothing else: \<open>stripslashes\<close> undoes it,
  and the result is longer by the number of meta characters. \<open>bin2hex\<close> writes two hex digits per byte up
  to the first NUL and overruns its 201-byte buffer exactly when there are more than 100 of them.
\<close>

lemma quotemeta_and_bin2hex_facts:
  assumes "NUL \<notin> set s" "s \<noteq> []"
  shows "(\<exists>q. php3_quotemeta s = Some q \<and> php3_stripslashes False q = s \<and>
      length q = length s + length (filter is_meta s)) \<and>
    (length s \<le> 100 \<longrightarrow> (\<exists>h. php_bin2hex s = Some h \<and> length h = 2 * length s \<and>
      (\<forall>i < length s. h ! (2 * i) = hexconvtab ! (uchar (s ! i) div 16) \<and>
        h ! (2 * i + 1) = hexconvtab ! (uchar (s ! i) mod 16)))) \<and>
    (length s > 100 \<longrightarrow> php_bin2hex s = None)"
proof -
  have c: "cstr s = s" using assms(1) by (rule cstr_id)
  let ?q = "concat (map (\<lambda>c. if is_meta c then [CHR 0x5C, c] else [c]) s)"
  let ?h = "concat (map (\<lambda>c. [hexconvtab ! (uchar c div 16), hexconvtab ! (uchar c mod 16)]) s)"
  have "php3_quotemeta s = Some ?q" using c assms(2) by (cases s) (simp_all add: php3_quotemeta_def)
  moreover have "length ?q = length s + length (filter is_meta s)" by (induction s) auto
  moreover have lh: "length ?h = 2 * length s" by (induction s) auto
  moreover have "?h ! (2 * i) = hexconvtab ! (uchar (s ! i) div 16) \<and> ?h ! (2 * i + 1) = hexconvtab ! (uchar (s ! i) mod 16)"
    if "i < length s" for i using that
  proof (induction s arbitrary: i)
    case (Cons c s)
    then show ?case by (cases i) auto
  qed simp
  ultimately show ?thesis using c quotemeta_strip [of s]
    by (auto simp: php_bin2hex_def php3_stripslashes_def Let_def)
qed

theorem quotemeta_and_bin2hex_example:
  "\<exists>q. php3_quotemeta ''a.b'' = Some q \<and> php3_stripslashes False q = ''a.b'' \<and> length q = 4"
  using quotemeta_and_bin2hex_facts [of "''a.b''"] by (auto simp: is_meta_def)

end
