(* ===== verification/Base64.thy ===== *)
theory Base64
  imports Codec
begin

text \<open>
  \<^verbatim>\<open>functions/base64.c\<close>. Bytes of the decoder's result buffer are numbers below 256; a write outside
  the buffer is \<open>None\<close>. Both results are in blocks of \<open>emalloc\<close>, which have 800 bytes whatever the size asked for; that of
  the decoder holds what it held before, which the model takes as the argument \<open>mem\<close>.
\<close>

subsection \<open>The model\<close>

definition base64_table :: "char list" where
  "base64_table = ''ABCDEFGHIJKLMNOPQRSTUVWXYZabcdefghijklmnopqrstuvwxyz0123456789+/''"

definition base64_pad :: char where
  "base64_pad = CHR ''=''"

text \<open>Three octets at a time, then the one or two that are left.\<close>

fun base64_encode_loop :: "char list \<Rightarrow> char list" where
  "base64_encode_loop (a # b # c # cs) =
     base64_table ! (uchar a div 4) #
     base64_table ! ((uchar a mod 4) * 16 + uchar b div 16) #
     base64_table ! ((uchar b mod 16) * 4 + uchar c div 64) #
     base64_table ! (uchar c mod 64) # base64_encode_loop cs"
| "base64_encode_loop [a, b] =
     [base64_table ! (uchar a div 4), base64_table ! ((uchar a mod 4) * 16 + uchar b div 16),
      base64_table ! ((uchar b mod 16) * 4), base64_pad]"
| "base64_encode_loop [a] =
     [base64_table ! (uchar a div 4), base64_table ! ((uchar a mod 4) * 16), base64_pad, base64_pad]"
| "base64_encode_loop [] = []"

text \<open>The size the encoder asks for, in \<open>int\<close>, and its output and NUL in the block it gets.\<close>

definition base64_room :: "int \<Rightarrow> int" where
  "base64_room n = c_div (wrap_int (wrap_int (n + 3 - c_mod n 3) * 4)) 3 + 1"

definition php3_base64_encode :: "char list \<Rightarrow> char list option" where
  "php3_base64_encode s =
     (let r = base64_encode_loop s in if length r + 1 \<le> block_bytes (base64_room (int (length s))) then Some r else None)"

text \<open>\<open>strchr(base64_table, ch) - base64_table\<close>.\<close>

fun index_in :: "char list \<Rightarrow> char \<Rightarrow> nat option" where
  "index_in [] c = None"
| "index_in (d # ds) c = (if d = c then Some 0 else map_option Suc (index_in ds c))"

definition put_byte :: "nat list \<Rightarrow> nat \<Rightarrow> nat \<Rightarrow> nat list option" where
  "put_byte buf j v = (if j < length buf then Some (buf[j := v mod 256]) else None)"

definition or_byte :: "nat list \<Rightarrow> nat \<Rightarrow> nat \<Rightarrow> nat list option" where
  "or_byte buf j v = (if j < length buf then put_byte buf j (or (buf ! j) v) else None)"

text \<open>The switch on \<open>i % 4\<close>: the new \<open>j\<close> and the new buffer.\<close>

definition base64_switch :: "nat \<Rightarrow> nat \<Rightarrow> nat \<Rightarrow> nat list \<Rightarrow> (nat \<times> nat list) option" where
  "base64_switch i ch j buf =
     (if i mod 4 = 0 then do { b \<leftarrow> put_byte buf j (ch * 4); Some (j, b) }
      else if i mod 4 = 1 then do {
        b \<leftarrow> or_byte buf j (ch div 16); b' \<leftarrow> put_byte b (j + 1) ((ch mod 16) * 16); Some (j + 1, b') }
      else if i mod 4 = 2 then do {
        b \<leftarrow> or_byte buf j (ch div 4); b' \<leftarrow> put_byte b (j + 1) ((ch mod 4) * 64); Some (j + 1, b') }
      else do { b \<leftarrow> or_byte buf j ch; Some (j + 1, b) })"

text \<open>The loop ends at NUL or at a pad; the result has the character it ended at.\<close>

fun base64_decode_loop ::
  "char list \<Rightarrow> nat \<Rightarrow> nat \<Rightarrow> nat list \<Rightarrow> (char \<times> nat \<times> nat \<times> nat list) option" where
  "base64_decode_loop [] i j buf = None"
| "base64_decode_loop (ch # cs) i j buf =
     (if ch = NUL \<or> ch = base64_pad then Some (ch, i, j, buf)
      else case index_in base64_table (if ch = CHR '' '' then CHR ''+'' else ch) of
        None \<Rightarrow> base64_decode_loop cs i j buf
      | Some v \<Rightarrow> do { (j', buf') \<leftarrow> base64_switch i v j buf; base64_decode_loop cs (i + 1) j' buf' })"

text \<open>\<open>Some None\<close> is the return value \<open>NULL\<close>.\<close>

definition php3_base64_decode :: "char list \<Rightarrow> nat \<Rightarrow> nat list \<Rightarrow> char list option option" where
  "php3_base64_decode s len mem =
     do {
       (ch, i, j, buf) \<leftarrow> base64_decode_loop s 0 0 (take (block_bytes (int len + 1)) mem);
       if ch = base64_pad \<and> i mod 4 < 2 then Some None
       else do {
         let k = (if ch = base64_pad \<and> i mod 4 = 2 then j + 1 else j);
         (k', buf1) \<leftarrow> (if ch = base64_pad \<and> i mod 4 \<ge> 2
                        then do { b \<leftarrow> put_byte buf k 0; Some (k + 1, b) } else Some (k, buf));
         buf2 \<leftarrow> put_byte buf1 k' 0;
         Some (Some (map to_char (take j buf2))) } }"

subsection \<open>The alphabet\<close>

lemma table_symbols:
  "list_all (\<lambda>v. index_in base64_table (base64_table ! v) = Some v \<and> base64_table ! v \<noteq> NUL \<and>
     base64_table ! v \<noteq> base64_pad \<and> base64_table ! v \<noteq> CHR '' '') [0..<64]"
  by code_simp

lemma table_symbol:
  assumes "v < 64"
  shows "index_in base64_table (base64_table ! v) = Some v" "base64_table ! v \<noteq> NUL"
    "base64_table ! v \<noteq> base64_pad" "base64_table ! v \<noteq> CHR '' ''"
  using table_symbols assms unfolding list_all_iff by auto

lemma pad_not_NUL [simp]: "base64_pad \<noteq> NUL" "NUL \<noteq> base64_pad"
  by (simp_all add: base64_pad_def)

lemma decode_loop_end:
  "base64_decode_loop (NUL # cs) i j buf = Some (NUL, i, j, buf)"
  "base64_decode_loop (base64_pad # cs) i j buf = Some (base64_pad, i, j, buf)"
  by simp_all

declare base64_decode_loop.simps(2) [simp del]

lemma table_length: "length base64_table = 64"
  by (simp add: base64_table_def)

lemma encode_length: "length (base64_encode_loop s) = 4 * ((length s + 2) div 3)"
proof (induction s rule: base64_encode_loop.induct)
  case (1 a b c cs)
  have "(length (a # b # c # cs) + 2) div 3 = Suc ((length cs + 2) div 3)" by simp
  with 1 show ?case by simp
qed simp_all

text \<open>What fits in a block of \<open>emalloc\<close>.\<close>

lemma encode_fits: "length (base64_encode_loop s) + 1 \<le> 800 \<longleftrightarrow> length s \<le> 597"
proof -
  have "(length s + 2) div 3 < 200 \<longleftrightarrow> length s + 2 < 200 * 3" by (rule div_less_iff_less_mult) simp
  then show ?thesis unfolding encode_length by linarith
qed

subsection \<open>One group of four symbols\<close>

lemma or_disjoint: "y < 2 ^ k \<Longrightarrow> or (x * 2 ^ k) y = x * 2 ^ k + (y :: nat)"
proof -
  assume y: "y < 2 ^ k"
  have "and (x * 2 ^ k) y = 0"
  proof (rule bit_eqI)
    fix n
    have "\<not> bit y n" if "n \<ge> k" using y that
      by (metis bit_take_bit_iff leD take_bit_nat_eq_self)
    then show "bit (and (x * 2 ^ k) y) n = bit (0 :: nat) n"
      by (auto simp: bit_and_iff push_bit_eq_mult [symmetric] bit_push_bit_iff)
  qed
  then show ?thesis by (rule disjunctive_add_eq_or [symmetric])
qed

lemma or_4: "y < 4 \<Longrightarrow> or (x * 4) y = x * 4 + (y :: nat)"
  using or_disjoint [of y 2 x] by simp

lemma or_16: "y < 16 \<Longrightarrow> or (x * 16) y = x * 16 + (y :: nat)"
  using or_disjoint [of y 4 x] by simp

lemma or_64: "y < 64 \<Longrightarrow> or (x * 64) y = x * 64 + (y :: nat)"
  using or_disjoint [of y 6 x] by simp

lemma decode_symbol:
  "v < 64 \<Longrightarrow> base64_decode_loop (base64_table ! v # cs) i j buf =
    do { (j', buf') \<leftarrow> base64_switch i v j buf; base64_decode_loop cs (i + 1) j' buf' }"
  using table_symbol [of v] by (simp add: base64_decode_loop.simps(2))

text \<open>The bytes the switch writes, for \<open>i % 4 = 0, 1, 2, 3\<close>.\<close>

lemma switch_0: "i mod 4 = 0 \<Longrightarrow> v < 64 \<Longrightarrow> j < length buf \<Longrightarrow> base64_switch i v j buf = Some (j, buf[j := v * 4])"
  by (simp add: base64_switch_def put_byte_def)

lemma switch_1:
  assumes "i mod 4 = 1" "v < 64" "j + 1 < length buf" "buf ! j = x * 4" "x < 64"
  shows "base64_switch i v j buf = Some (j + 1, buf[j := x * 4 + v div 16, j + 1 := (v mod 16) * 16])"
  using assms or_4 [of "v div 16" x] by (simp add: base64_switch_def put_byte_def or_byte_def)

lemma switch_2:
  assumes "i mod 4 = 2" "v < 64" "j + 1 < length buf" "buf ! j = x * 16" "x < 16"
  shows "base64_switch i v j buf = Some (j + 1, buf[j := x * 16 + v div 4, j + 1 := (v mod 4) * 64])"
  using assms or_16 [of "v div 4" x] by (simp add: base64_switch_def put_byte_def or_byte_def)

lemma switch_3:
  assumes "i mod 4 = 3" "v < 64" "j < length buf" "buf ! j = x * 64" "x < 4"
  shows "base64_switch i v j buf = Some (j + 1, buf[j := x * 64 + v])"
  using assms or_64 [of v x] by (simp add: base64_switch_def put_byte_def or_byte_def)

lemma decode_two:
  assumes "i mod 4 = 0" "j + 1 < length buf" "a < 256" "b < 16"
  shows "base64_decode_loop (base64_table ! (a div 4) # base64_table ! ((a mod 4) * 16 + b) # cs) i j buf =
    base64_decode_loop cs (i + 2) (j + 1) (buf[j := a, j + 1 := b * 16])"
proof -
  have v: "a div 4 < 64" "(a mod 4) * 16 + b < 64" using assms by auto
  have "((a mod 4) * 16 + b) div 16 = a mod 4" "((a mod 4) * 16 + b) mod 16 = b" using assms by auto
  moreover have "a div 4 * 4 + a mod 4 = a" by simp
  moreover have "(i + 1) mod 4 = 1" using assms(1) by presburger
  ultimately show ?thesis
    using switch_0 [OF assms(1) v(1), of j buf] switch_1 [of "i + 1" "(a mod 4) * 16 + b" j "buf[j := a div 4 * 4]" "a div 4"]
      assms v by (simp add: decode_symbol)
qed

lemma decode_third:
  assumes "i mod 4 = 2" "j + 1 < length buf" "buf ! j = (b div 16) * 16" "b < 256" "c < 4"
  shows "base64_decode_loop (base64_table ! ((b mod 16) * 4 + c) # cs) i j buf =
    base64_decode_loop cs (i + 1) (j + 1) (buf[j := b, j + 1 := c * 64])"
proof -
  have v: "(b mod 16) * 4 + c < 64" using assms by auto
  have "((b mod 16) * 4 + c) div 4 = b mod 16" "((b mod 16) * 4 + c) mod 4 = c" using assms by auto
  moreover have "b div 16 * 16 + b mod 16 = b" by simp
  ultimately show ?thesis
    using switch_2 [OF assms(1) v assms(2,3)] assms v by (simp add: decode_symbol)
qed

lemma decode_fourth:
  assumes "i mod 4 = 3" "j < length buf" "buf ! j = (c div 64) * 64" "c < 256"
  shows "base64_decode_loop (base64_table ! (c mod 64) # cs) i j buf =
    base64_decode_loop cs (i + 1) (j + 1) (buf[j := c])"
proof -
  have "c mod 64 < 64" "c div 64 < 4" using assms by auto
  then show ?thesis using switch_3 [OF assms(1), of "c mod 64" j buf "c div 64"] assms by (simp add: decode_symbol)
qed

subsection \<open>Decoding what was encoded\<close>

definition base64_end :: "char list \<Rightarrow> char \<times> nat" where
  "base64_end s = (if length s mod 3 = 0 then (NUL, 0) else (base64_pad, length s mod 3 + 1))"

lemma decode_loop_encode:
  "i mod 4 = 0 \<Longrightarrow> j + length s < length buf \<Longrightarrow>
    \<exists>i' buf'. base64_decode_loop (base64_encode_loop s @ [NUL]) i j buf =
        Some (fst (base64_end s), i', j + length s, buf') \<and> i' mod 4 = snd (base64_end s) \<and>
      length buf' = length buf \<and> take (j + length s) buf' = take j buf @ map uchar s"
proof (induction s arbitrary: i j buf rule: base64_encode_loop.induct)
  case (1 a b c cs)
  let ?a = "uchar a" and ?b = "uchar b" and ?c = "uchar c"
  let ?b1 = "buf[j := ?a, Suc j := ?b div 16 * 16]"
  let ?b2 = "?b1[Suc j := ?b, Suc (Suc j) := ?c div 64 * 64]"
  let ?b3 = "?b2[Suc (Suc j) := ?c]"
  let ?rest = "base64_encode_loop cs @ [NUL]"
  have len: "Suc (Suc (Suc j)) + length cs < length buf" using "1.prems"(2) by simp
  have m: "(Suc (Suc i)) mod 4 = 2" "(Suc (Suc (Suc i))) mod 4 = 3" "(Suc (Suc (Suc (Suc i)))) mod 4 = 0" using "1.prems"(1) by presburger+
  have bd: "?a < 256" "?b div 16 < 16" "?c div 64 < 4" by simp_all
  have "base64_decode_loop (base64_encode_loop (a # b # c # cs) @ [NUL]) i j buf =
      base64_decode_loop (base64_table ! (?b mod 16 * 4 + ?c div 64) # base64_table ! (?c mod 64) # ?rest) (Suc (Suc i)) (Suc j) ?b1"
    using decode_two [OF "1.prems"(1) _ bd(1,2)] len by simp
  also have "\<dots> = base64_decode_loop (base64_table ! (?c mod 64) # ?rest) (Suc (Suc (Suc i))) (Suc (Suc j)) ?b2"
    using decode_third [OF m(1), of "Suc j" ?b1 ?b "?c div 64"] bd len by (simp add: add.commute)
  also have "\<dots> = base64_decode_loop ?rest (Suc (Suc (Suc (Suc i)))) (Suc (Suc (Suc j))) ?b3"
    using decode_fourth [OF m(2), of "Suc (Suc j)" ?b2 ?c] len by (simp add: add.commute)
  finally have eq: "base64_decode_loop (base64_encode_loop (a # b # c # cs) @ [NUL]) i j buf =
      base64_decode_loop ?rest (Suc (Suc (Suc (Suc i)))) (Suc (Suc (Suc j))) ?b3" .
  have "Suc (Suc (Suc j)) + length cs < length ?b3" using len by simp
  from "1.IH" [OF m(3) this] obtain i' buf' where r: "base64_decode_loop ?rest (Suc (Suc (Suc (Suc i)))) (Suc (Suc (Suc j))) ?b3 =
      Some (fst (base64_end cs), i', Suc (Suc (Suc j)) + length cs, buf')" "i' mod 4 = snd (base64_end cs)"
    "length buf' = length ?b3" "take (Suc (Suc (Suc j)) + length cs) buf' = take (Suc (Suc (Suc j))) ?b3 @ map uchar cs" by blast
  have "take (Suc (Suc (Suc j))) ?b3 = take j buf @ [?a, ?b, ?c]"
    using len by (intro nth_equalityI) (auto simp: nth_append nth_list_update nth_Cons' less_Suc_eq)
  moreover have "base64_end (a # b # c # cs) = base64_end cs" by (simp add: base64_end_def)
  ultimately show ?case using eq r by (auto simp: add.assoc)
next
  case (2 a b)
  let ?b1 = "buf[j := uchar a, Suc j := uchar b div 16 * 16]"
  let ?b2 = "?b1[Suc j := uchar b, Suc (Suc j) := 0]"
  have len: "j + 2 < length buf" using "2.prems"(2) by simp
  have m: "(Suc (Suc i)) mod 4 = 2" "(Suc (Suc (Suc i))) mod 4 = 3" using "2.prems"(1) by presburger+
  have bd: "uchar a < 256" "uchar b div 16 < 16" by simp_all
  have "base64_decode_loop (base64_encode_loop [a, b] @ [NUL]) i j buf =
      base64_decode_loop (base64_table ! (uchar b mod 16 * 4) # base64_pad # [NUL]) (Suc (Suc i)) (Suc j) ?b1"
    using decode_two [OF "2.prems"(1) _ bd] len by simp
  also have "\<dots> = base64_decode_loop (base64_pad # [NUL]) (Suc (Suc (Suc i))) (Suc (Suc j)) ?b2"
    using decode_third [OF m(1), of "Suc j" ?b1 "uchar b" 0] bd len by (simp add: add.commute)
  finally have "base64_decode_loop (base64_encode_loop [a, b] @ [NUL]) i j buf = Some (base64_pad, Suc (Suc (Suc i)), Suc (Suc j), ?b2)"
    by (simp add: decode_loop_end)
  moreover have "take (Suc (Suc j)) ?b2 = take j buf @ [uchar a, uchar b]"
    using len by (intro nth_equalityI) (auto simp: nth_append nth_list_update nth_Cons' less_Suc_eq)
  ultimately show ?case using m(2) by (simp add: base64_end_def)
next
  case (3 a)
  let ?b1 = "buf[j := uchar a, Suc j := 0]"
  have len: "j + 1 < length buf" using "3.prems"(2) by simp
  have m: "(Suc (Suc i)) mod 4 = 2" using "3.prems"(1) by presburger
  have "base64_decode_loop (base64_encode_loop [a] @ [NUL]) i j buf =
      base64_decode_loop (base64_pad # base64_pad # [NUL]) (Suc (Suc i)) (Suc j) ?b1"
    using decode_two [OF "3.prems"(1) len uchar_less [of a], of 0] by (simp)
  then have "base64_decode_loop (base64_encode_loop [a] @ [NUL]) i j buf = Some (base64_pad, Suc (Suc i), Suc j, ?b1)"
    by (simp add: decode_loop_end)
  moreover have "take (Suc j) ?b1 = take j buf @ [uchar a]"
    using len by (intro nth_equalityI) (auto simp: nth_append nth_list_update nth_Cons' less_Suc_eq)
  ultimately show ?case using m by (simp add: base64_end_def)
next
  case 4
  then show ?case by (simp add: base64_end_def decode_loop_end)
qed

lemma to_char_map [simp]: "map (to_char \<circ> uchar) s = s"
  by (simp add: comp_def)

lemma decode_encode:
  assumes len: "length s \<le> 597" and mem: "length mem = 800"
  shows "php3_base64_decode (base64_encode_loop s @ [NUL]) (length (base64_encode_loop s)) mem = Some (Some s)"
proof -
  let ?n = "length s"
  have room: "?n + 2 < length mem \<or> ?n mod 3 = 0 \<and> ?n < length mem" "?n mod 3 = 1 \<Longrightarrow> ?n + 3 < length mem"
    using len mem by simp_all
  then have "0 + length s < length mem" by auto
  from decode_loop_encode [of 0 0 s mem, OF _ this] obtain i buf where
    r: "base64_decode_loop (base64_encode_loop s @ [NUL]) 0 0 mem = Some (fst (base64_end s), i, ?n, buf)"
      "i mod 4 = snd (base64_end s)" "length buf = length mem" "take ?n buf = map uchar s" by auto
  have mod3: "?n mod 3 = 0 \<or> ?n mod 3 = 1 \<or> ?n mod 3 = 2" by presburger
  then show ?thesis
    using r room mem by (auto simp: decode_loop_end php3_base64_decode_def base64_end_def put_byte_def take_update_cancel)
qed

interpretation base64: codec php3_base64_encode
  "\<lambda>e. case php3_base64_decode (e @ [NUL]) (length e) (replicate 800 0) of Some r \<Rightarrow> r | None \<Rightarrow> None"
  "\<lambda>s. length s \<le> 597" "\<lambda>c. c = base64_pad \<or> index_in base64_table c \<noteq> None"
proof
  fix s e :: "char list"
  assume len: "length s \<le> 597"
  then have enc: "php3_base64_encode s = Some (base64_encode_loop s)"
    using encode_fits [of s] by (simp add: php3_base64_encode_def Let_def)
  have "c = base64_pad \<or> index_in base64_table c \<noteq> None" if "c \<in> set (base64_encode_loop s)" for c
    using that
  proof (induction s rule: base64_encode_loop.induct)
    case (1 a b d cs)
    then show ?case
      using table_symbol(1) [of "uchar a div 4"] table_symbol(1) [of "uchar a mod 4 * 16 + uchar b div 16"]
        table_symbol(1) [of "uchar b mod 16 * 4 + uchar d div 64"] table_symbol(1) [of "uchar d mod 64"]
        uchar_less [of a] uchar_less [of b] uchar_less [of d] by (auto simp del: uchar_less)
  next
    case (2 a b)
    then show ?case
      using table_symbol(1) [of "uchar a div 4"] table_symbol(1) [of "uchar a mod 4 * 16 + uchar b div 16"]
        table_symbol(1) [of "uchar b mod 16 * 4"] uchar_less [of a] uchar_less [of b] by (auto simp del: uchar_less)
  next
    case (3 a)
    then show ?case
      using table_symbol(1) [of "uchar a div 4"] table_symbol(1) [of "uchar a mod 4 * 16"] uchar_less [of a]
      by (auto simp del: uchar_less)
  qed simp
  with enc show "\<exists>e. php3_base64_encode s = Some e \<and> (\<forall>c \<in> set e. c = base64_pad \<or> index_in base64_table c \<noteq> None)"
    by blast
  assume "php3_base64_encode s = Some e"
  then show "(case php3_base64_decode (e @ [NUL]) (length e) (replicate 800 0) of Some r \<Rightarrow> r | None \<Rightarrow> None) = Some s"
    using enc decode_encode [OF len, of "replicate 800 0"] by simp
qed

subsection \<open>The decoder on any input\<close>

lemma switch_length:
  assumes "j + 1 < length buf"
  shows "\<exists>buf'. base64_switch i v j buf = Some (if i mod 4 = 0 then j else j + 1, buf') \<and> length buf' = length buf"
  using assms by (simp add: base64_switch_def put_byte_def or_byte_def)

lemma switch_total:
  assumes "j + (i + 3) div 4 = i" "i + 1 < length buf"
  obtains j' buf' where "base64_switch i v j buf = Some (j', buf')" "length buf' = length buf"
    "j' + (i + 1 + 3) div 4 = i + 1"
proof -
  have j: "j + 1 < length buf" using assms by linarith
  obtain buf' where "base64_switch i v j buf = Some (if i mod 4 = 0 then j else j + 1, buf')" "length buf' = length buf"
    using switch_length [OF j] by blast
  moreover have "(i + 1 + 3) div 4 = (if i mod 4 = 0 then (i + 3) div 4 + 1 else (i + 3) div 4)" by presburger
  with assms(1) have "(if i mod 4 = 0 then j else j + 1) + (i + 1 + 3) div 4 = i + 1" by simp
  ultimately show ?thesis by (rule that)
qed

lemma decode_loop_total:
  "j + (i + 3) div 4 = i \<Longrightarrow> NUL \<notin> set s \<Longrightarrow> i + length s < length buf \<Longrightarrow>
    \<exists>ch i' j' buf'. base64_decode_loop (s @ [NUL]) i j buf = Some (ch, i', j', buf') \<and> length buf' = length buf \<and>
      j' + (i' + 3) div 4 = i' \<and> i' + (if ch = base64_pad then 1 else 0) < length buf"
proof (induction s arbitrary: i j buf)
  case (Cons c s)
  show ?case
  proof (cases "c = base64_pad")
    case True
    then show ?thesis using Cons.prems by (auto simp: decode_loop_end)
  next
    case False
    show ?thesis
    proof (cases "index_in base64_table (if c = CHR '' '' then CHR ''+'' else c)")
      case None
      then have "base64_decode_loop ((c # s) @ [NUL]) i j buf = base64_decode_loop (s @ [NUL]) i j buf"
        using False Cons.prems(2) None by (auto simp: base64_decode_loop.simps(2))
      with Cons.IH [of j i buf] Cons.prems show ?thesis by simp
    next
      case (Some v)
      have "i + 1 < length buf" using Cons.prems(3) by simp
      with Cons.prems(1) obtain j' buf' where sw: "base64_switch i v j buf = Some (j', buf')"
        "length buf' = length buf" "j' + (i + 1 + 3) div 4 = i + 1" by (rule switch_total)
      have "base64_decode_loop ((c # s) @ [NUL]) i j buf = base64_decode_loop (s @ [NUL]) (i + 1) j' buf'"
        using False Cons.prems(2) Some sw(1) by (auto simp: base64_decode_loop.simps(2))
      with Cons.IH [OF sw(3), of buf'] Cons.prems(2,3) sw(2) show ?thesis by simp
    qed
  qed
qed (auto simp: decode_loop_end)

lemma decode_total:
  assumes "NUL \<notin> set s" "length s < length mem" "length mem = 800"
  obtains r where "php3_base64_decode (s @ [NUL]) (length s) mem = Some r"
proof -
  let ?buf = "take (block_bytes (int (length s) + 1)) mem"
  have "0 + length s < length ?buf" using assms(2,3) by simp
  with decode_loop_total [OF _ assms(1), of 0 0 ?buf] obtain ch i j buf where
    r: "base64_decode_loop (s @ [NUL]) 0 0 ?buf = Some (ch, i, j, buf)" "length buf = length ?buf"
      "j + (i + 3) div 4 = i" "i + (if ch = base64_pad then 1 else 0) < length ?buf" by auto
  have "j \<le> i" using r(3) by simp
  moreover have "i mod 4 \<ge> 2 \<Longrightarrow> j + 1 \<le> i"
  proof -
    assume "i mod 4 \<ge> 2"
    then have "i \<noteq> 0" by auto
    then have "(i + 3) div 4 \<ge> 1" by simp
    with r(3) show "j + 1 \<le> i" by linarith
  qed
  ultimately have "php3_base64_decode (s @ [NUL]) (length s) mem \<noteq> None"
    using r by (auto simp: php3_base64_decode_def put_byte_def not_less)
  then show ?thesis using that by blast
qed

subsection \<open>Properties\<close>

text \<open>
  C38: Base64 round trip: for every string of up to 597 bytes, with any bytes, the encoder's output fits its block, is over
  the alphabet with \<open>=\<close>, has four characters per started group of three, and decodes to the string whatever the decoder's
  block held before. On a longer string the encoder writes outside the 800 bytes that \<open>emalloc\<close> gives it.
\<close>

theorem base64_round_trip:
  assumes "length mem = 800"
  shows "if length s \<le> 597 then
      \<exists>e. php3_base64_encode s = Some e \<and> length e = 4 * ((length s + 2) div 3) \<and>
        (\<forall>c \<in> set e. c = base64_pad \<or> index_in base64_table c \<noteq> None) \<and>
        php3_base64_decode (e @ [NUL]) (length e) mem = Some (Some s)
    else php3_base64_encode s = None"
proof (cases "length s \<le> 597")
  case True
  then obtain e where e: "php3_base64_encode s = Some e" "\<forall>c \<in> set e. c = base64_pad \<or> index_in base64_table c \<noteq> None"
    using base64.encode_total [of s] by auto
  then have "e = base64_encode_loop s" by (simp add: php3_base64_encode_def Let_def split: if_splits)
  with e decode_encode [of s mem] encode_length [of s] assms True show ?thesis by simp
next
  case False
  then show ?thesis using encode_fits [of s] by (simp add: php3_base64_encode_def Let_def)
qed

theorem base64_round_trip_witness:
  "(\<exists>e. php3_base64_encode ''PHP3'' = Some e \<and> length e = 8 \<and>
    php3_base64_decode (e @ [NUL]) (length e) (replicate 800 255) = Some (Some ''PHP3'')) \<and>
   php3_base64_encode (replicate 598 CHR ''x'') = None"
  using base64_round_trip [of "replicate 800 255" "''PHP3''"] base64_round_trip [of "replicate 800 255" "replicate 598 CHR ''x''"]
  by auto

text \<open>
  The decoder is safe on every NUL-terminated input of less than 800 bytes: whatever characters it holds, valid or not, no
  write leaves the block and the loop ends.
\<close>

lemma base64_decode_safe:
  assumes "NUL \<notin> set s" "length s < 800" "length mem = 800"
  shows "\<exists>r. php3_base64_decode (s @ [NUL]) (length s) mem = Some r"
  using decode_total [of s mem] assms by metis

end
