(* ===== verification/Url.thy ===== *)
theory Url
  imports Codec
begin

text \<open>
  The encoders and decoders of \<^verbatim>\<open>functions/url.c\<close> (the ASCII branch of the preprocessor
  conditionals) and the decoder of \<^verbatim>\<open>functions/quot_print.c\<close>. The decoders work in place with the
  write position never ahead of the read position.
\<close>

subsection \<open>The model: \<^verbatim>\<open>url.c\<close>\<close>

definition hexchars :: "char list" where
  "hexchars = ''0123456789ABCDEF''"

definition hex_digit :: "char \<Rightarrow> int" where
  "hex_digit c0 =
     (let c = (if isupper c0 then tolower c0 else c0)
      in if 48 \<le> uchar c \<and> uchar c \<le> 57 then int (uchar c) - 48 else int (uchar c) - 97 + 10)"

definition php3_htoi :: "char \<Rightarrow> char \<Rightarrow> int" where
  "php3_htoi a b = hex_digit a * 16 + hex_digit b"

text \<open>The characters the encoders replace by \<open>%XX\<close>, with the code's chain of comparisons.\<close>

definition url_escaped :: "char \<Rightarrow> bool" where
  "url_escaped c \<longleftrightarrow>
     (uchar c < 48 \<and> c \<noteq> CHR ''-'' \<and> c \<noteq> CHR ''.'') \<or> (uchar c < 65 \<and> uchar c > 57) \<or>
     (uchar c > 90 \<and> uchar c < 97 \<and> c \<noteq> CHR ''_'') \<or> uchar c > 122"

definition percent :: "char \<Rightarrow> char list" where
  "percent c = [CHR ''%'', hexchars ! (uchar c div 16), hexchars ! (uchar c mod 16)]"

definition php3_urlencode :: "char list \<Rightarrow> char list" where
  "php3_urlencode s =
     concat (map (\<lambda>c. if c = CHR '' '' then [CHR ''+''] else if url_escaped c then percent c else [c]) s)"

definition php3_rawurlencode :: "char list \<Rightarrow> char list" where
  "php3_rawurlencode s = concat (map (\<lambda>c. if url_escaped c then percent c else [c]) s)"

text \<open>What the two encoders allocate.\<close>

definition urlencode_room :: "char list \<Rightarrow> nat" where
  "urlencode_room s = 3 * length (cstr (s @ [NUL])) + 1"

definition rawurlencode_room :: "char list \<Rightarrow> nat" where
  "rawurlencode_room s = 3 * length s + 1"

fun url_decode_loop :: "bool \<Rightarrow> char list \<Rightarrow> char list" where
  "url_decode_loop ps [] = []"
| "url_decode_loop ps (d # ds) =
     (if ps \<and> d = CHR ''+'' then CHR '' '' # url_decode_loop ps ds
      else case ds of
        a # b # rest \<Rightarrow>
          if d = CHR ''%'' \<and> isxdigit a \<and> isxdigit b
          then to_char (nat (php3_htoi a b)) # url_decode_loop ps rest
          else d # url_decode_loop ps ds
      | _ \<Rightarrow> d # url_decode_loop ps ds)"

definition php3_urldecode :: "char list \<Rightarrow> char list" where
  "php3_urldecode s = url_decode_loop True s"

definition php3_rawurldecode :: "char list \<Rightarrow> char list" where
  "php3_rawurldecode s = url_decode_loop False s"

subsection \<open>The model: \<^verbatim>\<open>quot_print.c\<close>\<close>

definition php3_hex2int :: "char \<Rightarrow> int" where
  "php3_hex2int c =
     (if isdigit c then int (uchar c) - 48
      else if 65 \<le> uchar c \<and> uchar c \<le> 70 then int (uchar c) - 65 + 10 else - 1)"

definition qp_hex :: "char \<Rightarrow> bool" where
  "qp_hex c \<longleftrightarrow> isdigit c \<or> (uchar c \<le> 70 \<and> uchar c \<ge> 65)"

fun qp_decode_loop :: "char list \<Rightarrow> char list" where
  "qp_decode_loop [] = []"
| "qp_decode_loop (d # ds) =
     (case ds of
        a # b # rest \<Rightarrow>
          if d = CHR ''='' \<and> qp_hex a \<and> qp_hex b
          then to_char (nat (php3_hex2int a * 16 + php3_hex2int b)) # qp_decode_loop rest
          else if d = CHR 0x0D then qp_decode_loop ds else d # qp_decode_loop ds
      | _ \<Rightarrow> if d = CHR 0x0D then qp_decode_loop ds else d # qp_decode_loop ds)"

definition php3_quoted_printable_decode :: "char list \<Rightarrow> char list" where
  "php3_quoted_printable_decode s = qp_decode_loop (cstr s)"

subsection \<open>Hexadecimal digits\<close>

lemma hexchars_ok:
  "list_all (\<lambda>v. isxdigit (hexchars ! v) \<and> hex_digit (hexchars ! v) = int v \<and> php3_hex2int (hexchars ! v) = int v \<and>
     qp_hex (hexchars ! v) \<and> \<not> url_escaped (hexchars ! v) \<and> hexchars ! v \<noteq> CHR '' '' \<and> hexchars ! v \<noteq> CHR ''+'' \<and>
     hexchars ! v \<noteq> NUL) [0..<16]"
  by code_simp

lemma hexchar:
  assumes "v < 16"
  shows "isxdigit (hexchars ! v)" "hex_digit (hexchars ! v) = int v" "php3_hex2int (hexchars ! v) = int v"
    "qp_hex (hexchars ! v)" "\<not> url_escaped (hexchars ! v)" "hexchars ! v \<noteq> CHR '' ''" "hexchars ! v \<noteq> CHR ''+''"
    "hexchars ! v \<noteq> NUL"
  using hexchars_ok assms unfolding list_all_iff by auto

lemma nat_hex: "nat (int (n div 16) * 16 + int (n mod 16)) = n"
proof -
  have "int (n div 16) * 16 + int (n mod 16) = int (n div 16 * 16 + n mod 16)"
    by (simp only: of_nat_add of_nat_mult of_nat_numeral)
  then show ?thesis by (simp only: nat_int div_mult_mod_eq)
qed

lemma decode_percent: "url_decode_loop ps (percent c @ r) = c # url_decode_loop ps r"
  using hexchar(1,2) [of "uchar c div 16"] hexchar(1,2) [of "uchar c mod 16"] nat_hex [of "uchar c"]
  by (simp add: percent_def php3_htoi_def)

lemma decode_plain:
  "d \<noteq> CHR ''%'' \<Longrightarrow> \<not> (ps \<and> d = CHR ''+'') \<Longrightarrow> url_decode_loop ps (d # ds) = d # url_decode_loop ps ds"
  by (auto split: list.splits)

lemma escaped_specials: "url_escaped (CHR ''%'')" "url_escaped (CHR ''+'')" "url_escaped NUL" "url_escaped (CHR '' '')"
  by (simp_all add: url_escaped_def uchar_def)

subsection \<open>Round trips\<close>

lemma url_round_trip: "php3_urldecode (php3_urlencode s) = s"
  unfolding php3_urldecode_def
proof (induction s)
  case (Cons c s)
  have "url_decode_loop True ((if c = CHR '' '' then [CHR ''+''] else if url_escaped c then percent c else [c]) @ r) =
      c # url_decode_loop True r" for r
    using decode_plain [of c True r] escaped_specials
    by (auto simp: decode_percent simp del: url_decode_loop.simps(2)) simp
  with Cons show ?case by (simp add: php3_urlencode_def)
qed (simp add: php3_urlencode_def)

lemma rawurl_round_trip: "php3_rawurldecode (php3_rawurlencode s) = s"
  unfolding php3_rawurldecode_def
proof (induction s)
  case (Cons c s)
  have "url_decode_loop False ((if url_escaped c then percent c else [c]) @ r) = c # url_decode_loop False r" for r
    using decode_plain [of c False r] escaped_specials
    by (auto simp: decode_percent simp del: url_decode_loop.simps(2))
  with Cons show ?case by (simp add: php3_rawurlencode_def)
qed (simp add: php3_rawurlencode_def)

definition url_safe :: "char \<Rightarrow> bool" where
  "url_safe c \<longleftrightarrow> c = CHR ''%'' \<or> (\<not> url_escaped c \<and> c \<noteq> CHR '' '')"

lemma percent_safe: "\<forall>c \<in> set (percent d). url_safe c"
  using hexchar(5,6) [of "uchar d div 16"] hexchar(5,6) [of "uchar d mod 16"] by (simp add: percent_def url_safe_def)

interpretation rawurl: codec "\<lambda>s. Some (php3_rawurlencode s)" "\<lambda>e. Some (php3_rawurldecode e)" "\<lambda>s. True" url_safe
proof
  fix s e :: "char list"
  show "\<exists>e. Some (php3_rawurlencode s) = Some e \<and> (\<forall>c \<in> set e. url_safe c)"
    using percent_safe escaped_specials by (fastforce simp: php3_rawurlencode_def url_safe_def split: if_splits)
  assume "Some (php3_rawurlencode s) = Some e"
  then show "Some (php3_rawurldecode e) = Some s" using rawurl_round_trip [of s] by simp
qed

interpretation url: codec "\<lambda>s. Some (php3_urlencode s)" "\<lambda>e. Some (php3_urldecode e)" "\<lambda>s. True"
  "\<lambda>c. url_safe c \<or> c = CHR ''+''"
proof
  fix s e :: "char list"
  show "\<exists>e. Some (php3_urlencode s) = Some e \<and> (\<forall>c \<in> set e. url_safe c \<or> c = CHR ''+'')"
    using percent_safe by (fastforce simp: php3_urlencode_def url_safe_def split: if_splits)
  assume "Some (php3_urlencode s) = Some e"
  then show "Some (php3_urldecode e) = Some s" using url_round_trip [of s] by simp
qed

subsection \<open>Buffers\<close>

lemma percent_length: "length (percent c) = 3"
  by (simp add: percent_def)

lemma rawurlencode_fits: "length (php3_rawurlencode s) + 1 \<le> rawurlencode_room s"
  unfolding rawurlencode_room_def php3_rawurlencode_def by (induction s) (auto simp: percent_length)

lemma urlencode_length: "length (php3_urlencode s) \<le> 3 * length s"
  unfolding php3_urlencode_def by (induction s) (auto simp: percent_length)

subsection \<open>Quoted-printable\<close>

text \<open>An encoder that writes every byte as \<open>=XX\<close>.\<close>

definition qp_escape :: "char list \<Rightarrow> char list" where
  "qp_escape s = concat (map (\<lambda>c. [CHR ''='', hexchars ! (uchar c div 16), hexchars ! (uchar c mod 16)]) s)"

lemma qp_escape_no_NUL: "NUL \<notin> set (qp_escape s)"
  using hexchar(8) [symmetric] by (auto simp: qp_escape_def)

lemma qp_round_trip: "php3_quoted_printable_decode (qp_escape s) = s"
  unfolding php3_quoted_printable_decode_def cstr_id [OF qp_escape_no_NUL]
proof (induction s)
  case (Cons c s)
  then show ?case
    using hexchar(3,4) [of "uchar c div 16"] hexchar(3,4) [of "uchar c mod 16"] nat_hex [of "uchar c"]
    by (simp add: qp_escape_def)
qed (simp add: qp_escape_def)

lemma qp_step:
  "d \<noteq> CHR ''='' \<Longrightarrow>
    qp_decode_loop (d # ds) = (if d = CHR 0x0D then qp_decode_loop ds else d # qp_decode_loop ds)"
  by (subst qp_decode_loop.simps) (simp del: qp_decode_loop.simps split: list.split)

lemma qp_plain:
  "CHR ''='' \<notin> set s \<Longrightarrow> NUL \<notin> set s \<Longrightarrow> php3_quoted_printable_decode s = filter (\<lambda>c. c \<noteq> CHR 0x0D) s"
proof -
  assume "NUL \<notin> set s"
  then have "php3_quoted_printable_decode s = qp_decode_loop s" by (simp add: php3_quoted_printable_decode_def cstr_id)
  moreover assume "CHR ''='' \<notin> set s"
  then have "qp_decode_loop s = filter (\<lambda>c. c \<noteq> CHR 0x0D) s"
  proof (induction s)
    case (Cons d ds)
    then show ?case using qp_step [of d ds] by (auto simp del: qp_decode_loop.simps)
  qed simp
  ultimately show ?thesis by simp
qed

subsection \<open>Properties\<close>

text \<open>
  URL round trips: \<open>urldecode\<close> undoes \<open>urlencode\<close> and \<open>rawurldecode\<close> undoes \<open>rawurlencode\<close> on every
  string, and both encoders only produce letters, digits, \<open>-\<close>, \<open>.\<close>, \<open>_\<close>, \<open>%\<close> and, \<open>urlencode\<close>, \<open>+\<close>.
\<close>

lemma url_round_trips:
  "php3_urldecode (php3_urlencode s) = s \<and> php3_rawurldecode (php3_rawurlencode s) = s \<and>
    list_all url_safe (php3_rawurlencode s) \<and> list_all (\<lambda>c. url_safe c \<or> c = CHR ''+'') (php3_urlencode s)"
  using url.decode_encode [of s] rawurl.decode_encode [of s] url.encode_total [of s] rawurl.encode_total [of s]
  by (simp add: list_all_iff)

text \<open>
  \<open>rawurlencode\<close> fits the block it allocates for every string. \<open>urlencode\<close> allocates by \<open>strlen\<close> but
  encodes \<open>len\<close> bytes: it fits when the string has no NUL, and overruns its block for a string that
  starts with NUL.
\<close>

lemma urlencode_block:
  "length (php3_rawurlencode s) + 1 \<le> rawurlencode_room s \<and>
    (NUL \<in> set s \<or> length (php3_urlencode s) + 1 \<le> urlencode_room s) \<and>
    length (php3_urlencode (NUL # s)) + 1 > urlencode_room (NUL # s)"
proof -
  have "length (php3_urlencode s) + 1 \<le> urlencode_room s" if "NUL \<notin> set s"
    using urlencode_length [of s] that by (simp add: urlencode_room_def cstr_append_NUL)
  moreover have "length (php3_urlencode (NUL # s)) + 1 > urlencode_room (NUL # s)"
    by (simp add: urlencode_room_def cstr_def php3_urlencode_def escaped_specials percent_length)
  ultimately show ?thesis using rawurlencode_fits [of s] by blast
qed

text \<open>
  \<open>quoted_printable_decode\<close> decodes a string written entirely as \<open>=XX\<close> to its bytes, and leaves a text
  without \<open>=\<close> alone but for the carriage returns it drops. A soft line break (\<open>=\<close>, CR, LF), which the format
  says to remove, comes out as \<open>=\<close>, LF.
\<close>

lemma quoted_printable_decodes_facts:
  "php3_quoted_printable_decode (qp_escape s) = s \<and>
    (CHR ''='' \<in> set t \<or> NUL \<in> set t \<or> php3_quoted_printable_decode t = filter (\<lambda>c. c \<noteq> CHR 0x0D) t) \<and>
    php3_quoted_printable_decode [CHR ''='', CHR 0x0D, CHR 0x0A] = [CHR ''='', CHR 0x0A]"
  using qp_round_trip [of s] qp_plain [of t]
  by (auto simp: php3_quoted_printable_decode_def cstr_def qp_hex_def isdigit_def uchar_def)

end
