(* ===== verification/Str_Search.thy ===== *)
theory Str_Search
  imports Base
begin

text \<open>
  Searching in strings, from \<^verbatim>\<open>functions/string.c\<close>: the binary-safe search \<open>_php3_memnstr\<close> and the
  functions built on it (\<open>strpos\<close>, \<open>explode\<close>, \<open>str_replace\<close>), the case-insensitive search, and the
  searches for the last occurrence of a character. A PHP string is the list of its \<open>len\<close> bytes;
  the byte after them is NUL. Positions are offsets from the start of the string.
\<close>

subsection \<open>The model\<close>

text \<open>\<open>memchr(p, c, n)\<close> as an offset from \<open>p\<close>.\<close>

fun memchr :: "char list \<Rightarrow> char \<Rightarrow> nat option" where
  "memchr [] c = None"
| "memchr (x # xs) c = (if x = c then Some 0 else map_option Suc (memchr xs c))"

lemma memchr_bound: "memchr xs c = Some k \<Longrightarrow> k < length xs"
  by (induction xs arbitrary: k) (auto split: if_splits)

text \<open>The loop of \<open>_php3_memnstr\<close> from position \<open>p\<close>. The needle's first byte is NUL when it is empty.\<close>

function memnstr :: "char list \<Rightarrow> char list \<Rightarrow> nat \<Rightarrow> nat option" where
  "memnstr hay needle p =
     (if p + length needle \<le> length hay then
        (case memchr (take (length hay - p - length needle + 1) (drop p (hay @ [NUL]))) (hd (needle @ [NUL])) of
           None \<Rightarrow> None
         | Some k \<Rightarrow>
             if take (length needle) (drop (p + k) hay) = needle then Some (p + k)
             else memnstr hay needle (p + k + 1))
      else None)"
  by pat_completeness auto
termination
  by (relation "measure (\<lambda>(hay, needle, p). length hay + 1 - p)") auto

declare memnstr.simps [simp del]

text \<open>
  \<open>php3_strpos\<close>. A negative offset makes the code set the result to -1 and go on, reading before the
  string: \<open>None\<close>. The needle is a string or an integer taken as a character.
\<close>

datatype needle = Str_needle "char list" | Long_needle int

definition char_of_int :: "int \<Rightarrow> char" where
  "char_of_int i = to_char (nat (i mod 256))"

definition php3_strpos :: "char list \<Rightarrow> needle \<Rightarrow> int \<Rightarrow> int option" where
  "php3_strpos hay ndl offset =
     (if offset < 0 then None
      else
        let found = (case ndl of
              Str_needle s \<Rightarrow> memnstr hay s (nat offset)
            | Long_needle i \<Rightarrow> memnstr hay [char_of_int i] (nat offset))
        in Some (case found of Some p \<Rightarrow> int p | None \<Rightarrow> - 1))"

text \<open>\<open>_php3_explode\<close>: the elements added to the array. An empty delimiter is the caller's error.\<close>

partial_function (option) explode_loop ::
  "char list \<Rightarrow> char list \<Rightarrow> nat \<Rightarrow> nat option \<Rightarrow> char list list \<Rightarrow> char list list option" where
  "explode_loop delim s p1 q arr =
     (case q of
        Some p2 \<Rightarrow>
          explode_loop delim s (p2 + length delim) (memnstr s delim (p2 + length delim))
            (arr @ [take (p2 - p1) (drop p1 s)])
      | None \<Rightarrow> Some (if p1 \<le> length s then arr @ [drop p1 s] else arr))"

definition php3_explode :: "char list \<Rightarrow> char list \<Rightarrow> char list list option option" where
  "php3_explode delim s =
     (if length delim = 0 then Some None
      else do { r \<leftarrow> explode_loop delim s 0 (memnstr s delim 0) []; Some (Some r) })"

text \<open>
  \<open>_php3_implode\<close> on the elements of the array after \<open>convert_to_string\<close>; \<open>None\<close> is an element that is
  \<open>undefined_variable_string\<close>. The first loop computes the length and the number of elements, both \<open>int\<close>, the
  second fills the block with \<open>strcat\<close>, which copies up to a NUL byte. The result is the C string in
  the block and the length stored for it; \<open>None\<close> is a block of \<open>len + 1\<close> bytes that is too small or cannot be had.
\<close>

fun implode_size :: "int \<Rightarrow> char list option list \<Rightarrow> int \<Rightarrow> int \<Rightarrow> int \<times> int" where
  "implode_size dlen [] len count = (len, count)"
| "implode_size dlen (None # arr) len count = implode_size dlen arr len count"
| "implode_size dlen (Some s # arr) len count =
     (let len1 = wrap_int (len + int (length s));
          len2 = (if count > 0 then wrap_int (len1 + dlen) else len1)
      in implode_size dlen arr len2 (wrap_int (count + 1)))"

fun implode_cat :: "char list \<Rightarrow> char list option list \<Rightarrow> int \<Rightarrow> char list \<Rightarrow> char list" where
  "implode_cat delim [] count buf = buf"
| "implode_cat delim (None # arr) count buf = implode_cat delim arr count buf"
| "implode_cat delim (Some s # arr) count buf =
     (let count' = wrap_int (count - 1); buf' = buf @ cstr s
      in implode_cat delim arr count' (if count' > 0 then buf' @ cstr delim else buf'))"

definition php3_implode :: "char list \<Rightarrow> char list option list \<Rightarrow> (char list \<times> nat) option" where
  "php3_implode delim arr =
     (case implode_size (int (length delim)) arr 0 0 of (len, count) \<Rightarrow>
        let buf = implode_cat delim arr count []
        in if 0 \<le> len \<and> length buf < nat len + 1 then Some (buf, nat len) else None)"

text \<open>\<open>_php3_str_to_str\<close>, which does not end for an empty needle, and \<open>_php3_char_to_str\<close>.\<close>

partial_function (option) str_to_str ::
  "char list \<Rightarrow> char list \<Rightarrow> char list \<Rightarrow> nat \<Rightarrow> char list \<Rightarrow> char list option" where
  "str_to_str hay ndl rep p new =
     (case memnstr hay ndl p of
        Some r \<Rightarrow> str_to_str hay ndl rep (r + length ndl) (new @ take (r - p) (drop p hay) @ rep)
      | None \<Rightarrow> Some (new @ drop p hay))"

definition char_to_str :: "char list \<Rightarrow> char \<Rightarrow> char list \<Rightarrow> char list" where
  "char_to_str s from to =
     (if count_list s from = 0 then s
      else concat (map (\<lambda>c. if c = from then to else [c]) s))"

text \<open>The length \<open>_php3_char_to_str\<close> computes, and the block it allocates (one byte more).\<close>

definition char_to_str_len :: "char list \<Rightarrow> char \<Rightarrow> char list \<Rightarrow> int" where
  "char_to_str_len s from to = int (length s) + int (count_list s from) * (int (length to) - 1)"

text \<open>\<open>Some None\<close> is the return value false.\<close>

definition php3_str_replace :: "char list \<Rightarrow> char list \<Rightarrow> char list \<Rightarrow> char list option option" where
  "php3_str_replace hay ndl str =
     (if length hay = 0 then Some (Some [])
      else if length ndl = 1 then Some (Some (char_to_str hay (hd ndl) str))
      else if length ndl = 0 then Some None
      else do { r \<leftarrow> str_to_str hay ndl str 0 []; Some (Some r) })"

text \<open>\<open>ttolower\<close>, \<open>ttoupper\<close> and \<open>php3i_stristr\<close>; the result is the offset of the match.\<close>

definition ttoupper :: "char \<Rightarrow> char" where
  "ttoupper x = (if 97 \<le> uchar x \<and> uchar x \<le> 122 then to_char (uchar x - 32) else x)"

definition ttolower :: "char \<Rightarrow> char" where
  "ttolower x = (if 65 \<le> uchar x \<and> uchar x \<le> 90 then to_char (uchar x + 32) else x)"

text \<open>What is left of the needle when the inner loop stops.\<close>

fun match_ci :: "char list \<Rightarrow> char list \<Rightarrow> char list" where
  "match_ci (x # xs) (y # ys) = (if ttolower x = ttolower y then match_ci xs ys else y # ys)"
| "match_ci [] ys = ys"
| "match_ci xs [] = []"

fun stristr_loop :: "char list \<Rightarrow> char list \<Rightarrow> nat \<Rightarrow> nat option" where
  "stristr_loop [] t i = None"
| "stristr_loop (x # xs) t i = (if match_ci (x # xs) t = [] then Some i else stristr_loop xs t (i + 1))"

definition php3i_stristr :: "char list \<Rightarrow> char list \<Rightarrow> nat option" where
  "php3i_stristr s t = stristr_loop (cstr s) (cstr t) 0"

definition php3_stristr :: "char list \<Rightarrow> char list \<Rightarrow> char list option" where
  "php3_stristr hay ndl =
     (if cstr ndl = [] then None else map_option (\<lambda>i. drop i (cstr hay)) (php3i_stristr hay ndl))"

text \<open>The C library's \<open>strstr\<close>, \<open>strchr\<close> and \<open>strrchr\<close> on strings without NUL, as offsets.\<close>

fun c_strstr :: "char list \<Rightarrow> char list \<Rightarrow> nat option" where
  "c_strstr s t = (if take (length t) s = t then Some 0 else case s of [] \<Rightarrow> None | x # xs \<Rightarrow> map_option Suc (c_strstr xs t))"

declare c_strstr.simps [simp del]

definition c_strchr :: "char list \<Rightarrow> char \<Rightarrow> nat option" where
  "c_strchr s c = memchr (s @ [NUL]) c"

fun last_index :: "char list \<Rightarrow> char \<Rightarrow> nat option" where
  "last_index [] c = None"
| "last_index (x # xs) c =
     (case last_index xs c of Some i \<Rightarrow> Some (Suc i) | None \<Rightarrow> if x = c then Some 0 else None)"

definition c_strrchr :: "char list \<Rightarrow> char \<Rightarrow> nat option" where
  "c_strrchr s c = last_index (s @ [NUL]) c"

definition php3_strstr :: "char list \<Rightarrow> needle \<Rightarrow> char list option" where
  "php3_strstr hay ndl =
     (case ndl of
        Str_needle s \<Rightarrow>
          if cstr s = [] then None else map_option (\<lambda>i. drop i (cstr hay)) (c_strstr (cstr hay) (cstr s))
      | Long_needle i \<Rightarrow> map_option (\<lambda>i. drop i (cstr hay)) (c_strchr (cstr hay) (char_of_int i)))"

text \<open>
  \<open>php3_strrpos\<close>: \<open>len - strlen(found)\<close>; \<open>None\<close> is false. \<open>*needle\<close> is NUL for an empty needle.
\<close>

definition needle_char :: "needle \<Rightarrow> char" where
  "needle_char ndl = (case ndl of Str_needle s \<Rightarrow> hd (s @ [NUL]) | Long_needle i \<Rightarrow> char_of_int i)"

definition php3_strrpos :: "char list \<Rightarrow> needle \<Rightarrow> int option" where
  "php3_strrpos hay ndl =
     map_option (\<lambda>i. int (length hay) - int (length (drop i (cstr hay)))) (c_strrchr (cstr hay) (needle_char ndl))"

definition php3_strrchr :: "char list \<Rightarrow> needle \<Rightarrow> char list option" where
  "php3_strrchr hay ndl = map_option (\<lambda>i. drop i (cstr hay)) (c_strrchr (cstr hay) (needle_char ndl))"

subsection \<open>The binary-safe search\<close>

definition occurs_at :: "char list \<Rightarrow> char list \<Rightarrow> nat \<Rightarrow> bool" where
  "occurs_at hay needle s \<longleftrightarrow> s + length needle \<le> length hay \<and> take (length needle) (drop s hay) = needle"

lemma memchr_Some: "memchr xs c = Some k \<Longrightarrow> xs ! k = c \<and> (\<forall>i < k. xs ! i \<noteq> c)"
proof (induction xs arbitrary: k)
  case (Cons x xs)
  then show ?case by (cases k) (auto split: if_splits simp: less_Suc_eq_0_disj)
qed simp

lemma memchr_None: "memchr xs c = None \<longleftrightarrow> c \<notin> set xs"
  by (induction xs) auto

lemma occurs_head:
  assumes "occurs_at hay needle s" "needle \<noteq> []"
  shows "hay ! s = hd needle"
proof -
  obtain x xs where x: "needle = x # xs" using assms(2) by (cases needle) auto
  from assms(1) have s: "s < length hay" "take (length needle) (drop s hay) = needle"
    by (auto simp: occurs_at_def x)
  from s(1) have "drop s hay = hay ! s # drop (Suc s) hay" by (rule Cons_nth_drop_Suc [symmetric])
  with s(2) x show ?thesis by simp
qed

lemma memnstr_first:
  assumes "needle \<noteq> []"
  shows "case memnstr hay needle p of
      Some s \<Rightarrow> p \<le> s \<and> occurs_at hay needle s \<and> (\<forall>i. p \<le> i \<and> i < s \<longrightarrow> \<not> occurs_at hay needle i)
    | None \<Rightarrow> \<forall>i \<ge> p. \<not> occurs_at hay needle i"
  using assms
proof (induction hay needle p rule: memnstr.induct)
  case (1 hay needle p)
  let ?n = "length needle"
  define w where "w = take (length hay - p - ?n + 1) (drop p (hay @ [NUL]))"
  have hd: "hd (needle @ [NUL]) = hd needle" using "1.prems" by (cases needle) auto
  show ?case
  proof (cases "p + ?n \<le> length hay")
    case False
    then show ?thesis by (subst memnstr.simps) (auto simp: occurs_at_def)
  next
    case fits: True
    obtain n where n0: "?n = Suc n" using "1.prems" by (cases needle) auto
    have lw: "length w = length hay - p - ?n + 1" using fits n0 by (auto simp: w_def)
    have w: "w ! i = hay ! (p + i)" if "i < length w" for i
    proof -
      have "p + i < length hay" using that fits n0 unfolding lw by auto
      moreover have "w ! i = drop p (hay @ [NUL]) ! i"
        using that unfolding lw unfolding w_def by (rule nth_take)
      moreover have "drop p (hay @ [NUL]) ! i = (hay @ [NUL]) ! (p + i)" using fits by (intro nth_drop) simp
      ultimately show ?thesis by (simp only: nth_append if_True)
    qed
    have step: "memnstr hay needle p = (case memchr w (hd needle) of None \<Rightarrow> None
      | Some k \<Rightarrow> if take ?n (drop (p + k) hay) = needle then Some (p + k) else memnstr hay needle (p + k + 1))"
      by (subst memnstr.simps) (simp only: fits hd w_def if_True)
    show ?thesis
    proof (cases "memchr w (hd needle)")
      case None
      have "\<not> occurs_at hay needle i" if "i \<ge> p" for i
      proof
        assume occ: "occurs_at hay needle i"
        then have "i - p < length w" using that lw n0 by (auto simp: occurs_at_def)
        with w [of "i - p"] that occurs_head [OF occ "1.prems"] have "hd needle \<in> set w"
          by (metis le_add_diff_inverse nth_mem)
        with None show False by (simp add: memchr_None)
      qed
      with None step show ?thesis by simp
    next
      case (Some k)
      have k: "k < length w" using Some by (rule memchr_bound)
      have none: "\<not> occurs_at hay needle i" if "p \<le> i" "i < p + k" for i
      proof
        assume "occurs_at hay needle i"
        then have "hay ! i = hd needle" using "1.prems" by (rule occurs_head)
        moreover have "w ! (i - p) \<noteq> hd needle" using memchr_Some [OF Some] that by auto
        ultimately show False using w [of "i - p"] that k by simp
      qed
      show ?thesis
      proof (cases "take ?n (drop (p + k) hay) = needle")
        case True
        then have "occurs_at hay needle (p + k)" using k lw fits by (simp add: occurs_at_def)
        moreover have "memnstr hay needle p = Some (p + k)" using Some True by (simp add: step)
        ultimately show ?thesis using none by simp
      next
        case False
        then have "\<not> occurs_at hay needle (p + k)" by (simp add: occurs_at_def)
        with none have none': "\<not> occurs_at hay needle i" if "p \<le> i" "i < p + k + 1" for i
          using that by (cases "i = p + k") auto
        have eq: "memnstr hay needle p = memnstr hay needle (p + k + 1)" using Some False by (simp add: step)
        have w': "memchr (take (length hay - p - ?n + 1) (drop p (hay @ [NUL]))) (hd (needle @ [NUL])) = Some k"
          using Some unfolding hd w_def .
        note IH = "1.IH" [OF fits w' False "1.prems"]
        show ?thesis
        proof (cases "memnstr hay needle (p + k + 1)")
          case None
          with IH none' have "\<not> occurs_at hay needle i" if "p \<le> i" for i
            using that by (cases "i < p + k + 1") auto
          then show ?thesis unfolding eq None by simp
        next
          case (Some s)
          with IH none' have "\<not> occurs_at hay needle i" if "p \<le> i" "i < s" for i
            using that by (cases "i < p + k + 1") auto
          with IH show ?thesis unfolding eq Some by simp
        qed
      qed
    qed
  qed
qed

lemma memnstr_Some:
  assumes "needle \<noteq> []" "memnstr hay needle p = Some s"
  shows "p \<le> s" "occurs_at hay needle s" "\<And>i. p \<le> i \<Longrightarrow> i < s \<Longrightarrow> \<not> occurs_at hay needle i"
  using memnstr_first [OF assms(1), where hay = hay and p = p] assms(2) by auto

lemma memnstr_None:
  "needle \<noteq> [] \<Longrightarrow> memnstr hay needle p = None \<Longrightarrow> p \<le> i \<Longrightarrow> \<not> occurs_at hay needle i"
  using memnstr_first [where needle = needle and hay = hay and p = p] by auto

lemma memnstr_eqI:
  assumes "occurs_at hay needle s" "p \<le> s" "needle \<noteq> []"
    and "\<And>i. p \<le> i \<Longrightarrow> i < s \<Longrightarrow> \<not> occurs_at hay needle i"
  shows "memnstr hay needle p = Some s"
proof (cases "memnstr hay needle p")
  case None
  with memnstr_None [OF assms(3) None assms(2)] assms(1) show ?thesis by simp
next
  case (Some q)
  from memnstr_Some [OF assms(3) Some] assms(1,2,4) show ?thesis
    unfolding Some by (metis linorder_less_linear)
qed

lemma memnstr_eq_None:
  assumes "needle \<noteq> []" and "\<And>i. p \<le> i \<Longrightarrow> \<not> occurs_at hay needle i"
  shows "memnstr hay needle p = None"
  using memnstr_Some [OF assms(1)] assms(2) by (cases "memnstr hay needle p") blast+

subsection \<open>Splitting, joining and replacing\<close>

fun join :: "char list \<Rightarrow> char list list \<Rightarrow> char list" where
  "join glue [] = []"
| "join glue [x] = x"
| "join glue (x # y # ys) = x @ glue @ join glue (y # ys)"

lemma join_Cons: "ys \<noteq> [] \<Longrightarrow> join glue (x # ys) = x @ glue @ join glue ys"
  by (cases ys) auto

definition contains :: "char list \<Rightarrow> char list \<Rightarrow> bool" where
  "contains hay needle \<longleftrightarrow> (\<exists>i. occurs_at hay needle i)"

lemma occurs_at_drop: "occurs_at (drop p hay) needle i \<Longrightarrow> needle \<noteq> [] \<Longrightarrow> occurs_at hay needle (p + i)"
  by (cases needle) (auto simp: occurs_at_def add.commute)

lemma occurs_at_take: "occurs_at (take n hay) needle i \<Longrightarrow> occurs_at hay needle i \<and> i + length needle \<le> n"
  by (auto simp: occurs_at_def drop_take min_def split: if_splits)

lemma split_at_occurrence:
  assumes "occurs_at s d q" "p \<le> q"
  shows "drop p s = take (q - p) (drop p s) @ d @ drop (q + length d) s"
proof -
  have "drop p s = take (q - p) (drop p s) @ drop (q - p) (drop p s)" by (rule append_take_drop_id [symmetric])
  also have "drop (q - p) (drop p s) = drop q s" using assms(2) by simp
  also have "drop q s = take (length d) (drop q s) @ drop (length d) (drop q s)" by (rule append_take_drop_id [symmetric])
  also have "take (length d) (drop q s) = d" using assms(1) by (simp add: occurs_at_def)
  also have "drop (length d) (drop q s) = drop (q + length d) s" by (simp add: add.commute)
  finally show ?thesis .
qed

text \<open>
  The loops of \<open>explode\<close> and of \<open>str_replace\<close> cut the string at the same places: the pieces between
  the leftmost, non-overlapping occurrences.
\<close>

lemma explode_replace_loop:
  assumes "delim \<noteq> []" "p \<le> length s"
  shows "\<exists>ps. ps \<noteq> [] \<and> join delim ps = drop p s \<and> (\<forall>x \<in> set ps. \<not> contains x delim) \<and>
    (\<forall>arr. explode_loop delim s p (memnstr s delim p) arr = Some (arr @ ps)) \<and>
    (\<forall>rep new. str_to_str s delim rep p new = Some (new @ join rep ps))"
  using assms(2)
proof (induction "length s - p" arbitrary: p rule: less_induct)
  case less
  show ?case
  proof (cases "memnstr s delim p")
    case None
    have "\<not> contains (drop p s) delim"
      unfolding contains_def using memnstr_None [OF assms(1) None] occurs_at_drop [OF _ assms(1)] le_add1 by blast
    with None less.prems show ?thesis
      by (intro exI [of _ "[drop p s]"]) (simp add: explode_loop.simps [of delim s p] str_to_str.simps [of s delim _ p])
  next
    case (Some q)
    note m = memnstr_Some [OF assms(1) Some]
    let ?x = "take (q - p) (drop p s)"
    let ?p = "q + length delim"
    have bound: "?p \<le> length s" using m(2) by (simp add: occurs_at_def)
    with m(1) assms(1) have "length s - ?p < length s - p" by (cases delim) auto
    from less.hyps [OF this bound] obtain ps where ps: "ps \<noteq> []" "join delim ps = drop ?p s"
      "\<forall>x \<in> set ps. \<not> contains x delim"
      "\<And>arr. explode_loop delim s ?p (memnstr s delim ?p) arr = Some (arr @ ps)"
      "\<And>rep new. str_to_str s delim rep ?p new = Some (new @ join rep ps)" by blast
    have "\<not> contains ?x delim"
    proof
      assume "contains ?x delim"
      then obtain i where i: "occurs_at (drop p s) delim i" "i + length delim \<le> q - p"
        by (auto simp: contains_def dest: occurs_at_take)
      then have "occurs_at s delim (p + i)" using assms(1) by (intro occurs_at_drop)
      moreover have "p + i < q" using i(2) assms(1) by (cases delim) auto
      ultimately show False using m(3) by auto
    qed
    with ps show ?thesis
      by (intro exI [of _ "?x # ps"])
        (simp add: explode_loop.simps [of delim s p] str_to_str.simps [of s delim _ p] Some join_Cons
          split_at_occurrence [OF m(2,1), symmetric])
  qed
qed

lemma explode_ok:
  assumes "delim \<noteq> []"
  obtains ps where "php3_explode delim s = Some (Some ps)" "ps \<noteq> []" "join delim ps = s"
    "\<forall>x \<in> set ps. \<not> contains x delim" "\<And>rep. str_to_str s delim rep 0 [] = Some (join rep ps)"
proof -
  from explode_replace_loop [OF assms, of 0 s] obtain ps where ps:
    "ps \<noteq> []" "join delim ps = drop 0 s" "\<forall>x \<in> set ps. \<not> contains x delim"
    "\<forall>arr. explode_loop delim s 0 (memnstr s delim 0) arr = Some (arr @ ps)"
    "\<forall>rep new. str_to_str s delim rep 0 new = Some (new @ join rep ps)" by blast
  show ?thesis
    using ps by (intro that [of ps]) (simp_all add: php3_explode_def assms)
qed

text \<open>A list of pieces without the delimiter's first character is what its join splits into.\<close>

lemma occurs_at_after:
  assumes "occurs_at (x @ d @ r) d i" "d \<noteq> []" "hd d \<notin> set x"
  shows "length x \<le> i"
proof (rule ccontr)
  assume "\<not> length x \<le> i"
  with occurs_head [OF assms(1,2)] assms(3) nth_mem [of i x] show False by (auto simp: nth_append)
qed

lemma explode_join_loop:
  assumes "delim \<noteq> []" "ps \<noteq> []" "\<forall>x \<in> set ps. hd delim \<notin> set x" "drop p s = join delim ps" "p \<le> length s"
  shows "explode_loop delim s p (memnstr s delim p) arr = Some (arr @ ps)"
  using assms(2-)
proof (induction ps arbitrary: p arr)
  case (Cons x ps)
  show ?case
  proof (cases "ps = []")
    case True
    have "\<not> occurs_at s delim i" if "p \<le> i" for i
    proof
      assume occ: "occurs_at s delim i"
      then have i: "i < length s" using assms(1) by (cases delim) (auto simp: occurs_at_def)
      then have "s ! i = drop p s ! (i - p)" using that by simp
      then have "s ! i \<in> set (drop p s)" using i that by (metis diff_less_mono length_drop nth_mem)
      with Cons.prems(2,3) True occurs_head [OF occ assms(1)] show False by simp
    qed
    then have "memnstr s delim p = None" using assms(1) by (intro memnstr_eq_None) auto
    with Cons.prems True show ?thesis by (simp add: explode_loop.simps [of delim s p])
  next
    case False
    then have s: "drop p s = x @ delim @ join delim ps" using Cons.prems(3) by (simp add: join_Cons)
    then have len: "length s = p + length x + length delim + length (join delim ps)"
    proof -
      have "length s - p = length (x @ delim @ join delim ps)" unfolding s [symmetric] by simp
      with Cons.prems(4) show ?thesis by simp
    qed
    have occ: "occurs_at s delim (p + length x)"
    proof -
      have "drop (p + length x) s = drop (length x) (drop p s)" by (simp add: add.commute)
      with len show ?thesis by (simp add: occurs_at_def s)
    qed
    have none: "\<not> occurs_at s delim i" if "p \<le> i" "i < p + length x" for i
    proof
      assume "occurs_at s delim i"
      then have "occurs_at (drop p s) delim (i - p)" using that by (auto simp: occurs_at_def)
      then have "length x \<le> i - p" unfolding s using assms(1) Cons.prems(2) by (intro occurs_at_after) auto
      with that show False by simp
    qed
    have m: "memnstr s delim p = Some (p + length x)"
      using occ assms(1) none by (intro memnstr_eqI) auto
    have "drop (p + length x + length delim) s = drop (length x + length delim) (drop p s)"
      by (simp add: ac_simps)
    then have "drop (p + length x + length delim) s = join delim ps" by (simp add: s)
    then have "explode_loop delim s (p + length x + length delim) (memnstr s delim (p + length x + length delim))
        (arr @ [x]) = Some ((arr @ [x]) @ ps)"
      using False Cons.prems(2) len by (intro Cons.IH) auto
    then show ?thesis by (simp add: explode_loop.simps [of delim s p] m s)
  qed
qed simp

lemma explode_join:
  assumes "delim \<noteq> []" "ps \<noteq> []" "\<forall>x \<in> set ps. hd delim \<notin> set x"
  shows "php3_explode delim (join delim ps) = Some (Some ps)"
  using explode_join_loop [OF assms, where p = 0 and s = "join delim ps" and arr = "[]"]
    assms(1) by (simp add: php3_explode_def)

text \<open>\<open>implode\<close> is the join of the elements that are there.\<close>

fun present :: "'a option list \<Rightarrow> 'a list" where
  "present [] = []"
| "present (None # xs) = present xs"
| "present (Some x # xs) = x # present xs"

lemma implode_size_eq:
  "0 \<le> count \<Longrightarrow> count + int (length (present arr)) < 2 ^ 31 \<Longrightarrow>
    implode_size d arr (wrap_int len) count =
    (wrap_int (len + (\<Sum>x \<leftarrow> present arr. int (length x) + d) - (if count = 0 \<and> present arr \<noteq> [] then d else 0)),
     count + int (length (present arr)))"
proof (induction arr arbitrary: len count rule: present.induct)
  case (3 x xs)
  have c: "wrap_int (count + 1) = count + 1" using "3.prems" by (intro wrap_int_id) simp_all
  have "implode_size d (Some x # xs) (wrap_int len) count =
      implode_size d xs (wrap_int (len + int (length x) + (if count > 0 then d else 0))) (count + 1)"
    by (simp add: wrap_int_add Let_def c)
  also have "\<dots> = (wrap_int (len + int (length x) + (if count > 0 then d else 0) + (\<Sum>x \<leftarrow> present xs. int (length x) + d)),
      count + 1 + int (length (present xs)))"
    using "3.prems" by (subst "3.IH") simp_all
  finally show ?case using "3.prems"(1) by (auto simp: algebra_simps)
qed simp_all

lemma implode_cat_eq:
  "count = int (length (present arr)) \<Longrightarrow> count < 2 ^ 31 \<Longrightarrow>
    implode_cat delim arr count buf = buf @ join (cstr delim) (map cstr (present arr))"
proof (induction delim arr count buf rule: implode_cat.induct)
  case (3 delim s arr count buf)
  have "wrap_int (count - 1) = int (length (present arr))" using "3.prems" by (subst wrap_int_id) simp_all
  with 3 show ?case
    by (cases "present arr") (auto simp: Let_def)
qed simp_all

lemma join_length:
  "ps \<noteq> [] \<Longrightarrow> length (join glue ps) + length glue = (\<Sum>x \<leftarrow> ps. length x + length glue)"
  by (induction glue ps rule: join.induct) auto

lemma implode_ok:
  assumes "length (present arr) < 2 ^ 31"
  shows "php3_implode delim arr =
    (let buf = join (cstr delim) (map cstr (present arr)); len = wrap_int (int (length (join delim (present arr))))
     in if 0 \<le> len \<and> length buf < nat len + 1 then Some (buf, nat len) else None)"
proof -
  have "(\<Sum>x \<leftarrow> ps. int (length x) + int (length delim)) - (if ps \<noteq> [] then int (length delim) else 0) = int (length (join delim ps))"
    for ps :: "char list list"
  proof -
    have "(\<Sum>x \<leftarrow> ps. int (length x) + int (length delim)) = int (\<Sum>x \<leftarrow> ps. length x + length delim)" by (induction ps) auto
    then show ?thesis using join_length [of ps delim] by (cases "ps = []") auto
  qed
  from this [of "present arr"] implode_size_eq [of 0 arr "int (length delim)" 0] assms show ?thesis
    by (simp add: php3_implode_def implode_cat_eq wrap_int_id Let_def)
qed

text \<open>Strings without a NUL: the join, when its length is an \<open>int\<close>.\<close>

lemma implode_join:
  assumes "length xs < 2 ^ 31" "\<forall>x \<in> set xs. NUL \<notin> set x" "NUL \<notin> set delim"
  shows "php3_implode delim (map Some xs) =
    (if length (join delim xs) < 2 ^ 31 then Some (join delim xs, length (join delim xs)) else None)"
proof -
  have p: "present (map Some xs) = xs" for xs :: "char list list" by (induction xs) auto
  have c: "join (cstr delim) (map cstr xs) = join delim xs" using assms(2,3) by (simp add: cstr_id map_idI)
  let ?n = "length (join delim xs)"
  have "wrap_int (int ?n) = int ?n" if "?n < 2 ^ 31" using that by (intro wrap_int_id) simp_all
  moreover have "wrap_int (int ?n) < int ?n" if "\<not> ?n < 2 ^ 31" using that wrap_int_less [of "int ?n"] by simp
  ultimately show ?thesis using implode_ok [of "map Some xs" delim] assms(1) unfolding p c
    by (cases "?n < 2 ^ 31") (auto simp: Let_def)
qed

lemma join_pieces: "delim \<noteq> [] \<Longrightarrow> length ps \<le> length (join delim ps) + 1"
proof (induction delim ps rule: join.induct)
  case (3 delim x y ys)
  then show ?case by (cases delim) auto
qed simp_all

subsection \<open>Replacing\<close>

lemma occurs_single: "occurs_at s [c] i \<longleftrightarrow> i < length s \<and> s ! i = c"
  by (cases "i < length s") (auto simp: occurs_at_def take_Suc_conv_app_nth hd_drop_conv_nth Suc_le_eq
      simp flip: Cons_nth_drop_Suc)

lemma contains_single: "contains s [c] \<longleftrightarrow> c \<in> set s"
  by (auto simp: contains_def occurs_single in_set_conv_nth)

lemma char_to_str_join:
  assumes "\<forall>x \<in> set ps. c \<notin> set x" "ps \<noteq> []"
  shows "char_to_str (join [c] ps) c rep = join rep ps"
proof -
  have no: "concat (map (\<lambda>d. if d = c then rep else [d]) x) = x" if "c \<notin> set x" for x
    using that by (induction x) auto
  have "concat (map (\<lambda>d. if d = c then rep else [d]) (join [c] ps)) = join rep ps"
    using assms by (induction "[c]" ps rule: join.induct) (auto simp: no)
  moreover have "concat (map (\<lambda>d. if d = c then rep else [d]) (join [c] ps)) = join [c] ps"
    if "count_list (join [c] ps) c = 0"
    using that by (intro no) (simp add: count_list_0_iff)
  ultimately show ?thesis by (simp add: char_to_str_def)
qed

lemma char_to_str_length: "int (length (char_to_str s c rep)) = char_to_str_len s c rep"
proof -
  have "int (length (concat (map (\<lambda>d. if d = c then rep else [d]) s))) =
      int (length s) + int (count_list s c) * (int (length rep) - 1)"
    by (induction s) (auto simp: algebra_simps)
  then show ?thesis by (simp add: char_to_str_def char_to_str_len_def)
qed

subsection \<open>The case-insensitive search\<close>

lemma match_ci_prefix:
  "match_ci xs ys = [] \<longleftrightarrow> length ys \<le> length xs \<and> map ttolower (take (length ys) xs) = map ttolower ys"
  by (induction xs ys rule: match_ci.induct) auto

definition occurs_ci :: "char list \<Rightarrow> char list \<Rightarrow> nat \<Rightarrow> bool" where
  "occurs_ci s t i \<longleftrightarrow>
    i < length s \<and> i + length t \<le> length s \<and> map ttolower (take (length t) (drop i s)) = map ttolower t"

lemma stristr_loop_ok:
  "stristr_loop xs t i =
    (if \<exists>k. occurs_ci xs t k then Some (i + (LEAST k. occurs_ci xs t k)) else None)"
proof (induction xs arbitrary: i)
  case Nil
  then show ?case by (simp add: occurs_ci_def)
next
  case (Cons x xs)
  have shift: "occurs_ci (x # xs) t (Suc k) = occurs_ci xs t k" for k by (simp add: occurs_ci_def)
  have zero: "occurs_ci (x # xs) t 0 \<longleftrightarrow> match_ci (x # xs) t = []"
    unfolding match_ci_prefix by (auto simp: occurs_ci_def)
  show ?case
  proof (cases "occurs_ci (x # xs) t 0")
    case True
    then have "(LEAST k. occurs_ci (x # xs) t k) = 0" by (rule Least_eq_0)
    with True show ?thesis by (auto simp: zero [symmetric])
  next
    case False
    have ex: "(\<exists>k. occurs_ci (x # xs) t k) \<longleftrightarrow> (\<exists>k. occurs_ci xs t k)"
      using False by (metis shift not0_implies_Suc)
    have "(LEAST k. occurs_ci (x # xs) t k) = Suc (LEAST k. occurs_ci xs t k)" if "occurs_ci xs t k" for k
      using Least_Suc [of "occurs_ci (x # xs) t" "Suc k"] that False by (simp add: shift)
    with False Cons ex show ?thesis by (auto simp: zero [symmetric])
  qed
qed

lemma last_index_Some:
  "last_index xs c = Some i \<Longrightarrow> i < length xs \<and> xs ! i = c \<and> c \<notin> set (drop (Suc i) xs)"
proof (induction xs arbitrary: i)
  case (Cons x xs)
  have none: "last_index ys d = None \<longleftrightarrow> d \<notin> set ys" for ys :: "char list" and d
    by (induction ys) (auto split: option.splits)
  from Cons show ?case by (auto split: option.splits if_splits simp: none)
qed simp

lemma last_index_None: "last_index xs c = None \<longleftrightarrow> c \<notin> set xs"
  by (induction xs) (auto split: option.splits)

subsection \<open>What the functions do\<close>

text \<open>
  \<open>strpos\<close> returns the first position at or after the offset at which a non-empty needle (or
  the character an integer needle stands for) occurs, and -1 exactly when there is none.
\<close>

lemma strpos_first_facts:
  assumes "0 \<le> offset" "ndl = Str_needle pat \<and> pat \<noteq> [] \<or> ndl = Long_needle i \<and> pat = [char_of_int i]"
  obtains r where "php3_strpos hay ndl offset = Some r"
    "r = - 1 \<and> (\<forall>k \<ge> nat offset. \<not> occurs_at hay pat k) \<or>
     offset \<le> r \<and> occurs_at hay pat (nat r) \<and> (\<forall>k. nat offset \<le> k \<and> k < nat r \<longrightarrow> \<not> occurs_at hay pat k)"
proof -
  have ne: "pat \<noteq> []" using assms(2) by auto
  have eq: "php3_strpos hay ndl offset =
      Some (case memnstr hay pat (nat offset) of Some p \<Rightarrow> int p | None \<Rightarrow> - 1)"
    using assms by (auto simp: php3_strpos_def)
  show ?thesis
  proof (cases "memnstr hay pat (nat offset)")
    case None
    with that [of "- 1"] eq memnstr_None [OF ne None] show ?thesis by simp
  next
    case (Some p)
    note m = memnstr_Some [OF ne Some]
    from that [of "int p"] eq Some m assms(1) show ?thesis by (simp add: nat_le_iff)
  qed
qed

text \<open>
  \<open>explode\<close> with a non-empty delimiter returns pieces that do not contain the delimiter, and
  \<open>implode\<close> puts them together again; the other way round, imploding pieces free of the delimiter's
  first character and exploding the result gives the pieces back. (\<open>implode\<close> copies with \<open>strcat\<close>, so
  the strings must not contain a NUL byte.)
\<close>

lemma explode_implode_facts:
  assumes "delim \<noteq> []" "NUL \<notin> set delim"
  shows "\<exists>ps. php3_explode delim s = Some (Some ps) \<and> (\<forall>x \<in> set ps. \<not> contains x delim) \<and>
      (NUL \<notin> set s \<and> length s < 2 ^ 31 - 1 \<longrightarrow> php3_implode delim (map Some ps) = Some (s, length s))"
    and "qs \<noteq> [] \<Longrightarrow> length qs < 2 ^ 31 \<Longrightarrow> \<forall>x \<in> set qs. hd delim \<notin> set x \<and> NUL \<notin> set x \<Longrightarrow>
      php3_implode delim (map Some qs) = Some (t, n) \<Longrightarrow> php3_explode delim t = Some (Some qs) \<and> length t = n"
proof -
  note imp = implode_join [OF _ _ assms(2)]
  have sub: "NUL \<notin> set (join delim xs) \<Longrightarrow> \<forall>x \<in> set xs. NUL \<notin> set x" for xs
    by (induction delim xs rule: join.induct) auto
  obtain ps where ps: "php3_explode delim s = Some (Some ps)" "join delim ps = s"
    "\<forall>x \<in> set ps. \<not> contains x delim" using explode_ok [OF assms(1)] by metis
  then show "\<exists>ps. php3_explode delim s = Some (Some ps) \<and> (\<forall>x \<in> set ps. \<not> contains x delim) \<and>
      (NUL \<notin> set s \<and> length s < 2 ^ 31 - 1 \<longrightarrow> php3_implode delim (map Some ps) = Some (s, length s))"
    using imp [of ps] sub [of ps] join_pieces [OF assms(1), of ps] by auto
  show "php3_explode delim t = Some (Some qs) \<and> length t = n"
    if "qs \<noteq> []" "length qs < 2 ^ 31" "\<forall>x \<in> set qs. hd delim \<notin> set x \<and> NUL \<notin> set x" "php3_implode delim (map Some qs) = Some (t, n)"
    using that imp [of qs] explode_join [OF assms(1), of qs] by (auto split: if_splits)
qed

text \<open>
  \<open>str_replace\<close> with a non-empty needle ends, and the special case of a needle of one character
  and the general one agree: both return the pieces \<open>explode\<close> cuts the string into, joined by the
  replacement; replacing the needle by itself changes nothing.
\<close>

lemma str_replace_joins_pieces_facts:
  assumes "ndl \<noteq> []"
  shows "\<exists>ps. php3_explode ndl hay = Some (Some ps) \<and>
      php3_str_replace hay ndl rep = Some (Some (if hay = [] then [] else join rep ps))"
    and "php3_str_replace hay ndl ndl = Some (Some hay)"
proof -
  obtain ps where ps: "php3_explode ndl hay = Some (Some ps)" "ps \<noteq> []" "join ndl ps = hay"
    "\<forall>x \<in> set ps. \<not> contains x ndl" "\<And>rep. str_to_str hay ndl rep 0 [] = Some (join rep ps)"
    using explode_ok [OF assms] by metis
  have main: "php3_str_replace hay ndl rep = Some (Some (if hay = [] then [] else join rep ps))" for rep
  proof (cases "length ndl = 1")
    case True
    then obtain c where c: "ndl = [c]" by (cases ndl) auto
    have "char_to_str hay c rep = join rep ps"
      unfolding ps(3) [unfolded c, symmetric]
      using ps(2,4) by (intro char_to_str_join) (auto simp: c contains_single)
    then show ?thesis by (simp add: php3_str_replace_def c)
  next
    case False
    with assms ps(5) show ?thesis by (simp add: php3_str_replace_def)
  qed
  then show "\<exists>ps. php3_explode ndl hay = Some (Some ps) \<and>
      php3_str_replace hay ndl rep = Some (Some (if hay = [] then [] else join rep ps))"
    using ps(1) by blast
  show "php3_str_replace hay ndl ndl = Some (Some hay)" using main [of ndl] ps(3) by simp
qed

text \<open>
  \<open>stristr\<close> returns the rest of the string from the first position at which the needle occurs up
  to case, and false exactly when there is none; \<open>strrpos\<close> returns the last position of the character,
  and \<open>strrchr\<close> the rest from there.
\<close>

lemma stristr_strrpos_facts:
  "cstr ndl \<noteq> [] \<Longrightarrow> php3_stristr hay ndl =
    (if \<exists>k. occurs_ci (cstr hay) (cstr ndl) k
     then Some (drop (LEAST k. occurs_ci (cstr hay) (cstr ndl) k) (cstr hay)) else None)"
  "NUL \<notin> set hay \<Longrightarrow> needle_char n = c \<Longrightarrow> c \<noteq> NUL \<Longrightarrow>
    (c \<notin> set hay \<longrightarrow> php3_strrpos hay n = None \<and> php3_strrchr hay n = None) \<and>
    (c \<in> set hay \<longrightarrow> (\<exists>i. php3_strrpos hay n = Some (int i) \<and> php3_strrchr hay n = Some (drop i hay) \<and>
      i < length hay \<and> hay ! i = c \<and> c \<notin> set (drop (Suc i) hay)))"
proof -
  show "cstr ndl \<noteq> [] \<Longrightarrow> php3_stristr hay ndl =
    (if \<exists>k. occurs_ci (cstr hay) (cstr ndl) k
     then Some (drop (LEAST k. occurs_ci (cstr hay) (cstr ndl) k) (cstr hay)) else None)"
    by (simp add: php3_stristr_def php3i_stristr_def stristr_loop_ok)
  assume *: "NUL \<notin> set hay" "needle_char n = c" "c \<noteq> NUL"
  have idx: "last_index (hay @ [NUL]) c = last_index hay c"
    using *(3) by (induction hay) (auto split: option.splits)
  show "(c \<notin> set hay \<longrightarrow> php3_strrpos hay n = None \<and> php3_strrchr hay n = None) \<and>
    (c \<in> set hay \<longrightarrow> (\<exists>i. php3_strrpos hay n = Some (int i) \<and> php3_strrchr hay n = Some (drop i hay) \<and>
      i < length hay \<and> hay ! i = c \<and> c \<notin> set (drop (Suc i) hay)))"
  proof (cases "last_index hay c")
    case None
    with * idx show ?thesis
      by (simp add: last_index_None php3_strrpos_def php3_strrchr_def c_strrchr_def cstr_id)
  next
    case (Some i)
    with last_index_Some [OF Some] last_index_None [of hay c] * idx show ?thesis
      by (auto simp: php3_strrpos_def php3_strrchr_def c_strrchr_def cstr_id intro!: exI [of _ i])
  qed
qed

lemma stristr_strrpos_example:
  "php3_stristr ''Hello World'' ''WO'' = Some ''World'' \<and>
    (\<exists>i. php3_strrpos ''a/b/c'' (Str_needle ''/'') = Some (int i) \<and> ''a/b/c'' ! i = CHR ''/'')"
proof
  have occ: "occurs_ci (cstr ''Hello World'') (cstr ''WO'') 6" by code_simp
  have "\<forall>k \<in> set [0..<6]. \<not> occurs_ci (cstr ''Hello World'') (cstr ''WO'') k" by code_simp
  then have "(LEAST k. occurs_ci (cstr ''Hello World'') (cstr ''WO'') k) = 6"
    using occ by (intro Least_equality) (auto simp: not_less [symmetric])
  moreover have "cstr ''WO'' \<noteq> []" "drop 6 (cstr ''Hello World'') = ''World''" by code_simp+
  ultimately show "php3_stristr ''Hello World'' ''WO'' = Some ''World''"
    using stristr_strrpos_facts(1) [of "''WO''" "''Hello World''"] occ by auto
  show "\<exists>i. php3_strrpos ''a/b/c'' (Str_needle ''/'') = Some (int i) \<and> ''a/b/c'' ! i = CHR ''/''"
    using stristr_strrpos_facts(2) [of "''a/b/c''" "Str_needle ''/''" "CHR ''/''"]
    by (auto simp: needle_char_def)
qed

end
