(* ===== verification/Str_Edit.thy ===== *)
theory Str_Edit
  imports Str_Search
begin

text \<open>
  Editing of strings, from \<^verbatim>\<open>functions/string.c\<close>: trimming, letter case, path components, chunks,
  substrings, translation and reversal. A function that works in the argument's own buffer is given
  the buffer and returns it; \<open>RETVAL_STRING\<close> copies up to the first NUL byte (\<open>cstr\<close>). \<open>None\<close> as the
  outer result is an access outside the string.
\<close>

subsection \<open>Trimming\<close>

definition is_trimmed :: "char \<Rightarrow> bool" where
  "is_trimmed c \<longleftrightarrow> uchar c = 32 \<or> uchar c = 10 \<or> uchar c = 13 \<or> uchar c = 9 \<or> uchar c = 11 \<or> uchar c = 0"

text \<open>The loop that counts \<open>trimmed\<close> upwards, and the one that lowers \<open>len\<close> from \<open>i + 1\<close>.\<close>

fun trim_front :: "char list \<Rightarrow> nat" where
  "trim_front [] = 0"
| "trim_front (c # cs) = (if is_trimmed c then Suc (trim_front cs) else 0)"

fun trim_back :: "char list \<Rightarrow> nat \<Rightarrow> nat" where
  "trim_back c 0 = 0"
| "trim_back c (Suc i) = (if is_trimmed (c ! i) then trim_back c i else Suc i)"

definition php3_chop :: "char list \<Rightarrow> char list" where
  "php3_chop s = take (trim_back s (length s)) s"

definition php3_trim :: "char list \<Rightarrow> char list" where
  "php3_trim s =
     (let trimmed = trim_front s; len = length s - trimmed; c = drop trimmed s
      in take (trim_back c len) c)"

definition php3_ltrim :: "char list \<Rightarrow> char list" where
  "php3_ltrim s = (let trimmed = trim_front s in take (length s - trimmed) (drop trimmed s))"

subsection \<open>Letter case\<close>

text \<open>The loops stop at the first NUL byte of the buffer.\<close>

fun map_buffer :: "(char \<Rightarrow> char) \<Rightarrow> char list \<Rightarrow> char list" where
  "map_buffer f [] = []"
| "map_buffer f (c # cs) = (if c = NUL then c # cs else f c # map_buffer f cs)"

definition strtoupper :: "char list \<Rightarrow> char list" where
  "strtoupper s = map_buffer ttoupper s"

definition strtolower :: "char list \<Rightarrow> char list" where
  "strtolower s = map_buffer ttolower s"

definition php3_strtoupper :: "char list \<Rightarrow> char list" where
  "php3_strtoupper arg = cstr (strtoupper arg)"

definition php3_strtolower :: "char list \<Rightarrow> char list" where
  "php3_strtolower arg = cstr (strtolower arg)"

text \<open>
  The first character of the buffer (the NUL after it when the string is empty) is replaced, then
  \<open>ucwords\<close> follows the spaces found by \<open>strstr\<close>.
\<close>

definition upper_at :: "char list \<Rightarrow> nat \<Rightarrow> char list" where
  "upper_at s i = s[i := ttoupper (s ! i)]"

definition php3_ucfirst :: "char list \<Rightarrow> char list" where
  "php3_ucfirst s = cstr (upper_at s 0)"

function ucwords_loop :: "char list \<Rightarrow> nat \<Rightarrow> char list" where
  "ucwords_loop s r =
     (case c_strstr (drop r s) '' '' of
        None \<Rightarrow> s
      | Some k \<Rightarrow>
          if r + k + 1 < length s then ucwords_loop (upper_at s (r + k + 1)) (r + k + 1) else s)"
  by pat_completeness auto
termination
  by (relation "measure (\<lambda>(s, r). length s - r)") (auto simp: upper_at_def)

declare ucwords_loop.simps [simp del]

definition php3_ucwords :: "char list \<Rightarrow> char list" where
  "php3_ucwords s = ucwords_loop (upper_at (cstr s) 0) 0"

text \<open>\<open>ord\<close> of the empty string reads its NUL; \<open>chr\<close> stores \<open>n % 256\<close>, negative for negative \<open>n\<close>.\<close>

definition php3_ord :: "char list \<Rightarrow> int" where
  "php3_ord s = int (uchar (hd (s @ [NUL])))"

definition php3_chr :: "int \<Rightarrow> char list" where
  "php3_chr n = [char_of_int (c_mod n 256)]"

subsection \<open>Path components\<close>

text \<open>
  \<open>while (*c == '/') c--\<close> from offset \<open>n - 1\<close>; it reads before the string when there is nothing but
  slashes. The copy made by \<open>estrdup\<close> ends at the first NUL byte, the start position does not.
\<close>

fun strip_slashes :: "char list \<Rightarrow> nat \<Rightarrow> nat option" where
  "strip_slashes buf 0 = None"
| "strip_slashes buf (Suc i) =
     (if i < length buf then if buf ! i = CHR ''/'' then strip_slashes buf i else Some (Suc i) else None)"

definition stripped :: "char list \<Rightarrow> char list option" where
  "stripped s =
     (let ret = cstr s @ [NUL]
      in do { n \<leftarrow> strip_slashes ret (length s);
              if n < length ret then Some (cstr (ret[n := NUL])) else None })"

definition php3_basename :: "char list \<Rightarrow> char list option" where
  "php3_basename s =
     do { ret \<leftarrow> stripped s;
          Some (case c_strrchr ret (CHR ''/'') of
                  Some c \<Rightarrow> drop (c + 1) ret
                | None \<Rightarrow> cstr s) }"

text \<open>\<open>_php3_dirname\<close> cuts its buffer; \<open>Some None\<close> is false.\<close>

definition dirname_buf :: "char list \<Rightarrow> char list option" where
  "dirname_buf s =
     do { ret \<leftarrow> stripped s;
          Some (case c_strrchr ret (CHR ''/'') of Some c \<Rightarrow> take c ret | None \<Rightarrow> []) }"

definition php3_dirname :: "char list \<Rightarrow> char list option option" where
  "php3_dirname s = do { ret \<leftarrow> dirname_buf s; Some (if ret \<noteq> [] then Some ret else None) }"

subsection \<open>Chunks\<close>

text \<open>The loop over the complete chunks; a negative chunk length is a negative size for \<open>memcpy\<close>.\<close>

function chunk_loop :: "char list \<Rightarrow> char list \<Rightarrow> nat \<Rightarrow> nat \<Rightarrow> char list \<Rightarrow> nat \<times> char list" where
  "chunk_loop src ending chunklen p q =
     (if 0 < chunklen \<and> p + chunklen < length src + 1
      then chunk_loop src ending chunklen (p + chunklen) (q @ take chunklen (drop p src) @ ending)
      else (p, q))"
  by pat_completeness auto
termination
  by (relation "measure (\<lambda>(src, e, n, p, q). length src + 1 - p)") auto

declare chunk_loop.simps [simp del]

text \<open>The characters written, and the size of the block allocated for them.\<close>

definition chunk_split :: "char list \<Rightarrow> char list \<Rightarrow> nat \<Rightarrow> char list \<times> nat" where
  "chunk_split src ending chunklen =
     (let srclen = length src; chunks = srclen div chunklen; restlen = srclen - chunks * chunklen;
          size = srclen + (chunks + 1) * length ending + 1;
          (p, q) = chunk_loop src ending chunklen 0 []
      in (if restlen \<noteq> 0 then q @ take restlen (drop p src) @ ending else q, size))"

definition php3_chunk_split :: "char list \<Rightarrow> int \<Rightarrow> char list \<Rightarrow> char list option option" where
  "php3_chunk_split src chunklen ending =
     (let chunklen' = wrap_int chunklen
      in if chunklen' = 0 then Some None
         else if chunklen' < 0 then None
         else Some (Some (fst (chunk_split src ending (nat chunklen')))))"

subsection \<open>Substrings\<close>

text \<open>
  \<open>f\<close> and \<open>l\<close> are ints; \<open>(len - f) + l\<close> and \<open>f + l\<close> may overflow, which is undefined behaviour (\<open>None\<close>).
  \<open>argc\<close> is a local variable that is never initialised: an argument here. \<open>Some None\<close> is false.
\<close>

definition substr_from :: "nat \<Rightarrow> int \<Rightarrow> int" where
  "substr_from len f = (if f < 0 then if int len + f < 0 then 0 else int len + f else f)"

definition substr_len :: "nat \<Rightarrow> int \<Rightarrow> int \<Rightarrow> int option" where
  "substr_len len f l =
     (if l < 0 then
        if int len - f + l < - 2147483648 then None
        else Some (if int len - f + l < 0 then 0 else int len - f + l)
      else Some l)"

definition php3_substr :: "int \<Rightarrow> char list \<Rightarrow> int \<Rightarrow> int \<Rightarrow> char list option option" where
  "php3_substr argc s from len =
     (let f = substr_from (length s) (wrap_int from)
      in do {
        l \<leftarrow> substr_len (length s) f (if argc = 2 then int (length s) else wrap_int len);
        if f \<ge> int (length s) then Some None
        else if f + l > 2147483647 then None
        else let l' = (if f + l > int (length s) then int (length s) - f else l)
             in Some (Some (take (nat l') (drop (nat f) s)))
      })"

subsection \<open>Translation and reversal\<close>

text \<open>The table is indexed by the unsigned character; later entries overwrite earlier ones.\<close>

fun fill_xlat :: "char list \<Rightarrow> char list \<Rightarrow> (char \<Rightarrow> char) \<Rightarrow> char \<Rightarrow> char" where
  "fill_xlat (f # fs) (t # ts) xlat = fill_xlat fs ts (xlat(f := t))"
| "fill_xlat _ _ xlat = xlat"

definition strtr :: "char list \<Rightarrow> char list \<Rightarrow> char list \<Rightarrow> nat \<Rightarrow> char list" where
  "strtr str str_from str_to trlen =
     (if trlen < 1 \<or> length str < 1 then str
      else map (fill_xlat (take trlen str_from) (take trlen str_to) (\<lambda>c. c)) str)"

definition php3_strtr :: "char list \<Rightarrow> char list \<Rightarrow> char list \<Rightarrow> char list" where
  "php3_strtr str from to = cstr (strtr str from to (min (length from) (length to)))"

function strrev_loop :: "char list \<Rightarrow> nat \<Rightarrow> char list" where
  "strrev_loop val i =
     (if int i < int (length val) - 1 - int i
      then strrev_loop (val[i := val ! (length val - 1 - i), length val - 1 - i := val ! i]) (i + 1)
      else val)"
  by pat_completeness auto
termination
  by (relation "measure (\<lambda>(val, i). length val - i)") auto

declare strrev_loop.simps [simp del]

definition php3_strrev :: "char list \<Rightarrow> char list" where
  "php3_strrev s = strrev_loop s 0"

subsection \<open>Facts on the loops\<close>

lemma trim_front_eq: "trim_front s = length (takeWhile is_trimmed s)"
  by (induction s) auto

lemma ltrim_eq: "php3_ltrim s = dropWhile is_trimmed s"
  by (simp add: php3_ltrim_def Let_def trim_front_eq dropWhile_eq_drop)

lemma trim_back_eq: "n \<le> length s \<Longrightarrow> take (trim_back s n) s = rev (dropWhile is_trimmed (rev (take n s)))"
proof (induction n)
  case (Suc n)
  then have "take (Suc n) s = take n s @ [s ! n]" by (intro take_Suc_conv_app_nth) simp
  with Suc show ?case by simp
qed simp

lemma chop_eq: "php3_chop s = rev (dropWhile is_trimmed (rev s))"
  using trim_back_eq [of "length s" s] by (simp add: php3_chop_def)

lemma trim_eq: "php3_trim s = php3_chop (php3_ltrim s)"
proof -
  have "take (length s - trim_front s) (drop (trim_front s) s) = drop (trim_front s) s" by simp
  then show ?thesis by (simp add: php3_trim_def php3_ltrim_def php3_chop_def Let_def)
qed

lemma chop_split:
  obtains r where "s = php3_chop s @ r" "\<forall>c \<in> set r. is_trimmed c"
proof (rule that)
  have "rev (rev s) = rev (takeWhile is_trimmed (rev s) @ dropWhile is_trimmed (rev s))" by simp
  then show "s = php3_chop s @ rev (takeWhile is_trimmed (rev s))"
    unfolding chop_eq rev_append by simp
  show "\<forall>c \<in> set (rev (takeWhile is_trimmed (rev s))). is_trimmed c" by (auto dest: set_takeWhileD)
qed

lemma chop_last: "php3_chop s \<noteq> [] \<Longrightarrow> \<not> is_trimmed (last (php3_chop s))"
  unfolding chop_eq by (simp add: last_rev hd_dropWhile)

lemma chop_id: "s = [] \<or> \<not> is_trimmed (last s) \<Longrightarrow> php3_chop s = s"
proof -
  assume "s = [] \<or> \<not> is_trimmed (last s)"
  then have "dropWhile is_trimmed (rev s) = rev s" by (cases s rule: rev_cases) auto
  then show ?thesis by (simp add: chop_eq)
qed

lemma uchar_ttoupper:
  "uchar (ttoupper c) = (if 97 \<le> uchar c \<and> uchar c \<le> 122 then uchar c - 32 else uchar c)"
  by (auto simp: ttoupper_def)

lemma uchar_ttolower:
  "uchar (ttolower c) = (if 65 \<le> uchar c \<and> uchar c \<le> 90 then uchar c + 32 else uchar c)"
  by (auto simp: ttolower_def)

lemma char_eqI: "uchar c = uchar d \<Longrightarrow> c = d"
  by simp

lemma case_idem [simp]:
  "ttoupper (ttoupper c) = ttoupper c" "ttoupper (ttolower c) = ttoupper c"
  "ttolower (ttoupper c) = ttolower c" "ttolower (ttolower c) = ttolower c"
  by (rule char_eqI, auto simp: uchar_ttoupper uchar_ttolower split: if_splits)+

lemma case_fixed [simp]:
  "ttoupper c = NUL \<longleftrightarrow> c = NUL" "ttolower c = NUL \<longleftrightarrow> c = NUL" "ttoupper c = CHR '' '' \<longleftrightarrow> c = CHR '' ''"
proof -
  have space: "uchar (CHR '' '') = 32" by code_simp
  show "ttoupper c = NUL \<longleftrightarrow> c = NUL" "ttolower c = NUL \<longleftrightarrow> c = NUL" "ttoupper c = CHR '' '' \<longleftrightarrow> c = CHR '' ''"
    unfolding uchar_inject [symmetric] uchar_ttoupper uchar_ttolower space uchar_NUL by auto
qed

lemma cstr_map_buffer: "(\<And>c. f c = NUL \<longleftrightarrow> c = NUL) \<Longrightarrow> cstr (map_buffer f s) = map f (cstr s)"
  by (induction s) (auto simp: cstr_def)

lemma strtoupper_eq: "php3_strtoupper s = map ttoupper (cstr s)"
  by (simp add: php3_strtoupper_def strtoupper_def cstr_map_buffer)

lemma strtolower_eq: "php3_strtolower s = map ttolower (cstr s)"
  by (simp add: php3_strtolower_def strtolower_def cstr_map_buffer)

text \<open>The words of \<open>ucwords\<close>: a character is raised at the start and after a space.\<close>

fun raise_words :: "bool \<Rightarrow> char list \<Rightarrow> char list" where
  "raise_words b [] = []"
| "raise_words b (c # cs) = (if b then ttoupper c else c) # raise_words (c = CHR '' '') cs"

lemma c_strstr_char: "c_strstr s [c] = memchr s c"
  by (induction s) (auto simp: c_strstr.simps)

lemma memchr_split:
  "memchr xs c = Some k \<Longrightarrow> xs = take k xs @ c # drop (Suc k) xs \<and> c \<notin> set (take k xs) \<and> k < length xs"
proof (induction xs arbitrary: k)
  case (Cons x xs)
  then show ?case by (cases k) (auto split: if_splits)
qed simp

lemma raise_words_skip:
  "CHR '' '' \<notin> set a \<Longrightarrow> raise_words False (a @ CHR '' '' # b) = a @ CHR '' '' # raise_words True b"
  by (induction a) auto

lemma raise_words_none: "CHR '' '' \<notin> set a \<Longrightarrow> raise_words False a = a"
  by (induction a) auto

lemma ucwords_loop_ok: "r \<le> length s \<Longrightarrow> ucwords_loop s r = take r s @ raise_words False (drop r s)"
proof (induction s r rule: ucwords_loop.induct)
  case (1 s r)
  show ?case
  proof (cases "memchr (drop r s) (CHR '' '')")
    case None
    then show ?thesis
      by (subst ucwords_loop.simps) (simp add: c_strstr_char raise_words_none memchr_None [THEN iffD1])
  next
    case (Some k)
    define a where "a = take k (drop r s)"
    define b where "b = drop (r + k + 1) s"
    have m: "drop r s = a @ CHR '' '' # b" "CHR '' '' \<notin> set a" "k < length s - r"
      using memchr_split [OF Some] by (auto simp: a_def b_def ac_simps)
    have len: "length a = k" using m(3) by (simp add: a_def)
    have s: "s = take r s @ a @ CHR '' '' # b" unfolding m(1) [symmetric] by simp
    note rw = m(1) raise_words_skip [OF m(2)]
    show ?thesis
    proof (cases b)
      case Nil
      then have "\<not> r + k + 1 < length s" by (simp add: b_def)
      with Some Nil show ?thesis
        by (subst ucwords_loop.simps) (simp add: c_strstr_char rw, subst s, simp)
    next
      case (Cons c b')
      then have lt: "r + k + 1 < length s" by (metis b_def drop_eq_Nil list.distinct(1) not_le)
      define u where "u = take r s @ a @ [CHR '' '']"
      have lu: "length u = r + k + 1" using 1(2) len by (simp add: u_def)
      have su: "s = u @ c # b'" using s Cons by (simp add: u_def)
      have up: "upper_at s (r + k + 1) = u @ ttoupper c # b'"
        unfolding upper_at_def su lu [symmetric] by simp
      have "ucwords_loop s r = ucwords_loop (upper_at s (r + k + 1)) (r + k + 1)"
        using Some lt by (subst ucwords_loop.simps) (simp add: c_strstr_char)
      also have "\<dots> = u @ raise_words False (ttoupper c # b')"
      proof -
        have "c_strstr (drop r s) '' '' = Some k" using Some by (simp add: c_strstr_char)
        from 1(1) [OF this lt] lt have "ucwords_loop (upper_at s (r + k + 1)) (r + k + 1) =
            take (r + k + 1) (upper_at s (r + k + 1)) @ raise_words False (drop (r + k + 1) (upper_at s (r + k + 1)))"
          by (simp add: upper_at_def)
        then show ?thesis unfolding up unfolding lu [symmetric] by simp
      qed
      finally show ?thesis using Cons by (simp add: rw u_def)
    qed
  qed
qed

lemma ucwords_eq: "php3_ucwords s = raise_words True (cstr s)"
proof (cases "cstr s")
  case Nil
  then show ?thesis by (simp add: php3_ucwords_def upper_at_def ucwords_loop_ok)
next
  case (Cons c cs)
  then show ?thesis by (simp add: php3_ucwords_def upper_at_def ucwords_loop_ok)
qed

text \<open>Trailing slashes: nothing but slashes is read past, otherwise the rest is cut off.\<close>

lemma strip_slashes_ok:
  assumes "b \<noteq> []" "last b \<noteq> CHR ''/''"
  shows "strip_slashes (b @ replicate n (CHR ''/'') @ r) (length b + n) = Some (length b)"
proof (induction n arbitrary: r)
  case 0
  from assms obtain b' c where "b = b' @ [c]" "c \<noteq> CHR ''/''" by (cases b rule: rev_cases) auto
  then show ?case by (simp add: nth_append)
next
  case (Suc n)
  have "replicate (Suc n) (CHR ''/'') @ r = replicate n (CHR ''/'') @ CHR ''/'' # r"
    by (simp add: replicate_app_Cons_same)
  with Suc [of "CHR ''/'' # r"] show ?case by (simp add: nth_append)
qed

lemma strip_slashes_fault: "strip_slashes (replicate n (CHR ''/'') @ r) n = None"
proof (induction n arbitrary: r)
  case (Suc n)
  have "replicate (Suc n) (CHR ''/'') @ r = replicate n (CHR ''/'') @ CHR ''/'' # r"
    by (simp add: replicate_app_Cons_same)
  with Suc [of "CHR ''/'' # r"] show ?case by (simp add: nth_append)
qed simp

lemma stripped_ok:
  assumes "b \<noteq> []" "last b \<noteq> CHR ''/''" "NUL \<notin> set b"
  shows "stripped (b @ replicate n (CHR ''/'')) = Some b"
proof -
  let ?s = "b @ replicate n (CHR ''/'')"
  have c: "cstr ?s = ?s" using assms(3) by (intro cstr_id) auto
  have "(?s @ [NUL])[length b := NUL] = b @ NUL # tl (replicate n (CHR ''/'') @ [NUL])"
    by (cases n) (simp_all add: list_update_append)
  with strip_slashes_ok [OF assms(1,2), of n "[NUL]"] assms(3) show ?thesis
    by (simp add: stripped_def c cstr_append_NUL)
qed

lemma last_index_snoc:
  assumes "c \<notin> set b"
  shows "last_index (a @ c # b) c = Some (length a)"
proof -
  have "last_index b c = None" using assms by (simp add: last_index_None)
  then show ?thesis by (induction a) auto
qed

lemma chunk_loop_ok:
  assumes "0 < n" "p \<le> length src"
  shows "\<exists>cs p'. chunk_loop src e n p q = (p', q @ concat (map (\<lambda>c. c @ e) cs)) \<and>
    drop p src = concat cs @ drop p' src \<and> p' = p + n * length cs \<and> p' \<le> length src \<and>
    length src - p' < n \<and> (\<forall>c \<in> set cs. length c = n)"
  using assms(2)
proof (induction "length src - p" arbitrary: p q rule: less_induct)
  case less
  show ?case
  proof (cases "p + n < length src + 1")
    case False
    with less.prems show ?thesis
      by (intro exI [of _ "[]"] exI [of _ p]) (simp add: chunk_loop.simps [of src e n p])
  next
    case True
    let ?c = "take n (drop p src)"
    have step: "chunk_loop src e n p q = chunk_loop src e n (p + n) (q @ ?c @ e)"
      using True assms(1) by (simp add: chunk_loop.simps [of src e n p])
    have d: "drop p src = ?c @ drop (p + n) src"
      by (metis add.commute append_take_drop_id drop_drop)
    have "length src - (p + n) < length src - p" "p + n \<le> length src" using True assms(1) by auto
    from less.hyps [OF this, of "q @ ?c @ e"] obtain cs p' where cs:
      "chunk_loop src e n (p + n) (q @ ?c @ e) = (p', (q @ ?c @ e) @ concat (map (\<lambda>c. c @ e) cs))"
      "drop (p + n) src = concat cs @ drop p' src" "p' = p + n + n * length cs" "p' \<le> length src"
      "length src - p' < n" "\<forall>c \<in> set cs. length c = n" by blast
    have "length ?c = n" using True by simp
    then show ?thesis
      using cs d step by (intro exI [of _ "?c # cs"] exI [of _ p']) auto
  qed
qed

lemma chunk_split_ok:
  assumes "0 < n" "chunk_split src e n = (out, sz)"
  shows "\<exists>cs. concat cs = src \<and> out = concat (map (\<lambda>c. c @ e) cs) \<and>
    (\<forall>c \<in> set (butlast cs). length c = n) \<and> (\<forall>c \<in> set cs. 0 < length c \<and> length c \<le> n) \<and>
    length out + 1 \<le> sz"
proof -
  obtain cs p where cs: "chunk_loop src e n 0 [] = (p, concat (map (\<lambda>c. c @ e) cs))"
    "src = concat cs @ drop p src" "p = n * length cs" "p \<le> length src" "length src - p < n"
    "\<forall>c \<in> set cs. length c = n"
    using chunk_loop_ok [OF assms(1), of 0 src e "[]"] by auto
  have chunks: "length src div n = length cs"
    using cs(3-5) assms(1) by (intro div_nat_eqI) (auto simp: algebra_simps)
  have rest: "length src - length src div n * n = length src - p" using cs(3) chunks by (simp add: mult.commute)
  have outlen: "length (concat (map (\<lambda>c. c @ e) cs)) = p + length cs * length e"
  proof -
    have "length (concat (map (\<lambda>c. c @ e) cs)) = (n + length e) * length cs"
      using cs(6) by (induction cs) (auto simp: algebra_simps)
    then show ?thesis using cs(3) by (simp add: algebra_simps)
  qed
  show ?thesis
  proof (cases "length src - p = 0")
    case True
    then have "out = concat (map (\<lambda>c. c @ e) cs)" "sz = length src + (length cs + 1) * length e + 1"
      using assms(2) cs(1) rest chunks by (auto simp: chunk_split_def Let_def)
    moreover have "concat cs = src" using True cs(2) by simp
    ultimately show ?thesis using cs(6) assms(1) outlen cs(4)
      by (intro exI [of _ cs]) (auto dest: in_set_butlastD)
  next
    case False
    let ?r = "drop p src"
    have "out = concat (map (\<lambda>c. c @ e) (cs @ [?r]))" "sz = length src + (length cs + 1) * length e + 1"
      using assms(2) cs(1) rest chunks False by (auto simp: chunk_split_def Let_def)
    then show ?thesis using cs False outlen
      by (intro exI [of _ "cs @ [?r]"]) auto
  qed
qed

text \<open>What the table maps a character to: the entry at its last position.\<close>

definition translate :: "char list \<Rightarrow> char list \<Rightarrow> char \<Rightarrow> char" where
  "translate fs ts c = (case map_of (rev (zip fs ts)) c of None \<Rightarrow> c | Some t \<Rightarrow> t)"

lemma fill_xlat_eq:
  "length fs = length ts \<Longrightarrow> fill_xlat fs ts xlat c = (case map_of (rev (zip fs ts)) c of None \<Rightarrow> xlat c | Some t \<Rightarrow> t)"
  by (induction fs ts arbitrary: xlat rule: list_induct2) (auto simp: map_add_def split: option.splits)

lemma translate_in: "translate fs ts c \<in> insert c (set ts)"
  by (auto simp: translate_def split: option.splits dest!: map_of_SomeD set_zip_rightD)

lemma translate_other: "c \<notin> set fs \<Longrightarrow> translate fs ts c = c"
  by (auto simp: translate_def split: option.splits dest!: map_of_SomeD set_zip_leftD)

lemma translate_last:
  assumes "length fs = length ts" "i < length fs" "\<And>j. i < j \<Longrightarrow> j < length fs \<Longrightarrow> fs ! j \<noteq> fs ! i"
  shows "translate fs ts (fs ! i) = ts ! i"
proof -
  have sub: "i - length (zip (take i fs) (take i ts)) = 0" using assms(1,2) by simp
  have "zip fs ts = take i (zip fs ts) @ (fs ! i, ts ! i) # drop (Suc i) (zip fs ts)"
    using assms(1,2) id_take_nth_drop [of i "zip fs ts"] by simp
  moreover have "map_of (rev (drop (Suc i) (zip fs ts))) (fs ! i) = None"
  proof -
    have "fs ! i \<notin> fst ` set (drop (Suc i) (zip fs ts))"
    proof
      assume "fs ! i \<in> fst ` set (drop (Suc i) (zip fs ts))"
      then obtain k where "k < length fs - Suc i" "fs ! i = fs ! (Suc i + k)"
        using assms(1) by (auto simp: in_set_conv_nth)
      moreover from this have "Suc i + k < length fs" by linarith
      ultimately show False using assms(3) [of "Suc i + k"] by simp
    qed
    then show ?thesis by (simp add: map_of_eq_None_iff)
  qed
  moreover have "map_of (rev (A @ (k, v) # B)) k = Some v" if "map_of (rev B) k = None" for A B k and v :: char
    using that by (simp add: map_add_def)
  ultimately have "map_of (rev (zip fs ts)) (fs ! i) = Some (ts ! i)" by (metis (no_types))
  then show ?thesis by (simp add: translate_def)
qed

lemma strtr_eq:
  assumes "length fs = length ts" "NUL \<notin> set s \<union> set ts"
  shows "php3_strtr s fs ts = map (translate fs ts) s"
proof -
  have "translate fs ts c \<noteq> NUL" if "c \<in> set s" for c
    using translate_in [of fs ts c] that assms(2) by auto
  then have "NUL \<notin> set (map (translate fs ts) s)" by force
  moreover have "strtr s fs ts (min (length fs) (length ts)) = map (translate fs ts) s"
  proof (cases "fs = [] \<or> s = []")
    case True
    then show ?thesis using assms(1) by (auto simp: strtr_def translate_def map_idI)
  next
    case False
    then have "\<not> (min (length fs) (length ts) < 1 \<or> length s < 1)" using assms(1) by (auto simp: Suc_le_eq)
    then show ?thesis using assms(1) by (simp add: strtr_def translate_def fill_xlat_eq)
  qed
  ultimately show ?thesis by (simp add: php3_strtr_def cstr_id)
qed

lemma strrev_loop_ok:
  "length a = i \<Longrightarrow> length b = i \<Longrightarrow> strrev_loop (a @ m @ b) i = a @ rev m @ b"
proof (induction "length m" arbitrary: a b m i rule: less_induct)
  case less
  show ?case
  proof (cases "length m < 2")
    case True
    then have "rev m = m" by (cases m; cases "tl m") auto
    moreover have "strrev_loop (a @ m @ b) i = a @ m @ b"
      using True less.prems by (subst strrev_loop.simps) auto
    ultimately show ?thesis by simp
  next
    case False
    then obtain x m' y where m: "m = x # m' @ [y]"
      by (cases m; cases "tl m" rule: rev_cases) auto
    let ?v = "a @ m @ b"
    have last: "length ?v - 1 - i = i + Suc (length m')" using less.prems m by simp
    have swap: "?v[i := ?v ! (length ?v - 1 - i), length ?v - 1 - i := ?v ! i] = (a @ [y]) @ m' @ (x # b)"
      unfolding last using less.prems(1) by (simp add: m nth_append list_update_append)
    have "int i < int (length ?v) - 1 - int i" using less.prems m by simp
    then have "strrev_loop ?v i =
        strrev_loop (?v[i := ?v ! (length ?v - 1 - i), length ?v - 1 - i := ?v ! i]) (i + 1)"
      by (subst strrev_loop.simps) (simp only: if_True)
    also have "\<dots> = strrev_loop ((a @ [y]) @ m' @ (x # b)) (i + 1)" by (simp only: swap)
    also have "\<dots> = (a @ [y]) @ rev m' @ (x # b)"
      using less.prems m by (intro less.hyps) auto
    finally show ?thesis by (simp add: m)
  qed
qed

lemma strrev_eq: "php3_strrev s = rev s"
  using strrev_loop_ok [of "[]" 0 "[]" s] by (simp add: php3_strrev_def)

subsection \<open>What the functions do\<close>

text \<open>
  \<open>trim\<close> removes white space and NUL bytes at both ends and nothing else: the string is a blank
  prefix, the result and a blank suffix, and the result does not begin or end with a blank. It is
  \<open>chop\<close> after \<open>ltrim\<close>, and trimming again changes nothing.
\<close>

lemma trim_both_ends_facts:
  shows "\<exists>l r. s = l @ php3_trim s @ r \<and> (\<forall>c \<in> set (l @ r). is_trimmed c)"
    and "php3_trim s \<noteq> [] \<Longrightarrow> \<not> is_trimmed (hd (php3_trim s)) \<and> \<not> is_trimmed (last (php3_trim s))"
    and "php3_trim s = php3_chop (php3_ltrim s) \<and> php3_trim (php3_trim s) = php3_trim s"
proof -
  obtain r where r: "php3_ltrim s = php3_trim s @ r" "\<forall>c \<in> set r. is_trimmed c"
    using chop_split [of "php3_ltrim s"] unfolding trim_eq by blast
  have "s = takeWhile is_trimmed s @ php3_ltrim s" by (simp add: ltrim_eq)
  with r show "\<exists>l r. s = l @ php3_trim s @ r \<and> (\<forall>c \<in> set (l @ r). is_trimmed c)"
    by (metis (no_types, lifting) Un_iff set_append set_takeWhileD)
  show ends: "\<not> is_trimmed (hd (php3_trim s)) \<and> \<not> is_trimmed (last (php3_trim s))" if ne: "php3_trim s \<noteq> []"
  proof
    have "php3_ltrim s \<noteq> []" using r(1) ne by auto
    then have "\<not> is_trimmed (hd (php3_ltrim s))" unfolding ltrim_eq by (rule hd_dropWhile)
    then show "\<not> is_trimmed (hd (php3_trim s))" using r(1) ne by simp
    show "\<not> is_trimmed (last (php3_trim s))" using ne chop_last unfolding trim_eq by blast
  qed
  have "php3_trim (php3_trim s) = php3_trim s"
  proof (cases "php3_trim s = []")
    case True
    then show ?thesis by (simp add: php3_trim_def)
  next
    case False
    with ends have "php3_ltrim (php3_trim s) = php3_trim s" unfolding ltrim_eq by (cases "php3_trim s") auto
    with ends [OF False] show ?thesis by (simp add: trim_eq [of "php3_trim s"] chop_id)
  qed
  then show "php3_trim s = php3_chop (php3_ltrim s) \<and> php3_trim (php3_trim s) = php3_trim s"
    by (simp add: trim_eq)
qed

lemma trim_both_ends_example:
  "\<not> is_trimmed (hd (php3_trim '' a b  '')) \<and> \<not> is_trimmed (last (php3_trim '' a b  ''))"
proof (rule trim_both_ends_facts(2))
  show "php3_trim '' a b  '' \<noteq> []" by code_simp
qed

text \<open>
  The case functions work on the string up to its first NUL byte: they change the case of each
  letter and keep the length, \<open>strtoupper\<close> undoes \<open>strtolower\<close> up to case, and \<open>ucwords\<close> raises
  exactly the first character and those that follow a space.
\<close>

lemma case_functions_facts:
  shows "php3_strtoupper s = map ttoupper (cstr s) \<and> php3_strtolower s = map ttolower (cstr s)"
    and "php3_strtoupper (php3_strtolower s) = php3_strtoupper s \<and>
      php3_strtolower (php3_strtoupper s) = php3_strtolower s"
    and "length (php3_ucwords s) = length (cstr s)"
    and "i < length (cstr s) \<Longrightarrow> php3_ucwords s ! i =
      (if i = 0 \<or> cstr s ! (i - 1) = CHR '' '' then ttoupper (cstr s ! i) else cstr s ! i)"
proof -
  have cs: "cstr (map f (cstr s)) = map f (cstr s)" if "\<And>c. f c = NUL \<longleftrightarrow> c = NUL" for f
  proof (rule cstr_id)
    have "f c \<noteq> NUL" if "c \<in> set (cstr s)" for c
      using that cstr_no_NUL [of s] by (auto simp: \<open>\<And>c. f c = NUL \<longleftrightarrow> c = NUL\<close>)
    then show "NUL \<notin> set (map f (cstr s))" by force
  qed
  show "php3_strtoupper s = map ttoupper (cstr s) \<and> php3_strtolower s = map ttolower (cstr s)"
    by (simp add: strtoupper_eq strtolower_eq)
  show "php3_strtoupper (php3_strtolower s) = php3_strtoupper s \<and>
      php3_strtolower (php3_strtoupper s) = php3_strtolower s"
    by (simp add: strtoupper_eq strtolower_eq cs)
  have len: "length (raise_words b t) = length t" for b t by (induction b t rule: raise_words.induct) auto
  show "length (php3_ucwords s) = length (cstr s)" by (simp add: ucwords_eq len)
  have "i < length t \<Longrightarrow> raise_words b t ! i =
      (if (if i = 0 then b else t ! (i - 1) = CHR '' '') then ttoupper (t ! i) else t ! i)" for b t i
    by (induction b t arbitrary: i rule: raise_words.induct) (auto simp: nth_Cons split: nat.splits)
  then show "i < length (cstr s) \<Longrightarrow> php3_ucwords s ! i =
      (if i = 0 \<or> cstr s ! (i - 1) = CHR '' '' then ttoupper (cstr s ! i) else cstr s ! i)"
    by (simp add: ucwords_eq)
qed

lemma case_functions_example: "php3_ucwords ''big dog'' ! 4 = CHR ''D''"
proof -
  have "4 < length (cstr ''big dog'')" "cstr ''big dog'' ! 3 = CHR '' ''" "ttoupper (cstr ''big dog'' ! 4) = CHR ''D''"
    by code_simp+
  then show ?thesis using case_functions_facts(4) [of 4 "''big dog''"] by simp
qed

text \<open>
  For a path \<open>d/b\<close>, where \<open>b\<close> is not empty and has no slash, with any number of slashes after it,
  \<open>basename\<close> is \<open>b\<close> and \<open>dirname\<close> is \<open>d\<close> (false when \<open>d\<close> is empty). A path of slashes only, the empty
  path among them, makes both read before the string; and without an inner slash \<open>basename\<close> returns the
  path as it is, trailing slashes included.
\<close>

lemma basename_dirname_facts:
  assumes "b \<noteq> []" "CHR ''/'' \<notin> set b" "NUL \<notin> set (d @ b)"
  shows "php3_basename (d @ CHR ''/'' # b @ replicate n (CHR ''/'')) = Some b"
    and "php3_dirname (d @ CHR ''/'' # b @ replicate n (CHR ''/'')) = Some (if d = [] then None else Some d)"
    and "php3_basename (replicate n (CHR ''/'')) = None \<and> php3_dirname (replicate n (CHR ''/'')) = None"
    and "php3_basename (b @ replicate n (CHR ''/'')) = Some (b @ replicate n (CHR ''/''))"
proof -
  have last: "last b \<noteq> CHR ''/''" using assms(1,2) last_in_set by metis
  let ?p = "d @ CHR ''/'' # b"
  have st: "stripped (?p @ replicate n (CHR ''/'')) = Some ?p"
    using assms last by (intro stripped_ok) auto
  have li: "c_strrchr ?p (CHR ''/'') = Some (length d)"
    using assms(2) by (simp add: c_strrchr_def last_index_snoc)
  show "php3_basename (d @ CHR ''/'' # b @ replicate n (CHR ''/'')) = Some b"
    using st li by (simp add: php3_basename_def)
  show "php3_dirname (d @ CHR ''/'' # b @ replicate n (CHR ''/'')) = Some (if d = [] then None else Some d)"
    using st li by (simp add: php3_dirname_def dirname_buf_def)
  have "cstr (replicate n (CHR ''/'')) = replicate n (CHR ''/'')" by (intro cstr_id) simp
  then have "stripped (replicate n (CHR ''/'')) = None"
    by (simp add: stripped_def strip_slashes_fault)
  then show "php3_basename (replicate n (CHR ''/'')) = None \<and> php3_dirname (replicate n (CHR ''/'')) = None"
    by (simp add: php3_basename_def php3_dirname_def dirname_buf_def)
  have "stripped (b @ replicate n (CHR ''/'')) = Some b"
    using assms last by (intro stripped_ok) auto
  moreover have "c_strrchr b (CHR ''/'') = None"
    using assms(2) by (simp add: c_strrchr_def last_index_None)
  moreover have "cstr (b @ replicate n (CHR ''/'')) = b @ replicate n (CHR ''/'')"
    using assms(3) by (intro cstr_id) auto
  ultimately show "php3_basename (b @ replicate n (CHR ''/'')) = Some (b @ replicate n (CHR ''/''))"
    by (simp add: php3_basename_def)
qed

lemma basename_dirname_example:
  "php3_basename ''/usr/lib/'' = Some ''lib'' \<and> php3_dirname ''/usr/lib/'' = Some (Some ''/usr'') \<and>
    php3_basename ''lib/'' = Some ''lib/''"
  using basename_dirname_facts [of "''lib''" "''/usr''" 1] by simp

text \<open>
  For a positive length \<open>chunk_split\<close> cuts the string into chunks of exactly this length (the last
  one not empty but possibly shorter) and puts the ending after each; nothing is lost, and the block
  allocated in advance has room for the result and its NUL.
\<close>

lemma chunk_split_chunks_facts:
  assumes "0 < n" "n < 2 ^ 31"
  shows "\<exists>cs. php3_chunk_split src (int n) ending = Some (Some (concat (map (\<lambda>c. c @ ending) cs))) \<and>
    concat cs = src \<and> (\<forall>c \<in> set (butlast cs). length c = n) \<and>
    (\<forall>c \<in> set cs. 0 < length c \<and> length c \<le> n) \<and>
    length (concat (map (\<lambda>c. c @ ending) cs)) + 1 \<le> snd (chunk_split src ending n)"
proof -
  obtain out sz where c: "chunk_split src ending n = (out, sz)" by fastforce
  have w: "wrap_int (int n) = int n" using assms by (intro wrap_int_id) auto
  from chunk_split_ok [OF assms(1) c] obtain cs where
    "concat cs = src" "out = concat (map (\<lambda>c. c @ ending) cs)" "\<forall>c \<in> set (butlast cs). length c = n"
    "\<forall>c \<in> set cs. 0 < length c \<and> length c \<le> n" "length out + 1 \<le> sz" by blast
  with assms(1) c w show ?thesis by (intro exI [of _ cs]) (simp add: php3_chunk_split_def)
qed

lemma chunk_split_chunks_example:
  "\<exists>cs. php3_chunk_split ''abcde'' 2 ''|'' = Some (Some (concat (map (\<lambda>c. c @ ''|'') cs))) \<and> concat cs = ''abcde''"
  using chunk_split_chunks_facts [of 2 "''abcde''" "''|''"] by auto

text \<open>
  \<open>substr\<close> for arguments of moderate size, if the uninitialised \<open>argc\<close> does not happen to be 2:
  the result is the bytes from the start position, counted from the end when it is negative, up to the
  stop position; it is false when the start is not inside the string. A large length overflows \<open>f + l\<close>.
\<close>

lemma substr_range_facts:
  assumes "argc \<noteq> 2" "\<bar>from\<bar> < 2 ^ 30" "\<bar>len\<bar> < 2 ^ 30" "length s < 2 ^ 30"
  defines "n \<equiv> int (length s)"
  defines "f \<equiv> (if from < 0 then max 0 (n + from) else from)"
  defines "e \<equiv> min n (if len < 0 then n + len else f + len)"
  shows "php3_substr argc s from len =
      Some (if f < n then Some (take (nat (e - f)) (drop (nat f) s)) else None)"
    and "2 \<le> length s \<Longrightarrow> php3_substr argc s 1 2147483647 = None"
proof -
  have w: "wrap_int from = from" "wrap_int len = len" using assms(2,3) by (auto intro!: wrap_int_id)
  have f: "substr_from (length s) from = f" by (auto simp: substr_from_def f_def n_def)
  have f0: "0 \<le> f" "f < 2 ^ 30" using assms(2,4) by (auto simp: f_def n_def)
  have n0: "0 \<le> n" by (simp add: n_def)
  show "php3_substr argc s from len =
      Some (if f < n then Some (take (nat (e - f)) (drop (nat f) s)) else None)"
  proof (cases "len < 0")
    case True
    have "- 2147483648 \<le> n - f + len" using True f0 assms(3) n0 by auto
    then have l: "substr_len (length s) f len = Some (max 0 (n - f + len))"
      using True by (auto simp: substr_len_def n_def)
    have "e = n + len" using True by (simp add: e_def)
    then have "nat (max 0 (n - f + len)) = nat (e - f)" by simp
    moreover have "f + max 0 (n - f + len) \<le> n" if "f < n" using that True by simp
    moreover have "n < 2147483647" using assms(4) by (simp add: n_def)
    moreover have "\<not> 2147483647 < f + max 0 (n - f + len)" if "f < n"
      using calculation that by simp
    ultimately show ?thesis
      using assms(1) f w l by (auto simp: php3_substr_def Let_def n_def [symmetric])
  next
    case False
    then have l: "substr_len (length s) f len = Some len" by (simp add: substr_len_def)
    have "f + len \<le> 2147483647" using f0 assms(3) by simp
    then show ?thesis
      using assms(1) f w l False by (auto simp: php3_substr_def Let_def n_def [symmetric] e_def min_def)
  qed
  have "wrap_int 1 = 1" "wrap_int 2147483647 = 2147483647" by (simp_all add: wrap_int_def)
  then show "2 \<le> length s \<Longrightarrow> php3_substr argc s 1 2147483647 = None"
    using assms(1) by (simp add: php3_substr_def Let_def substr_from_def substr_len_def)
qed

text \<open>
  \<open>strtr\<close> with tables of equal length replaces each character of the first table by the entry at
  its last position and keeps the others; swapping the tables undoes it for distinct tables over
  characters the target table does not mention. \<open>strrev\<close>, which swaps in place, reverses.
\<close>

lemma strtr_strrev_facts:
  assumes "length fs = length ts" "NUL \<notin> set s \<union> set fs \<union> set ts"
  shows "length (php3_strtr s fs ts) = length s"
    and "j < length s \<Longrightarrow> s ! j \<notin> set fs \<Longrightarrow> php3_strtr s fs ts ! j = s ! j"
    and "j < length s \<Longrightarrow> i < length fs \<Longrightarrow> s ! j = fs ! i \<Longrightarrow> fs ! i \<notin> set (drop (Suc i) fs) \<Longrightarrow>
      php3_strtr s fs ts ! j = ts ! i"
    and "distinct fs \<Longrightarrow> distinct ts \<Longrightarrow> set s \<inter> set ts \<subseteq> set fs \<Longrightarrow>
      php3_strtr (php3_strtr s fs ts) ts fs = s"
    and "php3_strrev s = rev s"
proof -
  have eq: "php3_strtr s fs ts = map (translate fs ts) s" using assms by (intro strtr_eq) auto
  show "length (php3_strtr s fs ts) = length s" by (simp add: eq)
  show "php3_strrev s = rev s" by (rule strrev_eq)
  show "j < length s \<Longrightarrow> s ! j \<notin> set fs \<Longrightarrow> php3_strtr s fs ts ! j = s ! j"
    by (simp add: eq translate_other)
  show "php3_strtr s fs ts ! j = ts ! i"
    if "j < length s" "i < length fs" "s ! j = fs ! i" "fs ! i \<notin> set (drop (Suc i) fs)"
  proof -
    have "fs ! k \<noteq> fs ! i" if "i < k" "k < length fs" for k
    proof -
      have "fs ! k = drop (Suc i) fs ! (k - Suc i)" "k - Suc i < length (drop (Suc i) fs)" using that by auto
      then show ?thesis using \<open>fs ! i \<notin> set (drop (Suc i) fs)\<close> nth_mem by metis
    qed
    then show ?thesis using that assms(1) by (simp add: eq translate_last)
  qed
  assume d: "distinct fs" "distinct ts" "set s \<inter> set ts \<subseteq> set fs"
  have "translate ts fs (translate fs ts c) = c" if c: "c \<in> set s" for c
  proof (cases "c \<in> set fs")
    case True
    then obtain i where i: "i < length fs" "fs ! i = c" by (auto simp: in_set_conv_nth)
    have "translate fs ts (fs ! i) = ts ! i" "translate ts fs (ts ! i) = fs ! i"
      by (rule translate_last; use assms(1) i(1) d(1,2) in \<open>simp add: nth_eq_iff_index_eq\<close>)+
    with i(2) show ?thesis by simp
  next
    case False
    then have "c \<notin> set ts" using c d(3) by auto
    with False show ?thesis by (simp add: translate_other)
  qed
  moreover have "php3_strtr (map (translate fs ts) s) ts fs = map (translate ts fs) (map (translate fs ts) s)"
  proof (rule strtr_eq)
    have "translate fs ts c \<noteq> NUL" if "c \<in> set s" for c
      using that translate_in [of fs ts c] assms(2) by auto
    then show "NUL \<notin> set (map (translate fs ts) s) \<union> set fs" using assms(2) by force
  qed (simp add: assms(1))
  ultimately show "php3_strtr (php3_strtr s fs ts) ts fs = s" by (simp add: eq map_idI)
qed

lemma strtr_strrev_example:
  "php3_strtr ''hello'' ''el'' ''ip'' ! 1 = CHR ''i'' \<and>
    php3_strtr (php3_strtr ''hello'' ''el'' ''ip'') ''ip'' ''el'' = ''hello'' \<and> php3_strrev ''ab'' = ''ba''"
  using strtr_strrev_facts(3) [of "''el''" "''ip''" "''hello''" 1 0] strtr_strrev_facts(4) [of "''el''" "''ip''" "''hello''"]
    strtr_strrev_facts(5) [of "[]" "[]" "''ab''"]
  by simp

end
