(* ===== verification/Str_Token.thy ===== *)
theory Str_Token
  imports Str_Search
begin

text \<open>
  \<open>strtok\<close> of \<^verbatim>\<open>functions/string.c\<close>: it keeps the string being cut and a position in it in static
  variables, and overwrites the separator that ends a token with NUL. The state machine is shown to
  refine one whose state is just the rest of the string.
\<close>

subsection \<open>The model\<close>

text \<open>The buffer holds the copied string and the NUL after it; positions are offsets into it.\<close>

record strtok_state =
  strtok_string :: "char list"
  strtok_pos1 :: "nat option"
  strtok_pos2 :: "nat option"

definition strtok_initial :: strtok_state where
  "strtok_initial = \<lparr>strtok_string = [], strtok_pos1 = None, strtok_pos2 = None\<rparr>"

text \<open>The loop over the separators: \<open>first\<close> becomes the first position of any of them.\<close>

fun strtok_first :: "char list \<Rightarrow> nat \<Rightarrow> char list \<Rightarrow> nat option \<Rightarrow> nat option" where
  "strtok_first str pos1 [] first = first"
| "strtok_first str pos1 (c # token) first =
     (let pos2 = map_option (\<lambda>k. pos1 + k) (c_strchr str c)
      in strtok_first str pos1 token
           (case first of
              None \<Rightarrow> pos2
            | Some f \<Rightarrow> (case pos2 of Some p \<Rightarrow> if p < f then pos2 else first | None \<Rightarrow> first)))"

text \<open>The return value of \<open>RETVAL_FALSE\<close>, \<open>var_reset\<close>: it is the empty string, as is an empty token.\<close>

definition RETVAL_FALSE :: "char list" where "RETVAL_FALSE = []"

definition strtok_next :: "char list \<Rightarrow> strtok_state \<Rightarrow> strtok_state \<times> char list" where
  "strtok_next tok st =
     (case strtok_pos1 st of
        None \<Rightarrow> (st, RETVAL_FALSE)
      | Some p \<Rightarrow>
          if strtok_string st ! p = NUL then (st, RETVAL_FALSE)
          else
            let first = strtok_first (cstr (drop p (strtok_string st))) p (cstr tok) None;
                buf = (case first of None \<Rightarrow> strtok_string st | Some f \<Rightarrow> (strtok_string st)[f := NUL])
            in (st\<lparr>strtok_string := buf, strtok_pos2 := first, strtok_pos1 := map_option Suc first\<rparr>,
                cstr (drop p buf)))"

text \<open>One call, with the string to cut or without it.\<close>

definition php3_strtok :: "char list option \<Rightarrow> char list \<Rightarrow> strtok_state \<Rightarrow> strtok_state \<times> char list" where
  "php3_strtok str tok st =
     strtok_next tok
       (case str of
          None \<Rightarrow> st
        | Some s \<Rightarrow> \<lparr>strtok_string = s @ [NUL], strtok_pos1 = Some 0, strtok_pos2 = None\<rparr>)"

fun strtok_run :: "(char list option \<times> char list) list \<Rightarrow> strtok_state \<Rightarrow> char list list" where
  "strtok_run [] st = []"
| "strtok_run ((str, tok) # calls) st =
     (let (st', r) = php3_strtok str tok st in r # strtok_run calls st')"

subsection \<open>The specification: the rest of the string\<close>

definition strtok_spec :: "char list option \<Rightarrow> char list \<Rightarrow> char list \<Rightarrow> char list \<times> char list" where
  "strtok_spec str tok rest =
     (let s = (case str of Some s \<Rightarrow> cstr s | None \<Rightarrow> rest); seps = set (cstr tok)
      in if s = [] then ([], RETVAL_FALSE)
         else (tl (dropWhile (\<lambda>c. c \<notin> seps) s), takeWhile (\<lambda>c. c \<notin> seps) s))"

fun strtok_spec_run :: "(char list option \<times> char list) list \<Rightarrow> char list \<Rightarrow> char list list" where
  "strtok_spec_run [] rest = []"
| "strtok_spec_run ((str, tok) # calls) rest =
     (let (rest', r) = strtok_spec str tok rest in r # strtok_spec_run calls rest')"

subsection \<open>Refinement\<close>

definition strtok_abs :: "strtok_state \<Rightarrow> char list" where
  "strtok_abs st = (case strtok_pos1 st of None \<Rightarrow> [] | Some p \<Rightarrow> cstr (drop p (strtok_string st)))"

definition strtok_ok :: "strtok_state \<Rightarrow> bool" where
  "strtok_ok st \<longleftrightarrow> (\<forall>p. strtok_pos1 st = Some p \<longrightarrow> p < length (strtok_string st) \<and> last (strtok_string st) = NUL)"

text \<open>The first position of a separator, as the code computes it separator by separator.\<close>

definition first_in :: "char list \<Rightarrow> char set \<Rightarrow> nat option" where
  "first_in s C = (if \<exists>c \<in> set s. c \<in> C then Some (length (takeWhile (\<lambda>c. c \<notin> C) s)) else None)"

definition min_pos :: "nat option \<Rightarrow> nat option \<Rightarrow> nat option" where
  "min_pos a b = (case a of None \<Rightarrow> b | Some x \<Rightarrow> (case b of None \<Rightarrow> a | Some y \<Rightarrow> Some (min x y)))"

lemma first_in_Cons: "first_in (x # s) C = (if x \<in> C then Some 0 else map_option Suc (first_in s C))"
  by (simp add: first_in_def)

lemma first_in_insert: "first_in s (insert c C) = min_pos (first_in s {c}) (first_in s C)"
proof (induction s)
  case Nil
  then show ?case by (simp add: first_in_def min_pos_def)
next
  case (Cons x s)
  then show ?case
    by (simp add: first_in_Cons) (auto simp: min_pos_def split: option.splits)
qed

lemma c_strchr_first_in: "c \<noteq> NUL \<Longrightarrow> c_strchr s c = first_in s {c}"
proof -
  assume "c \<noteq> NUL"
  then have "memchr (s @ [NUL]) c = first_in s {c}"
    by (induction s) (auto simp: first_in_def)
  then show ?thesis by (simp add: c_strchr_def)
qed

lemma min_pos_assoc: "min_pos (min_pos a b) c = min_pos a (min_pos b c)"
  by (auto simp: min_pos_def split: option.splits)

lemma min_pos_add: "map_option (\<lambda>k. p + k) (min_pos a b) = min_pos (map_option (\<lambda>k. p + k) a) (map_option (\<lambda>k. p + k) b)"
  by (auto simp: min_pos_def split: option.splits)

lemma strtok_first_ok:
  "NUL \<notin> set token \<Longrightarrow>
    strtok_first s p token first = min_pos first (map_option (\<lambda>k. p + k) (first_in s (set token)))"
proof (induction token arbitrary: first)
  case Nil
  then show ?case by (simp add: first_in_def min_pos_def split: option.splits)
next
  case (Cons c token)
  have upd: "(case first of None \<Rightarrow> q
      | Some f \<Rightarrow> (case q of Some p \<Rightarrow> if p < f then q else first | None \<Rightarrow> first)) = min_pos first q"
    for first q :: "nat option" by (auto simp: min_pos_def min_def split: option.splits)
  from Cons have "c \<noteq> NUL" "NUL \<notin> set token" by auto
  then show ?case
    by (simp add: Let_def upd Cons.IH c_strchr_first_in first_in_insert [of s c "set token"] min_pos_add min_pos_assoc)
qed

lemma cstr_split: "NUL \<in> set b \<Longrightarrow> \<exists>r. b = cstr b @ NUL # r"
proof (induction b)
  case (Cons x b)
  then show ?case by (cases "x = NUL") (auto simp: cstr_def)
qed simp

lemma strtok_next_ok:
  assumes "strtok_ok st"
  shows "(case strtok_next tok st of (st', r) \<Rightarrow> strtok_ok st' \<and> (strtok_abs st', r) = strtok_spec None tok (strtok_abs st))"
proof (cases "strtok_pos1 st")
  case None
  then show ?thesis using assms by (simp add: strtok_next_def strtok_abs_def strtok_spec_def)
next
  case (Some p)
  let ?b = "strtok_string st"
  have p: "p < length ?b" "last ?b = NUL" using assms Some by (auto simp: strtok_ok_def)
  have "NUL \<in> set (drop p ?b)" using p by (metis drop_eq_Nil last_drop last_in_set not_le)
  then obtain r where r: "drop p ?b = cstr (drop p ?b) @ NUL # r" using cstr_split by blast
  define s where "s = cstr (drop p ?b)"
  have s: "drop p ?b = s @ NUL # r" "NUL \<notin> set s" using r by (auto simp: s_def)
  have b: "?b = take p ?b @ s @ NUL # r" unfolding s(1) [symmetric] by simp
  show ?thesis
  proof (cases "s = []")
    case True
    then have "?b ! p = NUL" using s(1) p(1) by (metis append_Nil hd_drop_conv_nth list.sel(1))
    then show ?thesis using assms Some True
      by (simp add: strtok_next_def strtok_abs_def strtok_spec_def s_def [symmetric])
  next
    case False
    then have hd: "?b ! p \<noteq> NUL"
      using s p(1) by (metis Cons_nth_drop_Suc append_eq_Cons_conv list.set_intros(1) list.sel(1))
    let ?C = "set (cstr tok)"
    let ?t = "takeWhile (\<lambda>c. c \<notin> ?C) s"
    have first: "strtok_first s p (cstr tok) None = map_option (\<lambda>k. p + k) (first_in s ?C)"
      by (simp add: strtok_first_ok min_pos_def split: option.splits)
    show ?thesis
    proof (cases "\<exists>c \<in> set s. c \<in> ?C")
      case no: False
      then have "first_in s ?C = None" by (simp add: first_in_def)
      moreover have "strtok_spec None tok s = ([], s)"
      proof -
        have "?t = s" using no by (intro takeWhile_eq_all_conv [THEN iffD2]) auto
        moreover have "dropWhile (\<lambda>c. c \<notin> ?C) s = []" using no by (intro dropWhile_eq_Nil_conv [THEN iffD2]) auto
        ultimately show ?thesis using False unfolding strtok_spec_def Let_def by (simp only: option.case if_False list.sel)
      qed
      ultimately show ?thesis using Some False hd p
        by (simp add: strtok_next_def strtok_abs_def strtok_ok_def s_def [symmetric] first Let_def)
    next
      case yes: True
      then have fi: "first_in s ?C = Some (length ?t)" by (simp add: first_in_def)
      from yes have "dropWhile (\<lambda>c. c \<notin> ?C) s \<noteq> []" by (auto simp: dropWhile_eq_Nil_conv)
      then obtain x rest where x: "dropWhile (\<lambda>c. c \<notin> ?C) s = x # rest" by (cases "dropWhile (\<lambda>c. c \<notin> ?C) s") auto
      have split: "s = ?t @ x # rest" using x by (metis takeWhile_dropWhile_id)
      let ?buf = "?b[p + length ?t := NUL]"
      have lp: "length (take p ?b) = p" using p(1) by simp
      have buf: "?buf = take p ?b @ ?t @ NUL # rest @ NUL # r"
      proof -
        have "?buf = (take p ?b @ (?t @ x # rest) @ NUL # r)[p + length ?t := NUL]"
          unfolding split [symmetric] b [symmetric] ..
        also have "\<dots> = take p ?b @ ?t @ NUL # rest @ NUL # r" using lp by (simp add: list_update_append)
        finally show ?thesis .
      qed
      have t0: "NUL \<notin> set ?t" "NUL \<notin> set rest" using s(2) split by (metis Un_iff list.set_intros(2) set_append)+
      have "cstr (drop p ?buf) = ?t" unfolding buf using lp t0(1) by (simp add: cstr_append_NUL)
      moreover have "drop (Suc (p + length ?t)) ?buf = rest @ NUL # r" unfolding buf using lp by simp
      moreover have "cstr (rest @ NUL # r) = rest" using t0(2) by (rule cstr_append_NUL)
      moreover have "Suc (p + length ?t) < length ?buf" unfolding buf using lp by simp
      moreover have "last ?buf = NUL"
      proof -
        have "last (rest @ NUL # r) = last ?b" by (subst b) simp
        then show ?thesis unfolding buf using p(2) by simp
      qed
      ultimately show ?thesis using Some False hd fi x
        by (simp add: strtok_next_def strtok_abs_def strtok_spec_def strtok_ok_def s_def [symmetric] first Let_def)
    qed
  qed
qed

lemma php3_strtok_ok:
  assumes "strtok_ok st" "php3_strtok str tok st = (st', r)"
  shows "strtok_ok st'" "strtok_spec str tok (strtok_abs st) = (strtok_abs st', r)"
proof -
  let ?st = "case str of None \<Rightarrow> st
    | Some s \<Rightarrow> \<lparr>strtok_string = s @ [NUL], strtok_pos1 = Some 0, strtok_pos2 = None\<rparr>"
  have ok: "strtok_ok ?st" using assms(1) by (auto simp: strtok_ok_def split: option.splits)
  have "cstr (s @ [NUL]) = cstr s" for s by (simp add: cstr_def takeWhile_tail)
  then have "strtok_spec str tok (strtok_abs st) = strtok_spec None tok (strtok_abs ?st)"
    by (auto simp: strtok_spec_def strtok_abs_def split: option.splits)
  with strtok_next_ok [OF ok, of tok] assms(2) show "strtok_ok st'"
    "strtok_spec str tok (strtok_abs st) = (strtok_abs st', r)"
    by (auto simp: php3_strtok_def)
qed

lemma strtok_run_ok: "strtok_ok st \<Longrightarrow> strtok_run calls st = strtok_spec_run calls (strtok_abs st)"
proof (induction calls arbitrary: st)
  case (Cons call calls)
  obtain str tok where [simp]: "call = (str, tok)" by fastforce
  obtain st' r where r: "php3_strtok str tok st = (st', r)" by fastforce
  from php3_strtok_ok [OF Cons.prems r] Cons.IH r show ?case by simp
qed simp

text \<open>The tokens of a string for one fixed set of separators.\<close>

fun split_tokens :: "char set \<Rightarrow> nat \<Rightarrow> char list \<Rightarrow> char list list" where
  "split_tokens C 0 s = []"
| "split_tokens C (Suc n) s =
     (if s = [] then RETVAL_FALSE # split_tokens C n []
      else takeWhile (\<lambda>c. c \<notin> C) s # split_tokens C n (tl (dropWhile (\<lambda>c. c \<notin> C) s)))"

lemma spec_run_fixed:
  "strtok_spec_run (replicate n (None, tok)) s = split_tokens (set (cstr tok)) n s"
  by (induction n arbitrary: s) (auto simp: strtok_spec_def Let_def)

subsection \<open>The property\<close>

text \<open>
  Any sequence of calls of \<open>strtok\<close>, starting from the initial static variables, with new strings
  and separators that may change from call to call, gives the results of the specification, whose
  state is only the rest of the string: a call returns the characters before the first separator and
  drops them and it, and false when nothing is left. In particular the calls with one separator list
  return the tokens of the string in order, empty ones included, and false from then on. False is the empty
  string, so that a caller cannot tell the end from an empty token.
\<close>

lemma strtok_refines_facts:
  "strtok_run calls strtok_initial = strtok_spec_run calls []"
  "strtok_run ((Some s, tok) # replicate n (None, tok)) strtok_initial =
    split_tokens (set (cstr tok)) (Suc n) (cstr s)"
proof -
  have ok: "strtok_ok strtok_initial" "strtok_abs strtok_initial = []"
    by (simp_all add: strtok_ok_def strtok_initial_def strtok_abs_def)
  show *: "strtok_run calls strtok_initial = strtok_spec_run calls []" for calls
    using strtok_run_ok [OF ok(1)] ok(2) by simp
  show "strtok_run ((Some s, tok) # replicate n (None, tok)) strtok_initial =
    split_tokens (set (cstr tok)) (Suc n) (cstr s)"
    unfolding * by (auto simp: spec_run_fixed strtok_spec_def Let_def)
qed

lemma strtok_example:
  "strtok_run [(Some ''a b,,c'', '' ,''), (None, '' ,''), (None, '',''), (None, '' ,''), (None, '' ,'')] strtok_initial =
    [''a'', ''b'', [], ''c'', RETVAL_FALSE]"
  by code_simp

end
