(* ===== verification/Str_Similar.thy ===== *)
theory Str_Similar
  imports Base "HOL-Library.Sublist"
begin

text \<open>
  Comparing strings by sound and by likeness: \<open>similar_text\<close> of \<^verbatim>\<open>functions/string.c\<close>, \<open>soundex\<close> of
  \<^verbatim>\<open>functions/soundex.c\<close> and \<open>levenshtein\<close> of \<^verbatim>\<open>functions/levenshtein.c\<close>.
\<close>

subsection \<open>\<open>similar_text\<close>\<close>

text \<open>The innermost loop of \<open>_php3_similar_str\<close>: the length of the common prefix.\<close>

fun common_prefix :: "char list \<Rightarrow> char list \<Rightarrow> nat" where
  "common_prefix (x # xs) (y # ys) = (if x = y then Suc (common_prefix xs ys) else 0)"
| "common_prefix _ _ = 0"

text \<open>
  The two outer loops; the state is \<open>(pos1, pos2, max)\<close>, and \<open>None\<close> as long as \<open>max\<close> is 0, when the
  code has not set the positions.
\<close>

definition similar_step :: "char list \<Rightarrow> char list \<Rightarrow> nat \<Rightarrow> nat \<Rightarrow> (nat \<times> nat \<times> nat) option \<Rightarrow> (nat \<times> nat \<times> nat) option" where
  "similar_step txt1 txt2 p q best =
     (let l = common_prefix (drop p txt1) (drop q txt2);
          mx = (case best of None \<Rightarrow> 0 | Some (_, _, m) \<Rightarrow> m)
      in if l > mx then Some (p, q, l) else best)"

definition similar_str :: "char list \<Rightarrow> char list \<Rightarrow> (nat \<times> nat \<times> nat) option" where
  "similar_str txt1 txt2 =
     fold (\<lambda>p. fold (\<lambda>q. similar_step txt1 txt2 p q) [0..<length txt2]) [0..<length txt1] None"

text \<open>What the loops have found after some pairs of positions.\<close>

definition best_of :: "char list \<Rightarrow> char list \<Rightarrow> (nat \<times> nat) set \<Rightarrow> (nat \<times> nat \<times> nat) option \<Rightarrow> bool" where
  "best_of txt1 txt2 P best \<longleftrightarrow>
     (case best of
        None \<Rightarrow> \<forall>(p, q) \<in> P. common_prefix (drop p txt1) (drop q txt2) = 0
      | Some (p, q, m) \<Rightarrow> (p, q) \<in> P \<and> m = common_prefix (drop p txt1) (drop q txt2) \<and> 0 < m \<and>
          (\<forall>(p', q') \<in> P. common_prefix (drop p' txt1) (drop q' txt2) \<le> m))"

lemma similar_step_ok:
  "best_of s t P best \<Longrightarrow> best_of s t (insert (p, q) P) (similar_step s t p q best)"
  by (cases best) (force simp: best_of_def similar_step_def Let_def split: prod.splits if_splits)+

lemma inner_loop_ok:
  "best_of s t P best \<Longrightarrow> best_of s t (P \<union> {p} \<times> set qs) (fold (\<lambda>q. similar_step s t p q) qs best)"
proof (induction qs arbitrary: P best)
  case (Cons q qs)
  from Cons.IH [OF similar_step_ok [OF Cons.prems]] show ?case by (simp add: insert_commute Un_commute)
qed simp

lemma outer_loop_ok:
  "best_of s t P best \<Longrightarrow>
    best_of s t (P \<union> set ps \<times> set qs) (fold (\<lambda>p. fold (\<lambda>q. similar_step s t p q) qs) ps best)"
proof (induction ps arbitrary: P best)
  case (Cons p ps)
  have "P \<union> {p} \<times> set qs \<union> set ps \<times> set qs = P \<union> set (p # ps) \<times> set qs" by auto
  with Cons.IH [OF inner_loop_ok [OF Cons.prems]] show ?case by (metis fold_simps(2))
qed simp

lemma similar_str_ok: "best_of s t ({..<length s} \<times> {..<length t}) (similar_str s t)"
proof -
  have "best_of s t {} None" by (simp add: best_of_def)
  from outer_loop_ok [OF this, of "[0..<length s]" "[0..<length t]"] show ?thesis
    by (simp add: similar_str_def lessThan_atLeast0)
qed

lemma common_prefix_take: "take (common_prefix xs ys) xs = take (common_prefix xs ys) ys"
  by (induction xs ys rule: common_prefix.induct) auto

lemma common_prefix_le: "common_prefix xs ys \<le> length xs" "common_prefix xs ys \<le> length ys"
  by (induction xs ys rule: common_prefix.induct) auto

lemma similar_str_Some:
  assumes "similar_str s t = Some (p, q, m)"
  shows "0 < m" "p + m \<le> length s" "q + m \<le> length t" "take m (drop p s) = take m (drop q t)"
  using similar_str_ok [of s t] assms common_prefix_le [of "drop p s" "drop q t"] common_prefix_take [of "drop p s" "drop q t"]
  by (auto simp: best_of_def)

lemma similar_str_bound: "similar_str s t = Some (p, q, m) \<Longrightarrow> p < length s \<and> 0 < m"
  using similar_str_Some(1,2) [of s t p q m] by simp

function similar_char :: "char list \<Rightarrow> char list \<Rightarrow> nat" where
  "similar_char txt1 txt2 =
     (case similar_str txt1 txt2 of
        None \<Rightarrow> 0
      | Some (pos1, pos2, mx) \<Rightarrow>
          mx +
          (if pos1 \<noteq> 0 \<and> pos2 \<noteq> 0 then similar_char (take pos1 txt1) (take pos2 txt2) else 0) +
          (if pos1 + mx < length txt1 \<and> pos2 + mx < length txt2
           then similar_char (drop (pos1 + mx) txt1) (drop (pos2 + mx) txt2) else 0))"
  by pat_completeness auto
termination
  by (relation "measure (\<lambda>(s, t). length s)") (auto dest: similar_str_bound simp: min_def)

declare similar_char.simps [simp del]

definition php3_similar_text :: "char list \<Rightarrow> char list \<Rightarrow> nat" where
  "php3_similar_text t1 t2 = (if length t1 + length t2 = 0 then 0 else similar_char t1 t2)"

text \<open>The result is the length of a common subsequence, found from the longest common substring.\<close>

lemma similar_char_subseq:
  "\<exists>zs. length zs = similar_char s t \<and> subseq zs s \<and> subseq zs t"
proof (induction s t rule: similar_char.induct)
  case (1 s t)
  show ?case
  proof (cases "similar_str s t")
    case None
    then show ?thesis by (intro exI [of _ "[]"]) (simp add: similar_char.simps [of s t])
  next
    case (Some r)
    obtain p q m where r: "r = (p, q, m)" by (cases r) auto
    note m = similar_str_Some [OF Some [unfolded r]]
    have left: "\<exists>zs. length zs = (if p \<noteq> 0 \<and> q \<noteq> 0 then similar_char (take p s) (take q t) else 0) \<and>
        subseq zs (take p s) \<and> subseq zs (take q t)"
      using "1.IH"(1) [OF Some r [symmetric] refl] by (cases "p \<noteq> 0 \<and> q \<noteq> 0") auto
    have right: "\<exists>zs. length zs = (if p + m < length s \<and> q + m < length t
          then similar_char (drop (p + m) s) (drop (q + m) t) else 0) \<and>
        subseq zs (drop (p + m) s) \<and> subseq zs (drop (q + m) t)"
      using "1.IH"(2) [OF Some r [symmetric] refl] by (cases "p + m < length s \<and> q + m < length t") auto
    from left obtain xs where xs: "length xs = (if p \<noteq> 0 \<and> q \<noteq> 0 then similar_char (take p s) (take q t) else 0)"
      "subseq xs (take p s)" "subseq xs (take q t)" by blast
    from right obtain ys where ys: "length ys = (if p + m < length s \<and> q + m < length t
        then similar_char (drop (p + m) s) (drop (q + m) t) else 0)"
      "subseq ys (drop (p + m) s)" "subseq ys (drop (q + m) t)" by blast
    let ?m = "take m (drop p s)"
    have split: "u = take k u @ take m (drop k u) @ drop (k + m) u" for u :: "char list" and k
      by (metis append_take_drop_id add.commute drop_drop)
    have "subseq (xs @ ?m @ ys) s" by (subst split [of s p]) (intro list_emb_append_mono xs ys subseq_order.order_refl)
    moreover have "subseq (xs @ ?m @ ys) t"
      unfolding m(4) by (subst (2) split [of t q]) (intro list_emb_append_mono xs ys subseq_order.order_refl)
    moreover have "length (xs @ ?m @ ys) = similar_char s t"
      using m(2) xs(1) ys(1) Some r by (simp add: similar_char.simps [of s t])
    ultimately show ?thesis by blast
  qed
qed

lemma common_prefix_refl: "common_prefix s s = length s"
  by (induction s) auto

lemma similar_char_refl: "similar_char s s = length s"
proof (cases "s = []")
  case True
  then show ?thesis by (simp add: similar_char.simps [of "[]"] similar_str_def)
next
  case False
  then have mem: "(0, 0) \<in> {..<length s} \<times> {..<length s}" by auto
  show ?thesis
  proof (cases "similar_str s s")
    case None
    with similar_str_ok [of s s] have "\<forall>(p, q) \<in> {..<length s} \<times> {..<length s}.
        common_prefix (drop p s) (drop q s) = 0" by (simp add: best_of_def)
    from bspec [OF this mem] have "common_prefix s s = 0" by simp
    with False show ?thesis by (simp add: common_prefix_refl)
  next
    case (Some r)
    obtain p q m where r: "r = (p, q, m)" by (cases r) auto
    note m = similar_str_Some [OF Some [unfolded r]]
    have "length s \<le> m"
      using similar_str_ok [of s s] mem Some r by (force simp: best_of_def common_prefix_refl)
    then have "m = length s" "p = 0" "q = 0" using m by auto
    with Some r show ?thesis by (simp add: similar_char.simps [of s])
  qed
qed

lemma similar_str_None: "similar_str s t = None \<longleftrightarrow> set s \<inter> set t = {}"
proof
  assume none: "similar_str s t = None"
  show "set s \<inter> set t = {}"
  proof (rule ccontr)
    assume "set s \<inter> set t \<noteq> {}"
    then obtain p q where pq: "p < length s" "q < length t" "s ! p = t ! q"
      by (metis disjoint_iff in_set_conv_nth)
    then have "common_prefix (drop p s) (drop q t) \<noteq> 0" by (simp flip: Cons_nth_drop_Suc)
    with similar_str_ok [of s t] none pq show False by (auto simp: best_of_def)
  qed
next
  assume disj: "set s \<inter> set t = {}"
  show "similar_str s t = None"
  proof (rule ccontr)
    assume "similar_str s t \<noteq> None"
    then obtain p q m where "similar_str s t = Some (p, q, m)" by auto
    note m = similar_str_Some [OF this]
    then have "take m (drop p s) \<noteq> []" by (cases m) auto
    then obtain c where "c \<in> set (take m (drop p s))" by (meson hd_in_set)
    then have "c \<in> set s" "c \<in> set t" using m(4) by (metis in_set_dropD in_set_takeD)+
    with disj show False by auto
  qed
qed

subsection \<open>\<open>soundex\<close>\<close>

text \<open>The table holds 0 or the digit's character code; the letters are counted from A.\<close>

definition soundex_table :: "nat list" where
  "soundex_table =
     [0, 49, 50, 51, 0, 49, 50, 0, 0, 50, 50, 52, 53, 53, 0, 49, 50, 54, 50, 51, 0, 49, 0, 50, 0, 50]"

fun soundex_loop :: "char list \<Rightarrow> char list \<Rightarrow> nat \<Rightarrow> char list" where
  "soundex_loop [] key lst = key"
| "soundex_loop (c # cs) key lst =
     (if length key < 4 then
        let code = uchar (toupper c)
        in if code \<ge> 65 \<and> code \<le> 90 then
             if length key = 0 then soundex_loop cs [to_char code] (soundex_table ! (code - 65))
             else let code = soundex_table ! (code - 65)
                  in if code \<noteq> lst then soundex_loop cs (if code \<noteq> 0 then key @ [to_char code] else key) code
                     else soundex_loop cs key lst
           else soundex_loop cs key lst
      else key)"

definition soundex :: "char list \<Rightarrow> char list option" where
  "soundex s =
     (if length s = 0 then None
      else let key = soundex_loop s [] 0 in Some (key @ replicate (4 - length key) (CHR ''0'')))"

text \<open>
  The reference: take the codes of all letters, drop repetitions of adjacent codes and then the first
  code and the zeros.
\<close>

definition is_letter :: "char \<Rightarrow> bool" where
  "is_letter c \<longleftrightarrow> 65 \<le> uchar (toupper c) \<and> uchar (toupper c) \<le> 90"

definition letter_code :: "char \<Rightarrow> nat" where
  "letter_code c = soundex_table ! (uchar (toupper c) - 65)"

definition soundex_digits :: "nat list \<Rightarrow> char list" where
  "soundex_digits ks = map to_char (filter (\<lambda>k. k \<noteq> 0) (tl (remdups_adj ks)))"

definition soundex_ref :: "char list \<Rightarrow> char list" where
  "soundex_ref s =
     (case filter is_letter s of
        [] \<Rightarrow> ''0000''
      | c # cs \<Rightarrow> take 4 (toupper c # soundex_digits (map letter_code (c # cs)) @ ''000''))"

lemma soundex_digits_Cons:
  "soundex_digits (l # k # ks) =
    (if l = k then soundex_digits (k # ks) else (if k \<noteq> 0 then [to_char k] else []) @ soundex_digits (k # ks))"
proof (cases "l = k")
  case False
  obtain r where r: "remdups_adj (k # ks) = k # r" by (metis remdups_adj_Cons_alt)
  with False show ?thesis by (simp add: soundex_digits_def)
qed (simp add: soundex_digits_def)

lemma soundex_loop_ok:
  "key \<noteq> [] \<Longrightarrow> length key \<le> 4 \<Longrightarrow>
    soundex_loop s key l = take 4 (key @ soundex_digits (l # map letter_code (filter is_letter s)))"
proof (induction s arbitrary: key l)
  case Nil
  then show ?case by (simp add: soundex_digits_def)
next
  case (Cons c s)
  show ?case
  proof (cases "length key < 4")
    case False
    with Cons.prems show ?thesis by simp
  next
    case True
    then show ?thesis
      using Cons.prems Cons.IH [of key l] Cons.IH [of key "letter_code c"]
        Cons.IH [of "key @ [to_char (letter_code c)]" "letter_code c"]
      by (auto simp: Let_def is_letter_def letter_code_def soundex_digits_Cons simp del: take_append)
  qed
qed

lemma soundex_start:
  "soundex_loop s [] 0 = (case filter is_letter s of [] \<Rightarrow> []
    | c # cs \<Rightarrow> take 4 (toupper c # soundex_digits (map letter_code (c # cs))))"
proof (induction s)
  case (Cons c s)
  have "is_letter c \<Longrightarrow> soundex_loop (c # s) [] 0 = soundex_loop s [toupper c] (letter_code c)"
    by (simp add: Let_def is_letter_def letter_code_def)
  moreover have "\<not> is_letter c \<Longrightarrow> soundex_loop (c # s) [] 0 = soundex_loop s [] 0"
    by (auto simp: Let_def is_letter_def)
  ultimately show ?case using Cons by (simp add: soundex_loop_ok del: soundex_loop.simps)
qed simp

lemma soundex_eq: "soundex s = (if s = [] then None else Some (soundex_ref s))"
proof -
  have pad: "take 4 xs @ replicate (4 - length (take 4 xs)) (CHR ''0'') = take 4 (xs @ ''000'')" if "xs \<noteq> []" for xs
  proof -
    have "length xs = 1 \<or> length xs = 2 \<or> length xs = 3 \<or> 4 \<le> length xs"
    proof -
      have "0 < length xs" using that by simp
      then show ?thesis by linarith
    qed
    then show ?thesis by (elim disjE) (auto simp: numeral_eq_Suc)
  qed
  show ?thesis
  proof (cases "filter is_letter s")
    case Nil
    then show ?thesis by (simp add: soundex_def soundex_start soundex_ref_def numeral_eq_Suc)
  next
    case (Cons c cs)
    then show ?thesis
      using pad [of "toupper c # soundex_digits (map letter_code (c # cs))"]
      by (auto simp: soundex_def soundex_start soundex_ref_def simp del: take_append)
  qed
qed

subsection \<open>\<open>levenshtein\<close>\<close>

text \<open>
  \<open>calc_levdist\<close>. The strings are buffers that end with NUL, the pointers offsets into them; an
  offset outside its buffer is a fault (\<open>None\<close>). First the equal start is skipped.
\<close>

fun lev_skip :: "char list \<Rightarrow> char list \<Rightarrow> nat" where
  "lev_skip (x # xs) (y # ys) = (if x = y \<and> x \<noteq> NUL then Suc (lev_skip xs ys) else 0)"
| "lev_skip _ _ = 0"

text \<open>
  \<open>while (*--s1 == *--s2) { l1--; l2--; }\<close>, from one past the terminating NUL bytes: the loop has no
  other end.
\<close>

fun lev_tail :: "char list \<Rightarrow> char list \<Rightarrow> nat \<Rightarrow> nat \<Rightarrow> int \<Rightarrow> int \<Rightarrow> (int \<times> int \<times> int \<times> int) option" where
  "lev_tail b1 b2 0 s2 l1 l2 = None"
| "lev_tail b1 b2 (Suc s1) 0 l1 l2 = None"
| "lev_tail b1 b2 (Suc s1) (Suc s2) l1 l2 =
     (if b1 ! s1 = b2 ! s2 then lev_tail b1 b2 s1 s2 (l1 - 1) (l2 - 1)
      else Some (int s1, int s2, l1, l2))"

text \<open>The two interleaved rows are kept in \<open>char r[512]\<close>; storing an int keeps its low byte, signed.\<close>

type_synonym lev_rows = "nat \<Rightarrow> int option"

definition lev_get :: "lev_rows \<Rightarrow> nat \<Rightarrow> int option" where
  "lev_get r p = (if p < 512 then r p else None)"

definition lev_put :: "lev_rows \<Rightarrow> nat \<Rightarrow> int \<Rightarrow> lev_rows option" where
  "lev_put r p n = (if p < 512 then Some (r(p \<mapsto> (n + 128) mod 256 - 128)) else None)"

definition lev_char :: "char list \<Rightarrow> int \<Rightarrow> char option" where
  "lev_char b i = (if 0 \<le> i \<and> i < int (length b) then Some (b ! nat i) else None)"

text \<open>The initial row: \<open>l1\<close> cells, every other position.\<close>

fun lev_fill :: "nat \<Rightarrow> nat \<Rightarrow> int \<Rightarrow> lev_rows \<Rightarrow> (int \<times> lev_rows) option" where
  "lev_fill 0 p1 n r = Some (n, r)"
| "lev_fill (Suc k) p1 n r = do { r' \<leftarrow> lev_put r p1 n; lev_fill k (p1 + 2) (n + 1) r' }"

text \<open>The columns of one row, and the rows; \<open>k\<close> counts the iterations that are left.\<close>

fun lev_columns :: "nat \<Rightarrow> char list \<Rightarrow> int \<Rightarrow> char \<Rightarrow> nat \<Rightarrow> nat \<Rightarrow> int \<Rightarrow> lev_rows \<Rightarrow> (int \<times> lev_rows) option" where
  "lev_columns 0 b1 s1 c2 p1 p2 n r = Some (n, r)"
| "lev_columns (Suc k) b1 s1 c2 p1 p2 n r =
     do {
       v \<leftarrow> lev_get r p1;
       c1 \<leftarrow> lev_char b1 s1;
       let n = (if v < n then v + (if c1 \<noteq> c2 then 1 else 0) else n);
       v \<leftarrow> lev_get r (p1 + 2);
       let n = (if v < n then v + 1 else n);
       r \<leftarrow> lev_put r p2 n;
       lev_columns k b1 (s1 + 1) c2 (p1 + 2) (p2 + 2) (n + 1) r
     }"

fun lev_row_loop :: "nat \<Rightarrow> nat \<Rightarrow> nat \<Rightarrow> char list \<Rightarrow> int \<Rightarrow> char list \<Rightarrow> int \<Rightarrow> int \<Rightarrow> lev_rows \<Rightarrow> int option" where
  "lev_row_loop 0 j l1 b1 s1 b2 s2 n r = Some n"
| "lev_row_loop (Suc k) j l1 b1 s1 b2 s2 n r =
     do {
       let p1 = (if odd j then 0 else 1);
       let p2 = (if odd j then 1 else 0);
       v \<leftarrow> lev_get r p1;
       r \<leftarrow> lev_put r p2 (v + 1);
       c2 \<leftarrow> lev_char b2 (s2 + 1);
       (n, r) \<leftarrow> lev_columns (l1 - 1) b1 (s1 + 1) c2 p1 (p2 + 2) (v + 1) r;
       lev_row_loop k (j + 1) l1 b1 s1 b2 (s2 + 1) n r
     }"

definition lev_matrix :: "char list \<Rightarrow> int \<Rightarrow> int \<Rightarrow> char list \<Rightarrow> int \<Rightarrow> int \<Rightarrow> int option" where
  "lev_matrix b1 s1 l1 b2 s2 l2 =
     do {
       c1 \<leftarrow> lev_char b1 s1;
       c2 \<leftarrow> lev_char b2 s2;
       (n, r) \<leftarrow> lev_fill (nat l1) 0 (if c1 \<noteq> c2 then 1 else 0) Map.empty;
       n \<leftarrow> lev_row_loop (nat l2 - 1) 1 (nat l1) b1 s1 b2 s2 n r;
       Some (n - 1)
     }"

definition calc_levdist :: "char list \<Rightarrow> char list \<Rightarrow> int option" where
  "calc_levdist str1 str2 =
     (let b1 = cstr str1 @ [NUL]; b2 = cstr str2 @ [NUL]; i = lev_skip b1 b2;
          l1 = length (cstr str1) - i; l2 = length (cstr str2) - i
      in if b1 ! i = NUL then Some (int l2)
         else if b2 ! i = NUL then Some (int l1)
         else do {
           (s1, s2, l1, l2) \<leftarrow> lev_tail b1 b2 (length b1) (length b2) (int l1) (int l2);
           let s1 = s1 - l1; let s2 = s2 - l2;
           let l1 = l1 + 1; let l2 = l2 + 1;
           if \<bar>l1 - l2\<bar> \<ge> 255 then Some (- 1)
           else if l1 < l2 then lev_matrix b2 s2 l2 b1 s1 l1
           else lev_matrix b1 s1 l1 b2 s2 l2
         })"

text \<open>The edit distance, as the reference.\<close>

fun edit_distance :: "char list \<Rightarrow> char list \<Rightarrow> nat" where
  "edit_distance [] ys = length ys"
| "edit_distance xs [] = length xs"
| "edit_distance (x # xs) (y # ys) =
     min (min (edit_distance xs (y # ys) + 1) (edit_distance (x # xs) ys + 1))
       (edit_distance xs ys + (if x = y then 0 else 1))"

lemma edit_distance_Nil2 [simp]: "edit_distance xs [] = length xs"
  by (cases xs) auto

lemma edit_distance_Cons_le: "edit_distance xs (y # ys) \<le> edit_distance xs ys + 1" "edit_distance (x # xs) ys \<le> edit_distance xs ys + 1"
  by (cases xs; cases ys; simp)+

lemma edit_distance_drop1: "edit_distance xs ys \<le> edit_distance (x # xs) ys + 1"
proof (induction ys)
  case (Cons y ys)
  with edit_distance_Cons_le(1) [of xs y ys] show ?case by (simp add: min_def)
qed simp

lemma edit_distance_drop2: "edit_distance xs ys \<le> edit_distance xs (y # ys) + 1"
proof (induction xs)
  case (Cons x xs)
  with edit_distance_Cons_le(2) [of x xs ys] show ?case by (simp add: min_def)
qed simp

lemma edit_distance_same: "edit_distance (x # xs) (x # ys) = edit_distance xs ys"
  using edit_distance_drop1 [of xs ys x] edit_distance_drop2 [of xs ys x] by (simp add: min_def)

lemma edit_distance_prefix: "edit_distance (p @ xs) (p @ ys) = edit_distance xs ys"
  by (induction p) (simp_all add: edit_distance_same del: edit_distance.simps(3))

lemma lev_skip_prefix:
  "NUL \<notin> set p \<Longrightarrow> lev_skip (p @ xs) (p @ ys) = length p + lev_skip xs ys"
  by (induction p) auto

lemma calc_levdist_ended:
  assumes "lev_skip (cstr a @ [NUL]) (cstr b @ [NUL]) = i"
  shows "(cstr a @ [NUL]) ! i = NUL \<Longrightarrow> calc_levdist a b = Some (int (length (cstr b) - i))"
    and "(cstr a @ [NUL]) ! i \<noteq> NUL \<Longrightarrow> (cstr b @ [NUL]) ! i = NUL \<Longrightarrow>
      calc_levdist a b = Some (int (length (cstr a) - i))"
  unfolding calc_levdist_def Let_def assms by (simp_all only: if_True if_False refl)

lemma calc_levdist_prefix:
  assumes "NUL \<notin> set (p @ t)"
  shows "calc_levdist p (p @ t) = Some (int (length t))" "calc_levdist (p @ t) p = Some (int (length t))"
proof -
  have c: "cstr p = p" "cstr (p @ t) = p @ t" using assms by (auto intro: cstr_id)
  have z: "lev_skip [NUL] (t @ [NUL]) = 0" "lev_skip (t @ [NUL]) [NUL] = 0"
    using assms by (cases t; auto)+
  have sk: "lev_skip (p @ [NUL]) ((p @ t) @ [NUL]) = length p" "lev_skip ((p @ t) @ [NUL]) (p @ [NUL]) = length p"
    using assms z by (simp_all add: lev_skip_prefix)
  have at: "(p @ [NUL]) ! length p = NUL" "((p @ t) @ [NUL]) ! length p = NUL \<longleftrightarrow> t = []"
    using assms by (auto simp: nth_append split: if_splits) (metis length_greater_0_conv nth_mem)
  show "calc_levdist p (p @ t) = Some (int (length t))"
    using calc_levdist_ended(1) [of p "p @ t", unfolded c, OF sk(1) at(1)] by simp
  show "calc_levdist (p @ t) p = Some (int (length t))"
    using calc_levdist_ended [of "p @ t" p, unfolded c, OF sk(2)] at by (cases "t = []") simp_all
qed

subsection \<open>What the functions do\<close>

text \<open>
  \<open>similar_text\<close> is the length of a common subsequence of the two strings, hence at most the
  shorter length; it is the full length for equal strings, and 0 exactly when the strings have no
  character in common. Its first cut is at a longest common substring.
\<close>

lemma similar_text_common_facts:
  shows "\<exists>zs. length zs = php3_similar_text s t \<and> subseq zs s \<and> subseq zs t"
    and "php3_similar_text s t \<le> min (length s) (length t) \<and> php3_similar_text s s = length s"
    and "(php3_similar_text s t = 0) = (set s \<inter> set t = {})"
    and "similar_str s t = Some (p, q, m) \<Longrightarrow> take m (drop p s) = take m (drop q t) \<and>
      p + m \<le> length s \<and> q + m \<le> length t \<and>
      (\<forall>zs. sublist zs s \<and> sublist zs t \<longrightarrow> length zs \<le> m)"
proof -
  have eq: "php3_similar_text s t = similar_char s t" for s t
    by (auto simp: php3_similar_text_def similar_char.simps [of "[]"] similar_str_def)
  show ex: "\<exists>zs. length zs = php3_similar_text s t \<and> subseq zs s \<and> subseq zs t"
    unfolding eq by (rule similar_char_subseq)
  then show "php3_similar_text s t \<le> min (length s) (length t) \<and> php3_similar_text s s = length s"
    by (auto simp: eq similar_char_refl dest: list_emb_length)
  show "(php3_similar_text s t = 0) = (set s \<inter> set t = {})"
  proof (cases "similar_str s t")
    case None
    then show ?thesis unfolding similar_str_None [symmetric] by (simp add: eq similar_char.simps [of s t])
  next
    case (Some r)
    obtain p q m where r: "r = (p, q, m)" by (cases r) auto
    have "0 < m" using similar_str_Some Some r by blast
    then show ?thesis unfolding similar_str_None [symmetric]
      using Some r by (simp add: eq similar_char.simps [of s t])
  qed
  assume best: "similar_str s t = Some (p, q, m)"
  have "length zs \<le> m" if "sublist zs s" "sublist zs t" for zs
  proof (cases "zs = []")
    case False
    from that obtain a b c d where s: "s = a @ zs @ b" and t: "t = c @ zs @ d" by (auto simp: sublist_def)
    have cp: "length zs \<le> common_prefix (zs @ x) (zs @ y)" for x y by (induction zs) auto
    have "(length a, length c) \<in> {..<length s} \<times> {..<length t}" using False s t by auto
    then have "common_prefix (drop (length a) s) (drop (length c) t) \<le> m"
      using similar_str_ok [of s t] best by (force simp: best_of_def)
    then show ?thesis using cp [of b d] s t by simp
  qed simp
  with similar_str_Some [OF best] show "take m (drop p s) = take m (drop q t) \<and>
      p + m \<le> length s \<and> q + m \<le> length t \<and>
      (\<forall>zs. sublist zs s \<and> sublist zs t \<longrightarrow> length zs \<le> m)" by simp
qed

text \<open>
  \<open>soundex\<close> is false exactly for the empty string; otherwise it is the reference: the first letter
  in upper case and the codes of the following letters without adjacent repetitions and without
  zeros, cut or padded to four characters. Other characters and the case of letters do not matter.
\<close>

lemma soundex_reference_facts:
  shows "soundex s = (if s = [] then None else Some (soundex_ref s))"
    and "length (soundex_ref s) = 4"
    and "soundex_ref (filter is_letter s) = soundex_ref s \<and> soundex_ref (map toupper s) = soundex_ref s"
proof -
  show "soundex s = (if s = [] then None else Some (soundex_ref s))" by (rule soundex_eq)
  show "length (soundex_ref s) = 4" by (auto simp: soundex_ref_def split: list.splits)
  have up: "toupper (toupper c) = toupper c" for c
    by (rule uchar_inject [THEN iffD1]) (auto simp: toupper_def islower_def)
  have "filter is_letter (map toupper s) = map toupper (filter is_letter s)"
    by (induction s) (auto simp: is_letter_def up)
  moreover have "letter_code (toupper c) = letter_code c" for c by (simp add: letter_code_def up)
  ultimately show "soundex_ref (filter is_letter s) = soundex_ref s \<and> soundex_ref (map toupper s) = soundex_ref s"
    by (auto simp: soundex_ref_def up comp_def split: list.splits simp del: take_append take_Suc_Cons)
qed

lemma soundex_examples: "soundex ''Robert'' = Some ''R163'' \<and> soundex ''Euler'' = Some ''E460'' \<and> soundex ''?!'' = Some ''0000''"
  by code_simp

text \<open>
  \<open>levenshtein\<close> of a string and an extension of it is the length of what was added, in both
  orders, and this is the edit distance. In general it is not: the first row of the table assumes that the
  first character of the shorter string matches nothing, the loop that cuts off the equal tail runs
  through the start that was skipped before, or past the beginning of a string.
\<close>

lemma levenshtein_prefix_and_faults_facts:
  "NUL \<notin> set (p @ t) \<Longrightarrow> calc_levdist p (p @ t) = Some (int (edit_distance p (p @ t))) \<and>
    calc_levdist (p @ t) p = Some (int (edit_distance (p @ t) p)) \<and> edit_distance p (p @ t) = length t"
  "calc_levdist ''abx'' ''by'' = Some 3 \<and> edit_distance ''abx'' ''by'' = 2"
  "calc_levdist ''yxxa'' ''yxxxa'' = Some 0 \<and> edit_distance ''yxxa'' ''yxxxa'' = 1"
  "calc_levdist ''a'' ''ba'' = None"
proof -
  have "edit_distance (p @ []) (p @ t) = length t" "edit_distance (p @ t) (p @ []) = length t"
    by (simp_all only: edit_distance_prefix edit_distance.simps(1) edit_distance_Nil2)
  then show "NUL \<notin> set (p @ t) \<Longrightarrow> calc_levdist p (p @ t) = Some (int (edit_distance p (p @ t))) \<and>
    calc_levdist (p @ t) p = Some (int (edit_distance (p @ t) p)) \<and> edit_distance p (p @ t) = length t"
    by (simp add: calc_levdist_prefix)
  show "calc_levdist ''abx'' ''by'' = Some 3 \<and> edit_distance ''abx'' ''by'' = 2" by code_simp
  show "calc_levdist ''yxxa'' ''yxxxa'' = Some 0 \<and> edit_distance ''yxxa'' ''yxxxa'' = 1" by code_simp
  show "calc_levdist ''a'' ''ba'' = None" by code_simp
qed

end
