(* ===== verification/Str_Props.thy ===== *)
theory Str_Props
  imports Str_Edit Str_Token Str_Similar
begin

text \<open>
  The properties of the string functions that search, cut, replace and compare.
\<close>

subsection \<open>Searching and replacing\<close>

text \<open>
  C39: \<open>explode\<close> with a non-empty delimiter returns pieces that do not contain the delimiter, and
  \<open>implode\<close> puts them together again; the other way round, imploding pieces free of the delimiter's
  first character and exploding the result gives the pieces back. (\<open>implode\<close> copies with \<open>strcat\<close>, so
  the strings must not contain a NUL byte; its length and its count are \<open>int\<close>.)
\<close>

theorem explode_implode:
  assumes "delim \<noteq> []" "NUL \<notin> set delim"
  shows "(\<exists>ps. php3_explode delim s = Some (Some ps) \<and> (\<forall>x \<in> set ps. \<not> contains x delim) \<and>
      (NUL \<notin> set s \<and> length s < 2 ^ 31 - 1 \<longrightarrow> php3_implode delim (map Some ps) = Some (s, length s))) \<and>
    (\<forall>qs t n. qs \<noteq> [] \<and> length qs < 2 ^ 31 \<longrightarrow> (\<forall>x \<in> set qs. hd delim \<notin> set x \<and> NUL \<notin> set x) \<longrightarrow>
      php3_implode delim (map Some qs) = Some (t, n) \<longrightarrow> php3_explode delim t = Some (Some qs) \<and> length t = n)"
  using explode_implode_facts(1) [OF assms] explode_implode_facts(2) [OF assms] by blast

theorem explode_implode_witness:
  "(\<exists>ps. php3_explode '', '' ''a, b,c'' = Some (Some ps) \<and> (\<forall>x \<in> set ps. \<not> contains x '', ''))
    \<and> php3_explode '', '' ''a, b'' = Some (Some [''a'', ''b''])"
proof -
  have "php3_implode '', '' (map Some [''a'', ''b'']) = Some (''a, b'', 4)" by code_simp
  then show ?thesis
    using explode_implode [of "'', ''" "''a, b,c''"] by (auto dest: spec [of _ "[''a'', ''b'']"])
qed

text \<open>
  \<open>str_replace\<close> with a non-empty needle ends, and the special case of a needle of one character
  and the general one agree: both return the pieces \<open>explode\<close> cuts the string into, joined by the
  replacement; replacing the needle by itself changes nothing.
\<close>

lemma str_replace_joins_pieces:
  assumes "ndl \<noteq> []"
  shows "(\<exists>ps. php3_explode ndl hay = Some (Some ps) \<and>
      php3_str_replace hay ndl rep = Some (Some (if hay = [] then [] else join rep ps))) \<and>
    php3_str_replace hay ndl ndl = Some (Some hay)"
  using str_replace_joins_pieces_facts [OF assms] by blast

lemma str_replace_joins_pieces_example:
  "\<exists>ps. php3_explode ''--'' ''a--b---c'' = Some (Some ps) \<and>
    php3_str_replace ''a--b---c'' ''--'' ''+'' = Some (Some (join ''+'' ps))"
  using str_replace_joins_pieces [of "''--''" "''a--b---c''" "''+''"] by simp

subsection \<open>Cutting\<close>

text \<open>
  \<open>substr\<close> for arguments of moderate size, if the uninitialised \<open>argc\<close> does not happen to be 2:
  the result is the bytes from the start position, counted from the end when it is negative, up to the
  stop position; it is false when the start is not inside the string. A large length overflows \<open>f + l\<close>.
\<close>

lemma substr_range:
  assumes "argc \<noteq> 2" "\<bar>from\<bar> < 2 ^ 30" "\<bar>len\<bar> < 2 ^ 30" "length s < 2 ^ 30"
  defines "n \<equiv> int (length s)"
  defines "f \<equiv> (if from < 0 then max 0 (n + from) else from)"
  defines "e \<equiv> min n (if len < 0 then n + len else f + len)"
  shows "php3_substr argc s from len =
      Some (if f < n then Some (take (nat (e - f)) (drop (nat f) s)) else None) \<and>
    (2 \<le> length s \<longrightarrow> php3_substr argc s 1 2147483647 = None)"
  using substr_range_facts(1) [OF assms(1-4)] substr_range_facts(2) [OF assms(1-4)]
  unfolding n_def [symmetric] f_def [symmetric] e_def [symmetric] by blast

lemma substr_range_example:
  "php3_substr 3 ''abcdef'' (- 4) (- 1) = Some (Some ''cde'') \<and> php3_substr 3 ''abcdef'' 1 2147483647 = None"
  using substr_range [of 3 "- 4" "- 1" "''abcdef''"] by simp

text \<open>
  C40: any sequence of calls of \<open>strtok\<close>, starting from the initial static variables, with new strings
  and separators that may change from call to call, gives the results of the specification, whose
  state is only the rest of the string: a call returns the characters before the first separator and
  drops them and it, and false when nothing is left. In particular the calls with one separator list
  return the tokens of the string in order, empty ones included, and false from then on. False is the empty string,
  so that a caller cannot tell the end from an empty token.
\<close>

theorem strtok_refines:
  "strtok_run calls strtok_initial = strtok_spec_run calls [] \<and>
    strtok_run ((Some s, tok) # replicate n (None, tok)) strtok_initial =
      split_tokens (set (cstr tok)) (Suc n) (cstr s)"
  using strtok_refines_facts by blast

subsection \<open>Comparing\<close>

text \<open>
  \<open>soundex\<close> is false exactly for the empty string; otherwise it is the reference: the first letter
  in upper case and the codes of the following letters without adjacent repetitions and without
  zeros, cut or padded to four characters. Other characters and the case of letters do not matter.
\<close>

lemma soundex_reference:
  "soundex s = (if s = [] then None else Some (soundex_ref s)) \<and> length (soundex_ref s) = 4 \<and>
    soundex_ref (filter is_letter s) = soundex_ref s \<and> soundex_ref (map toupper s) = soundex_ref s"
  using soundex_reference_facts by blast

text \<open>
  \<open>levenshtein\<close> of a string and an extension of it is the length of what was added, in both
  orders, and this is the edit distance. In general it is not: the first row of the table assumes that the
  first character of the shorter string matches nothing, the loop that cuts off the equal tail runs
  through the start that was skipped before, or past the beginning of a string.
\<close>

lemma levenshtein_prefix_and_faults:
  "(NUL \<notin> set (p @ t) \<longrightarrow> calc_levdist p (p @ t) = Some (int (edit_distance p (p @ t))) \<and>
      calc_levdist (p @ t) p = Some (int (edit_distance (p @ t) p)) \<and> edit_distance p (p @ t) = length t) \<and>
    calc_levdist ''abx'' ''by'' = Some 3 \<and> edit_distance ''abx'' ''by'' = 2 \<and>
    calc_levdist ''yxxa'' ''yxxxa'' = Some 0 \<and> edit_distance ''yxxa'' ''yxxxa'' = 1 \<and>
    calc_levdist ''a'' ''ba'' = None"
  using levenshtein_prefix_and_faults_facts by blast

lemma levenshtein_prefix_and_faults_example: "calc_levdist ''abc'' ''abcde'' = Some 2"
proof -
  have "edit_distance ''abc'' ''abcde'' = 2" by code_simp
  then show ?thesis using levenshtein_prefix_and_faults [of "''abc''" "''de''"] by simp
qed

end
