(* ===== verification/Bc_Props.thy ===== *)
theory Bc_Props
  imports Bc_Math
begin

text \<open>
  The properties of the arbitrary precision numbers. They relate each operation to exact arithmetic on
  the rational numbers: \<open>bc_val\<close> is the value of a number, \<open>bc_abs\<close> its magnitude, and \<open>cut s\<close> drops what
  comes after \<open>s\<close> decimal places.
\<close>

subsection \<open>Numbers for the witnesses\<close>

definition dec :: "sign \<Rightarrow> nat \<Rightarrow> nat list \<Rightarrow> bc_num" where
  "dec s k ds = \<lparr>n_sign = s, n_len = length ds - k, n_scale = k, n_value = ds\<rparr>"

lemma dec_fields [simp]:
  "n_sign (dec s k ds) = s" "n_scale (dec s k ds) = k" "n_len (dec s k ds) = length ds - k" "n_value (dec s k ds) = ds"
  by (simp_all add: dec_def)

lemma dec_wf: "bc_wf (dec s k ds) \<longleftrightarrow> k < length ds \<and> digits_ok ds \<and> (length ds - k = 1 \<or> hd ds \<noteq> 0)"
  by (auto simp: bc_wf_def)

lemma dec_abs: "bc_abs (dec s k ds) = of_nat (dval ds) / 10 ^ k" "bc_val (dec s k ds) = bc_sgn s * (of_nat (dval ds) / 10 ^ k)"
  by (simp_all add: bc_abs_def bc_val_def)

lemmas dec_simps = dec_wf dec_abs dval_def no_minus_zero_def

subsection \<open>Representation, addition, comparison\<close>

text \<open>
  C37: Every operation on well-formed numbers gives a well-formed number: as many digits as the two
  lengths say, all below 10, at least one before the point, and no leading zero beyond it; so does every
  conversion of a string, and that of an \<open>int\<close>, whose value it has, unless the \<open>int\<close> is the least one, for which
  \<open>val = -val\<close> overflows.
\<close>

theorem bc_ops_well_formed:
  assumes "bc_wf n1" "bc_wf n2"
  shows "bc_wf (str2num str scale) \<and> n_scale (str2num str scale) \<le> scale \<and>
    (v \<in> {- 2147483648 <..< 2147483648} \<longrightarrow> (\<exists>n. int2num v = Some n \<and> bc_wf n \<and> bc_val n = of_int v)) \<and> int2num (- 2147483648) = None \<and>
    bc_wf (bc_add n1 n2 scale) \<and> bc_wf (bc_sub n1 n2 scale) \<and> bc_wf (bc_multiply n1 n2 scale) \<and>
    (\<forall>q. bc_divide n1 n2 scale = Some q \<longrightarrow> bc_wf q) \<and> (\<forall>r. bc_modulo n1 n2 scale = Some r \<longrightarrow> bc_wf r)"
proof -
  have "bc_wf q" if "bc_divide n1 n2 scale = Some q" for q
    using bc_divide_ok [OF assms] bc_divide_none [of n1 n2 scale] that by (metis option.discI option.inject)
  moreover have "bc_wf r" if "bc_modulo n1 n2 scale = Some r" for r
    using bc_modulo_ok [OF assms] that by (metis bc_divmod_def bc_modulo_def option.discI option.inject option.map_disc_iff)
  moreover have "\<exists>n. int2num v = Some n \<and> bc_wf n \<and> bc_val n = of_int v" if "v \<in> {- 2147483648 <..< 2147483648}"
    using that int2num_ok [of v] by (metis greaterThanLessThan_iff)
  ultimately show ?thesis
    using str2num_ok bc_add_ok(1) [OF assms] bc_sub_ok(1) [OF assms] bc_multiply_ok(1) [OF assms] int2num_min by blast
qed

theorem bc_ops_well_formed_witness:
  "bc_wf (bc_add (dec PLUS 1 [9, 9, 5]) (dec PLUS 0 [7]) 0) \<and> bc_wf (str2num ''1.2.3'' 5) \<and>
    (\<exists>n. int2num (- 2147483647) = Some n \<and> bc_wf n \<and> bc_val n = - 2147483647)"
  using bc_ops_well_formed [of "dec PLUS 1 [9, 9, 5]" "dec PLUS 0 [7]" _ _ "- 2147483647"] by (simp add: dec_simps)

text \<open>
  C33: Addition and subtraction are exact for all signs, and the scale of the result is the greatest of
  the two scales and the scale asked for.
\<close>

theorem bc_add_sub_exact:
  assumes "bc_wf n1" "bc_wf n2"
  shows "bc_val (bc_add n1 n2 scale) = bc_val n1 + bc_val n2 \<and> bc_val (bc_sub n1 n2 scale) = bc_val n1 - bc_val n2 \<and>
    n_scale (bc_add n1 n2 scale) = max scale (max (n_scale n1) (n_scale n2)) \<and>
    n_scale (bc_sub n1 n2 scale) = max scale (max (n_scale n1) (n_scale n2))"
  using bc_add_ok [OF assms] bc_sub_ok [OF assms] by blast

theorem bc_add_sub_exact_witness:
  "bc_val (bc_add (dec PLUS 1 [9, 9, 5]) (dec MINUS 2 [0, 7, 5]) 0) = 395 / 4"
  using bc_add_sub_exact [of "dec PLUS 1 [9, 9, 5]" "dec MINUS 2 [0, 7, 5]" 0] by (simp add: dec_simps)

text \<open>
  Comparison orders the numbers by value when neither is a zero with a minus sign. Such a zero, which
  \<open>str2num\<close> makes of \<open>-0.0\<close>, compares less than zero.
\<close>

lemma bc_compare_order:
  assumes "bc_wf n1" "bc_wf n2" "no_minus_zero n1" "no_minus_zero n2"
  shows "bc_compare n1 n2 = (if bc_val n1 < bc_val n2 then - 1 else if bc_val n1 = bc_val n2 then 0 else 1) \<and>
    bc_compare (str2num ''-0.0'' 1) bc_zero = - 1 \<and> bc_val (str2num ''-0.0'' 1) = bc_val bc_zero"
proof -
  have "str2num ''-0.0'' 1 = dec MINUS 1 [0, 0]" by code_simp
  moreover have "bc_compare (dec MINUS 1 [0, 0]) bc_zero = - 1" by code_simp
  ultimately show ?thesis using compare_val [OF assms] by (simp add: cmp_rat_def dec_simps)
qed

lemma bc_compare_order_example: "bc_compare (dec MINUS 2 [0, 7, 5]) (dec MINUS 1 [0, 8]) = 1"
  using bc_compare_order [of "dec MINUS 2 [0, 7, 5]" "dec MINUS 1 [0, 8]"] by (simp add: dec_simps)

subsection \<open>Multiplication and division\<close>

text \<open>
  C34: The product has as many decimal places as the operands together, but no more than the greatest of
  their scales and the scale asked for; it is the exact product cut off there, and a zero product is
  never negative. With enough room it is exact.
\<close>

theorem bc_multiply_cut:
  fixes scale :: nat
  assumes "bc_wf n1" "bc_wf n2"
  defines "s \<equiv> min (n_scale n1 + n_scale n2) (max scale (max (n_scale n1) (n_scale n2)))"
  shows "n_scale (bc_multiply n1 n2 scale) = s \<and>
    bc_abs (bc_multiply n1 n2 scale) = cut s (bc_abs n1 * bc_abs n2) \<and>
    n_sign (bc_multiply n1 n2 scale) =
      (if bc_abs (bc_multiply n1 n2 scale) = 0 \<or> n_sign n1 = n_sign n2 then PLUS else MINUS) \<and>
    (n_scale n1 + n_scale n2 \<le> scale \<longrightarrow> bc_val (bc_multiply n1 n2 scale) = bc_val n1 * bc_val n2)"
  using bc_multiply_ok [OF assms(1,2), of scale] bc_multiply_exact(1) [OF assms(1,2), of scale]
  unfolding s_def cut_def by auto

theorem bc_multiply_cut_witness:
  "bc_val (bc_multiply (dec PLUS 1 [2, 5]) (dec MINUS 2 [1, 2, 5]) 3) = - 25 / 8"
  using bc_multiply_cut [of "dec PLUS 1 [2, 5]" "dec MINUS 2 [1, 2, 5]" 3] by (simp add: dec_simps)

text \<open>
  C30: Division: the digit by digit algorithm, with its guesses from the leading digits, gives the
  quotient of long division: the exact quotient of the magnitudes cut off after \<open>scale\<close> places, with the
  sign of the quotient unless it is zero. It fails exactly for a zero divisor.
\<close>

theorem bc_divide_long_division:
  assumes "bc_wf n1" "bc_wf n2"
  shows "(bc_divide n1 n2 scale = None) = (bc_val n2 = 0) \<and>
    (bc_val n2 \<noteq> 0 \<longrightarrow> (\<exists>q. bc_divide n1 n2 scale = Some q \<and> bc_wf q \<and> n_scale q = scale \<and>
      bc_abs q = cut scale (bc_abs n1 / bc_abs n2) \<and>
      n_sign q = (if bc_val q = 0 \<or> n_sign n1 = n_sign n2 then PLUS else MINUS)))"
proof -
  have "\<exists>q. bc_divide n1 n2 scale = Some q \<and> bc_wf q \<and> n_scale q = scale \<and>
      bc_abs q = cut scale (bc_abs n1 / bc_abs n2) \<and>
      n_sign q = (if bc_val q = 0 \<or> n_sign n1 = n_sign n2 then PLUS else MINUS)" if nz: "\<not> is_zero n2"
  proof -
    obtain q where q: "bc_divide n1 n2 scale = Some q" "bc_wf q" "n_scale q = scale"
      "bc_abs q = cut scale (bc_abs n1 / bc_abs n2)"
      "n_sign q = (if is_zero q \<or> n_sign n1 = n_sign n2 then PLUS else MINUS)"
      using bc_divide_ok [OF assms nz] by blast
    then show ?thesis using is_zero_val [OF q(2)] by simp
  qed
  then show ?thesis using bc_divide_none is_zero_val [OF assms(2)] by simp
qed

theorem bc_divide_long_division_witness:
  "\<exists>q. bc_divide (dec PLUS 0 [1]) (dec PLUS 0 [7]) 5 = Some q \<and> bc_val q = 14285 / 100000"
proof -
  have "\<lfloor>1 / 7 * 10 ^ 5 :: rat\<rfloor> = 14285" by (rule floor_unique) simp_all
  then have "cut 5 (bc_abs (dec PLUS 0 [1]) / bc_abs (dec PLUS 0 [7])) = 14285 / 100000"
    by (simp add: cut_def dec_simps)
  then show ?thesis
    using bc_divide_long_division [of "dec PLUS 0 [1]" "dec PLUS 0 [7]" 5] by (auto simp: dec_simps bc_sgn_def plus_val)
qed

text \<open>
  \<open>bc_divmod\<close>: dividend = quotient * divisor + remainder holds exactly, the remainder is smaller than
  the divisor at the quotient's scale, and \<open>bc_modulo\<close> returns this remainder.
\<close>

lemma bc_divmod_identity:
  assumes "bc_wf n1" "bc_wf n2" "bc_val n2 \<noteq> 0"
  shows "\<exists>q r. bc_divmod n1 n2 scale = Some (q, r) \<and> bc_divide n1 n2 scale = Some q \<and>
    bc_modulo n1 n2 scale = Some r \<and> bc_val n1 = bc_val q * bc_val n2 + bc_val r \<and>
    bc_abs r < bc_abs n2 / 10 ^ scale \<and> n_scale r = max (n_scale n1) (n_scale n2 + scale)"
proof -
  have "\<not> is_zero n2" using assms(3) is_zero_val [OF assms(2)] by simp
  from bc_divmod_ok [OF assms(1,2) this, of scale] obtain q r where
    "bc_divmod n1 n2 scale = Some (q, r)" "bc_divide n1 n2 scale = Some q"
    "bc_val n1 = bc_val q * bc_val n2 + bc_val r" "bc_abs r < bc_abs n2 / 10 ^ scale"
    "n_scale r = max (n_scale n1) (n_scale n2 + scale)" by blast
  then show ?thesis by (auto simp: bc_modulo_def)
qed

lemma bc_divmod_identity_example:
  "\<exists>q r. bc_divmod (dec MINUS 0 [7]) (dec PLUS 0 [2]) 0 = Some (q, r) \<and> - 7 = bc_val q * 2 + bc_val r"
  using bc_divmod_identity [of "dec MINUS 0 [7]" "dec PLUS 0 [2]" 0] by (auto simp: dec_simps bc_sgn_def)

subsection \<open>Powers and roots\<close>

text \<open>
  C35: \<open>bc_raise\<close>: an exponent that is not negative and fits a \<open>long\<close> gives the exact power when the scale asked for
  has room for it; the integer part is used of an exponent with a fraction, with a warning. A negative one gives 1
  divided by the power, with its sign and cut off at the scale, for a base without a fraction, and leaves the old
  result for base 0. An exponent that does not fit a \<open>long\<close> gives 1 with a warning, unless the conversion to \<open>long\<close>
  overflows unseen, which takes further digits after those of \<open>LONG_MAX + 1\<close> or \<open>LONG_MAX + 2\<close>:
  92233720368547758085 is taken for 5.
\<close>

theorem bc_raise_power:
  assumes "bc_wf n1" "bc_wf n2"
  defines "fraction \<equiv> if n_scale n2 \<noteq> 0 then [''non-zero scale in exponent''] else []"
  shows "(int (int_part n2) \<le> LONG_MAX \<longrightarrow> snd (bc_raise n1 n2 res scale) = fraction) \<and>
    (int (int_part n2) \<le> LONG_MAX \<longrightarrow> n_sign n2 = PLUS \<or> int_part n2 = 0 \<longrightarrow>
      n_scale n1 * int_part n2 \<le> scale \<longrightarrow> scale < 2 ^ 31 \<longrightarrow>
      bc_val (fst (bc_raise n1 n2 res scale)) = bc_val n1 ^ int_part n2) \<and>
    (int (int_part n2) \<le> LONG_MAX \<longrightarrow> n_sign n2 = MINUS \<longrightarrow> int_part n2 \<noteq> 0 \<longrightarrow> n_scale n1 = 0 \<longrightarrow>
      (if bc_val n1 = 0 then fst (bc_raise n1 n2 res scale) = res
       else bc_val (fst (bc_raise n1 n2 res scale)) =
         (if bc_val n1 < 0 \<and> odd (int_part n2) then - 1 else 1) * cut scale (1 / bc_abs n1 ^ int_part n2))) \<and>
    (LONG_MAX < int (int_part n2) \<longrightarrow> (\<forall>k > 0. int_part n2 div 10 ^ k \<notin> {2 ^ 63, 2 ^ 63 + 1}) \<longrightarrow>
      bc_raise n1 n2 res scale = (bc_one, fraction @ [''exponent too large in raise''])) \<and>
    num2long (str2num ''92233720368547758085'' 0) = 5"
proof (intro conjI impI)
  show "num2long (str2num ''92233720368547758085'' 0) = 5" by code_simp
  show "snd (bc_raise n1 n2 res scale) = fraction" if "int (int_part n2) \<le> LONG_MAX"
    unfolding fraction_def by (rule bc_raise_warnings [OF assms(2) that])
  show "bc_raise n1 n2 res scale = (bc_one, fraction @ [''exponent too large in raise''])"
    if "LONG_MAX < int (int_part n2)" "\<forall>k > 0. int_part n2 div 10 ^ k \<notin> {2 ^ 63, 2 ^ 63 + 1}"
    unfolding fraction_def by (rule bc_raise_too_large [OF assms(2) that(1)]) (use that(2) in \<open>auto simp: hidden_overflow_def\<close>)
  show "if bc_val n1 = 0 then fst (bc_raise n1 n2 res scale) = res
       else bc_val (fst (bc_raise n1 n2 res scale)) =
         (if bc_val n1 < 0 \<and> odd (int_part n2) then - 1 else 1) * cut scale (1 / bc_abs n1 ^ int_part n2)"
    if m: "int (int_part n2) \<le> LONG_MAX" "n_sign n2 = MINUS" "int_part n2 \<noteq> 0" "n_scale n1 = 0"
    using bc_raise_neg [OF assms(1) m(4) assms(2) m(2) _ m(1)] m(3) is_zero_val [OF assms(1)] by simp
  show "bc_val (fst (bc_raise n1 n2 res scale)) = bc_val n1 ^ int_part n2"
    if p: "int (int_part n2) \<le> LONG_MAX" "n_sign n2 = PLUS \<or> int_part n2 = 0" "n_scale n1 * int_part n2 \<le> scale" "scale < 2 ^ 31"
  proof (cases "int_part n2 = 0")
    case True
    then show ?thesis using bc_raise_zero [OF True assms(2)] by simp
  next
    case False
    then have s: "n_sign n2 = PLUS" "0 < int_part n2" using p(2) by simp_all
    have "n_scale n1 \<le> scale" using power_scales [OF p(3) s(2)] .
    then have "n_scale n1 * int_part n2 \<le> max scale (n_scale n1)" "max scale (n_scale n1) < 2 ^ 31"
      using p(3,4) by (simp_all add: max_absorb1)
    from bc_raise_ok(2) [OF assms(1,2) s p(1) this] show ?thesis .
  qed
qed

theorem bc_raise_power_witness:
  "bc_val (fst (bc_raise (dec PLUS 1 [1, 5]) (dec PLUS 0 [3]) bc_zero 3)) = 27 / 8 \<and>
    fst (bc_raise (dec PLUS 0 [0]) (dec MINUS 0 [1]) bc_zero 3) = bc_zero \<and>
    bc_val (fst (bc_raise (dec MINUS 0 [2]) (dec MINUS 0 [1]) bc_zero 3)) = - cut 3 (1 / 2) \<and>
    bc_raise bc_two (dec PLUS 0 [2, 2, 2, 2, 2, 2, 2, 2, 2, 2, 2, 2, 2, 2, 2, 2, 2, 2, 2, 2]) bc_zero 0 = (bc_one, [''exponent too large in raise''])"
proof -
  have e: "int_part (dec PLUS 0 [3]) = 3" "int_part (dec MINUS 0 [Suc 0]) = Suc 0" by (simp_all add: int_part_def dval_def)
  let ?n = "dec PLUS 0 [2, 2, 2, 2, 2, 2, 2, 2, 2, 2, 2, 2, 2, 2, 2, 2, 2, 2, 2, 2]"
  have n: "int_part ?n = 22222222222222222222" by (simp add: int_part_def dval_def)
  have "(22222222222222222222 :: nat) div 10 ^ k \<notin> {2 ^ 63, 2 ^ 63 + 1}" if "0 < k" for k
  proof (cases k)
    case (Suc j)
    have "(22222222222222222222 :: nat) div 10 ^ k \<le> 2222222222222222222"
      unfolding Suc power_Suc div_mult2_eq by (rule order_trans [OF div_le_dividend]) simp
    then show ?thesis by auto
  qed (use that in simp)
  then have overflow: "\<forall>k > 0. int_part ?n div 10 ^ k \<notin> {2 ^ 63, 2 ^ 63 + 1}" unfolding n by blast
  have "bc_wf bc_two" "bc_wf ?n" by (simp_all add: dec_simps)
  from bc_raise_power [OF this, of bc_zero 0, THEN conjunct2, THEN conjunct2, THEN conjunct2, THEN conjunct1, THEN mp, THEN mp, OF _ overflow]
  have "bc_raise bc_two ?n bc_zero 0 = (bc_one, [''exponent too large in raise''])" by (simp add: n LONG_MAX_def)
  then show ?thesis
    using bc_raise_power [of "dec PLUS 1 [1, 5]" "dec PLUS 0 [3]" bc_zero 3]
      bc_raise_power [of "dec PLUS 0 [0]" "dec MINUS 0 [1]" bc_zero 3]
      bc_raise_power [of "dec MINUS 0 [2]" "dec MINUS 0 [1]" bc_zero 3]
    by (simp add: dec_simps e LONG_MAX_def power3_eq_cube bc_sgn_def)
qed

text \<open>
  \<open>bc_raisemod\<close> for integers: the loop over the binary digits of the exponent ends, and the result
  is congruent to the power modulo the modulus and, unless the exponent is 0, smaller than it. A
  negative exponent and a zero modulus are refused.
\<close>

lemma bc_raisemod_residue:
  assumes "bc_int base" "bc_int expo" "bc_int m"
  shows "(n_sign expo = MINUS \<or> int_val m = 0 \<longrightarrow> bc_raisemod base expo m 0 = Some Raisemod_Error) \<and>
    (n_sign expo = PLUS \<longrightarrow> int_val m \<noteq> 0 \<longrightarrow>
      (\<exists>r. bc_raisemod base expo m 0 = Some (Raisemod_OK r []) \<and> bc_int r \<and>
        int_val m dvd int_val base ^ nat (int_val expo) - int_val r \<and>
        (if int_val expo = 0 then int_val r = 1 else \<bar>int_val r\<bar> < \<bar>int_val m\<bar>)))"
proof -
  have "\<exists>r. bc_raisemod base expo m 0 = Some (Raisemod_OK r []) \<and> bc_int r \<and>
        int_val m dvd int_val base ^ nat (int_val expo) - int_val r \<and>
        (if int_val expo = 0 then int_val r = 1 else \<bar>int_val r\<bar> < \<bar>int_val m\<bar>)"
    if s: "n_sign expo = PLUS" "int_val m \<noteq> 0"
  proof -
    have nz: "\<not> is_zero m" using s(2) is_zero_int [OF assms(3)] by simp
    have pos: "0 \<le> int_val expo" using s(1) by (simp add: int_val_def)
    show ?thesis
      by (rule bc_raisemod_ok [OF assms s(1) nz]) (use pos in auto)
  qed
  moreover have "bc_raisemod base expo m 0 = Some Raisemod_Error" if "n_sign expo = MINUS \<or> int_val m = 0"
    using that is_zero_int [OF assms(3)] by (auto simp: bc_raisemod_def is_neg_def)
  ultimately show ?thesis by blast
qed

lemma bc_raisemod_residue_example:
  "\<exists>r. bc_raisemod (dec PLUS 0 [7]) (dec PLUS 0 [1, 2]) (dec PLUS 0 [1, 3]) 0 = Some (Raisemod_OK r []) \<and>
    13 dvd 13841287201 - int_val r \<and> \<bar>int_val r\<bar> < 13"
  using bc_raisemod_residue [of "dec PLUS 0 [7]" "dec PLUS 0 [1, 2]" "dec PLUS 0 [1, 3]"]
  by (auto simp: bc_int_def dec_simps int_val_def)

text \<open>
  C31: \<open>bc_sqrt\<close> ends for every number: a number with a minus sign is refused, 0 gives 0, and from
  \<open>10 ^ -6\<close> on the result is less than one unit of its last decimal place away from the square root.
\<close>

theorem bc_sqrt_newton:
  fixes scale :: nat
  assumes "bc_wf num" "n_len num < 2 ^ 31"
  defines "u \<equiv> 1 / 10 ^ max scale (n_scale num)"
  shows "(n_sign num = MINUS \<longrightarrow> bc_sqrt num scale = Some (0, num)) \<and>
    (bc_val num = 0 \<and> n_sign num = PLUS \<longrightarrow> bc_sqrt num scale = Some (1, bc_zero)) \<and>
    (1 / 10 ^ 6 \<le> bc_val num \<longrightarrow> (\<exists>r. bc_sqrt num scale = Some (1, r) \<and> bc_wf r \<and> 0 \<le> bc_val r \<and>
      (bc_val r - u) ^ 2 \<le> bc_val num \<and> bc_val num < (bc_val r + u) ^ 2))"
proof -
  have "\<exists>r. bc_sqrt num scale = Some (1, r) \<and> bc_wf r \<and> 0 \<le> bc_val r \<and>
      (bc_val r - u) ^ 2 \<le> bc_val num \<and> bc_val num < (bc_val r + u) ^ 2" if big: "1 / 10 ^ 6 \<le> bc_val num"
  proof -
    have s: "n_sign num = PLUS"
    proof (rule ccontr)
      assume "n_sign num \<noteq> PLUS"
      then have "bc_val num \<le> 0" using bc_abs_nonneg [of num] by (cases "n_sign num") (auto simp: bc_val_def)
      moreover have "(0::rat) < 1 / 10 ^ 6" by simp
      ultimately show False using big by linarith
    qed
    show ?thesis
      by (rule bc_sqrt_ok [OF assms(1) s assms(2) big [unfolded plus_val [OF s]]])
        (auto simp: u_def plus_val s)
  qed
  then show ?thesis using bc_sqrt_simple [OF assms(1)] plus_val [of num] by auto
qed

theorem bc_sqrt_newton_witness:
  "\<exists>r. bc_sqrt (dec PLUS 0 [2]) 3 = Some (1, r) \<and> bc_val r < 1416 / 1000 \<and> 1413 / 1000 < bc_val r"
proof -
  obtain r where r: "bc_sqrt (dec PLUS 0 [2]) 3 = Some (1, r)" "0 \<le> bc_val r"
    "(bc_val r - 1 / 1000) ^ 2 \<le> 2" "2 < (bc_val r + 1 / 1000) ^ 2"
    using bc_sqrt_newton [of "dec PLUS 0 [2]" 3] by (auto simp: dec_simps)
  have "bc_val r < 1416 / 1000"
  proof (rule ccontr)
    assume "\<not> bc_val r < 1416 / 1000"
    then have "(1415 / 1000 :: rat) ^ 2 \<le> (bc_val r - 1 / 1000) ^ 2" by (intro power_mono) auto
    moreover have "(2 :: rat) < (1415 / 1000) ^ 2" by (simp add: power2_eq_square)
    ultimately show False using r(3) by linarith
  qed
  moreover have "1413 / 1000 < bc_val r"
  proof (rule ccontr)
    assume "\<not> 1413 / 1000 < bc_val r"
    then have "(bc_val r + 1 / 1000) ^ 2 \<le> (1414 / 1000 :: rat) ^ 2" using r(2) by (intro power_mono) auto
    moreover have "(1414 / 1000 :: rat) ^ 2 < 2" by (simp add: power2_eq_square)
    ultimately show False using r(4) by linarith
  qed
  ultimately show ?thesis using r(1) by blast
qed

text \<open>
  C32: \<open>bc_sqrt\<close> of a number between 0 and \<open>10 ^ -6\<close> is 0, whatever the scale: the working scale of the
  first iterations, 3, is too small for such a number, the guess becomes 0 and stays there.
\<close>

theorem bc_sqrt_vanishes:
  assumes "bc_wf num" "n_len num < 2 ^ 31" "0 < bc_val num" "bc_val num < 1 / 10 ^ 6"
  shows "\<exists>r. bc_sqrt num scale = Some (1, r) \<and> bc_wf r \<and> bc_val r = 0"
proof -
  have s: "n_sign num = PLUS"
    using assms(3) bc_abs_nonneg [of num] by (cases "n_sign num") (auto simp: bc_val_def)
  show ?thesis
    by (rule bc_sqrt_small [OF assms(1) s assms(2)]) (use assms(3,4) plus_val [OF s] in auto)
qed

theorem bc_sqrt_vanishes_witness:
  "\<exists>r. bc_sqrt (dec PLUS 8 [0, 0, 0, 0, 0, 0, 0, 0, 1]) 8 = Some (1, r) \<and> bc_val r = 0 \<and>
    bc_val (dec PLUS 8 [0, 0, 0, 0, 0, 0, 0, 0, 1]) = (1 / 10 ^ 4) ^ 2"
  using bc_sqrt_vanishes [of "dec PLUS 8 [0, 0, 0, 0, 0, 0, 0, 0, 1]" 8] by (auto simp: dec_simps power2_eq_square)

subsection \<open>Text\<close>

text \<open>
  C36: Reading a printed number back gives the number, for every well-formed number that fits the scale
  and is not a zero with a minus sign; a literal (sign, digits, point, digits) has the value it
  denotes, the fraction cut off after \<open>scale\<close> digits.
\<close>

theorem num2str_str2num:
  assumes "bc_wf n" "n_scale n \<le> scale" "no_minus_zero n" "list_all isdigit ds" "list_all isdigit fs" "ds \<noteq> [] \<or> fs \<noteq> []"
    "sg \<in> {[], ''+'', ''-''}"
  shows "str2num (num2str n) scale = n \<and>
    bc_val (str2num (literal sg ds fs) scale) =
      (if sg = ''-'' then - 1 else 1) * (of_nat (dval (map ch_val (ds @ take scale fs))) / 10 ^ min (length fs) scale)"
proof -
  let ?ws = "dropWhile (\<lambda>c. c = CHR ''0'') ds"
  have drop: "dval (map ch_val ?ws @ xs) = dval (map ch_val ds @ xs)" for xs
    by (induction ds) (auto simp: dval_Cons ch_val_def code_of)
  have "bc_val (str2num (literal sg ds fs) scale) =
      (if sg = ''-'' then - 1 else 1) * (of_nat (dval (map ch_val (ds @ take scale fs))) / 10 ^ min (length fs) scale)"
  proof (cases "?ws = [] \<and> fs = []")
    case False
    then have "?ws \<noteq> [] \<or> fs \<noteq> []" by simp
    from str2num_literal [OF assms(7,4,5) this, of scale]
    have n: "str2num (literal sg ds fs) scale = number_of (if sg = ''-'' then MINUS else PLUS) ?ws fs scale" .
    have "n_sign (number_of s ?ws fs scale) = s" for s by (simp add: number_of_def)
    then show ?thesis unfolding n bc_val_def number_of_abs map_append drop by (simp add: bc_sgn_def)
  next
    case True
    then have ws: "?ws = []" by blast
    have skip: "skip_sign (literal sg ds fs) = ds"
      unfolding skip_sign_literal [OF assms(7,4)] using True by (simp add: literal_def)
    have "str2num (literal sg ds fs) scale = bc_zero" unfolding str2num_def Let_def skip ws by simp
    moreover have "dval (map ch_val ds) = 0" using drop [of "[]"] True by simp
    moreover have "fs = []" using True by simp
    ultimately show ?thesis by simp
  qed
  with num2str_round_trip [OF assms(1-3)] show ?thesis by blast
qed

theorem num2str_str2num_witness:
  "str2num ''-12.50'' 4 = dec MINUS 2 [1, 2, 5, 0] \<and> bc_val (str2num ''-007.129'' 2) = - 712 / 100"
proof -
  have "num2str (dec MINUS 2 [1, 2, 5, 0]) = ''-12.50''" by code_simp
  moreover have "literal ''-'' ''007'' ''129'' = ''-007.129''" by code_simp
  moreover have "dval (map ch_val (''007'' @ take 2 ''129'')) = 712" by code_simp
  moreover have "list_all isdigit ''007''" "list_all isdigit ''129''" by code_simp+
  ultimately show ?thesis
    using num2str_str2num [of "dec MINUS 2 [1, 2, 5, 0]" 4 "''007''" "''129''" "''-''"]
      num2str_str2num [of "dec MINUS 2 [1, 2, 5, 0]" 2 "''007''" "''129''" "''-''"] by (simp add: dec_simps)
qed

text \<open>
  The PHP functions on two numbers in text form, with a scale that holds both: \<open>bcadd\<close>, \<open>bcsub\<close> and
  \<open>bcmul\<close> print the sum, the difference and the cut product, \<open>bcdiv\<close> the cut quotient or warns, and
  \<open>bccomp\<close> returns the order. The scale argument and the configured default act alike, but for \<open>bcmul\<close>.
\<close>

lemma bcmath_functions:
  assumes "bc_wf a" "bc_wf b" "n_scale a \<le> scale" "n_scale b \<le> scale" "no_minus_zero a" "no_minus_zero b" "scale < 2 ^ 31"
    "prec = int scale \<and> arg = None \<or> arg = Some (int scale)"
  shows "\<exists>sm d p. php3_bcmath_add prec (num2str a) (num2str b) arg = Some (RString (num2str sm)) \<and>
      bc_val sm = bc_val a + bc_val b \<and> n_scale sm = scale \<and>
      php3_bcmath_sub prec (num2str a) (num2str b) arg = Some (RString (num2str d)) \<and>
      bc_val d = bc_val a - bc_val b \<and> n_scale d = scale \<and>
      php3_bcmath_mul prec (num2str a) (num2str b) (int scale) = Some (RString (num2str p)) \<and>
      bc_abs p = cut (min (n_scale a + n_scale b) scale) (bc_abs a * bc_abs b) \<and>
      php3_bcmath_comp prec (num2str a) (num2str b) arg =
        Some (RLong (if bc_val a < bc_val b then - 1 else if bc_val a = bc_val b then 0 else 1)) \<and>
      (if bc_val b = 0 then php3_bcmath_div prec (num2str a) (num2str b) arg = Some (RWarning ''Division by zero'')
       else \<exists>q. php3_bcmath_div prec (num2str a) (num2str b) arg = Some (RString (num2str q)) \<and> n_scale q = scale \<and>
         bc_abs q = cut scale (bc_abs a / bc_abs b))"
proof -
  have ws: "with_scale prec arg f = f scale" for f
    using assms(7,8) with_scale_nat [of scale prec f] with_default [of scale f] by auto
  have ws': "with_scale prec (Some (int scale)) f = f scale" for f using assms(7) by (rule with_scale_nat)
  note rt = num2str_round_trip [OF assms(1,3,5)] num2str_round_trip [OF assms(2,4,6)] cstr_num2str [OF assms(1)] cstr_num2str [OF assms(2)]
  have mx: "max scale (max (n_scale a) (n_scale b)) = scale" using assms(3,4) by simp
  note add = bc_add_ok [OF assms(1,2), of scale, unfolded mx] and sub = bc_sub_ok [OF assms(1,2), of scale, unfolded mx]
    and mul = bc_multiply_ok [OF assms(1,2), of scale, unfolded mx, folded cut_def]
    and cmp = compare_val [OF assms(1,2,5,6), unfolded cmp_rat_def]
  have "if bc_val b = 0 then bc_divide a b scale = None
       else \<exists>q. bc_divide a b scale = Some q \<and> n_scale q = scale \<and> bc_abs q = cut scale (bc_abs a / bc_abs b)"
    using bc_divide_ok [OF assms(1,2), of scale] bc_divide_none [of a b scale] is_zero_val [OF assms(2)] by metis
  then have div: "if bc_val b = 0 then php3_bcmath_div prec (num2str a) (num2str b) arg = Some (RWarning ''Division by zero'')
       else \<exists>q. php3_bcmath_div prec (num2str a) (num2str b) arg = Some (RString (num2str q)) \<and> n_scale q = scale \<and>
         bc_abs q = cut scale (bc_abs a / bc_abs b)"
    by (auto simp: php3_bcmath_div_def ws rt split: if_splits)
  show ?thesis
    by (rule exI [of _ "bc_add a b scale"], rule exI [of _ "bc_sub a b scale"], rule exI [of _ "bc_multiply a b scale"])
      (use add sub mul cmp div in \<open>simp add: php3_bcmath_add_def php3_bcmath_sub_def php3_bcmath_mul_def
        php3_bcmath_comp_def ws ws' rt\<close>)
qed

lemma bcmath_functions_example:
  "\<exists>sm. php3_bcmath_add 0 ''1.5'' ''-0.75'' (Some 2) = Some (RString (num2str sm)) \<and> bc_val sm = 3 / 4"
proof -
  have "num2str (dec PLUS 1 [1, 5]) = ''1.5''" "num2str (dec MINUS 2 [0, 7, 5]) = ''-0.75''" by code_simp+
  then show ?thesis
    using bcmath_functions [of "dec PLUS 1 [1, 5]" "dec MINUS 2 [0, 7, 5]" 2 0 "Some 2"] by (auto simp: dec_simps)
qed

end
