(* ===== verification/Token_Cache.thy ===== *)
theory Token_Cache
  imports Base
begin

text \<open>
  The token caches of \<^verbatim>\<open>php-src/token_cache.c\<close>. The scanner's tokens are kept in growing arrays, one for
  the script and one for each text given to \<open>eval\<close> or \<open>include\<close>, so that the parser can go back to a token it has
  seen: loops and function calls are jumps of the reading position. A token is named by a number that has the
  index of its cache above bit \<open>TOKEN_BITS\<close> and its place in the cache below.

  The scanner \<open>lex_scan\<close>, which flex generates, is an argument: a function of its state \<open>'s\<close> and of the
  manager (at the end of an \<open>eval\<close> it seeks). \<open>php3_display_source\<close> reads the flag of that name, which the
  scanner can change, from \<open>'s\<close>. \<open>emalloc\<close> and \<open>erealloc\<close> do not return \<open>NULL\<close>. An array slot that was
  never written is \<open>None\<close>; the result \<open>None\<close> of an operation is a memory fault. \<open>int\<close> arithmetic on token numbers
  wraps around.
\<close>

subsection \<open>Token types\<close>

definition STRING :: int where "STRING = 296"
definition NUM_STRING :: int where "NUM_STRING = 297"
definition INLINE_HTML :: int where "INLINE_HTML = 298"
definition BAD_CHARACTER :: int where "BAD_CHARACTER = 300"
definition ENCAPSED_AND_WHITESPACE :: int where "ENCAPSED_AND_WHITESPACE = 301"
definition PHP_CLASS_OPERATOR :: int where "PHP_CLASS_OPERATOR = 333"
definition DONE_EVAL :: int where "DONE_EVAL = 339"
definition STRING_CONSTANT :: int where "STRING_CONSTANT = 342"

lemmas token_types = STRING_def NUM_STRING_def INLINE_HTML_def BAD_CHARACTER_def
  ENCAPSED_AND_WHITESPACE_def PHP_CLASS_OPERATOR_def DONE_EVAL_def STRING_CONSTANT_def

text \<open>The token types from \<open>LOGICAL_OR\<close> to \<open>PHP_FILE\<close> that stand for a word of the language.\<close>

definition is_reserved_word :: "int \<Rightarrow> bool" where
  "is_reserved_word t \<longleftrightarrow> t \<in> {258, 260, 259, 261, 302, 289, 290, 291, 292, 293, 303, 304, 305, 306, 307, 308, 309,
     310, 311, 312, 313, 317, 320, 318, 321, 322, 323, 324, 325, 326, 327, 328, 329, 330, 331, 332, 335, 336, 288,
     337, 338, 340, 341}"

definition last_token_suggests_variable_reference :: "int \<Rightarrow> bool" where
  "last_token_suggests_variable_reference last_type \<longleftrightarrow> last_type = 36 \<or> last_type = PHP_CLASS_OPERATOR"

subsection \<open>Token numbers\<close>

definition TOKEN_BITS :: nat where "TOKEN_BITS = 20"
definition TC_BITS :: nat where "TC_BITS = 12"

definition TC_OFFSET :: "int \<Rightarrow> int" where
  "TC_OFFSET n = n div 2 ^ TOKEN_BITS"

definition TOKEN_OFFSET :: "int \<Rightarrow> nat" where
  "TOKEN_OFFSET n = nat (n mod 2 ^ TOKEN_BITS)"

text \<open>\<open>(active<<TOKEN_BITS) + count\<close>, an \<open>int\<close>.\<close>

definition token_number :: "nat \<Rightarrow> nat \<Rightarrow> int" where
  "token_number c i = wrap_int (int c * 2 ^ TOKEN_BITS + int i)"

subsection \<open>Caches\<close>

text \<open>
  A string in a \<open>pval\<close> is \<open>Str\<close> with its bytes, any other value is \<open>Lit\<close>; \<open>Wild n\<close> is a string of length
  \<open>n\<close> whose pointer is not one of this process. \<open>switched\<close> and \<open>included\<close> are one byte of a union.
\<close>

datatype 'v lexval = Str "char list" | Lit 'v | Wild nat

record 'v token =
  token_type :: int
  tok_value :: "'v lexval"
  cs_data :: nat
  offset :: int
  lineno :: int

record 'v cache =
  tc_tokens :: "'v token option list"
  tc_count :: nat
  tc_pos :: nat
  tc_max_tokens :: nat
  tc_block_size :: nat

record 'v manager =
  token_caches :: "'v cache option list"
  active :: nat
  tcm_max :: nat
  initialized :: nat
  current :: nat
  last_token_type :: int

definition TOKEN_CACHE_BLOCK_SIZE :: nat where "TOKEN_CACHE_BLOCK_SIZE = 8192"
definition TOKEN_CACHES_BLOCK_SIZE :: nat where "TOKEN_CACHES_BLOCK_SIZE = 4"

text \<open>The cache \<open>token_caches[i]\<close>, an \<open>int\<close> index.\<close>

definition cache_at :: "'v manager \<Rightarrow> int \<Rightarrow> 'v cache option" where
  "cache_at m i = (if 0 \<le> i \<and> i < int (length (token_caches m)) then token_caches m ! nat i else None)"

definition set_cache :: "'v manager \<Rightarrow> nat \<Rightarrow> 'v cache \<Rightarrow> 'v manager" where
  "set_cache m i c = m\<lparr>token_caches := (token_caches m)[i := Some c]\<rparr>"

definition tc_init :: "nat \<Rightarrow> 'v cache" where
  "tc_init bs = \<lparr>tc_tokens = replicate bs None, tc_count = 0, tc_pos = 0, tc_max_tokens = bs, tc_block_size = bs\<rparr>"

definition tcm_init :: "int \<times> 'v manager" where
  "tcm_init = (SUCCESS,
     \<lparr>token_caches = (replicate TOKEN_CACHES_BLOCK_SIZE None)[0 := Some (tc_init TOKEN_CACHE_BLOCK_SIZE)],
      active = 0, tcm_max = TOKEN_CACHES_BLOCK_SIZE, initialized = 1, current = 0, last_token_type = - 1\<rparr>)"

definition tcm_new :: "'v manager \<Rightarrow> nat \<Rightarrow> (int \<times> 'v manager) option" where
  "tcm_new m bs =
     (if initialized m \<ge> 2 ^ TC_BITS then Some (FAILURE, m)
      else
        let m1 = m\<lparr>initialized := initialized m + 1\<rparr>;
            m2 = (if initialized m1 \<ge> tcm_max m1
                  then m1\<lparr>token_caches := token_caches m1 @ replicate TOKEN_CACHES_BLOCK_SIZE None,
                          tcm_max := tcm_max m1 + TOKEN_CACHES_BLOCK_SIZE\<rparr>
                  else m1);
            m3 = m2\<lparr>active := initialized m2 - 1\<rparr>
        in if active m3 < length (token_caches m3)
           then Some (SUCCESS, (set_cache m3 (active m3) (tc_init bs))\<lparr>current := active m3\<rparr>)
           else None)"

subsection \<open>Reading\<close>

text \<open>What \<open>lex_scan\<close> leaves: its result, \<open>phplval\<close>, \<open>phplineno\<close> and \<open>phptext\<close>.\<close>

record 'v lexeme =
  lex_type :: int
  lex_value :: "'v lexval"
  lex_lineno :: int
  phptext :: "char list"

text \<open>The token made of a lexeme. A reserved word after \<open>$\<close> or \<open>->\<close> becomes a \<open>STRING\<close>.\<close>

definition make_token :: "'v manager \<Rightarrow> nat \<Rightarrow> 'v lexeme \<Rightarrow> 'v token" where
  "make_token m count lx =
     (let t = \<lparr>token_type = lex_type lx, tok_value = lex_value lx, cs_data = 0,
               offset = token_number (active m) count mod 2 ^ 32, lineno = lex_lineno lx\<rparr>
      in if last_token_suggests_variable_reference (last_token_type m) \<and> is_reserved_word (token_type t)
         then t\<lparr>tok_value := Str (phptext lx), token_type := STRING\<rparr> else t)"

definition grow_tokens :: "'v cache \<Rightarrow> 'v cache" where
  "grow_tokens c =
     (if tc_count c \<ge> tc_max_tokens c
      then c\<lparr>tc_tokens := tc_tokens c @ replicate (tc_block_size c) None,
             tc_max_tokens := tc_max_tokens c + tc_block_size c\<rparr>
      else c)"

definition read_next_token ::
  "('v manager \<Rightarrow> 's \<Rightarrow> 'v lexeme \<times> 'v manager \<times> 's) \<Rightarrow> ('s \<Rightarrow> bool) \<Rightarrow> 'v manager \<Rightarrow> 's \<Rightarrow>
    (int \<times> 'v token option \<times> 'v manager \<times> 's) option" where
  "read_next_token lex_scan php3_display_source m s =
     do {
       c \<leftarrow> cache_at m (int (current m));
       if tc_count c = tc_pos c \<or> php3_display_source s then
         let (lx, m1, s1) = lex_scan m s in
         if lex_type lx = DONE_EVAL then Some (DONE_EVAL, None, m1, s1)
         else do {
           c0 \<leftarrow> cache_at m1 (int (current m1));
           let c1 = grow_tokens c0; t = make_token m1 (tc_count c0) lx;
             m2 = (set_cache m1 (current m1) c1)\<lparr>last_token_type := token_type t\<rparr>
           in if php3_display_source s1 then Some (token_type t, Some t, m2, s1)
              else if tc_count c1 < length (tc_tokens c1) \<and> tc_pos c1 < length (tc_tokens c1) then do {
                let c2 = c1\<lparr>tc_tokens := (tc_tokens c1)[tc_count c1 := Some t], tc_count := tc_count c1 + 1\<rparr>;
                r \<leftarrow> tc_tokens c2 ! tc_pos c2;
                Some (token_type r, Some r, set_cache m2 (current m2) (c2\<lparr>tc_pos := tc_pos c2 + 1\<rparr>), s1)
              } else None
         }
       else if tc_pos c < length (tc_tokens c) then do {
         r \<leftarrow> tc_tokens c ! tc_pos c;
         Some (token_type r, Some r, set_cache m (current m) (c\<lparr>tc_pos := tc_pos c + 1\<rparr>), s)
       } else None
     }"

subsection \<open>Jumps and marks\<close>

definition seek_token :: "'v manager \<Rightarrow> int \<Rightarrow> (int \<times> 'v manager) option" where
  "seek_token m n =
     (let i = TC_OFFSET n; t = TOKEN_OFFSET n in
      if i \<ge> int (initialized m) then Some (FAILURE, m)
      else do {
        c \<leftarrow> cache_at m i;
        if t > tc_count c then Some (FAILURE, m)
        else Some (SUCCESS, (set_cache m (nat i) (c\<lparr>tc_pos := t\<rparr>))\<lparr>active := nat i, current := nat i\<rparr>)
      })"

definition tc_get_current_offset :: "'v manager \<Rightarrow> int option" where
  "tc_get_current_offset m = do { c \<leftarrow> cache_at m (int (current m)); Some (token_number (active m) (tc_pos c)) }"

text \<open>The three functions that change one field of a token that has been read, and the one that reads it.\<close>

definition change_token :: "('v token \<Rightarrow> 'v token) \<Rightarrow> 'v manager \<Rightarrow> int \<Rightarrow> (int \<times> 'v manager) option" where
  "change_token f m n =
     do {
       c \<leftarrow> cache_at m (TC_OFFSET n);
       if TOKEN_OFFSET n \<ge> tc_count c then Some (FAILURE, m)
       else if TOKEN_OFFSET n < length (tc_tokens c) then do {
         t \<leftarrow> tc_tokens c ! TOKEN_OFFSET n;
         Some (SUCCESS, set_cache m (nat (TC_OFFSET n)) (c\<lparr>tc_tokens := (tc_tokens c)[TOKEN_OFFSET n := Some (f t)]\<rparr>))
       } else None
     }"

definition tc_set_token :: "'v manager \<Rightarrow> int \<Rightarrow> int \<Rightarrow> (int \<times> 'v manager) option" where
  "tc_set_token m n ty = change_token (\<lambda>t. t\<lparr>token_type := ty\<rparr>) m n"

definition tc_set_switched :: "'v manager \<Rightarrow> int \<Rightarrow> (int \<times> 'v manager) option" where
  "tc_set_switched m n = change_token (\<lambda>t. t\<lparr>cs_data := 1\<rparr>) m n"

definition tc_set_included :: "'v manager \<Rightarrow> int \<Rightarrow> (int \<times> 'v manager) option" where
  "tc_set_included m n = change_token (\<lambda>t. t\<lparr>cs_data := 1\<rparr>) m n"

definition tc_get_token :: "'v manager \<Rightarrow> int \<Rightarrow> int option" where
  "tc_get_token m n =
     do {
       c \<leftarrow> cache_at m (TC_OFFSET n);
       if TOKEN_OFFSET n \<ge> tc_count c then Some FAILURE
       else if TOKEN_OFFSET n < length (tc_tokens c) then map_option token_type (tc_tokens c ! TOKEN_OFFSET n)
       else None
     }"

subsection \<open>Exchanging two parts of a \<open>for\<close>\<close>

text \<open>
  \<open>memcpy\<close> of \<open>n\<close> elements: out of a block, into a block, and between two places of one block that must
  not overlap.
\<close>

definition copy_from :: "'a list \<Rightarrow> nat \<Rightarrow> nat \<Rightarrow> 'a list option" where
  "copy_from xs a n = (if a + n \<le> length xs then Some (take n (drop a xs)) else None)"

definition copy_to :: "'a list \<Rightarrow> nat \<Rightarrow> 'a list \<Rightarrow> 'a list option" where
  "copy_to xs a ys = (if a + length ys \<le> length xs then Some (take a xs @ ys @ drop (a + length ys) xs) else None)"

definition copy_within :: "'a list \<Rightarrow> nat \<Rightarrow> nat \<Rightarrow> nat \<Rightarrow> 'a list option" where
  "copy_within xs dst src n =
     (if src + n \<le> dst \<or> dst + n \<le> src then do { ys \<leftarrow> copy_from xs src n; copy_to xs dst ys } else None)"

text \<open>The loop over \<open>i\<close> that numbers the tokens anew; it runs \<open>n\<close> times.\<close>

fun renumber :: "nat \<Rightarrow> nat \<Rightarrow> nat \<Rightarrow> 'v token option list \<Rightarrow> 'v token option list option" where
  "renumber c i 0 ts = Some ts"
| "renumber c i (Suc n) ts =
     (if i < length ts then do {
        t \<leftarrow> ts ! i;
        renumber c (Suc i) n (ts[i := Some (t\<lparr>offset := token_number c i mod 2 ^ 32\<rparr>)])
      } else None)"

definition tc_switch :: "'v manager \<Rightarrow> int \<Rightarrow> int \<Rightarrow> int \<Rightarrow> (int \<times> 'v manager) option" where
  "tc_switch m start_token end_token middle_token =
     do {
       c \<leftarrow> cache_at m (TC_OFFSET start_token);
       let act = nat (TC_OFFSET start_token);
           start = TOKEN_OFFSET start_token; end = TOKEN_OFFSET end_token; middle = TOKEN_OFFSET middle_token
       in if end \<ge> tc_count c \<or> middle < start \<or> middle > end then Some (FAILURE, m)
          else let first_chunk = middle - start; second_chunk = end - middle; ts = tc_tokens c in
            if first_chunk = 0 \<and> second_chunk = 0 then Some (SUCCESS, m)
            else do {
              middles \<leftarrow> copy_from ts middle 1;
              ts1 \<leftarrow> (if first_chunk < second_chunk then do {
                  temp \<leftarrow> copy_from ts (middle + 1) second_chunk;
                  ts1 \<leftarrow> copy_within ts (end - first_chunk + 1) start first_chunk;
                  copy_to ts1 start temp
                } else do {
                  temp \<leftarrow> copy_from ts start first_chunk;
                  ts1 \<leftarrow> copy_within ts start (middle + 1) second_chunk;
                  copy_to ts1 (end - first_chunk + 1) temp
                });
              ts2 \<leftarrow> copy_to ts1 (start + second_chunk) middles;
              ts3 \<leftarrow> renumber act start (end + 1 - start) ts2;
              Some (SUCCESS, set_cache m act (c\<lparr>tc_tokens := ts3\<rparr>))
            }
     }"

subsection \<open>Precompiled scripts\<close>

text \<open>
  The file \<open>tcm_save\<close> writes, by the items it writes with \<open>fwrite\<close>: the four letters, the structure of the
  cache, the array of tokens, and the bytes of the strings one after another. A pointer in a token that is
  read back is \<open>Wild\<close>.
\<close>

record 'v script =
  sc_magic :: "char list"
  sc_header :: "'v cache option"
  sc_tokens :: "'v token list"
  sc_text :: "char list"

definition forget_pointer :: "'v token \<Rightarrow> 'v token" where
  "forget_pointer t = (case tok_value t of Str s \<Rightarrow> t\<lparr>tok_value := Wild (length s)\<rparr> | _ \<Rightarrow> t)"

text \<open>The string values the loop of \<open>tcm_save\<close> writes; \<open>None\<close> when a token of these types has no string.\<close>

fun saved_text :: "'v token list \<Rightarrow> char list option" where
  "saved_text [] = Some []"
| "saved_text (t # ts) =
     (if token_type t \<in> {STRING, NUM_STRING, INLINE_HTML, ENCAPSED_AND_WHITESPACE, BAD_CHARACTER}
      then (case tok_value t of Str s \<Rightarrow> do { r \<leftarrow> saved_text ts; Some (s @ r) } | _ \<Rightarrow> None)
      else saved_text ts)"

definition read_array :: "'a option list \<Rightarrow> nat \<Rightarrow> 'a list option" where
  "read_array ts n = (if n \<le> length ts then those (take n ts) else None)"

definition tcm_save :: "'v manager \<Rightarrow> 'v script option option" where
  "tcm_save m =
     (if initialized m > 1 then Some None
      else do {
        c \<leftarrow> cache_at m 0;
        ts \<leftarrow> read_array (tc_tokens c) (tc_count c);
        x \<leftarrow> saved_text ts;
        Some (Some \<lparr>sc_magic = ''PHP3'', sc_header = Some c, sc_tokens = map forget_pointer ts, sc_text = x\<rparr>)
      })"

text \<open>
  The loop of \<open>tcm_load\<close>, with whether it ran to the end of the array: it stops when the file ends inside
  a string. \<open>None\<close> when the value of a token of these types is no string, whose length would be arbitrary.
\<close>

fun loaded_text :: "'v token list \<Rightarrow> char list \<Rightarrow> (bool \<times> 'v token list) option" where
  "loaded_text [] x = Some (True, [])"
| "loaded_text (t # ts) x =
     (if token_type t \<in> {STRING, NUM_STRING, INLINE_HTML, ENCAPSED_AND_WHITESPACE}
      then (case tok_value t of
          Wild n \<Rightarrow>
            if length x < n then Some (False, t # ts)
            else do { (ok, r) \<leftarrow> loaded_text ts (drop n x); Some (ok, t\<lparr>tok_value := Str (take n x)\<rparr> # r) }
        | _ \<Rightarrow> None)
      else do { (ok, r) \<leftarrow> loaded_text ts x; Some (ok, t # r) })"

text \<open>
  The old array is freed first. \<open>fread\<close> stops at the end of the file, but not at the end of the array, whose
  size is another field of the file.
\<close>

definition tcm_load :: "'v manager \<Rightarrow> 'v script \<Rightarrow> (int \<times> 'v manager) option" where
  "tcm_load m f =
     do {
       c \<leftarrow> cache_at m 0;
       if sc_magic f \<noteq> ''PHP3'' \<or> sc_header f = None then Some (FAILURE, set_cache m 0 (c\<lparr>tc_tokens := []\<rparr>))
       else do {
         h \<leftarrow> sc_header f;
         let ts = take (tc_count h) (sc_tokens f);
             array = (\<lambda>ts. map Some ts @ replicate (tc_max_tokens h - length ts) None)
         in if tc_max_tokens h < length ts then None
            else if length ts \<noteq> tc_count h then Some (FAILURE, set_cache m 0 (h\<lparr>tc_tokens := array ts\<rparr>))
            else do {
              (ok, ts1) \<leftarrow> loaded_text ts (sc_text f);
              if ok then Some (SUCCESS, set_cache m 0 (h\<lparr>tc_tokens := array ts1, tc_pos := 0\<rparr>))
              else Some (FAILURE, set_cache m 0 (h\<lparr>tc_tokens := array ts1\<rparr>))
            }
       }
     }"

text \<open>The name of the file \<open>tcm_save\<close> writes.\<close>

definition output_name :: "char list option \<Rightarrow> char list" where
  "output_name filename =
     (case filename of
       None \<Rightarrow> ''stdin.php3p''
     | Some f \<Rightarrow>
         if length f > 5 \<and> drop (length f - 5) f = ''.php3'' then f @ ''p'' else f @ ''.php3p'')"

subsection \<open>The end\<close>

text \<open>The values \<open>tc_destroy\<close> and \<open>tcm_destroy\<close> give to \<open>pval_destructor\<close>, in this order.\<close>

definition tc_destroy :: "'v cache \<Rightarrow> 'v lexval list option" where
  "tc_destroy c = map_option (map tok_value) (read_array (tc_tokens c) (tc_count c))"

definition tcm_destroy :: "'v manager \<Rightarrow> 'v lexval list option" where
  "tcm_destroy m =
     do { cs \<leftarrow> read_array (token_caches m) (initialized m); map_option concat (those (map tc_destroy cs)) }"

end
