(* ===== verification/Token_Props.thy ===== *)
theory Token_Props
  imports Token_Cache
begin

text \<open>
  What the token caches promise: a token that has been read is read again, unchanged, after a jump back to
  its number; \<open>tc_switch\<close> exchanges the two parts of a \<open>for\<close>; numbers name a token as long as there are at
  most \<open>2 ^ 11\<close> caches; a saved script is loaded back if it has only strings of the saved types.
\<close>

subsection \<open>The invariant\<close>

definition cache_inv :: "nat \<Rightarrow> 'v cache \<Rightarrow> bool" where
  "cache_inv i c \<longleftrightarrow> length (tc_tokens c) = tc_max_tokens c \<and> tc_pos c \<le> tc_count c \<and> tc_count c \<le> tc_max_tokens c \<and>
     0 < tc_block_size c \<and>
     (\<forall>j < tc_count c. \<exists>t. tc_tokens c ! j = Some t \<and> offset t = token_number i j mod 2 ^ 32)"

definition tcm_inv :: "'v manager \<Rightarrow> bool" where
  "tcm_inv m \<longleftrightarrow> active m < initialized m \<and> current m = active m \<and> initialized m < tcm_max m \<and>
     initialized m \<le> 2 ^ TC_BITS \<and> length (token_caches m) = tcm_max m \<and>
     (\<forall>i < initialized m. \<exists>c. token_caches m ! i = Some c \<and> cache_inv i c)"

text \<open>The active cache, and its tokens.\<close>

definition the_cache :: "'v manager \<Rightarrow> 'v cache" where
  "the_cache m = the (token_caches m ! active m)"

definition stored :: "'v cache \<Rightarrow> 'v token list" where
  "stored c = map the (take (tc_count c) (tc_tokens c))"

lemma tcm_invD:
  assumes "tcm_inv m"
  shows "cache_at m (int (active m)) = Some (the_cache m)" "cache_inv (active m) (the_cache m)"
    "current m = active m" "active m < length (token_caches m)" "token_caches m ! active m = Some (the_cache m)"
  using assms by (auto simp: tcm_inv_def cache_at_def the_cache_def)

lemma set_cache_fields [simp]:
  "active (set_cache m i c) = active m" "current (set_cache m i c) = current m"
  "initialized (set_cache m i c) = initialized m" "tcm_max (set_cache m i c) = tcm_max m"
  "last_token_type (set_cache m i c) = last_token_type m"
  "token_caches (set_cache m i c) = (token_caches m)[i := Some c]"
  by (simp_all add: set_cache_def)

lemma set_cache_twice [simp]: "set_cache (set_cache m i c) i d = set_cache m i d"
  by (simp add: set_cache_def)

lemma set_cache_inv: "tcm_inv m \<Longrightarrow> cache_inv i c \<Longrightarrow> tcm_inv (set_cache m i c)"
  unfolding tcm_inv_def set_cache_fields length_list_update
  by (metis nth_list_update_eq nth_list_update_neq order.strict_trans)

lemma the_cache_set [simp]: "tcm_inv m \<Longrightarrow> the_cache (set_cache m (active m) c) = c"
  by (simp add: the_cache_def tcm_invD)

lemma cache_at_set [simp]: "tcm_inv m \<Longrightarrow> cache_at (set_cache m (active m) c) (int (active m)) = Some c"
  by (simp add: cache_at_def tcm_invD)

lemma set_same_cache: "tcm_inv m \<Longrightarrow> set_cache m (active m) (the_cache m) = m"
  using tcm_invD(5) [of m] by (metis list_update_id manager.surjective manager.update_convs(1) set_cache_def)

lemma tc_init_inv: "0 < bs \<Longrightarrow> cache_inv i (tc_init bs)"
  by (simp add: cache_inv_def tc_init_def)

lemma tcm_init_inv: "tcm_inv (snd tcm_init)"
  by (auto simp: tcm_inv_def tcm_init_def TOKEN_CACHES_BLOCK_SIZE_def TOKEN_CACHE_BLOCK_SIZE_def TC_BITS_def
      intro: tc_init_inv)

lemma tcm_new_ok:
  assumes "tcm_inv m" "0 < bs" "initialized m < 2 ^ TC_BITS"
  obtains m' where "tcm_new m bs = Some (SUCCESS, m')" "tcm_inv m'" "initialized m' = initialized m + 1"
    "active m' = initialized m" "the_cache m' = tc_init bs"
proof -
  let ?g = "if initialized m + 1 \<ge> tcm_max m then token_caches m @ replicate TOKEN_CACHES_BLOCK_SIZE None else token_caches m"
  let ?m = "m\<lparr>token_caches := ?g[initialized m := Some (tc_init bs)], active := initialized m,
    initialized := initialized m + 1, current := initialized m,
    tcm_max := if initialized m + 1 \<ge> tcm_max m then tcm_max m + TOKEN_CACHES_BLOCK_SIZE else tcm_max m\<rparr>"
  have "tcm_new m bs = Some (SUCCESS, ?m)"
    using assms by (simp add: tcm_new_def tcm_inv_def Let_def set_cache_def TOKEN_CACHES_BLOCK_SIZE_def)
  moreover have "tcm_inv ?m"
    using assms by (auto simp: tcm_inv_def TOKEN_CACHES_BLOCK_SIZE_def nth_list_update nth_append
        less_Suc_eq intro: tc_init_inv)
  moreover have "the_cache ?m = tc_init bs" using assms by (simp add: the_cache_def tcm_inv_def nth_list_update)
  ultimately show ?thesis by (intro that [of ?m]) simp_all
qed

subsection \<open>Reading\<close>

text \<open>Read \<open>n\<close> tokens.\<close>

fun read_tokens ::
  "('v manager \<Rightarrow> 's \<Rightarrow> 'v lexeme \<times> 'v manager \<times> 's) \<Rightarrow> ('s \<Rightarrow> bool) \<Rightarrow> nat \<Rightarrow> 'v manager \<Rightarrow> 's \<Rightarrow>
    ('v token list \<times> 'v manager \<times> 's) option" where
  "read_tokens lex_scan display 0 m s = Some ([], m, s)"
| "read_tokens lex_scan display (Suc n) m s =
     do {
       (r, t, m1, s1) \<leftarrow> read_next_token lex_scan display m s;
       t \<leftarrow> t;
       (ts, m2, s2) \<leftarrow> read_tokens lex_scan display n m1 s1;
       Some (t # ts, m2, s2)
     }"

text \<open>A scanner inside one text, outside the display of sources.\<close>

definition plain_scanner ::
  "('v manager \<Rightarrow> 's \<Rightarrow> 'v lexeme \<times> 'v manager \<times> 's) \<Rightarrow> ('s \<Rightarrow> bool) \<Rightarrow> bool" where
  "plain_scanner lex_scan display \<longleftrightarrow> (\<forall>m s. fst (snd (lex_scan m s)) = m \<and> lex_type (fst (lex_scan m s)) \<noteq> DONE_EVAL) \<and>
     (\<forall>s. \<not> display s)"

lemma grow_tokens_inv:
  assumes "cache_inv i c"
  shows "cache_inv i (grow_tokens c)" "tc_count (grow_tokens c) < tc_max_tokens (grow_tokens c)"
    "tc_count (grow_tokens c) = tc_count c" "tc_pos (grow_tokens c) = tc_pos c" "stored (grow_tokens c) = stored c"
  using assms by (auto simp: cache_inv_def grow_tokens_def stored_def nth_append)

lemma read_stored:
  assumes "tcm_inv m" "tc_pos (the_cache m) < tc_count (the_cache m)" "\<not> display s"
  shows "read_next_token lex_scan display m s =
    Some (token_type (stored (the_cache m) ! tc_pos (the_cache m)), Some (stored (the_cache m) ! tc_pos (the_cache m)),
      set_cache m (active m) ((the_cache m)\<lparr>tc_pos := tc_pos (the_cache m) + 1\<rparr>), s)"
proof -
  have c: "cache_inv (active m) (the_cache m)" "cache_at m (int (current m)) = Some (the_cache m)"
    using tcm_invD [OF assms(1)] by simp_all
  then obtain t where t: "tc_tokens (the_cache m) ! tc_pos (the_cache m) = Some t"
    using assms(2) by (auto simp: cache_inv_def)
  then have "stored (the_cache m) ! tc_pos (the_cache m) = t"
    using assms(2) c(1) by (simp add: stored_def cache_inv_def)
  then show ?thesis
    using assms(2,3) c t tcm_invD(3) [OF assms(1)] by (simp add: read_next_token_def cache_inv_def)
qed

lemma read_new:
  assumes "tcm_inv m" "tc_pos (the_cache m) = tc_count (the_cache m)" "plain_scanner lex_scan display"
  obtains t m' s' where "read_next_token lex_scan display m s = Some (token_type t, Some t, m', s')"
    "tcm_inv m'" "active m' = active m" "initialized m' = initialized m"
    "tc_pos (the_cache m') = tc_pos (the_cache m) + 1"
    "tc_count (the_cache m') = tc_pos (the_cache m')"
    "stored (the_cache m') = stored (the_cache m) @ [t]"
proof -
  let ?c = "the_cache m" and ?i = "active m"
  have c: "cache_inv ?i ?c" "cache_at m (int (current m)) = Some ?c" "current m = ?i"
    using tcm_invD [OF assms(1)] by simp_all
  obtain lx s1 where lx: "lex_scan m s = (lx, m, s1)" "lex_type lx \<noteq> DONE_EVAL" "\<not> display s" "\<not> display s1"
    using assms(3) unfolding plain_scanner_def by (metis prod.collapse)
  define g where "g = grow_tokens ?c"
  note g = grow_tokens_inv [OF c(1), folded g_def]
  let ?t = "make_token m (tc_count ?c) lx"
  let ?d = "g\<lparr>tc_tokens := (tc_tokens g)[tc_count g := Some ?t], tc_count := tc_count g + 1, tc_pos := tc_pos g + 1\<rparr>"
  let ?m = "(set_cache m ?i ?d)\<lparr>last_token_type := token_type ?t\<rparr>"
  have len: "tc_count g < length (tc_tokens g)" using g(1,2) by (simp add: cache_inv_def)
  have "read_next_token lex_scan display m s = Some (token_type ?t, Some ?t, ?m, s1)"
    using c lx assms(2) g(3,4) len
    by (simp add: read_next_token_def Let_def g_def [symmetric] set_cache_def)
  moreover have "offset ?t = token_number ?i (tc_count ?c) mod 2 ^ 32"
    by (simp add: make_token_def Let_def)
  then have "cache_inv ?i ?d"
    using g(1-4) len by (auto simp: cache_inv_def nth_list_update less_Suc_eq)
  then have "tcm_inv ?m" using set_cache_inv [OF assms(1)] by (simp add: tcm_inv_def)
  moreover have "the_cache ?m = ?d" using tcm_invD(4) [OF assms(1)] by (simp add: the_cache_def)
  moreover have "stored ?d = stored ?c @ [?t]"
    using len g(5) by (simp add: stored_def take_Suc_conv_app_nth)
  ultimately show ?thesis using assms(2) g(3,4) by (intro that [of ?t ?m s1]) auto
qed

lemma set_pos_inv: "cache_inv i c \<Longrightarrow> p \<le> tc_count c \<Longrightarrow> cache_inv i (c\<lparr>tc_pos := p\<rparr>)"
  by (simp add: cache_inv_def)

lemma stored_length: "cache_inv i c \<Longrightarrow> length (stored c) = tc_count c"
  by (simp add: stored_def cache_inv_def)

lemma stored_pos [simp]: "stored (c\<lparr>tc_pos := p\<rparr>) = stored c"
  by (simp add: stored_def)

lemma read_again:
  assumes "tcm_inv m" "tc_pos (the_cache m) + n \<le> tc_count (the_cache m)" "\<And>s. \<not> display s"
  shows "read_tokens lex_scan display n m s = Some (take n (drop (tc_pos (the_cache m)) (stored (the_cache m))),
    set_cache m (active m) ((the_cache m)\<lparr>tc_pos := tc_pos (the_cache m) + n\<rparr>), s)"
  using assms(1,2)
proof (induction n arbitrary: m)
  case 0
  show ?case using set_same_cache [OF 0(1)] by simp
next
  case (Suc n)
  let ?c = "the_cache m"
  let ?m = "set_cache m (active m) (?c\<lparr>tc_pos := tc_pos ?c + 1\<rparr>)"
  have c: "cache_inv (active m) ?c" using tcm_invD [OF Suc.prems(1)] by simp
  then have inv: "tcm_inv ?m"
    using Suc.prems by (intro set_cache_inv set_pos_inv) simp_all
  have IH: "read_tokens lex_scan display n ?m s = Some (take n (drop (tc_pos ?c + 1) (stored ?c)),
      set_cache m (active m) (?c\<lparr>tc_pos := tc_pos ?c + Suc n\<rparr>), s)"
    using Suc.IH [OF inv] Suc.prems by simp
  have "stored ?c ! tc_pos ?c # take n (drop (tc_pos ?c + 1) (stored ?c)) = take (Suc n) (drop (tc_pos ?c) (stored ?c))"
    using Suc.prems(2) stored_length [OF c] by (simp add: Cons_nth_drop_Suc [symmetric])
  then show ?case using read_stored [where display = display and lex_scan = lex_scan and s = s, OF Suc.prems(1) _ assms(3)] Suc.prems(2) IH by simp
qed

lemma read_more:
  assumes "tcm_inv m" "plain_scanner lex_scan display"
  shows "\<exists>ts m' s'. read_tokens lex_scan display n m s = Some (ts, m', s') \<and> tcm_inv m' \<and> active m' = active m \<and>
    initialized m' = initialized m \<and> tc_pos (the_cache m') = tc_pos (the_cache m) + n \<and>
    take (tc_count (the_cache m)) (stored (the_cache m')) = stored (the_cache m) \<and> tc_count (the_cache m) \<le> tc_count (the_cache m') \<and>
    ts = take n (drop (tc_pos (the_cache m)) (stored (the_cache m')))"
  using assms(1)
proof (induction n arbitrary: m s)
  case 0
  then show ?case using stored_length [OF tcm_invD(2) [OF 0]] by simp
next
  case (Suc n)
  let ?c = "the_cache m"
  have c: "cache_inv (active m) ?c" using tcm_invD [OF Suc.prems] by simp
  have disp: "\<not> display s" for s using assms(2) by (simp add: plain_scanner_def)
  obtain t m1 s1 where r: "read_next_token lex_scan display m s = Some (token_type t, Some t, m1, s1)"
    "tcm_inv m1" "active m1 = active m" "initialized m1 = initialized m" "tc_pos (the_cache m1) = tc_pos ?c + 1"
    "take (tc_count ?c) (stored (the_cache m1)) = stored ?c" "tc_count ?c \<le> tc_count (the_cache m1)"
    "tc_pos ?c < tc_count (the_cache m1)" "stored (the_cache m1) ! tc_pos ?c = t"
  proof (cases "tc_pos ?c < tc_count ?c")
    case True
    let ?m = "set_cache m (active m) (?c\<lparr>tc_pos := tc_pos ?c + 1\<rparr>)"
    have "tcm_inv ?m" using True c by (intro set_cache_inv set_pos_inv Suc.prems) simp_all
    then show ?thesis
      using that [of "stored ?c ! tc_pos ?c" ?m s] True read_stored [where display = display and lex_scan = lex_scan and s = s, OF Suc.prems True disp] Suc.prems stored_length [OF c]
      by simp
  next
    case False
    then have e: "tc_pos ?c = tc_count ?c" using c by (simp add: cache_inv_def)
    obtain t m' s' where "read_next_token lex_scan display m s = Some (token_type t, Some t, m', s')"
      "tcm_inv m'" "active m' = active m" "initialized m' = initialized m"
      "tc_pos (the_cache m') = tc_pos ?c + 1" "tc_count (the_cache m') = tc_pos (the_cache m')"
      "stored (the_cache m') = stored ?c @ [t]"
      by (rule read_new [OF Suc.prems e assms(2)])
    then show ?thesis using that [of t m' s'] stored_length [OF c] e by (simp add: nth_append)
  qed
  obtain ts m2 s2 where s: "read_tokens lex_scan display n m1 s1 = Some (ts, m2, s2)" "tcm_inv m2"
    "active m2 = active m1" "initialized m2 = initialized m1" "tc_pos (the_cache m2) = tc_pos (the_cache m1) + n"
    "take (tc_count (the_cache m1)) (stored (the_cache m2)) = stored (the_cache m1)"
    "tc_count (the_cache m1) \<le> tc_count (the_cache m2)"
    "ts = take n (drop (tc_pos (the_cache m1)) (stored (the_cache m2)))"
    using Suc.IH [OF r(2)] by blast
  have "length (stored (the_cache m2)) = tc_count (the_cache m2)" by (rule stored_length [OF tcm_invD(2) [OF s(2)]])
  moreover have "stored (the_cache m2) ! tc_pos ?c = t"
    using s(6) r(8,9) by (metis nth_take)
  ultimately have "t # ts = take (Suc n) (drop (tc_pos ?c) (stored (the_cache m2)))"
    using r(5,8) s(7,8) by (simp add: Cons_nth_drop_Suc [symmetric])
  moreover have "take (tc_count ?c) (stored (the_cache m2)) = stored ?c"
    using r(6,7) s(6) by (metis min.absorb1 take_take)
  ultimately show ?case using r s by simp
qed

subsection \<open>Token numbers\<close>

lemma token_number_small:
  assumes "i < 2 ^ 11" "p < 2 ^ TOKEN_BITS"
  shows "TC_OFFSET (token_number i p) = int i" "TOKEN_OFFSET (token_number i p) = p"
proof -
  have p: "int p < 1048576" and i: "int i < 2048" using assms by (simp_all add: TOKEN_BITS_def)
  have k: "token_number i p = int i * 1048576 + int p"
    unfolding token_number_def using p i by (subst wrap_int_id) (simp_all add: TOKEN_BITS_def)
  show "TC_OFFSET (token_number i p) = int i" "TOKEN_OFFSET (token_number i p) = p"
    using p by (simp_all add: k TC_OFFSET_def TOKEN_OFFSET_def TOKEN_BITS_def)
qed

lemma token_number_large:
  assumes "2 ^ 11 \<le> i" "i < 2 ^ TC_BITS" "p < 2 ^ TOKEN_BITS"
  shows "TC_OFFSET (token_number i p) < 0"
proof -
  have i: "2048 \<le> int i" "int i < 4096" "int p < 1048576" using assms by (simp_all add: TC_BITS_def TOKEN_BITS_def)
  let ?k = "int i * 1048576 + int p"
  have "(?k + 2147483648) mod 4294967296 = (?k - 2147483648 + 4294967296) mod 4294967296"
    by (rule arg_cong [where f = "\<lambda>x. x mod 4294967296"]) linarith
  also have "\<dots> = ?k - 2147483648" unfolding mod_add_self2 by (rule mod_pos_pos_trivial) (use i in linarith)+
  finally have "token_number i p = ?k - 4294967296"
    by (simp add: token_number_def TOKEN_BITS_def wrap_int_def)
  with i show ?thesis by (simp add: TC_OFFSET_def TOKEN_BITS_def)
qed

lemma seek_known:
  assumes "tcm_inv m" "active m < 2 ^ 11" "p < 2 ^ TOKEN_BITS" "p \<le> tc_count (the_cache m)"
  shows "seek_token m (token_number (active m) p) =
    Some (SUCCESS, set_cache m (active m) ((the_cache m)\<lparr>tc_pos := p\<rparr>))"
  using assms token_number_small [OF assms(2,3)] tcm_invD [OF assms(1)]
  by (simp add: seek_token_def Let_def tcm_inv_def set_cache_def)

lemma seek_fault:
  assumes "2 ^ 11 \<le> i" "i < 2 ^ TC_BITS" "p < 2 ^ TOKEN_BITS" "tcm_inv m"
  shows "seek_token m (token_number i p) = None" "change_token f m (token_number i p) = None"
  using token_number_large [OF assms(1-3)]
  by (simp_all add: seek_token_def change_token_def cache_at_def Let_def)

text \<open>
  C6: Jumping back: from any good state in which the script has at most \<open>2 ^ 11\<close> token caches, the parser can
  read any number of tokens, and when it then seeks the number that \<open>tc_get_current_offset\<close> gave before, it
  reads the same tokens again, without a call of the scanner, and ends in the same state. This is what makes
  loops and function calls of the interpreter possible.
\<close>

theorem token_replay:
  assumes "tcm_inv m" "active m < 2 ^ 11" "tc_pos (the_cache m) < 2 ^ TOKEN_BITS" "plain_scanner lex_scan display"
  shows "\<exists>ts m' s' k m''. read_tokens lex_scan display n m s = Some (ts, m', s') \<and> length ts = n \<and> tcm_inv m' \<and>
    tc_get_current_offset m = Some k \<and> seek_token m' k = Some (SUCCESS, m'') \<and>
    (\<forall>s''. read_tokens lex_scan display n m'' s'' = Some (ts, m', s''))"
proof -
  let ?c = "the_cache m" and ?i = "active m"
  have c: "cache_inv ?i ?c" using tcm_invD [OF assms(1)] by simp
  obtain ts m' s' where r: "read_tokens lex_scan display n m s = Some (ts, m', s')" "tcm_inv m'" "active m' = ?i"
    "tc_pos (the_cache m') = tc_pos ?c + n" "tc_count ?c \<le> tc_count (the_cache m')"
    "ts = take n (drop (tc_pos ?c) (stored (the_cache m')))"
    using read_more [OF assms(1,4), of n s] by blast
  let ?c' = "the_cache m'"
  let ?m = "set_cache m' ?i (?c'\<lparr>tc_pos := tc_pos ?c\<rparr>)"
  have c': "cache_inv ?i ?c'" using tcm_invD(2) [OF r(2)] r(3) by simp
  have le: "tc_pos ?c + n \<le> tc_count ?c'" using c' r(4) by (simp add: cache_inv_def)
  have "seek_token m' (token_number ?i (tc_pos ?c)) = Some (SUCCESS, ?m)"
    using seek_known [OF r(2), of "tc_pos ?c"] assms(2,3) le r(3) by simp
  moreover have "tc_get_current_offset m = Some (token_number ?i (tc_pos ?c))"
    using tcm_invD [OF assms(1)] by (simp add: tc_get_current_offset_def)
  moreover have inv: "tcm_inv ?m" using le by (intro set_cache_inv set_pos_inv r(2) c') simp
  moreover have "read_tokens lex_scan display n ?m s'' = Some (ts, m', s'')" for s''
  proof -
    have "the_cache ?m = ?c'\<lparr>tc_pos := tc_pos ?c\<rparr>" using the_cache_set [OF r(2)] r(3) by simp
    moreover have "?c'\<lparr>tc_pos := tc_pos ?c + n\<rparr> = ?c'" using r(4) by simp
    moreover have "set_cache m' ?i ?c' = m'" using set_same_cache [OF r(2)] r(3) by simp
    moreover have "\<not> display s" for s using assms(4) by (simp add: plain_scanner_def)
    ultimately show ?thesis using read_again [OF inv, of n display lex_scan s''] le r(3,6) by simp
  qed
  moreover have "length ts = n" using r(6) le stored_length [OF c'] by simp
  ultimately show ?thesis using r(1,2) by blast
qed

text \<open>A script that calls \<open>eval\<close> \<open>n\<close> times.\<close>

fun open_texts :: "nat \<Rightarrow> 'v manager option" where
  "open_texts 0 = Some (snd tcm_init)"
| "open_texts (Suc n) = do { m \<leftarrow> open_texts n; (r, m1) \<leftarrow> tcm_new m 32; if r = SUCCESS then Some m1 else None }"

lemma open_texts_ok:
  "n < 2 ^ TC_BITS \<Longrightarrow> \<exists>m :: 'v manager. open_texts n = Some m \<and> tcm_inv m \<and> active m = n \<and> initialized m = Suc n \<and> tc_pos (the_cache m) = 0"
proof (induction n)
  case 0
  then show ?case using tcm_init_inv
    by (simp add: tcm_init_def the_cache_def tc_init_def TOKEN_CACHES_BLOCK_SIZE_def)
next
  case (Suc n)
  then have "n < 2 ^ TC_BITS" by simp
  from Suc.IH [OF this] obtain m :: "'v manager" where m: "open_texts n = Some m" "tcm_inv m" "initialized m = Suc n" by blast
  have "initialized m < 2 ^ TC_BITS" "(0::nat) < 32" using m(3) Suc.prems by simp_all
  from tcm_new_ok [OF m(2) this(2,1)] obtain m1 where "tcm_new m 32 = Some (SUCCESS, m1)" "tcm_inv m1"
    "initialized m1 = initialized m + 1" "active m1 = initialized m" "the_cache m1 = tc_init 32" by blast
  then show ?case using m by (simp add: tc_init_def)
qed

text \<open>
  C13: How many texts have token numbers: a script may open \<open>2 ^ 12\<close> token caches, and the next one is refused.
  The first \<open>2 ^ 11\<close> of them can be jumped in; in the others a token number is negative as an \<open>int\<close>, the
  test of \<open>seek_token\<close> against the number of caches lets it pass, and the first jump or mark of a token, that is
  the first loop, accesses memory before the array of caches.
\<close>

theorem token_number_limit:
  assumes "n < 2 ^ TC_BITS"
  shows "\<exists>(m :: 'v manager) k. open_texts n = Some m \<and> tc_get_current_offset m = Some k \<and>
    (if n < 2 ^ 11 then seek_token m k = Some (SUCCESS, m)
     else seek_token m k = None \<and> tc_set_token m k t = None) \<and>
    (tcm_new m bs = Some (FAILURE, m) \<longleftrightarrow> n = 2 ^ TC_BITS - 1)"
proof -
  obtain m :: "'v manager" where m: "open_texts n = Some m" "tcm_inv m" "active m = n" "initialized m = Suc n" "tc_pos (the_cache m) = 0"
    using open_texts_ok [OF assms] by blast
  have k: "tc_get_current_offset m = Some (token_number n 0)"
    using tcm_invD [OF m(2)] m(3,5) by (simp add: tc_get_current_offset_def)
  have pos: "(the_cache m)\<lparr>tc_pos := 0\<rparr> = the_cache m" using m(5) by simp
  have "seek_token m (token_number n 0) = Some (SUCCESS, m)" if "n < 2 ^ 11"
    using seek_known [OF m(2), of 0] that m(3) set_same_cache [OF m(2)] pos by simp
  moreover have "seek_token m (token_number n 0) = None \<and> tc_set_token m (token_number n 0) t = None" if "\<not> n < 2 ^ 11"
    using seek_fault [OF _ assms _ m(2), of 0] that by (simp add: tc_set_token_def)
  moreover have "tcm_new m bs = Some (FAILURE, m) \<longleftrightarrow> n = 2 ^ TC_BITS - 1"
    using assms m(4) by (auto simp: tcm_new_def Let_def split: if_splits)
  ultimately show ?thesis using m(1) k by (intro exI [of _ m] exI [of _ "token_number n 0"]) simp
qed

theorem token_number_limit_witness:
  "\<exists>m k. open_texts 2048 = Some (m :: nat manager) \<and> tc_get_current_offset m = Some k \<and>
    seek_token m k = None \<and> tc_set_token m k 304 = None"
  using token_number_limit [of 2048 304 32, where ?'v = nat] by (auto simp: TC_BITS_def)

subsection \<open>\<open>for\<close>\<close>

definition numbered :: "nat \<Rightarrow> nat \<Rightarrow> 'v token list \<Rightarrow> 'v token list" where
  "numbered c i ts = map (\<lambda>(j, t). t\<lparr>offset := token_number c j mod 2 ^ 32\<rparr>) (zip [i..<i + length ts] ts)"

lemma numbered_Cons: "numbered c i (t # ts) = t\<lparr>offset := token_number c i mod 2 ^ 32\<rparr> # numbered c (Suc i) ts"
  by (simp add: numbered_def upt_conv_Cons del: upt_Suc)

lemma renumber_ok: "renumber c (length X) (length ys) (X @ map Some ys @ Z) = Some (X @ map Some (numbered c (length X) ys) @ Z)"
proof (induction ys arbitrary: X)
  case (Cons y ys)
  show ?case using Cons.IH [of "X @ [Some (y\<lparr>offset := token_number c (length X) mod 2 ^ 32\<rparr>)]"]
    by (simp add: numbered_Cons)
qed (simp add: numbered_def)

lemma copy_first:
  assumes "length A < length B" "ts = P @ A @ x # B @ Q"
  shows "do {
      ts1 \<leftarrow> copy_within ts (length P + length B + 1) (length P) (length A);
      ts2 \<leftarrow> copy_to ts1 (length P) B;
      copy_to ts2 (length P + length B) [x] } = Some (P @ B @ x # A @ Q)"
proof -
  have "copy_within ts (length P + length B + 1) (length P) (length A) = Some (take (length P + length B + 1) ts @ A @ Q)"
    using assms by (simp add: copy_within_def copy_from_def copy_to_def)
  moreover have "copy_to (take (length P + length B + 1) ts @ A @ Q) (length P) B =
      Some (P @ B @ drop (length P + length B) (take (length P + length B + 1) ts) @ A @ Q)"
    using assms by (simp add: copy_to_def)
  moreover have "length (drop (length P + length B) (take (length P + length B + 1) ts)) = 1"
    using assms by simp
  then obtain y where "drop (length P + length B) (take (length P + length B + 1) ts) = [y]"
    by (metis One_nat_def length_0_conv length_Suc_conv)
  moreover have "copy_to (P @ B @ [y] @ A @ Q) (length P + length B) [x] = Some (P @ B @ x # A @ Q)"
    by (simp add: copy_to_def)
  ultimately show ?thesis by simp
qed

lemma copy_second:
  assumes "length B \<le> length A" "ts = P @ A @ x # B @ Q"
  shows "do {
      ts1 \<leftarrow> copy_within ts (length P) (length P + length A + 1) (length B);
      ts2 \<leftarrow> copy_to ts1 (length P + length B + 1) A;
      copy_to ts2 (length P + length B) [x] } = Some (P @ B @ x # A @ Q)"
proof -
  let ?d = "drop (length P + length B) ts"
  have len: "length ?d = length A + 1 + length Q" using assms by simp
  then obtain y d where d: "?d = y # d" by (cases ?d) auto
  have "drop (length A) d = drop (length A + 1) ?d" by (simp add: d)
  also have "\<dots> = Q" using assms by simp
  finally have "copy_to (P @ B @ y # d) (length P + length B + 1) A = Some (P @ B @ y # A @ Q)"
    using len d by (simp add: copy_to_def)
  moreover have "copy_within ts (length P) (length P + length A + 1) (length B) = Some (P @ B @ ?d)"
    using assms by (simp add: copy_within_def copy_from_def copy_to_def)
  moreover have "copy_to (P @ B @ y # A @ Q) (length P + length B) [x] = Some (P @ B @ x # A @ Q)"
    by (simp add: copy_to_def)
  ultimately show ?thesis by (simp add: d)
qed

lemma tokens_stored: "cache_inv i c \<Longrightarrow> tc_tokens c = map Some (stored c) @ drop (tc_count c) (tc_tokens c)"
  by (intro nth_equalityI) (auto simp: stored_def cache_inv_def nth_append)

lemma stored_offset: "cache_inv i c \<Longrightarrow> j < length (stored c) \<Longrightarrow> offset (stored c ! j) = token_number i j mod 2 ^ 32"
  by (auto simp: stored_def cache_inv_def)

lemma numbered_nth: "j < length ts \<Longrightarrow> numbered c i ts ! j = (ts ! j)\<lparr>offset := token_number c (i + j) mod 2 ^ 32\<rparr>"
  by (simp add: numbered_def)

lemma length_numbered [simp]: "length (numbered c i ts) = length ts"
  by (simp add: numbered_def)

lemma numbered_inv:
  assumes "cache_inv i c" "stored c = P @ X @ Q" "length Y = length X"
    and "ts = map Some (P @ numbered i (length P) Y @ Q) @ drop (tc_count c) (tc_tokens c)"
  shows "cache_inv i (c\<lparr>tc_tokens := ts\<rparr>)" "stored (c\<lparr>tc_tokens := ts\<rparr>) = P @ numbered i (length P) Y @ Q"
proof -
  have n: "tc_count c = length P + length Y + length Q"
    using stored_length [OF assms(1)] assms(2,3) by simp
  have old: "offset ((P @ X @ Q) ! j) = token_number i j mod 2 ^ 32" if "j < tc_count c" for j
    using stored_offset [OF assms(1), of j] that assms(2,3) n by simp
  have new: "offset ((P @ numbered i (length P) Y @ Q) ! j) = token_number i j mod 2 ^ 32" if "j < tc_count c" for j
    using old [OF that] that n assms(3) by (auto simp: nth_append numbered_nth split: if_splits)
  have "\<exists>t. ts ! j = Some t \<and> offset t = token_number i j mod 2 ^ 32" if "j < tc_count c" for j
    using new [OF that] that n
    by (intro exI [of _ "(P @ numbered i (length P) Y @ Q) ! j"])
      (simp add: assms(4) nth_append del: append_assoc map_append)
  moreover have "length ts = tc_max_tokens c" using assms(1,4) n by (simp add: cache_inv_def)
  ultimately show "cache_inv i (c\<lparr>tc_tokens := ts\<rparr>)" using assms(1) by (simp add: cache_inv_def)
  show "stored (c\<lparr>tc_tokens := ts\<rparr>) = P @ numbered i (length P) Y @ Q"
    using n by (simp add: stored_def assms(4) o_def)
qed

lemma renumber_exchange:
  assumes "ts = P @ A @ x # B @ Q" "k = length A + length B + 1"
  shows "renumber i (length P) k (map Some (P @ B @ x # A @ Q) @ R) =
    Some (map Some (P @ numbered i (length P) (B @ x # A) @ Q) @ R)"
  using renumber_ok [of i "map Some P" "B @ x # A" "map Some Q @ R"] assms(2) by (simp add: numbered_def add.commute)

text \<open>
  C7: \<open>for\<close>: on \<open>for (...; A x B)\<close>, with \<open>A\<close> and \<open>B\<close> any two runs of tokens around the token \<open>x\<close>,
  \<open>tc_switch\<close> succeeds, every block it copies is inside its array and no copy overlaps; it leaves \<open>B x A\<close> in
  their place, numbered again, and every other token as it was. So after the first iteration the increment comes
  before the condition.
\<close>

theorem tc_switch_exchanges:
  assumes "tcm_inv m" "active m < 2 ^ 11" "stored (the_cache m) = P @ A @ x # B @ Q"
    and "length (P @ A @ x # B) \<le> 2 ^ TOKEN_BITS"
  shows "\<exists>m'. tc_switch m (token_number (active m) (length P)) (token_number (active m) (length P + length A + length B))
      (token_number (active m) (length P + length A)) = Some (SUCCESS, m') \<and> tcm_inv m' \<and>
    stored (the_cache m') = P @ numbered (active m) (length P) (B @ x # A) @ Q \<and>
    m' = set_cache m (active m) ((the_cache m)\<lparr>tc_tokens := tc_tokens (the_cache m')\<rparr>)"
proof -
  let ?c = "the_cache m" and ?i = "active m"
  define R where "R = drop (tc_count ?c) (tc_tokens ?c)"
  let ?new = "map Some (P @ numbered ?i (length P) (B @ x # A) @ Q) @ R"
  have c: "cache_inv ?i ?c" "cache_at m (int ?i) = Some ?c" using tcm_invD [OF assms(1)] by simp_all
  have n: "tc_count ?c = length P + length A + 1 + length B + length Q"
    using stored_length [OF c(1)] assms(3) by simp
  have ts: "tc_tokens ?c = map Some P @ map Some A @ Some x # map Some B @ (map Some Q @ R)"
    using tokens_stored [OF c(1)] assms(3) by (simp add: R_def)
  have offs: "TC_OFFSET (token_number ?i (length P)) = int ?i" "TOKEN_OFFSET (token_number ?i (length P)) = length P"
    "TOKEN_OFFSET (token_number ?i (length P + length A + length B)) = length P + length A + length B"
    "TOKEN_OFFSET (token_number ?i (length P + length A)) = length P + length A"
    using assms(2,4) by (auto intro!: token_number_small)
  have inv: "cache_inv ?i (?c\<lparr>tc_tokens := ?new\<rparr>)"
    "stored (?c\<lparr>tc_tokens := ?new\<rparr>) = P @ numbered ?i (length P) (B @ x # A) @ Q"
    using numbered_inv [OF c(1), of P "A @ x # B" Q "B @ x # A" ?new] assms(3) by (simp_all add: R_def)
  let ?m = "set_cache m ?i (?c\<lparr>tc_tokens := ?new\<rparr>)"
  have "tc_switch m (token_number ?i (length P)) (token_number ?i (length P + length A + length B))
      (token_number ?i (length P + length A)) = Some (SUCCESS, ?m)"
  proof (cases "A = [] \<and> B = []")
    case True
    have "offset x = token_number ?i (length P) mod 2 ^ 32"
      using stored_offset [OF c(1), of "length P"] assms(3) True by simp
    then have "x\<lparr>offset := token_number ?i (length P) mod 2 ^ 32\<rparr> = x" by (metis token.surjective token.update_convs(4))
    then have "tc_tokens ?c = ?new" using ts True by (simp add: numbered_def)
    then have "?c\<lparr>tc_tokens := ?new\<rparr> = ?c" by (metis cache.surjective cache.update_convs(1))
    then have "?m = m" using set_same_cache [OF assms(1)] by metis
    with True show ?thesis using c(2) n by (simp add: tc_switch_def offs)
  next
    case False
    then have F: "\<not> (length A = 0 \<and> length B = 0)" by simp
    have mid: "copy_from (tc_tokens ?c) (length P + length A) 1 = Some [Some x]"
      by (simp add: ts copy_from_def)
    have chunks: "copy_from (tc_tokens ?c) (length P + length A + 1) (length B) = Some (map Some B)"
      "copy_from (tc_tokens ?c) (length P) (length A) = Some (map Some A)"
      by (simp_all add: ts copy_from_def)
    have dest: "length P + length A + length B - length A + 1 = length P + length B + 1"
      "length P + length A + length B + 1 - length P = length A + length B + 1" by simp_all
    have re: "renumber ?i (length P) (length A + length B + 1)
        (map Some P @ map Some B @ Some x # map Some A @ (map Some Q @ R)) = Some ?new"
      using renumber_exchange [OF refl refl, of ?i P A B x Q R] by simp
    show ?thesis
    proof (cases "length A < length B")
      case True
      then have "length (map Some A) < length (map Some B)" by simp
      from copy_first [OF this ts] obtain ts1 ts2
        where "copy_within (tc_tokens ?c) (length P + length B + 1) (length P) (length A) = Some ts1"
        "copy_to ts1 (length P) (map Some B) = Some ts2" "copy_to ts2 (length P + length B) [Some x] =
          Some (map Some P @ map Some B @ Some x # map Some A @ (map Some Q @ R))"
        unfolding bind_eq_Some_conv length_map by blast
      with F True chunks mid c(2) n re show ?thesis
        by (auto simp: tc_switch_def offs Let_def dest simp del: append_assoc map_append renumber.simps)
    next
      case False
      then have "length (map Some B) \<le> length (map Some A)" by simp
      from copy_second [OF this ts] obtain ts1 ts2
        where "copy_within (tc_tokens ?c) (length P) (length P + length A + 1) (length B) = Some ts1"
        "copy_to ts1 (length P + length B + 1) (map Some A) = Some ts2" "copy_to ts2 (length P + length B) [Some x] =
          Some (map Some P @ map Some B @ Some x # map Some A @ (map Some Q @ R))"
        unfolding bind_eq_Some_conv length_map by blast
      with F False chunks mid c(2) n re show ?thesis
        by (auto simp: tc_switch_def offs Let_def dest simp del: append_assoc map_append renumber.simps)
    qed
  qed
  moreover have "tcm_inv ?m" by (rule set_cache_inv [OF assms(1) inv(1)])
  moreover have "the_cache ?m = ?c\<lparr>tc_tokens := ?new\<rparr>" using assms(1) by simp
  ultimately show ?thesis using inv(2) by (intro exI [of _ ?m]) simp
qed
text \<open>A script of seven tokens, \<open>for ; a ; b b )\<close>.\<close>

definition sample_cache :: "nat cache" where
  "sample_cache = \<lparr>tc_tokens = map (\<lambda>j. Some \<lparr>token_type = [306, 59, 97, 59, 98, 98, 41] ! j, tok_value = Lit j,
      cs_data = 0, offset = int j, lineno = 1\<rparr>) [0..<7] @ [None], tc_count = 7, tc_pos = 6, tc_max_tokens = 8,
    tc_block_size = 4\<rparr>"

definition sample_manager :: "nat manager" where
  "sample_manager = set_cache (snd tcm_init) 0 sample_cache"

lemma sample_numbers: "token_number 0 j mod 2 ^ 32 = int j" if "j < 10"
  using that by (simp add: token_number_def wrap_int_id)

lemma sample_inv: "tcm_inv sample_manager" "active sample_manager = 0" "the_cache sample_manager = sample_cache"
proof -
  have "cache_inv 0 sample_cache"
    unfolding cache_inv_def using sample_numbers by (auto simp: sample_cache_def nth_append)
  then show "tcm_inv sample_manager"
    unfolding sample_manager_def by (intro set_cache_inv tcm_init_inv)
  show "active sample_manager = 0" "the_cache sample_manager = sample_cache"
    by (simp_all add: sample_manager_def tcm_init_def the_cache_def set_cache_def TOKEN_CACHES_BLOCK_SIZE_def)
qed

theorem tc_switch_exchanges_witness:
  "\<exists>m'. tc_switch sample_manager 2 5 3 = Some (SUCCESS, m') \<and>
    map token_type (stored (the_cache m')) = [306, 59, 98, 98, 59, 97, 41]"
proof -
  let ?t = "\<lambda>j. \<lparr>token_type = [306, 59, 97, 59, 98, 98, 41] ! j, tok_value = Lit j, cs_data = 0, offset = int j, lineno = 1\<rparr>"
  have "stored sample_cache = [?t 0, ?t 1] @ [?t 2] @ ?t 3 # [?t 4, ?t 5] @ [?t 6]"
    by (simp add: stored_def sample_cache_def upt_conv_Cons)
  moreover have "length ([?t 0, ?t 1] @ [?t 2] @ ?t 3 # [?t 4, ?t 5]) \<le> 2 ^ TOKEN_BITS" by (simp add: TOKEN_BITS_def)
  moreover have "(0 :: nat) < 2 ^ 11" by simp
  ultimately have "\<exists>m'. tc_switch sample_manager (token_number 0 (length [?t 0, ?t 1]))
      (token_number 0 (length [?t 0, ?t 1] + length [?t 2] + length [?t 4, ?t 5]))
      (token_number 0 (length [?t 0, ?t 1] + length [?t 2])) = Some (SUCCESS, m') \<and>
    stored (the_cache m') = [?t 0, ?t 1] @ numbered 0 (length [?t 0, ?t 1]) ([?t 4, ?t 5] @ ?t 3 # [?t 2]) @ [?t 6]"
    using tc_switch_exchanges [OF sample_inv(1), unfolded sample_inv(2,3)] by blast
  moreover have "length [?t 0, ?t 1] = 2" "length [?t 0, ?t 1] + length [?t 2] + length [?t 4, ?t 5] = 5"
    "length [?t 0, ?t 1] + length [?t 2] = 3" by simp_all
  ultimately
  obtain m' where "tc_switch sample_manager (token_number 0 2) (token_number 0 5) (token_number 0 3) = Some (SUCCESS, m')"
    "stored (the_cache m') = [?t 0, ?t 1] @ numbered 0 2 ([?t 4, ?t 5] @ ?t 3 # [?t 2]) @ [?t 6]"
    by metis
  then show ?thesis by (auto simp: token_number_def wrap_int_id numbered_def)
qed

theorem token_replay_witness:
  "\<exists>ts m' s' k m''. read_tokens (\<lambda>m s. (\<lparr>lex_type = 59, lex_value = Lit s, lex_lineno = 1, phptext = '';''\<rparr>, m, s + 1)) (\<lambda>s. False)
      3 sample_manager (7 :: nat) = Some (ts, m', s') \<and> length ts = 3 \<and> tc_get_current_offset sample_manager = Some k \<and>
    seek_token m' k = Some (SUCCESS, m'') \<and>
    read_tokens (\<lambda>m s. (\<lparr>lex_type = 59, lex_value = Lit s, lex_lineno = 1, phptext = '';''\<rparr>, m, s + 1)) (\<lambda>s. False)
      3 m'' 0 = Some (ts, m', 0)"
proof -
  let ?lex = "\<lambda>m (s :: nat). (\<lparr>lex_type = 59, lex_value = Lit s, lex_lineno = 1, phptext = '';''\<rparr> :: nat lexeme, m, s + 1)"
  have "plain_scanner ?lex (\<lambda>s. False)" by (simp add: plain_scanner_def DONE_EVAL_def)
  moreover have "active sample_manager < 2 ^ 11" "tc_pos (the_cache sample_manager) < 2 ^ TOKEN_BITS"
    by (simp_all add: sample_inv sample_cache_def TOKEN_BITS_def)
  ultimately show ?thesis
    using token_replay [OF sample_inv(1), of ?lex "\<lambda>s. False" 3 7] by blast
qed

subsection \<open>Precompiled scripts\<close>

text \<open>Tokens whose string is written and read alike, and those whose string is neither written nor read.\<close>

definition string_types :: "int set" where
  "string_types = {STRING, NUM_STRING, INLINE_HTML, ENCAPSED_AND_WHITESPACE}"

definition savable :: "'v token \<Rightarrow> bool" where
  "savable t \<longleftrightarrow> (case tok_value t of Str s \<Rightarrow> token_type t \<noteq> BAD_CHARACTER
     | Lit v \<Rightarrow> token_type t \<notin> string_types \<union> {BAD_CHARACTER} | Wild n \<Rightarrow> False)"

definition reloaded :: "'v token \<Rightarrow> 'v token" where
  "reloaded t = (if token_type t \<in> string_types then t else forget_pointer t)"

lemma forget_pointer_fields [simp]:
  "token_type (forget_pointer t) = token_type t" "offset (forget_pointer t) = offset t"
  by (auto simp: forget_pointer_def split: lexval.splits)

lemma text_round_trip:
  "\<forall>t \<in> set ts. savable t \<Longrightarrow> \<exists>x. saved_text ts = Some x \<and> loaded_text (map forget_pointer ts) x = Some (True, map reloaded ts)"
proof (induction ts)
  case (Cons t ts)
  then obtain x where x: "saved_text ts = Some x" "loaded_text (map forget_pointer ts) x = Some (True, map reloaded ts)"
    by auto
  have t: "savable t" using Cons.prems by simp
  show ?case
  proof (cases "token_type t \<in> string_types")
    case True
    then obtain s where s: "tok_value t = Str s" using t by (auto simp: savable_def split: lexval.splits)
    then have "(forget_pointer t)\<lparr>tok_value := Str s\<rparr> = t" "tok_value (forget_pointer t) = Wild (length s)"
      by (simp_all add: forget_pointer_def)
    with x s True show ?thesis by (intro exI [of _ "s @ x"]) (auto simp: string_types_def reloaded_def)
  next
    case False
    with t have "token_type t \<noteq> BAD_CHARACTER" by (auto simp: savable_def split: lexval.splits)
    with x False show ?thesis by (auto simp: string_types_def reloaded_def)
  qed
qed simp

lemma read_array_ok: "cache_inv i c \<Longrightarrow> read_array (tc_tokens c) (tc_count c) = Some (stored c)"
proof -
  assume c: "cache_inv i c"
  have "those (map Some xs) = Some xs" for xs :: "'a token list" by (induction xs) auto
  then show ?thesis
    using c tokens_stored [OF c] stored_length [OF c]
    by (metis (no_types, lifting) append_eq_conv_conj cache_inv_def length_map read_array_def)
qed

lemma map_fixed: "map f xs = xs \<longleftrightarrow> (\<forall>x \<in> set xs. f x = x)"
  by (induction xs) auto

text \<open>
  C14: Precompiled scripts: a script of one token cache in which no token is a bad escape sequence is saved, and
  loading the file succeeds with the same number of tokens, at position 0. The tokens are the same
  exactly when every token with a string is of one of the four types whose strings are saved. Others, the value of
  a string constant and \<open>__FILE__\<close>, come back with a pointer of the process that saved them.
\<close>

theorem script_round_trip:
  assumes "tcm_inv m" "initialized m = 1" "\<forall>t \<in> set (stored (the_cache m)). savable t" "tcm_inv m0" "active m0 = 0"
  shows "\<exists>f m'. tcm_save m = Some (Some f) \<and> tcm_load m0 f = Some (SUCCESS, m') \<and> tcm_inv m' \<and> active m' = 0 \<and>
    stored (the_cache m') = map reloaded (stored (the_cache m)) \<and> tc_pos (the_cache m') = 0 \<and>
    (stored (the_cache m') = stored (the_cache m) \<longleftrightarrow>
      (\<forall>t \<in> set (stored (the_cache m)). \<forall>s. tok_value t = Str s \<longrightarrow> token_type t \<in> string_types))"
proof -
  let ?c = "the_cache m"
  have a: "active m = 0" using assms(1,2) by (simp add: tcm_inv_def)
  have c: "cache_inv 0 ?c" "cache_at m 0 = Some ?c" using tcm_invD [OF assms(1)] a by simp_all
  obtain x where x: "saved_text (stored ?c) = Some x"
    "loaded_text (map forget_pointer (stored ?c)) x = Some (True, map reloaded (stored ?c))"
    using text_round_trip [OF assms(3)] by blast
  let ?f = "\<lparr>sc_magic = ''PHP3'', sc_header = Some ?c, sc_tokens = map forget_pointer (stored ?c), sc_text = x\<rparr>"
  let ?d = "?c\<lparr>tc_tokens := map Some (map reloaded (stored ?c)) @ replicate (tc_max_tokens ?c - tc_count ?c) None, tc_pos := 0\<rparr>"
  have save: "tcm_save m = Some (Some ?f)"
    using assms(2) c(2) x(1) read_array_ok [OF c(1)] by (simp add: tcm_save_def)
  have n: "length (stored ?c) = tc_count ?c" "tc_count ?c \<le> tc_max_tokens ?c"
    using stored_length [OF c(1)] c(1) by (simp_all add: cache_inv_def)
  have "cache_at m0 0 = Some (the_cache m0)" using tcm_invD(1) [OF assms(4)] assms(5) by simp
  then have load: "tcm_load m0 ?f = Some (SUCCESS, set_cache m0 0 ?d)"
    using x(2) n by (simp add: tcm_load_def o_def)
  have off: "offset (reloaded t) = offset t" for t :: "'a token" by (simp add: reloaded_def)
  have "cache_inv 0 ?d"
    using n c(1) off by (auto simp: cache_inv_def nth_append stored_def)
  then have inv: "tcm_inv (set_cache m0 0 ?d)" by (rule set_cache_inv [OF assms(4)])
  have d: "the_cache (set_cache m0 0 ?d) = ?d" using the_cache_set [OF assms(4)] assms(5) by metis
  have st: "stored ?d = map reloaded (stored ?c)" using n by (simp add: stored_def o_def)
  have "reloaded t = t \<longleftrightarrow> (\<forall>s. tok_value t = Str s \<longrightarrow> token_type t \<in> string_types)" for t :: "'a token"
    by (cases t) (auto simp: reloaded_def forget_pointer_def split: lexval.splits)
  then have "map reloaded (stored ?c) = stored ?c \<longleftrightarrow>
      (\<forall>t \<in> set (stored ?c). \<forall>s. tok_value t = Str s \<longrightarrow> token_type t \<in> string_types)"
    using map_fixed [of reloaded "stored ?c"] by simp
  then show ?thesis using save load inv d st assms(5)
    by (intro exI [of _ ?f] exI [of _ "set_cache m0 0 ?d"]) simp
qed

text \<open>A script of a variable's name, which is saved, and of a string constant, which is not.\<close>

definition text_cache :: "nat cache" where
  "text_cache = \<lparr>tc_tokens = [Some \<lparr>token_type = STRING, tok_value = Str ''ab'', cs_data = 0, offset = 0, lineno = 1\<rparr>,
      Some \<lparr>token_type = STRING_CONSTANT, tok_value = Str ''cde'', cs_data = 0, offset = 1, lineno = 1\<rparr>],
    tc_count = 2, tc_pos = 2, tc_max_tokens = 2, tc_block_size = 4\<rparr>"

definition text_manager :: "nat manager" where
  "text_manager = set_cache (snd tcm_init) 0 text_cache"

lemma text_inv: "tcm_inv text_manager" "initialized text_manager = 1" "the_cache text_manager = text_cache"
proof -
  have c: "cache_inv 0 text_cache"
    using sample_numbers [of 0] sample_numbers [of 1] by (simp add: cache_inv_def text_cache_def less_Suc_eq numeral_2_eq_2)
  then show "tcm_inv text_manager" by (simp add: text_manager_def set_cache_inv tcm_init_inv)
  show "initialized text_manager = 1" by (simp add: text_manager_def tcm_init_def set_cache_def)
  show "the_cache text_manager = text_cache"
    by (simp add: text_manager_def tcm_init_def set_cache_def the_cache_def TOKEN_CACHES_BLOCK_SIZE_def)
qed

theorem script_round_trip_witness:
  "\<exists>f m'. tcm_save text_manager = Some (Some f) \<and> tcm_load (snd tcm_init) f = Some (SUCCESS, m') \<and>
    map tok_value (stored (the_cache m')) = [Str ''ab'', Wild 3]"
proof -
  have "stored text_cache = [\<lparr>token_type = STRING, tok_value = Str ''ab'', cs_data = 0, offset = 0, lineno = 1\<rparr>,
      \<lparr>token_type = STRING_CONSTANT, tok_value = Str ''cde'', cs_data = 0, offset = 1, lineno = 1\<rparr>]"
    by (simp add: stored_def text_cache_def)
  moreover from this have "\<forall>t \<in> set (stored (the_cache text_manager)). savable t"
    by (simp add: text_inv savable_def token_types)
  moreover have "active (snd tcm_init :: nat manager) = 0" by (simp add: tcm_init_def)
  ultimately show ?thesis
    using script_round_trip [OF text_inv(1,2) _ tcm_init_inv]
    by (fastforce simp: text_inv reloaded_def string_types_def forget_pointer_def token_types)
qed

end
