(* ===== verification/Control.thy ===== *)
theory Control
  imports Operators
begin

text \<open>
  The control structures of the interpreter: the actions of \<^verbatim>\<open>control_structures_inline.h\<close> in the order in which
  the grammar \<^verbatim>\<open>language-parser.y\<close> attaches them to a phrase. PHP 3 has no syntax tree: the parser runs over
  all tokens, also of code that is not to be executed, and the flag \<open>Execute\<close> tells the actions whether to do
  something. A loop is a jump of the token cache back to its first token, whose type is changed so that the grammar
  sees a further iteration; a call is a jump to the function's first token.

  A phrase is the value of a datatype with one constructor for each production. \<open>run_...\<close> performs the actions
  of its phrase on the state of the parser, \<open>machine\<close>. Expressions with an action of the form
  \<open>if (GLOBAL(Execute)) ...\<close> are all \<open>Op\<close>: the action, on the values of the sub-expressions, and the handling of
  symbol tables at a call are arguments, collected in a \<open>program\<close>. Truth, destruction, copying and comparison of
  values are those of \<^verbatim>\<open>operators.c\<close> and \<^verbatim>\<open>variables.c\<close>.

  A token is named by a number. \<open>token_at\<close> is the type of the token; \<open>marks\<close> are the byte \<open>cs_data.switched\<close> and
  whether \<open>tc_switch\<close> has exchanged the second and the third part of the \<open>for\<close> that starts there;
  \<open>jumped\<close> is the number a \<open>seek_token\<close> has just gone to. Stacks are lists (\<open>stack_refines\<close>). The value of an
  expression that is not evaluated is indeterminate; the functions take an arbitrary \<open>g\<close> for it. \<open>n\<close> bounds the
  number of jumps: each jump back of a loop and each call takes one. \<open>Elseif\<close> is the form with a statement: that with a
  colon gives \<open>cs_start_elseif\<close> not its expression but the indeterminate value of an action (\<open>$6\<close>), and has no phrase here.
\<close>

subsection \<open>Results\<close>

text \<open>
  \<open>Die\<close>: the parser returns \<open>FAILURE\<close> after an error; \<open>Fault\<close>: an operation on values accesses memory
  it must not; \<open>Fuel\<close>: more jumps than allowed; \<open>Quit w\<close>: the script ends by a \<open>return\<close> outside functions.
\<close>

datatype ('w, 'a) run = Ok 'a | Die | Fault | Fuel | Quit 'w

fun bind_run :: "('w, 'a) run \<Rightarrow> ('a \<Rightarrow> ('w, 'b) run) \<Rightarrow> ('w, 'b) run" where
  "bind_run (Ok x) k = k x"
| "bind_run Die k = Die"
| "bind_run Fault k = Fault"
| "bind_run Fuel k = Fuel"
| "bind_run (Quit w) k = Quit w"

definition checked :: "'a option \<Rightarrow> ('w, 'a) run" where
  "checked r = (case r of None \<Rightarrow> Fault | Some x \<Rightarrow> Ok x)"

subsection \<open>Phrases\<close>

datatype ('op, 'fn) expr =
    Op 'op "('op, 'fn) args"
  | Or "('op, 'fn) expr" "('op, 'fn) expr"
  | And "('op, 'fn) expr" "('op, 'fn) expr"
  | Cond "('op, 'fn) expr" "('op, 'fn) expr" "('op, 'fn) expr"
  | Call 'fn "('op, 'fn) args"
and ('op, 'fn) args = No_args | Arg "('op, 'fn) args" "('op, 'fn) expr"

datatype ('op, 'fn) for_expr = Empty_expr | One_expr "('op, 'fn) expr" | Comma "('op, 'fn) for_expr" "('op, 'fn) expr"

text \<open>The number of a loop is that of its first token. \<open>Declare\<close> is the declaration of a function with its body.\<close>

datatype ('op, 'fn) stmt =
    Empty_statement
  | Sequence "('op, 'fn) stmt" "('op, 'fn) stmt"
  | Expression "('op, 'fn) expr"
  | If_else "('op, 'fn) expr" "('op, 'fn) stmt" "('op, 'fn) elses"
  | While nat "('op, 'fn) expr" "('op, 'fn) stmt"
  | Do_while nat "('op, 'fn) stmt" "('op, 'fn) expr"
  | For nat "('op, 'fn) for_expr" "('op, 'fn) for_expr" "('op, 'fn) for_expr" "('op, 'fn) stmt"
  | Switch "('op, 'fn) expr" "('op, 'fn) cases"
  | Break_continue int "('op, 'fn) expr option"
  | Return_from "('op, 'fn) expr option"
  | Declare "('op, 'fn) stmt"
and ('op, 'fn) elses = No_else | Else "('op, 'fn) stmt" | Elseif "('op, 'fn) expr" "('op, 'fn) stmt" "('op, 'fn) elses"
and ('op, 'fn) cases = No_case | Case "('op, 'fn) expr" "('op, 'fn) stmt" "('op, 'fn) cases" | Default "('op, 'fn) stmt"

text \<open>What the actions work on besides the parser's own state: the tables of values, and anything else.\<close>

type_synonym ('f, 'u) world = "'f store \<times> 'u"

record ('op, 'fn, 'f, 'u) program =
  prog_doubles :: "'f doubles"
  action :: "'op \<Rightarrow> 'f pval list \<Rightarrow> ('f, 'u) world \<Rightarrow> ('f pval \<times> ('f, 'u) world) option"
  function_body :: "'fn \<Rightarrow> ('op, 'fn) stmt option"
  new_symbol_table :: "'fn \<Rightarrow> ('f, 'u) world \<Rightarrow> ('f, 'u) world option"
  pass_value :: "'f pval \<Rightarrow> ('f, 'u) world \<Rightarrow> ('f, 'u) world option"
  enter_function :: "'fn \<Rightarrow> ('f, 'u) world \<Rightarrow> ('f, 'u) world option"
  leave_function :: "('f, 'u) world \<Rightarrow> ('f, 'u) world option"
  print_variable :: "'f pval \<Rightarrow> ('f, 'u) world \<Rightarrow> ('f, 'u) world option"

subsection \<open>Values, in the world\<close>

definition is_true :: "('op, 'fn, 'f, 'u) program \<Rightarrow> 'f pval \<Rightarrow> ('f, 'u) world \<Rightarrow>
    (('f, 'u) world, bool \<times> 'f pval \<times> ('f, 'u) world) run" where
  "is_true P v w = checked (do { (b, v1, s) \<leftarrow> pval_is_true (prog_doubles P) v (fst w); Some (b, v1, s, snd w) })"

definition destroy :: "'f pval \<Rightarrow> ('f, 'u) world \<Rightarrow> (('f, 'u) world, ('f, 'u) world) run" where
  "destroy v w = checked (do { s \<leftarrow> pval_destructor (Destroy v) (fst w); Some (s, snd w) })"

definition to_integer :: "('op, 'fn, 'f, 'u) program \<Rightarrow> 'f pval \<Rightarrow> ('f, 'u) world \<Rightarrow>
    (('f, 'u) world, 'f pval \<times> ('f, 'u) world) run" where
  "to_integer P v w = checked (do { (v1, s) \<leftarrow> convert_to_long (prog_doubles P) v (fst w); Some (v1, s, snd w) })"

text \<open>\<open>boolean_or_function\<close> and \<open>boolean_and_function\<close>, their \<open>result\<close>.\<close>

definition boolean_result :: "'f Operators.outcome \<Rightarrow> 'u \<Rightarrow> (('f, 'u) world, 'f pval \<times> ('f, 'u) world) run" where
  "boolean_result r u = checked (do { (status, v, op1, op2, s) \<leftarrow> r; Some (v, s, u) })"

text \<open>The comparison of \<open>cs_switch_case_pre\<close>: on a copy of the value of \<open>switch\<close>.\<close>

definition case_equal :: "('op, 'fn, 'f, 'u) program \<Rightarrow> 'f pval \<Rightarrow> 'f pval \<Rightarrow> ('f, 'u) world \<Rightarrow>
    (('f, 'u) world, bool \<times> ('f, 'u) world) run" where
  "case_equal P v case_value w =
     checked (do {
       (r, v1, s1) \<leftarrow> pval_copy_constructor (Copy v) (fst w);
       (r, res, op1, op2, s2) \<leftarrow> is_equal_function (prog_doubles P) v1 case_value s1;
       (b, res1, s3) \<leftarrow> pval_is_true (prog_doubles P) res s2;
       Some (b, s3, snd w) })"

subsection \<open>The parser's state\<close>

definition EXECUTE :: int where "EXECUTE = 0"
definition BEFORE_EXECUTE :: int where "BEFORE_EXECUTE = 1"
definition DONT_EXECUTE :: int where "DONT_EXECUTE = 2"

definition DO_NOTHING :: int where "DO_NOTHING = 0"
definition DO_BREAK :: int where "DO_BREAK = 1"
definition DO_CONTINUE :: int where "DO_CONTINUE = 2"

definition WHILE :: int where "WHILE = 304"
definition DO :: int where "DO = 303"
definition FOR :: int where "FOR = 306"
definition CONTINUED_WHILE :: int where "CONTINUED_WHILE = 314"
definition CONTINUED_DOWHILE :: int where "CONTINUED_DOWHILE = 315"
definition CONTINUED_FOR :: int where "CONTINUED_FOR = 316"

lemmas control_constants = EXECUTE_def BEFORE_EXECUTE_def DONT_EXECUTE_def DO_NOTHING_def DO_BREAK_def DO_CONTINUE_def
  WHILE_def DO_def FOR_def CONTINUED_WHILE_def CONTINUED_DOWHILE_def CONTINUED_FOR_def

text \<open>\<open>FunctionState\<close>: \<open>function_name\<close> is whether the name is not \<open>NULL\<close>.\<close>

record function_state =
  loop_nest_level :: int
  loop_change_type :: int
  loop_change_level :: int
  returned :: bool
  function_name :: bool

record 'f switch_expr =
  se_expr :: "'f pval"
  se_matched :: bool
  se_Execute :: bool

record ('f, 'u) machine =
  ExecuteFlag :: int
  Execute :: bool
  css :: "int list"
  for_stack :: "int list"
  switch_stack :: "'f switch_expr list"
  function_state_stack :: "function_state list"
  fstate :: function_state
  return_value :: "'f pval"
  token_at :: "nat \<Rightarrow> int"
  marks :: "nat \<Rightarrow> bool \<times> bool"
  jumped :: "nat option"
  world :: "('f, 'u) world"

definition SHOULD_EXECUTE :: "('f, 'u) machine \<Rightarrow> bool" where
  "SHOULD_EXECUTE m \<longleftrightarrow> ExecuteFlag m = EXECUTE \<and> \<not> returned (fstate m) \<and> loop_change_type (fstate m) = DO_NOTHING"

text \<open>\<open>php3i_stack_int_top\<close>, and the three ways \<open>ExecuteFlag\<close> and \<open>Execute\<close> are set.\<close>

definition int_top :: "int list \<Rightarrow> int" where
  "int_top xs = (case xs of [] \<Rightarrow> - 1 | x # _ \<Rightarrow> x)"

definition set_flag :: "int \<Rightarrow> ('f, 'u) machine \<Rightarrow> ('f, 'u) machine" where
  "set_flag f m = (let m1 = m\<lparr>ExecuteFlag := f\<rparr> in m1\<lparr>Execute := SHOULD_EXECUTE m1\<rparr>)"

definition push_flag :: "('f, 'u) machine \<Rightarrow> ('f, 'u) machine" where
  "push_flag m = m\<lparr>css := ExecuteFlag m # css m\<rparr>"

definition top_flag :: "('f, 'u) machine \<Rightarrow> ('f, 'u) machine" where
  "top_flag m = set_flag (int_top (css m)) m"

definition pop_flag :: "('f, 'u) machine \<Rightarrow> ('f, 'u) machine" where
  "pop_flag m = (let m1 = m\<lparr>ExecuteFlag := int_top (css m), css := tl (css m)\<rparr> in m1\<lparr>Execute := SHOULD_EXECUTE m1\<rparr>)"

definition nest :: "int \<Rightarrow> ('f, 'u) machine \<Rightarrow> ('f, 'u) machine" where
  "nest d m = m\<lparr>fstate := (fstate m)\<lparr>loop_nest_level := loop_nest_level (fstate m) + d\<rparr>\<rparr>"

text \<open>\<open>loop_change_type = DO_NOTHING; loop_change_level = 0;\<close>\<close>

definition clear_change :: "('f, 'u) machine \<Rightarrow> ('f, 'u) machine" where
  "clear_change m = m\<lparr>fstate := (fstate m)\<lparr>loop_change_type := DO_NOTHING, loop_change_level := 0\<rparr>\<rparr>"

text \<open>\<open>tc_set_token\<close> followed by \<open>seek_token\<close>.\<close>

definition jump_back :: "int \<Rightarrow> nat \<Rightarrow> ('f, 'u) machine \<Rightarrow> ('f, 'u) machine" where
  "jump_back ty off m = m\<lparr>token_at := (token_at m)(off := ty), jumped := Some off\<rparr>"

text \<open>The token the grammar sees after a loop. A token that was not jumped to has the type the scanner gave it.\<close>

definition next_token_is :: "int \<Rightarrow> ('f, 'u) machine \<Rightarrow> bool" where
  "next_token_is ty m \<longleftrightarrow> (case jumped m of None \<Rightarrow> False | Some off \<Rightarrow> token_at m off = ty)"

text \<open>An operation on the world.\<close>

definition in_world :: "(('f, 'u) world \<Rightarrow> (('f, 'u) world, ('f, 'u) world) run) \<Rightarrow> ('f, 'u) machine \<Rightarrow>
    (('f, 'u) world, ('f, 'u) machine) run" where
  "in_world f m = bind_run (f (world m)) (\<lambda>w. Ok (m\<lparr>world := w\<rparr>))"

definition test :: "('op, 'fn, 'f, 'u) program \<Rightarrow> 'f pval \<Rightarrow> ('f, 'u) machine \<Rightarrow>
    (('f, 'u) world, bool \<times> 'f pval \<times> ('f, 'u) machine) run" where
  "test P v m = bind_run (is_true P v (world m)) (\<lambda>(b, v1, w). Ok (b, v1, m\<lparr>world := w\<rparr>))"

subsection \<open>Loops\<close>

definition cs_start_while :: "('op, 'fn, 'f, 'u) program \<Rightarrow> nat \<Rightarrow> 'f pval \<Rightarrow> ('f, 'u) machine \<Rightarrow>
    (('f, 'u) world, ('f, 'u) machine) run" where
  "cs_start_while P while_token expr m =
     (let m1 = push_flag (nest 1 m) in
      if Execute m1 then
        let m2 = m1\<lparr>token_at := (token_at m1)(while_token := WHILE)\<rparr> in
        bind_run (test P expr m2) (\<lambda>(b, v, m3).
          in_world (destroy v) (set_flag (if b then EXECUTE else DONT_EXECUTE) m3))
      else Ok m1)"

definition cs_end_while :: "nat \<Rightarrow> ('f, 'u) machine \<Rightarrow> ('f, 'u) machine" where
  "cs_end_while while_token m =
     (let fs = fstate m;
          m1 = (if Execute m then jump_back CONTINUED_WHILE while_token m
                else if loop_change_type fs \<noteq> DO_NOTHING \<and> loop_change_level fs = loop_nest_level fs then
                  clear_change (if loop_change_type fs = DO_CONTINUE then jump_back CONTINUED_WHILE while_token m else m)
                else m)
      in nest (- 1) (pop_flag m1))"

definition cs_start_do_while :: "nat \<Rightarrow> ('f, 'u) machine \<Rightarrow> ('f, 'u) machine" where
  "cs_start_do_while do_token m =
     (let m1 = push_flag (nest 1 m)
      in if Execute m1 then m1\<lparr>token_at := (token_at m1)(do_token := DO)\<rparr> else m1)"

definition cs_force_eval_do_while :: "('f, 'u) machine \<Rightarrow> ('f, 'u) machine" where
  "cs_force_eval_do_while m =
     (if loop_change_level (fstate m) = loop_nest_level (fstate m) \<and> loop_change_type (fstate m) = DO_CONTINUE
      then set_flag EXECUTE (clear_change m) else m)"

definition cs_end_do_while :: "('op, 'fn, 'f, 'u) program \<Rightarrow> nat \<Rightarrow> 'f pval \<Rightarrow> ('f, 'u) machine \<Rightarrow>
    (('f, 'u) world, ('f, 'u) machine) run" where
  "cs_end_do_while P do_token expr m =
     bind_run
       (if Execute m then
          bind_run (test P expr m) (\<lambda>(b, v, m1).
            bind_run (in_world (destroy v) m1) (\<lambda>m2.
              Ok (if b then jump_back CONTINUED_DOWHILE do_token m2
                  else if loop_change_type (fstate m2) \<noteq> DO_NOTHING \<and>
                    loop_change_level (fstate m2) = loop_nest_level (fstate m2) then clear_change m2 else m2)))
        else Ok (if loop_change_type (fstate m) \<noteq> DO_NOTHING \<and>
            loop_change_level (fstate m) = loop_nest_level (fstate m) then clear_change m else m))
       (\<lambda>m3. Ok (nest (- 1) (pop_flag m3)))"

text \<open>
  A \<open>for\<close> knows its later iterations by its number on top of \<open>for_stack\<close>. \<open>sw\<close> is \<open>cs_data.switched\<close> of
  the token as it was read, in the parser's copy: when it was not set, the parts 2 and 3 are exchanged at the end of
  the iteration, also when the statement was only passed over.
\<close>

definition for_pre_expr1 :: "nat \<Rightarrow> ('f, 'u) machine \<Rightarrow> ('f, 'u) machine" where
  "for_pre_expr1 for_token m =
     (let m1 = push_flag (nest 1 m) in
      if Execute m1 then
        let m2 = m1\<lparr>token_at := (token_at m1)(for_token := FOR)\<rparr> in
        if int_top (for_stack m2) = int for_token then set_flag DONT_EXECUTE m2 else m2
      else m1)"

definition for_pre_expr2 :: "bool \<Rightarrow> nat \<Rightarrow> ('f, 'u) machine \<Rightarrow> ('f, 'u) machine" where
  "for_pre_expr2 sw for_token m =
     (let m1 = top_flag m in
      if sw \<and> int_top (for_stack m1) \<noteq> int for_token then set_flag DONT_EXECUTE m1 else m1)"

definition for_pre_expr3 :: "bool \<Rightarrow> nat \<Rightarrow> 'f pval \<Rightarrow> ('f, 'u) machine \<Rightarrow> 'f pval \<times> ('f, 'u) machine" where
  "for_pre_expr3 sw for_token expr2 m =
     (let v = (if sw \<and> int_top (for_stack m) \<noteq> int for_token then var_reset else expr2); m1 = top_flag m
      in (v, if Execute m1 \<and> \<not> sw then set_flag DONT_EXECUTE m1 else m1))"

definition for_pre_statement :: "('op, 'fn, 'f, 'u) program \<Rightarrow> bool \<Rightarrow> 'f pval \<Rightarrow> 'f pval \<Rightarrow> ('f, 'u) machine \<Rightarrow>
    (('f, 'u) world, ('f, 'u) machine) run" where
  "for_pre_statement P sw expr2 expr3 m =
     (let m1 = top_flag m; expr3 = (if Execute m1 \<and> \<not> sw then var_reset else expr3) in
      if Execute m1 \<and> sw then
        bind_run (test P expr3 m1) (\<lambda>(b, v3, m2).
          bind_run (in_world (destroy expr2) (set_flag (if b then EXECUTE else DONT_EXECUTE) m2)) (in_world (destroy v3)))
      else if Execute m1 \<and> \<not> sw then
        bind_run (test P expr2 m1) (\<lambda>(b, v2, m2).
          bind_run (in_world (destroy v2) (set_flag (if b then EXECUTE else DONT_EXECUTE) m2)) (in_world (destroy expr3)))
      else Ok m1)"

definition pop_for :: "nat \<Rightarrow> ('f, 'u) machine \<Rightarrow> ('f, 'u) machine" where
  "pop_for for_token m = (if int_top (for_stack m) = int for_token then m\<lparr>for_stack := tl (for_stack m)\<rparr> else m)"

definition for_post_statement :: "bool \<Rightarrow> nat \<Rightarrow> ('f, 'u) machine \<Rightarrow> ('f, 'u) machine" where
  "for_post_statement sw for_token m =
     (let m1 = (if int_top (for_stack m) \<noteq> int for_token then m\<lparr>for_stack := int for_token # for_stack m\<rparr> else m);
          m2 = (if \<not> sw then m1\<lparr>marks := (marks m1)(for_token := (True, \<not> snd (marks m1 for_token)))\<rparr> else m1);
          fs = fstate m2;
          m3 = (if Execute m2 then jump_back CONTINUED_FOR for_token m2
                else if loop_change_type fs \<noteq> DO_NOTHING \<and> loop_change_level fs = loop_nest_level fs then
                  clear_change (if loop_change_type fs = DO_CONTINUE then jump_back CONTINUED_FOR for_token m2
                    else pop_for for_token m2)
                else pop_for for_token m2)
      in nest (- 1) (pop_flag m3))"

text \<open>
  \<open>break\<close> and \<open>continue\<close>. The number of levels is a \<open>long\<close>, the level it leads to an \<open>int\<close>. A failure is an
  error of the parser.
\<close>

definition cs_break_continue :: "('op, 'fn, 'f, 'u) program \<Rightarrow> 'f pval option \<Rightarrow> int \<Rightarrow> ('f, 'u) machine \<Rightarrow>
    (('f, 'u) world, ('f, 'u) machine) run" where
  "cs_break_continue P expr op_type m =
     (if Execute m then
        bind_run (case expr of
            Some v \<Rightarrow> bind_run (to_integer P v (world m)) (\<lambda>(v1, w).
              Ok (Some v1, wrap_int (loop_nest_level (fstate m) - lval v1 + 1), m\<lparr>world := w\<rparr>))
          | None \<Rightarrow> Ok (None, loop_nest_level (fstate m), m))
        (\<lambda>(v, level, m1).
          let m2 = m1\<lparr>fstate := (fstate m1)\<lparr>loop_change_level := level\<rparr>\<rparr> in
          if level \<le> 0 \<or> level > loop_nest_level (fstate m2) then Die
          else
            let m3 = m2\<lparr>fstate := (fstate m2)\<lparr>loop_change_type := op_type\<rparr>, Execute := False\<rparr> in
            case v of None \<Rightarrow> Ok m3 | Some v1 \<Rightarrow> in_world (destroy v1) m3)
      else Ok m)"

subsection \<open>Branches\<close>

definition cs_start_if :: "('op, 'fn, 'f, 'u) program \<Rightarrow> 'f pval \<Rightarrow> ('f, 'u) machine \<Rightarrow>
    (('f, 'u) world, ('f, 'u) machine) run" where
  "cs_start_if P expr m =
     (let m1 = push_flag m in
      if Execute m1 then
        bind_run (test P expr m1) (\<lambda>(b, v, m2).
          in_world (destroy v) (set_flag (if b then EXECUTE else BEFORE_EXECUTE) m2))
      else Ok (m1\<lparr>ExecuteFlag := DONT_EXECUTE\<rparr>))"

definition cs_end_if :: "('f, 'u) machine \<Rightarrow> ('f, 'u) machine" where
  "cs_end_if m = pop_flag m"

definition end_branch :: "('f, 'u) machine \<Rightarrow> ('f, 'u) machine" where
  "end_branch m = (if ExecuteFlag m = EXECUTE then set_flag DONT_EXECUTE m else m)"

definition cs_elseif_start_evaluate :: "('f, 'u) machine \<Rightarrow> ('f, 'u) machine" where
  "cs_elseif_start_evaluate m =
     (let m1 = end_branch m; local_stack_top = int_top (css m1); m2 = push_flag m1
      in if ExecuteFlag m2 = BEFORE_EXECUTE \<and> local_stack_top = EXECUTE then set_flag EXECUTE m2 else m2)"

definition cs_elseif_end_evaluate :: "('f, 'u) machine \<Rightarrow> ('f, 'u) machine" where
  "cs_elseif_end_evaluate m = pop_flag m"

definition cs_start_elseif :: "('op, 'fn, 'f, 'u) program \<Rightarrow> 'f pval \<Rightarrow> ('f, 'u) machine \<Rightarrow>
    (('f, 'u) world, ('f, 'u) machine) run" where
  "cs_start_elseif P expr m =
     (let m1 = end_branch m in
      if ExecuteFlag m1 = BEFORE_EXECUTE then
        bind_run (test P expr m1) (\<lambda>(b, v, m2).
          in_world (destroy v) (if b then set_flag EXECUTE m2 else m2))
      else Ok m1)"

definition cs_start_else :: "('f, 'u) machine \<Rightarrow> ('f, 'u) machine" where
  "cs_start_else m =
     (let m1 = end_branch m in if ExecuteFlag m1 = BEFORE_EXECUTE then set_flag EXECUTE m1 else m1)"

definition cs_switch_start :: "'f pval \<Rightarrow> ('f, 'u) machine \<Rightarrow> ('f, 'u) machine" where
  "cs_switch_start expr m =
     (let m1 = push_flag (nest 1 m) in
      m1\<lparr>switch_stack := \<lparr>se_expr = expr, se_matched = False, se_Execute = Execute m1\<rparr> # switch_stack m1\<rparr>)"

text \<open>\<open>case\<close> with its value, or \<open>default\<close>. \<open>offset == -1\<close> in the code is \<open>se_matched\<close>.\<close>

definition cs_switch_case_pre :: "('op, 'fn, 'f, 'u) program \<Rightarrow> 'f pval option \<Rightarrow> ('f, 'u) machine \<Rightarrow>
    (('f, 'u) world, ('f, 'u) machine) run" where
  "cs_switch_case_pre P expr m =
     (if Execute m then
        case switch_stack m of
          [] \<Rightarrow> Fault
        | se # rest \<Rightarrow>
            if \<not> se_matched se then
              bind_run (case expr of
                  Some v \<Rightarrow> bind_run (case_equal P (se_expr se) v (world m)) (\<lambda>(b, w). Ok (b, m\<lparr>world := w\<rparr>))
                | None \<Rightarrow> Ok (False, m))
              (\<lambda>(is_equal, m1).
                if expr = None \<or> is_equal
                then Ok (set_flag EXECUTE (m1\<lparr>switch_stack := se\<lparr>se_matched := True\<rparr> # rest\<rparr>))
                else Ok (set_flag DONT_EXECUTE m1))
            else (case expr of Some v \<Rightarrow> in_world (destroy v) m | None \<Rightarrow> Ok m)
      else Ok m)"

definition cs_switch_case_post :: "('f, 'u) machine \<Rightarrow> ('f, 'u) machine" where
  "cs_switch_case_post m = top_flag m"

definition cs_switch_end :: "'f pval \<Rightarrow> ('f, 'u) machine \<Rightarrow> (('f, 'u) world, ('f, 'u) machine) run" where
  "cs_switch_end expr m =
     (let m1 = (if \<not> Execute m \<and> loop_change_level (fstate m) = loop_nest_level (fstate m)
                then m\<lparr>fstate := (fstate m)\<lparr>loop_change_type := DO_NOTHING\<rparr>\<rparr> else m);
          m2 = pop_flag m1
      in case switch_stack m2 of
           [] \<Rightarrow> Fault
         | se # rest \<Rightarrow>
             bind_run (if se_Execute se then in_world (destroy expr) m2 else Ok m2)
               (\<lambda>m3. Ok (nest (- 1) (m3\<lparr>switch_stack := rest\<rparr>))))"

definition cs_return :: "('op, 'fn, 'f, 'u) program \<Rightarrow> 'f pval option \<Rightarrow> ('f, 'u) machine \<Rightarrow>
    (('f, 'u) world, ('f, 'u) machine) run" where
  "cs_return P expr m =
     (if Execute m then
        if function_name (fstate m) then
          Ok (set_flag DONT_EXECUTE (m\<lparr>return_value := (case expr of Some v \<Rightarrow> v | None \<Rightarrow> var_reset),
            fstate := (fstate m)\<lparr>returned := True\<rparr>\<rparr>))
        else (case expr of
            None \<Rightarrow> Quit (world m)
          | Some v \<Rightarrow> bind_run (checked (print_variable P v (world m))) (\<lambda>w. bind_run (destroy v w) Quit))
      else Ok m)"

text \<open>The declaration of a function: its body is passed over. The table of functions is fixed here.\<close>

definition start_function_decleration :: "('f, 'u) machine \<Rightarrow> ('f, 'u) machine" where
  "start_function_decleration m = set_flag DONT_EXECUTE (push_flag m)"

definition end_function_decleration :: "('f, 'u) machine \<Rightarrow> ('f, 'u) machine" where
  "end_function_decleration m = pop_flag m"

subsection \<open>Operators with conditional operands\<close>

definition cs_pre_boolean_or :: "('op, 'fn, 'f, 'u) program \<Rightarrow> 'f pval \<Rightarrow> ('f, 'u) machine \<Rightarrow>
    (('f, 'u) world, 'f pval \<times> ('f, 'u) machine) run" where
  "cs_pre_boolean_or P left m =
     (let m1 = push_flag m in
      if Execute m1 then
        bind_run (test P left m1) (\<lambda>(b, v, m2). Ok (v, if b then set_flag DONT_EXECUTE m2 else m2))
      else Ok (left, m1))"

definition cs_post_boolean_or :: "('op, 'fn, 'f, 'u) program \<Rightarrow> 'f pval \<Rightarrow> 'f pval \<Rightarrow> 'f pval \<Rightarrow> ('f, 'u) machine \<Rightarrow>
    (('f, 'u) world, 'f pval \<times> ('f, 'u) machine) run" where
  "cs_post_boolean_or P g left right m =
     (let m1 = pop_flag m in
      if Execute m1 then
        bind_run (boolean_result (boolean_or_function (prog_doubles P) left right (fst (world m1))) (snd (world m1)))
          (\<lambda>(v, w). Ok (v, m1\<lparr>world := w\<rparr>))
      else Ok (g, m1))"

definition cs_pre_boolean_and :: "('op, 'fn, 'f, 'u) program \<Rightarrow> 'f pval \<Rightarrow> ('f, 'u) machine \<Rightarrow>
    (('f, 'u) world, 'f pval \<times> ('f, 'u) machine) run" where
  "cs_pre_boolean_and P left m =
     (let m1 = push_flag m in
      if Execute m1 then
        bind_run (test P left m1) (\<lambda>(b, v, m2). Ok (v, if \<not> b then set_flag DONT_EXECUTE m2 else m2))
      else Ok (left, m1))"

definition cs_post_boolean_and :: "('op, 'fn, 'f, 'u) program \<Rightarrow> 'f pval \<Rightarrow> 'f pval \<Rightarrow> 'f pval \<Rightarrow> ('f, 'u) machine \<Rightarrow>
    (('f, 'u) world, 'f pval \<times> ('f, 'u) machine) run" where
  "cs_post_boolean_and P g left right m =
     (let m1 = pop_flag m in
      if Execute m1 then
        bind_run (boolean_result (boolean_and_function (prog_doubles P) left right (fst (world m1))) (snd (world m1)))
          (\<lambda>(v, w). Ok (v, m1\<lparr>world := w\<rparr>))
      else Ok (g, m1))"

definition cs_questionmark_op_pre_expr1 :: "('op, 'fn, 'f, 'u) program \<Rightarrow> 'f pval \<Rightarrow> ('f, 'u) machine \<Rightarrow>
    (('f, 'u) world, 'f pval \<times> ('f, 'u) machine) run" where
  "cs_questionmark_op_pre_expr1 P truth m = cs_pre_boolean_and P truth m"

definition cs_questionmark_op_pre_expr2 :: "('op, 'fn, 'f, 'u) program \<Rightarrow> 'f pval \<Rightarrow> ('f, 'u) machine \<Rightarrow>
    (('f, 'u) world, 'f pval \<times> ('f, 'u) machine) run" where
  "cs_questionmark_op_pre_expr2 P truth m =
     (let m1 = top_flag m in
      if Execute m1 then
        bind_run (test P truth m1) (\<lambda>(b, v, m2). Ok (v, if b then set_flag DONT_EXECUTE m2 else m2))
      else Ok (truth, m1))"

definition cs_questionmark_op_post_expr2 :: "('op, 'fn, 'f, 'u) program \<Rightarrow> 'f pval \<Rightarrow> 'f pval \<Rightarrow> 'f pval \<Rightarrow> 'f pval \<Rightarrow>
    ('f, 'u) machine \<Rightarrow> (('f, 'u) world, 'f pval \<times> ('f, 'u) machine) run" where
  "cs_questionmark_op_post_expr2 P g truth expr1 expr2 m =
     (let m1 = pop_flag m in
      if Execute m1 then
        bind_run (test P truth m1) (\<lambda>(b, v, m2).
          bind_run (in_world (destroy v) m2) (\<lambda>m3. Ok (if b then expr1 else expr2, m3)))
      else Ok (g, m1))"

subsection \<open>Calls of user functions\<close>

text \<open>
  A function that does not exist is a fatal error. \<open>- 1\<close> on \<open>for_stack\<close> hides the loops of the caller from
  those of the function. The result says whether \<open>function_call_type\<close> is not 0.
\<close>

definition cs_functioncall_pre_variable_passing :: "('op, 'fn, 'f, 'u) program \<Rightarrow> 'fn \<Rightarrow> ('f, 'u) machine \<Rightarrow>
    (('f, 'u) world, bool \<times> ('f, 'u) machine) run" where
  "cs_functioncall_pre_variable_passing P f m =
     (if Execute m then
        if function_body P f = None then Die
        else
          let m1 = m\<lparr>for_stack := - 1 # for_stack m, function_state_stack := fstate m # function_state_stack m,
                     fstate := (fstate m)\<lparr>function_name := True\<rparr>\<rparr>
          in bind_run (in_world (\<lambda>w. checked (new_symbol_table P f w)) m1) (\<lambda>m2. Ok (True, m2))
      else Ok (False, m))"

definition pass_parameter :: "('op, 'fn, 'f, 'u) program \<Rightarrow> 'f pval \<Rightarrow> ('f, 'u) machine \<Rightarrow>
    (('f, 'u) world, ('f, 'u) machine) run" where
  "pass_parameter P v m = (if Execute m then in_world (\<lambda>w. checked (pass_value P v w)) m else Ok m)"

definition cs_functioncall_post_variable_passing :: "('op, 'fn, 'f, 'u) program \<Rightarrow> 'fn \<Rightarrow> ('f, 'u) machine \<Rightarrow>
    (('f, 'u) world, ('f, 'u) machine) run" where
  "cs_functioncall_post_variable_passing P f m =
     (let m1 = (push_flag m)\<lparr>fstate := (fstate m)\<lparr>loop_nest_level := 0, loop_change_level := 0,
            loop_change_type := 0\<rparr>, return_value := var_reset\<rparr>
      in in_world (\<lambda>w. checked (enter_function P f w)) m1)"

definition cs_functioncall_end :: "('op, 'fn, 'f, 'u) program \<Rightarrow> ('f, 'u) machine \<Rightarrow>
    (('f, 'u) world, 'f pval \<times> ('f, 'u) machine) run" where
  "cs_functioncall_end P m =
     (let result = (if \<not> returned (fstate m) then var_reset else return_value m) in
      bind_run (in_world (\<lambda>w. checked (leave_function P w)) m) (\<lambda>m1.
        let m2 = m1\<lparr>for_stack := tl (dropWhile (\<lambda>x. x \<noteq> - 1) (for_stack m1))\<rparr> in
        case function_state_stack m2 of
          [] \<Rightarrow> Fault
        | fs # rest \<Rightarrow> Ok (result, pop_flag (m2\<lparr>fstate := fs, function_state_stack := rest\<rparr>))))"

subsection \<open>The grammar\<close>

text \<open>
  A loop starts at a token that has the type of its first word, or, after a jump back, the type of a further
  iteration; anything else is a parse error (a token of the second kind that is not jumped to could also be taken for an
  iteration of a loop that ends just before it). \<open>landed\<close> is the state after the token has been read.
\<close>

definition starts :: "int \<Rightarrow> nat \<Rightarrow> ('f, 'u) machine \<Rightarrow> bool" where
  "starts ty token m \<longleftrightarrow> jumped m = Some token \<or> token_at m token = ty"

definition landed :: "('f, 'u) machine \<Rightarrow> ('f, 'u) machine" where
  "landed m = m\<lparr>jumped := None\<rparr>"

function (sequential) run_expr :: "('op, 'fn, 'f, 'u) program \<Rightarrow> 'f pval \<Rightarrow> nat \<Rightarrow> ('op, 'fn) expr \<Rightarrow> ('f, 'u) machine \<Rightarrow>
      (('f, 'u) world, 'f pval \<times> ('f, 'u) machine) run"
  and run_args :: "('op, 'fn, 'f, 'u) program \<Rightarrow> 'f pval \<Rightarrow> nat \<Rightarrow> ('op, 'fn) args \<Rightarrow> ('f, 'u) machine \<Rightarrow>
      (('f, 'u) world, 'f pval list \<times> ('f, 'u) machine) run"
  and run_parameters :: "('op, 'fn, 'f, 'u) program \<Rightarrow> 'f pval \<Rightarrow> nat \<Rightarrow> ('op, 'fn) args \<Rightarrow> ('f, 'u) machine \<Rightarrow>
      (('f, 'u) world, ('f, 'u) machine) run"
  and run_for_expr :: "('op, 'fn, 'f, 'u) program \<Rightarrow> 'f pval \<Rightarrow> nat \<Rightarrow> ('op, 'fn) for_expr \<Rightarrow> ('f, 'u) machine \<Rightarrow>
      (('f, 'u) world, 'f pval \<times> ('f, 'u) machine) run"
  and run_stmt :: "('op, 'fn, 'f, 'u) program \<Rightarrow> 'f pval \<Rightarrow> nat \<Rightarrow> ('op, 'fn) stmt \<Rightarrow> ('f, 'u) machine \<Rightarrow>
      (('f, 'u) world, ('f, 'u) machine) run"
  and run_elses :: "('op, 'fn, 'f, 'u) program \<Rightarrow> 'f pval \<Rightarrow> nat \<Rightarrow> ('op, 'fn) elses \<Rightarrow> ('f, 'u) machine \<Rightarrow>
      (('f, 'u) world, ('f, 'u) machine) run"
  and run_cases :: "('op, 'fn, 'f, 'u) program \<Rightarrow> 'f pval \<Rightarrow> nat \<Rightarrow> ('op, 'fn) cases \<Rightarrow> ('f, 'u) machine \<Rightarrow>
      (('f, 'u) world, ('f, 'u) machine) run" where
  "run_expr P g n (Op f es) m =
     bind_run (run_args P g n es m) (\<lambda>(vs, m1).
       if Execute m1 then bind_run (checked (action P f vs (world m1))) (\<lambda>(v, w). Ok (v, m1\<lparr>world := w\<rparr>))
       else Ok (g, m1))"
| "run_expr P g n (Or e1 e2) m =
     bind_run (run_expr P g n e1 m) (\<lambda>(v1, m1).
     bind_run (cs_pre_boolean_or P v1 m1) (\<lambda>(v1, m2).
     bind_run (run_expr P g n e2 m2) (\<lambda>(v2, m3). cs_post_boolean_or P g v1 v2 m3)))"
| "run_expr P g n (And e1 e2) m =
     bind_run (run_expr P g n e1 m) (\<lambda>(v1, m1).
     bind_run (cs_pre_boolean_and P v1 m1) (\<lambda>(v1, m2).
     bind_run (run_expr P g n e2 m2) (\<lambda>(v2, m3). cs_post_boolean_and P g v1 v2 m3)))"
| "run_expr P g n (Cond e1 e2 e3) m =
     bind_run (run_expr P g n e1 m) (\<lambda>(v1, m1).
     bind_run (cs_questionmark_op_pre_expr1 P v1 m1) (\<lambda>(v1, m2).
     bind_run (run_expr P g n e2 m2) (\<lambda>(v2, m3).
     bind_run (cs_questionmark_op_pre_expr2 P v1 m3) (\<lambda>(v1, m4).
     bind_run (run_expr P g n e3 m4) (\<lambda>(v3, m5). cs_questionmark_op_post_expr2 P g v1 v2 v3 m5)))))"
| "run_expr P g n (Call f es) m =
     bind_run (cs_functioncall_pre_variable_passing P f m) (\<lambda>(called, m1).
     bind_run (run_parameters P g n es m1) (\<lambda>m2.
       if called then
         bind_run (cs_functioncall_post_variable_passing P f m2) (\<lambda>m3.
           case (n, function_body P f) of
             (Suc k, Some body) \<Rightarrow> bind_run (run_stmt P g k body m3) (cs_functioncall_end P)
           | _ \<Rightarrow> Fuel)
       else Ok (var_reset, m2)))"
| "run_args P g n No_args m = Ok ([], m)"
| "run_args P g n (Arg es e) m =
     bind_run (run_args P g n es m) (\<lambda>(vs, m1). bind_run (run_expr P g n e m1) (\<lambda>(v, m2). Ok (vs @ [v], m2)))"
| "run_parameters P g n No_args m = Ok m"
| "run_parameters P g n (Arg es e) m =
     bind_run (run_parameters P g n es m) (\<lambda>m1. bind_run (run_expr P g n e m1) (\<lambda>(v, m2). pass_parameter P v m2))"
| "run_for_expr P g n Empty_expr m = Ok (IS_LONG 1, m)"
| "run_for_expr P g n (One_expr e) m = run_expr P g n e m"
| "run_for_expr P g n (Comma fe e) m =
     bind_run (run_for_expr P g n fe m) (\<lambda>(v1, m1).
     bind_run (run_expr P g n e m1) (\<lambda>(v2, m2).
       if Execute m2 then bind_run (in_world (destroy v1) m2) (\<lambda>m3. Ok (v2, m3)) else Ok (g, m2)))"
| "run_stmt P g n Empty_statement m = Ok m"
| "run_stmt P g n (Sequence s1 s2) m = bind_run (run_stmt P g n s1 m) (run_stmt P g n s2)"
| "run_stmt P g n (Expression e) m =
     bind_run (run_expr P g n e m) (\<lambda>(v, m1). if Execute m1 then in_world (destroy v) m1 else Ok m1)"
| "run_stmt P g n (If_else e s els) m =
     bind_run (run_expr P g n e m) (\<lambda>(v, m1).
     bind_run (cs_start_if P v m1) (\<lambda>m2.
     bind_run (run_stmt P g n s m2) (\<lambda>m3.
     bind_run (run_elses P g n els m3) (\<lambda>m4. Ok (cs_end_if m4)))))"
| "run_stmt P g n (While token e s) m =
     (if starts WHILE token m then
        bind_run (run_expr P g n e (landed m)) (\<lambda>(v, m1).
        bind_run (cs_start_while P token v m1) (\<lambda>m2.
        bind_run (run_stmt P g n s m2) (\<lambda>m3.
          let m4 = cs_end_while token m3 in
          if next_token_is CONTINUED_WHILE m4
          then (case n of 0 \<Rightarrow> Fuel | Suc k \<Rightarrow> run_stmt P g k (While token e s) m4)
          else Ok m4)))
      else Die)"
| "run_stmt P g n (Do_while token s e) m =
     (if starts DO token m then
        bind_run (run_stmt P g n s (cs_start_do_while token (landed m))) (\<lambda>m1.
        bind_run (run_expr P g n e (cs_force_eval_do_while m1)) (\<lambda>(v, m2).
        bind_run (cs_end_do_while P token v m2) (\<lambda>m3.
          if next_token_is CONTINUED_DOWHILE m3
          then (case n of 0 \<Rightarrow> Fuel | Suc k \<Rightarrow> run_stmt P g k (Do_while token s e) m3)
          else Ok m3)))
      else Die)"
| "run_stmt P g n (For token e1 e2 e3 s) m =
     (if starts FOR token m then
        let (sw, exchanged) = marks m token; part2 = (if exchanged then e3 else e2); part3 = (if exchanged then e2 else e3) in
        bind_run (run_for_expr P g n e1 (for_pre_expr1 token (landed m))) (\<lambda>(v1, m1).
        bind_run (if Execute m1 then in_world (destroy v1) m1 else Ok m1) (\<lambda>m2.
        bind_run (run_for_expr P g n part2 (for_pre_expr2 sw token m2)) (\<lambda>(v2, m3).
          let (v2, m4) = for_pre_expr3 sw token v2 m3 in
        bind_run (run_for_expr P g n part3 m4) (\<lambda>(v3, m5).
        bind_run (for_pre_statement P sw v2 v3 m5) (\<lambda>m6.
        bind_run (run_stmt P g n s m6) (\<lambda>m7.
          let m8 = for_post_statement sw token m7 in
          if next_token_is CONTINUED_FOR m8
          then (case n of 0 \<Rightarrow> Fuel | Suc k \<Rightarrow> run_stmt P g k (For token e1 e2 e3 s) m8)
          else Ok m8))))))
      else Die)"
| "run_stmt P g n (Switch e cs) m =
     bind_run (run_expr P g n e m) (\<lambda>(v, m1).
     bind_run (run_cases P g n cs (cs_switch_start v m1)) (\<lambda>m2. cs_switch_end v m2))"
| "run_stmt P g n (Break_continue op_type None) m = cs_break_continue P None op_type m"
| "run_stmt P g n (Break_continue op_type (Some e)) m =
     bind_run (run_expr P g n e m) (\<lambda>(v, m1). cs_break_continue P (Some v) op_type m1)"
| "run_stmt P g n (Return_from None) m = cs_return P None m"
| "run_stmt P g n (Return_from (Some e)) m = bind_run (run_expr P g n e m) (\<lambda>(v, m1). cs_return P (Some v) m1)"
| "run_stmt P g n (Declare s) m =
     bind_run (run_stmt P g n s (start_function_decleration m)) (\<lambda>m1. Ok (end_function_decleration m1))"
| "run_elses P g n No_else m = Ok m"
| "run_elses P g n (Else s) m = run_stmt P g n s (cs_start_else m)"
| "run_elses P g n (Elseif e s els) m =
     bind_run (run_expr P g n e (cs_elseif_start_evaluate m)) (\<lambda>(v, m1).
     bind_run (cs_start_elseif P v (cs_elseif_end_evaluate m1)) (\<lambda>m2.
     bind_run (run_stmt P g n s m2) (run_elses P g n els)))"
| "run_cases P g n No_case m = Ok m"
| "run_cases P g n (Case e s cs) m =
     bind_run (run_expr P g n e m) (\<lambda>(v, m1).
     bind_run (cs_switch_case_pre P (Some v) m1) (\<lambda>m2.
     bind_run (run_stmt P g n s m2) (\<lambda>m3. run_cases P g n cs (cs_switch_case_post m3))))"
| "run_cases P g n (Default s) m =
     bind_run (cs_switch_case_pre P None m) (\<lambda>m1.
     bind_run (run_stmt P g n s m1) (\<lambda>m2. Ok (cs_switch_case_post m2)))"
  by pat_completeness auto

text \<open>The fuel decreases at a jump, the phrase everywhere else.\<close>

termination
  by (relation "measures
     [case_sum (case_sum (\<lambda>(P, g, n, e, m). n) (case_sum (\<lambda>(P, g, n, e, m). n) (\<lambda>(P, g, n, e, m). n)))
       (case_sum (case_sum (\<lambda>(P, g, n, e, m). n) (\<lambda>(P, g, n, e, m). n)) (case_sum (\<lambda>(P, g, n, e, m). n) (\<lambda>(P, g, n, e, m). n))),
      case_sum (case_sum (\<lambda>(P, g, n, e, m). size e) (case_sum (\<lambda>(P, g, n, e, m). size e) (\<lambda>(P, g, n, e, m). size e)))
       (case_sum (case_sum (\<lambda>(P, g, n, e, m). size e) (\<lambda>(P, g, n, e, m). size e)) (case_sum (\<lambda>(P, g, n, e, m). size e) (\<lambda>(P, g, n, e, m). size e)))]") auto

end
