(* ===== verification/Control_Spec.thy ===== *)
theory Control_Spec
  imports Control
begin

text \<open>
  The meaning of the statements, as a structured semantics: only the phrases that are executed are looked at,
  there is no flag, no stack and no jump. A statement completes normally, leaves a loop or returns a value. It
  is given the nesting level of the loops and whether it is in a function. \<open>n\<close> bounds the number of iterations and
  calls. The operations on values are those of the interpreter.
\<close>

datatype 'f completion = Normal | Leave_loop int int | Returned "'f pval"

text \<open>The truth of a value, which is used up.\<close>

definition truth_value :: "('op, 'fn, 'f, 'u) program \<Rightarrow> 'f pval \<Rightarrow> ('f, 'u) world \<Rightarrow>
    (('f, 'u) world, bool \<times> ('f, 'u) world) run" where
  "truth_value P v w = bind_run (is_true P v w) (\<lambda>(b, v1, w1). Ok (b, w1))"

text \<open>What the completion of its body means to a loop at \<open>level\<close>: a further iteration, or its own completion.\<close>

definition after_body :: "int \<Rightarrow> 'f completion \<Rightarrow> 'f completion option" where
  "after_body level c =
     (case c of
       Normal \<Rightarrow> None
     | Leave_loop ty l \<Rightarrow> if l = level then if ty = DO_CONTINUE then None else Some Normal else Some c
     | Returned v \<Rightarrow> Some c)"

text \<open>The completion of a \<open>switch\<close> at \<open>level\<close>: both \<open>break\<close> and \<open>continue\<close> leave it.\<close>

definition after_switch :: "int \<Rightarrow> 'f completion \<Rightarrow> 'f completion" where
  "after_switch level c = (case c of Leave_loop ty l \<Rightarrow> if l = level then Normal else c | _ \<Rightarrow> c)"

function (sequential) exec_expr :: "('op, 'fn, 'f, 'u) program \<Rightarrow> nat \<Rightarrow> ('op, 'fn) expr \<Rightarrow> ('f, 'u) world \<Rightarrow>
      (('f, 'u) world, 'f pval \<times> ('f, 'u) world) run"
  and exec_args :: "('op, 'fn, 'f, 'u) program \<Rightarrow> nat \<Rightarrow> ('op, 'fn) args \<Rightarrow> ('f, 'u) world \<Rightarrow>
      (('f, 'u) world, 'f pval list \<times> ('f, 'u) world) run"
  and exec_parameters :: "('op, 'fn, 'f, 'u) program \<Rightarrow> nat \<Rightarrow> ('op, 'fn) args \<Rightarrow> ('f, 'u) world \<Rightarrow>
      (('f, 'u) world, ('f, 'u) world) run"
  and exec_for_expr :: "('op, 'fn, 'f, 'u) program \<Rightarrow> nat \<Rightarrow> ('op, 'fn) for_expr \<Rightarrow> ('f, 'u) world \<Rightarrow>
      (('f, 'u) world, 'f pval \<times> ('f, 'u) world) run"
  and exec_stmt :: "('op, 'fn, 'f, 'u) program \<Rightarrow> nat \<Rightarrow> bool \<times> int \<times> ('op, 'fn) stmt \<Rightarrow> ('f, 'u) world \<Rightarrow>
      (('f, 'u) world, 'f completion \<times> ('f, 'u) world) run"
  and exec_for :: "('op, 'fn, 'f, 'u) program \<Rightarrow> nat \<Rightarrow>
      bool \<times> int \<times> 'f pval \<times> ('op, 'fn) for_expr \<times> ('op, 'fn) for_expr \<times> ('op, 'fn) stmt \<Rightarrow> ('f, 'u) world \<Rightarrow>
      (('f, 'u) world, 'f completion \<times> ('f, 'u) world) run"
  and exec_elses :: "('op, 'fn, 'f, 'u) program \<Rightarrow> nat \<Rightarrow> bool \<times> int \<times> ('op, 'fn) elses \<Rightarrow> ('f, 'u) world \<Rightarrow>
      (('f, 'u) world, 'f completion \<times> ('f, 'u) world) run"
  and exec_cases :: "('op, 'fn, 'f, 'u) program \<Rightarrow> nat \<Rightarrow> bool \<times> int \<times> 'f pval \<times> bool \<times> ('op, 'fn) cases \<Rightarrow> ('f, 'u) world \<Rightarrow>
      (('f, 'u) world, 'f completion \<times> ('f, 'u) world) run" where
  "exec_expr P n (Op f es) w =
     bind_run (exec_args P n es w) (\<lambda>(vs, w1). checked (action P f vs w1))"
| "exec_expr P n (Or e1 e2) w =
     bind_run (exec_expr P n e1 w) (\<lambda>(v1, w1).
     bind_run (truth_value P v1 w1) (\<lambda>(b1, w2).
       if b1 then Ok (IS_LONG 1, w2)
       else bind_run (exec_expr P n e2 w2) (\<lambda>(v2, w3).
         bind_run (truth_value P v2 w3) (\<lambda>(b2, w4). Ok (IS_LONG (if b2 then 1 else 0), w4)))))"
| "exec_expr P n (And e1 e2) w =
     bind_run (exec_expr P n e1 w) (\<lambda>(v1, w1).
     bind_run (truth_value P v1 w1) (\<lambda>(b1, w2).
       if \<not> b1 then Ok (IS_LONG 0, w2)
       else bind_run (exec_expr P n e2 w2) (\<lambda>(v2, w3).
         bind_run (truth_value P v2 w3) (\<lambda>(b2, w4). Ok (IS_LONG (if b2 then 1 else 0), w4)))))"
| "exec_expr P n (Cond e1 e2 e3) w =
     bind_run (exec_expr P n e1 w) (\<lambda>(v1, w1).
     bind_run (truth_value P v1 w1) (\<lambda>(b1, w2). if b1 then exec_expr P n e2 w2 else exec_expr P n e3 w2))"
| "exec_expr P n (Call f es) w =
     (case function_body P f of
       None \<Rightarrow> Die
     | Some body \<Rightarrow>
         bind_run (checked (new_symbol_table P f w)) (\<lambda>w1.
         bind_run (exec_parameters P n es w1) (\<lambda>w2.
         bind_run (checked (enter_function P f w2)) (\<lambda>w3.
           case n of
             0 \<Rightarrow> Fuel
           | Suc k \<Rightarrow> bind_run (exec_stmt P k (True, 0, body) w3) (\<lambda>(c, w4).
               bind_run (checked (leave_function P w4)) (\<lambda>w5.
                 Ok (case c of Returned v \<Rightarrow> v | _ \<Rightarrow> var_reset, w5)))))))"
| "exec_args P n No_args w = Ok ([], w)"
| "exec_args P n (Arg es e) w =
     bind_run (exec_args P n es w) (\<lambda>(vs, w1). bind_run (exec_expr P n e w1) (\<lambda>(v, w2). Ok (vs @ [v], w2)))"
| "exec_parameters P n No_args w = Ok w"
| "exec_parameters P n (Arg es e) w =
     bind_run (exec_parameters P n es w) (\<lambda>w1. bind_run (exec_expr P n e w1) (\<lambda>(v, w2). checked (pass_value P v w2)))"
| "exec_for_expr P n Empty_expr w = Ok (IS_LONG 1, w)"
| "exec_for_expr P n (One_expr e) w = exec_expr P n e w"
| "exec_for_expr P n (Comma fe e) w =
     bind_run (exec_for_expr P n fe w) (\<lambda>(v1, w1).
     bind_run (exec_expr P n e w1) (\<lambda>(v2, w2). bind_run (destroy v1 w2) (\<lambda>w3. Ok (v2, w3))))"
| "exec_stmt P n (infun, level, Empty_statement) w = Ok (Normal, w)"
| "exec_stmt P n (infun, level, Sequence s1 s2) w =
     bind_run (exec_stmt P n (infun, level, s1) w) (\<lambda>(c, w1).
       if c = Normal then exec_stmt P n (infun, level, s2) w1 else Ok (c, w1))"
| "exec_stmt P n (infun, level, Expression e) w =
     bind_run (exec_expr P n e w) (\<lambda>(v, w1). bind_run (destroy v w1) (\<lambda>w2. Ok (Normal, w2)))"
| "exec_stmt P n (infun, level, If_else e s els) w =
     bind_run (exec_expr P n e w) (\<lambda>(v, w1).
     bind_run (truth_value P v w1) (\<lambda>(b, w2).
       if b then exec_stmt P n (infun, level, s) w2 else exec_elses P n (infun, level, els) w2))"
| "exec_stmt P n (infun, level, While token e s) w =
     bind_run (exec_expr P n e w) (\<lambda>(v, w1).
     bind_run (truth_value P v w1) (\<lambda>(b, w2).
       if \<not> b then Ok (Normal, w2)
       else bind_run (exec_stmt P n (infun, level + 1, s) w2) (\<lambda>(c, w3).
         case after_body (level + 1) c of
           Some c1 \<Rightarrow> Ok (c1, w3)
         | None \<Rightarrow> (case n of 0 \<Rightarrow> Fuel | Suc k \<Rightarrow> exec_stmt P k (infun, level, While token e s) w3))))"
| "exec_stmt P n (infun, level, Do_while token s e) w =
     bind_run (exec_stmt P n (infun, level + 1, s) w) (\<lambda>(c, w1).
       case after_body (level + 1) c of
         Some c1 \<Rightarrow> Ok (c1, w1)
       | None \<Rightarrow>
           bind_run (exec_expr P n e w1) (\<lambda>(v, w2).
           bind_run (truth_value P v w2) (\<lambda>(b, w3).
             if \<not> b then Ok (Normal, w3)
             else (case n of 0 \<Rightarrow> Fuel | Suc k \<Rightarrow> exec_stmt P k (infun, level, Do_while token s e) w3))))"
| "exec_stmt P n (infun, level, For token e1 e2 e3 s) w =
     bind_run (exec_for_expr P n e1 w) (\<lambda>(v, w1).
     bind_run (destroy v w1) (\<lambda>w2. exec_for P n (infun, level, var_reset, e2, e3, s) w2))"
| "exec_stmt P n (infun, level, Switch e cs) w =
     bind_run (exec_expr P n e w) (\<lambda>(v, w1).
     bind_run (exec_cases P n (infun, level + 1, v, False, cs) w1) (\<lambda>(c, w2).
     bind_run (destroy v w2) (\<lambda>w3. Ok (after_switch (level + 1) c, w3))))"
| "exec_stmt P n (infun, level, Break_continue ty None) w =
     (if level \<le> 0 then Die else Ok (Leave_loop ty level, w))"
| "exec_stmt P n (infun, level, Break_continue ty (Some e)) w =
     bind_run (exec_expr P n e w) (\<lambda>(v, w1).
     bind_run (to_integer P v w1) (\<lambda>(v1, w2).
       let l = wrap_int (level - lval v1 + 1)
       in if l \<le> 0 \<or> l > level then Die else Ok (Leave_loop ty l, w2)))"
| "exec_stmt P n (infun, level, Return_from None) w = (if infun then Ok (Returned var_reset, w) else Quit w)"
| "exec_stmt P n (infun, level, Return_from (Some e)) w =
     bind_run (exec_expr P n e w) (\<lambda>(v, w1).
       if infun then Ok (Returned v, w1)
       else bind_run (checked (print_variable P v w1)) (\<lambda>w2. bind_run (destroy v w2) Quit))"
| "exec_stmt P n (infun, level, Declare s) w = Ok (Normal, w)"
| "exec_for P n (infun, level, v3, e2, e3, s) w =
     bind_run (exec_for_expr P n e2 w) (\<lambda>(v2, w1).
     bind_run (truth_value P v2 w1) (\<lambda>(b, w2).
     bind_run (destroy v3 w2) (\<lambda>w3.
       if \<not> b then Ok (Normal, w3)
       else bind_run (exec_stmt P n (infun, level + 1, s) w3) (\<lambda>(c, w4).
         case after_body (level + 1) c of
           Some c1 \<Rightarrow> Ok (c1, w4)
         | None \<Rightarrow>
             (case n of
               0 \<Rightarrow> Fuel
             | Suc k \<Rightarrow> bind_run (exec_for_expr P k e3 w4) (\<lambda>(v, w5). exec_for P k (infun, level, v, e2, e3, s) w5))))))"
| "exec_elses P n (infun, level, No_else) w = Ok (Normal, w)"
| "exec_elses P n (infun, level, Else s) w = exec_stmt P n (infun, level, s) w"
| "exec_elses P n (infun, level, Elseif e s els) w =
     bind_run (exec_expr P n e w) (\<lambda>(v, w1).
     bind_run (truth_value P v w1) (\<lambda>(b, w2).
       if b then exec_stmt P n (infun, level, s) w2 else exec_elses P n (infun, level, els) w2))"
| "exec_cases P n (infun, level, v, matched, No_case) w = Ok (Normal, w)"
| "exec_cases P n (infun, level, v, matched, Case e s cs) w =
     bind_run (exec_expr P n e w) (\<lambda>(v1, w1).
     bind_run (if matched then bind_run (destroy v1 w1) (\<lambda>w2. Ok (True, w2)) else case_equal P v v1 w1) (\<lambda>(b, w2).
       if b then bind_run (exec_stmt P n (infun, level, s) w2) (\<lambda>(c, w3).
         if c = Normal then exec_cases P n (infun, level, v, True, cs) w3 else Ok (c, w3))
       else exec_cases P n (infun, level, v, False, cs) w2))"
| "exec_cases P n (infun, level, v, matched, Default s) w = exec_stmt P n (infun, level, s) w"
  by pat_completeness auto

text \<open>The fuel decreases with a further iteration and a call, the phrase everywhere else.\<close>

termination
  by (relation "measures
     [case_sum (case_sum (case_sum (\<lambda>(P, n, e, w). n) (\<lambda>(P, n, e, w). n)) (case_sum (\<lambda>(P, n, e, w). n) (\<lambda>(P, n, e, w). n)))
       (case_sum (case_sum (\<lambda>(P, n, e, w). n) (\<lambda>(P, n, e, w). n))
         (case_sum (\<lambda>(P, n, e, w). n) (\<lambda>(P, n, e, w). n))),
      case_sum (case_sum (case_sum (\<lambda>(P, n, e, w). 2 * size e) (\<lambda>(P, n, e, w). 2 * size e)) (case_sum (\<lambda>(P, n, e, w). 2 * size e) (\<lambda>(P, n, e, w). 2 * size e)))
       (case_sum (case_sum (\<lambda>(P, n, (i, l, s), w). 2 * size s) (\<lambda>(P, n, (i, l, v, e2, e3, s), w). 2 * (size e2 + size e3 + size s) + 1))
         (case_sum (\<lambda>(P, n, (i, l, s), w). 2 * size s) (\<lambda>(P, n, (i, l, v, b, s), w). 2 * size s)))]") auto

end
