(* ===== verification/Control_Proofs.thy ===== *)
theory Control_Proofs
  imports Control_Spec
begin

text \<open>
  The interpreter runs a program as the structured semantics says: first, that the parser passes over a phrase
  that is not executed without any effect, then the simulation. A number of a loop must be used once in nested
  loops, and carry the type of its word; the condition of a \<open>while\<close> must not call a function that can reach the
  same \<open>while\<close>, because its token still has the type of a further iteration when the condition is evaluated.
\<close>

subsection \<open>Numbers of loops, and functions called\<close>

fun calls_expr :: "('op, 'fn) expr \<Rightarrow> 'fn set" and calls_args :: "('op, 'fn) args \<Rightarrow> 'fn set" where
  "calls_expr (Op f es) = calls_args es"
| "calls_expr (Or e1 e2) = calls_expr e1 \<union> calls_expr e2"
| "calls_expr (And e1 e2) = calls_expr e1 \<union> calls_expr e2"
| "calls_expr (Cond e1 e2 e3) = calls_expr e1 \<union> calls_expr e2 \<union> calls_expr e3"
| "calls_expr (Call f es) = insert f (calls_args es)"
| "calls_args No_args = {}"
| "calls_args (Arg es e) = calls_args es \<union> calls_expr e"

fun calls_for :: "('op, 'fn) for_expr \<Rightarrow> 'fn set" where
  "calls_for Empty_expr = {}"
| "calls_for (One_expr e) = calls_expr e"
| "calls_for (Comma fe e) = calls_for fe \<union> calls_expr e"

definition calls_opt :: "('op, 'fn) expr option \<Rightarrow> 'fn set" where
  "calls_opt e = (case e of None \<Rightarrow> {} | Some e \<Rightarrow> calls_expr e)"

fun calls_stmt :: "('op, 'fn) stmt \<Rightarrow> 'fn set" and calls_elses :: "('op, 'fn) elses \<Rightarrow> 'fn set"
  and calls_cases :: "('op, 'fn) cases \<Rightarrow> 'fn set" where
  "calls_stmt Empty_statement = {}"
| "calls_stmt (Sequence s1 s2) = calls_stmt s1 \<union> calls_stmt s2"
| "calls_stmt (Expression e) = calls_expr e"
| "calls_stmt (If_else e s els) = calls_expr e \<union> calls_stmt s \<union> calls_elses els"
| "calls_stmt (While token e s) = calls_expr e \<union> calls_stmt s"
| "calls_stmt (Do_while token s e) = calls_stmt s \<union> calls_expr e"
| "calls_stmt (For token e1 e2 e3 s) = calls_for e1 \<union> calls_for e2 \<union> calls_for e3 \<union> calls_stmt s"
| "calls_stmt (Switch e cs) = calls_expr e \<union> calls_cases cs"
| "calls_stmt (Break_continue ty e) = calls_opt e"
| "calls_stmt (Return_from e) = calls_opt e"
| "calls_stmt (Declare s) = {}"
| "calls_elses No_else = {}"
| "calls_elses (Else s) = calls_stmt s"
| "calls_elses (Elseif e s els) = calls_expr e \<union> calls_stmt s \<union> calls_elses els"
| "calls_cases No_case = {}"
| "calls_cases (Case e s cs) = calls_expr e \<union> calls_stmt s \<union> calls_cases cs"
| "calls_cases (Default s) = calls_stmt s"

fun loops_stmt :: "('op, 'fn) stmt \<Rightarrow> nat set" and loops_elses :: "('op, 'fn) elses \<Rightarrow> nat set"
  and loops_cases :: "('op, 'fn) cases \<Rightarrow> nat set" where
  "loops_stmt (Sequence s1 s2) = loops_stmt s1 \<union> loops_stmt s2"
| "loops_stmt (If_else e s els) = loops_stmt s \<union> loops_elses els"
| "loops_stmt (While token e s) = insert token (loops_stmt s)"
| "loops_stmt (Do_while token s e) = insert token (loops_stmt s)"
| "loops_stmt (For token e1 e2 e3 s) = insert token (loops_stmt s)"
| "loops_stmt (Switch e cs) = loops_cases cs"
| "loops_stmt (Declare s) = loops_stmt s"
| "loops_stmt _ = {}"
| "loops_elses No_else = {}"
| "loops_elses (Else s) = loops_stmt s"
| "loops_elses (Elseif e s els) = loops_stmt s \<union> loops_elses els"
| "loops_cases No_case = {}"
| "loops_cases (Case e s cs) = loops_stmt s \<union> loops_cases cs"
| "loops_cases (Default s) = loops_stmt s"

text \<open>
  \<open>tk\<close> gives the type of the first word of each loop; \<open>R f\<close> are the loops that a call of \<open>f\<close> may run.
\<close>

fun ok_stmt :: "(nat \<Rightarrow> int) \<Rightarrow> ('fn \<Rightarrow> nat set) \<Rightarrow> ('op, 'fn) stmt \<Rightarrow> bool"
  and ok_elses :: "(nat \<Rightarrow> int) \<Rightarrow> ('fn \<Rightarrow> nat set) \<Rightarrow> ('op, 'fn) elses \<Rightarrow> bool"
  and ok_cases :: "(nat \<Rightarrow> int) \<Rightarrow> ('fn \<Rightarrow> nat set) \<Rightarrow> ('op, 'fn) cases \<Rightarrow> bool" where
  "ok_stmt tk R (Sequence s1 s2) \<longleftrightarrow> ok_stmt tk R s1 \<and> ok_stmt tk R s2"
| "ok_stmt tk R (If_else e s els) \<longleftrightarrow> ok_stmt tk R s \<and> ok_elses tk R els"
| "ok_stmt tk R (While token e s) \<longleftrightarrow>
     tk token = WHILE \<and> (\<forall>f \<in> calls_expr e. token \<notin> R f) \<and> ok_stmt tk R s \<and> token \<notin> loops_stmt s"
| "ok_stmt tk R (Do_while token s e) \<longleftrightarrow> tk token = DO \<and> ok_stmt tk R s \<and> token \<notin> loops_stmt s"
| "ok_stmt tk R (For token e1 e2 e3 s) \<longleftrightarrow> tk token = FOR \<and> ok_stmt tk R s \<and> token \<notin> loops_stmt s"
| "ok_stmt tk R (Switch e cs) \<longleftrightarrow> ok_cases tk R cs"
| "ok_stmt tk R (Declare s) \<longleftrightarrow> ok_stmt tk R s"
| "ok_stmt tk R (Break_continue ty e) \<longleftrightarrow> ty = DO_BREAK \<or> ty = DO_CONTINUE"
| "ok_stmt tk R _ \<longleftrightarrow> True"
| "ok_elses tk R No_else \<longleftrightarrow> True"
| "ok_elses tk R (Else s) \<longleftrightarrow> ok_stmt tk R s"
| "ok_elses tk R (Elseif e s els) \<longleftrightarrow> ok_stmt tk R s \<and> ok_elses tk R els"
| "ok_cases tk R No_case \<longleftrightarrow> True"
| "ok_cases tk R (Case e s cs) \<longleftrightarrow> ok_stmt tk R s \<and> ok_cases tk R cs"
| "ok_cases tk R (Default s) \<longleftrightarrow> ok_stmt tk R s"

definition ok_program :: "('op, 'fn, 'f, 'u) program \<Rightarrow> (nat \<Rightarrow> int) \<Rightarrow> ('fn \<Rightarrow> nat set) \<Rightarrow> bool" where
  "ok_program P tk R \<longleftrightarrow> (\<forall>f body. function_body P f = Some body \<longrightarrow>
     ok_stmt tk R body \<and> loops_stmt body \<subseteq> R f \<and> (\<forall>g \<in> calls_stmt body. R g \<subseteq> R f))"

definition agrees :: "(nat \<Rightarrow> int) \<Rightarrow> nat set \<Rightarrow> ('f, 'u) machine \<Rightarrow> bool" where
  "agrees tk L m \<longleftrightarrow> (\<forall>l \<in> L. token_at m l = tk l)"

text \<open>
  How the marks of the loops \<open>L\<close> develop: a \<open>for\<close> is marked once, and its parts are exchanged at the same time.
\<close>

definition grows :: "nat set \<Rightarrow> (nat \<Rightarrow> bool \<times> bool) \<Rightarrow> (nat \<Rightarrow> bool \<times> bool) \<Rightarrow> bool" where
  "grows L a b \<longleftrightarrow> (\<forall>l. (l \<notin> L \<longrightarrow> b l = a l) \<and> (fst (a l) \<longrightarrow> b l = a l) \<and>
     (fst (a l) = snd (a l) \<longrightarrow> fst (b l) = snd (b l)))"

definition passed :: "(nat \<Rightarrow> int) \<Rightarrow> nat set \<Rightarrow> (nat \<Rightarrow> bool \<times> bool) \<Rightarrow> (nat \<Rightarrow> bool \<times> bool) \<Rightarrow> bool" where
  "passed tk L a b \<longleftrightarrow> grows L a b \<and> (\<forall>l \<in> L. tk l = FOR \<longrightarrow> fst (b l))"

lemma grows_refl [simp]: "grows L a a"
  by (simp add: grows_def)

lemma grows_trans: "grows L a b \<Longrightarrow> grows L' b c \<Longrightarrow> L \<union> L' \<subseteq> M \<Longrightarrow> grows M a c"
  unfolding grows_def by (metis Un_iff subsetD)

lemma grows_mono: "grows L a b \<Longrightarrow> L \<subseteq> M \<Longrightarrow> grows M a b"
  unfolding grows_def by blast

lemma passed_empty [simp]: "passed tk {} a a"
  by (simp add: passed_def)

lemma passed_other: "passed tk L a b \<Longrightarrow> tk l \<noteq> FOR \<Longrightarrow> passed tk (insert l L) a b"
  by (auto simp: passed_def intro: grows_mono)

lemma passed_union: "passed tk L a b \<Longrightarrow> passed tk L' b c \<Longrightarrow> passed tk (L \<union> L') a c"
  unfolding passed_def using grows_trans [of L a b L' c "L \<union> L'"] unfolding grows_def by (metis Un_iff order_refl)

lemma passed_for:
  assumes "passed tk L a b" "l \<notin> L"
  shows "passed tk (insert l L) a (if fst (a l) then b else b(l := (True, \<not> snd (b l))))"
  using assms by (auto simp: passed_def grows_def)

subsection \<open>Passing over\<close>

text \<open>The parser passes over code: nothing is executed, and no \<open>break\<close> is waiting for a loop inside.\<close>

definition idle :: "('f, 'u) machine \<Rightarrow> bool" where
  "idle m \<longleftrightarrow> \<not> Execute m \<and> \<not> SHOULD_EXECUTE m \<and> jumped m = None \<and>
     (loop_change_type (fstate m) \<noteq> DO_NOTHING \<longrightarrow> loop_change_level (fstate m) \<le> loop_nest_level (fstate m))"

named_theorems state_defs \<open>the ways the state of the parser changes\<close>

lemmas [state_defs] = set_flag_def push_flag_def top_flag_def pop_flag_def nest_def clear_change_def jump_back_def
  SHOULD_EXECUTE_def int_top_def landed_def Let_def

lemma idle_fields: "idle m \<Longrightarrow> \<not> Execute m" "idle m \<Longrightarrow> jumped m = None"
  by (simp_all add: idle_def)

lemma idle_updates [simp]:
  "idle (m\<lparr>marks := mk\<rparr>) \<longleftrightarrow> idle m" "idle (push_flag m) \<longleftrightarrow> idle m"
  "idle (m\<lparr>switch_stack := ss\<rparr>) \<longleftrightarrow> idle m" "idle (m\<lparr>for_stack := fs\<rparr>) \<longleftrightarrow> idle m"
  by (simp_all add: idle_def state_defs)

lemma idle_nest [simp]: "idle m \<Longrightarrow> idle (nest 1 m)"
  by (auto simp: idle_def state_defs)

lemma idle_dont: "idle m \<Longrightarrow> idle (m\<lparr>ExecuteFlag := DONT_EXECUTE\<rparr>)" "idle m \<Longrightarrow> idle (set_flag DONT_EXECUTE m)"
  by (auto simp: idle_def state_defs DONT_EXECUTE_def EXECUTE_def)

lemma landed_idle [simp]: "idle m \<Longrightarrow> landed m = m"
  by (simp add: landed_def idle_def)

lemma landed_none: "jumped m = None \<Longrightarrow> landed m = m"
  by (simp add: landed_def)

lemma pop_push: "Execute m = SHOULD_EXECUTE m \<Longrightarrow> pop_flag (push_flag m) = m"
  by (simp add: state_defs)

lemma idle_steady: "idle m \<Longrightarrow> Execute m = SHOULD_EXECUTE m"
  by (simp add: idle_def)

lemma skip_expr:
  "\<And>m. idle m \<Longrightarrow> \<exists>v. run_expr P g n e m = Ok (v, m)"
  "\<And>m. idle m \<Longrightarrow> \<exists>vs. run_args P g n es m = Ok (vs, m)"
  "\<And>m. idle m \<Longrightarrow> run_parameters P g n es m = Ok m"
proof (induction e and es)
  case (Op f es)
  then obtain vs where "run_args P g n es m = Ok (vs, m)" by blast
  with Op show ?case by (simp add: idle_fields)
next
  case (Or e1 e2)
  obtain v1 where e1: "run_expr P g n e1 m = Ok (v1, m)" using Or by blast
  obtain v2 where e2: "run_expr P g n e2 (push_flag m) = Ok (v2, push_flag m)" using Or by fastforce
  have "\<not> Execute (push_flag m)" using Or.prems by (simp add: push_flag_def idle_fields)
  with e1 e2 Or.prems show ?case
    by (simp add: cs_pre_boolean_or_def cs_post_boolean_or_def pop_push [OF idle_steady] idle_fields Let_def)
next
  case (And e1 e2)
  obtain v1 where e1: "run_expr P g n e1 m = Ok (v1, m)" using And by blast
  obtain v2 where e2: "run_expr P g n e2 (push_flag m) = Ok (v2, push_flag m)" using And by fastforce
  have "\<not> Execute (push_flag m)" using And.prems by (simp add: push_flag_def idle_fields)
  with e1 e2 And.prems show ?case
    by (simp add: cs_pre_boolean_and_def cs_post_boolean_and_def pop_push [OF idle_steady] idle_fields Let_def)
next
  case (Cond e1 e2 e3)
  obtain v1 where e1: "run_expr P g n e1 m = Ok (v1, m)" using Cond by blast
  obtain v2 where e2: "run_expr P g n e2 (push_flag m) = Ok (v2, push_flag m)" using Cond by fastforce
  obtain v3 where e3: "run_expr P g n e3 (push_flag m) = Ok (v3, push_flag m)" using Cond by fastforce
  have "\<not> Execute (push_flag m)" using Cond.prems by (simp add: push_flag_def idle_fields)
  moreover have "top_flag (push_flag m) = push_flag m"
    using Cond.prems by (simp add: idle_def state_defs)
  ultimately show ?case using e1 e2 e3 Cond.prems
    by (simp add: cs_questionmark_op_pre_expr1_def cs_pre_boolean_and_def cs_questionmark_op_pre_expr2_def
        cs_questionmark_op_post_expr2_def pop_push [OF idle_steady] idle_fields Let_def)
next
  case (Call f es)
  then show ?case by (simp add: cs_functioncall_pre_variable_passing_def idle_fields)
next
  case (Arg es e)
  { case 1 then show ?case using Arg.IH by fastforce }
  { case 2 then show ?case using Arg.IH by (fastforce simp: pass_parameter_def idle_fields) }
qed simp_all

lemma skip_for_expr: "idle m \<Longrightarrow> \<exists>v. run_for_expr P g n fe m = Ok (v, m)"
proof (induction fe)
  case (One_expr e)
  then show ?case using skip_expr(1) [OF One_expr, of P g n e] by simp
next
  case (Comma fe e)
  then obtain v where "run_for_expr P g n fe m = Ok (v, m)" by blast
  moreover obtain v2 where "run_expr P g n e m = Ok (v2, m)" using skip_expr(1) [OF Comma.prems] by blast
  ultimately show ?case using Comma.prems by (simp add: idle_fields)
qed simp

text \<open>Only the marks of \<open>for\<close> loops that the parser sees for the first time change.\<close>

lemma skip_while:
  assumes "idle m" "run_expr P g n e m = Ok (v, m)" "token_at m token = WHILE"
    and "run_stmt P g n s (push_flag (nest 1 m)) = Ok ((push_flag (nest 1 m))\<lparr>marks := mk\<rparr>)"
  shows "run_stmt P g n (While token e s) m = Ok (m\<lparr>marks := mk\<rparr>)"
proof -
  have "cs_start_while P token v m = Ok (push_flag (nest 1 m))"
    using assms(1) by (simp add: cs_start_while_def state_defs idle_fields)
  moreover have "cs_end_while token ((push_flag (nest 1 m))\<lparr>marks := mk\<rparr>) = m\<lparr>marks := mk\<rparr>"
    using assms(1) by (auto simp: cs_end_while_def state_defs idle_def)
  ultimately show ?thesis using assms
    by (simp add: starts_def next_token_is_def idle_fields)
qed

lemma skip_do_while:
  assumes "idle m" "\<And>m. idle m \<Longrightarrow> run_expr P g n e m = Ok (v m, m)" "token_at m token = DO"
    and "run_stmt P g n s (push_flag (nest 1 m)) = Ok ((push_flag (nest 1 m))\<lparr>marks := mk\<rparr>)"
  shows "run_stmt P g n (Do_while token s e) m = Ok (m\<lparr>marks := mk\<rparr>)"
proof -
  let ?m = "(push_flag (nest 1 m))\<lparr>marks := mk\<rparr>"
  have "cs_start_do_while token m = push_flag (nest 1 m)"
    using assms(1) by (simp add: cs_start_do_while_def state_defs idle_fields)
  moreover have "cs_force_eval_do_while ?m = ?m"
    using assms(1) by (auto simp: cs_force_eval_do_while_def state_defs idle_def control_constants)
  moreover have "idle ?m" using assms(1) by simp
  then have "run_expr P g n e ?m = Ok (v ?m, ?m)" by (rule assms(2))
  moreover have "cs_end_do_while P token (v ?m) ?m = Ok (m\<lparr>marks := mk\<rparr>)"
    using assms(1) by (auto simp: cs_end_do_while_def state_defs idle_def)
  ultimately show ?thesis using assms(1,3,4)
    by (simp add: starts_def next_token_is_def idle_fields)
qed

lemma skip_for:
  assumes "idle m" "\<And>fe m. idle m \<Longrightarrow> run_for_expr P g n fe m = Ok (v fe m, m)" "token_at m token = FOR"
    and "int_top (for_stack m) \<noteq> int token"
    and "run_stmt P g n s (push_flag (nest 1 m)) = Ok ((push_flag (nest 1 m))\<lparr>marks := mk\<rparr>)"
  shows "run_stmt P g n (For token e1 e2 e3 s) m =
    Ok (m\<lparr>marks := if fst (marks m token) then mk else mk(token := (True, \<not> snd (mk token)))\<rparr>)"
proof -
  obtain sw ex where mt: "marks m token = (sw, ex)" by fastforce
  let ?m = "push_flag (nest 1 m)"
  let ?d = "if sw then set_flag DONT_EXECUTE ?m else ?m"
  let ?mk = "if sw then mk else mk(token := (True, \<not> snd (mk token)))"
  have i: "idle ?m" "idle ?d" using assms(1) idle_dont(2) [of ?m] by simp_all
  have "for_pre_expr1 token m = ?m"
    using assms(1) by (simp add: for_pre_expr1_def state_defs idle_fields)
  moreover have top: "top_flag ?m = ?m" "top_flag ?d = ?m" "for_stack ?m = for_stack m" "for_stack ?d = for_stack m"
    using assms(1) by (auto simp: state_defs idle_def)
  have "for_pre_expr2 sw token ?m = ?d"
    using assms(4) top by (simp add: for_pre_expr2_def)
  moreover have "\<exists>v2. for_pre_expr3 sw token x ?d = (v2, ?m)" for x
    using i(1) top by (simp add: for_pre_expr3_def idle_fields)
  then obtain v2 where "for_pre_expr3 sw token (v (if ex then e3 else e2) ?d) ?d = (v2, ?m)" by blast
  moreover have "for_pre_statement P sw x y ?m = Ok ?m" for x y
    using i(1) top by (simp add: for_pre_statement_def idle_fields)
  moreover have "for_post_statement sw token (?m\<lparr>marks := mk\<rparr>) = m\<lparr>marks := ?mk\<rparr>"
    using assms(1,4) by (auto simp: for_post_statement_def pop_for_def state_defs idle_def)
  ultimately show ?thesis using assms(1,3,5) i assms(2) [OF i(1)] assms(2) [OF i(2)]
    by (simp add: starts_def next_token_is_def idle_fields mt)
qed

text \<open>\<open>elseif\<close> and \<open>else\<close> after a branch that was taken, or in code that is not executed.\<close>

lemma idle_end_branch: "idle m \<Longrightarrow> idle (end_branch m)"
  by (simp add: end_branch_def idle_dont)

lemma idle_elseif_start:
  "idle m \<Longrightarrow> ExecuteFlag m \<noteq> BEFORE_EXECUTE \<Longrightarrow> cs_elseif_start_evaluate m = push_flag (end_branch m)"
  by (auto simp: cs_elseif_start_evaluate_def end_branch_def state_defs control_constants)

lemma end_branch_twice [simp]: "end_branch (end_branch m) = end_branch m"
  by (simp add: end_branch_def state_defs control_constants)

lemma end_branch_before: "ExecuteFlag m \<noteq> BEFORE_EXECUTE \<Longrightarrow> ExecuteFlag (end_branch m) \<noteq> BEFORE_EXECUTE"
  by (simp add: end_branch_def state_defs control_constants)

lemma end_branch_fields [simp]:
  "for_stack (end_branch m) = for_stack m" "token_at (end_branch m) = token_at m" "marks (end_branch m) = marks m"
  by (simp_all add: end_branch_def state_defs)

lemma end_branch_form: "idle m \<Longrightarrow> \<exists>f. end_branch m = m\<lparr>ExecuteFlag := f\<rparr>"
  by (rule exI [of _ "ExecuteFlag (end_branch m)"]) (auto intro!: machine.equality simp: end_branch_def idle_def state_defs)

lemma end_branch_switched [simp]: "end_branch (m\<lparr>marks := mk\<rparr>) = (end_branch m)\<lparr>marks := mk\<rparr>"
  by (simp add: end_branch_def state_defs)

lemma agrees_simps [simp]:
  "agrees tk (L1 \<union> L2) m \<longleftrightarrow> agrees tk L1 m \<and> agrees tk L2 m" "agrees tk {} m"
  "agrees tk (insert l L1) m \<longleftrightarrow> token_at m l = tk l \<and> agrees tk L1 m"
  by (auto simp: agrees_def)

lemma agrees_cong: "agrees tk L m \<Longrightarrow> token_at m' = token_at m \<Longrightarrow> agrees tk L m'"
  by (simp add: agrees_def)

text \<open>The state in which a statement with these loops may start.\<close>

definition fresh :: "(nat \<Rightarrow> int) \<Rightarrow> nat set \<Rightarrow> ('f, 'u) machine \<Rightarrow> bool" where
  "fresh tk L m \<longleftrightarrow> agrees tk L m \<and> int_top (for_stack m) \<notin> int ` L"

lemma fresh_simps [simp]:
  "fresh tk (L1 \<union> L2) m \<longleftrightarrow> fresh tk L1 m \<and> fresh tk L2 m"
  "fresh tk (insert l L1) m \<longleftrightarrow> token_at m l = tk l \<and> int_top (for_stack m) \<noteq> int l \<and> fresh tk L1 m"
  "fresh tk {} m"
  by (auto simp: fresh_def)

lemma fresh_cong: "fresh tk L m \<Longrightarrow> token_at m' = token_at m \<Longrightarrow> for_stack m' = for_stack m \<Longrightarrow> fresh tk L m'"
  by (simp add: fresh_def agrees_def)

lemma fresh_updates [simp]:
  "fresh tk L (m\<lparr>marks := mk\<rparr>) \<longleftrightarrow> fresh tk L m" "fresh tk L (push_flag m) \<longleftrightarrow> fresh tk L m"
  "fresh tk L (nest d m) \<longleftrightarrow> fresh tk L m" "fresh tk L (m\<lparr>ExecuteFlag := f\<rparr>) \<longleftrightarrow> fresh tk L m"
  "fresh tk L (m\<lparr>switch_stack := ss\<rparr>) \<longleftrightarrow> fresh tk L m" "fresh tk L (end_branch m) \<longleftrightarrow> fresh tk L m"
  by (simp_all add: fresh_def agrees_def state_defs)

lemma token_push [simp]:
  "token_at (push_flag m) = token_at m" "for_stack (push_flag m) = for_stack m"
  "token_at (nest d m) = token_at m" "for_stack (nest d m) = for_stack m" "marks (push_flag m) = marks m"
  "marks (nest d m) = marks m"
  by (simp_all add: state_defs)


lemma declaration_fields [simp]:
  "marks (start_function_decleration m) = marks m"
  "fresh tk L (start_function_decleration m) \<longleftrightarrow> fresh tk L m"
  by (simp_all add: start_function_decleration_def fresh_def agrees_def state_defs)

lemma skip_stmt:
  "\<And>m. idle m \<Longrightarrow> ok_stmt tk R s \<Longrightarrow> fresh tk (loops_stmt s) m \<Longrightarrow>
     \<exists>mk. run_stmt P g n s m = Ok (m\<lparr>marks := mk\<rparr>) \<and> passed tk (loops_stmt s) (marks m) mk"
  "\<And>m. idle m \<Longrightarrow> ok_elses tk R els \<Longrightarrow> fresh tk (loops_elses els) m \<Longrightarrow> ExecuteFlag m \<noteq> BEFORE_EXECUTE \<Longrightarrow>
     \<exists>mk f. run_elses P g n els m = Ok (m\<lparr>marks := mk, ExecuteFlag := f\<rparr>) \<and> passed tk (loops_elses els) (marks m) mk"
  "\<And>m. idle m \<Longrightarrow> ok_cases tk R cs \<Longrightarrow> fresh tk (loops_cases cs) m \<Longrightarrow> \<not> Execute (top_flag m) \<Longrightarrow>
     \<exists>mk f. run_cases P g n cs m = Ok (m\<lparr>marks := mk, ExecuteFlag := f\<rparr>) \<and> passed tk (loops_cases cs) (marks m) mk"
proof (induction s and els and cs)
  case Empty_statement
  then show ?case by (intro exI [of _ "marks m"]) simp
next
  case (Sequence s1 s2)
  then obtain mk where "run_stmt P g n s1 m = Ok (m\<lparr>marks := mk\<rparr>)" and p: "passed tk (loops_stmt s1) (marks m) mk"
    by fastforce
  moreover obtain mk2 where "run_stmt P g n s2 (m\<lparr>marks := mk\<rparr>) = Ok (m\<lparr>marks := mk2\<rparr>)"
    "passed tk (loops_stmt s2) mk mk2"
    using Sequence.IH(2) [of "m\<lparr>marks := mk\<rparr>"] Sequence.prems by auto
  ultimately show ?case using passed_union by (intro exI [of _ mk2]) auto
next
  case (Expression e)
  then obtain v where "run_expr P g n e m = Ok (v, m)" using skip_expr(1) by blast
  with Expression show ?case by (intro exI [of _ "marks m"]) (simp add: idle_fields)
next
  case (If_else e s els)
  obtain v where e: "run_expr P g n e m = Ok (v, m)" using skip_expr(1) [OF If_else.prems(1)] by blast
  let ?m = "(push_flag m)\<lparr>ExecuteFlag := DONT_EXECUTE\<rparr>"
  have i: "idle ?m" using If_else.prems(1) by (simp add: idle_dont)
  have "cs_start_if P v m = Ok ?m" using If_else.prems(1) by (simp add: cs_start_if_def state_defs idle_fields)
  moreover obtain mk where "run_stmt P g n s ?m = Ok (?m\<lparr>marks := mk\<rparr>)" and p: "passed tk (loops_stmt s) (marks m) mk"
    using If_else.IH(1) [OF i] If_else.prems by auto
  moreover have "idle (?m\<lparr>marks := mk\<rparr>)" "ExecuteFlag (?m\<lparr>marks := mk\<rparr>) \<noteq> BEFORE_EXECUTE"
    using i by (simp_all add: control_constants)
  then obtain mk2 f where "run_elses P g n els (?m\<lparr>marks := mk\<rparr>) = Ok (?m\<lparr>marks := mk2, ExecuteFlag := f\<rparr>)"
    and p2: "passed tk (loops_elses els) mk mk2"
    using If_else.IH(2) [of "?m\<lparr>marks := mk\<rparr>"] If_else.prems by auto
  moreover have "cs_end_if (?m\<lparr>marks := mk2, ExecuteFlag := f\<rparr>) = m\<lparr>marks := mk2\<rparr>"
    using If_else.prems(1) by (simp add: cs_end_if_def state_defs idle_def)
  ultimately show ?case using e passed_union [OF p p2] by (intro exI [of _ mk2]) simp
next
  case (While token e s)
  obtain v where "run_expr P g n e m = Ok (v, m)" using skip_expr(1) [OF While.prems(1)] by blast
  moreover obtain mk where "run_stmt P g n s (push_flag (nest 1 m)) = Ok ((push_flag (nest 1 m))\<lparr>marks := mk\<rparr>)"
    and p: "passed tk (loops_stmt s) (marks m) mk"
    using While.IH(1) [of "push_flag (nest 1 m)"] While.prems by auto
  moreover have "token_at m token = WHILE" using While.prems by simp
  moreover have "passed tk (loops_stmt (While token e s)) (marks m) mk"
    using passed_other [OF p, of token] While.prems by (simp add: control_constants)
  ultimately show ?case using skip_while [OF While.prems(1)] by blast
next
  case (Do_while token s e)
  have "\<forall>m. \<exists>v. idle m \<longrightarrow> run_expr P g n e m = Ok (v, m)" using skip_expr(1) by blast
  from choice [OF this] obtain v where "\<And>m. idle m \<Longrightarrow> run_expr P g n e m = Ok (v m, m)" by blast
  moreover obtain mk where "run_stmt P g n s (push_flag (nest 1 m)) = Ok ((push_flag (nest 1 m))\<lparr>marks := mk\<rparr>)"
    and p: "passed tk (loops_stmt s) (marks m) mk"
    using Do_while.IH(1) [of "push_flag (nest 1 m)"] Do_while.prems by auto
  moreover have "token_at m token = DO" using Do_while.prems by simp
  moreover have "passed tk (loops_stmt (Do_while token s e)) (marks m) mk"
    using passed_other [OF p, of token] Do_while.prems by (simp add: control_constants)
  ultimately show ?case using skip_do_while [OF Do_while.prems(1)] by blast
next
  case (For token e1 e2 e3 s)
  have "\<forall>fe. \<exists>v. \<forall>m. idle m \<longrightarrow> run_for_expr P g n fe m = Ok (v m, m)"
    using skip_for_expr [of _ P g n] by (intro allI choice) blast
  from choice [OF this] obtain v where "\<And>fe m. idle m \<Longrightarrow> run_for_expr P g n fe m = Ok (v fe m, m)" by blast
  moreover obtain mk where "run_stmt P g n s (push_flag (nest 1 m)) = Ok ((push_flag (nest 1 m))\<lparr>marks := mk\<rparr>)"
    and p: "passed tk (loops_stmt s) (marks m) mk"
    using For.IH(1) [of "push_flag (nest 1 m)"] For.prems by auto
  moreover have "token_at m token = FOR" "int_top (for_stack m) \<noteq> int token" using For.prems by simp_all
  moreover have "token \<notin> loops_stmt s" using For.prems by simp
  ultimately show ?case using skip_for [OF For.prems(1)] passed_for [OF p] by (metis loops_stmt.simps(5))
next
  case (Switch e cs)
  obtain v where e: "run_expr P g n e m = Ok (v, m)" using skip_expr(1) [OF Switch.prems(1)] by blast
  let ?m = "cs_switch_start v m"
  have m: "?m = (push_flag (nest 1 m))\<lparr>switch_stack := \<lparr>se_expr = v, se_matched = False, se_Execute = False\<rparr> # switch_stack m\<rparr>"
    using Switch.prems(1) by (simp add: cs_switch_start_def state_defs idle_fields)
  have i: "idle ?m" using Switch.prems(1) by (simp add: m)
  have "\<not> Execute (top_flag ?m)" using Switch.prems(1) by (simp add: m state_defs idle_def)
  then obtain mk f where "run_cases P g n cs ?m = Ok (?m\<lparr>marks := mk, ExecuteFlag := f\<rparr>)"
    and "passed tk (loops_cases cs) (marks m) mk"
    using Switch.IH(1) [OF i] Switch.prems by (auto simp: m)
  moreover have "cs_switch_end v (?m\<lparr>marks := mk, ExecuteFlag := f\<rparr>) = Ok (m\<lparr>marks := mk\<rparr>)"
    using Switch.prems(1) by (auto simp: m cs_switch_end_def state_defs idle_def)
  ultimately show ?case using e by (intro exI [of _ mk]) simp
next
  case (Break_continue ty e)
  show ?case
  proof (cases e)
    case None
    then show ?thesis using Break_continue
      by (intro exI [of _ "marks m"]) (simp add: cs_break_continue_def idle_fields)
  next
    case (Some a)
    obtain v where "run_expr P g n a m = Ok (v, m)" using skip_expr(1) Break_continue by blast
    then show ?thesis using Some Break_continue
      by (intro exI [of _ "marks m"]) (simp add: cs_break_continue_def idle_fields)
  qed
next
  case (Return_from e)
  show ?case
  proof (cases e)
    case None
    then show ?thesis using Return_from by (intro exI [of _ "marks m"]) (simp add: cs_return_def idle_fields)
  next
    case (Some a)
    obtain v where "run_expr P g n a m = Ok (v, m)" using skip_expr(1) Return_from by blast
    then show ?thesis using Some Return_from
      by (intro exI [of _ "marks m"]) (simp add: cs_return_def idle_fields)
  qed
next
  case (Declare s)
  let ?m = "start_function_decleration m"
  have i: "idle ?m" using Declare.prems(1) by (simp add: start_function_decleration_def idle_dont)
  obtain mk where "run_stmt P g n s ?m = Ok (?m\<lparr>marks := mk\<rparr>)" and "passed tk (loops_stmt s) (marks m) mk"
    using Declare.IH [OF i] Declare.prems by auto
  moreover have "end_function_decleration (?m\<lparr>marks := mk\<rparr>) = m\<lparr>marks := mk\<rparr>"
    using Declare.prems(1) by (simp add: start_function_decleration_def end_function_decleration_def state_defs idle_def)
  ultimately show ?case by (intro exI [of _ mk]) simp
next
  case No_else
  then show ?case by (intro exI [of _ "marks m"] exI [of _ "ExecuteFlag m"]) simp
next
  case (Else s)
  obtain f where f: "end_branch m = m\<lparr>ExecuteFlag := f\<rparr>" using end_branch_form [OF Else.prems(1)] by blast
  have "cs_start_else m = end_branch m"
    using end_branch_before [OF Else.prems(4)] by (simp add: cs_start_else_def Let_def)
  moreover obtain mk where "run_stmt P g n s (end_branch m) = Ok ((end_branch m)\<lparr>marks := mk\<rparr>)"
    and "passed tk (loops_stmt s) (marks m) mk"
    using Else.IH [OF idle_end_branch [OF Else.prems(1)]] Else.prems by auto
  ultimately show ?case by (intro exI [of _ mk] exI [of _ f]) (simp add: f)
next
  case (Elseif e s els)
  let ?m = "end_branch m"
  have i: "idle ?m" by (rule idle_end_branch [OF Elseif.prems(1)])
  obtain f where f: "?m = m\<lparr>ExecuteFlag := f\<rparr>" using end_branch_form [OF Elseif.prems(1)] by blast
  obtain v where "run_expr P g n e (push_flag ?m) = Ok (v, push_flag ?m)"
    using skip_expr(1) [of "push_flag ?m" P g n e] i by auto
  moreover have "cs_elseif_end_evaluate (push_flag ?m) = ?m"
    using pop_push [OF idle_steady [OF i]] by (simp add: cs_elseif_end_evaluate_def)
  moreover have "cs_start_elseif P v ?m = Ok ?m"
    using end_branch_before [OF Elseif.prems(4)] by (simp add: cs_start_elseif_def Let_def)
  moreover obtain mk where "run_stmt P g n s ?m = Ok (?m\<lparr>marks := mk\<rparr>)" and p: "passed tk (loops_stmt s) (marks m) mk"
    using Elseif.IH(1) [OF i] Elseif.prems by auto
  moreover obtain mk2 f2 where "run_elses P g n els (?m\<lparr>marks := mk\<rparr>) = Ok (?m\<lparr>marks := mk2, ExecuteFlag := f2\<rparr>)"
    and p2: "passed tk (loops_elses els) mk mk2"
    using Elseif.IH(2) [of "?m\<lparr>marks := mk\<rparr>"] i Elseif.prems end_branch_before [OF Elseif.prems(4)]
    by auto
  ultimately show ?case using idle_elseif_start [OF Elseif.prems(1,4)] passed_union [OF p p2]
    by (intro exI [of _ mk2] exI [of _ f2]) (simp add: f)
next
  case No_case
  then show ?case by (intro exI [of _ "marks m"] exI [of _ "ExecuteFlag m"]) simp
next
  case (Case e s cs)
  obtain v where e: "run_expr P g n e m = Ok (v, m)" using skip_expr(1) [OF Case.prems(1)] by blast
  obtain mk where s: "run_stmt P g n s m = Ok (m\<lparr>marks := mk\<rparr>)" and p: "passed tk (loops_stmt s) (marks m) mk"
    using Case.IH(1) [OF Case.prems(1)] Case.prems by auto
  let ?m = "m\<lparr>marks := mk, ExecuteFlag := int_top (css m)\<rparr>"
  have t: "cs_switch_case_post (m\<lparr>marks := mk\<rparr>) = ?m"
    using Case.prems(1,4) by (simp add: cs_switch_case_post_def state_defs idle_fields)
  have i: "idle ?m" using Case.prems(1,4) by (simp add: idle_def state_defs)
  moreover have "\<not> Execute (top_flag ?m)" using Case.prems(4) by (simp add: state_defs)
  ultimately obtain mk2 f2 where "run_cases P g n cs ?m = Ok (?m\<lparr>marks := mk2, ExecuteFlag := f2\<rparr>)"
    and p2: "passed tk (loops_cases cs) mk mk2"
    using Case.IH(2) [of ?m] Case.prems by auto
  then show ?case using e s t Case.prems(1) passed_union [OF p p2]
    by (intro exI [of _ mk2] exI [of _ f2]) (simp add: cs_switch_case_pre_def idle_fields)
next
  case (Default s)
  obtain mk where s: "run_stmt P g n s m = Ok (m\<lparr>marks := mk\<rparr>)" "passed tk (loops_stmt s) (marks m) mk"
    using Default by auto
  have "cs_switch_case_post (m\<lparr>marks := mk\<rparr>) = m\<lparr>marks := mk, ExecuteFlag := int_top (css m)\<rparr>"
    using Default.prems(1,4) by (simp add: cs_switch_case_post_def state_defs idle_fields)
  then show ?case using s Default.prems(1)
    by (intro exI [of _ mk] exI [of _ "int_top (css m)"]) (simp add: cs_switch_case_pre_def idle_fields)
qed

end
