(* ===== verification/Control_Sim.thy ===== *)
theory Control_Sim
  imports Control_Proofs
begin

text \<open>
  The simulation of the structured semantics by the interpreter. \<open>kept\<close> relates the states before and after an
  expression: it changes the world, the marks of the loops of the functions it calls and the variable
  \<open>return_value\<close>. \<open>after\<close> adds what the completion of a statement leaves in the state. The proof is an induction on
  the fuel and, inside, on the phrase; each loop has a lemma of its own, by induction on the fuel.
\<close>

subsection \<open>Results that agree\<close>

fun rel_result :: "('a \<Rightarrow> 'b \<Rightarrow> bool) \<Rightarrow> ('w, 'a) run \<Rightarrow> ('w, 'b) run \<Rightarrow> bool" where
  "rel_result S (Ok x) r \<longleftrightarrow> (case r of Ok y \<Rightarrow> S x y | _ \<Rightarrow> False)"
| "rel_result S Die r \<longleftrightarrow> r = Die"
| "rel_result S Fault r \<longleftrightarrow> r = Fault"
| "rel_result S Fuel r \<longleftrightarrow> r = Fuel"
| "rel_result S (Quit w) r \<longleftrightarrow> r = Quit w"

lemma rel_Ok [simp]: "rel_result S (Ok x) (Ok y) \<longleftrightarrow> S x y"
  by simp

lemmas rel_result_simps = rel_result.simps(2-5)
declare rel_result.simps(1) [simp del]

lemma rel_bind:
  assumes "rel_result S a b" "\<And>x y. S x y \<Longrightarrow> rel_result T (f x) (h y)"
  shows "rel_result T (bind_run a f) (bind_run b h)"
  using assms by (cases a; cases b) (auto simp: rel_result.simps)

lemma rel_mono: "rel_result S a b \<Longrightarrow> (\<And>x y. S x y \<Longrightarrow> T x y) \<Longrightarrow> rel_result T a b"
  by (cases a; cases b) (auto simp: rel_result.simps)

lemma rel_Ok_iff: "rel_result S (Ok x) r \<longleftrightarrow> (\<exists>y. r = Ok y \<and> S x y)"
  by (cases r) (auto simp: rel_result.simps)

text \<open>The right run goes on where the left one has come to its end.\<close>

lemma rel_bind_right:
  assumes "rel_result S a b" "\<And>x y. S x y \<Longrightarrow> rel_result T (Ok x) (h y)"
  shows "rel_result T a (bind_run b h)"
  using assms by (cases a; cases b) (auto simp: rel_result.simps)

lemma rel_bind_left:
  assumes "rel_result S a b" "\<And>x y. S x y \<Longrightarrow> rel_result T (f x) (Ok y)"
  shows "rel_result T (bind_run a f) b"
  using assms by (cases a; cases b) (auto simp: rel_result.simps)

lemma rel_refl: "(\<And>x. r = Ok x \<Longrightarrow> S x x) \<Longrightarrow> rel_result S r r"
  by (cases r) (auto simp: rel_result.simps)

lemma bind_run_assoc: "bind_run (bind_run a f) h = bind_run a (\<lambda>x. bind_run (f x) h)"
  by (cases a) simp_all

subsection \<open>Truth and destruction\<close>

lemma boolean_long: "convert_to_boolean_long D v st = Some (v1, st1) \<Longrightarrow> \<exists>k. v1 = IS_LONG k"
  by (auto simp: convert_to_boolean_long_def split: pval.splits if_splits bind_splits)

lemma boolean_long_long [simp]: "convert_to_boolean_long D (IS_LONG k) st = Some (IS_LONG k, st)"
  by (simp add: convert_to_boolean_long_def)

lemma is_true_cases:
  "is_true P v w = Fault \<or> (\<exists>k w1. is_true P v w = Ok (k \<noteq> 0, IS_LONG k, w1))"
  unfolding is_true_def checked_def pval_is_true_def
  by (cases "convert_to_boolean_long (prog_doubles P) v (fst w)") (auto dest: boolean_long)

lemma is_true_long [simp]: "is_true P (IS_LONG k) w = Ok (k \<noteq> 0, IS_LONG k, w)"
  by (simp add: is_true_def checked_def pval_is_true_def)

lemma destroy_long [simp]: "destroy (IS_LONG k) w = Ok w"
  by (subst destroy_def, subst pval_destructor.simps) (simp add: checked_def table_of_def)

lemma destroy_var_reset [simp]: "destroy var_reset w = Ok w"
  by (subst destroy_def, subst pval_destructor.simps) (simp add: checked_def table_of_def var_reset_def)

lemma in_world_destroy [simp]:
  "in_world (destroy (IS_LONG k)) m = Ok m" "in_world (destroy var_reset) m = Ok m"
  by (simp_all add: in_world_def)

lemma test_long [simp]: "test P (IS_LONG k) m = Ok (k \<noteq> 0, IS_LONG k, m)"
  by (simp add: test_def)

definition tested :: "('f, 'u) machine \<Rightarrow> bool \<times> ('f, 'u) world \<Rightarrow> bool \<times> 'f pval \<times> ('f, 'u) machine \<Rightarrow> bool" where
  "tested m x y \<longleftrightarrow> (\<exists>k w. x = (k \<noteq> 0, w) \<and> y = (k \<noteq> 0, IS_LONG k, m\<lparr>world := w\<rparr>))"

lemma test_truth: "world m = w \<Longrightarrow> rel_result (tested m) (truth_value P v w) (test P v m)"
  using is_true_cases [of P v w] by (auto simp: truth_value_def test_def tested_def rel_result_simps)

lemma in_world_rel: "rel_result (\<lambda>w m1. m1 = m\<lparr>world := w\<rparr>) (f (world m)) (in_world f m)"
  unfolding in_world_def by (cases "f (world m)") (simp_all add: rel_result_simps)

lemma checked_rel: "rel_result (=) (checked r) (checked r)"
  by (cases r) (simp_all add: checked_def rel_result_simps)

lemma or_result:
  "rel_result (\<lambda>(b, w) (v1, w1). v1 = IS_LONG (if b then 1 else 0) \<and> w1 = w)
     (truth_value P v w) (boolean_result (boolean_or_function (prog_doubles P) (IS_LONG 0) v (fst w)) (snd w))"
  unfolding truth_value_def is_true_def checked_def pval_is_true_def boolean_result_def boolean_or_function_def
  by (cases "convert_to_boolean_long (prog_doubles P) v (fst w)")
    (auto dest!: boolean_long simp: is_long_def lval_def rel_result_simps)

lemma and_result:
  "k \<noteq> 0 \<Longrightarrow> rel_result (\<lambda>(b, w) (v1, w1). v1 = IS_LONG (if b then 1 else 0) \<and> w1 = w)
     (truth_value P v w) (boolean_result (boolean_and_function (prog_doubles P) (IS_LONG k) v (fst w)) (snd w))"
  unfolding truth_value_def is_true_def checked_def pval_is_true_def boolean_result_def boolean_and_function_def
  by (cases "convert_to_boolean_long (prog_doubles P) v (fst w)")
    (auto dest!: boolean_long simp: is_long_def lval_def rel_result_simps)

lemma or_true:
  "k \<noteq> 0 \<Longrightarrow> boolean_result (boolean_or_function D (IS_LONG k) v st) u = Ok (IS_LONG 1, st, u)"
  by (simp add: boolean_result_def boolean_or_function_def is_long_def lval_def checked_def)

lemma and_false:
  "boolean_result (boolean_and_function D (IS_LONG 0) v st) u = Ok (IS_LONG 0, st, u)"
  by (simp add: boolean_result_def boolean_and_function_def is_long_def lval_def checked_def)


subsection \<open>States before and after\<close>

text \<open>
  The marks of all loops are consistent, and the \<open>for\<close> loops of all functions are marked: the parser has passed
  over the declarations.
\<close>

definition prepared :: "(nat \<Rightarrow> int) \<Rightarrow> ('fn \<Rightarrow> nat set) \<Rightarrow> (nat \<Rightarrow> bool \<times> bool) \<Rightarrow> bool" where
  "prepared tk R mk \<longleftrightarrow> (\<forall>l. fst (mk l) = snd (mk l)) \<and> (\<forall>f. \<forall>l \<in> R f. tk l = FOR \<longrightarrow> fst (mk l))"

lemma prepared_grows: "prepared tk R a \<Longrightarrow> grows L a b \<Longrightarrow> prepared tk R b"
  unfolding prepared_def grows_def by metis

text \<open>A state in which code is executed, and the functions \<open>C\<close> can be called.\<close>

definition ready :: "('f, 'u) machine \<Rightarrow> bool" where
  "ready m \<longleftrightarrow> Execute m \<and> SHOULD_EXECUTE m \<and> jumped m = None"

definition can_run :: "(nat \<Rightarrow> int) \<Rightarrow> ('fn \<Rightarrow> nat set) \<Rightarrow> 'fn set \<Rightarrow> ('f, 'u) machine \<Rightarrow> bool" where
  "can_run tk R C m \<longleftrightarrow> ready m \<and> prepared tk R (marks m) \<and> (\<forall>f \<in> C. agrees tk (R f) m)"

definition kept :: "('fn \<Rightarrow> nat set) \<Rightarrow> ('f, 'u) machine \<Rightarrow> ('f, 'u) world \<Rightarrow> ('f, 'u) machine \<Rightarrow> bool" where
  "kept R m w m' \<longleftrightarrow> (\<exists>mk rv. m' = m\<lparr>world := w, marks := mk, return_value := rv\<rparr> \<and> grows (\<Union>f. R f) (marks m) mk)"

lemma can_run_simps [simp]:
  "can_run tk R (A \<union> B) m \<longleftrightarrow> can_run tk R A m \<and> can_run tk R B m"
  "can_run tk R (insert f A) m \<longleftrightarrow> agrees tk (R f) m \<and> can_run tk R A m"
  by (auto simp: can_run_def)

lemma can_run_ready: "can_run tk R C m \<Longrightarrow> ready m"
  by (simp add: can_run_def)

lemma ready_fields: "ready m \<Longrightarrow> Execute m" "ready m \<Longrightarrow> jumped m = None" "ready m \<Longrightarrow> ExecuteFlag m = EXECUTE"
  by (simp_all add: ready_def SHOULD_EXECUTE_def)

lemma ready_updates [simp]:
  "ready (m\<lparr>world := w\<rparr>) \<longleftrightarrow> ready m" "ready (m\<lparr>marks := mk\<rparr>) \<longleftrightarrow> ready m" "ready (m\<lparr>return_value := rv\<rparr>) \<longleftrightarrow> ready m"
  "ready (push_flag m) \<longleftrightarrow> ready m" "ready (nest d m) \<longleftrightarrow> ready m" "ready (m\<lparr>for_stack := fs\<rparr>) \<longleftrightarrow> ready m"
  "ready (m\<lparr>switch_stack := ss\<rparr>) \<longleftrightarrow> ready m" "ready (m\<lparr>token_at := ta\<rparr>) \<longleftrightarrow> ready m"
  by (simp_all add: ready_def state_defs)

lemma can_run_updates [simp]:
  "can_run tk R C (m\<lparr>world := w\<rparr>) \<longleftrightarrow> can_run tk R C m" "can_run tk R C (m\<lparr>return_value := rv\<rparr>) \<longleftrightarrow> can_run tk R C m"
  "can_run tk R C (push_flag m) \<longleftrightarrow> can_run tk R C m" "can_run tk R C (nest d m) \<longleftrightarrow> can_run tk R C m"
  "can_run tk R C (m\<lparr>for_stack := fs\<rparr>) \<longleftrightarrow> can_run tk R C m" "can_run tk R C (m\<lparr>switch_stack := ss\<rparr>) \<longleftrightarrow> can_run tk R C m"
  by (simp_all add: can_run_def agrees_def)

lemma kept_world: "kept R m w (m\<lparr>world := w\<rparr>)"
  unfolding kept_def by (rule exI [of _ "marks m"], rule exI [of _ "return_value m"]) simp

lemma kept_refl: "kept R m (world m) m"
  using kept_world [of R m "world m"] by simp

lemma kept_trans: "kept R m w1 m1 \<Longrightarrow> kept R m1 w2 m2 \<Longrightarrow> kept R m w2 m2"
  unfolding kept_def
proof (elim exE conjE)
  fix mk rv mk2 rv2
  assume a: "m1 = m\<lparr>world := w1, marks := mk, return_value := rv\<rparr>" "grows (\<Union>f. R f) (marks m) mk"
    and b: "m2 = m1\<lparr>world := w2, marks := mk2, return_value := rv2\<rparr>" "grows (\<Union>f. R f) (marks m1) mk2"
  then have "grows (\<Union>f. R f) (marks m) mk2" using grows_trans [of _ "marks m" mk _ mk2] by simp
  with a b show "\<exists>mk rv. m2 = m\<lparr>world := w2, marks := mk, return_value := rv\<rparr> \<and> grows (\<Union>f. R f) (marks m) mk"
    by (intro exI [of _ mk2] exI [of _ rv2]) simp
qed

lemma kept_can_run: "kept R m w m' \<Longrightarrow> can_run tk R C m \<Longrightarrow> can_run tk R C m'"
  by (auto simp: kept_def can_run_def agrees_def intro: prepared_grows)

lemma kept_fields:
  assumes "kept R m w m'"
  shows "world m' = w" "css m' = css m" "for_stack m' = for_stack m" "fstate m' = fstate m" "token_at m' = token_at m"
    "Execute m' = Execute m" "ExecuteFlag m' = ExecuteFlag m" "switch_stack m' = switch_stack m"
    "function_state_stack m' = function_state_stack m" "jumped m' = jumped m"
  using assms by (auto simp: kept_def)

lemma pop_ready: "css m' = ExecuteFlag m # css m \<Longrightarrow> fstate m' = fstate m \<Longrightarrow> ready m \<Longrightarrow>
    pop_flag m' = m'\<lparr>ExecuteFlag := EXECUTE, css := css m, Execute := True\<rparr>"
  by (auto simp: ready_def state_defs)

lemma push_world: "push_flag (m\<lparr>world := w\<rparr>) = (push_flag m)\<lparr>world := w\<rparr>"
  by (simp add: push_flag_def)

lemma kept_push_pop:
  assumes "kept R (push_flag m) w m'" "ready m"
  shows "kept R m w (pop_flag m')"
proof -
  obtain mk rv where m': "m' = (push_flag m)\<lparr>world := w, marks := mk, return_value := rv\<rparr>"
    and g: "grows (\<Union>f. R f) (marks m) mk" using assms(1) by (auto simp: kept_def)
  have "pop_flag m' = m\<lparr>world := w, marks := mk, return_value := rv\<rparr>"
    using assms(2) unfolding m' by (simp add: ready_def state_defs)
  with g show ?thesis by (auto simp: kept_def)
qed

lemma pop_world: "ready m \<Longrightarrow> pop_flag ((push_flag m)\<lparr>world := w\<rparr>) = m\<lparr>world := w\<rparr>"
  "ready m \<Longrightarrow> pop_flag (set_flag f ((push_flag m)\<lparr>world := w\<rparr>)) = m\<lparr>world := w\<rparr>"
  by (simp_all add: ready_def state_defs)

lemma ready_dont: "ready m \<Longrightarrow> idle (set_flag DONT_EXECUTE m)"
  by (simp add: idle_def ready_def state_defs control_constants)

subsection \<open>Expressions\<close>

definition value_kept :: "('fn \<Rightarrow> nat set) \<Rightarrow> ('f, 'u) machine \<Rightarrow> 'v \<times> ('f, 'u) world \<Rightarrow> 'v \<times> ('f, 'u) machine \<Rightarrow> bool" where
  "value_kept R m = (\<lambda>(v, w) (v1, m1). v1 = v \<and> kept R m w m1)"

definition sim_expr :: "('op, 'fn, 'f, 'u) program \<Rightarrow> 'f pval \<Rightarrow> (nat \<Rightarrow> int) \<Rightarrow> ('fn \<Rightarrow> nat set) \<Rightarrow> nat \<Rightarrow>
    ('op, 'fn) expr \<Rightarrow> bool" where
  "sim_expr P g tk R n e \<longleftrightarrow> (\<forall>m. can_run tk R (calls_expr e) m \<longrightarrow>
     rel_result (value_kept R m) (exec_expr P n e (world m)) (run_expr P g n e m))"

definition sim_args :: "('op, 'fn, 'f, 'u) program \<Rightarrow> 'f pval \<Rightarrow> (nat \<Rightarrow> int) \<Rightarrow> ('fn \<Rightarrow> nat set) \<Rightarrow> nat \<Rightarrow>
    ('op, 'fn) args \<Rightarrow> bool" where
  "sim_args P g tk R n es \<longleftrightarrow> (\<forall>m. can_run tk R (calls_args es) m \<longrightarrow>
     rel_result (value_kept R m) (exec_args P n es (world m)) (run_args P g n es m) \<and>
     rel_result (kept R m) (exec_parameters P n es (world m)) (run_parameters P g n es m))"

lemma value_kept_iff [simp]: "value_kept R m (v, w) (v1, m1) \<longleftrightarrow> v1 = v \<and> kept R m w m1"
  by (simp add: value_kept_def)

lemma value_keptE:
  assumes "value_kept R m x y"
  obtains v w m1 where "x = (v, w)" "y = (v, m1)" "kept R m w m1"
  using assms by (auto simp: value_kept_def)

lemma value_kept_trans: "kept R m w m1 \<Longrightarrow> value_kept R m1 x y \<Longrightarrow> value_kept R m x y"
  by (auto simp: value_kept_def intro: kept_trans)

lemma sim_exprD:
  assumes "sim_expr P g tk R n e" "can_run tk R (calls_expr e) m" "world m = w"
  shows "rel_result (value_kept R m) (exec_expr P n e w) (run_expr P g n e m)"
  using assms by (auto simp: sim_expr_def)

lemma pop_set [simp]: "pop_flag (set_flag f m) = pop_flag m"
  by (simp add: state_defs)

lemma top_ready: "ready m \<Longrightarrow> css m = EXECUTE # c \<Longrightarrow> top_flag m = m" "ready m \<Longrightarrow> css m = EXECUTE # c \<Longrightarrow> top_flag (set_flag f m) = m"
  by (simp_all add: ready_def state_defs)

lemma kept_popped:
  assumes "kept R m w m1" "ready m" "kept R ((push_flag m1)\<lparr>world := w2\<rparr>) w3 m3"
  shows "kept R m w3 (pop_flag m3)" "Execute (pop_flag m3)" "world (pop_flag m3) = w3"
proof -
  have "kept R (push_flag (m1\<lparr>world := w2\<rparr>)) w3 m3" using assms(3) by (simp only: push_world)
  moreover have "ready (m1\<lparr>world := w2\<rparr>)" using assms(1,2) by (auto simp: kept_def)
  ultimately have "kept R (m1\<lparr>world := w2\<rparr>) w3 (pop_flag m3)" by (rule kept_push_pop)
  with kept_trans [OF kept_trans [OF assms(1) kept_world] this] show k: "kept R m w3 (pop_flag m3)" by simp
  show "Execute (pop_flag m3)" "world (pop_flag m3) = w3" using kept_fields(1,6) [OF k] assms(2) by (simp_all add: ready_fields)
qed

lemma sim_argsD:
  assumes "sim_args P g tk R n es" "can_run tk R (calls_args es) m" "world m = w"
  shows "rel_result (value_kept R m) (exec_args P n es w) (run_args P g n es m)"
    "rel_result (kept R m) (exec_parameters P n es w) (run_parameters P g n es m)"
  using assms by (auto simp: sim_args_def)

lemma sim_or:
  assumes e1: "sim_expr P g tk R n e1" and e2: "sim_expr P g tk R n e2"
  shows "sim_expr P g tk R n (Or e1 e2)"
  unfolding sim_expr_def exec_expr.simps run_expr.simps
proof (intro allI impI rel_bind [OF sim_exprD [OF e1 _ refl]], goal_cases)
  case (2 m x y)
  then obtain v1 w1 m1 where xy: "x = (v1, w1)" "y = (v1, m1)" and k1: "kept R m w1 m1" by (elim value_keptE)
  have c1: "can_run tk R (calls_expr e2) m1" and r1: "ready m1"
    using kept_can_run [OF k1 2(1)] by (auto dest: can_run_ready)
  have E: "Execute (push_flag m1)" and w1: "world (push_flag m1) = w1"
    using r1 kept_fields(1) [OF k1] by (simp_all add: push_flag_def ready_fields)
  show ?case unfolding xy cs_pre_boolean_or_def Let_def prod.case if_P [OF E] bind_run_assoc
  proof (rule rel_bind [OF test_truth [OF w1]], goal_cases)
    case (1 x y)
    then obtain k w2 where xy: "x = (k \<noteq> 0, w2)" "y = (k \<noteq> 0, IS_LONG k, (push_flag m1)\<lparr>world := w2\<rparr>)"
      by (auto simp: tested_def)
    let ?m = "(push_flag m1)\<lparr>world := w2\<rparr>"
    have k2: "kept R m w2 (m1\<lparr>world := w2\<rparr>)" using kept_trans [OF k1 kept_world] .
    show ?case
    proof (cases "k = 0")
      case False
      have "ready ?m" using r1 by simp
      then obtain v where "run_expr P g n e2 (set_flag DONT_EXECUTE ?m) = Ok (v, set_flag DONT_EXECUTE ?m)"
        using skip_expr(1) ready_dont by metis
      then show ?thesis using k2 False r1
        by (simp add: xy cs_post_boolean_or_def pop_world or_true ready_fields Let_def)
    next
      case True
      have c: "can_run tk R (calls_expr e2) ?m" "world ?m = w2" using c1 by simp_all
      show ?thesis
      proof (simp add: xy True, rule rel_bind [OF sim_exprD [OF e2 c]], goal_cases)
        case (1 x y)
        then obtain v3 w3 m3 where xy: "x = (v3, w3)" "y = (v3, m3)" and k3: "kept R ?m w3 m3" by (elim value_keptE)
        note k = kept_popped [OF k1 can_run_ready [OF 2(1)] k3]
        then show ?case using kept_trans [OF k(1) kept_world]
          by (simp add: xy cs_post_boolean_or_def Let_def True) (rule rel_bind [OF or_result], auto)
      qed
    qed
  qed
qed simp
lemma sim_and:
  assumes e1: "sim_expr P g tk R n e1" and e2: "sim_expr P g tk R n e2"
  shows "sim_expr P g tk R n (And e1 e2)"
  unfolding sim_expr_def exec_expr.simps run_expr.simps
proof (intro allI impI rel_bind [OF sim_exprD [OF e1 _ refl]], goal_cases)
  case (2 m x y)
  then obtain v1 w1 m1 where xy: "x = (v1, w1)" "y = (v1, m1)" and k1: "kept R m w1 m1" by (elim value_keptE)
  have c1: "can_run tk R (calls_expr e2) m1" and r1: "ready m1"
    using kept_can_run [OF k1 2(1)] by (auto dest: can_run_ready)
  have E: "Execute (push_flag m1)" and w1: "world (push_flag m1) = w1"
    using r1 kept_fields(1) [OF k1] by (simp_all add: push_flag_def ready_fields)
  show ?case unfolding xy cs_pre_boolean_and_def Let_def prod.case if_P [OF E] bind_run_assoc
  proof (rule rel_bind [OF test_truth [OF w1]], goal_cases)
    case (1 x y)
    then obtain k w2 where xy: "x = (k \<noteq> 0, w2)" "y = (k \<noteq> 0, IS_LONG k, (push_flag m1)\<lparr>world := w2\<rparr>)"
      by (auto simp: tested_def)
    let ?m = "(push_flag m1)\<lparr>world := w2\<rparr>"
    have k2: "kept R m w2 (m1\<lparr>world := w2\<rparr>)" using kept_trans [OF k1 kept_world] .
    show ?case
    proof (cases "k = 0")
      case True
      have "ready ?m" using r1 by simp
      then obtain v where "run_expr P g n e2 (set_flag DONT_EXECUTE ?m) = Ok (v, set_flag DONT_EXECUTE ?m)"
        using skip_expr(1) ready_dont by metis
      then show ?thesis using k2 True r1
        by (simp add: xy cs_post_boolean_and_def pop_world and_false ready_fields Let_def)
    next
      case False
      have c: "can_run tk R (calls_expr e2) ?m" "world ?m = w2" using c1 by simp_all
      show ?thesis
      proof (simp add: xy False, rule rel_bind [OF sim_exprD [OF e2 c]], goal_cases)
        case (1 x y)
        then obtain v3 w3 m3 where xy: "x = (v3, w3)" "y = (v3, m3)" and k3: "kept R ?m w3 m3" by (elim value_keptE)
        note k = kept_popped [OF k1 can_run_ready [OF 2(1)] k3]
        then show ?case using kept_trans [OF k(1) kept_world]
          by (simp add: xy cs_post_boolean_and_def Let_def False) (rule rel_bind [OF and_result [OF False]], auto)
      qed
    qed
  qed
qed simp
lemma sim_cond:
  assumes e1: "sim_expr P g tk R n e1" and e2: "sim_expr P g tk R n e2" and e3: "sim_expr P g tk R n e3"
  shows "sim_expr P g tk R n (Cond e1 e2 e3)"
  unfolding sim_expr_def exec_expr.simps run_expr.simps
proof (intro allI impI rel_bind [OF sim_exprD [OF e1 _ refl]], goal_cases)
  case (2 m x y)
  then obtain v1 w1 m1 where xy: "x = (v1, w1)" "y = (v1, m1)" and k1: "kept R m w1 m1" by (elim value_keptE)
  have c1: "can_run tk R (calls_expr e2) m1" "can_run tk R (calls_expr e3) m1" and r1: "ready m1"
    using kept_can_run [OF k1 2(1)] by (auto dest: can_run_ready)
  have E: "Execute (push_flag m1)" and w1: "world (push_flag m1) = w1"
    using r1 kept_fields(1) [OF k1] by (simp_all add: push_flag_def ready_fields)
  show ?case unfolding xy cs_questionmark_op_pre_expr1_def cs_pre_boolean_and_def Let_def prod.case if_P [OF E] bind_run_assoc
  proof (rule rel_bind [OF test_truth [OF w1]], goal_cases)
    case (1 x y)
    then obtain k w2 where xy: "x = (k \<noteq> 0, w2)" "y = (k \<noteq> 0, IS_LONG k, (push_flag m1)\<lparr>world := w2\<rparr>)"
      by (auto simp: tested_def)
    let ?m = "(push_flag m1)\<lparr>world := w2\<rparr>"
    have r: "ready ?m" and w: "world ?m = w2" using r1 by simp_all
    have css: "css ?m = EXECUTE # css m1" using r1 by (simp add: push_flag_def ready_fields)
    show ?case
    proof (cases "k = 0")
      case True
      obtain v2 where v2: "run_expr P g n e2 (set_flag DONT_EXECUTE ?m) = Ok (v2, set_flag DONT_EXECUTE ?m)"
        using skip_expr(1) ready_dont r by metis
      have c: "can_run tk R (calls_expr e3) ?m" using c1 by simp
      show ?thesis unfolding cs_questionmark_op_pre_expr2_def Let_def
      proof (simp add: xy True v2 top_ready(2) [OF r css] ready_fields r r1,
          rule rel_bind_right [OF sim_exprD [OF e3 c w]], goal_cases)
        case (1 x y)
        then obtain v3 w3 m3 where xy: "x = (v3, w3)" "y = (v3, m3)" and k3: "kept R ?m w3 m3" by (elim value_keptE)
        note k = kept_popped [OF k1 can_run_ready [OF 2(1)] k3]
        then show ?case by (simp add: xy cs_questionmark_op_post_expr2_def Let_def)
      qed
    next
      case False
      have c: "can_run tk R (calls_expr e2) ?m" using c1 by simp
      show ?thesis
      proof (simp add: xy False, rule rel_bind_right [OF sim_exprD [OF e2 c w]], goal_cases)
        case (1 x y)
        then obtain v3 w3 m3 where xy: "x = (v3, w3)" "y = (v3, m3)" and k3: "kept R ?m w3 m3" by (elim value_keptE)
        note k = kept_popped [OF k1 can_run_ready [OF 2(1)] k3]
        have r3: "ready m3" using kept_can_run [OF k3 c] by (rule can_run_ready)
        have t: "top_flag m3 = m3" using top_ready(1) [OF r3] kept_fields(2) [OF k3] css by simp
        obtain v where "run_expr P g n e3 (set_flag DONT_EXECUTE m3) = Ok (v, set_flag DONT_EXECUTE m3)"
          using skip_expr(1) ready_dont r3 by metis
        then show ?case using k False r3 t
          by (simp add: xy cs_questionmark_op_pre_expr2_def cs_questionmark_op_post_expr2_def Let_def ready_fields)
      qed
    qed
  qed
qed simp

lemma sim_op:
  assumes "sim_args P g tk R n es"
  shows "sim_expr P g tk R n (Op f es)"
  unfolding sim_expr_def exec_expr.simps run_expr.simps
proof (intro allI impI rel_bind [OF sim_argsD(1) [OF assms _ refl]], goal_cases)
  case (2 m x y)
  then obtain vs w1 m1 where xy: "x = (vs, w1)" "y = (vs, m1)" and k1: "kept R m w1 m1" by (elim value_keptE)
  have "Execute m1" using kept_fields(6) [OF k1] can_run_ready [OF 2(1)] by (simp add: ready_fields)
  then show ?case using kept_trans [OF k1 kept_world] kept_fields(1) [OF k1]
    by (cases "action P f vs w1") (auto simp: xy checked_def rel_result_simps)
qed simp

lemma sim_no_args: "sim_args P g tk R n No_args"
  by (simp add: sim_args_def kept_refl)

lemma sim_arg:
  assumes es: "sim_args P g tk R n es" and e: "sim_expr P g tk R n e"
  shows "sim_args P g tk R n (Arg es e)"
  unfolding sim_args_def exec_args.simps exec_parameters.simps run_args.simps run_parameters.simps
proof (intro allI impI conjI rel_bind [OF sim_argsD(1) [OF es _ refl]] rel_bind [OF sim_argsD(2) [OF es _ refl]], goal_cases)
  case (2 m x y)
  then obtain vs w1 m1 where xy: "x = (vs, w1)" "y = (vs, m1)" and k1: "kept R m w1 m1" by (elim value_keptE)
  have c: "can_run tk R (calls_expr e) m1" "world m1 = w1" using kept_can_run [OF k1 2(1)] kept_fields(1) [OF k1] by simp_all
  show ?case unfolding xy prod.case
    by (rule rel_bind [OF sim_exprD [OF e c]]) (auto simp: value_kept_def intro: kept_trans [OF k1])
next
  case (4 m w1 m1)
  have c: "can_run tk R (calls_expr e) m1" "world m1 = w1" using kept_can_run [OF 4(2,1)] kept_fields(1) [OF 4(2)] by simp_all
  show ?case
  proof (rule rel_bind [OF sim_exprD [OF e c]], goal_cases)
    case (1 x y)
    then obtain v2 w2 m2 where xy: "x = (v2, w2)" "y = (v2, m2)" and k2: "kept R m1 w2 m2" by (elim value_keptE)
    have k: "kept R m w2 m2" by (rule kept_trans [OF 4(2) k2])
    have "Execute m2" using kept_fields(6) [OF k] can_run_ready [OF 4(1)] by (simp add: ready_fields)
    then show ?case using kept_trans [OF k kept_world] kept_fields(1) [OF k]
      by (cases "pass_value P v2 w2") (auto simp: xy pass_parameter_def in_world_def checked_def rel_result_simps)
  qed
qed simp_all


subsection \<open>What a statement leaves\<close>

fun changed :: "'f completion \<Rightarrow> int \<Rightarrow> function_state \<Rightarrow> function_state" where
  "changed Normal l fs = fs\<lparr>loop_change_level := l\<rparr>"
| "changed (Leave_loop ty k) l fs = fs\<lparr>loop_change_type := ty, loop_change_level := k\<rparr>"
| "changed (Returned v) l fs = fs\<lparr>loop_change_level := l, returned := True\<rparr>"

fun proper :: "int \<Rightarrow> 'f completion \<Rightarrow> 'f pval \<Rightarrow> bool" where
  "proper level Normal rv \<longleftrightarrow> True"
| "proper level (Leave_loop ty k) rv \<longleftrightarrow> (ty = DO_BREAK \<or> ty = DO_CONTINUE) \<and> 0 < k \<and> k \<le> level"
| "proper level (Returned v) rv \<longleftrightarrow> rv = v"

definition completed :: "'f completion \<Rightarrow> int \<Rightarrow> int \<Rightarrow> ('f, 'u) machine \<Rightarrow> ('f, 'u) machine" where
  "completed c f l m = m\<lparr>fstate := changed c l (fstate m), ExecuteFlag := f, Execute := (c = Normal)\<rparr>"

definition after :: "('fn \<Rightarrow> nat set) \<Rightarrow> nat set \<Rightarrow> ('f, 'u) machine \<Rightarrow> 'f completion \<times> ('f, 'u) world \<Rightarrow>
    ('f, 'u) machine \<Rightarrow> bool" where
  "after R L m = (\<lambda>(c, w) m'. \<exists>mk rv l f. m' = (completed c f l m)\<lparr>world := w, marks := mk, return_value := rv\<rparr> \<and>
     grows (L \<union> (\<Union>f. R f)) (marks m) mk \<and> proper (loop_nest_level (fstate m)) c rv \<and>
     (if c = Normal then f = EXECUTE else f \<noteq> BEFORE_EXECUTE))"

definition sim_stmt :: "('op, 'fn, 'f, 'u) program \<Rightarrow> 'f pval \<Rightarrow> (nat \<Rightarrow> int) \<Rightarrow> ('fn \<Rightarrow> nat set) \<Rightarrow> nat \<Rightarrow>
    ('op, 'fn) stmt \<Rightarrow> bool" where
  "sim_stmt P g tk R n s \<longleftrightarrow> (\<forall>m. ok_stmt tk R s \<longrightarrow> can_run tk R (calls_stmt s) m \<longrightarrow> fresh tk (loops_stmt s) m \<longrightarrow>
     rel_result (after R (loops_stmt s) m)
       (exec_stmt P n (function_name (fstate m), loop_nest_level (fstate m), s) (world m)) (run_stmt P g n s m))"

lemma flags_distinct [simp]:
  "EXECUTE \<noteq> BEFORE_EXECUTE" "BEFORE_EXECUTE \<noteq> EXECUTE" "DONT_EXECUTE \<noteq> BEFORE_EXECUTE" "EXECUTE \<noteq> DONT_EXECUTE"
  by (simp_all add: control_constants)

lemma sim_stmtD:
  assumes "sim_stmt P g tk R n s" "ok_stmt tk R s" "can_run tk R (calls_stmt s) m" "fresh tk (loops_stmt s) m"
    "function_name (fstate m) = i" "loop_nest_level (fstate m) = l" "world m = w"
  shows "rel_result (after R (loops_stmt s) m) (exec_stmt P n (i, l, s) w) (run_stmt P g n s m)"
  using assms by (auto simp: sim_stmt_def)

lemma changed_fields [simp]:
  "loop_nest_level (changed c l fs) = loop_nest_level fs" "function_name (changed c l fs) = function_name fs"
  by (cases c; simp)+

lemma afterE:
  assumes "after R L m (c, w) m'"
  obtains mk rv l f where "m' = (completed c f l m)\<lparr>world := w, marks := mk, return_value := rv\<rparr>"
    "grows (L \<union> (\<Union>f. R f)) (marks m) mk" "proper (loop_nest_level (fstate m)) c rv"
    "if c = Normal then f = EXECUTE else f \<noteq> BEFORE_EXECUTE"
  using assms by (auto simp: after_def)

lemma afterI:
  "m' = (completed c f l m)\<lparr>world := w, marks := mk, return_value := rv\<rparr> \<Longrightarrow> grows (L \<union> (\<Union>f. R f)) (marks m) mk \<Longrightarrow>
   proper (loop_nest_level (fstate m)) c rv \<Longrightarrow> (c = Normal \<Longrightarrow> f = EXECUTE) \<Longrightarrow> f \<noteq> BEFORE_EXECUTE \<Longrightarrow> after R L m (c, w) m'"
  unfolding after_def prod.case by (intro exI conjI) auto

lemma completed_fields [simp]:
  "css (completed c f l m) = css m" "for_stack (completed c f l m) = for_stack m" "token_at (completed c f l m) = token_at m"
  "Execute (completed c f l m) = (c = Normal)" "switch_stack (completed c f l m) = switch_stack m"
  "function_state_stack (completed c f l m) = function_state_stack m" "jumped (completed c f l m) = jumped m"
  "ExecuteFlag (completed c f l m) = f" "fstate (completed c f l m) = changed c l (fstate m)" "marks (completed c f l m) = marks m"
  by (simp_all add: completed_def)

lemma after_fields:
  assumes "after R L m (c, w) m'"
  shows "world m' = w" "css m' = css m" "for_stack m' = for_stack m" "token_at m' = token_at m"
    "Execute m' = (c = Normal)" "switch_stack m' = switch_stack m" "function_state_stack m' = function_state_stack m"
    "jumped m' = jumped m" "ExecuteFlag m' \<noteq> BEFORE_EXECUTE" "loop_nest_level (fstate m') = loop_nest_level (fstate m)"
    "function_name (fstate m') = function_name (fstate m)"
proof -
  from assms obtain mk rv l f where "m' = (completed c f l m)\<lparr>world := w, marks := mk, return_value := rv\<rparr>"
    "if c = Normal then f = EXECUTE else f \<noteq> BEFORE_EXECUTE" by (rule afterE)
  then show "world m' = w" "css m' = css m" "for_stack m' = for_stack m" "token_at m' = token_at m"
    "Execute m' = (c = Normal)" "switch_stack m' = switch_stack m" "function_state_stack m' = function_state_stack m"
    "jumped m' = jumped m" "ExecuteFlag m' \<noteq> BEFORE_EXECUTE" "loop_nest_level (fstate m') = loop_nest_level (fstate m)"
    "function_name (fstate m') = function_name (fstate m)"
    by (simp_all split: if_splits)
qed

lemma completed_normal: "ready m \<Longrightarrow> completed Normal EXECUTE (loop_change_level (fstate m)) m = m"
  by (simp add: completed_def ready_def SHOULD_EXECUTE_def)

lemma after_kept:
  assumes "kept R m w m'" "ready m"
  shows "after R L m (Normal, w) m'"
proof -
  obtain mk rv where "m' = m\<lparr>world := w, marks := mk, return_value := rv\<rparr>" "grows (\<Union>f. R f) (marks m) mk"
    using assms(1) by (auto simp: kept_def)
  then show ?thesis using assms(2) grows_mono [of "\<Union>f. R f" "marks m" mk "L \<union> (\<Union>f. R f)"]
    by (intro afterI [where l = "loop_change_level (fstate m)" and f = EXECUTE and mk = mk and rv = rv])
      (simp_all add: completed_normal)
qed

lemma completed_kept:
  "completed c f l (m\<lparr>world := w1, marks := mk1, return_value := rv1\<rparr>)\<lparr>world := w, marks := mk, return_value := rv\<rparr> =
     (completed c f l m)\<lparr>world := w, marks := mk, return_value := rv\<rparr>"
  by (simp add: completed_def)

lemma completed_twice: "completed c f l (completed Normal f1 l1 m) = completed c f l m"
  by (cases c) (simp_all add: completed_def)

lemma after_trans:
  assumes "after R L m (Normal, w1) m1" "after R L' m1 (c, w) m'"
  shows "after R (L \<union> L') m (c, w) m'"
proof -
  from assms(1) obtain mk1 rv1 l1 f1 where a: "m1 = (completed Normal f1 l1 m)\<lparr>world := w1, marks := mk1, return_value := rv1\<rparr>"
    "grows (L \<union> (\<Union>f. R f)) (marks m) mk1" by (rule afterE)
  from assms(2) obtain mk rv l f where b: "m' = (completed c f l m1)\<lparr>world := w, marks := mk, return_value := rv\<rparr>"
    "grows (L' \<union> (\<Union>f. R f)) (marks m1) mk" "proper (loop_nest_level (fstate m1)) c rv"
    "if c = Normal then f = EXECUTE else f \<noteq> BEFORE_EXECUTE" by (rule afterE)
  show ?thesis
  proof (rule afterI)
    show "m' = (completed c f l m)\<lparr>world := w, marks := mk, return_value := rv\<rparr>"
      using b(1) unfolding a(1) completed_kept completed_twice .
    show "grows (L \<union> L' \<union> (\<Union>f. R f)) (marks m) mk"
      by (rule grows_trans [OF a(2)]) (use b(2) a(1) in auto)
    show "proper (loop_nest_level (fstate m)) c rv" using b(3) a(1) by simp
  qed (use b(4) in \<open>auto split: if_splits\<close>)
qed

lemma kept_after:
  assumes "kept R m w1 m1" "after R L m1 (c, w) m'"
  shows "after R L m (c, w) m'"
proof -
  from assms(1) obtain mk1 rv1 where a: "m1 = m\<lparr>world := w1, marks := mk1, return_value := rv1\<rparr>"
    "grows (\<Union>f. R f) (marks m) mk1" by (auto simp: kept_def)
  from assms(2) obtain mk rv l f where b: "m' = (completed c f l m1)\<lparr>world := w, marks := mk, return_value := rv\<rparr>"
    "grows (L \<union> (\<Union>f. R f)) (marks m1) mk" "proper (loop_nest_level (fstate m1)) c rv"
    "if c = Normal then f = EXECUTE else f \<noteq> BEFORE_EXECUTE" by (rule afterE)
  show ?thesis
  proof (rule afterI)
    show "m' = (completed c f l m)\<lparr>world := w, marks := mk, return_value := rv\<rparr>" using b(1) unfolding a(1) completed_kept .
    show "grows (L \<union> (\<Union>f. R f)) (marks m) mk" by (rule grows_trans [OF a(2)]) (use b(2) a(1) in auto)
    show "proper (loop_nest_level (fstate m)) c rv" using b(3) a(1) by simp
  qed (use b(4) in \<open>auto split: if_splits\<close>)
qed

lemma after_mono: "after R L m x m' \<Longrightarrow> L \<subseteq> L' \<Longrightarrow> after R L' m x m'"
  by (cases x) (auto elim!: afterE intro!: afterI intro: grows_mono split: if_splits)

lemma after_next: "after R L m (Normal, w1) m1 \<Longrightarrow> L \<subseteq> L' \<Longrightarrow> after R L' m1 x m' \<Longrightarrow> after R L' m x m'"
  by (cases x) (auto intro: after_mono dest: after_trans)

lemma after_marks:
  assumes "after R L m (c, w) m'" "passed tk L' (marks m') mk"
  shows "after R (L \<union> L') m (c, w) (m'\<lparr>marks := mk\<rparr>)"
proof -
  from assms(1) obtain mk1 rv l f where a: "m' = (completed c f l m)\<lparr>world := w, marks := mk1, return_value := rv\<rparr>"
    "grows (L \<union> (\<Union>f. R f)) (marks m) mk1" "proper (loop_nest_level (fstate m)) c rv"
    "if c = Normal then f = EXECUTE else f \<noteq> BEFORE_EXECUTE" by (rule afterE)
  show ?thesis
  proof (rule afterI)
    show "m'\<lparr>marks := mk\<rparr> = (completed c f l m)\<lparr>world := w, marks := mk, return_value := rv\<rparr>" by (simp add: a(1))
    show "grows (L \<union> L' \<union> (\<Union>f. R f)) (marks m) mk"
      by (rule grows_trans [OF a(2)]) (use assms(2) a(1) in \<open>auto simp: passed_def\<close>)
  qed (use a(3,4) in \<open>auto split: if_splits\<close>)
qed

lemma after_normal:
  assumes "after R L m (Normal, w) m'" "can_run tk R C m"
  shows "can_run tk R C m'"
  using assms prepared_grows [of tk R "marks m" "L \<union> (\<Union>f. R f)"]
  by (auto simp: after_def completed_def can_run_def ready_def SHOULD_EXECUTE_def agrees_def)

lemma after_fresh: "after R L m (c, w) m' \<Longrightarrow> fresh tk L' m' \<longleftrightarrow> fresh tk L' m"
  using after_fields(3,4) by (metis fresh_cong)

lemma after_grows: "after R L m (c, w) m' \<Longrightarrow> grows (L \<union> (\<Union>f. R f)) (marks m) (marks m')"
  by (erule afterE) simp

lemma after_idle: "after R L m (c, w) m' \<Longrightarrow> c \<noteq> Normal \<Longrightarrow> ready m \<Longrightarrow> idle m'"
  by (cases c) (auto simp: after_def completed_def idle_def ready_def SHOULD_EXECUTE_def control_constants)

lemma after_pop:
  assumes "after R L (push_flag m) (c, w) m'" "ready m"
  shows "after R L m (c, w) (pop_flag m')"
proof -
  from assms(1) obtain mk rv l f where a: "m' = (completed c f l (push_flag m))\<lparr>world := w, marks := mk, return_value := rv\<rparr>"
    "grows (L \<union> (\<Union>f. R f)) (marks m) mk" "proper (loop_nest_level (fstate m)) c rv"
    by (rule afterE) (simp add: push_flag_def)
  show ?thesis
  proof (rule afterI)
    show "pop_flag m' = (completed c EXECUTE l m)\<lparr>world := w, marks := mk, return_value := rv\<rparr>"
      using assms(2) a(3) by (cases c) (auto simp: a(1) completed_def ready_def state_defs control_constants)
  qed (use a(2,3) in \<open>auto\<close>)
qed


subsection \<open>Calls\<close>

definition frame :: "('f, 'u) machine \<Rightarrow> ('f, 'u) machine" where
  "frame m = m\<lparr>for_stack := - 1 # for_stack m, function_state_stack := fstate m # function_state_stack m,
     fstate := (fstate m)\<lparr>function_name := True\<rparr>\<rparr>"

definition body_frame :: "('f, 'u) machine \<Rightarrow> ('f, 'u) machine" where
  "body_frame m = (push_flag m)\<lparr>fstate := (fstate m)\<lparr>loop_nest_level := 0, loop_change_level := 0,
     loop_change_type := 0\<rparr>, return_value := var_reset\<rparr>"

lemma frame_can_run [simp]:
  "can_run tk R C (frame m) \<longleftrightarrow> can_run tk R C m" "can_run tk R C m \<Longrightarrow> can_run tk R C (body_frame m)"
  by (auto simp: frame_def body_frame_def can_run_def ready_def agrees_def state_defs control_constants)

lemma call_end:
  assumes m: "ready m" and k2: "kept R ((frame m)\<lparr>world := w1\<rparr>) w2 m2"
    and a: "after R (R f) ((body_frame m2)\<lparr>world := w3\<rparr>) (c, w4) m4"
  shows "rel_result (value_kept R m)
     (bind_run (checked (leave_function P w4)) (\<lambda>w5. Ok (case c of Returned v \<Rightarrow> v | _ \<Rightarrow> var_reset, w5)))
     (cs_functioncall_end P m4)"
proof -
  from k2 obtain mk2 rv2 where m2: "m2 = (frame m)\<lparr>world := w2, marks := mk2, return_value := rv2\<rparr>"
    and g2: "grows (\<Union>f. R f) (marks m) mk2" by (auto simp: kept_def frame_def)
  let ?b = "(body_frame m2)\<lparr>world := w3\<rparr>"
  from a obtain mk rv l fl where m4: "m4 = (completed c fl l ?b)\<lparr>world := w4, marks := mk, return_value := rv\<rparr>"
    and g: "grows (R f \<union> (\<Union>f. R f)) (marks ?b) mk" and p: "proper (loop_nest_level (fstate ?b)) c rv"
    by (rule afterE)
  have "loop_nest_level (fstate ?b) = 0" "marks ?b = mk2" by (simp_all add: body_frame_def m2)
  then have c: "c = Normal \<or> c = Returned rv" using p by (cases c) auto
  have "grows (\<Union>f. R f) (marks m) mk" by (rule grows_trans [OF g2]) (use g \<open>marks ?b = mk2\<close> in auto)
  moreover have r: "returned (fstate m4) \<longleftrightarrow> c \<noteq> Normal" "return_value m4 = rv" "world m4 = w4"
    using c m by (auto simp: m4 completed_def body_frame_def m2 frame_def ready_def SHOULD_EXECUTE_def)
  moreover have "tl (dropWhile (\<lambda>x. x \<noteq> - 1) (for_stack m4)) = for_stack m"
    "function_state_stack m4 = fstate m # function_state_stack m"
    by (simp_all add: m4 body_frame_def m2 frame_def push_flag_def)
  moreover have "pop_flag (m4\<lparr>world := w5, for_stack := for_stack m, fstate := fstate m, function_state_stack := function_state_stack m\<rparr>)
      = m\<lparr>world := w5, marks := mk, return_value := rv\<rparr>" for w5
    using m by (auto simp: m4 completed_def body_frame_def m2 frame_def ready_def state_defs)
  ultimately show ?thesis using c
    by (cases "leave_function P w4")
      (auto simp: checked_def rel_result_simps cs_functioncall_end_def in_world_def Let_def kept_def
        intro!: exI [of _ mk] exI [of _ rv])
qed

lemma in_world_checked:
  "world m = w \<Longrightarrow> rel_result (\<lambda>w1 m1. m1 = m\<lparr>world := w1\<rparr>) (checked (F w)) (in_world (\<lambda>w. checked (F w)) m)"
  using in_world_rel [of m "\<lambda>w. checked (F w)"] by simp

lemma body_ready:
  assumes P: "ok_program P tk R" "function_body P f = Some body" and m: "can_run tk R {f} m" "hd (for_stack m) = - 1" "for_stack m \<noteq> []"
  shows "ok_stmt tk R body" "can_run tk R (calls_stmt body) m" "fresh tk (loops_stmt body) m" "loops_stmt body \<subseteq> R f"
proof -
  have b: "ok_stmt tk R body" "loops_stmt body \<subseteq> R f" "\<forall>g \<in> calls_stmt body. R g \<subseteq> R f"
    using P by (auto simp: ok_program_def)
  have "int_top (for_stack m) = - 1" using m(2,3) by (cases "for_stack m") (simp_all add: int_top_def)
  moreover have a: "agrees tk (R f) m" using m(1) by simp
  ultimately show "fresh tk (loops_stmt body) m" using b(2) by (auto simp: fresh_def agrees_def)
  show "can_run tk R (calls_stmt body) m" using m(1) a b(3) by (fastforce simp: can_run_def agrees_def)
qed (use P in \<open>auto simp: ok_program_def\<close>)

lemma sim_call:
  assumes P: "ok_program P tk R" and es: "sim_args P g tk R n es" and s: "\<And>k s. k < n \<Longrightarrow> sim_stmt P g tk R k s"
  shows "sim_expr P g tk R n (Call f es)"
  unfolding sim_expr_def
proof (intro allI impI)
  fix m :: "('c, 'd) machine"
  assume m: "can_run tk R (calls_expr (Call f es)) m"
  then have r: "ready m" by (rule can_run_ready)
  show "rel_result (value_kept R m) (exec_expr P n (Call f es) (world m)) (run_expr P g n (Call f es) m)"
  proof (cases "function_body P f")
    case None
    then show ?thesis using r by (simp add: cs_functioncall_pre_variable_passing_def ready_fields rel_result_simps)
  next
    case (Some body)
    have pre: "cs_functioncall_pre_variable_passing P f m =
        bind_run (in_world (\<lambda>w. checked (new_symbol_table P f w)) (frame m)) (\<lambda>m2. Ok (True, m2))"
      using r by (simp add: cs_functioncall_pre_variable_passing_def ready_fields Some frame_def)
    have wf: "world (frame m) = world m" by (simp add: frame_def)
    show ?thesis unfolding exec_expr.simps run_expr.simps pre bind_run_assoc bind_run.simps Some option.case prod.case if_True
    proof (rule rel_bind [OF in_world_checked [OF wf]], goal_cases)
      case (1 w1 m1)
      have c1: "can_run tk R (calls_args es) m1" "world m1 = w1" using m 1 by simp_all
      show ?case
      proof (rule rel_bind [OF sim_argsD(2) [OF es c1]], goal_cases)
        case (1 w2 m2)
        then have k2: "kept R ((frame m)\<lparr>world := w1\<rparr>) w2 m2" using \<open>m1 = (frame m)\<lparr>world := w1\<rparr>\<close> by simp
        have "can_run tk R {f} m" using m by (simp add: can_run_def)
        then have c2: "can_run tk R {f} m2" using kept_can_run [OF k2, of tk "{f}"] by (simp only: can_run_updates frame_can_run)
        have post: "cs_functioncall_post_variable_passing P f m2 = in_world (\<lambda>w. checked (enter_function P f w)) (body_frame m2)"
          by (simp add: cs_functioncall_post_variable_passing_def body_frame_def Let_def)
        have w2: "world (body_frame m2) = w2" using kept_fields(1) [OF k2] by (simp add: body_frame_def push_flag_def)
        show ?case unfolding post
        proof (rule rel_bind [OF in_world_checked [OF w2]], goal_cases)
          case (1 w3 m3)
          have c3: "can_run tk R {f} m3" using c2 unfolding 1 can_run_updates by (rule frame_can_run)
          show ?case
          proof (cases n)
            case (Suc k)
            have "for_stack m3 = - 1 # for_stack m"
              using kept_fields(3) [OF k2] 1 by (simp add: body_frame_def push_flag_def frame_def)
            then have b: "ok_stmt tk R body" "can_run tk R (calls_stmt body) m3" "fresh tk (loops_stmt body) m3"
              "loops_stmt body \<subseteq> R f" using body_ready [OF P Some c3] by simp_all
            have fs: "function_name (fstate m3) = True" "loop_nest_level (fstate m3) = 0" "world m3 = w3"
              using 1 kept_fields(4) [OF k2] by (simp_all add: body_frame_def frame_def)
            show ?thesis unfolding Suc nat.case prod.case option.case
            proof (rule rel_bind [OF sim_stmtD [OF s b(1-3) fs]], goal_cases)
              case (2 x m4)
              then obtain c w4 where x: "x = (c, w4)" by (cases x)
              have "after R (R f) ((body_frame m2)\<lparr>world := w3\<rparr>) (c, w4) m4"
                using after_mono [OF 2 b(4)] 1 x by simp
              from call_end [OF r k2 this] show ?case by (simp add: x)
            qed (simp add: Suc)
          qed (simp add: rel_result_simps)
        qed
      qed
    qed
  qed
qed

theorem sim_expressions:
  assumes P: "ok_program P tk R" and s: "\<And>k s. k < n \<Longrightarrow> sim_stmt P g tk R k s"
  shows "sim_expr P g tk R n e" "sim_args P g tk R n es"
  by (induction e and es)
    (simp_all add: sim_op sim_or sim_and sim_cond sim_call [OF P _ s] sim_no_args sim_arg)

end
