(* ===== verification/Control_Branches.thy ===== *)
theory Control_Branches
  imports Control_Sim
begin

text \<open>
  The simulation for the statements without loops: \<open>if\<close> with its branches, \<open>switch\<close> with its cases, \<open>break\<close>,
  \<open>continue\<close> and \<open>return\<close>.
\<close>

subsection \<open>Statements without loops\<close>

definition sim_for_expr :: "('op, 'fn, 'f, 'u) program \<Rightarrow> 'f pval \<Rightarrow> (nat \<Rightarrow> int) \<Rightarrow> ('fn \<Rightarrow> nat set) \<Rightarrow> nat \<Rightarrow>
    ('op, 'fn) for_expr \<Rightarrow> bool" where
  "sim_for_expr P g tk R n fe \<longleftrightarrow> (\<forall>m. can_run tk R (calls_for fe) m \<longrightarrow>
     rel_result (value_kept R m) (exec_for_expr P n fe (world m)) (run_for_expr P g n fe m))"

lemma sim_for_exprD:
  assumes "sim_for_expr P g tk R n e" "can_run tk R (calls_for e) m" "world m = w"
  shows "rel_result (value_kept R m) (exec_for_expr P n e w) (run_for_expr P g n e m)"
  using assms by (auto simp: sim_for_expr_def)

lemma in_world_kept:
  assumes "kept R m w m1"
  shows "rel_result (\<lambda>w1 m2. m2 = m1\<lparr>world := w1\<rparr> \<and> kept R m w1 m2) (f w) (in_world f m1)"
  using in_world_rel [of m1 f] kept_trans [OF assms kept_world] kept_fields(1) [OF assms] by (auto elim: rel_mono)

lemma sim_for_exprs: "(\<And>e. sim_expr P g tk R n e) \<Longrightarrow> sim_for_expr P g tk R n fe"
proof (induction fe)
  case Empty_expr
  then show ?case by (simp add: sim_for_expr_def kept_refl)
next
  case (One_expr e)
  then show ?case by (auto simp: sim_for_expr_def sim_expr_def)
next
  case (Comma fe e)
  note fe = Comma.IH [OF Comma.prems]
  show ?case unfolding sim_for_expr_def exec_for_expr.simps run_for_expr.simps
  proof (intro allI impI rel_bind [OF sim_for_exprD [OF fe _ refl]], goal_cases)
    case (2 m x y)
    then obtain v1 w1 m1 where xy: "x = (v1, w1)" "y = (v1, m1)" and k1: "kept R m w1 m1" by (elim value_keptE)
    have c: "can_run tk R (calls_expr e) m1" "world m1 = w1" using kept_can_run [OF k1 2(1)] kept_fields(1) [OF k1] by simp_all
    show ?case unfolding xy prod.case
    proof (rule rel_bind [OF sim_exprD [OF Comma.prems c]], goal_cases)
      case (1 x y)
      then obtain v2 w2 m2 where xy: "x = (v2, w2)" "y = (v2, m2)" and k2: "kept R m1 w2 m2" by (elim value_keptE)
      have k: "kept R m w2 m2" by (rule kept_trans [OF k1 k2])
      have E: "Execute m2" using kept_fields(6) [OF k] can_run_ready [OF 2(1)] by (simp add: ready_fields)
      show ?case unfolding xy prod.case if_P [OF E] by (rule rel_bind [OF in_world_kept [OF k]]) simp
    qed
  qed simp
qed


lemma after_refl: "ready m \<Longrightarrow> after R L m (Normal, world m) m"
  by (rule after_kept [OF kept_refl])

lemma sim_empty: "sim_stmt P g tk R n Empty_statement"
  by (simp add: sim_stmt_def after_refl can_run_ready)

text \<open>A statement is passed over after one that did not complete normally.\<close>

lemma after_skip:
  assumes "after R L m (c, w) m1" "c \<noteq> Normal" "ready m" "ok_stmt tk R s" "fresh tk (loops_stmt s) m"
  shows "\<exists>m2. run_stmt P g n s m1 = Ok m2 \<and> after R (L \<union> loops_stmt s) m (c, w) m2"
proof -
  obtain mk where "run_stmt P g n s m1 = Ok (m1\<lparr>marks := mk\<rparr>)" "passed tk (loops_stmt s) (marks m1) mk"
    using skip_stmt(1) [OF after_idle [OF assms(1-3)] assms(4)] after_fresh [OF assms(1)] assms(5) by blast
  with after_marks [OF assms(1)] show ?thesis by blast
qed

lemma sim_sequence:
  assumes s1: "sim_stmt P g tk R n s1" and s2: "sim_stmt P g tk R n s2"
  shows "sim_stmt P g tk R n (Sequence s1 s2)"
  unfolding sim_stmt_def exec_stmt.simps run_stmt.simps
proof (intro allI impI rel_bind [OF sim_stmtD [OF s1 _ _ _ refl refl refl]], goal_cases)
  case (4 m x m1)
  obtain c w1 where x: "x = (c, w1)" by (cases x)
  note a = 4(4) [unfolded x]
  show ?case
  proof (cases "c = Normal")
    case True
    have "can_run tk R (calls_stmt s2) m1" "fresh tk (loops_stmt s2) m1" "ok_stmt tk R s2"
      using after_normal [of R _ m w1 m1 tk "calls_stmt s2"] a after_fresh [OF a] 4(1-3) True by simp_all
    then have "rel_result (after R (loops_stmt s2) m1)
        (exec_stmt P n (function_name (fstate m), loop_nest_level (fstate m), s2) w1) (run_stmt P g n s2 m1)"
      using sim_stmtD [OF s2] after_fields [OF a] by simp
    then show ?thesis unfolding x using a True after_trans [of R "loops_stmt s1" m w1 m1 "loops_stmt s2"]
      by (auto elim!: rel_mono)
  next
    case False
    then obtain m2 where "run_stmt P g n s2 m1 = Ok m2" "after R (loops_stmt s1 \<union> loops_stmt s2) m (c, w1) m2"
      using after_skip [OF a False can_run_ready [OF 4(2)], of tk s2 P g n] 4(1,3) by auto
    then show ?thesis using False by (simp add: x)
  qed
qed simp_all

lemma sim_expression:
  assumes e: "sim_expr P g tk R n e"
  shows "sim_stmt P g tk R n (Expression e)"
  unfolding sim_stmt_def exec_stmt.simps run_stmt.simps
proof (intro allI impI rel_bind [OF sim_exprD [OF e _ refl]], goal_cases)
  case (2 m x y)
  then obtain v w1 m1 where xy: "x = (v, w1)" "y = (v, m1)" and k: "kept R m w1 m1" by (elim value_keptE)
  have r: "ready m" using 2(2) by (rule can_run_ready)
  then have E: "Execute m1" using kept_fields(6) [OF k] by (simp add: ready_fields)
  show ?case unfolding xy prod.case if_P [OF E]
    by (rule rel_bind_left [OF in_world_kept [OF k]]) (simp add: after_kept [OF _ r])
qed simp

lemma sim_declare: "sim_stmt P g tk R n (Declare s)"
  unfolding sim_stmt_def exec_stmt.simps run_stmt.simps
proof (intro allI impI)
  fix m :: "('c, 'd) machine"
  assume "ok_stmt tk R (Declare s)" "can_run tk R (calls_stmt (Declare s)) m" "fresh tk (loops_stmt (Declare s)) m"
  then have p: "ok_stmt tk R s" "ready m" "fresh tk (loops_stmt s) m" by (auto dest: can_run_ready)
  let ?m = "start_function_decleration m"
  have "idle ?m" using p(2) by (simp add: start_function_decleration_def ready_dont)
  then obtain mk where s: "run_stmt P g n s ?m = Ok (?m\<lparr>marks := mk\<rparr>)" and "passed tk (loops_stmt s) (marks m) mk"
    using skip_stmt(1) [OF _ p(1), of ?m P g n] p(3) by auto
  with after_marks [OF after_refl [OF p(2)], of tk "loops_stmt s" mk R "{}"]
  have "after R (loops_stmt s) m (Normal, world m) (m\<lparr>marks := mk\<rparr>)" by simp
  moreover have "end_function_decleration (?m\<lparr>marks := mk\<rparr>) = m\<lparr>marks := mk\<rparr>"
    using p(2) by (simp add: start_function_decleration_def end_function_decleration_def ready_def state_defs)
  ultimately show "rel_result (after R (loops_stmt (Declare s)) m) (Ok (Normal, world m))
      (bind_run (run_stmt P g n s ?m) (\<lambda>m1. Ok (end_function_decleration m1)))" by (simp add: s)
qed

lemma long_long: "convert_to_long D v st = Some (v1, st1) \<Longrightarrow> \<exists>k. v1 = IS_LONG k"
  by (auto simp: convert_to_long_def convert_to_long_base_def split: pval.splits bind_splits)

lemma to_integer_cases: "to_integer P v w = Fault \<or> (\<exists>k w1. to_integer P v w = Ok (IS_LONG k, w1))"
  unfolding to_integer_def checked_def
  by (cases "convert_to_long (prog_doubles P) v (fst w)") (auto dest: long_long)

lemma after_leave:
  assumes "kept R m w m1" "ready m" "ty = DO_BREAK \<or> ty = DO_CONTINUE" "0 < k" "k \<le> loop_nest_level (fstate m)"
  shows "after R L m (Leave_loop ty k, w) (m1\<lparr>fstate := (fstate m1)\<lparr>loop_change_level := k, loop_change_type := ty\<rparr>, Execute := False\<rparr>)"
proof -
  obtain mk rv where m1: "m1 = m\<lparr>world := w, marks := mk, return_value := rv\<rparr>" and g: "grows (\<Union>f. R f) (marks m) mk"
    using assms(1) by (auto simp: kept_def)
  show ?thesis
  proof (rule afterI)
    show "m1\<lparr>fstate := (fstate m1)\<lparr>loop_change_level := k, loop_change_type := ty\<rparr>, Execute := False\<rparr> =
      (completed (Leave_loop ty k) EXECUTE 0 m)\<lparr>world := w, marks := mk, return_value := rv\<rparr>"
      using assms(2) by (simp add: m1 completed_def ready_fields)
    show "grows (L \<union> (\<Union>f. R f)) (marks m) mk" by (rule grows_mono [OF g]) simp
  qed (use assms(3-5) in auto)
qed

lemma sim_break:
  assumes e: "\<And>e. sim_expr P g tk R n e"
  shows "sim_stmt P g tk R n (Break_continue ty eo)"
  unfolding sim_stmt_def
proof (intro allI impI)
  fix m :: "('c, 'd) machine"
  assume m: "ok_stmt tk R (Break_continue ty eo)" "can_run tk R (calls_stmt (Break_continue ty eo)) m"
  then have ty: "ty = DO_BREAK \<or> ty = DO_CONTINUE" and r: "ready m" by (auto dest: can_run_ready)
  show "rel_result (after R (loops_stmt (Break_continue ty eo)) m)
     (exec_stmt P n (function_name (fstate m), loop_nest_level (fstate m), Break_continue ty eo) (world m))
     (run_stmt P g n (Break_continue ty eo) m)"
  proof (cases eo)
    case None
    then show ?thesis using r after_leave [OF kept_refl [of R] r ty, of "loop_nest_level (fstate m)" "{}"]
      by (simp add: cs_break_continue_def ready_fields rel_result_simps Let_def)
  next
    case (Some e1)
    have c: "can_run tk R (calls_expr e1) m" using m(2) by (simp add: Some calls_opt_def)
    show ?thesis unfolding Some exec_stmt.simps run_stmt.simps
    proof (rule rel_bind [OF sim_exprD [OF e c refl]], goal_cases)
      case (1 x y)
      then obtain v w1 m1 where xy: "x = (v, w1)" "y = (v, m1)" and k: "kept R m w1 m1" by (elim value_keptE)
      note f = kept_fields [OF k]
      have E: "Execute m1" using f(6) r by (simp add: ready_fields)
      from to_integer_cases [of P v w1] show ?case
      proof (elim disjE exE)
        assume "to_integer P v w1 = Fault"
        then show ?thesis by (simp add: xy cs_break_continue_def E f rel_result_simps)
      next
        fix i w2 assume i: "to_integer P v w1 = Ok (IS_LONG i, w2)"
        let ?k = "wrap_int (loop_nest_level (fstate m) - i + 1)"
        have "kept R m w2 (m1\<lparr>world := w2\<rparr>)" by (rule kept_trans [OF k kept_world])
        from after_leave [OF this r ty, of ?k] show ?thesis
          using f by (simp add: xy cs_break_continue_def E i rel_result_simps Let_def lval_def)
      qed
    qed
  qed
qed

lemma after_return:
  assumes "kept R m w m1" "ready m"
  shows "after R L m (Returned v, w) (set_flag DONT_EXECUTE (m1\<lparr>return_value := v, fstate := (fstate m1)\<lparr>returned := True\<rparr>\<rparr>))"
proof -
  obtain mk rv where m1: "m1 = m\<lparr>world := w, marks := mk, return_value := rv\<rparr>" and g: "grows (\<Union>f. R f) (marks m) mk"
    using assms(1) by (auto simp: kept_def)
  show ?thesis
  proof (rule afterI)
    show "set_flag DONT_EXECUTE (m1\<lparr>return_value := v, fstate := (fstate m1)\<lparr>returned := True\<rparr>\<rparr>) =
      (completed (Returned v) DONT_EXECUTE (loop_change_level (fstate m)) m)\<lparr>world := w, marks := mk, return_value := v\<rparr>"
      by (simp add: m1 completed_def state_defs)
    show "grows (L \<union> (\<Union>f. R f)) (marks m) mk" by (rule grows_mono [OF g]) simp
  qed auto
qed

lemma sim_return:
  assumes e: "\<And>e. sim_expr P g tk R n e"
  shows "sim_stmt P g tk R n (Return_from eo)"
  unfolding sim_stmt_def
proof (intro allI impI)
  fix m :: "('c, 'd) machine"
  assume m: "can_run tk R (calls_stmt (Return_from eo)) m"
  then have r: "ready m" by (rule can_run_ready)
  show "rel_result (after R (loops_stmt (Return_from eo)) m)
     (exec_stmt P n (function_name (fstate m), loop_nest_level (fstate m), Return_from eo) (world m))
     (run_stmt P g n (Return_from eo) m)"
  proof (cases eo)
    case None
    then show ?thesis using r after_return [OF kept_refl [of R] r, of "{}"]
      by (simp add: cs_return_def ready_fields rel_result_simps)
  next
    case (Some e1)
    have c: "can_run tk R (calls_expr e1) m" using m by (simp add: Some calls_opt_def)
    show ?thesis unfolding Some exec_stmt.simps run_stmt.simps
    proof (rule rel_bind [OF sim_exprD [OF e c refl]], goal_cases)
      case (1 x y)
      then obtain v w1 m1 where xy: "x = (v, w1)" "y = (v, m1)" and k: "kept R m w1 m1" by (elim value_keptE)
      have "Execute m1" using kept_fields(6) [OF k] r by (simp add: ready_fields)
      then show ?case using after_return [OF k r] kept_fields(1,4) [OF k]
        by (cases "print_variable P v w1"; cases "destroy v (the (print_variable P v w1))")
          (auto simp: xy cs_return_def checked_def rel_result_simps)
    qed
  qed
qed


subsection \<open>Branches\<close>

definition sim_elses :: "('op, 'fn, 'f, 'u) program \<Rightarrow> 'f pval \<Rightarrow> (nat \<Rightarrow> int) \<Rightarrow> ('fn \<Rightarrow> nat set) \<Rightarrow> nat \<Rightarrow>
    ('op, 'fn) elses \<Rightarrow> bool" where
  "sim_elses P g tk R n els \<longleftrightarrow> (\<forall>m. ok_elses tk R els \<longrightarrow> can_run tk R (calls_elses els) m \<longrightarrow> fresh tk (loops_elses els) m \<longrightarrow>
     rel_result (\<lambda>x m1. after R (loops_elses els) m x (pop_flag m1))
       (exec_elses P n (function_name (fstate m), loop_nest_level (fstate m), els) (world m))
       (run_elses P g n els (set_flag BEFORE_EXECUTE (push_flag m))))"

lemma push_fields [simp]: "fstate (push_flag m) = fstate m" "world (push_flag m) = world m" "switch_stack (push_flag m) = switch_stack m"
  by (simp_all add: push_flag_def)

lemma pop_updates [simp]:
  "pop_flag (m\<lparr>ExecuteFlag := f\<rparr>) = pop_flag m" "pop_flag (m\<lparr>Execute := x\<rparr>) = pop_flag m" "pop_flag (end_branch m) = pop_flag m"
  "pop_flag (m\<lparr>marks := mk\<rparr>) = (pop_flag m)\<lparr>marks := mk\<rparr>"
  by (simp_all add: end_branch_def state_defs)

lemma pop_push_ready [simp]: "ready m \<Longrightarrow> pop_flag (push_flag m) = m"
  by (simp add: pop_push ready_def)

lemma run_elses_end_branch: "els \<noteq> No_else \<Longrightarrow> run_elses P g n els (end_branch m) = run_elses P g n els m"
  by (cases els) (simp_all add: cs_start_else_def cs_elseif_start_evaluate_def)

lemma pop_marked:
  assumes "after R L (push_flag m) (c, w) m1" "ready m" "passed tk L' (marks m1) mk"
  shows "after R (L \<union> L') m (c, w) ((pop_flag m1)\<lparr>marks := mk\<rparr>)"
  by (rule after_marks [OF after_pop [OF assms(1,2)]]) (use assms(3) in \<open>simp add: pop_flag_def Let_def\<close>)

lemma elses_taken:
  assumes a: "after R L (push_flag m) (c, w) m1" and m: "ready m" and els: "ok_elses tk R els" "fresh tk (loops_elses els) m"
  shows "\<exists>m2. run_elses P g n els m1 = Ok m2 \<and> after R (L \<union> loops_elses els) m (c, w) (pop_flag m2)"
proof -
  have r: "ready (push_flag m)" and fr: "fresh tk (loops_elses els) m1" using m els(2) after_fresh [OF a] by simp_all
  show ?thesis
  proof (cases "c = Normal \<and> els = No_else")
    case True
    then show ?thesis using after_pop [OF a m] by simp
  next
    case False
    let ?m = "if c = Normal then end_branch m1 else m1"
    have "idle ?m \<and> ExecuteFlag ?m \<noteq> BEFORE_EXECUTE \<and> pop_flag ?m = pop_flag m1 \<and> fresh tk (loops_elses els) ?m \<and> marks ?m = marks m1"
    proof (cases "c = Normal")
      case True
      have "ready m1" using a r by (auto simp: True after_def completed_def ready_def SHOULD_EXECUTE_def)
      then have "end_branch m1 = set_flag DONT_EXECUTE m1" "idle (set_flag DONT_EXECUTE m1)"
        by (simp_all add: end_branch_def ready_fields ready_dont)
      then show ?thesis using True fr by (simp add: set_flag_def Let_def fresh_def agrees_def)
    next
      case False
      then show ?thesis using after_idle [OF a False r] after_fields(9) [OF a] fr by simp
    qed
    then obtain mk f where s: "run_elses P g n els ?m = Ok (?m\<lparr>marks := mk, ExecuteFlag := f\<rparr>)"
      and p: "passed tk (loops_elses els) (marks m1) mk" and pop: "pop_flag ?m = pop_flag m1"
      using skip_stmt(2) [OF _ els(1), of ?m P g n] by auto
    have "run_elses P g n els m1 = run_elses P g n els ?m" using False by (simp add: run_elses_end_branch)
    moreover have "pop_flag (?m\<lparr>marks := mk, ExecuteFlag := f\<rparr>) = (pop_flag m1)\<lparr>marks := mk\<rparr>"
      unfolding pop_updates pop ..
    ultimately show ?thesis using s pop_marked [OF a m p] by auto
  qed
qed

lemma sim_elsesD:
  assumes "sim_elses P g tk R n els" "ok_elses tk R els" "can_run tk R (calls_elses els) m" "fresh tk (loops_elses els) m"
    "function_name (fstate m) = i" "loop_nest_level (fstate m) = l" "world m = w"
  shows "rel_result (\<lambda>x m1. after R (loops_elses els) m x (pop_flag m1)) (exec_elses P n (i, l, els) w)
     (run_elses P g n els (set_flag BEFORE_EXECUTE (push_flag m)))"
  using assms by (auto simp: sim_elses_def)

lemma sim_no_else: "sim_elses P g tk R n No_else"
  by (simp add: sim_elses_def after_refl can_run_ready)

lemma set_push: "ready m \<Longrightarrow> set_flag EXECUTE (set_flag BEFORE_EXECUTE (push_flag m)) = push_flag m"
  "ready m \<Longrightarrow> set_flag EXECUTE ((set_flag BEFORE_EXECUTE (push_flag m))\<lparr>world := w\<rparr>) = push_flag (m\<lparr>world := w\<rparr>)"
  "(set_flag BEFORE_EXECUTE (push_flag m))\<lparr>world := w\<rparr> = set_flag BEFORE_EXECUTE (push_flag (m\<lparr>world := w\<rparr>))"
  "(set_flag BEFORE_EXECUTE (push_flag m))\<lparr>marks := mk\<rparr> = set_flag BEFORE_EXECUTE (push_flag (m\<lparr>marks := mk\<rparr>))"
  "world (set_flag BEFORE_EXECUTE (push_flag m)) = world m"
  by (simp_all add: ready_def state_defs)

lemma before_branch:
  "end_branch (set_flag BEFORE_EXECUTE m) = set_flag BEFORE_EXECUTE m" "ExecuteFlag (set_flag f m) = f"
  by (simp_all add: end_branch_def state_defs control_constants)

lemma sim_else:
  assumes s: "sim_stmt P g tk R n s"
  shows "sim_elses P g tk R n (Else s)"
  unfolding sim_elses_def exec_elses.simps run_elses.simps
proof (intro allI impI)
  fix m :: "('c, 'd) machine"
  assume m: "ok_elses tk R (Else s)" "can_run tk R (calls_elses (Else s)) m" "fresh tk (loops_elses (Else s)) m"
  then have r: "ready m" by (auto dest: can_run_ready)
  have "cs_start_else (set_flag BEFORE_EXECUTE (push_flag m)) = push_flag m"
    using r by (simp add: cs_start_else_def before_branch set_push)
  moreover have "rel_result (after R (loops_stmt s) (push_flag m))
      (exec_stmt P n (function_name (fstate m), loop_nest_level (fstate m), s) (world m)) (run_stmt P g n s (push_flag m))"
    by (rule sim_stmtD [OF s]) (use m in simp_all)
  ultimately show "rel_result (\<lambda>x m1. after R (loops_elses (Else s)) m x (pop_flag m1))
      (exec_stmt P n (function_name (fstate m), loop_nest_level (fstate m), s) (world m))
      (run_stmt P g n s (cs_start_else (set_flag BEFORE_EXECUTE (push_flag m))))"
    using after_pop [OF _ r] by (auto elim!: rel_mono)
qed

text \<open>The state in which the condition of an \<open>elseif\<close> is evaluated.\<close>

definition inner :: "('f, 'u) machine \<Rightarrow> ('f, 'u) machine" where
  "inner m = m\<lparr>css := BEFORE_EXECUTE # EXECUTE # css m\<rparr>"

lemma inner_start: "ready m \<Longrightarrow> cs_elseif_start_evaluate (set_flag BEFORE_EXECUTE (push_flag m)) = inner m"
  by (simp add: cs_elseif_start_evaluate_def before_branch ready_fields inner_def)
    (simp add: ready_def state_defs control_constants)

lemma inner_can_run [simp]: "can_run tk R C (inner m) \<longleftrightarrow> can_run tk R C m" "world (inner m) = world m"
  by (simp_all add: inner_def can_run_def ready_def SHOULD_EXECUTE_def agrees_def)

lemma inner_end:
  assumes "kept R (inner m) w m1" "ready m"
  obtains m2 where "cs_elseif_end_evaluate m1 = set_flag BEFORE_EXECUTE (push_flag m2)" "kept R m w m2"
proof -
  obtain mk rv where m1: "m1 = (inner m)\<lparr>world := w, marks := mk, return_value := rv\<rparr>" and g: "grows (\<Union>f. R f) (marks m) mk"
    using assms(1) by (auto simp: kept_def inner_def)
  have "cs_elseif_end_evaluate m1 = set_flag BEFORE_EXECUTE (push_flag (m\<lparr>world := w, marks := mk, return_value := rv\<rparr>))"
    using assms(2) by (simp add: cs_elseif_end_evaluate_def m1 inner_def ready_def state_defs)
  moreover have "kept R m w (m\<lparr>world := w, marks := mk, return_value := rv\<rparr>)" using g by (auto simp: kept_def)
  ultimately show ?thesis by (rule that)
qed


lemma test_before:
  assumes k: "kept R m w m1" and m: "ready m"
  shows "rel_result (\<lambda>(b, w1) m2. m2 = (if b then push_flag (m1\<lparr>world := w1\<rparr>) else set_flag BEFORE_EXECUTE (push_flag (m1\<lparr>world := w1\<rparr>))))
    (truth_value P v w) (cs_start_elseif P v (set_flag BEFORE_EXECUTE (push_flag m1)))"
proof -
  let ?m = "set_flag BEFORE_EXECUTE (push_flag m1)"
  have r: "ready m1" using k m by (auto simp: kept_def)
  have w: "world ?m = w" using kept_fields(1) [OF k] by (simp add: set_push)
  show ?thesis unfolding cs_start_elseif_def Let_def before_branch if_P [OF refl]
    by (rule rel_bind_right [OF test_truth [OF w]])
      (auto simp: tested_def in_world_def r set_push)
qed

text \<open>The two ways on after a condition.\<close>

lemma branches:
  assumes s: "sim_stmt P g tk R n s" and els: "sim_elses P g tk R n els" and ok: "ok_stmt tk R s" "ok_elses tk R els"
    and m: "can_run tk R (calls_stmt s \<union> calls_elses els) m" "fresh tk (loops_stmt s \<union> loops_elses els) m"
    and k: "kept R m w m1" and i: "function_name (fstate m) = i" "loop_nest_level (fstate m) = l"
  shows "rel_result (\<lambda>x m2. after R (loops_stmt s \<union> loops_elses els) m x (pop_flag m2))
    (if b then exec_stmt P n (i, l, s) w else exec_elses P n (i, l, els) w)
    (bind_run (run_stmt P g n s (if b then push_flag m1 else set_flag BEFORE_EXECUTE (push_flag m1))) (run_elses P g n els))"
proof -
  have r: "ready m" using m by (auto dest: can_run_ready)
  have m': "can_run tk R (calls_stmt s) m1" "can_run tk R (calls_elses els) m1" "ready m1"
    using kept_can_run [OF k m(1)] by (auto dest: can_run_ready)
  have fr: "fresh tk (loops_stmt s) m1" "fresh tk (loops_elses els) m1"
    using m(2) kept_fields(3,5) [OF k] fresh_cong [of tk _ m m1] by auto
  have f: "fstate m1 = fstate m" "world m1 = w" using kept_fields(1,4) [OF k] by simp_all
  show ?thesis
  proof (cases b)
    case True
    have "rel_result (after R (loops_stmt s) (push_flag m1)) (exec_stmt P n (i, l, s) w) (run_stmt P g n s (push_flag m1))"
      by (rule sim_stmtD [OF s ok(1)]) (use m' fr f i in simp_all)
    then have "rel_result (\<lambda>x m2. after R (loops_stmt s \<union> loops_elses els) m x (pop_flag m2)) (exec_stmt P n (i, l, s) w)
        (bind_run (run_stmt P g n s (push_flag m1)) (run_elses P g n els))"
    proof (rule rel_bind_right, goal_cases)
      case (1 x m2)
      obtain c w3 where x: "x = (c, w3)" by (cases x)
      obtain m3 where "run_elses P g n els m2 = Ok m3"
        "after R (loops_stmt s \<union> loops_elses els) m1 (c, w3) (pop_flag m3)"
        using elses_taken [of R "loops_stmt s" m1 c w3 m2 tk els P g n] 1 x m'(3) ok(2) fr(2) by auto
      then show ?case using kept_after [OF k] by (simp add: x)
    qed
    then show ?thesis by (simp add: True)
  next
    case False
    let ?m = "set_flag BEFORE_EXECUTE (push_flag m1)"
    have "idle ?m" using m'(3) by (simp add: idle_def ready_def state_defs control_constants)
    moreover have "fresh tk (loops_stmt s) ?m" using fr(1) by (simp add: fresh_def agrees_def set_flag_def Let_def)
    ultimately obtain mk where sk: "run_stmt P g n s ?m = Ok (?m\<lparr>marks := mk\<rparr>)" and "passed tk (loops_stmt s) (marks ?m) mk"
      using skip_stmt(1) [of ?m tk R s P g n] ok by auto
    then have p: "passed tk (loops_stmt s) (marks m1) mk" by (simp add: set_flag_def Let_def)
    let ?q = "m1\<lparr>marks := mk\<rparr>"
    have q: "after R (loops_stmt s) m (Normal, w) ?q" using after_marks [OF after_kept [OF k r, of "{}"] p] by simp
    have "rel_result (\<lambda>x m1. after R (loops_elses els) ?q x (pop_flag m1)) (exec_elses P n (i, l, els) w)
        (run_elses P g n els (set_flag BEFORE_EXECUTE (push_flag ?q)))"
      by (rule sim_elsesD [OF els ok(2)]) (use after_normal [OF q, of tk "calls_elses els"] m(1) fr(2) f i in simp_all)
    then have "rel_result (\<lambda>x m2. after R (loops_stmt s \<union> loops_elses els) m x (pop_flag m2)) (exec_elses P n (i, l, els) w)
        (run_elses P g n els (set_flag BEFORE_EXECUTE (push_flag ?q)))"
      by (rule rel_mono) (auto intro: after_trans [OF q])
    then show ?thesis by (simp add: False sk [unfolded set_push])
  qed
qed

lemma sim_elseif:
  assumes e: "sim_expr P g tk R n e" and s: "sim_stmt P g tk R n s" and els: "sim_elses P g tk R n els"
  shows "sim_elses P g tk R n (Elseif e s els)"
  unfolding sim_elses_def
proof (intro allI impI)
  fix m :: "('c, 'd) machine"
  assume ok: "ok_elses tk R (Elseif e s els)" and m: "can_run tk R (calls_elses (Elseif e s els)) m"
    and fr: "fresh tk (loops_elses (Elseif e s els)) m"
  then have r: "ready m" and c: "can_run tk R (calls_expr e) (inner m)" "world (inner m) = world m" by (auto dest: can_run_ready)
  let ?i = "function_name (fstate m)" and ?l = "loop_nest_level (fstate m)"
  show "rel_result (\<lambda>x m1. after R (loops_elses (Elseif e s els)) m x (pop_flag m1))
      (exec_elses P n (?i, ?l, Elseif e s els) (world m)) (run_elses P g n (Elseif e s els) (set_flag BEFORE_EXECUTE (push_flag m)))"
    unfolding exec_elses.simps run_elses.simps inner_start [OF r]
  proof (rule rel_bind [OF sim_exprD [OF e c]], goal_cases)
    case (1 x y)
    then obtain v w1 m1 where xy: "x = (v, w1)" "y = (v, m1)" and "kept R (inner m) w1 m1" by (elim value_keptE)
    then obtain m2 where m2: "cs_elseif_end_evaluate m1 = set_flag BEFORE_EXECUTE (push_flag m2)" and k2: "kept R m w1 m2"
      using inner_end [OF _ r] by metis
    show ?case unfolding xy prod.case m2
    proof (rule rel_bind [OF test_before [OF k2 r]], goal_cases)
      case (1 x m3)
      obtain b w2 where x: "x = (b, w2)" by (cases x)
      have "kept R m w2 (m2\<lparr>world := w2\<rparr>)" by (rule kept_trans [OF k2 kept_world])
      from branches [OF s els _ _ _ _ this refl refl, where b = b] show ?case using ok m fr 1 by (simp add: x)
    qed
  qed
qed

lemma test_if:
  assumes k: "kept R m w m1" and m: "ready m"
  shows "rel_result (\<lambda>(b, w1) m2. m2 = (if b then push_flag (m1\<lparr>world := w1\<rparr>) else set_flag BEFORE_EXECUTE (push_flag (m1\<lparr>world := w1\<rparr>))))
    (truth_value P v w) (cs_start_if P v m1)"
proof -
  have r: "ready m1" using k m by (auto simp: kept_def)
  have E: "Execute (push_flag m1)" using r by (simp add: push_flag_def ready_fields)
  have w: "world (push_flag m1) = w" using kept_fields(1) [OF k] by simp
  show ?thesis unfolding cs_start_if_def Let_def if_P [OF E]
    by (rule rel_bind_right [OF test_truth [OF w]])
      (use r in \<open>auto simp: tested_def in_world_def push_world ready_def state_defs\<close>)
qed

lemma sim_if:
  assumes e: "sim_expr P g tk R n e" and s: "sim_stmt P g tk R n s" and els: "sim_elses P g tk R n els"
  shows "sim_stmt P g tk R n (If_else e s els)"
  unfolding sim_stmt_def exec_stmt.simps run_stmt.simps
proof (intro allI impI rel_bind [OF sim_exprD [OF e _ refl]], goal_cases)
  case (2 m x y)
  have r: "ready m" using 2(2) by (rule can_run_ready)
  obtain v w1 m1 where xy: "x = (v, w1)" "y = (v, m1)" and k1: "kept R m w1 m1" using 2(4) by (elim value_keptE)
  show ?case unfolding xy prod.case
  proof (rule rel_bind [OF test_if [OF k1 r]], goal_cases)
    case (1 x m2)
    obtain b w2 where x: "x = (b, w2)" by (cases x)
    have "kept R m w2 (m1\<lparr>world := w2\<rparr>)" by (rule kept_trans [OF k1 kept_world])
    from branches [OF s els _ _ _ _ this refl refl, where b = b]
    have "rel_result (\<lambda>x m3. after R (loops_stmt (If_else e s els)) m x (pop_flag m3))
        (if b then exec_stmt P n (function_name (fstate m), loop_nest_level (fstate m), s) w2
         else exec_elses P n (function_name (fstate m), loop_nest_level (fstate m), els) w2)
        (bind_run (run_stmt P g n s m2) (run_elses P g n els))" using 2(1-3) 1 by (simp add: x)
    then show ?case unfolding x prod.case bind_run_assoc [symmetric]
      by (rule rel_bind_right) (simp add: cs_end_if_def)
  qed
qed simp


subsection \<open>Switch\<close>

definition entry :: "'f pval \<Rightarrow> bool \<Rightarrow> 'f switch_expr" where
  "entry v matched = \<lparr>se_expr = v, se_matched = matched, se_Execute = True\<rparr>"

lemma entry_fields [simp]:
  "se_expr (entry v b) = v" "se_matched (entry v b) = b" "se_Execute (entry v b) = True" "(entry v b)\<lparr>se_matched := b'\<rparr> = entry v b'"
  by (simp_all add: entry_def)

text \<open>The flag after the cases is that of the last one.\<close>

definition after_cases :: "('fn \<Rightarrow> nat set) \<Rightarrow> nat set \<Rightarrow> ('f, 'u) machine \<Rightarrow> 'f pval \<Rightarrow> 'f switch_expr list \<Rightarrow>
    'f completion \<times> ('f, 'u) world \<Rightarrow> ('f, 'u) machine \<Rightarrow> bool" where
  "after_cases R L m v rest x m1 \<longleftrightarrow> (\<exists>b. switch_stack m1 = entry v b # rest) \<and>
     (\<exists>f. after R L m x (m1\<lparr>switch_stack := switch_stack m, ExecuteFlag := f\<rparr>))"

definition sim_cases :: "('op, 'fn, 'f, 'u) program \<Rightarrow> 'f pval \<Rightarrow> (nat \<Rightarrow> int) \<Rightarrow> ('fn \<Rightarrow> nat set) \<Rightarrow> nat \<Rightarrow>
    ('op, 'fn) cases \<Rightarrow> bool" where
  "sim_cases P g tk R n cs \<longleftrightarrow> (\<forall>m v b rest i l w. ok_cases tk R cs \<longrightarrow> can_run tk R (calls_cases cs) m \<longrightarrow>
     fresh tk (loops_cases cs) m \<longrightarrow> (\<exists>c. css m = EXECUTE # c) \<longrightarrow> switch_stack m = entry v b # rest \<longrightarrow>
     function_name (fstate m) = i \<longrightarrow> loop_nest_level (fstate m) = l \<longrightarrow> world m = w \<longrightarrow>
     rel_result (after_cases R (loops_cases cs) m v rest) (exec_cases P n (i, l, v, b, cs) w) (run_cases P g n cs m))"

lemma sim_casesD:
  assumes "sim_cases P g tk R n cs" "ok_cases tk R cs" "can_run tk R (calls_cases cs) m" "fresh tk (loops_cases cs) m"
    "css m = EXECUTE # c" "switch_stack m = entry v b # rest"
    "function_name (fstate m) = i" "loop_nest_level (fstate m) = l" "world m = w"
  shows "rel_result (after_cases R (loops_cases cs) m v rest) (exec_cases P n (i, l, v, b, cs) w) (run_cases P g n cs m)"
  using assms unfolding sim_cases_def by blast

lemma after_casesI:
  "switch_stack m1 = entry v b # rest \<Longrightarrow> m1\<lparr>switch_stack := switch_stack m, ExecuteFlag := f\<rparr> = m2 \<Longrightarrow> after R L m x m2 \<Longrightarrow>
   after_cases R L m v rest x m1"
  by (auto simp: after_cases_def)

lemma after_cases_refl: "ready m \<Longrightarrow> switch_stack m = entry v b # rest \<Longrightarrow> after_cases R L m v rest (Normal, world m) m"
  by (rule after_casesI [OF _ _ after_refl, where f = "ExecuteFlag m"]) (assumption, simp, assumption)

lemma sim_no_case: "sim_cases P g tk R n No_case"
  by (auto simp: sim_cases_def can_run_ready after_cases_refl)

lemma after_switch_stack:
  assumes "after R L (m\<lparr>switch_stack := ss\<rparr>) (c, w) m1"
  shows "after R L m (c, w) (m1\<lparr>switch_stack := switch_stack m\<rparr>)"
proof -
  from assms obtain mk rv l f where a: "m1 = (completed c f l (m\<lparr>switch_stack := ss\<rparr>))\<lparr>world := w, marks := mk, return_value := rv\<rparr>"
    "grows (L \<union> (\<Union>f. R f)) (marks m) mk" "proper (loop_nest_level (fstate m)) c rv"
    "if c = Normal then f = EXECUTE else f \<noteq> BEFORE_EXECUTE" by (rule afterE) simp
  show ?thesis
  proof (rule afterI)
    show "m1\<lparr>switch_stack := switch_stack m\<rparr> = (completed c f l m)\<lparr>world := w, marks := mk, return_value := rv\<rparr>"
      by (simp add: a(1) completed_def)
  qed (use a(2-4) in \<open>auto split: if_splits\<close>)
qed

text \<open>The statements of a case that is executed, and what follows.\<close>

lemma case_taken:
  assumes s: "sim_stmt P g tk R n s" and cs: "sim_cases P g tk R n cs" and ok: "ok_stmt tk R s" "ok_cases tk R cs"
    and m: "can_run tk R (calls_stmt s \<union> calls_cases cs) m" "fresh tk (loops_stmt s \<union> loops_cases cs) m"
    and st: "css m = EXECUTE # c0" "switch_stack m = entry v True # rest"
    and f: "function_name (fstate m) = i" "loop_nest_level (fstate m) = l" "world m = w"
  shows "rel_result (after_cases R (loops_stmt s \<union> loops_cases cs) m v rest)
    (bind_run (exec_stmt P n (i, l, s) w) (\<lambda>(c, w1). if c = Normal then exec_cases P n (i, l, v, True, cs) w1 else Ok (c, w1)))
    (bind_run (run_stmt P g n s m) (\<lambda>m1. run_cases P g n cs (cs_switch_case_post m1)))"
proof (rule rel_bind [OF sim_stmtD [OF s ok(1) _ _ f]], goal_cases)
  case (3 x m1)
  obtain c w1 where x: "x = (c, w1)" by (cases x)
  note a = 3 [unfolded x] and af = after_fields [OF 3 [unfolded x]]
  have r: "ready m" using m by (auto dest: can_run_ready)
  show ?case
  proof (cases "c = Normal")
    case True
    have c1: "can_run tk R (calls_cases cs) m1" using after_normal [of R "loops_stmt s" m w1 m1] a True m(1) by simp
    have "top_flag m1 = m1" using top_ready(1) [OF can_run_ready [OF c1]] af(2) st(1) by simp
    moreover have "rel_result (after_cases R (loops_cases cs) m1 v rest) (exec_cases P n (i, l, v, True, cs) w1) (run_cases P g n cs m1)"
      using cs ok(2) c1 after_fresh [OF a] m(2) af st f unfolding sim_cases_def by auto
    moreover have "after_cases R (loops_stmt s \<union> loops_cases cs) m v rest y m2"
      if "after_cases R (loops_cases cs) m1 v rest y m2" for y m2
    proof -
      obtain c2 w2 where y: "y = (c2, w2)" by (cases y)
      show ?thesis using that after_trans [OF a [unfolded True], of "loops_cases cs" c2 w2] af(6)
        unfolding after_cases_def y by auto
    qed
    ultimately show ?thesis by (auto simp: x True cs_switch_case_post_def elim: rel_mono)
  next
    case False
    let ?m = "top_flag m1"
    have id: "idle m1" by (rule after_idle [OF a False r])
    then have top: "?m = m1\<lparr>ExecuteFlag := EXECUTE\<rparr>"
      using a False af(2) st(1) r by (cases c) (auto simp: after_def completed_def ready_def state_defs control_constants)
    have "idle ?m" unfolding top using id a False r
      by (cases c) (auto simp: after_def completed_def idle_def ready_def SHOULD_EXECUTE_def control_constants)
    moreover have "top_flag ?m = ?m" using af(2) st(1) by (simp add: state_defs)
    moreover have "fresh tk (loops_cases cs) ?m" unfolding top using m(2) after_fresh [OF a] by simp
    ultimately obtain mk fl where sk: "run_cases P g n cs ?m = Ok (?m\<lparr>marks := mk, ExecuteFlag := fl\<rparr>)"
      and p: "passed tk (loops_cases cs) (marks m1) mk"
      using skip_stmt(3) [OF _ ok(2), of ?m P g n] by (auto simp: top idle_fields)
    have "after R (loops_stmt s \<union> loops_cases cs) m (c, w1) (m1\<lparr>marks := mk\<rparr>)" by (rule after_marks [OF a p])
    moreover have "?m\<lparr>marks := mk, ExecuteFlag := fl, switch_stack := switch_stack m, ExecuteFlag := ExecuteFlag m1\<rparr> = m1\<lparr>marks := mk\<rparr>"
      using af(6) by (simp add: top)
    moreover have "switch_stack (?m\<lparr>marks := mk, ExecuteFlag := fl\<rparr>) = entry v True # rest" using af(6) st(2) by (simp add: top)
    ultimately have "after_cases R (loops_stmt s \<union> loops_cases cs) m v rest (c, w1) (?m\<lparr>marks := mk, ExecuteFlag := fl\<rparr>)"
      by (blast intro: after_casesI)
    then show ?thesis using False by (simp add: x sk cs_switch_case_post_def)
  qed
qed (use m in simp_all)


lemma after_cases_base:
  assumes "after_cases R L (m\<lparr>switch_stack := ss\<rparr>) v rest (c, w) m1"
  shows "after_cases R L m v rest (c, w) m1"
proof -
  obtain b f where b: "switch_stack m1 = entry v b # rest"
    and "after R L (m\<lparr>switch_stack := ss\<rparr>) (c, w) (m1\<lparr>switch_stack := ss, ExecuteFlag := f\<rparr>)"
    using assms by (auto simp: after_cases_def)
  from after_casesI [OF b _ after_switch_stack [OF this(2)], where f = f] show ?thesis by simp
qed

lemma kept_after_cases: "kept R m w1 m1 \<Longrightarrow> after_cases R L m1 v rest (c, w) m2 \<Longrightarrow> after_cases R L m v rest (c, w) m2"
  unfolding after_cases_def using kept_after [of R m w1 m1 L c w] kept_fields(8) [of R m w1 m1] by auto

lemma set_execute: "ready m \<Longrightarrow> set_flag EXECUTE (m\<lparr>switch_stack := ss\<rparr>) = m\<lparr>switch_stack := ss\<rparr>"
  by (simp add: ready_def state_defs)

lemma case_pre_none:
  "ready m \<Longrightarrow> switch_stack m = entry v b # rest \<Longrightarrow> cs_switch_case_pre P None m = Ok (m\<lparr>switch_stack := entry v True # rest\<rparr>)"
  by (cases b) (simp_all add: cs_switch_case_pre_def ready_fields set_execute)

lemma bind_normal: "bind_run r (\<lambda>(c, w). if c = Normal then exec_cases P n (i, l, v, b, No_case) w else Ok (c, w)) = r"
  by (cases r) auto

lemma sim_default:
  assumes s: "sim_stmt P g tk R n s"
  shows "sim_cases P g tk R n (Default s)"
  unfolding sim_cases_def
proof (intro allI impI, elim exE)
  fix m :: "('c, 'd) machine" and v b rest i l w c
  assume m: "ok_cases tk R (Default s)" "can_run tk R (calls_cases (Default s)) m" "fresh tk (loops_cases (Default s)) m"
    "css m = EXECUTE # c" and st: "switch_stack m = entry v b # rest"
    and f: "function_name (fstate m) = i" "loop_nest_level (fstate m) = l" "world m = w"
  have r: "ready m" using m by (auto dest: can_run_ready)
  let ?m = "m\<lparr>switch_stack := entry v True # rest\<rparr>"
  have ok: "ok_stmt tk R s" "ok_cases tk R No_case" "can_run tk R (calls_stmt s \<union> calls_cases No_case) ?m"
    "fresh tk (loops_stmt s \<union> loops_cases No_case) ?m" "css ?m = EXECUTE # c" "switch_stack ?m = entry v True # rest"
    "function_name (fstate ?m) = i" "loop_nest_level (fstate ?m) = l" "world ?m = w"
    using m f by (simp_all add: can_run_def agrees_def)
  have "rel_result (after_cases R (loops_stmt s) ?m v rest) (exec_stmt P n (i, l, s) w)
    (bind_run (run_stmt P g n s ?m) (\<lambda>m1. Ok (cs_switch_case_post m1)))"
    using case_taken [OF s sim_no_case ok(1,2) _ _ ok(5-9)] ok(3,4) by (simp add: bind_normal)
  then show "rel_result (after_cases R (loops_cases (Default s)) m v rest) (exec_cases P n (i, l, v, b, Default s) w)
     (run_cases P g n (Default s) m)"
    by (auto simp: case_pre_none [OF r st] elim!: rel_mono intro: after_cases_base)
qed

lemma case_pre_some:
  assumes k: "kept R m w m1" and m: "ready m" "switch_stack m = entry v matched # rest"
  shows "rel_result (\<lambda>(b, w1) m2. kept R m w1 (m1\<lparr>world := w1\<rparr>) \<and> (matched \<longrightarrow> b) \<and>
      m2 = (if b then m1\<lparr>world := w1, switch_stack := entry v True # rest\<rparr> else set_flag DONT_EXECUTE (m1\<lparr>world := w1\<rparr>)))
    (if matched then bind_run (destroy u w) (\<lambda>w1. Ok (True, w1)) else case_equal P v u w) (cs_switch_case_pre P (Some u) m1)"
proof -
  have f: "Execute m1" "switch_stack m1 = entry v matched # rest" "world m1 = w"
    using kept_fields(1,6,8) [OF k] m by (simp_all add: ready_fields)
  have r: "ready m1" using k m(1) by (auto simp: kept_def)
  have k2: "kept R m w1 (m1\<lparr>world := w1\<rparr>)" for w1 by (rule kept_trans [OF k kept_world])
  show ?thesis
  proof (cases matched)
    case True
    show ?thesis using in_world_kept [OF k, of "destroy u"] f(2)
      by (cases "destroy u w") (auto simp: True cs_switch_case_pre_def f in_world_def rel_result_simps k2)
  next
    case False
    have "set_flag EXECUTE (m1\<lparr>world := w1, switch_stack := ss\<rparr>) = m1\<lparr>world := w1, switch_stack := ss\<rparr>" for w1 ss
      using set_execute [of "m1\<lparr>world := w1\<rparr>" ss] r by simp
    then show ?thesis
      by (cases "case_equal P v u w") (auto simp: False cs_switch_case_pre_def f rel_result_simps k2)
  qed
qed

lemma sim_case:
  assumes e: "sim_expr P g tk R n e" and s: "sim_stmt P g tk R n s" and cs: "sim_cases P g tk R n cs"
  shows "sim_cases P g tk R n (Case e s cs)"
  unfolding sim_cases_def exec_cases.simps run_cases.simps
proof (intro allI impI, elim exE)
  fix m :: "('c, 'd) machine" and v b rest i l w c0
  assume ok: "ok_cases tk R (Case e s cs)" and m: "can_run tk R (calls_cases (Case e s cs)) m" "fresh tk (loops_cases (Case e s cs)) m"
    and css: "css m = EXECUTE # c0" and st: "switch_stack m = entry v b # rest"
    and f: "function_name (fstate m) = i" "loop_nest_level (fstate m) = l" "world m = w"
  have r: "ready m" using m by (auto dest: can_run_ready)
  have c: "can_run tk R (calls_expr e) m" using m by simp
  show "rel_result (after_cases R (loops_cases (Case e s cs)) m v rest)
     (bind_run (exec_expr P n e w) (\<lambda>(v1, w1).
       bind_run (if b then bind_run (destroy v1 w1) (\<lambda>w2. Ok (True, w2)) else case_equal P v v1 w1) (\<lambda>(b, w2).
         if b then bind_run (exec_stmt P n (i, l, s) w2) (\<lambda>(c, w3).
           if c = Normal then exec_cases P n (i, l, v, True, cs) w3 else Ok (c, w3))
         else exec_cases P n (i, l, v, False, cs) w2)))
     (bind_run (run_expr P g n e m) (\<lambda>(v1, m1).
       bind_run (cs_switch_case_pre P (Some v1) m1) (\<lambda>m2.
       bind_run (run_stmt P g n s m2) (\<lambda>m3. run_cases P g n cs (cs_switch_case_post m3)))))"
  proof (rule rel_bind [OF sim_exprD [OF e c f(3)]], goal_cases)
    case (1 x y)
    then obtain u w1 m1 where xy: "x = (u, w1)" "y = (u, m1)" and k1: "kept R m w1 m1" by (elim value_keptE)
    show ?case unfolding xy prod.case
    proof (rule rel_bind [OF case_pre_some [OF k1 r st]], goal_cases)
      case (1 x m2)
      obtain b2 w2 where x: "x = (b2, w2)" by (cases x)
      let ?m = "m1\<lparr>world := w2\<rparr>"
      have k: "kept R m w2 ?m" using 1 x by simp
      note kf = kept_fields [OF k]
      have m': "can_run tk R (calls_stmt s \<union> calls_cases cs) ?m" "ready ?m"
        using kept_can_run [OF k m(1)] by (auto dest: can_run_ready)
      have fr: "fresh tk (loops_stmt s \<union> loops_cases cs) ?m" using m(2) kf(3,5) fresh_cong [of tk _ m ?m] by auto
      show ?case
      proof (cases b2)
        case True
        let ?q = "?m\<lparr>switch_stack := entry v True # rest\<rparr>"
        have "rel_result (after_cases R (loops_stmt s \<union> loops_cases cs) ?q v rest)
          (bind_run (exec_stmt P n (i, l, s) w2) (\<lambda>(c, w1). if c = Normal then exec_cases P n (i, l, v, True, cs) w1 else Ok (c, w1)))
          (bind_run (run_stmt P g n s ?q) (\<lambda>m1. run_cases P g n cs (cs_switch_case_post m1)))"
          by (rule case_taken [OF s cs]) (use ok m' fr css f kf in simp_all)
        moreover have "m2 = ?q" using 1 x True by simp
        moreover have "after_cases R (loops_stmt s \<union> loops_cases cs) m v rest (c, w3) m3"
          if "after_cases R (loops_stmt s \<union> loops_cases cs) ?q v rest (c, w3) m3" for c w3 m3
          by (rule kept_after_cases [OF k after_cases_base [OF that]])
        ultimately show ?thesis by (auto simp: x True elim!: rel_mono)
      next
        case False
        then have m2: "m2 = set_flag DONT_EXECUTE ?m" using 1 x by simp
        have b: "b = False" using 1 x False by simp
        have "idle m2" unfolding m2 by (rule ready_dont [OF m'(2)])
        moreover have "fresh tk (loops_stmt s) m2" unfolding m2 using fr by (auto simp: fresh_def agrees_def set_flag_def Let_def)
        ultimately obtain mk where sk: "run_stmt P g n s m2 = Ok (m2\<lparr>marks := mk\<rparr>)" and "passed tk (loops_stmt s) (marks m2) mk"
          using skip_stmt(1) [of m2 tk R s P g n] ok by auto
        then have p: "passed tk (loops_stmt s) (marks ?m) mk" by (simp add: m2 set_flag_def Let_def)
        let ?q = "?m\<lparr>marks := mk\<rparr>"
        have q: "after R (loops_stmt s) m (Normal, w2) ?q" using after_marks [OF after_kept [OF k r, of "{}"] p] by simp
        have top: "cs_switch_case_post (m2\<lparr>marks := mk\<rparr>) = ?q"
          using m'(2) css kf(2) by (simp add: m2 cs_switch_case_post_def ready_def state_defs)
        have c1: "can_run tk R (calls_cases cs) ?q" using after_normal [OF q m(1)] by simp
        have "rel_result (after_cases R (loops_cases cs) ?q v rest) (exec_cases P n (i, l, v, False, cs) w2) (run_cases P g n cs ?q)"
          using cs ok c1 fr css kf st f b unfolding sim_cases_def by auto
        moreover have "after_cases R (loops_stmt s \<union> loops_cases cs) m v rest (c, w3) m3"
          if "after_cases R (loops_cases cs) ?q v rest (c, w3) m3" for c w3 m3
          using that after_trans [OF q, of "loops_cases cs" c w3] kf(8) unfolding after_cases_def by auto
        ultimately show ?thesis by (auto simp: x False sk top elim!: rel_mono)
      qed
    qed
  qed
qed


definition switch_base :: "'f pval \<Rightarrow> ('f, 'u) machine \<Rightarrow> ('f, 'u) machine" where
  "switch_base v m = (push_flag (nest 1 m))\<lparr>switch_stack := entry v False # switch_stack m\<rparr>"

lemma switch_start: "ready m \<Longrightarrow> cs_switch_start v m = switch_base v m"
  by (simp add: cs_switch_start_def switch_base_def entry_def ready_def state_defs)

text \<open>\<open>cs_switch_end\<close> before the value is destroyed.\<close>

definition left_switch :: "('f, 'u) machine \<Rightarrow> ('f, 'u) machine" where
  "left_switch m = pop_flag (if \<not> Execute m \<and> loop_change_level (fstate m) = loop_nest_level (fstate m)
     then m\<lparr>fstate := (fstate m)\<lparr>loop_change_type := DO_NOTHING\<rparr>\<rparr> else m)"

lemma left_switch_completed:
  assumes "ready m" "proper (loop_nest_level (fstate m) + 1) c rv"
    "m1 = (completed c f l (switch_base v m))\<lparr>world := w, marks := mk, return_value := rv, switch_stack := entry v b # switch_stack m,
       ExecuteFlag := f1\<rparr>"
  shows "nest (- 1) ((left_switch m1)\<lparr>world := w1, switch_stack := switch_stack m\<rparr>) =
    (completed (after_switch (loop_nest_level (fstate m) + 1) c) EXECUTE (case c of Leave_loop ty k \<Rightarrow> k | _ \<Rightarrow> l) m)
      \<lparr>world := w1, marks := mk, return_value := rv\<rparr>"
  using assms(1,2) unfolding assms(3)
  by (cases c) (auto simp: left_switch_def completed_def switch_base_def after_switch_def ready_def state_defs control_constants)

lemma restored:
  assumes "m\<lparr>switch_stack := ss, ExecuteFlag := f\<rparr> = m2"
  shows "m = m2\<lparr>switch_stack := switch_stack m, ExecuteFlag := ExecuteFlag m\<rparr>"
  unfolding assms [symmetric] by simp

lemma switch_end:
  assumes a: "after_cases R L (switch_base v m) v (switch_stack m) (c, w) m1" and m: "ready m"
  shows "rel_result (after R L m) (bind_run (destroy v w) (\<lambda>w1. Ok (after_switch (loop_nest_level (fstate m) + 1) c, w1)))
    (cs_switch_end v m1)"
proof -
  let ?b = "switch_base v m"
  obtain b f0 where ss: "switch_stack m1 = entry v b # switch_stack m"
    and "after R L ?b (c, w) (m1\<lparr>switch_stack := switch_stack ?b, ExecuteFlag := f0\<rparr>)" using a by (auto simp: after_cases_def)
  then obtain mk rv l f where
    e: "m1\<lparr>switch_stack := switch_stack ?b, ExecuteFlag := f0\<rparr> = (completed c f l ?b)\<lparr>world := w, marks := mk, return_value := rv\<rparr>"
    and g: "grows (L \<union> (\<Union>f. R f)) (marks m) mk" and p: "proper (loop_nest_level (fstate m) + 1) c rv"
    by (elim afterE) (simp add: switch_base_def nest_def)
  have m1: "m1 = (completed c f l ?b)\<lparr>world := w, marks := mk, return_value := rv, switch_stack := entry v b # switch_stack m,
      ExecuteFlag := ExecuteFlag m1\<rparr>"
    using restored [OF e] ss by simp
  have "cs_switch_end v m1 = bind_run (in_world (destroy v) (left_switch m1)) (\<lambda>m3. Ok (nest (- 1) (m3\<lparr>switch_stack := switch_stack m\<rparr>)))"
    using ss by (auto simp: cs_switch_end_def left_switch_def pop_flag_def Let_def)
  moreover have "world (left_switch m1) = w" by (subst m1) (simp add: left_switch_def pop_flag_def Let_def)
  moreover have "after R L m (after_switch (loop_nest_level (fstate m) + 1) c, w1)
      (nest (- 1) ((left_switch m1)\<lparr>world := w1, switch_stack := switch_stack m\<rparr>))" for w1
    by (rule afterI [OF left_switch_completed [OF m p m1] g]) (use p in \<open>cases c; auto simp: after_switch_def\<close>)+
  ultimately show ?thesis by (cases "destroy v w") (auto simp: in_world_def rel_result_simps)
qed

lemma switch_base_simps [simp]:
  "world (switch_base v m) = world m" "switch_stack (switch_base v m) = entry v False # switch_stack m"
  "loop_nest_level (fstate (switch_base v m)) = loop_nest_level (fstate m) + 1"
  "function_name (fstate (switch_base v m)) = function_name (fstate m)"
  "can_run tk R C (switch_base v m) \<longleftrightarrow> can_run tk R C m" "fresh tk L (switch_base v m) \<longleftrightarrow> fresh tk L m"
  by (simp_all add: switch_base_def nest_def [of 1 m] push_flag_def [of "nest 1 m"])
    (simp_all add: can_run_def ready_def agrees_def fresh_def SHOULD_EXECUTE_def)

lemma sim_switch:
  assumes e: "sim_expr P g tk R n e" and cs: "sim_cases P g tk R n cs"
  shows "sim_stmt P g tk R n (Switch e cs)"
  unfolding sim_stmt_def exec_stmt.simps run_stmt.simps
proof (intro allI impI rel_bind [OF sim_exprD [OF e _ refl]], goal_cases)
  case (2 m x y)
  have r: "ready m" using 2(2) by (rule can_run_ready)
  obtain v w1 m1 where xy: "x = (v, w1)" "y = (v, m1)" and k: "kept R m w1 m1" using 2(4) by (elim value_keptE)
  note kf = kept_fields [OF k]
  have m1: "can_run tk R (calls_cases cs) m1" "ready m1" using kept_can_run [OF k 2(2)] by (auto dest: can_run_ready)
  have fr: "fresh tk (loops_cases cs) m1" using 2(3) kf(3,5) fresh_cong [of tk _ m m1] by auto
  have css: "css (switch_base v m1) = EXECUTE # css m1" using m1(2) by (simp add: switch_base_def push_flag_def nest_def ready_fields)
  have "rel_result (after_cases R (loops_cases cs) (switch_base v m1) v (switch_stack m1))
     (exec_cases P n (function_name (fstate m), loop_nest_level (fstate m) + 1, v, False, cs) w1)
     (run_cases P g n cs (switch_base v m1))"
    by (rule sim_casesD [OF cs _ _ _ css]) (use m1(1) fr 2(1) kf(1,4) in simp_all)
  then show ?case unfolding xy prod.case switch_start [OF m1(2)]
  proof (rule rel_bind, goal_cases)
    case (1 x m2)
    obtain c w2 where x: "x = (c, w2)" by (cases x)
    from switch_end [OF 1 [unfolded x] m1(2)] kf(4) show ?case
      by (auto simp: x intro: kept_after [OF k] elim!: rel_mono)
  qed
qed simp

end
