(* ===== verification/Control_Loops.thy ===== *)
theory Control_Loops
  imports Control_Branches
begin

text \<open>
  The simulation for the loops. \<open>ended\<close> is what all loops do after their statement, apart from the jump; \<open>again\<close> says
  whether there is one. A \<open>for\<close> in its later iterations is \<open>deeper\<close> by its number on \<open>for_stack\<close>.
\<close>

subsection \<open>Loops\<close>

definition body_base :: "('f, 'u) machine \<Rightarrow> ('f, 'u) machine" where
  "body_base m = push_flag (nest 1 m)"

text \<open>Whether a further iteration follows, and the end of the loop or of the iteration without the jump.\<close>

definition again :: "('f, 'u) machine \<Rightarrow> bool" where
  "again m \<longleftrightarrow> Execute m \<or> (loop_change_type (fstate m) = DO_CONTINUE \<and> loop_change_level (fstate m) = loop_nest_level (fstate m))"

definition ended :: "('f, 'u) machine \<Rightarrow> ('f, 'u) machine" where
  "ended m = nest (- 1) (pop_flag (if \<not> Execute m \<and> loop_change_type (fstate m) \<noteq> DO_NOTHING \<and>
     loop_change_level (fstate m) = loop_nest_level (fstate m) then clear_change m else m))"

definition loop_completion :: "int \<Rightarrow> 'f completion \<Rightarrow> 'f completion" where
  "loop_completion level c = (case after_body level c of None \<Rightarrow> Normal | Some c1 \<Rightarrow> c1)"

lemma jump_back_fields [simp]:
  "jumped (jump_back ty token m) = Some token" "token_at (jump_back ty token m) = (token_at m)(token := ty)"
  "marks (jump_back ty token m) = marks m"
  by (simp_all add: jump_back_def)

lemma end_while: "cs_end_while token m = (if again m then jump_back CONTINUED_WHILE token (ended m) else ended m)"
  by (auto simp: cs_end_while_def again_def ended_def state_defs control_constants)

lemma body_base_simps [simp]:
  "world (body_base m) = world m" "loop_nest_level (fstate (body_base m)) = loop_nest_level (fstate m) + 1"
  "function_name (fstate (body_base m)) = function_name (fstate m)" "ready (body_base m) \<longleftrightarrow> ready m"
  "can_run tk R C (body_base m) \<longleftrightarrow> can_run tk R C m" "fresh tk L (body_base m) \<longleftrightarrow> fresh tk L m"
  "marks (body_base m) = marks m" "token_at (body_base m) = token_at m" "for_stack (body_base m) = for_stack m"
  "jumped (body_base m) = jumped m"
  by (simp_all add: body_base_def) (simp_all add: nest_def push_flag_def)

lemma loop_completion_cases [simp]:
  "loop_completion level Normal = Normal" "loop_completion level (Returned v) = Returned v"
  "loop_completion level (Leave_loop ty k) = (if k = level then Normal else Leave_loop ty k)"
  by (simp_all add: loop_completion_def after_body_def)

lemma ended_completed:
  assumes "ready m" "proper (loop_nest_level (fstate m) + 1) c rv"
  shows "\<exists>l1. ended ((completed c f l (body_base m))\<lparr>world := w, marks := mk, return_value := rv\<rparr>) =
    (completed (loop_completion (loop_nest_level (fstate m) + 1) c) EXECUTE l1 m)\<lparr>world := w, marks := mk, return_value := rv\<rparr>"
    (is "\<exists>l1. ?P l1")
proof (cases c)
  case Normal
  then have "?P l" using assms(1)
    by (simp add: ended_def completed_def body_base_def ready_def state_defs)
  then show ?thesis ..
next
  case (Leave_loop ty k)
  then have ty: "ty \<noteq> DO_NOTHING" using assms(2) by (auto simp: control_constants)
  show ?thesis
  proof (cases "k = loop_nest_level (fstate m) + 1")
    case True
    then have "?P 0" using assms(1) ty
      by (simp add: Leave_loop ended_def completed_def body_base_def ready_def state_defs)
    then show ?thesis ..
  next
    case False
    then have "?P l" using assms(1) ty
      by (simp add: Leave_loop ended_def completed_def body_base_def ready_def state_defs)
    then show ?thesis ..
  qed
next
  case (Returned v)
  then have "?P l" using assms(1)
    by (simp add: ended_def completed_def body_base_def ready_def state_defs)
  then show ?thesis ..
qed

lemma proper_loop:
  "proper (l + 1) c rv \<Longrightarrow> proper l (loop_completion (l + 1) c) rv"
  by (cases c) auto

lemma ended_after:
  assumes "after R L (body_base m) (c, w) m1" "ready m"
  shows "after R L m (loop_completion (loop_nest_level (fstate m) + 1) c, w) (ended m1)"
proof -
  from assms(1) obtain mk rv l f where m1: "m1 = (completed c f l (body_base m))\<lparr>world := w, marks := mk, return_value := rv\<rparr>"
    and g: "grows (L \<union> (\<Union>f. R f)) (marks m) mk" and p: "proper (loop_nest_level (fstate m) + 1) c rv"
    by (rule afterE) simp
  from ended_completed [OF assms(2) p] obtain l1 where
    "ended m1 = (completed (loop_completion (loop_nest_level (fstate m) + 1) c) EXECUTE l1 m)\<lparr>world := w, marks := mk, return_value := rv\<rparr>"
    unfolding m1 by blast
  from afterI [OF this g proper_loop [OF p]] show ?thesis by simp
qed

lemma again_iff:
  assumes "after R L (body_base m) (c, w) m1" "ready m"
  shows "again m1 \<longleftrightarrow> after_body (loop_nest_level (fstate m) + 1) c = None"
  using assms by (cases c) (auto simp: after_def completed_def again_def after_body_def body_base_def push_flag_def nest_def ready_def
      SHOULD_EXECUTE_def control_constants)

lemma loop_completion_simps:
  "after_body level c = None \<Longrightarrow> loop_completion level c = Normal" "after_body level c = Some c1 \<Longrightarrow> loop_completion level c = c1"
  by (simp_all add: loop_completion_def)

text \<open>The state at the first word of a loop: the first time, or after a jump back.\<close>

definition loop_entry :: "int \<Rightarrow> int \<Rightarrow> nat \<Rightarrow> ('f, 'u) machine \<Rightarrow> ('f, 'u) machine \<Rightarrow> bool" where
  "loop_entry ty J token m e \<longleftrightarrow> e = m \<or> e = jump_back J token m"

lemma loop_entry_starts: "loop_entry ty J token m e \<Longrightarrow> token_at m token = ty \<Longrightarrow> starts ty token e"
  by (auto simp: loop_entry_def starts_def)

lemma loop_entry_landed:
  assumes "loop_entry ty J token m e" "jumped m = None"
  shows "\<exists>t. landed e = m\<lparr>token_at := (token_at m)(token := t)\<rparr>"
proof (cases "e = m")
  case True
  then show ?thesis using assms(2) by (intro exI [of _ "token_at m token"]) (simp add: landed_def)
next
  case False
  then show ?thesis using assms by (intro exI [of _ J]) (simp add: loop_entry_def landed_def jump_back_def)
qed

lemma kept_token:
  assumes "kept R (m\<lparr>token_at := (token_at m)(token := t)\<rparr>) w m1" "token_at m token = ty"
  shows "kept R m w (m1\<lparr>token_at := (token_at m1)(token := ty)\<rparr>)"
proof -
  obtain mk rv where "m1 = m\<lparr>token_at := (token_at m)(token := t), world := w, marks := mk, return_value := rv\<rparr>"
    and g: "grows (\<Union>f. R f) (marks m) mk" using assms(1) by (auto simp: kept_def)
  then have "m1\<lparr>token_at := (token_at m1)(token := ty)\<rparr> = m\<lparr>world := w, marks := mk, return_value := rv\<rparr>"
    using assms(2) by (simp add: fun_upd_idem)
  with g show ?thesis unfolding kept_def by blast
qed

lemma start_while:
  assumes k: "kept R (m\<lparr>token_at := (token_at m)(token := t)\<rparr>) w m1" and m: "ready m" "token_at m token = WHILE"
  shows "rel_result (\<lambda>(b, w2) m2. \<exists>m3. kept R m w2 m3 \<and> m2 = (if b then body_base m3 else set_flag DONT_EXECUTE (body_base m3)))
    (truth_value P v w) (cs_start_while P token v m1)"
proof -
  let ?m = "m1\<lparr>token_at := (token_at m1)(token := WHILE)\<rparr>"
  have k2: "kept R m w ?m" by (rule kept_token [OF k m(2)])
  have r: "ready m1" using k m(1) by (auto simp: kept_def)
  have q: "(push_flag (nest 1 m1))\<lparr>token_at := (token_at m1)(token := WHILE)\<rparr> = body_base ?m"
    by (simp add: body_base_def push_flag_def nest_def)
  have e: "cs_start_while P token v m1 = bind_run (test P v (body_base ?m)) (\<lambda>(b, v, m3).
      in_world (destroy v) (set_flag (if b then EXECUTE else DONT_EXECUTE) m3))"
    using r by (simp add: cs_start_while_def Let_def q ready_fields)
  have w: "world (body_base ?m) = w" using kept_fields(1) [OF k] by simp
  have "set_flag EXECUTE ((body_base ?m)\<lparr>world := w1\<rparr>) = body_base (?m\<lparr>world := w1\<rparr>)"
    "(body_base ?m)\<lparr>world := w1\<rparr> = body_base (?m\<lparr>world := w1\<rparr>)" for w1
    using r by (simp_all add: body_base_def ready_def state_defs)
  then show ?thesis unfolding e
    by (intro rel_bind_right [OF test_truth [OF w]])
      (auto simp: tested_def intro!: exI [of _ "?m\<lparr>world := _\<rparr>"] kept_trans [OF k2 kept_world])
qed

lemma next_token [simp]:
  "next_token_is ty (jump_back ty token m)" "jumped m = None \<Longrightarrow> \<not> next_token_is ty m"
  by (simp_all add: next_token_is_def)

text \<open>The body when the condition is false.\<close>

lemma body_skip:
  assumes m: "ready m" and s: "ok_stmt tk R s" "fresh tk (loops_stmt s) m"
  obtains m1 mk where "run_stmt P g n s (set_flag DONT_EXECUTE (body_base m)) = Ok m1"
    "\<not> again m1" "ended m1 = m\<lparr>marks := mk\<rparr>" "marks m1 = mk" "passed tk (loops_stmt s) (marks m) mk"
proof -
  let ?m = "set_flag DONT_EXECUTE (body_base m)"
  have "idle ?m" using ready_dont [of "body_base m"] m by simp
  moreover have "fresh tk (loops_stmt s) ?m" using s(2) by (auto simp: fresh_def agrees_def set_flag_def Let_def)
  ultimately obtain mk where "run_stmt P g n s ?m = Ok (?m\<lparr>marks := mk\<rparr>)" and "passed tk (loops_stmt s) (marks ?m) mk"
    using skip_stmt(1) [of ?m tk R s P g n] s(1) by auto
  moreover have "\<not> again (?m\<lparr>marks := mk\<rparr>)" "ended (?m\<lparr>marks := mk\<rparr>) = m\<lparr>marks := mk\<rparr>" "marks ?m = marks m"
    using m by (simp_all add: again_def ended_def body_base_def ready_def state_defs control_constants)
  ultimately show ?thesis by (intro that [of "?m\<lparr>marks := mk\<rparr>" mk]) simp_all
qed

text \<open>The body when the condition is true: how the loop goes on.\<close>

definition iterated :: "('fn \<Rightarrow> nat set) \<Rightarrow> nat set \<Rightarrow> ('f, 'u) machine \<Rightarrow> 'f completion \<times> ('f, 'u) world \<Rightarrow>
    ('f, 'u) machine \<Rightarrow> bool" where
  "iterated R L m x m1 \<longleftrightarrow> (let level = loop_nest_level (fstate m) + 1 in
     after R L m (loop_completion level (fst x), snd x) (ended m1) \<and> (again m1 \<longleftrightarrow> after_body level (fst x) = None))"

lemma body_run:
  assumes s: "sim_stmt P g tk R n s" "ok_stmt tk R s" and m: "can_run tk R (calls_stmt s) m" "fresh tk (loops_stmt s) m"
    and k: "kept R m w m1" and i: "function_name (fstate m) = i" "loop_nest_level (fstate m) = l"
  shows "rel_result (iterated R (loops_stmt s) m) (exec_stmt P n (i, l + 1, s) w) (run_stmt P g n s (body_base m1))"
proof -
  have m1: "can_run tk R (calls_stmt s) m1" "ready m1" using kept_can_run [OF k m(1)] by (auto dest: can_run_ready)
  have fr: "fresh tk (loops_stmt s) m1" using m(2) kept_fields(3,5) [OF k] fresh_cong [of tk _ m m1] by auto
  have f: "fstate m1 = fstate m" "world m1 = w" using kept_fields(1,4) [OF k] by simp_all
  have "rel_result (after R (loops_stmt s) (body_base m1)) (exec_stmt P n (i, l + 1, s) w) (run_stmt P g n s (body_base m1))"
    by (rule sim_stmtD [OF s]) (use m1 fr f i in simp_all)
  then show ?thesis
  proof (rule rel_mono)
    fix x m2 assume "after R (loops_stmt s) (body_base m1) x m2"
    then have a: "after R (loops_stmt s) (body_base m1) (fst x, snd x) m2" by simp
    show "iterated R (loops_stmt s) m x m2"
      using kept_after [OF k ended_after [OF a m1(2)]] again_iff [OF a m1(2)] f(1) by (simp add: iterated_def Let_def)
  qed
qed

lemma sim_while_entry:
  assumes e: "\<And>k. k \<le> n \<Longrightarrow> sim_expr P g tk R k e" and s: "\<And>k. k \<le> n \<Longrightarrow> sim_stmt P g tk R k s"
    and ok: "ok_stmt tk R (While token e s)"
  shows "can_run tk R (calls_stmt (While token e s)) m \<Longrightarrow> fresh tk (loops_stmt (While token e s)) m \<Longrightarrow>
    loop_entry WHILE CONTINUED_WHILE token m en \<Longrightarrow>
    rel_result (after R (loops_stmt (While token e s)) m)
      (exec_stmt P n (function_name (fstate m), loop_nest_level (fstate m), While token e s) (world m))
      (run_stmt P g n (While token e s) en)"
  using e s
proof (induction n arbitrary: m en rule: less_induct)
  case (less n)
  note m = less.prems(1) and fr = less.prems(2)
  have r: "ready m" and tok: "token_at m token = WHILE" using m fr ok by (auto dest: can_run_ready)
  obtain t where l: "landed en = m\<lparr>token_at := (token_at m)(token := t)\<rparr>"
    using loop_entry_landed [OF less.prems(3)] r by (auto simp: ready_fields)
  have c: "can_run tk R (calls_expr e) (landed en)" "world (landed en) = world m"
    using m ok unfolding l by (auto simp: can_run_def agrees_def ready_def SHOULD_EXECUTE_def)
  show ?case unfolding exec_stmt.simps(5) [of P n] run_stmt.simps(5) [of P g n _ _ _ en] if_P [OF loop_entry_starts [OF less.prems(3) tok]]
  proof (rule rel_bind [OF sim_exprD [OF less.prems(4) [OF order_refl] c]], goal_cases)
    case (1 x y)
    then obtain v w1 m1 where xy: "x = (v, w1)" "y = (v, m1)" and k: "kept R (landed en) w1 m1" by (elim value_keptE)
    show ?case unfolding xy prod.case
    proof (rule rel_bind [OF start_while [OF k [unfolded l] r tok]], goal_cases)
      case (1 x m2)
      then obtain b w2 m3 where x: "x = (b, w2)" and k3: "kept R m w2 m3"
        and m2: "m2 = (if b then body_base m3 else set_flag DONT_EXECUTE (body_base m3))" by (cases x) auto
      have sm: "can_run tk R (calls_stmt s) m" "fresh tk (loops_stmt s) m" and ok': "ok_stmt tk R s" using m fr ok by simp_all
      show ?case
      proof (cases b)
        case False
        have m3: "ready m3" "fresh tk (loops_stmt s) m3" "jumped m3 = None"
          using kept_can_run [OF k3 m] fr kept_fields [OF k3] fresh_cong [of tk _ m m3] r by (auto dest: can_run_ready simp: ready_fields)
        obtain m4 mk where sk: "run_stmt P g n s (set_flag DONT_EXECUTE (body_base m3)) = Ok m4" "\<not> again m4"
          "ended m4 = m3\<lparr>marks := mk\<rparr>" and p: "passed tk (loops_stmt s) (marks m3) mk"
          by (rule body_skip [OF m3(1) ok' m3(2)])
        have "after R (loops_stmt s) m (Normal, w2) (m3\<lparr>marks := mk\<rparr>)"
          using after_marks [OF after_kept [OF k3 r, of "{}"] p] by simp
        then show ?thesis using sk m3(3) by (auto simp: x False m2 end_while intro: after_mono)
      next
        case True
        then have nb: "\<not> \<not> b" by simp
        show ?thesis unfolding x prod.case if_not_P [OF nb] m2 if_P [OF True]
        proof (rule rel_bind [OF body_run [OF less.prems(5) [OF order_refl] ok' sm k3 refl refl]], goal_cases)
          case (1 x m4)
          obtain c w3 where x: "x = (c, w3)" by (cases x)
          have cl: "after R (loops_stmt s) m (loop_completion (loop_nest_level (fstate m) + 1) c, w3) (ended m4)"
            and ag: "again m4 \<longleftrightarrow> after_body (loop_nest_level (fstate m) + 1) c = None"
            using 1 by (simp_all add: x iterated_def Let_def)
          show ?case
          proof (cases "after_body (loop_nest_level (fstate m) + 1) c")
            case (Some c1)
            have "jumped (ended m4) = None" using after_fields(8) [OF cl] r by (simp add: ready_fields)
            then show ?thesis using Some cl ag by (auto simp: x end_while loop_completion_def intro: after_mono)
          next
            case None
            have cl1: "after R (loops_stmt s) m (Normal, w3) (ended m4)" using cl None by (simp add: loop_completion_def)
            show ?thesis
            proof (cases n)
              case 0
              then show ?thesis using None ag by (simp add: x end_while rel_result_simps)
            next
              case (Suc k)
              have "rel_result (after R (loops_stmt (While token e s)) (ended m4))
                  (exec_stmt P k (function_name (fstate m), loop_nest_level (fstate m), While token e s) w3)
                  (run_stmt P g k (While token e s) (jump_back CONTINUED_WHILE token (ended m4)))"
                using less.IH [of k "ended m4" "jump_back CONTINUED_WHILE token (ended m4)"] less.prems(4,5) Suc
                  after_fields(1,10,11) [OF cl1] after_normal [OF cl1 m] after_fresh [OF cl1] fr by (simp add: loop_entry_def)
              then have "rel_result (after R (loops_stmt (While token e s)) m)
                  (exec_stmt P k (function_name (fstate m), loop_nest_level (fstate m), While token e s) w3)
                  (run_stmt P g k (While token e s) (jump_back CONTINUED_WHILE token (ended m4)))"
                by (rule rel_mono) (rule after_next [OF cl1], auto)
              then show ?thesis using None ag
                by (simp add: x end_while Suc Let_def del: exec_stmt.simps(5) run_stmt.simps(5))
            qed
          qed
        qed
      qed
    qed
  qed
qed


lemma sim_while:
  assumes e: "\<And>k. k \<le> n \<Longrightarrow> sim_expr P g tk R k e" and s: "\<And>k. k \<le> n \<Longrightarrow> sim_stmt P g tk R k s"
  shows "sim_stmt P g tk R n (While token e s)"
  unfolding sim_stmt_def using sim_while_entry [OF e s] by (simp add: loop_entry_def del: exec_stmt.simps run_stmt.simps)

lemma start_do:
  assumes "landed en = m\<lparr>token_at := (token_at m)(token := t)\<rparr>" "ready m" "token_at m token = DO"
  shows "cs_start_do_while token (landed en) = body_base m"
proof -
  have "(push_flag (nest 1 (landed en)))\<lparr>token_at := (token_at (landed en))(token := DO)\<rparr> = body_base m"
    using assms(3) by (simp add: assms(1) body_base_def push_flag_def nest_def fun_upd_idem)
  then show ?thesis using assms(2) by (simp add: cs_start_do_while_def Let_def) (simp add: assms(1) push_flag_def nest_def ready_fields)
qed

lemma do_again:
  assumes a: "after R L (body_base m) (c, w) m1" and m: "ready m" "after_body (loop_nest_level (fstate m) + 1) c = None"
  shows "after R L (body_base m) (Normal, w) (cs_force_eval_do_while m1)"
proof (cases c)
  case Normal
  then have "loop_change_type (fstate m1) \<noteq> DO_CONTINUE"
    using a m by (auto simp: after_def completed_def body_base_def nest_def push_flag_def ready_def SHOULD_EXECUTE_def control_constants)
  then show ?thesis using a Normal by (simp add: cs_force_eval_do_while_def)
next
  case (Leave_loop ty k)
  then have k: "k = loop_nest_level (fstate m) + 1" "ty = DO_CONTINUE" using m(2) by (auto simp: after_body_def split: if_splits)
  from a obtain mk rv l f where m1: "m1 = (completed c f l (body_base m))\<lparr>world := w, marks := mk, return_value := rv\<rparr>"
    and g: "grows (L \<union> (\<Union>f. R f)) (marks (body_base m)) mk" by (rule afterE)
  show ?thesis
  proof (rule afterI)
    show "cs_force_eval_do_while m1 = (completed Normal EXECUTE 0 (body_base m))\<lparr>world := w, marks := mk, return_value := rv\<rparr>"
      using m(1) k by (simp add: m1 Leave_loop cs_force_eval_do_while_def completed_def body_base_def ready_def state_defs)
    show "grows (L \<union> (\<Union>f. R f)) (marks (body_base m)) mk" by (rule g)
  qed simp_all
next
  case (Returned v)
  then show ?thesis using m(2) by (simp add: after_body_def)
qed

lemma do_stop:
  assumes a: "after R L (body_base m) (c, w) m1" and m: "ready m" "after_body (loop_nest_level (fstate m) + 1) c = Some c1"
  shows "cs_force_eval_do_while m1 = m1" "idle m1" "cs_end_do_while P token v m1 = Ok (ended m1)" "\<not> again m1"
proof -
  have c: "c \<noteq> Normal" using m(2) by (auto simp: after_body_def)
  show ag: "\<not> again m1" using again_iff [OF a m(1)] m(2) by simp
  then show "cs_force_eval_do_while m1 = m1" by (auto simp: again_def cs_force_eval_do_while_def)
  show "idle m1" by (rule after_idle [OF a c]) (use m(1) in simp)
  then show "cs_end_do_while P token v m1 = Ok (ended m1)" by (simp add: cs_end_do_while_def ended_def idle_fields)
qed

lemma end_do_test:
  assumes "ready m1" "world m1 = w"
  shows "rel_result (\<lambda>(b, w1) m2. m2 = (if b then jump_back CONTINUED_DOWHILE token (ended (m1\<lparr>world := w1\<rparr>)) else ended (m1\<lparr>world := w1\<rparr>)))
    (truth_value P v w) (cs_end_do_while P token v m1)"
  unfolding cs_end_do_while_def if_P [OF ready_fields(1) [OF assms(1)]] bind_run_assoc
  by (rule rel_bind_right [OF test_truth [OF assms(2)]])
    (use assms(1) in \<open>auto simp: tested_def ended_def ready_def state_defs\<close>)

lemma sim_do_entry:
  assumes e: "\<And>k. k \<le> n \<Longrightarrow> sim_expr P g tk R k e" and s: "\<And>k. k \<le> n \<Longrightarrow> sim_stmt P g tk R k s"
    and ok: "ok_stmt tk R (Do_while token s e)"
  shows "can_run tk R (calls_stmt (Do_while token s e)) m \<Longrightarrow> fresh tk (loops_stmt (Do_while token s e)) m \<Longrightarrow>
    loop_entry DO CONTINUED_DOWHILE token m en \<Longrightarrow>
    rel_result (after R (loops_stmt (Do_while token s e)) m)
      (exec_stmt P n (function_name (fstate m), loop_nest_level (fstate m), Do_while token s e) (world m))
      (run_stmt P g n (Do_while token s e) en)"
  using e s
proof (induction n arbitrary: m en rule: less_induct)
  case (less n)
  note m = less.prems(1) and fr = less.prems(2)
  have r: "ready m" and tok: "token_at m token = DO" using m fr ok by (auto dest: can_run_ready)
  obtain t where "landed en = m\<lparr>token_at := (token_at m)(token := t)\<rparr>"
    using loop_entry_landed [OF less.prems(3)] r by (auto simp: ready_fields)
  note start = start_do [OF this r tok]
  have sm: "can_run tk R (calls_stmt s) (body_base m)" "fresh tk (loops_stmt s) (body_base m)" "ok_stmt tk R s" using m fr ok by simp_all
  have f: "function_name (fstate (body_base m)) = function_name (fstate m)"
    "loop_nest_level (fstate (body_base m)) = loop_nest_level (fstate m) + 1" "world (body_base m) = world m" by simp_all
  show ?case unfolding exec_stmt.simps(6) [of P n] run_stmt.simps(6) [of P g n _ _ _ en] if_P [OF loop_entry_starts [OF less.prems(3) tok]] start
  proof (rule rel_bind [OF sim_stmtD [OF less.prems(5) [OF order_refl] sm(3,1,2) f]], goal_cases)
    case (1 x m1)
    obtain c w1 where x: "x = (c, w1)" by (cases x)
    note a1 = 1 [unfolded x]
    show ?case
    proof (cases "after_body (loop_nest_level (fstate m) + 1) c")
      case (Some c1)
      note st = do_stop [OF a1 r Some]
      have cl: "after R (loops_stmt s) m (c1, w1) (ended m1)" using ended_after [OF a1 r] Some by (simp add: loop_completion_def)
      have j: "jumped (ended m1) = None" using after_fields(8) [OF cl] r by (simp add: ready_fields)
      obtain v where "run_expr P g n e m1 = Ok (v, m1)" using skip_expr(1) st(2) by blast
      then show ?thesis using cl j Some st(1) do_stop(3) [OF a1 r Some, of P token v]
        by (auto simp: x intro: after_mono)
    next
      case None
      let ?m = "cs_force_eval_do_while m1"
      have a2: "after R (loops_stmt s) (body_base m) (Normal, w1) ?m" by (rule do_again [OF a1 r None])
      have c2: "can_run tk R (calls_expr e) ?m" "world ?m = w1" using after_normal [OF a2] m after_fields(1) [OF a2] by simp_all
      have q: "rel_result (value_kept R ?m) (exec_expr P n e w1) (run_expr P g n e ?m)"
        by (rule sim_exprD [OF less.prems(4) [OF order_refl] c2])
      show ?thesis unfolding x prod.case None option.case
      proof (rule rel_bind [OF q], goal_cases)
        case (1 x y)
        then obtain v w2 m2 where xy: "x = (v, w2)" "y = (v, m2)" and k2: "kept R ?m w2 m2" by (elim value_keptE)
        have r2: "ready m2" "world m2 = w2" using kept_can_run [OF k2 c2(1)] kept_fields(1) [OF k2] by (auto dest: can_run_ready)
        show ?case unfolding xy prod.case
        proof (rule rel_bind [OF end_do_test [OF r2]], goal_cases)
          case (1 x m3)
          obtain b w3 where x: "x = (b, w3)" by (cases x)
          let ?q = "m2\<lparr>world := w3\<rparr>"
          have "after R (loops_stmt s) (body_base m) (Normal, w3) ?q"
            using after_trans [OF a2 after_kept [OF kept_trans [OF k2 kept_world] can_run_ready [OF c2(1)], of "{}"]] by simp
          from ended_after [OF this r] have cl: "after R (loops_stmt s) m (Normal, w3) (ended ?q)" by simp
          have j: "jumped (ended ?q) = None" using after_fields(8) [OF cl] r by (simp add: ready_fields)
          show ?case
          proof (cases b)
            case False
            then show ?thesis using cl j 1 by (auto simp: x intro: after_mono)
          next
            case True
            show ?thesis
            proof (cases n)
              case 0
              then show ?thesis using True 1 by (simp add: x rel_result_simps)
            next
              case (Suc k)
              have "rel_result (after R (loops_stmt (Do_while token s e)) (ended ?q))
                  (exec_stmt P k (function_name (fstate m), loop_nest_level (fstate m), Do_while token s e) w3)
                  (run_stmt P g k (Do_while token s e) (jump_back CONTINUED_DOWHILE token (ended ?q)))"
                using less.IH [of k "ended ?q" "jump_back CONTINUED_DOWHILE token (ended ?q)"] less.prems(4,5) Suc
                  after_fields(1,10,11) [OF cl] after_normal [OF cl m] after_fresh [OF cl] fr by (simp add: loop_entry_def)
              then have "rel_result (after R (loops_stmt (Do_while token s e)) m)
                  (exec_stmt P k (function_name (fstate m), loop_nest_level (fstate m), Do_while token s e) w3)
                  (run_stmt P g k (Do_while token s e) (jump_back CONTINUED_DOWHILE token (ended ?q)))"
                by (rule rel_mono) (rule after_next [OF cl], auto)
              then show ?thesis using True 1
                by (simp add: x Suc Let_def del: exec_stmt.simps(6) run_stmt.simps(6))
            qed
          qed
        qed
      qed
    qed
  qed
qed

lemma sim_do:
  assumes e: "\<And>k. k \<le> n \<Longrightarrow> sim_expr P g tk R k e" and s: "\<And>k. k \<le> n \<Longrightarrow> sim_stmt P g tk R k s"
  shows "sim_stmt P g tk R n (Do_while token s e)"
  unfolding sim_stmt_def using sim_do_entry [OF e s] by (simp add: loop_entry_def del: exec_stmt.simps run_stmt.simps)


subsection \<open>The loop for\<close>

definition deeper :: "nat \<Rightarrow> ('f, 'u) machine \<Rightarrow> ('f, 'u) machine" where
  "deeper token m = m\<lparr>for_stack := int token # for_stack m\<rparr>"

definition marked :: "bool \<Rightarrow> nat \<Rightarrow> (nat \<Rightarrow> bool \<times> bool) \<Rightarrow> nat \<Rightarrow> bool \<times> bool" where
  "marked sw token mk = (if sw then mk else mk(token := (True, \<not> snd (mk token))))"

lemma deeper_simps [simp]:
  "world (deeper token m) = world m" "fstate (deeper token m) = fstate m" "ready (deeper token m) \<longleftrightarrow> ready m"
  "can_run tk R C (deeper token m) \<longleftrightarrow> can_run tk R C m" "marks (deeper token m) = marks m" "jumped (deeper token m) = jumped m"
  "token_at (deeper token m) = token_at m" "css (deeper token m) = css m"
  by (simp_all add: deeper_def)

lemma same_mark:
  assumes "grows (L \<union> (\<Union>f. R f)) a b" "prepared tk R a" "tk token = FOR" "token \<notin> L"
  shows "b token = a token"
  using assms unfolding grows_def prepared_def by blast

lemma marks_ended [simp]: "marks (ended m) = marks m"
  by (simp add: ended_def nest_def pop_flag_def clear_change_def Let_def)

lemma for_stack_ended [simp]: "for_stack (ended m) = for_stack m"
  by (simp add: ended_def nest_def pop_flag_def clear_change_def Let_def)

lemma after_for_stack:
  assumes "after R L (m\<lparr>for_stack := fs\<rparr>) (c, w) m1"
  shows "after R L m (c, w) (m1\<lparr>for_stack := for_stack m\<rparr>)"
proof -
  from assms obtain mk rv l f where a: "m1 = (completed c f l (m\<lparr>for_stack := fs\<rparr>))\<lparr>world := w, marks := mk, return_value := rv\<rparr>"
    "grows (L \<union> (\<Union>f. R f)) (marks m) mk" "proper (loop_nest_level (fstate m)) c rv"
    "if c = Normal then f = EXECUTE else f \<noteq> BEFORE_EXECUTE" by (rule afterE) simp
  show ?thesis
  proof (rule afterI)
    show "m1\<lparr>for_stack := for_stack m\<rparr> = (completed c f l m)\<lparr>world := w, marks := mk, return_value := rv\<rparr>"
      by (simp add: a(1) completed_def)
  qed (use a(2-4) in \<open>auto split: if_splits\<close>)
qed

text \<open>The end of an iteration: \<open>loop_left\<close> is the state without the jump.\<close>

definition loop_left :: "bool \<Rightarrow> nat \<Rightarrow> int list \<Rightarrow> ('f, 'u) machine \<Rightarrow> ('f, 'u) machine" where
  "loop_left sw token fs m = (ended m)\<lparr>for_stack := fs, marks := marked sw token (marks m)\<rparr>"

lemma for_post:
  assumes "for_stack m1 = fs \<or> for_stack m1 = int token # fs" "int_top fs \<noteq> int token"
  shows "for_post_statement sw token m1 = (if again m1 then jump_back CONTINUED_FOR token (deeper token (loop_left sw token fs m1))
    else loop_left sw token fs m1)"
proof -
  let ?m = "if int_top (for_stack m1) \<noteq> int token then m1\<lparr>for_stack := int token # for_stack m1\<rparr> else m1"
  have "?m = m1\<lparr>for_stack := int token # fs\<rparr>" using assms by (auto simp: int_top_def)
  then show ?thesis unfolding for_post_statement_def
    by (auto simp: loop_left_def ended_def again_def marked_def deeper_def pop_for_def state_defs control_constants)
qed

lemma loop_left_after:
  assumes it: "after R L (m\<lparr>for_stack := fs\<rparr>) (c, w) (ended m1)" and m: "prepared tk R (marks m)" "tk token = FOR" "token \<notin> L"
  shows "after R (insert token L) m (c, w)
      (loop_left (fst (marks m token)) token (for_stack m) m1)"
    "fst (marks (loop_left (fst (marks m token)) token (for_stack m) m1) token)"
proof -
  have a: "after R L m (c, w) ((ended m1)\<lparr>for_stack := for_stack m\<rparr>)"
    by (rule after_for_stack [OF it])
  have mt: "marks m1 token = marks m token" using same_mark [OF after_grows [OF a] m] by simp
  have "fst (marks m token) = snd (marks m token)" using m(1) by (simp add: prepared_def)
  then have "passed tk {token} (marks m1) (marked (fst (marks m token)) token (marks m1))"
    by (auto simp: passed_def grows_def marked_def mt)
  from after_marks [OF a, of tk "{token}"] this
  show "after R (insert token L) m (c, w)
      (loop_left (fst (marks m token)) token (for_stack m) m1)" by (simp add: loop_left_def)
  show "fst (marks (loop_left (fst (marks m token)) token (for_stack m) m1) token)" using mt by (auto simp: loop_left_def marked_def)
qed


text \<open>The condition and what follows, as in \<open>exec_for\<close>.\<close>

definition cond_value :: "('op, 'fn, 'f, 'u) program \<Rightarrow> 'f pval \<Rightarrow> 'f pval \<Rightarrow> ('f, 'u) world \<Rightarrow>
    (('f, 'u) world, bool \<times> ('f, 'u) world) run" where
  "cond_value P v u w = bind_run (truth_value P v w) (\<lambda>(b, w1). bind_run (destroy u w1) (\<lambda>w2. Ok (b, w2)))"

definition next_round :: "('op, 'fn, 'f, 'u) program \<Rightarrow> nat \<Rightarrow> bool \<times> int \<times> ('op, 'fn) for_expr \<times> ('op, 'fn) for_expr \<times> ('op, 'fn) stmt \<Rightarrow>
    ('f, 'u) world \<Rightarrow> (('f, 'u) world, 'f completion \<times> ('f, 'u) world) run" where
  "next_round P n = (\<lambda>(i, l, e2, e3, s) w. bind_run (exec_for_expr P n e3 w) (\<lambda>(v, w1). exec_for P n (i, l, v, e2, e3, s) w1))"

definition iteration :: "('op, 'fn, 'f, 'u) program \<Rightarrow> nat \<Rightarrow> bool \<times> int \<times> ('op, 'fn) for_expr \<times> ('op, 'fn) for_expr \<times> ('op, 'fn) stmt \<Rightarrow>
    bool \<times> ('f, 'u) world \<Rightarrow> (('f, 'u) world, 'f completion \<times> ('f, 'u) world) run" where
  "iteration P n = (\<lambda>(i, l, e2, e3, s) (b, w).
     if \<not> b then Ok (Normal, w)
     else bind_run (exec_stmt P n (i, l + 1, s) w) (\<lambda>(c, w1).
       case after_body (l + 1) c of
         Some c1 \<Rightarrow> Ok (c1, w1)
       | None \<Rightarrow> (case n of 0 \<Rightarrow> Fuel | Suc k \<Rightarrow> next_round P k (i, l, e2, e3, s) w1)))"

lemma bind_run_cong: "(\<And>x. f x = h x) \<Longrightarrow> bind_run r f = bind_run r h"
  by (cases r) simp_all

lemma exec_for_iteration:
  "exec_for P n (i, l, u, e2, e3, s) w =
    bind_run (exec_for_expr P n e2 w) (\<lambda>(v, w1). bind_run (cond_value P v u w1) (iteration P n (i, l, e2, e3, s)))"
  unfolding cond_value_def bind_run_assoc iteration_def next_round_def prod.case
  by (subst exec_for.simps, intro bind_run_cong, clarify, intro bind_run_cong, clarify, unfold bind_run_assoc, intro bind_run_cong)
    simp

definition round_ok :: "('op, 'fn, 'f, 'u) program \<Rightarrow> 'f pval \<Rightarrow> (nat \<Rightarrow> int) \<Rightarrow> ('fn \<Rightarrow> nat set) \<Rightarrow> nat \<Rightarrow> ('op, 'fn) for_expr \<Rightarrow>
    ('op, 'fn) for_expr \<Rightarrow> ('op, 'fn) for_expr \<Rightarrow> ('op, 'fn) stmt \<Rightarrow> nat \<Rightarrow> bool" where
  "round_ok P g tk R token e1 e2 e3 s k \<longleftrightarrow> (\<forall>m. can_run tk R (calls_stmt (For token e1 e2 e3 s)) m \<longrightarrow>
     fresh tk (loops_stmt (For token e1 e2 e3 s)) m \<longrightarrow> fst (marks m token) \<longrightarrow>
     rel_result (after R (loops_stmt (For token e1 e2 e3 s)) m)
       (next_round P k (function_name (fstate m), loop_nest_level (fstate m), e2, e3, s) (world m))
       (run_stmt P g k (For token e1 e2 e3 s) (jump_back CONTINUED_FOR token (deeper token m))))"

lemma round_okD:
  assumes "round_ok P g tk R token e1 e2 e3 s k" "loop = For token e1 e2 e3 s" "can_run tk R (calls_stmt loop) m"
    "fresh tk (loops_stmt loop) m" "fst (marks m token)" "function_name (fstate m) = i" "loop_nest_level (fstate m) = l" "world m = w"
  shows "rel_result (after R (loops_stmt loop) m) (next_round P k (i, l, e2, e3, s) w)
     (run_stmt P g k loop (jump_back CONTINUED_FOR token (deeper token m)))"
  using assms unfolding round_ok_def by blast

text \<open>The statement of a \<open>for\<close> and what follows.\<close>

definition for_rest :: "('op, 'fn, 'f, 'u) program \<Rightarrow> 'f pval \<Rightarrow> nat \<Rightarrow> bool \<Rightarrow> ('op, 'fn) stmt \<Rightarrow> nat \<Rightarrow> ('op, 'fn) stmt \<Rightarrow>
    ('f, 'u) machine \<Rightarrow> (('f, 'u) world, ('f, 'u) machine) run" where
  "for_rest P g n sw loop token s m =
     bind_run (run_stmt P g n s m) (\<lambda>m7.
       let m8 = for_post_statement sw token m7 in
       if next_token_is CONTINUED_FOR m8 then (case n of 0 \<Rightarrow> Fuel | Suc k \<Rightarrow> run_stmt P g k loop m8) else Ok m8)"

lemma body_skip_iterated:
  assumes k: "kept R q w q1" and m: "ready q" and s: "ok_stmt tk R s" "fresh tk (loops_stmt s) q"
  obtains m1 where "run_stmt P g n s (set_flag DONT_EXECUTE (body_base q1)) = Ok m1" "\<not> again m1" "for_stack m1 = for_stack q"
    "after R (loops_stmt s) q (Normal, w) (ended m1)"
proof -
  have q1: "ready q1" "fresh tk (loops_stmt s) q1"
    using k m s(2) kept_fields(3,5) [OF k] fresh_cong [of tk _ q q1] by (auto simp: kept_def)
  obtain m1 mk where m1: "run_stmt P g n s (set_flag DONT_EXECUTE (body_base q1)) = Ok m1" "\<not> again m1"
    "ended m1 = q1\<lparr>marks := mk\<rparr>" and p: "passed tk (loops_stmt s) (marks q1) mk"
    by (rule body_skip [OF q1(1) s(1) q1(2)])
  have "for_stack m1 = for_stack q" using kept_fields(3) [OF k] arg_cong [OF m1(3), of for_stack] by simp
  moreover have "after R (loops_stmt s) q (Normal, w) (ended m1)"
    using after_marks [OF after_kept [OF k m, of "{}"] p] m1(3) by simp
  ultimately show ?thesis by (rule that [OF m1(1,2)])
qed

lemma for_round:
  assumes s: "sim_stmt P g tk R n s" and loop: "loop = For token e1 e2 e3 s" and ok: "ok_stmt tk R loop"
    and m: "can_run tk R (calls_stmt loop) m" "fresh tk (loops_stmt loop) m"
    and k: "kept R (m\<lparr>for_stack := fs\<rparr>) w q1" and fs: "fs = for_stack m \<or> fs = int token # for_stack m"
    and next_rounds: "\<And>k. k < n \<Longrightarrow> round_ok P g tk R token e1 e2 e3 s k"
    and i: "function_name (fstate m) = i" "loop_nest_level (fstate m) = l"
  shows "rel_result (after R (loops_stmt loop) m) (iteration P n (i, l, e2, e3, s) (b, w))
    (for_rest P g n (fst (marks m token)) loop token s (if b then body_base q1 else set_flag DONT_EXECUTE (body_base q1)))"
proof -
  let ?q = "m\<lparr>for_stack := fs\<rparr>" and ?sw = "fst (marks m token)"
  have tok: "tk token = FOR" "token \<notin> loops_stmt s" "ok_stmt tk R s" and top: "int_top (for_stack m) \<noteq> int token"
    and r: "ready m" and pr: "prepared tk R (marks m)" using ok m by (auto simp: loop can_run_def)
  have q: "can_run tk R (calls_stmt s) ?q" "fresh tk (loops_stmt s) ?q" "ready ?q"
    using m fs tok(2) r by (auto simp: loop fresh_def agrees_def int_top_def)
  have post: "for_post_statement ?sw token m1 = (if again m1 then jump_back CONTINUED_FOR token (deeper token (loop_left ?sw token (for_stack m) m1))
      else loop_left ?sw token (for_stack m) m1)" and left: "after R (loops_stmt loop) m (c, w1) (loop_left ?sw token (for_stack m) m1)"
      "fst (marks (loop_left ?sw token (for_stack m) m1) token)"
    if "after R (loops_stmt s) ?q (c, w1) (ended m1)" for m1 c w1
    using for_post [OF _ top, of m1] after_fields(3) [OF that] fs loop_left_after [OF that pr tok(1,2)] by (auto simp: loop)
  have j: "jumped (loop_left ?sw token (for_stack m) m1) = None"
    if "after R (loops_stmt s) ?q (c, w1) (ended m1)" for m1 c w1
    using after_fields(8) [OF left(1) [OF that]] r by (simp add: ready_fields)
  show ?thesis
  proof (cases b)
    case False
    obtain m1 where m1: "run_stmt P g n s (set_flag DONT_EXECUTE (body_base q1)) = Ok m1" "\<not> again m1"
      and a: "after R (loops_stmt s) ?q (Normal, w) (ended m1)" by (rule body_skip_iterated [OF k q(3) tok(3) q(2)])
    show ?thesis using m1 post [OF a] left(1) [OF a] j [OF a] by (simp add: False iteration_def for_rest_def)
  next
    case True
    have st: "rel_result (iterated R (loops_stmt s) ?q) (exec_stmt P n (i, l + 1, s) w) (run_stmt P g n s (body_base q1))"
      by (rule body_run [OF s tok(3) q(1,2) k]) (use i in simp_all)
    show ?thesis unfolding iteration_def for_rest_def prod.case
    proof (simp only: True not_True_eq_False if_False if_True, rule rel_bind [OF st], goal_cases)
      case (1 x m1)
      obtain c w1 where x: "x = (c, w1)" by (cases x)
      have a: "after R (loops_stmt s) ?q (loop_completion (l + 1) c, w1) (ended m1)"
        and ag: "again m1 \<longleftrightarrow> after_body (l + 1) c = None" using 1 i by (simp_all add: x iterated_def Let_def)
      show ?case
      proof (cases "after_body (l + 1) c")
        case (Some c1)
        then show ?thesis using ag post [OF a] left(1) [OF a] j [OF a] by (simp add: x loop_completion_def)
      next
        case None
        let ?n = "loop_left ?sw token (for_stack m) m1"
        have cl: "after R (loops_stmt loop) m (Normal, w1) ?n" using left(1) [OF a] None by (simp add: loop_completion_def)
        show ?thesis
        proof (cases n)
          case 0
          then show ?thesis using None ag post [OF a] by (simp add: x rel_result_simps)
        next
          case (Suc k)
          have "rel_result (after R (loops_stmt loop) ?n) (next_round P k (i, l, e2, e3, s) w1)
              (run_stmt P g k loop (jump_back CONTINUED_FOR token (deeper token ?n)))"
            by (rule round_okD [OF next_rounds loop after_normal [OF cl m(1)] _ left(2) [OF a]])
              (use Suc after_fresh [OF cl] m(2) after_fields(1,10,11) [OF cl] i in simp_all)
          then have "rel_result (after R (loops_stmt loop) m) (next_round P k (i, l, e2, e3, s) w1)
              (run_stmt P g k loop (jump_back CONTINUED_FOR token (deeper token ?n)))"
            by (rule rel_mono) (rule after_next [OF cl], auto)
          then show ?thesis using None ag post [OF a] by (simp add: x Suc Let_def)
        qed
      qed
    qed
  qed
qed


lemma kept_body:
  assumes "kept R (body_base q) w m1"
  obtains q1 where "m1 = body_base q1" "kept R q w q1"
proof -
  obtain mk rv where m1: "m1 = (body_base q)\<lparr>world := w, marks := mk, return_value := rv\<rparr>" and g: "grows (\<Union>f. R f) (marks q) mk"
    using assms by (auto simp: kept_def)
  have "m1 = body_base (q\<lparr>world := w, marks := mk, return_value := rv\<rparr>)" by (simp add: m1 body_base_def nest_def push_flag_def)
  moreover have "kept R q w (q\<lparr>world := w, marks := mk, return_value := rv\<rparr>)" using g by (auto simp: kept_def)
  ultimately show ?thesis by (rule that)
qed

lemma body_top:
  assumes "kept R (body_base q) w m1" "ready q"
  shows "ready m1" "top_flag m1 = m1" "top_flag (set_flag f m1) = m1" "Execute m1"
proof -
  show r: "ready m1" using assms by (auto simp: kept_def)
  have c: "css m1 = EXECUTE # css q" using kept_fields(2) [OF assms(1)] assms(2) by (simp add: body_base_def push_flag_def nest_def ready_fields)
  show "top_flag m1 = m1" "top_flag (set_flag f m1) = m1" using top_ready [OF r c] by simp_all
  show "Execute m1" using r by (rule ready_fields)
qed

definition round_start :: "('fn \<Rightarrow> nat set) \<Rightarrow> ('f, 'u) machine \<Rightarrow> bool \<times> ('f, 'u) world \<Rightarrow> ('f, 'u) machine \<Rightarrow> bool" where
  "round_start R q x m \<longleftrightarrow> (\<exists>q1. kept R q (snd x) q1 \<and>
     m = (if fst x then body_base q1 else set_flag DONT_EXECUTE (body_base q1)))"

lemma cond_kept:
  assumes k: "kept R (body_base q) w m1" and q: "ready q"
  shows "rel_result (round_start R q) (cond_value P v u w)
    (bind_run (test P v m1) (\<lambda>(b, v1, m2).
      bind_run (in_world (destroy u) (set_flag (if b then EXECUTE else DONT_EXECUTE) m2)) (in_world (destroy v1))))"
  unfolding cond_value_def
proof (rule rel_bind [OF test_truth [OF kept_fields(1) [OF k]]], goal_cases)
  case (1 x y)
  then obtain i w2 where xy: "x = (i \<noteq> 0, w2)" "y = (i \<noteq> 0, IS_LONG i, m1\<lparr>world := w2\<rparr>)" by (auto simp: tested_def)
  let ?s = "\<lambda>m. set_flag (if i \<noteq> 0 then EXECUTE else DONT_EXECUTE) m"
  have "round_start R q (i \<noteq> 0, w3) ((?s (m1\<lparr>world := w2\<rparr>))\<lparr>world := w3\<rparr>)" for w3
  proof -
    obtain q1 where m1: "m1\<lparr>world := w3\<rparr> = body_base q1" and "kept R q w3 q1"
      using kept_body [OF kept_trans [OF k kept_world]] by blast
    moreover have "(?s (m1\<lparr>world := w2\<rparr>))\<lparr>world := w3\<rparr> = ?s (m1\<lparr>world := w3\<rparr>)" by (simp add: state_defs)
    moreover have "set_flag EXECUTE (body_base q1) = body_base q1"
      using body_top(1) [OF kept_trans [OF k kept_world] q, of w3] unfolding m1 by (simp add: ready_def state_defs)
    ultimately show ?thesis by (auto simp: round_start_def intro!: exI [of _ q1])
  qed
  moreover have "world (?s (m1\<lparr>world := w2\<rparr>)) = w2" by (simp add: set_flag_def Let_def)
  ultimately show ?case unfolding xy prod.case
    by (cases "destroy u w2") (simp_all add: in_world_def rel_result_simps)
qed

lemma pre_statement:
  assumes k: "kept R (body_base q) w m1" and q: "ready q"
  shows "rel_result (round_start R q) (cond_value P v u w) (for_pre_statement P True u v m1)"
    "rel_result (round_start R q) (cond_value P v var_reset w) (for_pre_statement P False v u (set_flag DONT_EXECUTE m1))"
proof -
  note t = body_top [OF k q]
  show "rel_result (round_start R q) (cond_value P v u w) (for_pre_statement P True u v m1)"
    using cond_kept [OF k q, of P v u] t by (simp add: for_pre_statement_def Let_def)
  have "for_pre_statement P False v u (set_flag DONT_EXECUTE m1) = bind_run (test P v m1) (\<lambda>(b, v1, m2).
      bind_run (in_world (destroy v1) (set_flag (if b then EXECUTE else DONT_EXECUTE) m2)) (in_world (destroy var_reset)))"
    using t by (simp add: for_pre_statement_def Let_def)
  also have "\<dots> = bind_run (test P v m1) (\<lambda>(b, v1, m2).
      bind_run (in_world (destroy var_reset) (set_flag (if b then EXECUTE else DONT_EXECUTE) m2)) (in_world (destroy v1)))"
    using is_true_cases [of P v "world m1"] by (auto simp: test_def)
  finally show "rel_result (round_start R q) (cond_value P v var_reset w) (for_pre_statement P False v u (set_flag DONT_EXECUTE m1))"
    using cond_kept [OF k q, of P v var_reset] by simp
qed

lemma for_round_start:
  assumes "round_start R (m\<lparr>for_stack := fs\<rparr>) x m6" and s: "sim_stmt P g tk R n s" and loop: "loop = For token e1 e2 e3 s" and ok: "ok_stmt tk R loop"
    and m: "can_run tk R (calls_stmt loop) m" "fresh tk (loops_stmt loop) m"
    and fs: "fs = for_stack m \<or> fs = int token # for_stack m"
    and next_rounds: "\<And>k. k < n \<Longrightarrow> round_ok P g tk R token e1 e2 e3 s k"
    and i: "function_name (fstate m) = i" "loop_nest_level (fstate m) = l"
  shows "rel_result (after R (loops_stmt loop) m) (iteration P n (i, l, e2, e3, s) x)
    (for_rest P g n (fst (marks m token)) loop token s m6)"
proof -
  obtain q1 where "kept R (m\<lparr>for_stack := fs\<rparr>) (snd x) q1" "m6 = (if fst x then body_base q1 else set_flag DONT_EXECUTE (body_base q1))"
    using assms(1) by (auto simp: round_start_def)
  with for_round [OF s loop ok m _ fs next_rounds i, of "snd x" q1 "fst x"] show ?thesis by simp
qed

lemma skip_for_expr_ready:
  "kept R (body_base q) w m1 \<Longrightarrow> ready q \<Longrightarrow> \<exists>v. run_for_expr P g n fe (set_flag DONT_EXECUTE m1) = Ok (v, set_flag DONT_EXECUTE m1)"
  using skip_for_expr ready_dont body_top(1) by metis


lemma run_for:
  assumes "starts FOR token m" "marks m token = (sw, ex)"
  shows "run_stmt P g n (For token e1 e2 e3 s) m =
    bind_run (run_for_expr P g n e1 (for_pre_expr1 token (landed m))) (\<lambda>(v1, m1).
    bind_run (if Execute m1 then in_world (destroy v1) m1 else Ok m1) (\<lambda>m2.
    bind_run (run_for_expr P g n (if ex then e3 else e2) (for_pre_expr2 sw token m2)) (\<lambda>(v2, m3).
      let (v2, m4) = for_pre_expr3 sw token v2 m3 in
    bind_run (run_for_expr P g n (if ex then e2 else e3) m4) (\<lambda>(v3, m5).
    bind_run (for_pre_statement P sw v2 v3 m5) (for_rest P g n sw (For token e1 e2 e3 s) token s)))))"
  by (subst run_stmt.simps(7), unfold if_P [OF assms(1)] assms(2) Let_def prod.case for_rest_def [abs_def]) (rule refl)

text \<open>A further iteration.\<close>

lemma later_start:
  assumes "ready m" "token_at m token = FOR"
  shows "for_pre_expr1 token (landed (jump_back J token (deeper token m))) = set_flag DONT_EXECUTE (body_base (deeper token m))"
proof -
  have "(push_flag (nest 1 (landed (jump_back J token (deeper token m)))))\<lparr>token_at := (token_at m)(token := FOR)\<rparr> = body_base (deeper token m)"
    using assms by (simp add: landed_def jump_back_def body_base_def push_flag_def nest_def fun_upd_idem ready_fields)
  then show ?thesis using assms(1)
    by (simp add: for_pre_expr1_def Let_def)
      (simp add: landed_def jump_back_def push_flag_def nest_def deeper_def ready_fields int_top_def)
qed

lemma sim_round:
  assumes e: "\<And>e. sim_for_expr P g tk R n e" and s: "sim_stmt P g tk R n s" and ok: "ok_stmt tk R (For token e1 e2 e3 s)"
    and next_rounds: "\<And>k. k < n \<Longrightarrow> round_ok P g tk R token e1 e2 e3 s k"
  shows "round_ok P g tk R token e1 e2 e3 s n"
  unfolding round_ok_def
proof (intro allI impI)
  fix m :: "('c, 'd) machine"
  let ?loop = "For token e1 e2 e3 s" and ?d = "deeper token m" and ?B = "body_base (deeper token m)"
  let ?i = "function_name (fstate m)" and ?l = "loop_nest_level (fstate m)"
  assume m: "can_run tk R (calls_stmt ?loop) m" "fresh tk (loops_stmt ?loop) m" and mt: "fst (marks m token)"
  have r: "ready m" and tok: "token_at m token = FOR" and pr: "prepared tk R (marks m)" using m ok by (auto simp: can_run_def)
  have mk: "marks m token = (True, True)" using mt pr by (auto simp: prepared_def prod_eq_iff)
  have b: "ready ?B" "top_flag ?B = ?B" "top_flag (set_flag DONT_EXECUTE ?B) = ?B" "ready ?d"
    using body_top [OF kept_refl, of "deeper token m"] r by simp_all
  have top: "int_top (for_stack (set_flag f ?B)) = int token" "int_top (for_stack ?B) = int token"
    "int_top (for_stack ?d) = int token" for f
    by (simp_all add: deeper_def set_flag_def Let_def int_top_def)
  obtain v0 where e1: "run_for_expr P g n e1 (set_flag DONT_EXECUTE ?B) = Ok (v0, set_flag DONT_EXECUTE ?B)"
    using skip_for_expr_ready [OF kept_refl b(4)] by blast
  have nx: "\<not> Execute (set_flag DONT_EXECUTE ?B)" by (simp add: state_defs control_constants)
  have run: "run_stmt P g n ?loop (jump_back CONTINUED_FOR token ?d) =
      bind_run (run_for_expr P g n e3 ?B) (\<lambda>(v2, m3).
        let (v2, m4) = for_pre_expr3 True token v2 m3 in
        bind_run (run_for_expr P g n e2 m4) (\<lambda>(v3, m5).
        bind_run (for_pre_statement P True v2 v3 m5) (for_rest P g n True ?loop token s)))"
    by (subst run_for [where sw = True and ex = True])
      (simp_all add: starts_def later_start [OF r tok] e1 nx for_pre_expr2_def top b(3) mk Let_def del: run_stmt.simps(7))
  show "rel_result (after R (loops_stmt ?loop) m) (next_round P n (?i, ?l, e2, e3, s) (world m))
      (run_stmt P g n ?loop (jump_back CONTINUED_FOR token ?d))"
    unfolding run next_round_def prod.case exec_for_iteration
  proof (rule rel_bind [OF sim_for_exprD [OF e]], goal_cases)
    case (3 x y)
    then obtain u w1 m1 where xy: "x = (u, w1)" "y = (u, m1)" and k1: "kept R ?B w1 m1" by (elim value_keptE)
    have t1: "for_pre_expr3 True token u m1 = (u, m1)"
      using body_top(2) [OF k1 b(4)] kept_fields(3) [OF k1] top(2) by (simp add: for_pre_expr3_def Let_def)
    have c1: "can_run tk R (calls_for e2) m1" "world m1 = w1"
      using kept_can_run [OF k1, of tk "calls_for e2"] m(1) kept_fields(1) [OF k1] by simp_all
    show ?case unfolding xy prod.case t1 Let_def
    proof (rule rel_bind [OF sim_for_exprD [OF e c1]], goal_cases)
      case (1 x y)
      then obtain v w2 m2 where xy: "x = (v, w2)" "y = (v, m2)" and "kept R m1 w2 m2" by (elim value_keptE)
      then have k2: "kept R ?B w2 m2" using kept_trans [OF k1] by blast
      show ?case unfolding xy prod.case
      proof (rule rel_bind [OF pre_statement(1) [OF k2 b(4)]], goal_cases)
        case (1 x m6)
        then have st: "round_start R (m\<lparr>for_stack := int token # for_stack m\<rparr>) x m6" by (simp add: deeper_def)
        from for_round_start [OF st s refl ok m disjI2 [OF refl] next_rounds refl refl] show ?case by (simp add: mk)
      qed
    qed
  qed (use m in simp_all)
qed


text \<open>The first iteration.\<close>

lemma first_start:
  assumes "ready m" "token_at m token = FOR" "int_top (for_stack m) \<noteq> int token"
  shows "for_pre_expr1 token (landed m) = body_base m"
proof -
  have "(push_flag (nest 1 m))\<lparr>token_at := (token_at m)(token := FOR)\<rparr> = body_base m"
    using assms(2) by (simp add: body_base_def push_flag_def nest_def fun_upd_idem)
  then show ?thesis using assms(1,3)
    by (simp add: landed_none ready_fields for_pre_expr1_def Let_def)
qed

lemma first_round:
  assumes e: "\<And>e. sim_for_expr P g tk R n e" and s: "sim_stmt P g tk R n s" and ok: "ok_stmt tk R (For token e1 e2 e3 s)"
    and m: "can_run tk R (calls_stmt (For token e1 e2 e3 s)) m" "fresh tk (loops_stmt (For token e1 e2 e3 s)) m"
    and next_rounds: "\<And>k. k < n \<Longrightarrow> round_ok P g tk R token e1 e2 e3 s k"
    and mt: "marks m token = (sw, sw)" and k: "kept R (body_base m) w m2"
  shows "rel_result (after R (loops_stmt (For token e1 e2 e3 s)) m)
    (exec_for P n (function_name (fstate m), loop_nest_level (fstate m), var_reset, e2, e3, s) w)
    (bind_run (run_for_expr P g n (if sw then e3 else e2) (for_pre_expr2 sw token m2)) (\<lambda>(v2, m3).
      let (v2, m4) = for_pre_expr3 sw token v2 m3 in
    bind_run (run_for_expr P g n (if sw then e2 else e3) m4) (\<lambda>(v3, m5).
    bind_run (for_pre_statement P sw v2 v3 m5) (for_rest P g n sw (For token e1 e2 e3 s) token s))))"
proof -
  let ?loop = "For token e1 e2 e3 s"
  have r: "ready m" and top: "int_top (for_stack m) \<noteq> int token" using m ok by (auto simp: can_run_def)
  note t = body_top [OF k r]
  have top2: "int_top (for_stack m2) \<noteq> int token" "int_top (for_stack (set_flag f m2)) \<noteq> int token" for f
    using top kept_fields(3) [OF k] by (simp_all add: set_flag_def Let_def)
  have c2: "can_run tk R (calls_for e2) m2" "world m2 = w"
    using kept_can_run [OF k, of tk "calls_for e2"] m(1) kept_fields(1) [OF k] by simp_all
  have rest: "rel_result (after R (loops_stmt ?loop) m) (iteration P n (function_name (fstate m), loop_nest_level (fstate m), e2, e3, s) x)
      (for_rest P g n sw ?loop token s m6)" if "round_start R m x m6" for x m6
    using for_round_start [where m = m and fs = "for_stack m", OF _ s refl ok m disjI1 [OF refl] next_rounds refl refl] that mt by simp
  show ?thesis
  proof (cases sw)
    case True
    obtain v where v: "run_for_expr P g n e3 (set_flag DONT_EXECUTE m2) = Ok (v, set_flag DONT_EXECUTE m2)"
      using skip_for_expr_ready [OF k r] by blast
    have x: "for_pre_expr2 True token m2 = set_flag DONT_EXECUTE m2" "for_pre_expr3 True token v (set_flag DONT_EXECUTE m2) = (var_reset, m2)"
      using t top2 by (simp_all add: for_pre_expr2_def for_pre_expr3_def Let_def)
    show ?thesis unfolding exec_for_iteration
    proof (simp only: True if_True x v bind_run.simps prod.case Let_def, rule rel_bind [OF sim_for_exprD [OF e c2]], goal_cases)
      case (1 x y)
      then obtain v w3 m3 where xy: "x = (v, w3)" "y = (v, m3)" and "kept R m2 w3 m3" by (elim value_keptE)
      then have k3: "kept R (body_base m) w3 m3" using kept_trans [OF k] by blast
      show ?case unfolding xy prod.case
        by (rule rel_bind [OF pre_statement(1) [OF k3 r]]) (use rest True in simp)
    qed
  next
    case False
    have x: "for_pre_expr2 False token m2 = m2" using t by (simp add: for_pre_expr2_def Let_def)
    show ?thesis unfolding exec_for_iteration
    proof (simp only: False if_False x, rule rel_bind [OF sim_for_exprD [OF e c2]], goal_cases)
      case (1 x y)
      then obtain v w3 m3 where xy: "x = (v, w3)" "y = (v, m3)" and "kept R m2 w3 m3" by (elim value_keptE)
      then have k3: "kept R (body_base m) w3 m3" using kept_trans [OF k] by blast
      have x3: "for_pre_expr3 False token v m3 = (v, set_flag DONT_EXECUTE m3)"
        using body_top [OF k3 r] by (simp add: for_pre_expr3_def Let_def)
      obtain v3 where v3: "run_for_expr P g n e3 (set_flag DONT_EXECUTE m3) = Ok (v3, set_flag DONT_EXECUTE m3)"
        using skip_for_expr_ready [OF k3 r] by blast
      show ?case unfolding xy prod.case x3 Let_def v3 bind_run.simps
        by (rule rel_bind [OF pre_statement(2) [OF k3 r]]) (use rest False in simp)
    qed
  qed
qed

lemma sim_for:
  assumes e: "\<And>k e. k \<le> n \<Longrightarrow> sim_expr P g tk R k e" and s: "\<And>k. k \<le> n \<Longrightarrow> sim_stmt P g tk R k s"
  shows "sim_stmt P g tk R n (For token e1 e2 e3 s)"
  unfolding sim_stmt_def
proof (intro allI impI)
  fix m :: "('c, 'd) machine"
  let ?loop = "For token e1 e2 e3 s"
  assume ok: "ok_stmt tk R ?loop" and m: "can_run tk R (calls_stmt ?loop) m" "fresh tk (loops_stmt ?loop) m"
  have fe: "sim_for_expr P g tk R k fe" if "k \<le> n" for k fe using e [OF that] by (rule sim_for_exprs)
  have rounds: "round_ok P g tk R token e1 e2 e3 s k" if "k < n" for k using that
  proof (induction k rule: less_induct)
    case (less k)
    show ?case by (rule sim_round [OF fe s ok less.IH]) (use less.prems in simp_all)
  qed
  have r: "ready m" and tok: "token_at m token = FOR" and top: "int_top (for_stack m) \<noteq> int token" and pr: "prepared tk R (marks m)"
    using m ok by (auto simp: can_run_def)
  have mt: "marks m token = (fst (marks m token), fst (marks m token))" using pr by (simp add: prepared_def prod_eq_iff)
  have st: "starts FOR token m" using tok by (simp add: starts_def)
  have c: "can_run tk R (calls_for e1) (body_base m)" "world (body_base m) = world m" using m(1) by simp_all
  show "rel_result (after R (loops_stmt ?loop) m)
      (exec_stmt P n (function_name (fstate m), loop_nest_level (fstate m), ?loop) (world m)) (run_stmt P g n ?loop m)"
    unfolding run_for [OF st mt] first_start [OF r tok top] exec_stmt.simps
  proof (rule rel_bind [OF sim_for_exprD [OF fe c]], goal_cases)
    case (2 x y)
    then obtain v w1 m1 where xy: "x = (v, w1)" "y = (v, m1)" and k: "kept R (body_base m) w1 m1" by (elim value_keptE)
    show ?case unfolding xy prod.case if_P [OF body_top(4) [OF k r]]
    proof (rule rel_bind [OF in_world_kept [OF k]], goal_cases)
      case (1 w2 m2)
      then have k2: "kept R (body_base m) w2 m2" by blast
      show ?case by (rule first_round [OF fe s ok m rounds mt k2]) simp_all
    qed
  qed simp
qed

subsection \<open>The simulation\<close>

theorem simulation:
  assumes P: "ok_program P tk R"
  shows "sim_expr P g tk R n e" "sim_stmt P g tk R n s"
proof -
  have "(\<forall>e. sim_expr P g tk R n e) \<and> (\<forall>s. sim_stmt P g tk R n s)"
  proof (induction n rule: less_induct)
    case (less n)
    have e: "sim_expr P g tk R k e" if "k \<le> n" for k e
      by (rule sim_expressions(1) [OF P]) (use less that in auto)
    have "sim_stmt P g tk R n s" "sim_elses P g tk R n els" "sim_cases P g tk R n cs" for s els cs
    proof (induction s and els and cs)
      case (While token e' s)
      show ?case by (rule sim_while) (use e less.IH While in \<open>auto simp: le_less\<close>)
    next
      case (Do_while token s e')
      show ?case by (rule sim_do) (use e less.IH Do_while in \<open>auto simp: le_less\<close>)
    next
      case (For token e1 e2 e3 s)
      show ?case by (rule sim_for) (use e less.IH For in \<open>auto simp: le_less\<close>)
    qed (use e in \<open>simp_all add: sim_empty sim_sequence sim_expression sim_if sim_switch sim_break sim_return sim_declare
        sim_no_else sim_else sim_elseif sim_no_case sim_case sim_default\<close>)
    then show ?case using e by blast
  qed
  then show "sim_expr P g tk R n e" "sim_stmt P g tk R n s" by simp_all
qed

end
