(* ===== verification/Control_Fuel.thy ===== *)
theory Control_Fuel
  imports Control_Spec
begin

text \<open>
  More fuel does not change a result: what a run gives with \<open>n\<close> jumps it gives with every larger number. A phrase
  without loops and calls needs none.
\<close>

definition le_fuel :: "('w, 'a) run \<Rightarrow> ('w, 'a) run \<Rightarrow> bool" where
  "le_fuel a b \<longleftrightarrow> a = Fuel \<or> a = b"

lemma le_fuel_simps [simp]: "le_fuel Fuel b" "le_fuel a a"
  by (simp_all add: le_fuel_def)

lemma le_bind: "le_fuel a b \<Longrightarrow> (\<And>x. le_fuel (f x) (h x)) \<Longrightarrow> le_fuel (bind_run a f) (bind_run b h)"
  unfolding le_fuel_def by (metis bind_run.simps(1) bind_run.simps(4) run.exhaust bind_run.simps(2,3,5))

lemma le_bind_same: "(\<And>x. le_fuel (f x) (h x)) \<Longrightarrow> le_fuel (bind_run a f) (bind_run a h)"
  by (rule le_bind) simp_all

lemma le_pair: "(\<And>x y. le_fuel (f x y) (h x y)) \<Longrightarrow> le_fuel (case p of (x, y) \<Rightarrow> f x y) (case p of (x, y) \<Rightarrow> h x y)"
  by (cases p) simp

lemma le_if: "(b \<Longrightarrow> le_fuel a c) \<Longrightarrow> (\<not> b \<Longrightarrow> le_fuel a' c') \<Longrightarrow> le_fuel (if b then a else a') (if b then c else c')"
  by simp

lemmas le_rules = le_bind le_bind_same le_pair le_if

lemma mono_expr:
  assumes body: "\<And>k k' s m. n = Suc k \<Longrightarrow> n' = Suc k' \<Longrightarrow> le_fuel (run_stmt P g k s m) (run_stmt P g k' s m)" and n: "n \<le> n'"
  shows "le_fuel (run_expr P g n e m) (run_expr P g n' e m)" "le_fuel (run_args P g n es m) (run_args P g n' es m)"
    "le_fuel (run_parameters P g n es m) (run_parameters P g n' es m)"
proof (induction e and es arbitrary: m and m)
  case (Call f es)
  have "le_fuel (case (n, function_body P f) of (Suc k, Some body) \<Rightarrow> bind_run (run_stmt P g k body m3) (cs_functioncall_end P) | _ \<Rightarrow> Fuel)
     (case (n', function_body P f) of (Suc k, Some body) \<Rightarrow> bind_run (run_stmt P g k body m3) (cs_functioncall_end P) | _ \<Rightarrow> Fuel)" for m3
  proof (cases n)
    case (Suc k)
    then obtain k' where "n' = Suc k'" using n by (cases n') auto
    with Suc body [of k k'] show ?thesis by (auto split: option.split intro!: le_bind)
  qed simp
  then show ?case unfolding run_expr.simps by (intro le_rules Call.IH) simp_all
next
  case (Op f es)
  show ?case unfolding run_expr.simps by (intro le_rules Op.IH) simp_all
next
  case (Or e1 e2)
  show ?case unfolding run_expr.simps by (intro le_rules Or.IH) simp_all
next
  case (And e1 e2)
  show ?case unfolding run_expr.simps by (intro le_rules And.IH) simp_all
next
  case (Cond e1 e2 e3)
  show ?case unfolding run_expr.simps by (intro le_rules Cond.IH) simp_all
next
  case (Arg es e)
  { case 1 show ?case unfolding run_args.simps by (intro le_rules Arg.IH) simp_all }
  { case 2 show ?case unfolding run_parameters.simps by (intro le_rules Arg.IH) simp_all }
qed simp_all

lemma mono_for_expr:
  assumes "\<And>e m. le_fuel (run_expr P g n e m) (run_expr P g n' e m)"
  shows "le_fuel (run_for_expr P g n fe m) (run_for_expr P g n' fe m)"
proof (induction fe arbitrary: m)
  case (Comma fe e)
  show ?case unfolding run_for_expr.simps by (intro le_rules Comma.IH assms) simp_all
qed (simp_all add: assms)

text \<open>A jump back.\<close>

lemma le_jump:
  assumes body: "\<And>k k' s m. n = Suc k \<Longrightarrow> n' = Suc k' \<Longrightarrow> le_fuel (run_stmt P g k s m) (run_stmt P g k' s m)" and n: "n \<le> n'"
  shows "le_fuel (case n of 0 \<Rightarrow> Fuel | Suc k \<Rightarrow> run_stmt P g k s m) (case n' of 0 \<Rightarrow> Fuel | Suc k \<Rightarrow> run_stmt P g k s m)"
  using n by (cases n; cases n') (auto intro: body)

lemma mono_stmt:
  assumes body: "\<And>k k' s m. n = Suc k \<Longrightarrow> n' = Suc k' \<Longrightarrow> le_fuel (run_stmt P g k s m) (run_stmt P g k' s m)" and n: "n \<le> n'"
  shows "le_fuel (run_stmt P g n s m) (run_stmt P g n' s m)" "le_fuel (run_elses P g n els m) (run_elses P g n' els m)"
    "le_fuel (run_cases P g n cs m) (run_cases P g n' cs m)"
proof (induction s and els and cs arbitrary: m and m and m)
  note e = mono_expr(1) [OF body n] and fe = mono_for_expr [OF mono_expr(1) [OF body n]] and j = le_jump [OF body n]
  case (While token c s)
  show ?case unfolding run_stmt.simps(5) [of P g n] run_stmt.simps(5) [of P g n'] Let_def
    by (intro le_rules e j While.IH) simp_all
next
  note e = mono_expr(1) [OF body n] and fe = mono_for_expr [OF mono_expr(1) [OF body n]] and j = le_jump [OF body n]
  case (Do_while token s c)
  show ?case unfolding run_stmt.simps(6) [of P g n] run_stmt.simps(6) [of P g n'] Let_def
    by (intro le_rules e j Do_while.IH) simp_all
next
  note e = mono_expr(1) [OF body n] and fe = mono_for_expr [OF mono_expr(1) [OF body n]] and j = le_jump [OF body n]
  case (For token e1 e2 e3 s)
  show ?case unfolding run_stmt.simps(7) [of P g n] run_stmt.simps(7) [of P g n'] Let_def
    by (intro le_rules e fe j For.IH) simp_all
next
  note e = mono_expr(1) [OF body n]
  case (Break_continue ty eo)
  show ?case by (cases eo) (auto intro!: le_rules e)
next
  note e = mono_expr(1) [OF body n]
  case (Return_from eo)
  show ?case by (cases eo) (auto intro!: le_rules e)
next
  note e = mono_expr(1) [OF body n]
  case (Sequence s1 s2)
  show ?case unfolding run_stmt.simps by (intro le_rules Sequence.IH) 
next
  note e = mono_expr(1) [OF body n]
  case (Expression c)
  show ?case unfolding run_stmt.simps by (intro le_rules e) simp_all
next
  note e = mono_expr(1) [OF body n]
  case (If_else c s els)
  show ?case unfolding run_stmt.simps by (intro le_rules e If_else.IH) simp_all
next
  note e = mono_expr(1) [OF body n]
  case (Switch c cs)
  show ?case unfolding run_stmt.simps by (intro le_rules e Switch.IH) simp_all
next
  case (Declare s)
  show ?case unfolding run_stmt.simps by (intro le_rules Declare.IH) simp_all
next
  case (Else s)
  show ?case unfolding run_elses.simps by (rule Else.IH)
next
  note e = mono_expr(1) [OF body n]
  case (Elseif c s els)
  show ?case unfolding run_elses.simps by (intro le_rules e Elseif.IH) simp_all
next
  note e = mono_expr(1) [OF body n]
  case (Case c s cs)
  show ?case unfolding run_cases.simps by (intro le_rules e Case.IH) simp_all
next
  case (Default s)
  show ?case unfolding run_cases.simps by (intro le_rules Default.IH) simp_all
qed simp_all

theorem more_fuel: "n \<le> n' \<Longrightarrow> le_fuel (run_stmt P g n s m) (run_stmt P g n' s m)"
proof (induction n arbitrary: n' s m rule: less_induct)
  case (less n)
  show ?case by (rule mono_stmt(1)) (use less in auto)
qed

end
