(* ===== verification/Control_Props.thy ===== *)
theory Control_Props
  imports Control_Loops Control_Fuel Arithmetic
begin

text \<open>
  The properties of the control structures. A script is the declaration of its functions followed by its statements.
\<close>

definition declare_all :: "('op, 'fn) stmt list \<Rightarrow> ('op, 'fn) stmt" where
  "declare_all bodies = foldr (\<lambda>b s. Sequence (Declare b) s) bodies Empty_statement"

text \<open>The parser's state at the start of a script; the tokens have the types that the scanner gives them.\<close>

definition start_machine :: "(nat \<Rightarrow> int) \<Rightarrow> 'f pval \<Rightarrow> ('f, 'u) world \<Rightarrow> ('f, 'u) machine" where
  "start_machine tk rv w = \<lparr>ExecuteFlag = EXECUTE, Execute = True, css = [], for_stack = [], switch_stack = [],
     function_state_stack = [], fstate = \<lparr>loop_nest_level = 0, loop_change_type = DO_NOTHING, loop_change_level = 0,
       returned = False, function_name = False\<rparr>,
     return_value = rv, token_at = tk, marks = (\<lambda>l. (False, False)), jumped = None, world = w\<rparr>"

lemma ready_start: "ready (start_machine tk rv w)"
  by (simp add: ready_def start_machine_def SHOULD_EXECUTE_def)

lemma start_fields [simp]:
  "world (start_machine tk rv w) = w" "marks (start_machine tk rv w) = (\<lambda>l. (False, False))"
  "token_at (start_machine tk rv w) = tk" "for_stack (start_machine tk rv w) = []"
  "fstate (start_machine tk rv w) = \<lparr>loop_nest_level = 0, loop_change_type = DO_NOTHING, loop_change_level = 0,
     returned = False, function_name = False\<rparr>"
  by (simp_all add: start_machine_def)

lemma fresh_start: "fresh tk L (start_machine tk rv w)"
  by (auto simp: fresh_def agrees_def int_top_def)

text \<open>A declaration is passed over, also in a state in which code is executed.\<close>

lemma run_declare:
  assumes "ready m" "ok_stmt tk R s" "fresh tk (loops_stmt s) m"
  shows "\<exists>mk. run_stmt P g n (Declare s) m = Ok (m\<lparr>marks := mk\<rparr>) \<and> passed tk (loops_stmt s) (marks m) mk"
proof -
  let ?m = "start_function_decleration m"
  have "idle ?m" using assms(1) by (simp add: start_function_decleration_def ready_dont)
  then obtain mk where "run_stmt P g n s ?m = Ok (?m\<lparr>marks := mk\<rparr>)" "passed tk (loops_stmt s) (marks m) mk"
    using skip_stmt(1) [OF _ assms(2), of ?m P g n] assms(3) by auto
  moreover have "end_function_decleration (?m\<lparr>marks := mk\<rparr>) = m\<lparr>marks := mk\<rparr>"
    using assms(1) by (simp add: start_function_decleration_def end_function_decleration_def ready_def state_defs)
  ultimately show ?thesis by auto
qed

lemma run_declarations:
  assumes "ready m" "\<forall>b \<in> set bodies. ok_stmt tk R b" "fresh tk (\<Union>b \<in> set bodies. loops_stmt b) m"
  shows "\<exists>mk. run_stmt P g n (declare_all bodies) m = Ok (m\<lparr>marks := mk\<rparr>) \<and>
    passed tk (\<Union>b \<in> set bodies. loops_stmt b) (marks m) mk"
  using assms
proof (induction bodies arbitrary: m)
  case Nil
  then show ?case by (intro exI [of _ "marks m"]) (simp add: declare_all_def)
next
  case (Cons b bs)
  obtain mk where mk: "run_stmt P g n (Declare b) m = Ok (m\<lparr>marks := mk\<rparr>)" "passed tk (loops_stmt b) (marks m) mk"
    using run_declare [of m tk R b P g n] Cons.prems by auto
  obtain mk2 where "run_stmt P g n (declare_all bs) (m\<lparr>marks := mk\<rparr>) = Ok (m\<lparr>marks := mk2\<rparr>)"
    "passed tk (\<Union>b \<in> set bs. loops_stmt b) mk mk2"
    using Cons.IH [of "m\<lparr>marks := mk\<rparr>"] Cons.prems by auto
  with mk passed_union [OF mk(2) this(2)] show ?case
    by (intro exI [of _ mk2]) (simp add: declare_all_def del: run_stmt.simps(12))
qed

text \<open>
  C1: the interpreter runs a script as the structured semantics says. The flags, stacks and jumps of the actions
  give every \<open>if\<close>, \<open>while\<close>, \<open>do\<close>, \<open>for\<close>, \<open>switch\<close>, \<open>break\<close>, \<open>continue\<close>, \<open>return\<close>, conditional operand and call
  of a declared function its meaning: the same end, with the same world, or the same error, for every number of jumps.
  \<open>R f\<close> are the loops that a call of \<open>f\<close> may run. The statements must be well-formed (\<open>ok_stmt\<close>): no two nested loops
  have the same token, and no function called in the condition of a \<open>while\<close> can run that \<open>while\<close>.
\<close>

theorem script_refines:
  assumes "ok_program P tk R" "\<forall>f. R f \<subseteq> (\<Union>b \<in> set bodies. loops_stmt b)"
    and "\<forall>b \<in> set bodies. ok_stmt tk R b" "ok_stmt tk R main"
  shows "rel_result (\<lambda>(c, w1) m. world m = w1 \<and> Execute m = (c = Normal))
    (exec_stmt P n (False, 0, main) w)
    (run_stmt P g n (Sequence (declare_all bodies) main) (start_machine tk rv w))"
proof -
  let ?m = "start_machine tk rv w"
  obtain mk where mk: "run_stmt P g n (declare_all bodies) ?m = Ok (?m\<lparr>marks := mk\<rparr>)"
    and p: "passed tk (\<Union>b \<in> set bodies. loops_stmt b) (\<lambda>l. (False, False)) mk"
    using run_declarations [OF ready_start assms(3) fresh_start, of P g n rv w] by auto
  have "prepared tk R mk" using p assms(2) by (force simp: prepared_def passed_def grows_def)
  then have "can_run tk R (calls_stmt main) (?m\<lparr>marks := mk\<rparr>)"
    by (simp add: can_run_def ready_start agrees_def)
  moreover have "fresh tk (loops_stmt main) (?m\<lparr>marks := mk\<rparr>)" by (simp add: fresh_start)
  ultimately have "rel_result (after R (loops_stmt main) (?m\<lparr>marks := mk\<rparr>)) (exec_stmt P n (False, 0, main) w)
      (run_stmt P g n main (?m\<lparr>marks := mk\<rparr>))"
    using sim_stmtD [OF simulation(2) [OF assms(1)] assms(4)] by simp
  then show ?thesis by (auto simp: mk after_fields elim!: rel_mono)
qed

text \<open>
  A program for the examples: the action 0 takes the next number of the input, the others are constants. The function
  has a \<open>for\<close> that ends with the first 0 of the input, and returns what follows.
\<close>

definition read :: "(nat, nat) expr" where "read = Op 0 No_args"

definition demo_body :: "(nat, nat) stmt" where
  "demo_body = Sequence (For 7 Empty_expr (One_expr read) Empty_expr
       (If_else read (Break_continue DO_BREAK None) No_else)) (Return_from (Some read))"

definition demo_action :: "nat \<Rightarrow> int pval list \<Rightarrow> (int, int list) world \<Rightarrow> (int pval \<times> (int, int list) world) option" where
  "demo_action f vs w = (if f = 0 then (case snd w of [] \<Rightarrow> None | x # xs \<Rightarrow> Some (IS_LONG x, fst w, xs)) else Some (IS_LONG (int f), w))"

definition demo :: "(nat \<Rightarrow> (nat, nat) stmt option) \<Rightarrow> (nat, nat, int, int list) program" where
  "demo body = \<lparr>prog_doubles = int_doubles, action = demo_action, function_body = body,
     new_symbol_table = (\<lambda>f w. Some w), pass_value = (\<lambda>v w. Some w), enter_function = (\<lambda>f w. Some w),
     leave_function = Some, print_variable = (\<lambda>v w. Some w)\<rparr>"

definition demo_main :: "(nat, nat) stmt" where
  "demo_main = While 30 (Call 1 No_args) (Expression read)"

lemmas demo_defs = demo_def demo_action_def demo_body_def demo_main_def read_def

lemma demo_exec:
  "exec_stmt (demo [1 \<mapsto> demo_body]) (Suc (Suc (Suc (Suc 0)))) (False, 0, demo_main) (empty_store, [1, 0, 1, 1, 5, 9, 0, 0]) =
    Ok (Normal, empty_store, [])"
  by (simp add: demo_defs truth_value_def checked_def after_body_def control_constants)

theorem script_refines_witness:
  "\<exists>m. run_stmt (demo [1 \<mapsto> demo_body]) (IS_LONG 0) (Suc (Suc (Suc (Suc 0)))) (Sequence (declare_all [demo_body]) demo_main)
     (start_machine (\<lambda>l. if l = 7 then FOR else WHILE) (IS_LONG 0) (empty_store, [1, 0, 1, 1, 5, 9, 0, 0])) = Ok m \<and>
     world m = (empty_store, []) \<and> Execute m"
proof -
  let ?P = "demo [1 \<mapsto> demo_body]" and ?tk = "\<lambda>l. if l = (7 :: nat) then FOR else WHILE"
  let ?R = "\<lambda>f. if f = (1 :: nat) then {7 :: nat} else {}"
  have "ok_program ?P ?tk ?R" by (simp add: ok_program_def demo_defs calls_opt_def control_constants)
  moreover have "\<forall>f. ?R f \<subseteq> (\<Union>b \<in> set [demo_body]. loops_stmt b)" by (simp add: demo_defs)
  moreover have "\<forall>b \<in> set [demo_body]. ok_stmt ?tk ?R b" "ok_stmt ?tk ?R demo_main" by (simp_all add: demo_defs control_constants)
  ultimately have "rel_result (\<lambda>(c, w1) m. world m = w1 \<and> Execute m = (c = Normal))
    (exec_stmt ?P (Suc (Suc (Suc (Suc 0)))) (False, 0, demo_main) (empty_store, [1, 0, 1, 1, 5, 9, 0, 0]))
    (run_stmt ?P (IS_LONG 0) (Suc (Suc (Suc (Suc 0)))) (Sequence (declare_all [demo_body]) demo_main)
     (start_machine ?tk (IS_LONG 0) (empty_store, [1, 0, 1, 1, 5, 9, 0, 0])))" by (rule script_refines)
  then show ?thesis unfolding demo_exec by (simp add: rel_Ok_iff)
qed

text \<open>
  C5: code that is not executed has no effect. The parser runs through the statements after a \<open>break\<close>, a \<open>return\<close>, in a
  branch that is not taken and in the declaration of a function; no action is performed, every flag and stack is as
  before, and no jump is made. Only the \<open>for\<close> loops in it are marked, and their parts exchanged.
\<close>

theorem not_executed:
  assumes "idle m" "ok_stmt tk R s" "fresh tk (loops_stmt s) m"
  shows "\<exists>mk. run_stmt P g n s m = Ok (m\<lparr>marks := mk\<rparr>) \<and> (\<forall>l. l \<notin> loops_stmt s \<or> fst (marks m l) \<longrightarrow> mk l = marks m l) \<and>
    (\<forall>l \<in> loops_stmt s. tk l = FOR \<longrightarrow> fst (mk l))"
  using skip_stmt(1) [OF assms] by (force simp: passed_def grows_def)

theorem not_executed_witness:
  "\<exists>mk. run_stmt (demo [1 \<mapsto> demo_body]) (IS_LONG 0) 0 demo_body
      (set_flag DONT_EXECUTE (start_machine (\<lambda>l. FOR) (IS_LONG 0) (empty_store, []))) =
    Ok ((set_flag DONT_EXECUTE (start_machine (\<lambda>l. FOR) (IS_LONG 0) (empty_store, [])))\<lparr>marks := mk\<rparr>) \<and> fst (mk 7)"
proof -
  let ?m = "set_flag DONT_EXECUTE (start_machine (\<lambda>l. FOR) (IS_LONG 0) (empty_store :: int store, [] :: int list))"
  have "idle ?m" by (rule ready_dont [OF ready_start])
  moreover have "ok_stmt (\<lambda>l. FOR) (\<lambda>f. {}) demo_body" by (simp add: demo_defs control_constants)
  moreover have "fresh (\<lambda>l. FOR) (loops_stmt demo_body) ?m" by (auto simp: fresh_def agrees_def int_top_def set_flag_def start_machine_def)
  ultimately obtain mk where "run_stmt (demo [1 \<mapsto> demo_body]) (IS_LONG 0) 0 demo_body ?m = Ok (?m\<lparr>marks := mk\<rparr>)"
    "\<forall>l \<in> loops_stmt demo_body. FOR = FOR \<longrightarrow> fst (mk l)" using not_executed by blast
  moreover have "7 \<in> loops_stmt demo_body" by (simp add: demo_body_def)
  ultimately show ?thesis by blast
qed

text \<open>
  the condition of a \<open>while\<close> that calls the function it is in ends the script. When the condition is evaluated again
  the token still has the type of a further iteration, so that the parser of the called function does not accept it as the
  start of a loop. The structured semantics gives the script a result.
\<close>

definition recursive_body :: "(nat, nat) stmt" where
  "recursive_body = While 5 (Or (And read (Call 1 No_args)) read) Empty_statement"

lemma while_condition_recursion:
  "run_stmt (demo [1 \<mapsto> recursive_body]) g (Suc (Suc (Suc n))) (Sequence (declare_all [recursive_body]) (Expression (Call 1 No_args)))
     (start_machine (\<lambda>l. WHILE) rv (empty_store, [0, 1, 1, 0, 0, 0])) = Die \<and>
   exec_stmt (demo [1 \<mapsto> recursive_body]) (Suc (Suc (Suc n))) (False, 0, Expression (Call 1 No_args)) (empty_store, [0, 1, 1, 0, 0, 0]) =
     Ok (Normal, empty_store, [])"
proof
  show "exec_stmt (demo [1 \<mapsto> recursive_body]) (Suc (Suc (Suc n))) (False, 0, Expression (Call 1 No_args)) (empty_store, [0, 1, 1, 0, 0, 0]) =
     Ok (Normal, empty_store, [])"
    by (simp add: demo_defs recursive_body_def truth_value_def is_true_def pval_is_true_def convert_to_boolean_long_def var_reset_def
        destroy_var_reset [unfolded var_reset_def]
        checked_def after_body_def control_constants)
  show "run_stmt (demo [1 \<mapsto> recursive_body]) g (Suc (Suc (Suc n))) (Sequence (declare_all [recursive_body]) (Expression (Call 1 No_args)))
     (start_machine (\<lambda>l. WHILE) rv (empty_store, [0, 1, 1, 0, 0, 0])) = Die"
    by (simp add: demo_defs recursive_body_def declare_all_def start_machine_def starts_def cs_start_while_def cs_end_while_def
       cs_pre_boolean_and_def cs_post_boolean_and_def cs_pre_boolean_or_def cs_post_boolean_or_def cs_functioncall_pre_variable_passing_def
       cs_functioncall_post_variable_passing_def start_function_decleration_def end_function_decleration_def and_false or_true
       boolean_result_def boolean_or_function_def boolean_and_function_def is_long_def lval_def
       state_defs in_world_def next_token_is_def checked_def control_constants)
qed

end
