(* ===== verification/Spec2Isabelle.thy ===== *)
theory Spec2Isabelle
  imports Hash_Props Resource_List Stack Alloc Serialize_Props Operators_Props Increment Array_Union Php_Math Slashes Base64 Url Str_Props Bc_Props Token_Props Control_Props
begin

text \<open>
  A verification library for the PHP 3 interpreter that XSym analyses (\<^verbatim>\<open>src/src/php-src/\<close>, C). XSym
  runs the interpreter's built-in functions under a symbolic executor to derive models of them; the
  library states and proves what these functions, and the data structures under them, compute.

  Parts and theories.

  \<^item> \<open>Base\<close>: the shared vocabulary. C's \<open>char\<close>, \<open>int\<close>, \<open>long\<close> and pointers on an LP64 machine, the
    functions of the C library the code calls (NUL-terminated strings, character classes of the C locale,
    \<open>strtol\<close>), and generic lemmas.

  \<^item> The hash table, \<^verbatim>\<open>php3_hash.c\<close>: \<open>Hash_Model\<close> (the table and its buckets in an explicit heap of
    addresses; hashing, initialisation, growing, insertion, lookup), \<open>Hash_Ops\<close> (deletion, destruction,
    traversal, apply, copy, merge, sort, extremes), \<open>Hash_Inv\<close> (the invariant \<open>ht_inv\<close>: the doubly linked
    order list, the chain of each slot and the contents agree) and the abstraction \<open>ht_abs\<close> to an
    association list in insertion order, \<open>Hash_Proofs\<close>, \<open>Hash_Insert\<close>, \<open>Hash_Delete\<close>, \<open>Hash_Walk\<close>,
    \<open>Hash_Bulk\<close> (each operation keeps the invariant and is the corresponding function on the list) and
    \<open>Hash_Props\<close> (the properties). \<open>None\<close> as the result of an operation is a memory fault or a loop that
    does not end; \<open>mallocs\<close> is the list of outcomes of future allocations.

  \<^item> \<open>Index_Table\<close>: the interface \<open>index_table\<close> by which the rest of the interpreter uses tables with
    numeric keys, interpreted on the hash table; \<open>Resource_List\<close>, \<^verbatim>\<open>list.c\<close>, is its client.

  \<^item> \<open>Stack\<close>: \<^verbatim>\<open>stack.c\<close>, and the interface \<open>lifo\<close> interpreted on it.

  \<^item> \<open>Codec\<close>: the interface of an encoder with its decoder; it is interpreted in \<open>Slashes\<close> (\<open>addslashes\<close>,
    also \<open>quotemeta\<close> and \<open>bin2hex\<close>, of \<^verbatim>\<open>functions/string.c\<close>), \<open>Base64\<close> (\<^verbatim>\<open>functions/base64.c\<close>) and
    \<open>Url\<close> (\<^verbatim>\<open>functions/url.c\<close> and \<^verbatim>\<open>quot_print.c\<close>).

  \<^item> The string functions of \<^verbatim>\<open>functions/string.c\<close>: \<open>Str_Search\<close> (\<open>strpos\<close>, \<open>explode\<close>, \<open>implode\<close>,
    \<open>str_replace\<close>, \<open>stristr\<close>, \<open>strrpos\<close>, ...), \<open>Str_Edit\<close> (\<open>trim\<close>, case, \<open>basename\<close>, \<open>chunk_split\<close>,
    \<open>substr\<close>, \<open>strtr\<close>, \<open>strrev\<close>), \<open>Str_Token\<close> (\<open>strtok\<close> with its static variables), \<open>Str_Similar\<close>
    (\<open>similar_text\<close>, and \<open>soundex\<close> and \<open>levenshtein\<close> of their own files), \<open>Str_Props\<close> (the properties).

  \<^item> Arbitrary precision numbers, \<^verbatim>\<open>functions/number.c\<close>: \<open>Bc_Num\<close> (representation, comparison,
    addition, subtraction, machine integers), \<open>Bc_Mul\<close>, \<open>Bc_Div\<close> (Knuth's division), \<open>Bc_Raise\<close>
    (powers), \<open>Bc_Sqrt\<close> (Newton's iteration), \<open>Bc_Math\<close> (text form, and the PHP functions of
    \<^verbatim>\<open>functions/bcmath.c\<close>), \<open>Bc_Props\<close> (the properties, over the rational value \<open>bc_val\<close>).

  \<^item> The memory manager, \<^verbatim>\<open>alloc.c\<close>: \<open>Linked\<close> (segments of a doubly linked list), \<open>Alloc\<close> (\<open>emalloc\<close>,
    \<open>efree\<close>, \<open>erealloc\<close> and the shutdown; a simulation relation \<open>mem_rel\<close> between the list of headers with its
    caches and the map of live blocks). In this repository every block of \<open>emalloc\<close> has 800 bytes, whatever size was
    asked for. \<open>Base64\<close> and \<open>unserialize\<close> check their blocks against that (\<open>block_bytes\<close>); the other theories check a
    buffer against the size the code asks for, and the hash table's blocks are as large as they are asked for.

  \<^item> Values, \<^verbatim>\<open>php.h\<close>: \<open>Values\<close> (a \<open>pval\<close>, the store of tables arrays point to, the trees values stand for),
    \<open>Variables\<close> (\<open>pval_destructor\<close> and \<open>pval_copy_constructor\<close> of \<^verbatim>\<open>variables.c\<close>, on the hash table's own
    operations), \<open>Variables_Proofs\<close> (the ownership invariant \<open>owned\<close>: which tables a value reaches, each once;
    destruction frees exactly them, a copy reaches fresh ones), \<open>Array_Union\<close> (\<open>+\<close> of two arrays, and a copy that is
    destroyed).

  \<^item> The operators, \<^verbatim>\<open>operators.c\<close>: \<open>Convert\<close> (conversions, \<open>is_numeric_string\<close>, \<open>pval_is_true\<close>), \<open>Operators\<close>
    (every operator, on integers, doubles, strings and arrays), \<open>Operators_Props\<close> (comparison, truth), \<open>Increment\<close>
    (increment of a string), \<open>Arithmetic\<close> (what the overflow test by \<open>double\<close> arithmetic decides). Doubles are a type
    variable with a record \<open>doubles\<close> of the operations of the machine; the predicate \<open>ieee\<close> says that they round to
    nearest, and is shown to hold of an instance.

  \<^item> \<open>Decimal\<close> (printing and reading of \<open>long\<close>s), \<open>Serialize\<close> (\<open>serialize\<close> and \<open>unserialize\<close> of
    \<^verbatim>\<open>functions/var.c\<close>), \<open>Serialize_Proofs\<close>, \<open>Serialize_Safe\<close> (which texts are read without a
    fault), and \<open>Serialize_Props\<close>.

  \<^item> \<open>Php_Math\<close>: the integer functions of \<^verbatim>\<open>functions/math.c\<close> (number bases, \<open>number_format\<close>).

  \<^item> The token caches, \<^verbatim>\<open>token_cache.c\<close>: \<open>Token_Cache\<close> (the arrays of tokens, reading, jumps, marks, the exchange of
    two parts of a \<open>for\<close>, and precompiled scripts; the scanner \<open>lex_scan\<close> is an argument) and \<open>Token_Props\<close>.

  \<^item> The control structures, \<^verbatim>\<open>control_structures_inline.h\<close> with the actions of \<^verbatim>\<open>language-parser.y\<close>: \<open>Control\<close> (the
    state of the parser, one definition for each action, and \<open>run_stmt\<close>, \<open>run_expr\<close>, ..., which perform the
    actions of a phrase in the order of the grammar). A phrase is a tree: the LALR automaton, which reads it from the token
    cache, is not modelled, but each loop and call reads the type of its token and is left by a jump, as in the code.
    The colon form of \<open>elseif\<close>, whose action reads an indeterminate value, has no phrase.
    The actions of the other expressions and statements, and the symbol tables of a call, are arguments, the record
    \<open>program\<close>. \<open>Control_Spec\<close> is the specification, a structured semantics without flags, stacks or jumps
    (\<open>exec_stmt\<close>, \<open>exec_expr\<close>); \<open>Control_Proofs\<close> (phrases that are passed over), \<open>Control_Sim\<close> (expressions and
    calls), \<open>Control_Branches\<close> and \<open>Control_Loops\<close> prove the simulation, \<open>Control_Fuel\<close> that the number of jumps
    does not matter, and \<open>Control_Props\<close> has the properties.

  Conventions. A definition has the name of the C function, without a leading underscore, and a loop has
  a function of its own. A PHP function is modelled on its arguments after \<open>getParameters\<close> and the
  conversions; a call with the wrong number of arguments, which returns before any of the code
  here, is left out. A string argument is the list of its bytes, and where the C code reads it up to a NUL the
  model does too. Writing or reading outside a block, and an integer overflow that C leaves undefined
  but where the code depends on it, is the value \<open>None\<close> or is written out as wrap-around (\<open>wrap_int\<close>,
  \<open>wrap_long\<close>).

  Termination. Recursive definitions are total; the loops over the heap, the loop of \<open>bc_sqrt\<close> and that of
  \<open>bc_raisemod\<close> are \<open>partial_function (option)\<close>, and the lemmas show that they return. A script may run for
  ever: \<open>run_stmt\<close> and \<open>exec_stmt\<close> have a bound on the number of jumps (a further iteration of a loop, or a call), the
  same for both, and a run that stays below it does not depend on it (lemma \<open>more_fuel\<close>).

  Bounds. Lengths and scales are natural numbers; where the code computes with them in \<open>int\<close>s the lemmas
  ask for sizes below \<open>2 ^ 30\<close> or \<open>2 ^ 31\<close>. The height of a stack, the position in a sorted table, and the length and the
  count of \<open>implode\<close> are \<open>int\<close>s that wrap around. \<open>False\<close> is the empty string in this interpreter (\<open>RETVAL_FALSE\<close>); where a
  caller can tell the two apart by the type, as in \<open>strpos\<close>, the models of the string functions keep them apart as
  \<open>None\<close> and \<open>Some\<close>, \<open>strtok\<close> does not. A negative scale of a bcmath function, which the code does not
  reject, is \<open>None\<close>. Token numbers name a token in scripts of at most \<open>2 ^ 11\<close> caches of \<open>2 ^ 20\<close> tokens. The reference
  counts of \<open>bc_num\<close> are left out: no operation changes a number that
  is shared, with the exception recorded as a finding (the divisor 1).

  Not modelled. \<^verbatim>\<open>src/klee\<close> (the vendored symbolic executor), the generated scanner and parser, the PCRE and
  regex libraries, the bindings to databases and services, and the interpreter's glue (output, servers,
  configuration). In \<^verbatim>\<open>string.c\<close>: \<open>strip_tags\<close>, \<open>parse_str\<close>, \<open>setlocale\<close>, \<open>nl2br\<close>, \<open>hebrev\<close>; in \<^verbatim>\<open>url.c\<close>:
  \<open>url_parse\<close>; in \<^verbatim>\<open>number.c\<close>: \<open>out_num\<close> (compiled out) and \<open>out_long\<close> (not called); in \<^verbatim>\<open>math.c\<close>: the functions
  of \<open>double\<close>s, which only call the C library; in \<^verbatim>\<open>var.c\<close>: \<open>var_dump\<close>. In the control structures: variables and
  assignments, classes and methods, parameters by reference, built-in functions, \<open>global\<close> and \<open>static\<close>, \<open>require\<close>,
  \<open>include\<close> and \<open>eval\<close> (which switch the scanner to another text), and the display of sources. \<open>convert_to_string\<close> is disabled in this
  repository, and modelled so. The text of \<open>php3_error\<close> messages is left out everywhere.
\<close>

end
